(* ===== verification/Prelude.thy ===== *)
theory Prelude
  imports Main "HOL-Library.Word" "HOL-Library.Monad_Syntax"
begin

text \<open>
  The shared base of the library: the machine types, the kernel's memory as a partial map of
  8-byte cells (\<open>None\<close> is an address that faults), 64-bit and byte accesses to it (little
  endian), the element-by-element copying and filling loops of the C library, and the
  contract \<open>storage\<close> that both kinds of access satisfy: a store to a mapped address is defined
  and changes what is read at that address only.
\<close>

unbundle bit_operations_syntax

type_synonym u8 = "8 word"
type_synonym u16 = "16 word"
type_synonym u32 = "32 word"
type_synonym u64 = "64 word"
type_synonym mem = "u64 \<rightharpoonup> u64"

abbreviation (input) NULL :: u64 where
  "NULL \<equiv> 0"

definition ld64 :: "mem \<Rightarrow> u64 \<Rightarrow> u64 option" where
  "ld64 m p = m p"

definition st64 :: "mem \<Rightarrow> u64 \<Rightarrow> u64 \<Rightarrow> mem option" where
  "st64 m p v = (case m p of None \<Rightarrow> None | Some _ \<Rightarrow> Some (m(p \<mapsto> v)))"

definition cell_of :: "u64 \<Rightarrow> u64" where
  "cell_of p = p AND NOT (mask 3)"

definition lane_of :: "u64 \<Rightarrow> nat" where
  "lane_of p = 8 * unat (p AND mask 3)"

definition ld8 :: "mem \<Rightarrow> u64 \<Rightarrow> u8 option" where
  "ld8 m p = map_option (\<lambda>c. ucast (drop_bit (lane_of p) c)) (m (cell_of p))"

definition put_lane :: "nat \<Rightarrow> u64 \<Rightarrow> u8 \<Rightarrow> u64" where
  "put_lane k c b = (c AND NOT (push_bit k (mask 8))) OR push_bit k (ucast b)"

definition st8 :: "mem \<Rightarrow> u64 \<Rightarrow> u8 \<Rightarrow> mem option" where
  "st8 m p b =
     (case m (cell_of p) of
        None \<Rightarrow> None
      | Some c \<Rightarrow> Some (m(cell_of p \<mapsto> put_lane (lane_of p) c b)))"

lemma u64_of_nat:
  fixes a b :: nat
  assumes "a < 2 ^ 64" "b < 2 ^ 64"
  shows u64_of_nat_eq: "(of_nat a :: u64) = of_nat b \<longleftrightarrow> a = b"
    and u64_of_nat_le: "(of_nat a :: u64) \<le> of_nat b \<longleftrightarrow> a \<le> b"
    and u64_of_nat_less: "(of_nat a :: u64) < of_nat b \<longleftrightarrow> a < b"
  using assms by (simp_all add: word_unat_eq_iff word_le_nat_alt word_less_nat_alt unat_of_nat)

lemma bit_above: "LENGTH('a) \<le> k \<Longrightarrow> \<not> bit (w :: 'a::len word) k"
  by (meson bit_imp_le_length leD)

lemma unat_2p: "n < 64 \<Longrightarrow> unat (2 ^ n :: u64) = 2 ^ n"
  using unat_of_nat [of "2 ^ n", where 'a = 64] power_strict_increasing [of n 64 "2 :: nat"] by simp

lemma unat_low3: "unat (p AND mask 3 :: u64) = unat p mod 8"
  by (simp add: take_bit_eq_mask [symmetric] take_bit_eq_mod unat_mod)

lemma cell_lane_eq_iff: "cell_of p = cell_of q \<and> lane_of p = lane_of q \<longleftrightarrow> p = q"
proof
  assume a: "cell_of p = cell_of q \<and> lane_of p = lane_of q"
  then have "p AND mask 3 = q AND mask 3"
    by (simp add: lane_of_def word_unat_eq_iff)
  with a have "(p AND NOT (mask 3)) OR (p AND mask 3) = (q AND NOT (mask 3)) OR (q AND mask 3)"
    by (simp add: cell_of_def)
  then show "p = q"
    by (simp add: bit_eq_iff bit_simps) blast
qed simp

lemma lane_bound: "lane_of p \<le> 56" "lane_of p mod 8 = 0"
  by (auto simp: lane_of_def unat_low3)

lemma bit_put_lane:
  "k \<le> 56 \<Longrightarrow> bit (put_lane k c b) n =
     (if k \<le> n \<and> n < k + 8 then bit b (n - k) else bit c n)"
  by (auto simp: put_lane_def bit_simps dest: bit_imp_le_length)

lemma get_put_lane: "k \<le> 56 \<Longrightarrow> ucast (drop_bit k (put_lane k c b)) = b"
  by (rule bit_word_eqI) (simp add: bit_simps bit_put_lane)

lemma get_put_lane_other:
  "k \<le> 56 \<Longrightarrow> j \<le> 56 \<Longrightarrow> k mod 8 = 0 \<Longrightarrow> j mod 8 = 0 \<Longrightarrow> j \<noteq> k \<Longrightarrow>
   (ucast (drop_bit j (put_lane k c b)) :: u8) = ucast (drop_bit j c)"
  by (rule bit_word_eqI) (auto simp add: bit_simps bit_put_lane; presburger)

primrec copy_seq :: "('m \<Rightarrow> 'a \<Rightarrow> 'v option) \<Rightarrow> ('m \<Rightarrow> 'a \<Rightarrow> 'v \<Rightarrow> 'm option) \<Rightarrow>
    'm \<Rightarrow> ('i \<Rightarrow> 'a) \<Rightarrow> ('i \<Rightarrow> 'a) \<Rightarrow> 'i list \<Rightarrow> 'm option" where
  "copy_seq ld st m df sf [] = Some m"
| "copy_seq ld st m df sf (i # is) =
     do { v \<leftarrow> ld m (sf i); m' \<leftarrow> st m (df i) v; copy_seq ld st m' df sf is }"

primrec fill_seq :: "('m \<Rightarrow> 'a \<Rightarrow> 'v \<Rightarrow> 'm option) \<Rightarrow>
    'm \<Rightarrow> ('i \<Rightarrow> 'a) \<Rightarrow> ('i \<Rightarrow> 'v) \<Rightarrow> 'i list \<Rightarrow> 'm option" where
  "fill_seq st m df f [] = Some m"
| "fill_seq st m df f (i # is) = do { m' \<leftarrow> st m (df i) (f i); fill_seq st m' df f is }"

primrec for_each :: "('i \<Rightarrow> 's \<Rightarrow> 's option) \<Rightarrow> 'i list \<Rightarrow> 's \<Rightarrow> 's option" where
  "for_each f [] s = Some s"
| "for_each f (i # is) s = do { s \<leftarrow> f i s; for_each f is s }"

lemma for_each_mono [partial_function_mono]:
  assumes "\<And>i s. mono_option (\<lambda>f. B f i s)"
  shows "mono_option (\<lambda>f. for_each (B f) is s)"
proof (induction "is" arbitrary: s)
  case (Cons i "is")
  then show ?case using assms by (simp add: Partial_Function.bind_mono)
qed (simp add: option.const_mono)

lemma for_each_range:
  assumes "P a s" "a \<le> b"
    and "\<And>i s. a \<le> i \<Longrightarrow> i < b \<Longrightarrow> P i s \<Longrightarrow> \<exists>s'. f i s = Some s' \<and> P (Suc i) s'"
  shows "\<exists>s'. for_each f [a..<b] s = Some s' \<and> P b s'"
  using assms
proof (induction "b - a" arbitrary: a s)
  case 0
  then show ?case by simp
next
  case (Suc n)
  then have ab: "[a..<b] = a # [Suc a..<b]" by (simp add: upt_conv_Cons)
  from Suc.prems Suc.hyps(2) obtain s' where s': "f a s = Some s'" "P (Suc a) s'" by (metis le_refl zero_less_Suc zero_less_diff)
  have "\<exists>t. for_each f [Suc a..<b] s' = Some t \<and> P b t"
    by (rule Suc.hyps(1)) (use Suc.prems Suc.hyps(2) s' in auto)
  with s' show ?case by (auto simp: ab)
qed

locale storage =
  fixes ld :: "'m \<Rightarrow> 'a \<Rightarrow> 'v option"
    and st :: "'m \<Rightarrow> 'a \<Rightarrow> 'v \<Rightarrow> 'm option"
  assumes st_defined: "ld m a \<noteq> None \<Longrightarrow> \<exists>m'. st m a v = Some m'"
    and ld_st: "st m a v = Some m' \<Longrightarrow> ld m' b = (if b = a then Some v else ld m b)"
begin

lemma st_keeps: "st m a v = Some m' \<Longrightarrow> ld m b \<noteq> None \<Longrightarrow> ld m' b \<noteq> None"
  by (auto simp: ld_st)

lemma fill_seq_ok:
  "\<lbrakk>inj_on df (set is); distinct is; \<forall>i\<in>set is. ld m (df i) \<noteq> None\<rbrakk> \<Longrightarrow>
   \<exists>m'. fill_seq st m df f is = Some m' \<and>
     (\<forall>i\<in>set is. ld m' (df i) = Some (f i)) \<and>
     (\<forall>b. b \<notin> df ` set is \<longrightarrow> ld m' b = ld m b)"
proof (induction "is" arbitrary: m)
  case Nil
  then show ?case by simp
next
  case (Cons i js)
  from Cons.prems obtain m1 where m1: "st m (df i) (f i) = Some m1"
    using st_defined by force
  have "\<forall>j\<in>set js. ld m1 (df j) \<noteq> None"
    using Cons.prems st_keeps [OF m1] by auto
  then obtain m' where m': "fill_seq st m1 df f js = Some m'"
      "\<forall>j\<in>set js. ld m' (df j) = Some (f j)" "\<forall>b. b \<notin> df ` set js \<longrightarrow> ld m' b = ld m1 b"
    using Cons.IH [of m1] Cons.prems by auto
  moreover have "df i \<notin> df ` set js"
    using Cons.prems by auto
  ultimately show ?case
    by (auto simp: m1 ld_st [OF m1])
qed

lemma copy_seq_ok:
  "\<lbrakk>inj_on df (set is); distinct is; \<forall>i\<in>set is. ld m (df i) \<noteq> None \<and> ld m (sf i) \<noteq> None;
    sorted_wrt (\<lambda>i j. df i \<noteq> sf j) is\<rbrakk> \<Longrightarrow>
   \<exists>m'. copy_seq ld st m df sf is = Some m' \<and>
     (\<forall>i\<in>set is. ld m' (df i) = ld m (sf i)) \<and>
     (\<forall>b. b \<notin> df ` set is \<longrightarrow> ld m' b = ld m b)"
proof (induction "is" arbitrary: m)
  case Nil
  then show ?case by simp
next
  case (Cons i js)
  from Cons.prems obtain v where v: "ld m (sf i) = Some v"
    by force
  from Cons.prems obtain m1 where m1: "st m (df i) v = Some m1"
    using st_defined by force
  have fresh: "df i \<notin> df ` set js"
    using Cons.prems by auto
  have src: "ld m1 (sf j) = ld m (sf j)" if "j \<in> set js" for j
    using Cons.prems that by (auto simp: ld_st [OF m1])
  have keep: "\<forall>j\<in>set js. ld m1 (df j) \<noteq> None \<and> ld m1 (sf j) \<noteq> None"
    using Cons.prems st_keeps [OF m1] by auto
  obtain m' where m': "copy_seq ld st m1 df sf js = Some m'"
      "\<forall>j\<in>set js. ld m' (df j) = ld m1 (sf j)" "\<forall>b. b \<notin> df ` set js \<longrightarrow> ld m' b = ld m1 b"
    using Cons.IH [of m1] Cons.prems keep by auto
  then show ?case
    using fresh src by (auto simp: v m1 ld_st [OF m1])
qed

end

lemma ld8_st8: "st8 m p b = Some m' \<Longrightarrow> ld8 m' q = (if q = p then Some b else ld8 m q)"
  using cell_lane_eq_iff [of p q]
  by (auto simp: st8_def ld8_def get_put_lane get_put_lane_other lane_bound split: option.splits)

interpretation cells: storage ld64 st64
  by unfold_locales (auto simp: ld64_def st64_def split: option.splits)

interpretation bytes: storage ld8 st8
  by unfold_locales (auto simp: ld8_st8, auto simp: ld8_def st8_def)

text \<open>
  Simulation of stateful operations: from related states, when the first operation is defined so is
  the second, and the results are related.
\<close>

definition sim :: "('s \<Rightarrow> 't \<Rightarrow> bool) \<Rightarrow> ('x \<Rightarrow> 'y \<Rightarrow> bool) \<Rightarrow> ('s \<Rightarrow> 'x option) \<Rightarrow> ('t \<Rightarrow> 'y option) \<Rightarrow> bool" where
  "sim R Q f g \<longleftrightarrow> (\<forall>s t x. R s t \<longrightarrow> f s = Some x \<longrightarrow> (\<exists>y. g t = Some y \<and> Q x y))"

named_theorems sim_intros

lemma simI: "(\<And>s t x. R s t \<Longrightarrow> f s = Some x \<Longrightarrow> \<exists>y. g t = Some y \<and> Q x y) \<Longrightarrow> sim R Q f g"
  by (simp add: sim_def)

lemma simD: "sim R Q f g \<Longrightarrow> R s t \<Longrightarrow> f s = Some x \<Longrightarrow> \<exists>y. g t = Some y \<and> Q x y"
  by (simp add: sim_def)

lemma sim_return [sim_intros]: "sim R R Some Some"
  by (simp add: sim_def)

lemma sim_bind [sim_intros]: "sim R R f g \<Longrightarrow> sim R P f' g' \<Longrightarrow> sim R P (\<lambda>s. f s \<bind> f') (\<lambda>t. g t \<bind> g')"
  unfolding sim_def by (fastforce simp: bind_eq_Some_conv)

lemma sim_bind_pure [sim_intros]:
  "(\<And>x. r = Some x \<Longrightarrow> sim R Q (f x) (g x)) \<Longrightarrow> sim R Q (\<lambda>s. r \<bind> (\<lambda>x. f x s)) (\<lambda>t. r \<bind> (\<lambda>x. g x t))"
  unfolding sim_def by (cases r) auto

lemma sim_read:
  "(\<And>s t x. R s t \<Longrightarrow> h s = Some x \<Longrightarrow> k t = Some x) \<Longrightarrow> (\<And>x. sim R Q (f x) (g x)) \<Longrightarrow>
   sim R Q (\<lambda>s. h s \<bind> (\<lambda>x. f x s)) (\<lambda>t. k t \<bind> (\<lambda>x. g x t))"
  unfolding sim_def by (fastforce simp: bind_eq_Some_conv)

lemma sim_if [sim_intros]:
  "(P \<Longrightarrow> sim R Q f g) \<Longrightarrow> (\<not> P \<Longrightarrow> sim R Q f' g') \<Longrightarrow>
   sim R Q (\<lambda>s. if P then f s else f' s) (\<lambda>t. if P then g t else g' t)"
  by (cases P) auto

lemma sim_option [sim_intros]:
  "(r = None \<Longrightarrow> sim R Q f g) \<Longrightarrow> (\<And>x. r = Some x \<Longrightarrow> sim R Q (f' x) (g' x)) \<Longrightarrow>
   sim R Q (\<lambda>s. case r of None \<Rightarrow> f s | Some x \<Rightarrow> f' x s) (\<lambda>t. case r of None \<Rightarrow> g t | Some x \<Rightarrow> g' x t)"
  by (cases r) auto

lemma sim_prod [sim_intros]:
  "(\<And>a b. r = (a, b) \<Longrightarrow> sim R Q (f a b) (g a b)) \<Longrightarrow>
   sim R Q (\<lambda>s. case r of (a, b) \<Rightarrow> f a b s) (\<lambda>t. case r of (a, b) \<Rightarrow> g a b t)"
  by (cases r) auto

lemma sim_fail [sim_intros]: "sim R Q (\<lambda>s. None) g"
  by (simp add: sim_def)

end
