(* ===== verification/Fifo.thy ===== *)
theory Fifo
  imports Prelude
begin

text \<open>
  The contract of a first-in first-out queue, as \<^verbatim>\<open>libc/kernel/list.c\<close> promises it to the
  scheduler and \<^verbatim>\<open>device/input/iqueue.c\<close> to the keyboard: \<open>rep s xs\<close> says that the state
  \<open>s\<close> holds the elements \<open>xs\<close>, oldest first.
\<close>

datatype 'a qop = Put 'a | Get

fun qrun :: "('s \<Rightarrow> 'a \<Rightarrow> 's option) \<Rightarrow> ('s \<Rightarrow> ('a \<times> 's) option) \<Rightarrow> 's \<Rightarrow> 'a qop list \<Rightarrow> ('a list \<times> 's) option" where
  "qrun put get s [] = Some ([], s)"
| "qrun put get s (Put x # ops) = do { s \<leftarrow> put s x; qrun put get s ops }"
| "qrun put get s (Get # ops) =
     do { (x, s) \<leftarrow> get s; (outs, s) \<leftarrow> qrun put get s ops; Some (x # outs, s) }"

fun puts :: "'a qop list \<Rightarrow> 'a list" where
  "puts [] = []"
| "puts (Put x # ops) = x # puts ops"
| "puts (Get # ops) = puts ops"

fun admits :: "('s \<Rightarrow> 'a list \<Rightarrow> 'a \<Rightarrow> bool) \<Rightarrow> ('s \<Rightarrow> 'a \<Rightarrow> 's option) \<Rightarrow> ('s \<Rightarrow> ('a \<times> 's) option) \<Rightarrow>
    's \<Rightarrow> 'a list \<Rightarrow> 'a qop list \<Rightarrow> bool" where
  "admits ok put get s xs [] \<longleftrightarrow> True"
| "admits ok put get s xs (Put x # ops) \<longleftrightarrow> ok s xs x \<and>
     (case put s x of None \<Rightarrow> False | Some s' \<Rightarrow> admits ok put get s' (xs @ [x]) ops)"
| "admits ok put get s xs (Get # ops) \<longleftrightarrow> xs \<noteq> [] \<and>
     (case get s of None \<Rightarrow> False | Some (x, s') \<Rightarrow> admits ok put get s' (tl xs) ops)"

locale fifo =
  fixes rep :: "'s \<Rightarrow> 'a list \<Rightarrow> bool"
    and ok :: "'s \<Rightarrow> 'a list \<Rightarrow> 'a \<Rightarrow> bool"
    and put :: "'s \<Rightarrow> 'a \<Rightarrow> 's option"
    and get :: "'s \<Rightarrow> ('a \<times> 's) option"
  assumes put_law: "rep s xs \<Longrightarrow> ok s xs x \<Longrightarrow> \<exists>s'. put s x = Some s' \<and> rep s' (xs @ [x])"
    and get_law: "rep s (x # xs) \<Longrightarrow> \<exists>s'. get s = Some (x, s') \<and> rep s' xs"
begin

lemma run_fifo:
  "\<lbrakk>rep s xs; admits ok put get s xs ops\<rbrakk> \<Longrightarrow>
   \<exists>outs s' ys. qrun put get s ops = Some (outs, s') \<and> rep s' ys \<and> outs @ ys = xs @ puts ops"
proof (induction ops arbitrary: s xs rule: puts.induct)
  case 1
  then show ?case by simp
next
  case (2 x ops)
  then obtain s' where "put s x = Some s'" "rep s' (xs @ [x])"
    using put_law by fastforce
  with 2 show ?case by fastforce
next
  case (3 ops)
  then obtain x xs' where xs: "xs = x # xs'"
    by (cases xs) auto
  with 3 obtain s' where "get s = Some (x, s')" "rep s' xs'"
    using get_law by blast
  with 3 xs show ?case by fastforce
qed

end

end
