(* ===== verification/Linked_List.thy ===== *)
theory Linked_List
  imports Fifo "HOL-Library.Multiset"
begin

text \<open>
  Intrusive doubly linked lists: \<^verbatim>\<open>libc/kernel/list.c\<close>, \<^verbatim>\<open>list.h\<close>. A list element is two
  pointers in memory, \<^verbatim>\<open>prev\<close> at its address and \<^verbatim>\<open>next\<close> 8 bytes above; a list is its head and
  its tail element. Every function of the file is a definition over the memory, with \<open>None\<close> for a
  fault; loops are partial functions, so that a result is also a proof of termination.
  \<open>dlist m l xs\<close> says that the list at \<open>l\<close> holds the elements \<open>xs\<close>. The theory shows the
  effect of insertion, removal, splicing, pushing, popping, counting and reversal on that
  abstraction, with the memory they leave alone, and that a list is an instance of \<open>fifo\<close>.
\<close>

section \<open>Layout of the structures\<close>

definition elem_prev :: "u64 \<Rightarrow> u64" where
  "elem_prev e = e"

definition elem_next :: "u64 \<Rightarrow> u64" where
  "elem_next e = e + 8"

definition list_head :: "u64 \<Rightarrow> u64" where
  "list_head l = l"

definition list_tail :: "u64 \<Rightarrow> u64" where
  "list_tail l = l + 16"

section \<open>Operations\<close>

definition list_next :: "mem \<Rightarrow> u64 \<Rightarrow> u64 option" where
  "list_next m e = ld64 m (elem_next e)"

definition list_prev :: "mem \<Rightarrow> u64 \<Rightarrow> u64 option" where
  "list_prev m e = ld64 m (elem_prev e)"

definition is_head :: "mem \<Rightarrow> u64 \<Rightarrow> bool option" where
  "is_head m e =
     (if e = NULL then Some False
      else do { p \<leftarrow> ld64 m (elem_prev e);
                if p \<noteq> NULL then Some False
                else do { n \<leftarrow> ld64 m (elem_next e); Some (n \<noteq> NULL) } })"

definition is_interior :: "mem \<Rightarrow> u64 \<Rightarrow> bool option" where
  "is_interior m e =
     (if e = NULL then Some False
      else do { p \<leftarrow> ld64 m (elem_prev e);
                if p = NULL then Some False
                else do { n \<leftarrow> ld64 m (elem_next e); Some (n \<noteq> NULL) } })"

definition is_tail :: "mem \<Rightarrow> u64 \<Rightarrow> bool option" where
  "is_tail m e =
     (if e = NULL then Some False
      else do { p \<leftarrow> ld64 m (elem_prev e);
                if p = NULL then Some False
                else do { n \<leftarrow> ld64 m (elem_next e); Some (n = NULL) } })"

definition list_init :: "mem \<Rightarrow> u64 \<Rightarrow> mem option" where
  "list_init m l =
     do { m \<leftarrow> st64 m (elem_prev (list_head l)) NULL;
          m \<leftarrow> st64 m (elem_next (list_head l)) (list_tail l);
          m \<leftarrow> st64 m (elem_prev (list_tail l)) (list_head l);
          st64 m (elem_next (list_tail l)) NULL }"

definition list_begin :: "mem \<Rightarrow> u64 \<Rightarrow> u64 option" where
  "list_begin m l = ld64 m (elem_next (list_head l))"

definition list_end :: "u64 \<Rightarrow> u64" where
  "list_end l = list_tail l"

definition list_rbegin :: "mem \<Rightarrow> u64 \<Rightarrow> u64 option" where
  "list_rbegin m l = ld64 m (elem_prev (list_tail l))"

definition list_rend :: "u64 \<Rightarrow> u64" where
  "list_rend l = list_head l"

definition list_insert :: "mem \<Rightarrow> u64 \<Rightarrow> u64 \<Rightarrow> mem option" where
  "list_insert m before e =
     do { p \<leftarrow> ld64 m (elem_prev before);
          m \<leftarrow> st64 m (elem_prev e) p;
          m \<leftarrow> st64 m (elem_next e) before;
          p \<leftarrow> ld64 m (elem_prev before);
          m \<leftarrow> st64 m (elem_next p) e;
          st64 m (elem_prev before) e }"

definition list_splice :: "mem \<Rightarrow> u64 \<Rightarrow> u64 \<Rightarrow> u64 \<Rightarrow> mem option" where
  "list_splice m before first last0 =
     (if first = last0 then Some m
      else do {
        last1 \<leftarrow> list_prev m last0;
        p \<leftarrow> ld64 m (elem_prev first);
        n \<leftarrow> ld64 m (elem_next last1);
        m \<leftarrow> st64 m (elem_next p) n;
        n \<leftarrow> ld64 m (elem_next last1);
        p \<leftarrow> ld64 m (elem_prev first);
        m \<leftarrow> st64 m (elem_prev n) p;
        p \<leftarrow> ld64 m (elem_prev before);
        m \<leftarrow> st64 m (elem_prev first) p;
        m \<leftarrow> st64 m (elem_next last1) before;
        p \<leftarrow> ld64 m (elem_prev before);
        m \<leftarrow> st64 m (elem_next p) first;
        st64 m (elem_prev before) last1 })"

definition list_push_front :: "mem \<Rightarrow> u64 \<Rightarrow> u64 \<Rightarrow> mem option" where
  "list_push_front m l e = do { b \<leftarrow> list_begin m l; list_insert m b e }"

definition list_push_back :: "mem \<Rightarrow> u64 \<Rightarrow> u64 \<Rightarrow> mem option" where
  "list_push_back m l e = list_insert m (list_end l) e"

definition list_remove :: "mem \<Rightarrow> u64 \<Rightarrow> (u64 \<times> mem) option" where
  "list_remove m e =
     do { p \<leftarrow> ld64 m (elem_prev e);
          n \<leftarrow> ld64 m (elem_next e);
          m \<leftarrow> st64 m (elem_next p) n;
          n \<leftarrow> ld64 m (elem_next e);
          p \<leftarrow> ld64 m (elem_prev e);
          m \<leftarrow> st64 m (elem_prev n) p;
          n \<leftarrow> ld64 m (elem_next e);
          Some (n, m) }"

definition list_front :: "mem \<Rightarrow> u64 \<Rightarrow> u64 option" where
  "list_front m l = ld64 m (elem_next (list_head l))"

definition list_back :: "mem \<Rightarrow> u64 \<Rightarrow> u64 option" where
  "list_back m l = ld64 m (elem_prev (list_tail l))"

definition list_pop_front :: "mem \<Rightarrow> u64 \<Rightarrow> (u64 \<times> mem) option" where
  "list_pop_front m l =
     do { front \<leftarrow> list_front m l; (_, m) \<leftarrow> list_remove m front; Some (front, m) }"

definition list_pop_back :: "mem \<Rightarrow> u64 \<Rightarrow> (u64 \<times> mem) option" where
  "list_pop_back m l =
     do { back \<leftarrow> list_back m l; (_, m) \<leftarrow> list_remove m back; Some (back, m) }"

partial_function (option) list_size_loop :: "mem \<Rightarrow> u64 \<Rightarrow> u64 \<Rightarrow> u64 \<Rightarrow> u64 option" where
  "list_size_loop m l e cnt =
     (if e = list_end l then Some cnt
      else do { n \<leftarrow> list_next m e; list_size_loop m l n (cnt + 1) })"

definition list_size :: "mem \<Rightarrow> u64 \<Rightarrow> u64 option" where
  "list_size m l = do { e \<leftarrow> list_begin m l; list_size_loop m l e 0 }"

definition list_empty :: "mem \<Rightarrow> u64 \<Rightarrow> bool option" where
  "list_empty m l = do { b \<leftarrow> list_begin m l; Some (b = list_end l) }"

definition swap :: "mem \<Rightarrow> u64 \<Rightarrow> u64 \<Rightarrow> mem option" where
  "swap m a b =
     do { t \<leftarrow> ld64 m a; v \<leftarrow> ld64 m b; m \<leftarrow> st64 m a v; st64 m b t }"

partial_function (option) list_reverse_loop :: "mem \<Rightarrow> u64 \<Rightarrow> u64 \<Rightarrow> mem option" where
  "list_reverse_loop m l e =
     (if e = list_end l then Some m
      else do { m \<leftarrow> swap m (elem_prev e) (elem_next e);
                e \<leftarrow> ld64 m (elem_prev e);
                list_reverse_loop m l e })"

definition list_reverse :: "mem \<Rightarrow> u64 \<Rightarrow> mem option" where
  "list_reverse m l =
     do { emp \<leftarrow> list_empty m l;
          if emp then Some m
          else do {
            e \<leftarrow> list_begin m l;
            m \<leftarrow> list_reverse_loop m l e;
            m \<leftarrow> swap m (elem_next (list_head l)) (elem_prev (list_tail l));
            hn \<leftarrow> ld64 m (elem_next (list_head l));
            tp \<leftarrow> ld64 m (elem_prev (list_tail l));
            swap m (elem_prev hn) (elem_next tp) } }"

type_synonym less_func = "u64 \<Rightarrow> u64 \<Rightarrow> u64 \<Rightarrow> bool"

partial_function (option) is_sorted_loop ::
    "mem \<Rightarrow> u64 \<Rightarrow> u64 \<Rightarrow> less_func \<Rightarrow> u64 \<Rightarrow> bool option" where
  "is_sorted_loop m a b lt aux =
     do { a \<leftarrow> list_next m a;
          if a = b then Some True
          else do { p \<leftarrow> list_prev m a;
                    if lt a p aux then Some False else is_sorted_loop m a b lt aux } }"

definition is_sorted :: "mem \<Rightarrow> u64 \<Rightarrow> u64 \<Rightarrow> less_func \<Rightarrow> u64 \<Rightarrow> bool option" where
  "is_sorted m a b lt aux = (if a \<noteq> b then is_sorted_loop m a b lt aux else Some True)"

partial_function (option) find_end_of_run ::
    "mem \<Rightarrow> u64 \<Rightarrow> u64 \<Rightarrow> less_func \<Rightarrow> u64 \<Rightarrow> u64 option" where
  "find_end_of_run m a b lt aux =
     do { a \<leftarrow> list_next m a;
          if a = b then Some a
          else do { p \<leftarrow> list_prev m a;
                    if \<not> lt a p aux then find_end_of_run m a b lt aux else Some a } }"

partial_function (option) inplace_merge ::
    "mem \<Rightarrow> u64 \<Rightarrow> u64 \<Rightarrow> u64 \<Rightarrow> less_func \<Rightarrow> u64 \<Rightarrow> mem option" where
  "inplace_merge m a0 a1b0 b1 lt aux =
     (if a0 \<noteq> a1b0 \<and> a1b0 \<noteq> b1 then
        (if \<not> lt a1b0 a0 aux
         then do { a0 \<leftarrow> list_next m a0; inplace_merge m a0 a1b0 b1 lt aux }
         else do { a1b0 \<leftarrow> list_next m a1b0;
                   p \<leftarrow> list_prev m a1b0;
                   m \<leftarrow> list_splice m a0 p a1b0;
                   inplace_merge m a0 a1b0 b1 lt aux })
      else Some m)"

partial_function (option) list_sort_pass ::
    "mem \<Rightarrow> u64 \<Rightarrow> u64 \<Rightarrow> u64 \<Rightarrow> less_func \<Rightarrow> u64 \<Rightarrow> (u64 \<times> mem) option" where
  "list_sort_pass m l a0 output_run_cnt lt aux =
     (if a0 = list_end l then Some (output_run_cnt, m)
      else do {
        a1b0 \<leftarrow> find_end_of_run m a0 (list_end l) lt aux;
        if a1b0 = list_end l then Some (output_run_cnt + 1, m)
        else do {
          b1 \<leftarrow> find_end_of_run m a1b0 (list_end l) lt aux;
          m \<leftarrow> inplace_merge m a0 a1b0 b1 lt aux;
          list_sort_pass m l b1 (output_run_cnt + 1) lt aux } })"

partial_function (option) list_sort :: "mem \<Rightarrow> u64 \<Rightarrow> less_func \<Rightarrow> u64 \<Rightarrow> mem option" where
  "list_sort m l lt aux =
     do { a0 \<leftarrow> list_begin m l;
          (output_run_cnt, m) \<leftarrow> list_sort_pass m l a0 0 lt aux;
          if 1 < output_run_cnt then list_sort m l lt aux else Some m }"

partial_function (option) insert_ordered_loop ::
    "mem \<Rightarrow> u64 \<Rightarrow> u64 \<Rightarrow> u64 \<Rightarrow> less_func \<Rightarrow> u64 \<Rightarrow> u64 option" where
  "insert_ordered_loop m l e elem lt aux =
     (if e = list_end l then Some e
      else if lt elem e aux then Some e
      else do { e \<leftarrow> list_next m e; insert_ordered_loop m l e elem lt aux })"

definition list_insert_ordered :: "mem \<Rightarrow> u64 \<Rightarrow> u64 \<Rightarrow> less_func \<Rightarrow> u64 \<Rightarrow> mem option" where
  "list_insert_ordered m l elem lt aux =
     do { e \<leftarrow> list_begin m l;
          e \<leftarrow> insert_ordered_loop m l e elem lt aux;
          list_insert m e elem }"

partial_function (option) list_unique_loop ::
    "mem \<Rightarrow> u64 \<Rightarrow> u64 \<Rightarrow> u64 \<Rightarrow> less_func \<Rightarrow> u64 \<Rightarrow> mem option" where
  "list_unique_loop m l duplicates elem lt aux =
     do { next \<leftarrow> list_next m elem;
          if next = list_end l then Some m
          else if \<not> lt elem next aux \<and> \<not> lt next elem aux
          then do { (_, m) \<leftarrow> list_remove m next;
                    m \<leftarrow> (if duplicates \<noteq> NULL then list_push_back m duplicates next else Some m);
                    list_unique_loop m l duplicates elem lt aux }
          else list_unique_loop m l duplicates next lt aux }"

definition list_unique :: "mem \<Rightarrow> u64 \<Rightarrow> u64 \<Rightarrow> less_func \<Rightarrow> u64 \<Rightarrow> mem option" where
  "list_unique m l duplicates lt aux =
     do { emp \<leftarrow> list_empty m l;
          if emp then Some m
          else do { elem \<leftarrow> list_begin m l; list_unique_loop m l duplicates elem lt aux } }"

partial_function (option) list_max_loop ::
    "mem \<Rightarrow> u64 \<Rightarrow> u64 \<Rightarrow> u64 \<Rightarrow> less_func \<Rightarrow> u64 \<Rightarrow> u64 option" where
  "list_max_loop m l mx e lt aux =
     (if e = list_end l then Some mx
      else do { n \<leftarrow> list_next m e;
                list_max_loop m l (if lt mx e aux then e else mx) n lt aux })"

definition list_max :: "mem \<Rightarrow> u64 \<Rightarrow> less_func \<Rightarrow> u64 \<Rightarrow> u64 option" where
  "list_max m l lt aux =
     do { mx \<leftarrow> list_begin m l;
          if mx \<noteq> list_end l
          then do { e \<leftarrow> list_next m mx; list_max_loop m l mx e lt aux }
          else Some mx }"

partial_function (option) list_min_loop ::
    "mem \<Rightarrow> u64 \<Rightarrow> u64 \<Rightarrow> u64 \<Rightarrow> less_func \<Rightarrow> u64 \<Rightarrow> u64 option" where
  "list_min_loop m l mn e lt aux =
     (if e = list_end l then Some mn
      else do { n \<leftarrow> list_next m e;
                list_min_loop m l (if lt e mn aux then e else mn) n lt aux })"

definition list_min :: "mem \<Rightarrow> u64 \<Rightarrow> less_func \<Rightarrow> u64 \<Rightarrow> u64 option" where
  "list_min m l lt aux =
     do { mn \<leftarrow> list_begin m l;
          if mn \<noteq> list_end l
          then do { e \<leftarrow> list_next m mn; list_min_loop m l mn e lt aux }
          else Some mn }"

section \<open>The representation invariant\<close>

definition sep :: "u64 list \<Rightarrow> bool" where
  "sep ns \<longleftrightarrow> distinct ns \<and> (\<forall>a\<in>set ns. a + 8 \<notin> set ns)"

fun linked :: "mem \<Rightarrow> u64 list \<Rightarrow> bool" where
  "linked m (a # b # ns) \<longleftrightarrow> m (a + 8) = Some b \<and> m b = Some a \<and> linked m (b # ns)"
| "linked m ns \<longleftrightarrow> True"

definition nodes :: "u64 \<Rightarrow> u64 list \<Rightarrow> u64 list" where
  "nodes l xs = l # xs @ [l + 16]"

definition cells_of :: "u64 set \<Rightarrow> u64 set" where
  "cells_of A = A \<union> (\<lambda>a. a + 8) ` A"

definition dlist :: "mem \<Rightarrow> u64 \<Rightarrow> u64 list \<Rightarrow> bool" where
  "dlist m l xs \<longleftrightarrow>
     sep (nodes l xs) \<and> 0 \<notin> set (nodes l xs) \<and>
     m l = Some 0 \<and> m (l + 24) = Some 0 \<and> linked m (nodes l xs)"

lemmas link_defs = elem_prev_def elem_next_def list_head_def list_tail_def list_end_def
  list_rend_def ld64_def st64_def


lemma linked_append [simp]:
  "linked m (xs @ a # b # ys) \<longleftrightarrow> linked m (xs @ [a]) \<and> linked m (a # b # ys)"
proof (induction xs)
  case (Cons x xs)
  then show ?case by (cases xs) auto
qed simp

lemma linked_frame:
  "\<lbrakk>\<And>p. p \<in> set (tl ns) \<Longrightarrow> m' p = m p; \<And>p. p \<in> set (butlast ns) \<Longrightarrow> m' (p + 8) = m (p + 8)\<rbrakk>
   \<Longrightarrow> linked m' ns = linked m ns"
  by (induction m ns rule: linked.induct) auto

lemma set_tl_subset: "x \<in> set (tl xs) \<Longrightarrow> x \<in> set xs"
  by (cases xs) auto

lemma linked_snoc_upd [simp]:
  "\<lbrakk>q \<notin> set us; q \<noteq> p; \<forall>a\<in>set us. a + 8 \<noteq> q\<rbrakk>
   \<Longrightarrow> linked (m(q := v)) (us @ [p]) = linked m (us @ [p])"
  by (rule linked_frame) (auto dest: set_tl_subset)

lemma linked_snoc_upd_next [simp]:
  "\<lbrakk>q \<notin> set us; q + 8 \<noteq> p; q + 8 \<notin> set us\<rbrakk>
   \<Longrightarrow> linked (m(q + 8 := v)) (us @ [p]) = linked m (us @ [p])"
  by (rule linked_snoc_upd) auto

lemma linked_Cons_upd [simp]:
  "\<lbrakk>q \<notin> set vs; q \<noteq> b + 8; \<forall>a\<in>set vs. a + 8 \<noteq> q\<rbrakk>
   \<Longrightarrow> linked (m(q := v)) (b # vs) = linked m (b # vs)"
  by (rule linked_frame) (auto dest: in_set_butlastD split: if_splits)

lemma linked_Cons_upd_next [simp]:
  "\<lbrakk>q \<notin> set vs; q \<noteq> b; q + 8 \<notin> set vs\<rbrakk>
   \<Longrightarrow> linked (m(q + 8 := v)) (b # vs) = linked m (b # vs)"
  by (rule linked_Cons_upd) auto

lemma sepD: "sep ns \<Longrightarrow> a \<in> set ns \<Longrightarrow> b \<in> set ns \<Longrightarrow> a + 8 \<noteq> b"
  by (auto simp: sep_def)

lemma sep_perm: "mset ns = mset ns' \<Longrightarrow> sep ns = sep ns'"
  by (metis sep_def mset_eq_imp_distinct_iff set_mset_mset)

lemma list_insert_nodes:
  assumes "linked m (us @ p # b # vs)" "sep (e # us @ p # b # vs)" "m e \<noteq> None" "m (e + 8) \<noteq> None"
    "m (p + 8) \<noteq> None"
  shows "list_insert m b e = Some (m(e \<mapsto> p, e + 8 \<mapsto> b, p + 8 \<mapsto> e, b \<mapsto> e))"
    "linked (m(e \<mapsto> p, e + 8 \<mapsto> b, p + 8 \<mapsto> e, b \<mapsto> e)) (us @ p # e # b # vs)"
  using assms by (auto simp: list_insert_def link_defs sep_def split: option.splits)

lemma list_remove_nodes:
  assumes "linked m (us @ p # e # n # vs)" "sep (us @ p # e # n # vs)"
  shows "list_remove m e = Some (n, m(p + 8 \<mapsto> n, n \<mapsto> p))"
    "linked (m(p + 8 \<mapsto> n, n \<mapsto> p)) (us @ p # n # vs)"
  using assms by (auto simp: list_remove_def link_defs sep_def split: option.splits)

lemma linked_join:
  "xs \<noteq> [] \<Longrightarrow> ys \<noteq> [] \<Longrightarrow> linked m (xs @ ys) \<longleftrightarrow>
     linked m xs \<and> linked m ys \<and> m (last xs + 8) = Some (hd ys) \<and> m (hd ys) = Some (last xs)"
proof (induction xs rule: induct_list012)
  case (2 x)
  then show ?case by (cases ys) auto
qed auto

lemma last_notin_butlast: "distinct xs \<Longrightarrow> xs \<noteq> [] \<Longrightarrow> last xs \<notin> set (butlast xs)"
  by (induction xs rule: rev_induct) auto

lemma hd_notin_tl: "distinct xs \<Longrightarrow> hd xs \<notin> set (tl xs)"
  by (cases xs) auto

lemma list_splice_nodes:
  assumes lk: "linked m (A @ B @ F @ Z)" and sp: "sep (A @ B @ F @ Z)"
    and ne: "A \<noteq> []" "B \<noteq> []" "F \<noteq> []" "Z \<noteq> []"
  shows "\<exists>m'. list_splice m (hd B) (hd F) (hd Z) = Some m' \<and> linked m' (A @ F @ B @ Z) \<and>
     m' (hd A) = m (hd A) \<and> m' (last Z + 8) = m (last Z + 8) \<and>
     (\<forall>x. x \<notin> cells_of (set (A @ B @ F @ Z)) \<longrightarrow> m' x = m x)"
proof -
  define q b p f g z where
    ends: "q = last A" "b = hd B" "p = last B" "f = hd F" "g = last F" "z = hd Z"
  define m' where "m' = m(p + 8 \<mapsto> z, z \<mapsto> p, f \<mapsto> q, g + 8 \<mapsto> b, q + 8 \<mapsto> f, b \<mapsto> g)"
  have mem: "q \<in> set A" "b \<in> set B" "p \<in> set B" "f \<in> set F" "g \<in> set F" "z \<in> set Z"
    using ne by (auto simp: ends)
  have apart: "x \<in> set (A @ B @ F @ Z) \<Longrightarrow> y \<in> set (A @ B @ F @ Z) \<Longrightarrow> x + 8 \<noteq> y" for x y
    using sp unfolding sep_def by metis
  have dis: "distinct (A @ B @ F @ Z)"
    using sp by (simp add: sep_def)
  have ap6: "q + 8 \<noteq> b" "q + 8 \<noteq> f" "q + 8 \<noteq> z" "p + 8 \<noteq> b" "p + 8 \<noteq> f" "p + 8 \<noteq> z"
      "g + 8 \<noteq> b" "g + 8 \<noteq> f" "g + 8 \<noteq> z"
    by (rule apart; use mem in simp)+
  have links: "m (q + 8) = Some b" "m b = Some q" "m (p + 8) = Some f" "m f = Some p"
      "m (g + 8) = Some z" "m z = Some g" and
    segs: "linked m A" "linked m B" "linked m F" "linked m Z"
    using lk ne by (simp_all add: linked_join ends)
  have neq: "q \<noteq> p" "q \<noteq> g" "p \<noteq> g" "b \<noteq> f" "b \<noteq> z" "f \<noteq> z"
    using dis mem by auto
  have run: "list_splice m b f z = Some m'"
    using links neq ap6 by (simp add: list_splice_def list_prev_def link_defs m'_def)
  have same: "m' x = m x" if "x \<notin> {p + 8, z, f, g + 8, q + 8, b}" for x
    using that by (simp add: m'_def)
  have inner: "x \<notin> {b, f, z}" if "x \<in> set (tl xs)" "xs \<in> {A, B, F, Z}" for x xs
    using that dis mem hd_notin_tl [of xs] set_tl_subset [of x xs] by (elim insertE) (auto simp: ends)
  have outer: "x \<notin> {q, p, g}" if "x \<in> set (butlast xs)" "xs \<in> {A, B, F, Z}" for x xs
    using that dis mem last_notin_butlast [of xs] in_set_butlastD [of x xs] ne
    by (elim insertE) (auto simp: ends [symmetric])
  have seg: "linked m' xs" if "linked m xs" "xs \<in> {A, B, F, Z}" for xs
  proof -
    have sub: "set xs \<subseteq> set (A @ B @ F @ Z)"
      using that by auto
    have "m' x = m x" if "x \<in> set (tl xs)" for x
      using inner [OF that \<open>xs \<in> _\<close>] apart [of _ x] sub set_tl_subset [OF that] mem
      by (intro same) (auto dest: sym)
    moreover have "m' (x + 8) = m (x + 8)" if "x \<in> set (butlast xs)" for x
      using outer [OF that \<open>xs \<in> _\<close>] apart [of x] sub in_set_butlastD [OF that] mem
      by (intro same) auto
    ultimately show ?thesis
      using linked_frame [of xs m' m] that by blast
  qed
  have "linked m' (A @ F @ B @ Z)"
    using ne seg segs neq ap6 by (simp add: linked_join ends [symmetric]) (simp add: m'_def)
  moreover have "m' x = m x" if "x \<notin> cells_of (set (A @ B @ F @ Z))" for x
    using that mem by (intro same) (auto simp: cells_of_def)
  moreover have "m' (hd A) = m (hd A)"
  proof (rule same)
    have "hd A \<in> set A" using ne by simp
    then show "hd A \<notin> {p + 8, z, f, g + 8, q + 8, b}"
      using dis mem apart [of p "hd A"] apart [of g "hd A"] apart [of q "hd A"] by auto
  qed
  moreover have "m' (last Z + 8) = m (last Z + 8)"
  proof (rule same)
    have "last Z \<in> set Z" using ne by simp
    then show "last Z + 8 \<notin> {p + 8, z, f, g + 8, q + 8, b}"
      using dis mem apart [of "last Z" z] apart [of "last Z" f] apart [of "last Z" b] by auto
  qed
  ultimately show ?thesis
    using run by (auto simp: ends)
qed

section \<open>Lists in memory\<close>

definition fresh_elem :: "mem \<Rightarrow> u64 \<Rightarrow> u64 list \<Rightarrow> bool" where
  "fresh_elem m e ns \<longleftrightarrow> e \<noteq> 0 \<and> e \<notin> set ns \<and> e + 8 \<notin> set ns \<and> (\<forall>a\<in>set ns. a + 8 \<noteq> e) \<and>
     m e \<noteq> None \<and> m (e + 8) \<noteq> None"

lemma fresh_elem_sep: "fresh_elem m e ns \<Longrightarrow> sep ns \<Longrightarrow> sep (e # ns)"
  by (auto simp: fresh_elem_def sep_def)

lemma set_nodes [simp]: "set (nodes l xs) = {l, l + 16} \<union> set xs"
  by (auto simp: nodes_def)

lemma dlist_frame:
  assumes "\<And>p. p \<in> cells_of (set (nodes l xs)) \<Longrightarrow> m' p = m p"
  shows "dlist m' l xs = dlist m l xs"
proof -
  have "m' l = m l" "m' (l + 24) = m (l + 24)"
    by (rule assms, force simp: cells_of_def)+
  moreover have "linked m' (nodes l xs) = linked m (nodes l xs)"
    by (rule linked_frame) (auto intro!: assms dest!: set_tl_subset in_set_butlastD simp: cells_of_def)
  ultimately show ?thesis
    by (simp add: dlist_def)
qed

lemma list_init_ok:
  assumes "l \<noteq> 0" "l + 16 \<noteq> 0" "m l \<noteq> None" "m (l + 8) \<noteq> None" "m (l + 16) \<noteq> None" "m (l + 24) \<noteq> None"
  shows "\<exists>m'. list_init m l = Some m' \<and> dlist m' l [] \<and>
     (\<forall>x. x \<notin> {l, l + 8, l + 16, l + 24} \<longrightarrow> m' x = m x)"
  using assms
  by (auto simp: list_init_def link_defs dlist_def nodes_def sep_def add.commute [of 24 l] split: option.splits)

lemma split_nodes:
  "\<exists>us p vs. nodes l (xs @ ys) = us @ p # hd (ys @ [l + 16]) # vs \<and>
     nodes l (xs @ e # ys) = us @ p # e # hd (ys @ [l + 16]) # vs"
proof -
  have "l # xs \<noteq> []" "ys @ [l + 16] \<noteq> []"
    by auto
  then show ?thesis
    unfolding nodes_def
    by (intro exI [of _ "butlast (l # xs)"] exI [of _ "last (l # xs)"] exI [of _ "tl (ys @ [l + 16])"])
      (simp add: append_butlast_last_id [symmetric] del: append_butlast_last_id)
qed

lemma nodes_ends:
  assumes "nodes l zs = us @ p # b # vs"
  shows "l \<in> set (us @ [p])" "l + 16 \<in> set (b # vs)"
proof -
  have "hd (us @ p # b # vs) = l"
    by (simp add: assms [symmetric] nodes_def)
  then show "l \<in> set (us @ [p])"
    by (cases us) auto
  have "last (us @ p # b # vs) = l + 16"
    by (simp add: assms [symmetric] nodes_def)
  then show "l + 16 \<in> set (b # vs)"
    by (metis last_appendR last_in_set last_ConsR list.distinct(1))
qed

lemma keep_ends:
  assumes "nodes l zs = us @ p # b # vs" "sep (us @ p # b # vs)"
  shows "l \<noteq> b" "l \<noteq> p + 8" "l + 24 \<noteq> b" "l + 24 \<noteq> p + 8"
proof -
  have tl: "l + 16 \<in> set (b # vs)"
    using nodes_ends [OF assms(1)] by blast
  then have "l + 16 \<in> set (us @ p # b # vs)" "l + 16 \<noteq> p"
    using assms(2) by (auto simp: sep_def)
  then have "l + 16 + 8 \<noteq> b" "l + 16 + 8 \<noteq> p + 8"
    using sepD [OF assms(2), of "l + 16" b] by (simp_all add: add.commute [of 16 l])
  then show "l + 24 \<noteq> b" "l + 24 \<noteq> p + 8"
    by (simp_all add: add.commute [of 24 l])
  show "l \<noteq> b" "l \<noteq> p + 8"
    using nodes_ends [OF assms(1)] assms(2) unfolding sep_def by auto
qed

lemma list_insert_ok:
  assumes d: "dlist m l (xs @ ys)" and f: "fresh_elem m e (nodes l (xs @ ys))"
  shows "\<exists>m'. list_insert m (hd (ys @ [l + 16])) e = Some m' \<and> dlist m' l (xs @ e # ys) \<and>
     (\<forall>x. x \<notin> cells_of (set (nodes l (xs @ e # ys))) \<longrightarrow> m' x = m x)"
proof -
  obtain us p vs where ns: "nodes l (xs @ ys) = us @ p # hd (ys @ [l + 16]) # vs"
      "nodes l (xs @ e # ys) = us @ p # e # hd (ys @ [l + 16]) # vs" (is "_ = us @ p # e # ?b # vs")
    using split_nodes by blast
  have lk: "linked m (us @ p # ?b # vs)" and sp: "sep (e # us @ p # ?b # vs)"
    using d fresh_elem_sep [OF f] by (auto simp: dlist_def ns)
  have mem: "m e \<noteq> None" "m (e + 8) \<noteq> None" "m (p + 8) \<noteq> None"
    using f lk by (auto simp: fresh_elem_def)
  define m' where "m' = m(e \<mapsto> p, e + 8 \<mapsto> ?b, p + 8 \<mapsto> e, ?b \<mapsto> e)"
  have run: "list_insert m ?b e = Some m'" "linked m' (us @ p # e # ?b # vs)"
    using list_insert_nodes [OF lk sp mem] by (simp_all add: m'_def)
  have sp': "sep (us @ p # ?b # vs)"
    using d by (simp add: dlist_def ns)
  have "l \<noteq> e" "l \<noteq> e + 8" "l + 24 \<noteq> e" "l + 24 \<noteq> e + 8"
    using f by (auto simp: fresh_elem_def)
  then have keep: "m' l = m l" "m' (l + 24) = m (l + 24)"
    using keep_ends [OF ns(1) sp'] by (auto simp: m'_def)
  have "sep (nodes l (xs @ e # ys))"
    using sp sep_perm [of "e # us @ p # ?b # vs" "us @ p # e # ?b # vs"] by (simp add: ns)
  with run keep d f have "dlist m' l (xs @ e # ys)"
    by (auto simp: dlist_def ns fresh_elem_def)
  moreover have "m' x = m x" if "x \<notin> cells_of (set (nodes l (xs @ e # ys)))" for x
    using that unfolding ns by (auto simp: m'_def cells_of_def)
  ultimately show ?thesis
    using run(1) by blast
qed

lemma list_remove_ok:
  assumes d: "dlist m l (xs @ e # ys)"
  shows "\<exists>m'. list_remove m e = Some (hd (ys @ [l + 16]), m') \<and> dlist m' l (xs @ ys) \<and>
     (\<forall>x. x \<notin> cells_of (set (nodes l (xs @ ys))) \<longrightarrow> m' x = m x)"
proof -
  obtain us p vs where ns: "nodes l (xs @ ys) = us @ p # hd (ys @ [l + 16]) # vs"
      "nodes l (xs @ e # ys) = us @ p # e # hd (ys @ [l + 16]) # vs" (is "_ = us @ p # e # ?n # vs")
    using split_nodes by blast
  have lk: "linked m (us @ p # e # ?n # vs)" and sp: "sep (us @ p # e # ?n # vs)"
    using d by (auto simp: dlist_def ns)
  have sp': "sep (us @ p # ?n # vs)"
    using sp by (auto simp: sep_def)
  define m' where "m' = m(p + 8 \<mapsto> ?n, ?n \<mapsto> p)"
  have run: "list_remove m e = Some (?n, m')" "linked m' (us @ p # ?n # vs)"
    using list_remove_nodes [OF lk sp] by (simp_all add: m'_def)
  have keep: "m' l = m l" "m' (l + 24) = m (l + 24)"
    using keep_ends [OF ns(1) sp'] by (auto simp: m'_def)
  have "0 \<notin> set (nodes l (xs @ ys))"
    using d by (auto simp: dlist_def)
  with run keep d sp' have "dlist m' l (xs @ ys)"
    by (auto simp: dlist_def ns)
  moreover have "m' x = m x" if "x \<notin> cells_of (set (nodes l (xs @ ys)))" for x
    using that unfolding ns by (auto simp: m'_def cells_of_def)
  ultimately show ?thesis
    using run(1) by blast
qed

lemma dlist_begin: "dlist m l xs \<Longrightarrow> list_begin m l = Some (hd (xs @ [l + 16]))"
  by (cases xs) (auto simp: list_begin_def link_defs dlist_def nodes_def)

lemma linked_ends:
  "linked m (l # xs @ [t]) \<Longrightarrow> m (l + 8) = Some (hd (xs @ [t])) \<and> m t = Some (last (l # xs))"
  using linked_join [of "l # xs" "[t]" m] by (cases xs) auto

lemma dlist_rbegin: "dlist m l xs \<Longrightarrow> list_rbegin m l = Some (last (l # xs))"
  using linked_ends [of m l xs "l + 16"] by (auto simp: list_rbegin_def link_defs dlist_def nodes_def)

lemma linked_at:
  assumes "linked m (us @ a # b # vs)"
  shows "list_next m a = Some b" "list_prev m b = Some a"
  using assms by (auto simp: list_next_def list_prev_def link_defs)

lemma dlist_next:
  assumes "dlist m l (xs @ e # ys)"
  shows "list_next m e = Some (hd (ys @ [l + 16]))" "list_prev m e = Some (last (l # xs))"
proof -
  have "linked m (e # ys @ [l + 16])" "m e = Some (last (l # xs))"
    using assms linked_join [of "l # xs" "e # ys @ [l + 16]" m] by (simp_all add: dlist_def nodes_def)
  then show "list_next m e = Some (hd (ys @ [l + 16]))" "list_prev m e = Some (last (l # xs))"
    using linked_ends [of m e ys "l + 16"] by (auto simp: list_next_def list_prev_def link_defs)
qed

lemma list_push_front_ok:
  assumes "dlist m l xs" "fresh_elem m e (nodes l xs)"
  shows "\<exists>m'. list_push_front m l e = Some m' \<and> dlist m' l (e # xs) \<and>
     (\<forall>x. x \<notin> cells_of (set (nodes l (e # xs))) \<longrightarrow> m' x = m x)"
  using list_insert_ok [of m l "[]" xs e] assms by (simp add: list_push_front_def dlist_begin)

lemma list_push_back_ok:
  assumes "dlist m l xs" "fresh_elem m e (nodes l xs)"
  shows "\<exists>m'. list_push_back m l e = Some m' \<and> dlist m' l (xs @ [e]) \<and>
     (\<forall>x. x \<notin> cells_of (set (nodes l (xs @ [e]))) \<longrightarrow> m' x = m x)"
  using list_insert_ok [of m l xs "[]" e] assms
  by (simp add: list_push_back_def list_end_def list_tail_def)

lemma list_pop_front_ok:
  assumes "dlist m l (e # xs)"
  shows "\<exists>m'. list_pop_front m l = Some (e, m') \<and> dlist m' l xs \<and>
     (\<forall>x. x \<notin> cells_of (set (nodes l xs)) \<longrightarrow> m' x = m x)"
proof -
  have "list_front m l = Some e"
    using dlist_begin [OF assms] by (simp add: list_front_def list_begin_def)
  with list_remove_ok [of m l "[]" e xs] assms show ?thesis
    by (auto simp: list_pop_front_def)
qed

lemma list_pop_back_ok:
  assumes "dlist m l (xs @ [e])"
  shows "\<exists>m'. list_pop_back m l = Some (e, m') \<and> dlist m' l xs \<and>
     (\<forall>x. x \<notin> cells_of (set (nodes l xs)) \<longrightarrow> m' x = m x)"
proof -
  have "list_back m l = Some e"
    using dlist_rbegin [OF assms] by (simp add: list_back_def list_rbegin_def)
  with list_remove_ok [of m l xs e "[]"] assms show ?thesis
    by (auto simp: list_pop_back_def)
qed

lemma dlist_notin: "dlist m l xs \<Longrightarrow> l + 16 \<notin> set xs \<and> l \<notin> set xs \<and> distinct xs"
  by (auto simp: dlist_def nodes_def sep_def)

lemma list_empty_ok: "dlist m l xs \<Longrightarrow> list_empty m l = Some (xs = [])"
  using dlist_notin [of m l xs]
  by (cases xs) (auto simp: list_empty_def dlist_begin list_end_def list_tail_def)

lemma list_size_loop_ok:
  "dlist m l (xs @ ys) \<Longrightarrow> list_size_loop m l (hd (ys @ [l + 16])) cnt = Some (cnt + of_nat (length ys))"
proof (induction ys arbitrary: xs cnt)
  case Nil
  then show ?case by (subst list_size_loop.simps) (simp add: list_end_def list_tail_def)
next
  case (Cons y ys)
  from Cons.prems have "y \<noteq> l + 16"
    using dlist_notin by fastforce
  with Cons.prems Cons.IH [of "xs @ [y]" "cnt + 1"] show ?case
    by (subst list_size_loop.simps) (simp add: list_end_def list_tail_def dlist_next add_ac)
qed

lemma list_size_ok: "dlist m l xs \<Longrightarrow> list_size m l = Some (of_nat (length xs))"
  using list_size_loop_ok [of m l "[]" xs 0] by (simp add: list_size_def dlist_begin)


section \<open>Reversal\<close>

definition flip_links :: "u64 list \<Rightarrow> mem \<Rightarrow> mem" where
  "flip_links xs m = (\<lambda>p. if p \<in> set xs then m (p + 8) else if p - 8 \<in> set xs then m (p - 8) else m p)"

lemma swap_ok:
  "m a = Some v \<Longrightarrow> m b = Some w \<Longrightarrow> a \<noteq> b \<Longrightarrow> swap m a b = Some (m(a \<mapsto> w, b \<mapsto> v))"
  by (simp add: swap_def link_defs)

lemma flip_links_Cons:
  assumes "sep (x # xs @ [t])" "m x = Some v" "m (x + 8) = Some w"
  shows "flip_links (x # xs) m = flip_links xs (m(x \<mapsto> w, x + 8 \<mapsto> v))"
proof
  fix p
  have s: "x \<notin> set xs" "x + 8 \<notin> set xs" "\<forall>a\<in>set xs. a + 8 \<noteq> x"
    using assms by (auto simp: sep_def)
  then have s': "x - 8 \<notin> set xs"
    by (metis diff_add_cancel)
  have s'': "8 + x \<notin> set xs"
    using s(2) by (simp add: add.commute)
  show "flip_links (x # xs) m p = flip_links xs (m(x \<mapsto> w, x + 8 \<mapsto> v)) p"
    using s s' s'' assms by (auto simp: flip_links_def)
qed

lemma list_reverse_loop_ok:
  "\<lbrakk>linked m (xs @ [l + 16]); sep (xs @ [l + 16]); \<forall>x\<in>set xs. m x \<noteq> None\<rbrakk>
   \<Longrightarrow> list_reverse_loop m l (hd (xs @ [l + 16])) = Some (flip_links xs m)"
proof (induction xs arbitrary: m)
  case Nil
  then show ?case
    by (subst list_reverse_loop.simps) (simp add: list_end_def list_tail_def flip_links_def)
next
  case (Cons x xs)
  obtain v where v: "m x = Some v"
    using Cons.prems by auto
  have w: "m (x + 8) = Some (hd (xs @ [l + 16]))" (is "_ = Some ?w")
    using linked_ends [of m x xs "l + 16"] Cons.prems(1) by simp
  define m1 where "m1 = m(x \<mapsto> ?w, x + 8 \<mapsto> v)"
  have "linked m1 (xs @ [l + 16]) = linked m (xs @ [l + 16])"
    using Cons.prems(2)
    by (intro linked_frame) (auto simp: m1_def sep_def dest!: set_tl_subset)
  moreover have "linked m (xs @ [l + 16])"
    using Cons.prems(1) by (cases "xs @ [l + 16]") auto
  ultimately have lk: "linked m1 (xs @ [l + 16])" "sep (xs @ [l + 16])" "\<forall>y\<in>set xs. m1 y \<noteq> None"
    using Cons.prems(2,3) by (auto simp: m1_def sep_def)
  have "x \<noteq> l + 16"
    using Cons.prems by (auto simp: sep_def)
  moreover have "swap m x (x + 8) = Some m1" "m1 x = Some ?w"
    using swap_ok [OF v w] by (simp_all add: m1_def)
  moreover have "flip_links (x # xs) m = flip_links xs m1"
    using flip_links_Cons [OF _ v w] Cons.prems(2) by (simp add: m1_def)
  ultimately show ?case
    using Cons.IH [OF lk]
    by (subst list_reverse_loop.simps)
      (simp add: list_end_def list_tail_def elem_prev_def elem_next_def ld64_def)
qed

lemma linked_rev_flip:
  "\<lbrakk>linked m ns; sep ns; \<And>a. a \<in> set ns \<Longrightarrow> m' a = m (a + 8) \<and> m' (a + 8) = m a\<rbrakk> \<Longrightarrow> linked m' (rev ns)"
proof (induction m ns rule: linked.induct)
  case (1 m a b ns)
  then have "linked m' (rev (b # ns))"
    by (simp add: sep_def)
  with 1 show ?case
    using linked_join [of "rev (b # ns)" "[a]" m'] by auto
qed auto

lemma flip_links_at:
  "sep xs \<Longrightarrow> a \<in> set xs \<Longrightarrow> flip_links xs m a = m (a + 8) \<and> flip_links xs m (a + 8) = m a"
  by (auto simp: flip_links_def sep_def)

lemma flip_links_other: "p \<notin> cells_of (set xs) \<Longrightarrow> flip_links xs m p = m p"
  by (auto simp: flip_links_def cells_of_def image_iff)


lemma sep_append:
  "sep (A @ B) \<longleftrightarrow> sep A \<and> sep B \<and> cells_of (set A) \<inter> cells_of (set B) = {}"
  by (auto simp: sep_def cells_of_def)

lemma dlist_cells:
  assumes "dlist m l xs" "x \<in> set xs"
  shows "m x \<noteq> None" "m (x + 8) \<noteq> None" "x \<noteq> 0"
proof -
  obtain us vs where xs: "xs = us @ x # vs"
    using assms(2) by (meson split_list)
  show "m x \<noteq> None" "m (x + 8) \<noteq> None" "x \<noteq> 0"
    using dlist_next [of m l us x vs] assms
    by (auto simp: xs list_next_def list_prev_def link_defs dlist_def)
qed

lemma linked_mapped: "linked m (a # ns) \<Longrightarrow> x \<in> set ns \<Longrightarrow> m x \<noteq> None"
  by (induction ns arbitrary: a) auto

lemma list_reverse_ok:
  assumes d: "dlist m l xs"
  shows "\<exists>m'. list_reverse m l = Some m' \<and> dlist m' l (rev xs) \<and>
     (\<forall>p. p \<notin> cells_of (set (nodes l xs)) \<longrightarrow> m' p = m p)"
proof (cases "xs = []")
  case True
  with d show ?thesis
    by (simp add: list_reverse_def list_empty_ok)
next
  case False
  define f z t where ends: "f = hd xs" "z = last xs" "t = l + 16"
  have sp: "sep (l # xs @ [t])" and lk: "linked m (l # xs @ [t])"
    using d by (auto simp: dlist_def nodes_def ends)
  have spx: "sep xs" "sep (xs @ [t])"
    using sp by (auto simp: sep_def)
  have fz: "f \<in> set xs" "z \<in> set xs"
    using False by (auto simp: ends)
  have links: "m (l + 8) = Some f" "m f = Some l" "m (z + 8) = Some t" "m t = Some z" "linked m xs"
      "linked m (xs @ [t])"
    using lk False linked_join [of "[l]" "xs @ [t]" m] linked_join [of xs "[t]" m]
    by (simp_all add: ends)
  have neq: "l \<noteq> f" "l \<noteq> z" "t \<noteq> f" "t \<noteq> z" "l \<noteq> t"
    using sp fz by (auto simp: sep_def)
  have ap: "x + 8 \<noteq> y" if "x \<in> {l, f, z, t} \<union> set xs" "y \<in> {l, f, z, t} \<union> set xs" for x y
    by (rule sepD [OF sp]) (use that fz in auto)
  define m1 where "m1 = flip_links xs m"
  define m3 where "m3 = m1(l + 8 \<mapsto> z, t \<mapsto> f, z \<mapsto> l, f + 8 \<mapsto> t)"
  have m1at: "a \<in> set xs \<Longrightarrow> m1 a = m (a + 8) \<and> m1 (a + 8) = m a" for a
    using flip_links_at [OF spx(1)] by (simp add: m1_def)
  have out: "{l, t, l + 8, t + 8} \<inter> cells_of (set xs) = {}"
    using sp ap by (auto simp: sep_def cells_of_def)
  have m1o: "m1 p = m p" if "p \<notin> cells_of (set xs)" for p
    using flip_links_other that by (simp add: m1_def)
  have "\<forall>x\<in>set xs. m x \<noteq> None"
    using linked_mapped [OF lk] by auto
  then have loop: "list_reverse_loop m l f = Some m1"
    using list_reverse_loop_ok [of m xs l] links spx False by (simp add: ends m1_def)
  have v1: "m1 (l + 8) = Some f" "m1 t = Some z" "m1 z = Some t" "m1 (f + 8) = Some l"
    using m1o out m1at fz links by auto
  define m2 where "m2 = m1(l + 8 \<mapsto> z, t \<mapsto> f)"
  have nq: "l + 8 \<noteq> t" "l + 8 \<noteq> z" "z \<noteq> f + 8" "f + 8 \<noteq> t" "f + 8 \<noteq> l + 8"
    using ap [of l t] ap [of l z] ap [of f z] ap [of f t] neq by auto
  have "swap m1 (l + 8) t = Some m2" "m2 (l + 8) = Some z" "m2 t = Some f"
      "m2 z = Some t" "m2 (f + 8) = Some l"
    using swap_ok [OF v1(1,2)] v1 neq nq by (auto simp: m2_def)
  then have "list_reverse m l = swap m2 z (f + 8)"
    using d False loop
    by (simp add: list_reverse_def list_empty_ok dlist_begin elem_prev_def elem_next_def list_head_def
        list_tail_def ld64_def ends)
  then have run: "list_reverse m l = Some m3"
    using swap_ok [of m2 z t "f + 8" l] \<open>m2 z = Some t\<close> \<open>m2 (f + 8) = Some l\<close> nq
    by (simp add: m2_def m3_def)
  have same: "m3 p = m1 p" if "p \<notin> {l + 8, t, z, f + 8}" for p
    using that by (simp add: m3_def)
  have "linked m1 (rev xs)"
    using links spx m1at by (intro linked_rev_flip [of m]) auto
  moreover have "linked m3 (rev xs) = linked m1 (rev xs)"
  proof (rule linked_frame)
    fix p assume p: "p \<in> set (tl (rev xs))"
    then have "p \<in> set xs" "p \<noteq> z"
      using hd_notin_tl [of "rev xs"] spx set_tl_subset [OF p] by (auto simp: sep_def ends hd_rev)
    then show "m3 p = m1 p"
      using sp ap [of l p] ap [of f p] by (intro same) (auto simp: sep_def)
  next
    fix p assume p: "p \<in> set (butlast (rev xs))"
    then have "p \<in> set xs" "p \<noteq> f"
      using last_notin_butlast [of "rev xs"] spx in_set_butlastD [OF p] False
      by (auto simp: sep_def ends last_rev)
    then show "m3 (p + 8) = m1 (p + 8)"
      using sp ap [of p t] ap [of p z] by (intro same) (auto simp: sep_def)
  qed
  ultimately have "linked m3 (rev xs)" by simp
  then have "linked m3 (l # rev xs @ [t])"
    using False linked_join [of "[l]" "rev xs @ [t]" m3] linked_join [of "rev xs" "[t]" m3] nq neq
    by (auto simp: m3_def ends hd_rev last_rev)
  moreover have "sep (l # rev xs @ [t])"
    using sp sep_perm [of "l # rev xs @ [t]" "l # xs @ [t]"] by simp
  moreover have "l \<notin> {l + 8, t, z, f + 8}" "t + 8 \<notin> {l + 8, t, z, f + 8}"
    using neq ap [of f l] ap [of t z] by auto
  then have "m3 l = m l" "m3 (t + 8) = m (t + 8)"
    using same m1o out by auto
  ultimately have "dlist m3 l (rev xs)"
    using d by (auto simp: dlist_def nodes_def ends add.commute [of 24 l])
  moreover have "m3 p = m p" if "p \<notin> cells_of (set (nodes l xs))" for p
  proof -
    have "p \<notin> {l + 8, t, z, f + 8}" "p \<notin> cells_of (set xs)"
      using that fz by (auto simp: cells_of_def ends)
    then show ?thesis
      using same m1o by simp
  qed
  ultimately show ?thesis
    using run by blast
qed
section \<open>Properties\<close>

interpretation lq: fifo "\<lambda>m xs. dlist m l xs" "\<lambda>m xs e. fresh_elem m e (nodes l xs)"
    "\<lambda>m e. list_push_back m l e" "\<lambda>m. list_pop_front m l" for l
  using list_push_back_ok list_pop_front_ok by unfold_locales blast+

definition three :: mem where
  "three = [0x1000 \<mapsto> 0, 0x1008 \<mapsto> 0x2000, 0x2000 \<mapsto> 0x1000, 0x2008 \<mapsto> 0x3000,
     0x3000 \<mapsto> 0x2000, 0x3008 \<mapsto> 0x4000, 0x4000 \<mapsto> 0x3000, 0x4008 \<mapsto> 0x1010,
     0x1010 \<mapsto> 0x4000, 0x1018 \<mapsto> 0, 0x5000 \<mapsto> 7, 0x5008 \<mapsto> 7]"

lemma three_dlist: "dlist three 0x1000 [0x2000, 0x3000, 0x4000]"
  by (simp add: three_def dlist_def nodes_def sep_def)

lemma three_fresh: "fresh_elem three 0x5000 (nodes 0x1000 [0x2000, 0x3000, 0x4000])"
  by (simp add: three_def fresh_elem_def)

text \<open>
  C19: a list used through \<^verbatim>\<open>list_push_back\<close> and \<^verbatim>\<open>list_pop_front\<close> is a first-in
  first-out queue. For every sequence of these calls that only pushes elements that are not in
  the list and only pops when the list is not empty, all calls return, and the elements popped,
  followed by what is left in the list, are the initial elements followed by the pushed ones.
\<close>
theorem list_is_fifo:
  assumes "dlist m l xs"
    and "admits (\<lambda>m xs e. fresh_elem m e (nodes l xs)) (\<lambda>m e. list_push_back m l e) (\<lambda>m. list_pop_front m l)
           m xs ops"
  shows "\<exists>outs m' ys. qrun (\<lambda>m e. list_push_back m l e) (\<lambda>m. list_pop_front m l) m ops = Some (outs, m') \<and>
     dlist m' l ys \<and> outs @ ys = xs @ puts ops"
  using assms by (rule lq.run_fifo)

theorem list_is_fifo_witness:
  "\<exists>outs m' ys. qrun (\<lambda>m e. list_push_back m 0x1000 e) (\<lambda>m. list_pop_front m 0x1000) three
       [Put 0x5000, Get, Get] = Some (outs, m') \<and>
     dlist m' 0x1000 ys \<and> outs @ ys = [0x2000, 0x3000, 0x4000] @ puts [Put 0x5000, Get, Get]"
proof (rule list_is_fifo [OF three_dlist])
  obtain m1 where 1: "list_push_back three 0x1000 0x5000 = Some m1"
      "dlist m1 0x1000 [0x2000, 0x3000, 0x4000, 0x5000]"
    using list_push_back_ok [OF three_dlist three_fresh] by auto
  obtain m2 where 2: "list_pop_front m1 0x1000 = Some (0x2000, m2)" "dlist m2 0x1000 [0x3000, 0x4000, 0x5000]"
    using list_pop_front_ok [OF 1(2)] by auto
  obtain m3 where 3: "list_pop_front m2 0x1000 = Some (0x3000, m3)"
    using list_pop_front_ok [OF 2(2)] by auto
  show "admits (\<lambda>m xs e. fresh_elem m e (nodes 0x1000 xs)) (\<lambda>m e. list_push_back m 0x1000 e)
      (\<lambda>m. list_pop_front m 0x1000) three [0x2000, 0x3000, 0x4000] [Put 0x5000, Get, Get]"
    by (simp add: 1 2 3 three_fresh)
qed

text \<open>
  Inserting an element anywhere in a list and removing it again
  returns, yields the position it was inserted before, and restores the list; memory outside the
  list and the element is untouched, for insertion and for removal.
\<close>
theorem list_insert_remove:
  assumes "dlist m l (xs @ ys)" and "fresh_elem m e (nodes l (xs @ ys))"
  shows "\<exists>m1 m2. list_insert m (hd (ys @ [list_tail l])) e = Some m1 \<and> dlist m1 l (xs @ e # ys) \<and>
     list_remove m1 e = Some (hd (ys @ [list_tail l]), m2) \<and> dlist m2 l (xs @ ys) \<and>
     (\<forall>p. p \<notin> cells_of (set (nodes l (xs @ e # ys))) \<longrightarrow> m1 p = m p \<and> m2 p = m p)"
proof -
  obtain m1 where m1: "list_insert m (hd (ys @ [l + 16])) e = Some m1" "dlist m1 l (xs @ e # ys)"
      "\<forall>p. p \<notin> cells_of (set (nodes l (xs @ e # ys))) \<longrightarrow> m1 p = m p"
    using list_insert_ok [OF assms] by blast
  obtain m2 where "list_remove m1 e = Some (hd (ys @ [l + 16]), m2)" "dlist m2 l (xs @ ys)"
      "\<forall>p. p \<notin> cells_of (set (nodes l (xs @ ys))) \<longrightarrow> m2 p = m1 p"
    using list_remove_ok [OF m1(2)] by blast
  with m1 show ?thesis by (auto simp: cells_of_def list_tail_def)
qed

theorem list_insert_remove_witness:
  "\<exists>m1 m2. list_insert three 0x3000 0x5000 = Some m1 \<and> dlist m1 0x1000 [0x2000, 0x5000, 0x3000, 0x4000] \<and>
     list_remove m1 0x5000 = Some (0x3000, m2) \<and> dlist m2 0x1000 [0x2000, 0x3000, 0x4000]"
  using list_insert_remove [where m = three and l = "0x1000" and xs = "[0x2000]" and ys = "[0x3000, 0x4000]" and e = "0x5000"] three_dlist three_fresh
  by auto

text \<open>
  \<^verbatim>\<open>list_reverse\<close> terminates on every list, leaves its elements in
  the opposite order and changes no memory but the links of the list.
\<close>
theorem list_reverse_correct:
  assumes "dlist m l xs"
  shows "\<exists>m'. list_reverse m l = Some m' \<and> dlist m' l (rev xs) \<and>
     list_size m' l = list_size m l \<and> (\<forall>p. p \<notin> cells_of (set (nodes l xs)) \<longrightarrow> m' p = m p)"
  using list_reverse_ok [OF assms] list_size_ok [OF assms] by (auto simp: list_size_ok)

theorem list_reverse_correct_witness:
  "\<exists>m'. list_reverse three 0x1000 = Some m' \<and> dlist m' 0x1000 [0x4000, 0x3000, 0x2000] \<and>
     m' 0x5000 = Some 7"
proof -
  have "0x5000 \<notin> cells_of (set (nodes 0x1000 [0x2000, 0x3000, 0x4000]))"
    by (simp add: cells_of_def)
  moreover have "three 0x5000 = Some 7" by (simp add: three_def)
  ultimately show ?thesis
    using list_reverse_correct [OF three_dlist] by auto
qed

end
