(* ===== verification/Linked_List_Sort.thy ===== *)
theory Linked_List_Sort
  imports Linked_List
begin

text \<open>
  The ordered operations of \<^verbatim>\<open>libc/kernel/list.c\<close>: the natural merge sort, ordered insertion,
  removal of adjacent duplicates, minimum and maximum. The first part is the same algorithm on
  lists (\<open>run_split\<close>, \<open>mrg\<close>, \<open>sort_pass\<close>) with what one pass does to the number of ascending
  runs; the second part shows that the operations on memory compute it.
\<close>

definition weak_order :: "('a \<Rightarrow> 'a \<Rightarrow> bool) \<Rightarrow> bool" where
  "weak_order lt \<longleftrightarrow> (\<forall>x y. lt x y \<longrightarrow> \<not> lt y x) \<and> (\<forall>x y z. \<not> lt x y \<longrightarrow> \<not> lt y z \<longrightarrow> \<not> lt x z)"

definition in_order :: "('a \<Rightarrow> 'a \<Rightarrow> bool) \<Rightarrow> 'a list \<Rightarrow> bool" where
  "in_order lt xs \<longleftrightarrow> sorted_wrt (\<lambda>a b. \<not> lt b a) xs"

definition same_class :: "('a \<Rightarrow> 'a \<Rightarrow> bool) \<Rightarrow> 'a \<Rightarrow> 'a \<Rightarrow> bool" where
  "same_class lt x y \<longleftrightarrow> \<not> lt x y \<and> \<not> lt y x"

fun mrg :: "('a \<Rightarrow> 'a \<Rightarrow> bool) \<Rightarrow> 'a list \<Rightarrow> 'a list \<Rightarrow> 'a list" where
  "mrg lt (a # as) (b # bs) = (if \<not> lt b a then a # mrg lt as (b # bs) else b # mrg lt (a # as) bs)"
| "mrg lt as bs = as @ bs"

fun run_split :: "('a \<Rightarrow> 'a \<Rightarrow> bool) \<Rightarrow> 'a \<Rightarrow> 'a list \<Rightarrow> 'a list \<times> 'a list" where
  "run_split lt a [] = ([], [])"
| "run_split lt a (x # xs) =
     (if lt x a then ([], x # xs) else (case run_split lt x xs of (r, s) \<Rightarrow> (x # r, s)))"

lemma run_split_append: "run_split lt a xs = (r, s) \<Longrightarrow> r @ s = xs"
  by (induction lt a xs arbitrary: r s rule: run_split.induct) (auto split: if_splits prod.splits)

lemma run_split_length:
  "(r, s) = run_split lt a xs \<Longrightarrow> length s \<le> length xs"
  using run_split_append [of lt a xs r s] by auto

function sort_pass :: "('a \<Rightarrow> 'a \<Rightarrow> bool) \<Rightarrow> 'a list \<Rightarrow> nat \<times> 'a list" where
  "sort_pass lt [] = (0, [])"
| "sort_pass lt (a # xs) =
     (case run_split lt a xs of
        (r, []) \<Rightarrow> (1, a # r)
      | (r, b # s) \<Rightarrow>
          (case run_split lt b s of
             (r', s') \<Rightarrow> (case sort_pass lt s' of (n, zs) \<Rightarrow> (Suc n, mrg lt (a # r) (b # r') @ zs))))"
  by pat_completeness auto
termination
  by (relation "measure (\<lambda>(lt, xs). length xs)") (auto dest!: run_split_length)

text \<open>Runs of a list, and how a pass changes them.\<close>

fun runs :: "('a \<Rightarrow> 'a \<Rightarrow> bool) \<Rightarrow> 'a list \<Rightarrow> nat" where
  "runs lt [] = 0"
| "runs lt [a] = 1"
| "runs lt (a # b # xs) = (if lt b a then Suc (runs lt (b # xs)) else runs lt (b # xs))"

lemma mset_mrg [simp]: "mset (mrg lt as bs) = mset as + mset bs"
  by (induction lt as bs rule: mrg.induct) auto

lemma set_mrg [simp]: "set (mrg lt as bs) = set as \<union> set bs"
  by (metis mset_mrg set_mset_mset set_mset_union)

lemma sort_pass_induct [case_names Nil One Two]:
  assumes "P []"
    and "\<And>a xs r. run_split lt a xs = (r, []) \<Longrightarrow> P (a # xs)"
    and "\<And>a xs r b s r' s'. \<lbrakk>run_split lt a xs = (r, b # s); run_split lt b s = (r', s'); P s'\<rbrakk> \<Longrightarrow> P (a # xs)"
  shows "P xs"
proof (induction xs rule: length_induct)
  case (1 xs)
  show ?case
  proof (cases xs)
    case Nil
    with assms(1) show ?thesis by simp
  next
    case (Cons a ys)
    obtain r s where rs: "run_split lt a ys = (r, s)"
      by fastforce
    show ?thesis
    proof (cases s)
      case Nil
      with rs assms(2) Cons show ?thesis by simp
    next
      case (Cons b s2)
      obtain r' s' where rs': "run_split lt b s2 = (r', s')"
        by fastforce
      have "length s' < length xs"
        using run_split_append [OF rs] run_split_append [OF rs'] Cons \<open>xs = a # ys\<close> by auto
      with 1 have "P s'" by blast
      with assms(3) rs rs' Cons \<open>xs = a # ys\<close> show ?thesis by blast
    qed
  qed
qed

lemma mset_sort_pass: "mset (snd (sort_pass lt xs)) = mset xs"
proof (induction xs rule: sort_pass_induct [where lt = lt])
  case (Two a xs r b s r' s')
  then show ?case
    using run_split_append [OF Two(1)] run_split_append [OF Two(2)] by (auto split: prod.splits)
qed (auto dest: run_split_append)

lemma weak_orderD:
  assumes "weak_order lt"
  shows "lt x y \<Longrightarrow> \<not> lt y x" "\<not> lt x y \<Longrightarrow> \<not> lt y z \<Longrightarrow> \<not> lt x z"
  using assms unfolding weak_order_def by blast+

lemma in_order_Cons:
  "in_order lt (a # xs) \<longleftrightarrow> (\<forall>y\<in>set xs. \<not> lt y a) \<and> in_order lt xs"
  by (simp add: in_order_def)

lemma in_order_mrg:
  assumes w: "weak_order lt"
  shows "in_order lt as \<Longrightarrow> in_order lt bs \<Longrightarrow> in_order lt (mrg lt as bs)"
  using w
proof (induction lt as bs rule: mrg.induct)
  case (1 lt a as b bs)
  note w = weak_orderD [OF "1.prems"(3)]
  show ?case
  proof (cases "lt b a")
    case True
    then have "\<not> lt y b" if "y \<in> set (a # as) \<union> set bs" for y
      using that "1.prems"(1,2) w(1) [OF True] w(2) [of y a b] by (auto simp: in_order_Cons)
    with True 1 show ?thesis by (auto simp: in_order_Cons)
  next
    case False
    then have "\<not> lt y a" if "y \<in> set as \<union> set (b # bs)" for y
      using that "1.prems"(1,2) w(2) [of y b a] by (auto simp: in_order_Cons)
    with False 1 show ?thesis by (auto simp: in_order_Cons)
  qed
qed (simp_all add: in_order_def)

lemma mrg_stable:
  assumes w: "weak_order lt"
  shows "in_order lt as \<Longrightarrow> in_order lt bs \<Longrightarrow>
     filter (same_class lt x) (mrg lt as bs) = filter (same_class lt x) as @ filter (same_class lt x) bs"
  using w
proof (induction lt as bs rule: mrg.induct)
  case (1 lt a as b bs)
  note w = weak_orderD [OF "1.prems"(3)]
  have "filter (same_class lt x) (a # as) = []" if ba: "lt b a" and xb: "same_class lt x b"
  proof -
    have "lt b y" if "y \<in> set (a # as)" for y
      using that "1.prems"(1) w(2) [of b y a] ba by (auto simp: in_order_Cons)
    then have "\<not> same_class lt x y" if "y \<in> set (a # as)" for y
      using that xb w(2) [of b x y] by (auto simp: same_class_def)
    then show ?thesis
      by (simp add: filter_empty_conv)
  qed
  with 1 show ?case
    by (auto simp: in_order_Cons split: if_splits)
qed simp_all

lemma run_split_run:
  "run_split lt a xs = (r, s) \<Longrightarrow> runs lt (a # r) = 1 \<and> runs lt (a # xs) = Suc (runs lt s) \<and>
     (s \<noteq> [] \<longrightarrow> lt (hd s) (last (a # r)))"
  by (induction lt a xs arbitrary: r s rule: run_split.induct) (auto split: if_splits prod.splits)

lemma runs_pos [simp]: "0 < runs lt (a # xs)"
  by (induction xs arbitrary: a) auto

lemma runs1_in_order:
  assumes "weak_order lt"
  shows "runs lt xs \<le> 1 \<Longrightarrow> in_order lt xs"
  using assms
proof (induction lt xs rule: runs.induct)
  case (3 lt a b xs)
  have ba: "\<not> lt b a"
    using "3.prems"(1) runs_pos [of lt b xs] by (auto simp del: runs_pos split: if_splits)
  with 3 have o: "in_order lt (b # xs)"
    by simp
  then have "\<not> lt y a" if "y \<in> set (b # xs)" for y
    using that ba weak_orderD(2) [OF "3.prems"(2), of y b a] by (auto simp: in_order_Cons)
  with o show ?case
    by (simp add: in_order_Cons)
qed (auto simp: in_order_def)

lemma in_order_runs1: "in_order lt xs \<Longrightarrow> runs lt xs \<le> 1"
  by (induction lt xs rule: runs.induct) (auto simp: in_order_def)

lemma runs_append: "runs lt (xs @ ys) \<le> runs lt xs + runs lt ys"
proof (induction lt xs rule: runs.induct)
  case (2 lt a)
  then show ?case by (cases ys) auto
qed auto

lemma sort_pass_spec:
  assumes w: "weak_order lt" and "sort_pass lt xs = (n, zs)"
  shows "runs lt zs \<le> n \<and> 2 * n \<le> runs lt xs + 1 \<and> n \<le> length xs \<and>
     filter (same_class lt x) zs = filter (same_class lt x) xs"
  using assms(2)
proof (induction xs arbitrary: n zs rule: sort_pass_induct [where lt = lt])
  case Nil
  then show ?case by simp
next
  case (One a xs r)
  then show ?case
    using run_split_run [OF One(1)] run_split_append [OF One(1)] by auto
next
  case (Two a xs r b s r' s')
  obtain n' zs' where p: "sort_pass lt s' = (n', zs')"
    by fastforce
  have out: "n = Suc n'" "zs = mrg lt (a # r) (b # r') @ zs'"
    using Two p by simp_all
  have ord: "in_order lt (a # r)" "in_order lt (b # r')"
    using run_split_run [OF Two(1)] run_split_run [OF Two(2)] runs1_in_order [OF w] by auto
  have "runs lt zs \<le> 1 + runs lt zs'"
    using runs_append [of lt "mrg lt (a # r) (b # r')" zs'] in_order_runs1 [OF in_order_mrg [OF w ord]]
    by (simp add: out)
  moreover have "runs lt (a # xs) = Suc (Suc (runs lt s'))"
    using run_split_run [OF Two(1)] run_split_run [OF Two(2)] by simp
  moreover have "xs = r @ b # r' @ s'"
    using run_split_append [OF Two(1)] run_split_append [OF Two(2)] by simp
  ultimately show ?case
    using Two.IH [OF p] mrg_stable [OF w ord, of x] by (auto simp: out)
qed

section \<open>The operations on memory\<close>

lemma linked_hd:
  assumes "linked m (us @ a # vs)" "vs \<noteq> []"
  shows "list_next m a = Some (hd vs)" "list_prev m (hd vs) = Some a"
  using assms linked_at [of m us a "hd vs" "tl vs"] by simp_all

lemma find_end_of_run_ok:
  "\<lbrakk>linked m (us @ a # xs @ [b]); b \<notin> set (a # xs)\<rbrakk> \<Longrightarrow>
   find_end_of_run m a b lt aux = Some (hd (snd (run_split (\<lambda>x y. lt x y aux) a xs) @ [b]))"
proof (induction xs arbitrary: us a)
  case Nil
  then show ?case
    using linked_at [of m us a b "[]"] by (subst find_end_of_run.simps) simp
next
  case (Cons x xs)
  then show ?case
    using linked_at [of m us a x "xs @ [b]"] Cons.IH [of "us @ [a]" x]
    by (subst find_end_of_run.simps) (auto split: prod.splits)
qed

lemma inplace_merge_ok:
  "\<lbrakk>linked m (A @ as @ bs @ Z); sep (A @ as @ bs @ Z); A \<noteq> []; Z \<noteq> []\<rbrakk> \<Longrightarrow>
   \<exists>m'. inplace_merge m (hd (as @ bs @ Z)) (hd (bs @ Z)) (hd Z) lt aux = Some m' \<and>
     linked m' (A @ mrg (\<lambda>x y. lt x y aux) as bs @ Z) \<and>
     m' (hd A) = m (hd A) \<and> m' (last Z + 8) = m (last Z + 8) \<and>
     (\<forall>p. p \<notin> cells_of (set (A @ as @ bs @ Z)) \<longrightarrow> m' p = m p)"
proof (induction "length as + length bs" arbitrary: m A as bs rule: less_induct)
  case less
  show ?case
  proof (cases "as = [] \<or> bs = []")
    case True
    with less.prems show ?thesis
      by (subst inplace_merge.simps) (auto intro!: exI [of _ m])
  next
    case False
    then obtain a as' b bs' where ab: "as = a # as'" "bs = b # bs'"
      by (meson neq_Nil_conv)
    have ne: "a \<noteq> b" "b \<noteq> hd Z"
      using less.prems by (auto simp: ab sep_def)
    show ?thesis
    proof (cases "lt b a aux")
      case True
      have ns: "A @ as @ bs @ Z = A @ as @ [b] @ (bs' @ Z)"
        by (simp add: ab)
      obtain m1 where m1: "list_splice m a b (hd (bs' @ Z)) = Some m1"
          "linked m1 (A @ [b] @ as @ (bs' @ Z))"
          "m1 (hd A) = m (hd A)" "m1 (last Z + 8) = m (last Z + 8)"
          "\<forall>p. p \<notin> cells_of (set (A @ as @ bs @ Z)) \<longrightarrow> m1 p = m p"
        using list_splice_nodes [of m A as "[b]" "bs' @ Z"] less.prems unfolding ns
        by (auto simp: ab)
      have sp1: "sep ((A @ [b]) @ as @ bs' @ Z)"
        using less.prems(2) sep_perm [of "A @ as @ bs @ Z" "(A @ [b]) @ as @ bs' @ Z"] by (simp add: ab)
      obtain m2 where m2: "inplace_merge m1 (hd (as @ bs' @ Z)) (hd (bs' @ Z)) (hd Z) lt aux = Some m2"
          "linked m2 ((A @ [b]) @ mrg (\<lambda>x y. lt x y aux) as bs' @ Z)"
          "m2 (hd A) = m1 (hd A)" "m2 (last Z + 8) = m1 (last Z + 8)"
          "\<forall>p. p \<notin> cells_of (set ((A @ [b]) @ as @ bs' @ Z)) \<longrightarrow> m2 p = m1 p"
        using less.hyps [of as bs' m1 "A @ [b]"] m1(2) sp1 less.prems(3,4) by (auto simp: ab)
      have nx: "list_next m b = Some (hd (bs' @ Z))" "list_prev m (hd (bs' @ Z)) = Some b"
        using linked_hd [of m "A @ as" b "bs' @ Z"] less.prems by (simp_all add: ab)
      have "cells_of (set ((A @ [b]) @ as @ bs' @ Z)) = cells_of (set (A @ as @ bs @ Z))"
        by (rule arg_cong [of _ _ cells_of]) (auto simp: ab)
      with m1 m2 True ne nx show ?thesis
        by (subst inplace_merge.simps) (auto simp: ab)
    next
      case False
      have sp1: "sep ((A @ [a]) @ as' @ bs @ Z)" "linked m ((A @ [a]) @ as' @ bs @ Z)"
        using less.prems by (simp_all add: ab)
      obtain m2 where m2: "inplace_merge m (hd (as' @ bs @ Z)) (hd (bs @ Z)) (hd Z) lt aux = Some m2"
          "linked m2 ((A @ [a]) @ mrg (\<lambda>x y. lt x y aux) as' bs @ Z)"
          "m2 (hd A) = m (hd A)" "m2 (last Z + 8) = m (last Z + 8)"
          "\<forall>p. p \<notin> cells_of (set ((A @ [a]) @ as' @ bs @ Z)) \<longrightarrow> m2 p = m p"
        using less.hyps [of as' bs m "A @ [a]"] sp1 less.prems(3,4) by (auto simp: ab)
      have nx: "list_next m a = Some (hd (as' @ bs @ Z))"
        using linked_hd [of m A a "as' @ bs @ Z"] less.prems by (simp add: ab)
      have "cells_of (set ((A @ [a]) @ as' @ bs @ Z)) = cells_of (set (A @ as @ bs @ Z))"
        by (rule arg_cong [of _ _ cells_of]) (auto simp: ab)
      with m2 False ne nx show ?thesis
        by (subst inplace_merge.simps) (auto simp: ab)
    qed
  qed
qed

lemma list_sort_pass_ok:
  "\<lbrakk>linked m (A @ xs @ [l + 16]); sep (A @ xs @ [l + 16]); A \<noteq> [];
    sort_pass (\<lambda>x y. lt x y aux) xs = (n, zs)\<rbrakk> \<Longrightarrow>
   \<exists>m'. list_sort_pass m l (hd (xs @ [l + 16])) cnt lt aux = Some (cnt + of_nat n, m') \<and>
     linked m' (A @ zs @ [l + 16]) \<and>
     m' (hd A) = m (hd A) \<and> m' (l + 24) = m (l + 24) \<and>
     (\<forall>p. p \<notin> cells_of (set (A @ xs @ [l + 16])) \<longrightarrow> m' p = m p)"
proof (induction xs arbitrary: m A n zs cnt rule: sort_pass_induct [where lt = "\<lambda>x y. lt x y aux"])
  case Nil
  then show ?case
    by (subst list_sort_pass.simps) (auto simp: list_end_def list_tail_def)
next
  case (One a xs r)
  have "a \<noteq> l + 16"
    using One.prems by (auto simp: sep_def)
  with One show ?case
    using find_end_of_run_ok [of m A a xs "l + 16" lt aux] run_split_append [OF One(1)]
    by (subst list_sort_pass.simps) (auto simp: list_end_def list_tail_def sep_def)
next
  case (Two a xs r b s r' s')
  let ?lt = "\<lambda>x y. lt x y aux" and ?t = "l + 16"
  obtain n' zs' where p: "sort_pass ?lt s' = (n', zs')"
    by fastforce
  have out: "n = Suc n'" "zs = mrg ?lt (a # r) (b # r') @ zs'"
    using Two p by simp_all
  have xs: "xs = r @ b # r' @ s'" "s = r' @ s'"
    using run_split_append [OF Two(1)] run_split_append [OF Two(2)] by simp_all
  let ?Z = "s' @ [?t]"
  have tn: "?t \<notin> set (a # xs)"
    using Two.prems(2) by (auto simp: sep_def)
  have e1: "find_end_of_run m a ?t lt aux = Some b" and e2: "find_end_of_run m b ?t lt aux = Some (hd ?Z)"
    using find_end_of_run_ok [of m A a xs ?t lt aux] find_end_of_run_ok [of m "A @ a # r" b s ?t lt aux]
      Two.prems(1) Two(1,2) tn by (auto simp: xs)
  obtain m1 where m1: "inplace_merge m a b (hd ?Z) lt aux = Some m1"
      "linked m1 (A @ mrg ?lt (a # r) (b # r') @ ?Z)"
      "m1 (hd A) = m (hd A)" "m1 (?t + 8) = m (?t + 8)"
      "\<forall>p. p \<notin> cells_of (set (A @ (a # xs) @ [?t])) \<longrightarrow> m1 p = m p"
    using inplace_merge_ok [of m A "a # r" "b # r'" ?Z lt aux] Two.prems xs by auto
  define B where "B = A @ mrg ?lt (a # r) (b # r')"
  have setB: "mset (B @ s' @ [?t]) = mset (A @ (a # xs) @ [?t])" and hdB: "hd B = hd A" "B \<noteq> []"
    using Two.prems(3) by (auto simp: B_def xs simp del: mrg.simps)
  have sB: "sep (B @ s' @ [?t])" and lB: "linked m1 (B @ s' @ [?t])"
    using sep_perm [OF setB] Two.prems(2) m1(2) by (simp_all add: B_def)
  have cB: "set (B @ s' @ [?t]) = set (A @ (a # xs) @ [?t])"
    using setB by (rule mset_eq_setD)
  obtain m2 where m2: "list_sort_pass m1 l (hd ?Z) (cnt + 1) lt aux = Some (cnt + 1 + of_nat n', m2)"
      "linked m2 (B @ zs' @ [?t])" "m2 (hd B) = m1 (hd B)" "m2 (l + 24) = m1 (l + 24)"
      "\<forall>p. p \<notin> cells_of (set (B @ s' @ [?t])) \<longrightarrow> m2 p = m1 p"
    using Two.IH [OF lB sB hdB(2) p] by blast
  have "a \<noteq> ?t" "b \<noteq> ?t"
    using Two.prems(2) by (auto simp: sep_def xs)
  then have "list_sort_pass m l a cnt lt aux = Some (cnt + of_nat n, m2)"
    using e1 e2 m1(1) m2(1)
    by (subst list_sort_pass.simps) (simp add: list_end_def list_tail_def out add_ac)
  moreover have "linked m2 (A @ zs @ [?t])"
    using m2(2) by (simp add: B_def out)
  moreover have "m2 (hd A) = m (hd A)" "m2 (l + 24) = m (l + 24)"
    using m1 m2 hdB by (simp_all add: add.commute [of 24 l])
  moreover have "\<forall>p. p \<notin> cells_of (set (A @ (a # xs) @ [?t])) \<longrightarrow> m2 p = m p"
    using m1(5) m2(5) unfolding cB by simp
  ultimately show ?case
    by simp
qed

lemma distinct_length_u64: "distinct (xs :: u64 list) \<Longrightarrow> length xs \<le> 2 ^ 64"
  using card_mono [of "UNIV :: u64 set" "set xs"] by (simp add: distinct_card card_word)

lemma list_sort_ok:
  assumes w: "weak_order (\<lambda>x y. lt x y aux)" and d: "dlist m l xs"
  shows "\<exists>m' ys. list_sort m l lt aux = Some m' \<and> dlist m' l ys \<and> mset ys = mset xs \<and>
     in_order (\<lambda>x y. lt x y aux) ys \<and>
     (\<forall>x. filter (same_class (\<lambda>x y. lt x y aux) x) ys = filter (same_class (\<lambda>x y. lt x y aux) x) xs) \<and>
     (\<forall>p. p \<notin> cells_of (set (nodes l xs)) \<longrightarrow> m' p = m p)"
  using d
proof (induction "runs (\<lambda>x y. lt x y aux) xs" arbitrary: m xs rule: less_induct)
  case less
  let ?lt = "\<lambda>x y. lt x y aux"
  obtain n zs where p: "sort_pass ?lt xs = (n, zs)"
    by fastforce
  have spec: "runs ?lt zs \<le> n" "2 * n \<le> runs ?lt xs + 1" "n \<le> length xs"
      "\<forall>x. filter (same_class ?lt x) zs = filter (same_class ?lt x) xs" and ms: "mset zs = mset xs"
    using sort_pass_spec [OF w p] mset_sort_pass [of ?lt xs] by (auto simp: p)
  have lk: "linked m ([l] @ xs @ [l + 16])" "sep ([l] @ xs @ [l + 16])"
    using less.prems by (auto simp: dlist_def nodes_def)
  obtain m1 where m1: "list_sort_pass m l (hd (xs @ [l + 16])) 0 lt aux = Some (of_nat n, m1)"
      "linked m1 ([l] @ zs @ [l + 16])" "m1 l = m l" "m1 (l + 24) = m (l + 24)"
      "\<forall>p. p \<notin> cells_of (set ([l] @ xs @ [l + 16])) \<longrightarrow> m1 p = m p"
    using list_sort_pass_ok [of m "[l]" xs l lt aux n zs 0] lk p by auto
  have sz: "set zs = set xs" "set (nodes l zs) = set (nodes l xs)"
    using ms mset_eq_setD by auto
  have d1: "dlist m1 l zs"
    using less.prems m1 ms sep_perm [of "nodes l zs" "nodes l xs"] sz by (simp add: dlist_def nodes_def)
  have fr: "\<forall>p. p \<notin> cells_of (set (nodes l xs)) \<longrightarrow> m1 p = m p"
    using m1(5) by (simp add: insert_commute)
  have "n < 2 ^ 64"
    using spec(3) distinct_length_u64 [of "nodes l xs"] less.prems by (simp add: dlist_def sep_def nodes_def)
  then have cmp: "1 < (of_nat n :: u64) \<longleftrightarrow> 1 < n"
    by (simp add: word_less_nat_alt unat_of_nat)
  show ?case
  proof (cases "1 < n")
    case True
    then have "runs ?lt zs < runs ?lt xs"
      using spec by linarith
    from less.hyps [OF this d1] obtain m' ys where m': "list_sort m1 l lt aux = Some m'" "dlist m' l ys"
        "mset ys = mset zs" "in_order ?lt ys"
        "\<forall>x. filter (same_class ?lt x) ys = filter (same_class ?lt x) zs"
        "\<forall>p. p \<notin> cells_of (set (nodes l zs)) \<longrightarrow> m' p = m1 p"
      by blast
    have "list_sort m l lt aux = Some m'"
      using m'(1) m1(1) True cmp less.prems by (subst list_sort.simps) (simp add: dlist_begin)
    then show ?thesis
      using m' ms spec fr sz by (intro exI [of _ m'] exI [of _ ys]) auto
  next
    case False
    have "list_sort m l lt aux = Some m1"
      using m1(1) False cmp less.prems by (subst list_sort.simps) (simp add: dlist_begin)
    moreover have "in_order ?lt zs"
      using runs1_in_order [OF w] spec(1) False by simp
    ultimately show ?thesis
      using d1 ms spec fr by (intro exI [of _ m1] exI [of _ zs]) auto
  qed
qed

section \<open>Searching and inserting in order\<close>

lemma insert_ordered_loop_ok:
  "dlist m l (xs @ ys) \<Longrightarrow> insert_ordered_loop m l (hd (ys @ [l + 16])) e lt aux =
     Some (hd (dropWhile (\<lambda>y. \<not> lt e y aux) ys @ [l + 16]))"
proof (induction ys arbitrary: xs)
  case Nil
  then show ?case by (subst insert_ordered_loop.simps) (simp add: list_end_def list_tail_def)
next
  case (Cons y ys)
  from Cons.prems have "y \<noteq> l + 16"
    using dlist_notin by fastforce
  with Cons.prems Cons.IH [of "xs @ [y]"] show ?case
    by (subst insert_ordered_loop.simps) (simp add: list_end_def list_tail_def dlist_next)
qed

lemma list_insert_ordered_ok:
  assumes "dlist m l xs" "fresh_elem m e (nodes l xs)"
  shows "\<exists>m'. list_insert_ordered m l e lt aux = Some m' \<and>
     dlist m' l (takeWhile (\<lambda>y. \<not> lt e y aux) xs @ e # dropWhile (\<lambda>y. \<not> lt e y aux) xs) \<and>
     (\<forall>p. p \<notin> cells_of (set (nodes l (e # xs))) \<longrightarrow> m' p = m p)"
proof -
  let ?P = "\<lambda>y. \<not> lt e y aux"
  have xs: "takeWhile ?P xs @ dropWhile ?P xs = xs"
    by simp
  have st: "set (nodes l (takeWhile ?P xs @ e # dropWhile ?P xs)) = set (nodes l (e # xs))"
    using arg_cong [OF xs, of set] by (auto simp del: takeWhile_dropWhile_id)
  show ?thesis
    using list_insert_ok [of m l "takeWhile ?P xs" "dropWhile ?P xs" e] assms
      insert_ordered_loop_ok [of m l "[]" xs e lt aux]
    unfolding st [symmetric] by (simp add: list_insert_ordered_def dlist_begin)
qed

lemma in_order_insert:
  assumes w: "weak_order lt" and o: "in_order lt xs"
  shows "in_order lt (takeWhile (\<lambda>y. \<not> lt e y) xs @ e # dropWhile (\<lambda>y. \<not> lt e y) xs)"
  using o
proof (induction xs)
  case (Cons x xs)
  show ?case
  proof (cases "lt e x")
    case True
    then have "\<not> lt y e" if "y \<in> set (x # xs)" for y
      using that Cons.prems weak_orderD(1) [OF w True] weak_orderD(2) [OF w, of y x e]
      by (auto simp: in_order_Cons)
    with True Cons show ?thesis by (auto simp: in_order_Cons)
  next
    case False
    have "y = e \<or> y \<in> set xs" if "y \<in> set (takeWhile (\<lambda>y. \<not> lt e y) xs @ e # dropWhile (\<lambda>y. \<not> lt e y) xs)" for y
      using that by (auto dest: set_takeWhileD set_dropWhileD)
    with False Cons show ?thesis
      by (auto simp: in_order_Cons)
  qed
qed (simp add: in_order_def)

lemma is_sorted_loop_ok:
  "\<lbrakk>linked m (us @ a # xs @ [b]); b \<notin> set (a # xs)\<rbrakk> \<Longrightarrow>
   is_sorted_loop m a b lt aux = Some (runs (\<lambda>x y. lt x y aux) (a # xs) = 1)"
proof (induction xs arbitrary: us a)
  case Nil
  then show ?case
    using linked_at [of m us a b "[]"] by (subst is_sorted_loop.simps) simp
next
  case (Cons x xs)
  then show ?case
    using linked_at [of m us a x "xs @ [b]"] Cons.IH [of "us @ [a]" x]
    by (subst is_sorted_loop.simps) (auto dest: arg_cong [where f = "\<lambda>n. 0 < n"])
qed

fun pick :: "('a \<Rightarrow> 'a \<Rightarrow> bool) \<Rightarrow> 'a \<Rightarrow> 'a list \<Rightarrow> 'a" where
  "pick better x [] = x"
| "pick better x (y # ys) = pick better (if better y x then y else x) ys"

lemma list_max_loop_ok:
  "dlist m l (xs @ ys) \<Longrightarrow> list_max_loop m l mx (hd (ys @ [l + 16])) lt aux =
     Some (pick (\<lambda>y x. lt x y aux) mx ys)"
proof (induction ys arbitrary: xs mx)
  case Nil
  then show ?case by (subst list_max_loop.simps) (simp add: list_end_def list_tail_def)
next
  case (Cons y ys)
  from Cons.prems have "y \<noteq> l + 16"
    using dlist_notin by fastforce
  with Cons.prems Cons.IH [of "xs @ [y]"] show ?case
    by (subst list_max_loop.simps) (simp add: list_end_def list_tail_def dlist_next)
qed

lemma list_min_loop_ok:
  "dlist m l (xs @ ys) \<Longrightarrow> list_min_loop m l mn (hd (ys @ [l + 16])) lt aux =
     Some (pick (\<lambda>y x. lt y x aux) mn ys)"
proof (induction ys arbitrary: xs mn)
  case Nil
  then show ?case by (subst list_min_loop.simps) (simp add: list_end_def list_tail_def)
next
  case (Cons y ys)
  from Cons.prems have "y \<noteq> l + 16"
    using dlist_notin by fastforce
  with Cons.prems Cons.IH [of "xs @ [y]"] show ?case
    by (subst list_min_loop.simps) (simp add: list_end_def list_tail_def dlist_next)
qed

lemma list_max_eq:
  "dlist m l xs \<Longrightarrow> list_max m l lt aux =
     Some (case xs of [] \<Rightarrow> l + 16 | x # ys \<Rightarrow> pick (\<lambda>y x. lt x y aux) x ys)"
  using dlist_notin [of m l xs] list_max_loop_ok [of m l "[hd xs]" "tl xs"] dlist_next(1) [of m l "[]"]
  by (cases xs) (auto simp: list_max_def dlist_begin list_end_def list_tail_def)

lemma list_min_eq:
  "dlist m l xs \<Longrightarrow> list_min m l lt aux =
     Some (case xs of [] \<Rightarrow> l + 16 | x # ys \<Rightarrow> pick (\<lambda>y x. lt y x aux) x ys)"
  using dlist_notin [of m l xs] list_min_loop_ok [of m l "[hd xs]" "tl xs"] dlist_next(1) [of m l "[]"]
  by (cases xs) (auto simp: list_min_def dlist_begin list_end_def list_tail_def)

lemma pick_snoc:
  "pick better x (zs @ [z]) = (if better z (pick better x zs) then z else pick better x zs)"
  by (induction zs arbitrary: x) auto

lemma weak_order_trans: "weak_order lt \<Longrightarrow> lt x y \<Longrightarrow> lt y z \<Longrightarrow> lt x z"
  by (metis weak_orderD)

lemma pick_best:
  assumes w: "weak_order better"
  shows "\<exists>as bs. x # xs = as @ pick better x xs # bs \<and> (\<forall>y\<in>set as. better (pick better x xs) y) \<and>
     (\<forall>y\<in>set bs. \<not> better y (pick better x xs))"
proof (induction xs rule: rev_induct)
  case Nil
  show ?case
    by (intro exI [of _ "[]"]) simp
next
  case (snoc z zs)
  let ?b = "pick better x zs"
  obtain as bs where ab: "x # zs = as @ ?b # bs" "\<forall>y\<in>set as. better ?b y" "\<forall>y\<in>set bs. \<not> better y ?b"
    using snoc by blast
  show ?case
  proof (cases "better z ?b")
    case True
    have "better z y" if "y \<in> set (x # zs)" for y
      using that ab True weak_order_trans [OF w True, of y] weak_orderD(2) [OF w, of z y ?b] by auto
    with True show ?thesis
      by (intro exI [of _ "x # zs"] exI [of _ "[]"]) (simp add: pick_snoc)
  next
    case False
    with ab show ?thesis
      by (intro exI [of _ as] exI [of _ "bs @ [z]"]) (simp add: pick_snoc)
  qed
qed

section \<open>Removing adjacent duplicates\<close>

fun unique_split :: "('a \<Rightarrow> 'a \<Rightarrow> bool) \<Rightarrow> 'a \<Rightarrow> 'a list \<Rightarrow> 'a list \<times> 'a list" where
  "unique_split lt x [] = ([x], [])"
| "unique_split lt x (y # ys) =
     (if same_class lt x y then (case unique_split lt x ys of (ks, ds) \<Rightarrow> (ks, y # ds))
      else (case unique_split lt y ys of (ks, ds) \<Rightarrow> (x # ks, ds)))"

lemma list_unique_loop_ok:
  "\<lbrakk>dlist m l (us @ x # xs); dup \<noteq> NULL \<longrightarrow> dlist m dup ds;
    dup \<noteq> NULL \<longrightarrow> sep (nodes l (us @ x # xs) @ nodes dup ds)\<rbrakk> \<Longrightarrow>
   \<exists>m'. list_unique_loop m l dup x lt aux = Some m' \<and>
     dlist m' l (us @ fst (unique_split (\<lambda>a b. lt a b aux) x xs)) \<and>
     (dup \<noteq> NULL \<longrightarrow> dlist m' dup (ds @ snd (unique_split (\<lambda>a b. lt a b aux) x xs)))"
proof (induction xs arbitrary: m us x ds)
  case Nil
  then show ?case
    by (subst list_unique_loop.simps) (simp add: dlist_next list_end_def list_tail_def)
next
  case (Cons y ys)
  have nx: "list_next m x = Some y" and yt: "y \<noteq> l + 16"
    using dlist_next(1) [OF Cons.prems(1)] dlist_notin [OF Cons.prems(1)] by auto
  show ?case
  proof (cases "same_class (\<lambda>a b. lt a b aux) x y")
    case False
    have "\<exists>m'. list_unique_loop m l dup y lt aux = Some m' \<and>
       dlist m' l ((us @ [x]) @ fst (unique_split (\<lambda>a b. lt a b aux) y ys)) \<and>
       (dup \<noteq> NULL \<longrightarrow> dlist m' dup (ds @ snd (unique_split (\<lambda>a b. lt a b aux) y ys)))"
      by (rule Cons.IH) (use Cons.prems in simp_all)
    with False nx yt show ?thesis
      by (subst list_unique_loop.simps)
        (auto simp: list_end_def list_tail_def same_class_def split: prod.splits)
  next
    case True
    obtain m1 where m1: "list_remove m y = Some (hd (ys @ [l + 16]), m1)" "dlist m1 l (us @ x # ys)"
        "\<forall>p. p \<notin> cells_of (set (nodes l (us @ x # ys))) \<longrightarrow> m1 p = m p"
      using list_remove_ok [of m l "us @ [x]" y ys] Cons.prems(1) by auto
    have perm: "sep (nodes l (us @ x # ys) @ nodes dup (ds @ [y]))" if "dup \<noteq> NULL"
      using Cons.prems(3) that sep_perm [of "nodes l (us @ x # y # ys) @ nodes dup ds"
          "nodes l (us @ x # ys) @ nodes dup (ds @ [y])"] by (simp add: nodes_def)
    obtain m2 where m2: "(if dup \<noteq> NULL then list_push_back m1 dup y else Some m1) = Some m2"
        "dlist m2 l (us @ x # ys)" "dup \<noteq> NULL \<longrightarrow> dlist m2 dup (ds @ [y])"
    proof (cases "dup = NULL")
      case False
      have dj: "cells_of (set (nodes l (us @ x # ys))) \<inter> cells_of (set (nodes dup (ds @ [y]))) = {}"
        using perm [OF False] by (simp add: sep_append)
      have keep: "m1 p = m p" if "p \<in> cells_of (set (nodes dup (ds @ [y])))" for p
        using m1(3) dj that by blast
      have sub: "cells_of (set (nodes dup ds)) \<subseteq> cells_of (set (nodes dup (ds @ [y])))"
          "{y, y + 8} \<subseteq> cells_of (set (nodes dup (ds @ [y])))"
        by (auto simp: cells_of_def)
      have "dlist m1 dup ds"
        using dlist_frame [of dup ds m1 m] keep sub Cons.prems(2) False by blast
      moreover have "sep (y # nodes dup ds)"
        using perm [OF False, unfolded sep_append] sep_perm [of "nodes dup (ds @ [y])" "y # nodes dup ds"]
        by (simp add: nodes_def)
      then have "fresh_elem m1 y (nodes dup ds)"
        using dlist_cells [OF Cons.prems(1), of y] keep sub by (auto simp: fresh_elem_def sep_def)
      ultimately obtain m2 where m2: "list_push_back m1 dup y = Some m2" "dlist m2 dup (ds @ [y])"
          "\<forall>p. p \<notin> cells_of (set (nodes dup (ds @ [y]))) \<longrightarrow> m2 p = m1 p"
        using list_push_back_ok by blast
      moreover have "dlist m2 l (us @ x # ys)"
        using dlist_frame [of l "us @ x # ys" m2 m1] m2(3) dj m1(2) by blast
      ultimately show ?thesis
        using that False by simp
    qed (use that m1 in simp)
    have "\<exists>m'. list_unique_loop m2 l dup x lt aux = Some m' \<and>
       dlist m' l (us @ fst (unique_split (\<lambda>a b. lt a b aux) x ys)) \<and>
       (dup \<noteq> NULL \<longrightarrow> dlist m' dup ((ds @ [y]) @ snd (unique_split (\<lambda>a b. lt a b aux) x ys)))"
      by (rule Cons.IH) (use m2 perm in simp_all)
    then show ?thesis
      using True nx yt m1(1) m2(1)
      by (subst list_unique_loop.simps)
        (auto simp: list_end_def list_tail_def same_class_def split: prod.splits)
  qed
qed

lemma unique_split_spec:
  "unique_split lt x xs = (ks, rs) \<Longrightarrow>
   mset ks + mset rs = mset (x # xs) \<and> successively (\<lambda>a b. \<not> same_class lt a b) ks \<and>
   (\<forall>r\<in>set rs. \<exists>k\<in>set ks. same_class lt k r) \<and> ks \<noteq> [] \<and> hd ks = x"
proof (induction xs arbitrary: x ks rs)
  case Nil
  then show ?case by auto
next
  case (Cons y ys)
  show ?case
  proof (cases "same_class lt x y")
    case True
    with Cons.prems obtain rs' where r: "unique_split lt x ys = (ks, rs')" "rs = y # rs'"
      by (auto split: prod.splits)
    with Cons.IH [OF r(1)] True show ?thesis
      using hd_in_set [of ks] by fastforce
  next
    case False
    with Cons.prems obtain ks' where r: "unique_split lt y ys = (ks', rs)" "ks = x # ks'"
      by (auto split: prod.splits)
    with Cons.IH [OF r(1)] False show ?thesis
      by (cases ks') (auto simp: successively_Cons)
  qed
qed

lemma list_unique_ok:
  assumes "dlist m l xs" "dup \<noteq> NULL \<longrightarrow> dlist m dup ds"
    "dup \<noteq> NULL \<longrightarrow> sep (nodes l xs @ nodes dup ds)"
  shows "\<exists>m'. list_unique m l dup lt aux = Some m' \<and>
     (let (ks, rs) = (case xs of [] \<Rightarrow> ([], []) | x # ys \<Rightarrow> unique_split (\<lambda>a b. lt a b aux) x ys)
      in dlist m' l ks \<and> (dup \<noteq> NULL \<longrightarrow> dlist m' dup (ds @ rs)))"
proof (cases xs)
  case Nil
  with assms show ?thesis
    by (simp add: list_unique_def list_empty_ok)
next
  case (Cons x ys)
  with assms list_unique_loop_ok [of m l "[]" x ys dup ds lt aux] show ?thesis
    by (auto simp: list_unique_def list_empty_ok dlist_begin split: prod.splits)
qed

section \<open>Properties\<close>

lemma weak_order_greater: "weak_order (\<lambda>x y :: 'a :: linorder. y < x)"
  by (auto simp: weak_order_def)

text \<open>
  C7: \<^verbatim>\<open>list_sort\<close> terminates on every list for every comparison that is
  a strict weak order, and is a stable sort: the result holds the same elements, in order, elements
  that compare equal stay in their original relative order, and no memory but the links of the list
  changes.
\<close>
theorem list_sort_correct:
  assumes "weak_order (\<lambda>x y. lt x y aux)" and "dlist m l xs"
  shows "\<exists>m' ys. list_sort m l lt aux = Some m' \<and> dlist m' l ys \<and> mset ys = mset xs \<and>
     in_order (\<lambda>x y. lt x y aux) ys \<and>
     (\<forall>x. filter (same_class (\<lambda>x y. lt x y aux) x) ys = filter (same_class (\<lambda>x y. lt x y aux) x) xs) \<and>
     (\<forall>p. p \<notin> cells_of (set (nodes l xs)) \<longrightarrow> m' p = m p)"
  using assms by (rule list_sort_ok)

theorem list_sort_correct_witness:
  "\<exists>m' ys. list_sort three 0x1000 (\<lambda>x y aux. y < x) 0 = Some m' \<and> dlist m' 0x1000 ys \<and>
     mset ys = {#0x2000, 0x3000, 0x4000#} \<and> in_order (\<lambda>x y. y < x) ys"
  using list_sort_correct [OF weak_order_greater three_dlist, of 0] by auto

text \<open>
  \<^verbatim>\<open>list_insert_ordered\<close> puts a new element into an ordered
  list so that the list stays ordered, after every element that is not greater than it.
\<close>
theorem list_insert_ordered_correct:
  assumes "weak_order (\<lambda>x y. lt x y aux)" and "dlist m l xs" and "in_order (\<lambda>x y. lt x y aux) xs"
    and "fresh_elem m e (nodes l xs)"
  shows "\<exists>m' as bs. list_insert_ordered m l e lt aux = Some m' \<and> xs = as @ bs \<and>
     dlist m' l (as @ e # bs) \<and> in_order (\<lambda>x y. lt x y aux) (as @ e # bs) \<and>
     (\<forall>a\<in>set as. \<not> lt e a aux) \<and> (\<forall>b\<in>set (take 1 bs). lt e b aux)"
proof -
  let ?P = "\<lambda>y. \<not> lt e y aux"
  have "\<forall>a\<in>set (takeWhile ?P xs). ?P a" by (auto dest: set_takeWhileD)
  moreover have "\<forall>b\<in>set (take 1 (dropWhile ?P xs)). lt e b aux"
  proof (cases "dropWhile ?P xs")
    case (Cons b bs)
    with hd_dropWhile [of ?P xs] show ?thesis by auto
  next
    case Nil
    then show ?thesis by (simp only: take_Nil) simp
  qed
  ultimately show ?thesis
    using list_insert_ordered_ok [OF assms(2,4), of lt aux] in_order_insert [OF assms(1,3), of e]
    by (metis takeWhile_dropWhile_id)
qed

theorem list_insert_ordered_correct_witness:
  "\<exists>m' as bs. list_insert_ordered three 0x1000 0x5000 (\<lambda>x y aux. x < y) 0 = Some m' \<and>
     [0x2000, 0x3000, 0x4000] = as @ bs \<and> dlist m' 0x1000 (as @ 0x5000 # bs) \<and>
     in_order (\<lambda>x y. x < y) (as @ 0x5000 # bs)"
proof -
  have "weak_order (\<lambda>x y :: u64. x < y)" by (auto simp: weak_order_def)
  moreover have "in_order (\<lambda>x y :: u64. x < y) [0x2000, 0x3000, 0x4000]" by (simp add: in_order_def)
  ultimately show ?thesis
    using list_insert_ordered_correct [OF _ three_dlist _ three_fresh, of "\<lambda>x y aux. x < y" 0] by blast
qed

text \<open>
  \<^verbatim>\<open>list_unique\<close> keeps the first element of every run of adjacent
  equal elements and, when a second list is given, appends the others to it in order: adjacent
  elements of the result differ, and no element is lost.
\<close>
theorem list_unique_correct:
  assumes "dlist m l xs" and "dup \<noteq> NULL" and "dlist m dup ds" and "sep (nodes l xs @ nodes dup ds)"
  shows "\<exists>m' ks rs. list_unique m l dup lt aux = Some m' \<and> dlist m' l ks \<and> dlist m' dup (ds @ rs) \<and>
     mset ks + mset rs = mset xs \<and> successively (\<lambda>a b. \<not> same_class (\<lambda>a b. lt a b aux) a b) ks \<and>
     (\<forall>r\<in>set rs. \<exists>k\<in>set ks. same_class (\<lambda>a b. lt a b aux) k r)"
proof -
  obtain ks rs where k: "(case xs of [] \<Rightarrow> ([], []) | x # ys \<Rightarrow> unique_split (\<lambda>a b. lt a b aux) x ys) = (ks, rs)"
    by fastforce
  then have "mset ks + mset rs = mset xs \<and> successively (\<lambda>a b. \<not> same_class (\<lambda>a b. lt a b aux) a b) ks \<and>
     (\<forall>r\<in>set rs. \<exists>k\<in>set ks. same_class (\<lambda>a b. lt a b aux) k r)"
  proof (cases xs)
    case (Cons x ys)
    with k have "unique_split (\<lambda>a b. lt a b aux) x ys = (ks, rs)" by simp
    from unique_split_spec [OF this] Cons show ?thesis by simp
  qed simp
  then show ?thesis
    using list_unique_ok [of m l xs dup ds lt aux] assms k by auto
qed

definition two_lists :: mem where
  "two_lists = three(0x6000 \<mapsto> 0, 0x6008 \<mapsto> 0x6010, 0x6010 \<mapsto> 0x6000, 0x6018 \<mapsto> 0)"

theorem list_unique_correct_witness:
  "\<exists>m' ks rs. list_unique two_lists 0x1000 0x6000 (\<lambda>x y aux. x div 0x2000 < y div 0x2000) 0 = Some m' \<and>
     dlist m' 0x1000 ks \<and> dlist m' 0x6000 ([] @ rs) \<and> mset ks + mset rs = {#0x2000, 0x3000, 0x4000#}"
proof -
  have "dlist two_lists 0x1000 [0x2000, 0x3000, 0x4000]" "dlist two_lists 0x6000 []"
    "sep (nodes 0x1000 [0x2000, 0x3000, 0x4000] @ nodes 0x6000 [])"
    by (simp_all add: two_lists_def three_def dlist_def nodes_def sep_def)
  from list_unique_correct [OF this(1) _ this(2,3), of "\<lambda>x y aux. x div 0x2000 < y div 0x2000" 0]
  show ?thesis by auto
qed

end
