(* ===== verification/Spinlock.thy ===== *)
theory Spinlock
  imports Prelude
begin

text \<open>
  Spin locks: \<^verbatim>\<open>threads/spinlock.h\<close>. The first part is the lock byte as one CPU sees it
  when nobody else runs: \<open>spinLock\<close> on a busy lock never returns, which is the value \<open>None\<close>;
  the components that take a lock use these definitions. The second part is the interleaving
  of any number of CPUs, one atomic access of the lock byte per step, with the invariant that
  the byte is set exactly when one CPU is between \<open>spinLock\<close> and \<open>spinUnlock\<close>, and the bounds
  of the exponential backoff.
\<close>

abbreviation (input) BUSY :: u8 where "BUSY \<equiv> 1"
abbreviation (input) SPINLOCK_INITIALIZER :: u8 where "SPINLOCK_INITIALIZER \<equiv> 0"
definition INIT_BACKOFF :: u32 where "INIT_BACKOFF = 2000"
definition MAX_BACKOFF :: u32 where "MAX_BACKOFF = 128 * 2000"

section \<open>The lock byte seen by one CPU\<close>

definition xchg_8 :: "u8 \<Rightarrow> u8 \<Rightarrow> u8 \<times> u8" where
  "xchg_8 lock x = (lock, x)"

definition spinInit :: "u8 \<Rightarrow> u8" where
  "spinInit lock = SPINLOCK_INITIALIZER"

definition spinLock :: "u8 \<Rightarrow> u8 option" where
  "spinLock lock = (case xchg_8 lock BUSY of (old, lock') \<Rightarrow> if old = 0 then Some lock' else None)"

definition spinUnlock :: "u8 \<Rightarrow> u8" where
  "spinUnlock lock = 0"

definition spinTrylock :: "u8 \<Rightarrow> u8 \<times> u8" where
  "spinTrylock lock = xchg_8 lock BUSY"

section \<open>Several CPUs\<close>

datatype spin_pc = Outside | Exchange | Backoff u32 | Holding

record spin_sys =
  lock_byte :: u8
  pcs :: "nat \<Rightarrow> spin_pc"

definition next_wait :: "u32 \<Rightarrow> u32" where
  "next_wait wait = (if wait \<le> MAX_BACKOFF then wait * 2 else wait)"

inductive spin_step :: "spin_sys \<Rightarrow> spin_sys \<Rightarrow> bool" where
  enter: "pcs s i = Outside \<Longrightarrow> spin_step s (s\<lparr>pcs := (pcs s)(i := Exchange)\<rparr>)"
| exchange: "pcs s i = Exchange \<Longrightarrow> xchg_8 (lock_byte s) BUSY = (old, new) \<Longrightarrow>
     spin_step s (s\<lparr>pcs := (pcs s)(i := (if old = 0 then Holding else Backoff INIT_BACKOFF))\<rparr>
       \<lparr>lock_byte := new\<rparr>)"
| relax: "pcs s i = Backoff w \<Longrightarrow> lock_byte s \<noteq> 0 \<Longrightarrow>
     spin_step s (s\<lparr>pcs := (pcs s)(i := Backoff (next_wait w))\<rparr>)"
| retry: "pcs s i = Backoff w \<Longrightarrow> lock_byte s = 0 \<Longrightarrow>
     spin_step s (s\<lparr>pcs := (pcs s)(i := Exchange)\<rparr>)"
| unlock: "pcs s i = Holding \<Longrightarrow>
     spin_step s (s\<lparr>pcs := (pcs s)(i := Outside)\<rparr>\<lparr>lock_byte := spinUnlock (lock_byte s)\<rparr>)"

definition spin_init :: spin_sys where
  "spin_init = \<lparr>lock_byte = spinInit 0, pcs = (\<lambda>_. Outside)\<rparr>"

inductive spin_reachable :: "spin_sys \<Rightarrow> bool" where
  start: "spin_reachable spin_init"
| step: "spin_reachable s \<Longrightarrow> spin_step s t \<Longrightarrow> spin_reachable t"

definition holders :: "spin_sys \<Rightarrow> nat set" where
  "holders s = {i. pcs s i = Holding}"

definition waits_ok :: "spin_sys \<Rightarrow> bool" where
  "waits_ok s \<longleftrightarrow> (\<forall>i w. pcs s i = Backoff w \<longrightarrow> 2000 \<le> w \<and> w \<le> 512000)"

definition spin_inv :: "spin_sys \<Rightarrow> bool" where
  "spin_inv s \<longleftrightarrow> waits_ok s \<and>
     (lock_byte s = 0 \<and> holders s = {} \<or> lock_byte s = 1 \<and> (\<exists>i. holders s = {i}))"

lemma holders_upd [simp]:
  "holders (s\<lparr>pcs := (pcs s)(i := c)\<rparr>) = (if c = Holding then insert i (holders s) else holders s - {i})"
  "holders (s\<lparr>lock_byte := b\<rparr>) = holders s"
  by (auto simp: holders_def split: if_splits)

lemma waits_ok_upd [simp]:
  "waits_ok s \<Longrightarrow> \<forall>w. c = Backoff w \<longrightarrow> 2000 \<le> w \<and> w \<le> 512000 \<Longrightarrow>
   waits_ok (s\<lparr>pcs := (pcs s)(i := c)\<rparr>)"
  "waits_ok (s\<lparr>lock_byte := b\<rparr>) = waits_ok s"
  by (auto simp: waits_ok_def)

lemma next_wait_bounds: "2000 \<le> w \<Longrightarrow> w \<le> 512000 \<Longrightarrow> 2000 \<le> next_wait w \<and> next_wait w \<le> 512000"
  for w :: u32
proof (cases "w \<le> 256000")
  case True
  assume lo: "2000 \<le> w"
  from True have n: "unat w \<le> 256000" by (simp add: word_le_nat_alt)
  then have "unat (w * 2) = unat w * 2" by (simp add: unat_mult_lem [THEN iffD1])
  with True lo n show ?thesis
    by (simp add: next_wait_def MAX_BACKOFF_def word_le_nat_alt)
qed (simp add: next_wait_def MAX_BACKOFF_def)

lemma spin_inv_init: "spin_inv spin_init"
  by (simp add: spin_inv_def spin_init_def spinInit_def waits_ok_def holders_def)

lemma not_holder: "pcs s i \<noteq> Holding \<Longrightarrow> holders s - {i} = holders s"
  by (auto simp: holders_def)

lemma is_holder: "pcs s i = Holding \<Longrightarrow> spin_inv s \<Longrightarrow> holders s = {i}"
  unfolding spin_inv_def by (metis empty_iff holders_def mem_Collect_eq singletonD)

lemma spin_step_inv:
  "spin_step s t \<Longrightarrow> spin_inv s \<Longrightarrow> spin_inv t"
proof (induction rule: spin_step.induct)
  case (enter s i)
  then show ?case by (simp add: spin_inv_def not_holder)
next
  case (exchange s i old new)
  then show ?case
    by (cases "lock_byte s = 0") (simp_all add: spin_inv_def not_holder xchg_8_def INIT_BACKOFF_def)
next
  case (relax s i w)
  then have "2000 \<le> w \<and> w \<le> 512000"
    by (simp add: spin_inv_def waits_ok_def)
  with relax show ?case using next_wait_bounds [of w] by (simp add: spin_inv_def not_holder)
next
  case (retry s i w)
  then show ?case by (simp add: spin_inv_def not_holder)
next
  case (unlock s i)
  then have "holders s = {i}" by (simp add: is_holder)
  with unlock show ?case by (simp add: spin_inv_def spinUnlock_def)
qed

lemma spin_reachable_inv: "spin_reachable s \<Longrightarrow> spin_inv s"
  by (induction rule: spin_reachable.induct) (auto intro: spin_inv_init spin_step_inv)

lemma spinLock_ok: "spinLock lock = (if lock = 0 then Some BUSY else None)"
  by (simp add: spinLock_def xchg_8_def)

inductive_cases spin_stepE: "spin_step s t"

text \<open>
  A waiting CPU whose lock byte is free needs two of its own steps to get the lock.
\<close>

lemma waiter_acquires:
  assumes "pcs s i = Backoff w" "lock_byte s = 0"
  shows "\<exists>t. (spin_step OO spin_step) s t \<and> pcs t i = Holding"
proof -
  let ?t = "s\<lparr>pcs := (pcs s)(i := Exchange)\<rparr>"
  let ?u = "?t\<lparr>pcs := (pcs ?t)(i := (if lock_byte s = 0 then Holding else Backoff INIT_BACKOFF))\<rparr>\<lparr>lock_byte := BUSY\<rparr>"
  have "spin_step s ?t" using assms by (rule spin_step.retry)
  moreover have "spin_step ?t ?u"
    by (rule spin_step.exchange) (simp_all add: xchg_8_def)
  moreover have "pcs ?u i = Holding" using assms by simp
  ultimately show ?thesis by blast
qed

text \<open>
  C10: in every state any number of CPUs can reach by taking and releasing a
  lock, at most one CPU is between \<^verbatim>\<open>spinLock\<close> and \<^verbatim>\<open>spinUnlock\<close>, the lock byte is 1 exactly
  when there is one, and a CPU that backs off waits between 2000 and 512000 turns: the doubling
  stops before \<^verbatim>\<open>wait\<close> could wrap around.
\<close>
theorem spinlock_mutex:
  assumes "spin_reachable s"
  shows "(\<forall>i j. pcs s i = Holding \<longrightarrow> pcs s j = Holding \<longrightarrow> i = j) \<and>
     lock_byte s = (if \<exists>i. pcs s i = Holding then BUSY else 0) \<and>
     (\<forall>i w. pcs s i = Backoff w \<longrightarrow> 2000 \<le> w \<and> w \<le> 512000)"
proof -
  have inv: "spin_inv s" using assms by (rule spin_reachable_inv)
  then have "\<forall>i. pcs s i = Holding \<longrightarrow> holders s = {i}" by (simp add: is_holder)
  then have "\<forall>i j. pcs s i = Holding \<longrightarrow> pcs s j = Holding \<longrightarrow> i = j"
    by (metis the_elem_eq)
  moreover have "(\<exists>i. pcs s i = Holding) \<longleftrightarrow> holders s \<noteq> {}" by (auto simp: holders_def)
  ultimately show ?thesis using inv by (auto simp: spin_inv_def waits_ok_def)
qed

theorem spinlock_mutex_witness:
  "\<exists>s. spin_reachable s \<and> pcs s 0 = Holding \<and> lock_byte s = BUSY \<and> pcs s 1 \<noteq> Holding"
proof -
  let ?s = "spin_init\<lparr>pcs := (pcs spin_init)(0 := Exchange)\<rparr>"
  let ?t = "?s\<lparr>pcs := (pcs ?s)(0 := (if (0 :: u8) = 0 then Holding else Backoff INIT_BACKOFF))\<rparr>\<lparr>lock_byte := BUSY\<rparr>"
  have "spin_reachable ?s"
    by (rule spin_reachable.step [OF spin_reachable.start], rule spin_step.enter) (simp add: spin_init_def)
  then have "spin_reachable ?t"
    by (rule spin_reachable.step, intro spin_step.exchange)
      (simp_all add: spin_init_def xchg_8_def spinInit_def)
  moreover have "pcs ?t 0 = Holding" by simp
  ultimately obtain t where t: "spin_reachable t" "pcs t 0 = Holding" by blast
  from spinlock_mutex [OF t(1)] t show ?thesis by (metis zero_neq_one)
qed

end
