(* ===== verification/Input.thy ===== *)
theory Input
  imports Spinlock Fifo "HOL-Library.Signed_Division"
begin

text \<open>
  The input queue: \<^verbatim>\<open>device/input/iqueue.c\<close> and \<^verbatim>\<open>device/input/input.c\<close>. The ring buffer of 32
  bytes is a record with the lock byte, the buffer and the two \<^verbatim>\<open>int\<close> positions; an index outside
  the buffer is the value \<open>None\<close>. The blocking loops halt the CPU with the lock released; what the
  interrupt handlers do to the queue during the successive halts is the list argument \<open>env\<close>, one
  function per halt, and a call whose list is used up is still halted, the value \<open>None\<close>.
  The queue is an instance of the contract \<open>fifo\<close>, and the last section is the interleaving of a
  reader with the interrupt handler that writes, one memory access per step.
\<close>

section \<open>The ring buffer\<close>

record iqueue_t =
  lock :: u8
  buf :: "u8 list"
  head :: int
  tail :: int

definition IQUEUE_BUFSIZE :: int where "IQUEUE_BUFSIZE = 32"

definition buf_get :: "u8 list \<Rightarrow> int \<Rightarrow> u8 option" where
  "buf_get b i = (if 0 \<le> i \<and> i < int (length b) then Some (b ! nat i) else None)"

definition buf_set :: "u8 list \<Rightarrow> int \<Rightarrow> u8 \<Rightarrow> u8 list option" where
  "buf_set b i c = (if 0 \<le> i \<and> i < int (length b) then Some (b[nat i := c]) else None)"

definition next_pos :: "int \<Rightarrow> int" where
  "next_pos pos = (pos + 1) smod IQUEUE_BUFSIZE"

definition initIQueue :: "iqueue_t \<Rightarrow> iqueue_t" where
  "initIQueue q = q\<lparr>lock := spinInit (lock q), head := 0, tail := 0\<rparr>"

definition iqueueLock :: "iqueue_t \<Rightarrow> iqueue_t option" where
  "iqueueLock q = do { l \<leftarrow> spinLock (lock q); Some (q\<lparr>lock := l\<rparr>) }"

definition iqueueUnlock :: "iqueue_t \<Rightarrow> iqueue_t" where
  "iqueueUnlock q = q\<lparr>lock := spinUnlock (lock q)\<rparr>"

definition iqueueEmpty :: "iqueue_t \<Rightarrow> bool" where
  "iqueueEmpty q \<longleftrightarrow> head q = tail q"

definition iqueueFull :: "iqueue_t \<Rightarrow> bool" where
  "iqueueFull q \<longleftrightarrow> next_pos (head q) = tail q"

fun iqueueGetc :: "(iqueue_t \<Rightarrow> iqueue_t) list \<Rightarrow> iqueue_t \<Rightarrow> (u8 \<times> iqueue_t) option" where
  "iqueueGetc env q =
     (if iqueueEmpty q then
        (case env of
           [] \<Rightarrow> None
         | irq # env \<Rightarrow> do { q \<leftarrow> iqueueLock (irq (iqueueUnlock q)); iqueueGetc env q })
      else do {
        c \<leftarrow> buf_get (buf q) (tail q);
        Some (c, q\<lparr>tail := next_pos (tail q)\<rparr>) })"

fun iqueuePutc :: "(iqueue_t \<Rightarrow> iqueue_t) list \<Rightarrow> iqueue_t \<Rightarrow> u8 \<Rightarrow> iqueue_t option" where
  "iqueuePutc env q c =
     (if iqueueFull q then
        (case env of
           [] \<Rightarrow> None
         | irq # env \<Rightarrow> do { q \<leftarrow> iqueueLock (irq (iqueueUnlock q)); iqueuePutc env q c })
      else do {
        b \<leftarrow> buf_set (buf q) (head q) c;
        Some (q\<lparr>buf := b, head := next_pos (head q)\<rparr>) })"

declare iqueueGetc.simps [simp del] iqueuePutc.simps [simp del]

section \<open>The global input buffer\<close>

definition initInputQueue :: "iqueue_t \<Rightarrow> iqueue_t" where
  "initInputQueue buffer = initIQueue buffer"

definition inputPutc :: "iqueue_t \<Rightarrow> u8 \<Rightarrow> iqueue_t option" where
  "inputPutc buffer c = iqueuePutc [] buffer c"

definition inputFull :: "iqueue_t \<Rightarrow> bool" where
  "inputFull buffer = iqueueFull buffer"

definition inputLock :: "iqueue_t \<Rightarrow> iqueue_t option" where
  "inputLock buffer = iqueueLock buffer"

definition inputUnlock :: "iqueue_t \<Rightarrow> iqueue_t" where
  "inputUnlock buffer = iqueueUnlock buffer"

definition inputGetc :: "(iqueue_t \<Rightarrow> iqueue_t) list \<Rightarrow> iqueue_t \<Rightarrow> (u8 \<times> iqueue_t) option" where
  "inputGetc env buffer = do {
     buffer \<leftarrow> inputLock buffer;
     (c, buffer) \<leftarrow> iqueueGetc env buffer;
     Some (c, inputUnlock buffer) }"

section \<open>The representation invariant\<close>

definition iq_wf :: "iqueue_t \<Rightarrow> bool" where
  "iq_wf q \<longleftrightarrow> length (buf q) = 32 \<and> 0 \<le> head q \<and> head q < 32 \<and> 0 \<le> tail q \<and> tail q < 32"

definition slot :: "iqueue_t \<Rightarrow> nat \<Rightarrow> u8" where
  "slot q i = buf q ! ((nat (tail q) + i) mod 32)"

definition iq_len :: "iqueue_t \<Rightarrow> nat" where
  "iq_len q = nat ((head q - tail q) mod 32)"

definition contents :: "iqueue_t \<Rightarrow> u8 list" where
  "contents q = map (slot q) [0..<iq_len q]"

definition iq_rep :: "iqueue_t \<Rightarrow> u8 list \<Rightarrow> bool" where
  "iq_rep q xs \<longleftrightarrow> iq_wf q \<and> contents q = xs"

lemma next_pos_eq: "0 \<le> p \<Longrightarrow> next_pos p = (p + 1) mod 32"
  by (simp add: next_pos_def IQUEUE_BUFSIZE_def smod_int_alt_def)

lemma next_pos_range: "0 \<le> p \<Longrightarrow> 0 \<le> next_pos p \<and> next_pos p < 32"
  by (simp add: next_pos_eq)

lemma iq_len_bound: "iq_len q < 32"
  by (simp add: iq_len_def nat_less_iff)

lemma next_pos_cases: "0 \<le> p \<Longrightarrow> p < 32 \<Longrightarrow> next_pos p = (if p = 31 then 0 else p + 1)"
  by (simp add: next_pos_eq)

lemma mod32_diff: "0 \<le> h \<Longrightarrow> h < 32 \<Longrightarrow> 0 \<le> t \<Longrightarrow> t < 32 \<Longrightarrow>
    (h - t) mod 32 = (if t \<le> h then h - t else h - t + 32)" for h t :: int
  using mod_pos_pos_trivial [of "h - t + 32" 32] by (auto simp: mod_pos_pos_trivial)

lemma iq_len_cases:
  "iq_wf q \<Longrightarrow> int (iq_len q) = (if tail q \<le> head q then head q - tail q else head q - tail q + 32)"
  by (simp add: iq_wf_def iq_len_def mod32_diff)

lemma nat_mod32: "n < 64 \<Longrightarrow> n mod 32 = (if n < 32 then n else n - 32)" for n :: nat
  by (simp add: mod_if)

lemma iqueueEmpty_iff: "iq_wf q \<Longrightarrow> iqueueEmpty q \<longleftrightarrow> contents q = []"
  using iq_len_cases [of q] by (auto simp: iqueueEmpty_def iq_wf_def contents_def split: if_splits)

lemma iqueueFull_iff: "iq_wf q \<Longrightarrow> iqueueFull q \<longleftrightarrow> length (contents q) = 31"
  using iq_len_cases [of q]
  by (auto simp: iqueueFull_def iq_wf_def contents_def next_pos_cases split: if_splits)

lemma iq_len_put:
  assumes "iq_wf q" "iq_len q \<noteq> 31"
  shows "nat ((next_pos (head q) - tail q) mod 32) = Suc (iq_len q)"
  using assms iq_len_cases [of q]
  by (auto simp: iq_wf_def next_pos_cases mod32_diff split: if_splits)

lemma iq_len_get:
  assumes "iq_wf q" "iq_len q \<noteq> 0"
  shows "nat ((head q - next_pos (tail q)) mod 32) = iq_len q - 1"
  using assms iq_len_cases [of q]
  by (auto simp: iq_wf_def next_pos_cases mod32_diff split: if_splits)

lemma head_slot: "iq_wf q \<Longrightarrow> (nat (tail q) + iq_len q) mod 32 = nat (head q)"
  using iq_len_cases [of q] iq_len_bound [of q]
  by (auto simp: iq_wf_def nat_mod32 split: if_splits)

lemma other_slot: "iq_wf q \<Longrightarrow> i < iq_len q \<Longrightarrow> (nat (tail q) + i) mod 32 \<noteq> nat (head q)"
  using iq_len_cases [of q] iq_len_bound [of q]
  by (auto simp: iq_wf_def nat_mod32 split: if_splits)

lemma next_slot: "iq_wf q \<Longrightarrow> (nat (next_pos (tail q)) + i) mod 32 = (nat (tail q) + Suc i) mod 32"
  unfolding iq_wf_def by (simp add: next_pos_eq nat_mod_distrib nat_add_distrib mod_simps)

lemma put_contents:
  assumes "iq_wf q" "\<not> iqueueFull q"
  shows "contents (q\<lparr>buf := (buf q)[nat (head q) := c], head := next_pos (head q)\<rparr>) = contents q @ [c]"
proof -
  let ?q = "q\<lparr>buf := (buf q)[nat (head q) := c], head := next_pos (head q)\<rparr>"
  have n: "iq_len q \<noteq> 31"
    using assms by (simp add: iqueueFull_iff contents_def)
  then have len: "iq_len ?q = Suc (iq_len q)"
    using iq_len_put [OF assms(1)] by (simp add: iq_len_def)
  have "slot ?q i = slot q i" if "i < iq_len q" for i
    using other_slot [OF assms(1) that] by (simp add: slot_def)
  moreover have "slot ?q (iq_len q) = c"
    using assms(1) head_slot [OF assms(1)] by (simp add: slot_def iq_wf_def)
  ultimately show ?thesis by (simp add: contents_def len)
qed

lemma get_contents:
  assumes "iq_wf q" "\<not> iqueueEmpty q"
  shows "contents q = buf q ! nat (tail q) # contents (q\<lparr>tail := next_pos (tail q)\<rparr>)"
proof -
  let ?q = "q\<lparr>tail := next_pos (tail q)\<rparr>"
  have n: "iq_len q \<noteq> 0"
    using assms by (simp add: iqueueEmpty_iff contents_def)
  have len: "iq_len q = Suc (iq_len ?q)"
    using iq_len_get [OF assms(1) n] n by (simp add: iq_len_def)
  have "slot ?q = slot q \<circ> Suc"
    using next_slot [OF assms(1)] by (simp add: slot_def fun_eq_iff)
  moreover have "slot q 0 = buf q ! nat (tail q)"
    using assms(1) by (simp add: slot_def iq_wf_def nat_less_iff)
  ultimately show ?thesis
    unfolding contents_def len by (simp add: upt_conv_Cons map_Suc_upt [symmetric] del: upt_Suc)
qed

lemma iq_wf_upd:
  assumes "iq_wf q"
  shows "iq_wf (q\<lparr>tail := next_pos (tail q)\<rparr>)"
    and "length b = 32 \<Longrightarrow> iq_wf (q\<lparr>buf := b, head := next_pos (head q)\<rparr>)"
  using assms next_pos_range by (auto simp: iq_wf_def)

lemma iqueuePutc_ok:
  assumes "iq_rep q xs" "length xs < 31"
  shows "\<exists>q'. iqueuePutc env q c = Some q' \<and> iq_rep q' (xs @ [c]) \<and> lock q' = lock q"
  using assms put_contents [of q c] iq_wf_upd(2) [of q "(buf q)[nat (head q) := c]"]
  by (auto simp: iqueuePutc.simps iq_rep_def iqueueFull_iff buf_set_def) (auto simp: iq_wf_def)

lemma iqueueGetc_ok:
  assumes "iq_rep q (x # xs)"
  shows "\<exists>q'. iqueueGetc env q = Some (x, q') \<and> iq_rep q' xs \<and> lock q' = lock q"
  using assms get_contents [of q] iq_wf_upd(1) [of q]
  by (auto simp: iqueueGetc.simps iq_rep_def iqueueEmpty_iff buf_get_def) (auto simp: iq_wf_def)

interpretation iq: fifo iq_rep "\<lambda>q xs c. length xs < 31" "iqueuePutc env" "iqueueGetc env" for env
  using iqueuePutc_ok iqueueGetc_ok by unfold_locales blast+

lemma initIQueue_ok: "length (buf q) = 32 \<Longrightarrow> iq_rep (initIQueue q) []"
  by (simp add: iq_rep_def iq_wf_def initIQueue_def contents_def iq_len_def)

lemma iqueueGetc_waits:
  assumes "iqueueEmpty q" "lock (irq (iqueueUnlock q)) = 0"
  shows "iqueueGetc (irq # env) q = iqueueGetc env (irq (iqueueUnlock q)\<lparr>lock := BUSY\<rparr>)"
  using assms by (simp add: iqueueGetc.simps [of "irq # env"] iqueueLock_def spinLock_ok)

lemma idle_halts:
  assumes "iqueueEmpty q" "lock q = BUSY"
  shows "iqueueGetc (replicate n id @ env) q = iqueueGetc env q"
  using assms
proof (induction n)
  case (Suc n)
  have same: "q\<lparr>lock := BUSY\<rparr> = q" using Suc.prems by (cases q) simp
  have "iqueueGetc (replicate (Suc n) id @ env) q =
      iqueueGetc (replicate n id @ env) (q\<lparr>lock := BUSY\<rparr>)"
    using Suc.prems by (simp add: iqueueGetc_waits iqueueUnlock_def spinUnlock_def)
  also have "\<dots> = iqueueGetc env q"
    unfolding same using Suc by blast
  finally show ?case .
qed simp

lemma iq_rep_lock [simp]: "iq_rep (q\<lparr>lock := l\<rparr>) xs = iq_rep q xs"
  by (simp add: iq_rep_def iq_wf_def contents_def iq_len_def slot_def [abs_def])

section \<open>A reader and the interrupt handler, interleaved\<close>

text \<open>
  The handler brings a byte: \<^verbatim>\<open>inputFull\<close> loads \<^verbatim>\<open>head\<close> (\<open>WFull\<close>) and then \<^verbatim>\<open>tail\<close>; the byte is
  discarded when the queue is full and otherwise given to \<^verbatim>\<open>iqueuePutc\<close> (\<open>WCall\<close>), which tests again
  (\<open>WTest\<close>, and \<open>WHalt\<close> when the queue is full), loads \<^verbatim>\<open>head\<close> for the slot (\<open>WSlot\<close>), stores the byte
  (\<open>WStored\<close>), loads \<^verbatim>\<open>head\<close> (\<open>WNext\<close>) and stores its successor. The reader, which holds the lock, does the
  same at the other end: it loads \<^verbatim>\<open>head\<close> (\<open>RTest\<close>) and \<^verbatim>\<open>tail\<close>, halts and tests again when they agree,
  and otherwise takes the byte (\<open>RSlot\<close>, \<open>RTaken\<close>) and advances \<^verbatim>\<open>tail\<close> (\<open>RNext\<close>). \<open>sent\<close> are the bytes
  stored, \<open>dropped\<close> the ones discarded and \<open>got\<close> the ones read.
\<close>

datatype writer_pc = WIdle | WFull u8 int | WCall u8 | WTest u8 int | WHalt u8 | WReady u8 | WSlot u8 int | WStored u8 | WNext u8 int
datatype reader_pc = RIdle | RTest int | RReady | RSlot int | RTaken u8 | RNext u8 int

record ring_sys =
  ring :: iqueue_t
  wpc :: writer_pc
  rpc :: reader_pc
  sent :: "u8 list"
  dropped :: "u8 list"
  got :: "u8 list"

inductive ring_step :: "ring_sys \<Rightarrow> ring_sys \<Rightarrow> bool" where
  w_arrive: "wpc s = WIdle \<Longrightarrow> ring_step s (s\<lparr>wpc := WFull c (head (ring s))\<rparr>)"
| w_discard: "\<lbrakk>wpc s = WFull c h; next_pos h = tail (ring s)\<rbrakk> \<Longrightarrow>
     ring_step s (s\<lparr>wpc := WIdle, dropped := dropped s @ [c]\<rparr>)"
| w_call: "\<lbrakk>wpc s = WFull c h; next_pos h \<noteq> tail (ring s)\<rbrakk> \<Longrightarrow> ring_step s (s\<lparr>wpc := WCall c\<rparr>)"
| w_test: "wpc s = WCall c \<Longrightarrow> ring_step s (s\<lparr>wpc := WTest c (head (ring s))\<rparr>)"
| w_halt: "\<lbrakk>wpc s = WTest c h; next_pos h = tail (ring s)\<rbrakk> \<Longrightarrow> ring_step s (s\<lparr>wpc := WHalt c\<rparr>)"
| w_wake: "wpc s = WHalt c \<Longrightarrow> ring_step s (s\<lparr>wpc := WCall c\<rparr>)"
| w_ready: "\<lbrakk>wpc s = WTest c h; next_pos h \<noteq> tail (ring s)\<rbrakk> \<Longrightarrow> ring_step s (s\<lparr>wpc := WReady c\<rparr>)"
| w_slot: "wpc s = WReady c \<Longrightarrow> ring_step s (s\<lparr>wpc := WSlot c (head (ring s))\<rparr>)"
| w_store: "\<lbrakk>wpc s = WSlot c h; buf_set (buf (ring s)) h c = Some b\<rbrakk> \<Longrightarrow>
     ring_step s (s\<lparr>ring := ring s\<lparr>buf := b\<rparr>, wpc := WStored c\<rparr>)"
| w_next: "wpc s = WStored c \<Longrightarrow> ring_step s (s\<lparr>wpc := WNext c (head (ring s))\<rparr>)"
| w_advance: "wpc s = WNext c h \<Longrightarrow>
     ring_step s (s\<lparr>ring := ring s\<lparr>head := next_pos h\<rparr>, wpc := WIdle, sent := sent s @ [c]\<rparr>)"
| r_test: "rpc s = RIdle \<Longrightarrow> ring_step s (s\<lparr>rpc := RTest (head (ring s))\<rparr>)"
| r_halt: "\<lbrakk>rpc s = RTest h; h = tail (ring s)\<rbrakk> \<Longrightarrow> ring_step s (s\<lparr>rpc := RIdle\<rparr>)"
| r_ready: "\<lbrakk>rpc s = RTest h; h \<noteq> tail (ring s)\<rbrakk> \<Longrightarrow> ring_step s (s\<lparr>rpc := RReady\<rparr>)"
| r_slot: "rpc s = RReady \<Longrightarrow> ring_step s (s\<lparr>rpc := RSlot (tail (ring s))\<rparr>)"
| r_read: "\<lbrakk>rpc s = RSlot t; buf_get (buf (ring s)) t = Some c\<rbrakk> \<Longrightarrow> ring_step s (s\<lparr>rpc := RTaken c\<rparr>)"
| r_next: "rpc s = RTaken c \<Longrightarrow> ring_step s (s\<lparr>rpc := RNext c (tail (ring s))\<rparr>)"
| r_advance: "rpc s = RNext c t \<Longrightarrow>
     ring_step s (s\<lparr>ring := ring s\<lparr>tail := next_pos t\<rparr>, rpc := RIdle, got := got s @ [c]\<rparr>)"

inductive_cases ring_stepE: "ring_step s t"

definition ring_init :: ring_sys where
  "ring_init = \<lparr>ring = initIQueue \<lparr>lock = 0, buf = replicate 32 0, head = 0, tail = 0\<rparr>,
     wpc = WIdle, rpc = RIdle, sent = [], dropped = [], got = []\<rparr>"

inductive ring_reachable :: "ring_sys \<Rightarrow> bool" where
  start: "ring_reachable ring_init"
| step: "ring_reachable s \<Longrightarrow> ring_step s t \<Longrightarrow> ring_reachable t"

fun writer_ok :: "iqueue_t \<Rightarrow> writer_pc \<Rightarrow> bool" where
  "writer_ok q WIdle = True"
| "writer_ok q (WFull c h) = (h = head q)"
| "writer_ok q (WCall c) = (\<not> iqueueFull q)"
| "writer_ok q (WTest c h) = (\<not> iqueueFull q \<and> h = head q)"
| "writer_ok q (WHalt c) = False"
| "writer_ok q (WReady c) = (\<not> iqueueFull q)"
| "writer_ok q (WSlot c h) = (\<not> iqueueFull q \<and> h = head q)"
| "writer_ok q (WStored c) = (\<not> iqueueFull q \<and> buf q ! nat (head q) = c)"
| "writer_ok q (WNext c h) = (\<not> iqueueFull q \<and> buf q ! nat (head q) = c \<and> h = head q)"

fun reader_ok :: "iqueue_t \<Rightarrow> reader_pc \<Rightarrow> bool" where
  "reader_ok q RIdle = True"
| "reader_ok q (RTest h) = (h \<noteq> tail q \<longrightarrow> \<not> iqueueEmpty q)"
| "reader_ok q RReady = (\<not> iqueueEmpty q)"
| "reader_ok q (RSlot t) = (\<not> iqueueEmpty q \<and> t = tail q)"
| "reader_ok q (RTaken c) = (\<not> iqueueEmpty q \<and> buf q ! nat (tail q) = c)"
| "reader_ok q (RNext c t) = (\<not> iqueueEmpty q \<and> buf q ! nat (tail q) = c \<and> t = tail q)"

definition ring_inv :: "ring_sys \<Rightarrow> bool" where
  "ring_inv s \<longleftrightarrow> iq_wf (ring s) \<and> got s @ contents (ring s) = sent s \<and>
     writer_ok (ring s) (wpc s) \<and> reader_ok (ring s) (rpc s)"

lemma store_contents:
  assumes "iq_wf q"
  shows "contents (q\<lparr>buf := (buf q)[nat (head q) := c]\<rparr>) = contents q"
proof -
  let ?q = "q\<lparr>buf := (buf q)[nat (head q) := c]\<rparr>"
  have "iq_len ?q = iq_len q" by (simp add: iq_len_def)
  moreover have "slot ?q i = slot q i" if "i < iq_len q" for i
    using other_slot [OF assms that] by (simp add: slot_def)
  ultimately show ?thesis by (simp add: contents_def)
qed

lemma advance_contents:
  assumes "iq_wf q" "\<not> iqueueFull q"
  shows "contents (q\<lparr>head := next_pos (head q)\<rparr>) = contents q @ [buf q ! nat (head q)]"
  using put_contents [OF assms, of "buf q ! nat (head q)"] by simp

lemma iq_wf_field:
  "iq_wf q \<Longrightarrow> iq_wf (q\<lparr>head := next_pos (head q)\<rparr>)"
  "iq_wf q \<Longrightarrow> length b = 32 \<Longrightarrow> iq_wf (q\<lparr>buf := b\<rparr>)"
  using next_pos_range by (auto simp: iq_wf_def)

lemma full_frame:
  assumes wf: "iq_wf q"
  shows "\<not> iqueueEmpty q \<Longrightarrow> \<not> iqueueFull (q\<lparr>tail := next_pos (tail q)\<rparr>)"
    and "\<not> iqueueFull q \<Longrightarrow> \<not> iqueueEmpty (q\<lparr>head := next_pos (head q)\<rparr>)"
    and "\<not> iqueueEmpty q \<Longrightarrow> nat (head q) \<noteq> nat (tail q)"
proof -
  have "length (contents q) < 32"
    by (simp add: contents_def iq_len_bound)
  then show "\<not> iqueueEmpty q \<Longrightarrow> \<not> iqueueFull (q\<lparr>tail := next_pos (tail q)\<rparr>)"
    using get_contents [OF wf] iqueueFull_iff [OF iq_wf_upd(1) [OF wf]] by auto
  show "\<not> iqueueFull q \<Longrightarrow> \<not> iqueueEmpty (q\<lparr>head := next_pos (head q)\<rparr>)"
    by (simp add: iqueueEmpty_iff iq_wf_field(1) wf advance_contents)
  show "\<not> iqueueEmpty q \<Longrightarrow> nat (head q) \<noteq> nat (tail q)"
    using wf by (auto simp: iqueueEmpty_def iq_wf_def)
qed

text \<open>What a change of one field by one side keeps of the other side's assertion.\<close>

lemma reader_stable:
  assumes "iq_wf q" "\<not> iqueueFull q" "reader_ok q r"
  shows "reader_ok (q\<lparr>buf := (buf q)[nat (head q) := c]\<rparr>) r" and "reader_ok (q\<lparr>head := next_pos (head q)\<rparr>) r"
  using assms full_frame(3) [OF assms(1)] full_frame(2) [OF assms(1,2)]
  by (cases r; simp add: iqueueEmpty_def)+

lemma writer_stable:
  assumes "iq_wf q" "\<not> iqueueEmpty q" "writer_ok q w"
  shows "writer_ok (q\<lparr>tail := next_pos (tail q)\<rparr>) w"
  using assms full_frame(1) [OF assms(1,2)] by (cases w) simp_all

lemma ring_step_inv: "ring_step s t \<Longrightarrow> ring_inv s \<Longrightarrow> ring_inv t"
proof (induction rule: ring_step.induct)
  case (w_store s c h b)
  let ?q = "ring s"
  from w_store have wf: "iq_wf ?q" and nf: "\<not> iqueueFull ?q" and b: "b = (buf ?q)[nat (head ?q) := c]"
    by (auto simp: ring_inv_def buf_set_def split: if_splits)
  have "length b = 32" "b ! nat (head ?q) = c" using wf by (auto simp: b iq_wf_def)
  moreover have "\<not> iqueueFull (?q\<lparr>buf := b\<rparr>)" using nf by (simp add: iqueueFull_def)
  ultimately show ?case
    using w_store wf store_contents [OF wf, of c] reader_stable(1) [OF wf nf, of "rpc s" c]
    by (simp add: ring_inv_def b iq_wf_field)
next
  case (w_advance s c h)
  then show ?case using reader_stable(2) [of "ring s" "rpc s"]
    by (auto simp: ring_inv_def advance_contents iq_wf_field)
next
  case (r_advance s c t)
  then have wf: "iq_wf (ring s)" and ne: "\<not> iqueueEmpty (ring s)" and c: "buf (ring s) ! nat (tail (ring s)) = c"
    by (auto simp: ring_inv_def)
  with r_advance show ?case
    using writer_stable [OF wf ne] get_contents [OF wf ne] by (simp add: ring_inv_def iq_wf_upd(1))
next
  case (r_read s t c)
  then show ?case by (auto simp: ring_inv_def buf_get_def split: if_splits)
qed (simp_all add: ring_inv_def iqueueFull_def iqueueEmpty_def)

lemma ring_reachable_inv: "ring_reachable s \<Longrightarrow> ring_inv s"
proof (induction rule: ring_reachable.induct)
  case start
  have "iq_rep (ring ring_init) []" by (simp add: ring_init_def initIQueue_ok)
  then show ?case by (simp add: ring_inv_def ring_init_def iq_rep_def)
next
  case (step s t)
  then show ?case by (blast intro: ring_step_inv)
qed

lemma discard_only_full:
  assumes "ring_inv s" "ring_step s t" "dropped t \<noteq> dropped s"
  shows "length (contents (ring s)) = 31"
  using assms(2,3,1) by (elim ring_stepE) (auto simp: ring_inv_def iqueueFull_iff [symmetric] iqueueFull_def)

text \<open>
  Uninterrupted, the steps of the handler are \<open>inputPutc\<close> and the ones of the reader \<open>iqueueGetc\<close>.
\<close>

lemma reach_steps: "ring_step\<^sup>*\<^sup>* s t \<Longrightarrow> ring_reachable s \<Longrightarrow> ring_reachable t"
  by (induction rule: rtranclp_induct) (auto intro: ring_reachable.step)

lemma handler_run:
  assumes "wpc s = WIdle" "\<not> inputFull (ring s)" "inputPutc (ring s) c = Some q"
  shows "ring_step\<^sup>*\<^sup>* s (s\<lparr>ring := q, sent := sent s @ [c]\<rparr>)"
proof -
  from assms obtain b where b: "buf_set (buf (ring s)) (head (ring s)) c = Some b"
    and q: "q = ring s\<lparr>buf := b, head := next_pos (head (ring s))\<rparr>"
    by (auto simp: inputPutc_def inputFull_def iqueuePutc.simps split: bind_splits)
  let ?h = "head (ring s)"
  let ?t = "\<lambda>w. s\<lparr>wpc := w\<rparr>"
  let ?u = "\<lambda>w. s\<lparr>ring := ring s\<lparr>buf := b\<rparr>, wpc := w\<rparr>"
  have ne: "next_pos ?h \<noteq> tail (ring s)" using assms(2) by (simp add: inputFull_def iqueueFull_def)
  have "ring_step s (?t (WFull c ?h))" using assms(1) by (rule w_arrive)
  moreover have "ring_step (?t (WFull c ?h)) (?t (WCall c))" using w_call [of "?t (WFull c ?h)" c ?h] ne by simp
  moreover have "ring_step (?t (WCall c)) (?t (WTest c ?h))" using w_test [of "?t (WCall c)" c] by simp
  moreover have "ring_step (?t (WTest c ?h)) (?t (WReady c))" using w_ready [of "?t (WTest c ?h)" c ?h] ne by simp
  moreover have "ring_step (?t (WReady c)) (?t (WSlot c ?h))" using w_slot [of "?t (WReady c)" c] by simp
  moreover have "ring_step (?t (WSlot c ?h)) (?u (WStored c))" using w_store [of "?t (WSlot c ?h)" c ?h b] b by simp
  moreover have "ring_step (?u (WStored c)) (?u (WNext c ?h))" using w_next [of "?u (WStored c)" c] by simp
  moreover have "ring_step (?u (WNext c ?h)) (s\<lparr>ring := q, sent := sent s @ [c]\<rparr>)"
    using w_advance [of "?u (WNext c ?h)" c ?h] assms(1) by (cases s) (simp add: q)
  ultimately show ?thesis by (meson rtranclp.rtrancl_into_rtrancl rtranclp.rtrancl_refl)
qed

lemma reader_run:
  assumes "rpc s = RIdle" "\<not> iqueueEmpty (ring s)" "iqueueGetc [] (ring s) = Some (c, q)"
  shows "ring_step\<^sup>*\<^sup>* s (s\<lparr>ring := q, got := got s @ [c]\<rparr>)"
proof -
  from assms have b: "buf_get (buf (ring s)) (tail (ring s)) = Some c"
    and q: "q = ring s\<lparr>tail := next_pos (tail (ring s))\<rparr>"
    by (auto simp: iqueueGetc.simps split: bind_splits)
  let ?h = "head (ring s)" and ?i = "tail (ring s)"
  let ?t = "\<lambda>r. s\<lparr>rpc := r\<rparr>"
  have ne: "?h \<noteq> ?i" using assms(2) by (simp add: iqueueEmpty_def)
  have "ring_step s (?t (RTest ?h))" using assms(1) by (rule r_test)
  moreover have "ring_step (?t (RTest ?h)) (?t RReady)" using r_ready [of "?t (RTest ?h)" ?h] ne by simp
  moreover have "ring_step (?t RReady) (?t (RSlot ?i))" using r_slot [of "?t RReady"] by simp
  moreover have "ring_step (?t (RSlot ?i)) (?t (RTaken c))" using r_read [of "?t (RSlot ?i)" ?i c] b by simp
  moreover have "ring_step (?t (RTaken c)) (?t (RNext c ?i))" using r_next [of "?t (RTaken c)" c] by simp
  moreover have "ring_step (?t (RNext c ?i)) (s\<lparr>ring := q, got := got s @ [c]\<rparr>)"
    using r_advance [of "?t (RNext c ?i)" c ?i] assms(1) by (cases s) (simp add: q)
  ultimately show ?thesis by (meson rtranclp.rtrancl_into_rtrancl rtranclp.rtrancl_refl)
qed

section \<open>Properties\<close>

text \<open>
  C20: the ring buffer is a first-in first-out queue of up to 31 bytes. For
  every sequence of puts and gets that never puts into a full queue nor gets from an empty one, all
  calls return without halting, and the bytes returned, followed by the ones still in the buffer,
  are the initial ones followed by the ones put.
\<close>
theorem iqueue_is_fifo:
  assumes "iq_rep q xs" and "admits (\<lambda>q xs c. length xs < 31) (iqueuePutc []) (iqueueGetc []) q xs ops"
  shows "\<exists>outs q' ys. qrun (iqueuePutc []) (iqueueGetc []) q ops = Some (outs, q') \<and> iq_rep q' ys \<and>
     outs @ ys = xs @ puts ops"
  using assms by (rule iq.run_fifo)

definition empty_queue :: iqueue_t where
  "empty_queue = \<lparr>lock = 0, buf = replicate 32 0, head = 30, tail = 30\<rparr>"

lemma empty_queue_rep: "iq_rep empty_queue []"
  by (simp add: iq_rep_def iq_wf_def contents_def iq_len_def empty_queue_def)

theorem iqueue_is_fifo_witness:
  "\<exists>outs q' ys. qrun (iqueuePutc []) (iqueueGetc []) empty_queue [Put 65, Put 66, Put 67, Get] = Some (outs, q') \<and>
     iq_rep q' ys \<and> outs @ ys = [65, 66, 67]"
proof -
  obtain q1 where 1: "iqueuePutc [] empty_queue 65 = Some q1" "iq_rep q1 [65]"
    using iqueuePutc_ok [OF empty_queue_rep] by force
  obtain q2 where 2: "iqueuePutc [] q1 66 = Some q2" "iq_rep q2 [65, 66]"
    using iqueuePutc_ok [OF 1(2)] by force
  obtain q3 where 3: "iqueuePutc [] q2 67 = Some q3" "iq_rep q3 [65, 66, 67]"
    using iqueuePutc_ok [OF 2(2)] by force
  obtain q4 where 4: "iqueueGetc [] q3 = Some (65, q4)"
    using iqueueGetc_ok [OF 3(2)] by force
  have "admits (\<lambda>q xs c. length xs < 31) (iqueuePutc []) (iqueueGetc []) empty_queue []
      [Put 65, Put 66, Put 67, Get]"
    by (simp add: 1 2 3 4)
  from iqueue_is_fifo [OF empty_queue_rep this] show ?thesis by simp
qed

text \<open>
  C24: a reader that finds the queue empty sleeps, with the lock released,
  through every halt in which no byte arrives, returns the first byte an interrupt puts into the
  queue, and leaves the queue empty and unlocked.
\<close>
theorem inputGetc_blocks:
  assumes "iq_rep q []" and "lock q = 0" and "\<forall>q'. iq_rep q' [] \<and> lock q' = 0 \<longrightarrow> iq_rep (irq q') [c] \<and> lock (irq q') = 0"
  shows "\<exists>q'. inputGetc (replicate n id @ irq # env) q = Some (c, q') \<and> iq_rep q' [] \<and> lock q' = 0"
proof -
  let ?q = "q\<lparr>lock := BUSY\<rparr>"
  have "iq_rep ?q []" using assms(1) by simp
  then have e: "iqueueEmpty ?q" by (auto simp: iq_rep_def iqueueEmpty_iff)
  let ?w = "irq (iqueueUnlock ?q)"
  have w: "iq_rep ?w [c]" "lock ?w = 0"
    using assms by (auto simp: iqueueUnlock_def spinUnlock_def)
  then obtain q' where q': "iqueueGetc env (?w\<lparr>lock := BUSY\<rparr>) = Some (c, q')" "iq_rep q' []"
    using iqueueGetc_ok [of "?w\<lparr>lock := BUSY\<rparr>" c "[]" env] by auto
  then show ?thesis
    using assms idle_halts [OF e, of n "irq # env"] iqueueGetc_waits [where irq = irq and env = env, OF e] w
    by (simp add: inputGetc_def inputLock_def iqueueLock_def spinLock_ok inputUnlock_def iqueueUnlock_def spinUnlock_def)
qed

theorem inputGetc_blocks_witness:
  "\<exists>q'. inputGetc (replicate 5 id @ (\<lambda>q. the (inputPutc q 65)) # []) empty_queue = Some (65, q') \<and>
     iq_rep q' [] \<and> lock q' = 0"
proof (rule inputGetc_blocks [OF empty_queue_rep])
  show "lock empty_queue = 0" by (simp add: empty_queue_def)
  show "\<forall>q'. iq_rep q' [] \<and> lock q' = 0 \<longrightarrow>
      iq_rep (the (inputPutc q' 65)) [65] \<and> lock (the (inputPutc q' 65)) = 0"
  proof (intro allI impI)
    fix q' :: iqueue_t
    assume a: "iq_rep q' [] \<and> lock q' = 0"
    then have "iq_rep q' []" by simp
    from iqueuePutc_ok [OF this, where c = 65 and env = "[]"] a
    show "iq_rep (the (inputPutc q' 65)) [65] \<and> lock (the (inputPutc q' 65)) = 0"
      by (auto simp: inputPutc_def)
  qed
qed

text \<open>
  C11: however the reader and the interrupt handler interleave, one memory access
  at a time and with the handler not taking the lock, the bytes stored are the bytes read followed by
  the ones in the buffer, in order, none lost, duplicated or overwritten; at most 31 are outstanding, a byte that arrives
  is discarded only while 31 are, the handler never halts inside \<^verbatim>\<open>iqueuePutc\<close>, and no access of
  either side falls outside the buffer.
\<close>
theorem ring_no_loss:
  assumes "ring_reachable s"
  shows "sent s = got s @ contents (ring s) \<and> length (sent s) \<le> length (got s) + 31 \<and>
     (\<forall>t. ring_step s t \<longrightarrow> dropped t \<noteq> dropped s \<longrightarrow> length (contents (ring s)) = 31) \<and> (\<forall>c. wpc s \<noteq> WHalt c) \<and>
     (\<forall>c h. wpc s = WSlot c h \<longrightarrow> buf_set (buf (ring s)) h c \<noteq> None) \<and>
     (\<forall>i. rpc s = RSlot i \<longrightarrow> buf_get (buf (ring s)) i \<noteq> None)"
proof -
  have inv: "ring_inv s" using assms by (rule ring_reachable_inv)
  then have eq: "sent s = got s @ contents (ring s)" by (simp add: ring_inv_def)
  have "length (contents (ring s)) \<le> 31"
    using iq_len_bound [of "ring s"] by (simp add: contents_def)
  moreover have "\<forall>t. ring_step s t \<longrightarrow> dropped t \<noteq> dropped s \<longrightarrow> length (contents (ring s)) = 31"
    using discard_only_full [OF inv] by blast
  ultimately show ?thesis using inv eq by (auto simp: ring_inv_def iq_wf_def buf_set_def buf_get_def)
qed

theorem ring_no_loss_witness:
  "\<exists>s :: ring_sys. ring_reachable s \<and> sent s = [65, 66] \<and> got s = [65] \<and> contents (ring s) = [66]"
proof -
  have r0: "iq_rep (ring ring_init) []" by (simp add: ring_init_def initIQueue_ok)
  then obtain q1 where q1: "inputPutc (ring ring_init) 65 = Some q1" "iq_rep q1 [65]"
    using iqueuePutc_ok [of _ "[]" "[]" 65] by (force simp: inputPutc_def)
  then obtain q2 where q2: "inputPutc q1 66 = Some q2" "iq_rep q2 [65, 66]"
    using iqueuePutc_ok [of q1 "[65]" "[]" 66] by (force simp: inputPutc_def)
  then obtain q3 where q3: "iqueueGetc [] q2 = Some (65, q3)"
    using iqueueGetc_ok [of q2 65 "[66]" "[]"] by force
  have nf: "\<not> inputFull (ring ring_init)" "\<not> inputFull q1" and ne: "\<not> iqueueEmpty q2"
    using r0 q1(2) q2(2) by (auto simp: inputFull_def iq_rep_def iqueueFull_iff iqueueEmpty_iff)
  let ?s1 = "ring_init\<lparr>ring := q1, sent := [65]\<rparr>"
  let ?s2 = "?s1\<lparr>ring := q2, sent := [65, 66]\<rparr>"
  let ?s3 = "?s2\<lparr>ring := q3, got := [65]\<rparr>"
  have "ring_step\<^sup>*\<^sup>* ring_init ?s1" using handler_run [OF _ nf(1) q1(1)] by (simp add: ring_init_def)
  moreover have "ring_step\<^sup>*\<^sup>* ?s1 ?s2" using handler_run [of ?s1, OF _ _ _] nf(2) q2(1) by (simp add: ring_init_def)
  moreover have "ring_step\<^sup>*\<^sup>* ?s2 ?s3" using reader_run [of ?s2 65 q3] ne q3 by (simp add: ring_init_def)
  ultimately have "ring_reachable ?s3" using reach_steps [OF _ ring_reachable.start] by (meson rtranclp_trans)
  moreover have "sent ?s3 = [65, 66]" "got ?s3 = [65]" by simp_all
  ultimately obtain s where s: "ring_reachable s" "sent s = [65, 66]" "got s = [65]" by blast
  from ring_no_loss [OF s(1)] s show ?thesis by auto
qed

end
