(* ===== verification/CString.thy ===== *)
theory CString
  imports Prelude "HOL-Library.Sublist"
begin

text \<open>
  Memory and string functions: \<^verbatim>\<open>libc/string.c\<close>. Every function is a definition over the
  bytes of memory; \<open>None\<close> is a fault. A loop \<^verbatim>\<open>while (n--)\<close> is a recursion on \<open>n\<close>, a loop that
  runs to a terminating zero byte is a partial function. Characters are \<open>u8\<close>; where the
  source compares \<^verbatim>\<open>char\<close> values as numbers they are read as signed, as the target does.
  \<open>cstr m s xs\<close> says that the string at \<open>s\<close> consists of the characters \<open>xs\<close>.
\<close>

section \<open>Memory blocks\<close>

primrec memchr_loop :: "mem \<Rightarrow> u64 \<Rightarrow> u8 \<Rightarrow> nat \<Rightarrow> u64 option" where
  "memchr_loop m p c 0 = Some 0"
| "memchr_loop m p c (Suc n) = do { x \<leftarrow> ld8 m p; if x \<noteq> c then memchr_loop m (p + 1) c n else Some p }"

definition memchr :: "mem \<Rightarrow> u64 \<Rightarrow> u32 \<Rightarrow> u64 \<Rightarrow> u64 option" where
  "memchr m s c n = memchr_loop m s (ucast c) (unat n)"

primrec memcmp_loop :: "mem \<Rightarrow> u64 \<Rightarrow> u64 \<Rightarrow> nat \<Rightarrow> int option" where
  "memcmp_loop m s1 s2 0 = Some 0"
| "memcmp_loop m s1 s2 (Suc n) = do {
     a \<leftarrow> ld8 m s1; b \<leftarrow> ld8 m s2;
     if a \<noteq> b then Some (sint a - sint b) else memcmp_loop m (s1 + 1) (s2 + 1) n }"

definition memcmp :: "mem \<Rightarrow> u64 \<Rightarrow> u64 \<Rightarrow> u64 \<Rightarrow> int option" where
  "memcmp m s1 s2 n = memcmp_loop m s1 s2 (unat n)"

primrec copy_up :: "mem \<Rightarrow> u64 \<Rightarrow> u64 \<Rightarrow> nat \<Rightarrow> mem option" where
  "copy_up m dp sp 0 = Some m"
| "copy_up m dp sp (Suc n) = do { x \<leftarrow> ld8 m sp; m \<leftarrow> st8 m dp x; copy_up m (dp + 1) (sp + 1) n }"

primrec copy_down :: "mem \<Rightarrow> u64 \<Rightarrow> u64 \<Rightarrow> nat \<Rightarrow> mem option" where
  "copy_down m dp sp 0 = Some m"
| "copy_down m dp sp (Suc n) = do { x \<leftarrow> ld8 m (sp - 1); m \<leftarrow> st8 m (dp - 1) x; copy_down m (dp - 1) (sp - 1) n }"

definition memcpy :: "mem \<Rightarrow> u64 \<Rightarrow> u64 \<Rightarrow> u64 \<Rightarrow> (u64 \<times> mem) option" where
  "memcpy m dest src n = do { m \<leftarrow> copy_up m dest src (unat n); Some (dest, m) }"

definition memmove :: "mem \<Rightarrow> u64 \<Rightarrow> u64 \<Rightarrow> u64 \<Rightarrow> (u64 \<times> mem) option" where
  "memmove m dest src n = do {
     m \<leftarrow> (if src < dest then copy_down m (dest + n) (src + n) (unat n)
          else copy_up m dest src (unat n));
     Some (dest, m) }"

primrec fill_up :: "mem \<Rightarrow> u64 \<Rightarrow> u8 \<Rightarrow> nat \<Rightarrow> mem option" where
  "fill_up m p c 0 = Some m"
| "fill_up m p c (Suc n) = do { m \<leftarrow> st8 m p c; fill_up m (p + 1) c n }"

definition memset :: "mem \<Rightarrow> u64 \<Rightarrow> u32 \<Rightarrow> u64 \<Rightarrow> (u64 \<times> mem) option" where
  "memset m s c n = do { m \<leftarrow> fill_up m s (ucast c) (unat n); Some (s, m) }"

section \<open>Strings\<close>

partial_function (option) strend :: "mem \<Rightarrow> u64 \<Rightarrow> u64 option" where
  "strend m dest = do { x \<leftarrow> ld8 m dest; if x \<noteq> 0 then strend m (dest + 1) else Some dest }"

partial_function (option) strcpy_loop :: "mem \<Rightarrow> u64 \<Rightarrow> u64 \<Rightarrow> mem option" where
  "strcpy_loop m dest src = do {
     x \<leftarrow> ld8 m src; m \<leftarrow> st8 m dest x;
     if x \<noteq> 0 then strcpy_loop m (dest + 1) (src + 1) else Some m }"

definition strcat :: "mem \<Rightarrow> u64 \<Rightarrow> u64 \<Rightarrow> (u64 \<times> mem) option" where
  "strcat m dest src = do { e \<leftarrow> strend m dest; m \<leftarrow> strcpy_loop m e src; Some (dest, m) }"

partial_function (option) strchr_loop :: "mem \<Rightarrow> u64 \<Rightarrow> u8 \<Rightarrow> u64 option" where
  "strchr_loop m s c = do {
     x \<leftarrow> ld8 m s;
     if x \<noteq> c then (if x = 0 then Some 0 else strchr_loop m (s + 1) c) else Some s }"

definition strchr :: "mem \<Rightarrow> u64 \<Rightarrow> u32 \<Rightarrow> u64 option" where
  "strchr m s c = strchr_loop m s (ucast c)"

partial_function (option) strcmp :: "mem \<Rightarrow> u64 \<Rightarrow> u64 \<Rightarrow> int option" where
  "strcmp m s1 s2 = do {
     a \<leftarrow> ld8 m s1;
     if a \<noteq> 0 then do {
       b \<leftarrow> ld8 m s2;
       if a \<noteq> b then Some (sint a - sint b) else strcmp m (s1 + 1) (s2 + 1) }
     else Some 0 }"

definition strcpy :: "mem \<Rightarrow> u64 \<Rightarrow> u64 \<Rightarrow> (u64 \<times> mem) option" where
  "strcpy m dest src = do { m \<leftarrow> strcpy_loop m dest src; Some (dest, m) }"

partial_function (option) strcspn_loop :: "mem \<Rightarrow> u64 \<Rightarrow> u64 \<Rightarrow> u64 \<Rightarrow> u64 option" where
  "strcspn_loop m s1 s2 ret = do {
     x \<leftarrow> ld8 m s1;
     if x \<noteq> 0 then do {
       p \<leftarrow> strchr m s2 (scast x);
       if p \<noteq> 0 then Some ret else strcspn_loop m (s1 + 1) s2 (ret + 1) }
     else Some ret }"

definition strcspn :: "mem \<Rightarrow> u64 \<Rightarrow> u64 \<Rightarrow> u64 option" where
  "strcspn m s1 s2 = strcspn_loop m s1 s2 0"

definition strerror :: "u32 \<Rightarrow> string" where
  "strerror errnum = (if errnum \<noteq> 0 then ''There was an error, but I didn''@ [CHR 0x27] @ ''t crash yet!'' else ''No error.'')"

partial_function (option) strlen_loop :: "mem \<Rightarrow> u64 \<Rightarrow> u64 \<Rightarrow> u64 option" where
  "strlen_loop m s len = do { x \<leftarrow> ld8 m s; if x \<noteq> 0 then strlen_loop m (s + 1) (len + 1) else Some len }"

definition strlen :: "mem \<Rightarrow> u64 \<Rightarrow> u64 option" where
  "strlen m s = strlen_loop m s 0"

partial_function (option) strnlen_loop :: "mem \<Rightarrow> u64 \<Rightarrow> u64 \<Rightarrow> u64 \<Rightarrow> u64 option" where
  "strnlen_loop m s maxlen len = do {
     x \<leftarrow> ld8 m (s + len);
     if x \<noteq> 0 \<and> len < maxlen then strnlen_loop m s maxlen (len + 1) else Some len }"

definition strnlen :: "mem \<Rightarrow> u64 \<Rightarrow> u64 \<Rightarrow> u64 option" where
  "strnlen m s maxlen = strnlen_loop m s maxlen 0"

primrec strncat_loop :: "mem \<Rightarrow> u64 \<Rightarrow> u64 \<Rightarrow> nat \<Rightarrow> mem option" where
  "strncat_loop m dest src 0 = st8 m dest 0"
| "strncat_loop m dest src (Suc n) = do {
     x \<leftarrow> ld8 m src; m \<leftarrow> st8 m dest x;
     if x = 0 then Some m else strncat_loop m (dest + 1) (src + 1) n }"

definition strncat :: "mem \<Rightarrow> u64 \<Rightarrow> u64 \<Rightarrow> u64 \<Rightarrow> (u64 \<times> mem) option" where
  "strncat m dest src n = do { e \<leftarrow> strend m dest; m \<leftarrow> strncat_loop m e src (unat n); Some (dest, m) }"

primrec strncmp_loop :: "mem \<Rightarrow> u64 \<Rightarrow> u64 \<Rightarrow> nat \<Rightarrow> int option" where
  "strncmp_loop m s1 s2 0 = Some 0"
| "strncmp_loop m s1 s2 (Suc n) = do {
     a \<leftarrow> ld8 m s1; b \<leftarrow> ld8 m s2;
     if a \<noteq> b then Some (uint a - uint b) else strncmp_loop m (s1 + 1) (s2 + 1) n }"

definition strncmp :: "mem \<Rightarrow> u64 \<Rightarrow> u64 \<Rightarrow> u64 \<Rightarrow> int option" where
  "strncmp m s1 s2 n = strncmp_loop m s1 s2 (unat n)"

primrec strncpy_loop :: "mem \<Rightarrow> u64 \<Rightarrow> u64 \<Rightarrow> nat \<Rightarrow> mem option" where
  "strncpy_loop m dest src 0 = Some m"
| "strncpy_loop m dest src (Suc n) = do {
     x \<leftarrow> ld8 m src; m \<leftarrow> st8 m dest x;
     if x \<noteq> 0 then strncpy_loop m (dest + 1) (src + 1) n else fill_up m (dest + 1) 0 n }"

definition strncpy :: "mem \<Rightarrow> u64 \<Rightarrow> u64 \<Rightarrow> u64 \<Rightarrow> (u64 \<times> mem) option" where
  "strncpy m dest src n = do { m \<leftarrow> strncpy_loop m dest src (unat n); Some (dest, m) }"

partial_function (option) strpbrk :: "mem \<Rightarrow> u64 \<Rightarrow> u64 \<Rightarrow> u64 option" where
  "strpbrk m s1 s2 = do {
     x \<leftarrow> ld8 m s1;
     if x \<noteq> 0 then do {
       p \<leftarrow> strchr m s2 (scast x);
       if p \<noteq> 0 then Some s1 else strpbrk m (s1 + 1) s2 }
     else Some 0 }"

partial_function (option) strrchr_loop :: "mem \<Rightarrow> u64 \<Rightarrow> u8 \<Rightarrow> u64 \<Rightarrow> u64 option" where
  "strrchr_loop m s c ret = do {
     x \<leftarrow> ld8 m s;
     let ret = (if x = c then s else ret)
     in if x \<noteq> 0 then strrchr_loop m (s + 1) c ret else Some ret }"

definition strrchr :: "mem \<Rightarrow> u64 \<Rightarrow> u32 \<Rightarrow> u64 option" where
  "strrchr m s c = strrchr_loop m s (ucast c) 0"

partial_function (option) strspn_loop :: "mem \<Rightarrow> u64 \<Rightarrow> u64 \<Rightarrow> u64 \<Rightarrow> u64 option" where
  "strspn_loop m s1 s2 ret = do {
     x \<leftarrow> ld8 m s1;
     if x \<noteq> 0 then do {
       p \<leftarrow> strchr m s2 (scast x);
       if p \<noteq> 0 then strspn_loop m (s1 + 1) s2 (ret + 1) else Some ret }
     else Some ret }"

definition strspn :: "mem \<Rightarrow> u64 \<Rightarrow> u64 \<Rightarrow> u64 option" where
  "strspn m s1 s2 = strspn_loop m s1 s2 0"

partial_function (option) strstr_loop :: "mem \<Rightarrow> u64 \<Rightarrow> u64 \<Rightarrow> u64 \<Rightarrow> u64 option" where
  "strstr_loop m s1 s2 n = do {
     x \<leftarrow> ld8 m s1;
     if x \<noteq> 0 then do {
       r \<leftarrow> memcmp m s1 s2 n;
       if r = 0 then Some s1 else strstr_loop m (s1 + 1) s2 n }
     else Some 0 }"

definition strstr :: "mem \<Rightarrow> u64 \<Rightarrow> u64 \<Rightarrow> u64 option" where
  "strstr m s1 s2 = do { n \<leftarrow> strlen m s2; strstr_loop m s1 s2 n }"

definition strtok :: "mem \<Rightarrow> u64 \<Rightarrow> u64 \<Rightarrow> u64 \<Rightarrow> (u64 \<times> u64 \<times> mem) option" where
  "strtok m p str delim =
     (if str = 0 \<and> p = 0 then Some (0, p, m)
      else do {
        let p = (if str \<noteq> 0 then str else p);
        a \<leftarrow> strspn m p delim;
        let str = p + a;
        b \<leftarrow> strcspn m str delim;
        let p = str + b;
        if p = str then Some (0, 0, m)
        else do {
          x \<leftarrow> ld8 m p;
          if x \<noteq> 0 then do { m \<leftarrow> st8 m p 0; Some (str, p + 1, m) }
          else Some (str, 0, m) } })"

definition strxfrm :: "mem \<Rightarrow> u64 \<Rightarrow> u64 \<Rightarrow> u64 \<Rightarrow> (u64 \<times> mem) option" where
  "strxfrm m dest src n = do {
     n2 \<leftarrow> strlen m src;
     if n2 < n then do { (_, m) \<leftarrow> strcpy m dest src; Some (n2, m) } else Some (n2, m) }"

definition strcoll :: "mem \<Rightarrow> (mem \<Rightarrow> u64 \<Rightarrow> u64 \<times> mem) \<Rightarrow> u64 \<Rightarrow> u64 \<Rightarrow> int option" where
  "strcoll m alloca s1 s2 = do {
     (n1, m) \<leftarrow> strxfrm m 0 s1 0;
     let (t1, m) = alloca m (1 + n1);
     (_, m) \<leftarrow> strxfrm m t1 s1 (1 + n1);
     (n2, m) \<leftarrow> strxfrm m 0 s2 0;
     let (t2, m) = alloca m (1 + n2);
     (_, m) \<leftarrow> strxfrm m t2 s2 (1 + n2);
     strcmp m t1 t2 }"

section \<open>Blocks\<close>

definition region :: "mem \<Rightarrow> u64 \<Rightarrow> nat \<Rightarrow> bool" where
  "region m p n \<longleftrightarrow> (\<forall>i<n. ld8 m (p + of_nat i) \<noteq> None)"

definition span :: "u64 \<Rightarrow> nat \<Rightarrow> u64 set" where
  "span p n = (\<lambda>i. p + of_nat i) ` {0..<n}"

lemma copy_seq_map: "copy_seq ld st m df sf (map g is) = copy_seq ld st m (df \<circ> g) (sf \<circ> g) is"
  by (induction "is" arbitrary: m) (auto intro!: Option.bind_cong)

lemma fill_seq_map: "fill_seq st m df f (map g is) = fill_seq st m (df \<circ> g) (f \<circ> g) is"
  by (induction "is" arbitrary: m) (auto intro!: Option.bind_cong)

lemma copy_seq_append:
  "copy_seq ld st m df sf (is @ js) = do { m \<leftarrow> copy_seq ld st m df sf is; copy_seq ld st m df sf js }"
  by (induction "is" arbitrary: m) (auto intro!: Option.bind_cong)

lemma upt_0_Suc: "[0..<Suc n] = 0 # map Suc [0..<n]"
  by (simp add: map_Suc_upt upt_conv_Cons del: upt_Suc)

lemma copy_up_seq:
  "copy_up m dp sp n = copy_seq ld8 st8 m (\<lambda>i. dp + of_nat i) (\<lambda>i. sp + of_nat i) [0..<n]"
  by (induction n arbitrary: m dp sp)
    (simp_all add: upt_0_Suc copy_seq_map comp_def add.assoc del: upt_Suc)

lemma copy_down_seq:
  "copy_down m (dp + of_nat n) (sp + of_nat n) n =
     copy_seq ld8 st8 m (\<lambda>i. dp + of_nat i) (\<lambda>i. sp + of_nat i) (rev [0..<n])"
  by (induction n arbitrary: m) (simp_all add: algebra_simps)

lemma fill_up_seq:
  "fill_up m p c n = fill_seq st8 m (\<lambda>i. p + of_nat i) (\<lambda>_. c) [0..<n]"
  by (induction n arbitrary: m p)
    (simp_all add: upt_0_Suc fill_seq_map comp_def add.assoc del: upt_Suc)

lemma inj_offset: "n \<le> 2 ^ 64 \<Longrightarrow> inj_on (\<lambda>i. p + of_nat i :: u64) {0..<n}"
  by (auto simp: inj_on_def of_nat_inverse dest!: arg_cong [of "of_nat _ :: u64" _ unat] simp: unat_of_nat)

lemma unat_offset: "unat p + n \<le> 2 ^ 64 \<Longrightarrow> i < n \<Longrightarrow> unat (p + of_nat i :: u64) = unat p + i"
  by (simp add: unat_word_ariths unat_of_nat)

lemma fill_up_ok:
  assumes "region m p n" "n \<le> 2 ^ 64"
  shows "\<exists>m'. fill_up m p c n = Some m' \<and> (\<forall>i<n. ld8 m' (p + of_nat i) = Some c) \<and>
     (\<forall>q. q \<notin> span p n \<longrightarrow> ld8 m' q = ld8 m q)"
  using bytes.fill_seq_ok [of "\<lambda>i. p + of_nat i" "[0..<n]" m "\<lambda>_. c"] assms inj_offset [of n p]
  by (auto simp: fill_up_seq region_def span_def)

lemma copy_up_ok:
  assumes "region m d n" "region m s n" "n \<le> 2 ^ 64" "\<forall>j<n. \<forall>i<j. d + of_nat i \<noteq> s + of_nat j"
  shows "\<exists>m'. copy_up m d s n = Some m' \<and> (\<forall>i<n. ld8 m' (d + of_nat i) = ld8 m (s + of_nat i)) \<and>
     (\<forall>q. q \<notin> span d n \<longrightarrow> ld8 m' q = ld8 m q)"
proof -
  have "sorted_wrt (\<lambda>i j. d + of_nat i \<noteq> s + of_nat j) [0..<n]"
    using assms(4) by (auto simp: sorted_wrt_iff_nth_less)
  then show ?thesis
    using bytes.copy_seq_ok [of "\<lambda>i. d + of_nat i" "[0..<n]" m "\<lambda>i. s + of_nat i"] assms inj_offset [of n d]
    by (auto simp: copy_up_seq region_def span_def)
qed

lemma copy_down_ok:
  assumes "region m d n" "region m s n" "n \<le> 2 ^ 64" "\<forall>j<n. \<forall>i<j. d + of_nat j \<noteq> s + of_nat i"
  shows "\<exists>m'. copy_down m (d + of_nat n) (s + of_nat n) n = Some m' \<and>
     (\<forall>i<n. ld8 m' (d + of_nat i) = ld8 m (s + of_nat i)) \<and>
     (\<forall>q. q \<notin> span d n \<longrightarrow> ld8 m' q = ld8 m q)"
proof -
  have "sorted_wrt (\<lambda>i j. d + of_nat i \<noteq> s + of_nat j) (rev [0..<n])"
    unfolding sorted_wrt_rev using assms(4) by (auto simp: sorted_wrt_iff_nth_less)
  then show ?thesis
    using bytes.copy_seq_ok [of "\<lambda>i. d + of_nat i" "rev [0..<n]" m "\<lambda>i. s + of_nat i"] assms inj_offset [of n d]
    by (auto simp: copy_down_seq region_def span_def)
qed

lemma memmove_ok:
  assumes r: "region m dest (unat n)" "region m src (unat n)"
    and w: "unat dest + unat n \<le> 2 ^ 64" "unat src + unat n \<le> 2 ^ 64"
  shows "\<exists>m'. memmove m dest src n = Some (dest, m') \<and>
     (\<forall>i<unat n. ld8 m' (dest + of_nat i) = ld8 m (src + of_nat i)) \<and>
     (\<forall>q. q \<notin> span dest (unat n) \<longrightarrow> ld8 m' q = ld8 m q)"
proof -
  have n: "unat n \<le> 2 ^ 64" using w by simp
  have u: "unat (dest + of_nat i) = unat dest + i" "unat (src + of_nat i) = unat src + i" if "i < unat n" for i
    using unat_offset [OF w(1) that] unat_offset [OF w(2) that] .
  show ?thesis
  proof (cases "src < dest")
    case True
    then have "\<forall>j<unat n. \<forall>i<j. dest + of_nat j \<noteq> src + of_nat i"
      using u by (fastforce simp: word_less_nat_alt dest!: arg_cong [of _ _ unat])
    with copy_down_ok [OF r n] True show ?thesis by (auto simp: memmove_def)
  next
    case False
    then have "\<forall>j<unat n. \<forall>i<j. dest + of_nat i \<noteq> src + of_nat j"
      using u by (fastforce simp: word_less_nat_alt dest!: arg_cong [of _ _ unat])
    with copy_up_ok [OF r n] False show ?thesis by (auto simp: memmove_def)
  qed
qed

section \<open>Strings in memory\<close>

fun cstr :: "mem \<Rightarrow> u64 \<Rightarrow> u8 list \<Rightarrow> bool" where
  "cstr m s [] \<longleftrightarrow> ld8 m s = Some 0"
| "cstr m s (x # xs) \<longleftrightarrow> ld8 m s = Some x \<and> x \<noteq> 0 \<and> cstr m (s + 1) xs"

abbreviation null_unmapped :: "mem \<Rightarrow> bool" where
  "null_unmapped m \<equiv> ld8 m 0 = None"

lemma cstr_append: "cstr m s (xs @ ys) \<longleftrightarrow>
    (\<forall>i<length xs. ld8 m (s + of_nat i) = Some (xs ! i) \<and> xs ! i \<noteq> 0) \<and> cstr m (s + of_nat (length xs)) ys"
  by (induction xs arbitrary: s) (auto simp: All_less_Suc2 add.assoc)

lemma cstr_iff: "cstr m s xs \<longleftrightarrow>
    (\<forall>i<length xs. ld8 m (s + of_nat i) = Some (xs ! i)) \<and> 0 \<notin> set xs \<and> ld8 m (s + of_nat (length xs)) = Some 0"
  using cstr_append [of m s xs "[]"] by (auto simp: in_set_conv_nth) 

lemma cstr_drop: "cstr m s xs \<Longrightarrow> i \<le> length xs \<Longrightarrow> cstr m (s + of_nat i) (drop i xs)"
  using cstr_append [of m s "take i xs" "drop i xs"] by simp

lemma cstr_frame:
  "cstr m s xs \<Longrightarrow> \<forall>q\<in>span s (Suc (length xs)). ld8 m' q = ld8 m q \<Longrightarrow> cstr m' s xs"
  by (auto simp: cstr_iff span_def)

lemma cstr_st8:
  assumes "cstr m s xs" "st8 m d x = Some m'" "d \<notin> span s (Suc (length xs))"
  shows "cstr m' s xs"
proof (rule cstr_frame [OF assms(1)], rule ballI)
  fix q
  assume "q \<in> span s (Suc (length xs))"
  with assms(3) have "q \<noteq> d" by blast
  then show "ld8 m' q = ld8 m q" using bytes.ld_st [OF assms(2), of q] by simp
qed

lemma cstr_unique: "cstr m s xs \<Longrightarrow> cstr m s ys \<Longrightarrow> xs = ys"
proof (induction xs arbitrary: s ys)
  case Nil
  then show ?case by (cases ys) auto
next
  case (Cons x xs)
  then show ?case by (cases ys) auto
qed

lemma ucast_scast_char [simp]: "(ucast (scast (c :: u8) :: u32) :: u8) = c"
  by (rule bit_word_eqI) (simp add: bit_simps)

lemma strend_ok: "cstr m s xs \<Longrightarrow> strend m s = Some (s + of_nat (length xs))"
  by (induction xs arbitrary: s) (subst strend.simps, simp add: add_ac)+

lemma strlen_loop_ok: "cstr m s xs \<Longrightarrow> strlen_loop m s n = Some (n + of_nat (length xs))"
  by (induction xs arbitrary: s n) (subst strlen_loop.simps, simp add: add_ac)+

lemma strlen_ok: "cstr m s xs \<Longrightarrow> strlen m s = Some (of_nat (length xs))"
  by (simp add: strlen_def strlen_loop_ok)

lemma strchr_loop_ok:
  "cstr m s xs \<Longrightarrow> strchr_loop m s c =
     Some (if c \<in> set (xs @ [0]) then s + of_nat (length (takeWhile (\<lambda>x. x \<noteq> c) xs)) else 0)"
  by (induction xs arbitrary: s) (subst strchr_loop.simps, simp add: add_ac)+

lemma mapped_nonnull: "null_unmapped m \<Longrightarrow> ld8 m p = Some x \<Longrightarrow> p \<noteq> 0"
  by auto

lemma cstr_mapped: "cstr m s xs \<Longrightarrow> i \<le> length xs \<Longrightarrow> ld8 m (s + of_nat i) \<noteq> None"
  by (auto simp: cstr_iff le_less)

lemma strchr_truth:
  assumes "cstr m s xs" "null_unmapped m" "c \<noteq> 0"
  shows "\<exists>p. strchr m s (scast c) = Some p \<and> (p \<noteq> 0 \<longleftrightarrow> c \<in> set xs)"
proof -
  have "s + of_nat (length (takeWhile (\<lambda>x. x \<noteq> c) xs)) \<noteq> 0"
    using cstr_mapped [OF assms(1), of "length (takeWhile (\<lambda>x. x \<noteq> c) xs)"] assms(2) length_takeWhile_le
    by fastforce
  then show ?thesis using assms by (simp add: strchr_def strchr_loop_ok)
qed

lemma strcspn_loop_ok:
  assumes "cstr m d ds" "null_unmapped m"
  shows "cstr m s xs \<Longrightarrow> strcspn_loop m s d n = Some (n + of_nat (length (takeWhile (\<lambda>x. x \<notin> set ds) xs)))"
proof (induction xs arbitrary: s n)
  case Nil
  then show ?case by (subst strcspn_loop.simps) simp
next
  case (Cons x xs)
  then show ?case using strchr_truth [OF assms, of x]
    by (subst strcspn_loop.simps) (auto simp: add_ac)
qed

lemma strspn_loop_ok:
  assumes "cstr m d ds" "null_unmapped m"
  shows "cstr m s xs \<Longrightarrow> strspn_loop m s d n = Some (n + of_nat (length (takeWhile (\<lambda>x. x \<in> set ds) xs)))"
proof (induction xs arbitrary: s n)
  case Nil
  then show ?case by (subst strspn_loop.simps) simp
next
  case (Cons x xs)
  then show ?case using strchr_truth [OF assms, of x]
    by (subst strspn_loop.simps) (auto simp: add_ac)
qed

lemma strspn_ok:
  "\<lbrakk>cstr m s xs; cstr m d ds; null_unmapped m\<rbrakk> \<Longrightarrow>
   strspn m s d = Some (of_nat (length (takeWhile (\<lambda>x. x \<in> set ds) xs)))"
  "\<lbrakk>cstr m s xs; cstr m d ds; null_unmapped m\<rbrakk> \<Longrightarrow>
   strcspn m s d = Some (of_nat (length (takeWhile (\<lambda>x. x \<notin> set ds) xs)))"
  by (simp_all add: strspn_def strspn_loop_ok strcspn_def strcspn_loop_ok)

fun first_diff :: "u8 list \<Rightarrow> u8 list \<Rightarrow> int" where
  "first_diff [] ys = 0"
| "first_diff (x # xs) [] = sint x"
| "first_diff (x # xs) (y # ys) = (if x \<noteq> y then sint x - sint y else first_diff xs ys)"

lemma strcmp_ok: "cstr m s xs \<Longrightarrow> cstr m t ys \<Longrightarrow> strcmp m s t = Some (first_diff xs ys)"
proof (induction xs ys arbitrary: s t rule: first_diff.induct)
  case (1 ys)
  then show ?case by (subst strcmp.simps) simp
next
  case (2 x xs)
  then show ?case by (subst strcmp.simps) simp
next
  case (3 x xs y ys)
  then show ?case by (subst strcmp.simps) simp
qed

lemma sint_eq_iff: "sint a = sint b \<longleftrightarrow> a = b" for a b :: u8
proof
  assume "sint a = sint b"
  then have "(word_of_int (sint a) :: u8) = word_of_int (sint b)" by (rule arg_cong)
  then show "a = b" by simp
qed simp

lemma sint_eq_0: "sint a = 0 \<longleftrightarrow> a = 0" for a :: u8
  by (metis sint_0 sint_eq_iff)

lemma first_diff_zero: "0 \<notin> set xs \<Longrightarrow> first_diff xs ys = 0 \<longleftrightarrow> prefix xs ys"
  by (induction xs ys rule: first_diff.induct) (auto simp: sint_eq_iff sint_eq_0)

lemma memcmp_loop_ok:
  "cstr m s xs \<Longrightarrow> cstr m t ys \<Longrightarrow> \<exists>r. memcmp_loop m s t (length ys) = Some r \<and> (r = 0 \<longleftrightarrow> prefix ys xs)"
proof (induction ys arbitrary: s t xs)
  case (Cons y ys)
  then show ?case by (cases xs) (auto simp: sint_eq_iff sint_eq_0)
qed simp

lemma strstr_loop_ok:
  assumes "cstr m t ys" "length ys < 2 ^ 64"
  shows "cstr m s xs \<Longrightarrow> strstr_loop m s t (of_nat (length ys)) =
     Some (if \<exists>i<length xs. prefix ys (drop i xs)
           then s + of_nat (LEAST i. prefix ys (drop i xs)) else 0)"
proof (induction xs arbitrary: s)
  case Nil
  then show ?case by (subst strstr_loop.simps) simp
next
  case (Cons x xs)
  obtain r where r: "memcmp m s t (of_nat (length ys)) = Some r" "r = 0 \<longleftrightarrow> prefix ys (x # xs)"
    using memcmp_loop_ok [OF Cons.prems assms(1)] assms(2) by (auto simp: memcmp_def unat_of_nat)
  show ?case
  proof (cases "prefix ys (x # xs)")
    case True
    then have "(LEAST i. prefix ys (drop i (x # xs))) = 0" by (intro Least_eq_0) simp
    with True r Cons.prems show ?thesis
      by (subst strstr_loop.simps) auto
  next
    case False
    have ex: "(\<exists>i<length (x # xs). prefix ys (drop i (x # xs))) \<longleftrightarrow> (\<exists>i<length xs. prefix ys (drop i xs))"
      using False by (auto simp: Ex_less_Suc2)
    have "(LEAST i. prefix ys (drop i (x # xs))) = Suc (LEAST i. prefix ys (drop i xs))"
      if "\<exists>i<length xs. prefix ys (drop i xs)"
    proof -
      from that obtain i where "prefix ys (drop (Suc i) (x # xs))" by auto
      from Least_Suc [of "\<lambda>i. prefix ys (drop i (x # xs))", OF this] False show ?thesis by simp
    qed
    with False r Cons ex show ?thesis
      by (subst strstr_loop.simps) (auto simp: add_ac)
  qed
qed

lemma span_0 [simp]: "span p 0 = {}"
  by (simp add: span_def)

lemma span_Suc [simp]: "span p (Suc n) = insert p (span (p + 1) n)"
proof -
  have "{0..<Suc n} = insert 0 (Suc ` {0..<n})" by (simp add: atLeast0_lessThan_Suc_eq_insert_0)
  then have "span p (Suc n) = insert (p + of_nat 0) ((\<lambda>i. p + of_nat (Suc i)) ` {0..<n})"
    by (simp only: span_def image_insert image_image)
  then show ?thesis by (simp add: span_def add_ac)
qed

lemma region_Suc [simp]: "region m p (Suc n) \<longleftrightarrow> ld8 m p \<noteq> None \<and> region m (p + 1) n"
  by (auto simp: region_def All_less_Suc2 add_ac)

lemma region_0 [simp]: "region m p 0"
  by (simp add: region_def)

lemma notin_span: "n < 2 ^ 64 \<Longrightarrow> p \<notin> span (p + 1) n"
proof
  assume n: "n < 2 ^ 64" and "p \<in> span (p + 1) n"
  then obtain i where i: "i < n" "p + of_nat 0 = p + of_nat (Suc i)"
    by (auto simp: span_def add.assoc)
  from inj_onD [OF inj_offset [of "Suc n" p] i(2)] n i(1) show False by simp
qed

lemma region_frame: "region m p n \<Longrightarrow> st8 m q x = Some m' \<Longrightarrow> region m' p n"
  using bytes.st_keeps [of m q x m'] unfolding region_def by blast

lemma strcpy_loop_ok:
  "\<lbrakk>cstr m s xs; region m d (Suc (length xs)); span d (Suc (length xs)) \<inter> span s (Suc (length xs)) = {};
    Suc (length xs) < 2 ^ 64\<rbrakk> \<Longrightarrow>
   \<exists>m'. strcpy_loop m d s = Some m' \<and> cstr m' d xs \<and> (\<forall>q. q \<notin> span d (Suc (length xs)) \<longrightarrow> ld8 m' q = ld8 m q)"
proof (induction xs arbitrary: m s d)
  case Nil
  then obtain m' where "st8 m d 0 = Some m'"
    using bytes.st_defined [of m d] by auto
  with Nil show ?case
    by (subst strcpy_loop.simps) (auto simp: bytes.ld_st)
next
  case (Cons x xs)
  obtain m1 where m1: "st8 m d x = Some m1"
    using Cons.prems(2) bytes.st_defined [of m d] by auto
  have keep: "ld8 m1 q = ld8 m q" if "q \<noteq> d" for q
    using that by (simp add: bytes.ld_st [OF m1])
  have d: "d \<notin> span (d + 1) (Suc (length xs))" "d \<notin> span (s + 1) (Suc (length xs))"
    "span (d + 1) (Suc (length xs)) \<inter> span (s + 1) (Suc (length xs)) = {}"
    using Cons.prems(3,4) notin_span [of "Suc (length xs)" d] by simp_all blast
  have "cstr m1 (s + 1) xs"
  proof (rule cstr_frame)
    show "cstr m (s + 1) xs" using Cons.prems(1) by simp
    show "\<forall>q\<in>span (s + 1) (Suc (length xs)). ld8 m1 q = ld8 m q"
      using d(2) keep by metis
  qed
  moreover have "region m1 (d + 1) (Suc (length xs))"
    using Cons.prems(2) region_Suc [of m d "Suc (length xs)"] by (intro region_frame [OF _ m1]) simp
  ultimately obtain m' where m': "strcpy_loop m1 (d + 1) (s + 1) = Some m'" "cstr m' (d + 1) xs"
      "\<forall>q. q \<notin> span (d + 1) (Suc (length xs)) \<longrightarrow> ld8 m' q = ld8 m1 q"
    using Cons.IH [of m1 "s + 1" "d + 1"] d(3) Cons.prems(4) by fastforce
  moreover have "ld8 m' d = Some x"
    using m'(3) d(1) bytes.ld_st [OF m1] by simp
  moreover have "ld8 m' q = ld8 m q" if "q \<notin> span d (Suc (length (x # xs)))" for q
    using m'(3) keep that by simp
  ultimately show ?case
    using Cons.prems(1) m1 by (subst strcpy_loop.simps) (simp del: span_Suc)
qed

declare span_Suc [simp del] region_Suc [simp del]

section \<open>Tokens\<close>

function tokens :: "u8 set \<Rightarrow> u8 list \<Rightarrow> u8 list list" where
  "tokens D xs =
     (let ys = dropWhile (\<lambda>x. x \<in> D) xs
      in if ys = [] then [] else takeWhile (\<lambda>x. x \<notin> D) ys # tokens D (drop 1 (dropWhile (\<lambda>x. x \<notin> D) ys)))"
  by pat_completeness auto
termination
proof (relation "measure (\<lambda>(D, xs). length xs)", goal_cases)
  case (2 D xs ys)
  have "length (dropWhile (\<lambda>x. x \<notin> D) ys) \<le> length ys" "length ys \<le> length xs"
    using 2(1) by (simp_all add: length_dropWhile_le)
  moreover have "0 < length ys" using 2 by simp
  ultimately show ?case by (simp del: length_greater_0_conv)
qed simp

declare tokens.simps [simp del]

partial_function (option) strtok_iter :: "mem \<Rightarrow> u64 \<Rightarrow> u64 \<Rightarrow> u64 \<Rightarrow> (u64 list \<times> mem) option" where
  "strtok_iter m p str delim = do {
     (r, p, m) \<leftarrow> strtok m p str delim;
     if r = 0 then Some ([], m)
     else do { (rs, m) \<leftarrow> strtok_iter m p 0 delim; Some (r # rs, m) } }"

lemma cstr_split:
  assumes "cstr m q (us @ ys)"
  shows "cstr m (q + of_nat (length us)) ys"
  using assms by (simp add: cstr_append)

lemma strtok_call:
  assumes c: "cstr m q xs" "cstr m d ds" "null_unmapped m" "length xs < 2 ^ 64"
    and q: "str = q \<or> str = 0 \<and> p = q"
    and ys: "xs = us @ ys" "us = takeWhile (\<lambda>x. x \<in> set ds) xs"
    and rest: "ys = ts @ rest" "ts = takeWhile (\<lambda>x. x \<notin> set ds) ys"
  shows "ts = [] \<Longrightarrow> strtok m p str d = Some (0, 0, m)"
    and "ts \<noteq> [] \<Longrightarrow> rest = [] \<Longrightarrow> strtok m p str d = Some (q + of_nat (length us), 0, m)"
    and "ts \<noteq> [] \<Longrightarrow> rest = z # zs \<Longrightarrow> \<exists>m'. st8 m (q + of_nat (length us + length ts)) 0 = Some m' \<and>
       strtok m p str d = Some (q + of_nat (length us), q + of_nat (length us + length ts) + 1, m')"
proof -
  let ?s = "q + of_nat (length us)"
  let ?e = "?s + of_nat (length ts)"
  have "q \<noteq> 0" using c(3) cstr_mapped [OF c(1), of 0] by auto
  have sys: "cstr m ?s ys" using c(1) ys(1) by (simp add: cstr_append)
  then have srest: "cstr m ?e rest" using rest(1) by (simp add: cstr_append add.assoc)
  have spn: "strspn m q d = Some (of_nat (length us))"
    using strspn_ok(1) [OF c(1-3)] ys(2) by simp
  have cspn: "strcspn m ?s d = Some (of_nat (length ts))"
    using strspn_ok(2) [OF sys c(2,3)] rest(2) by simp
  have len: "length ts < 2 ^ 64" using c(4) ys(1) rest(1) by simp
  then have nz: "of_nat (length ts) = (0 :: u64) \<longleftrightarrow> ts = []"
    using dvd_imp_le [of "2 ^ 64" "length ts"] by (auto simp: word_of_nat_eq_0_iff)
  have start: "(if str \<noteq> 0 then str else p) = q" "\<not> (str = 0 \<and> p = 0)"
    using q \<open>q \<noteq> 0\<close> by auto
  note eqs = strtok_def start spn cspn nz Let_def
  show "ts = [] \<Longrightarrow> strtok m p str d = Some (0, 0, m)"
    by (simp add: eqs)
  show "ts \<noteq> [] \<Longrightarrow> rest = [] \<Longrightarrow> strtok m p str d = Some (?s, 0, m)"
    using srest by (simp add: eqs)
  assume ts: "ts \<noteq> []" and z: "rest = z # zs"
  from srest z have ldz: "ld8 m ?e = Some z" "z \<noteq> 0" by auto
  then obtain m' where "st8 m ?e 0 = Some m'" using bytes.st_defined [of m ?e] by auto
  then show "\<exists>m'. st8 m (q + of_nat (length us + length ts)) 0 = Some m' \<and>
       strtok m p str d = Some (?s, q + of_nat (length us + length ts) + 1, m')"
    using ldz ts by (simp add: eqs add.assoc)
qed

lemma span_offset: "span (p + of_nat k) n = (\<lambda>i. p + of_nat i) ` {k..<k + n}"
proof -
  have "{k..<k + n} = (\<lambda>i. k + i) ` {0..<n}" by (simp add: add.commute)
  then show ?thesis by (simp only: span_def image_image of_nat_add add.assoc)
qed

lemma span_disjoint:
  assumes "k + n \<le> k'" "k' + n' \<le> 2 ^ 64"
  shows "span (p + of_nat k) n \<inter> span (p + of_nat k') n' = {}"
  unfolding span_offset using assms
  by (subst inj_on_image_Int [OF inj_offset [of "2 ^ 64" p], symmetric]) auto

lemma span_subset: "k + n \<le> N \<Longrightarrow> span (p + of_nat k) n \<subseteq> span p N"
  unfolding span_offset by (auto simp: span_def)

lemma span_single: "span p 1 = {p}"
  by (simp add: span_def)

lemma cstr_cut:
  assumes "cstr m q (ts @ z # zs)" "st8 m (q + of_nat (length ts)) 0 = Some m'" "length (ts @ z # zs) < 2 ^ 63"
  shows "cstr m' q ts \<and> cstr m' (q + of_nat (length ts) + 1) zs"
proof -
  let ?e = "q + of_nat (length ts)"
  have keep: "ld8 m' a = ld8 m a" if "a \<noteq> ?e" for a
    using bytes.ld_st [OF assms(2), of a] that by simp
  have "span (q + of_nat 0) (length ts) \<inter> span ?e 1 = {}"
    by (rule span_disjoint) (use assms(3) in auto)
  moreover have "q + of_nat i \<in> span (q + of_nat 0) (length ts)" if "i < length ts" for i
    using that by (simp add: span_def)
  ultimately have low: "q + of_nat i \<noteq> ?e" if "i < length ts" for i
    using that unfolding span_single by blast
  have "span ?e 1 \<inter> span (q + of_nat (Suc (length ts))) (Suc (length zs)) = {}"
    by (rule span_disjoint) (use assms(3) in auto)
  then have "?e \<notin> span (?e + 1) (Suc (length zs))"
    unfolding span_single by (simp add: add_ac)
  with keep have "\<forall>a\<in>span (?e + 1) (Suc (length zs)). ld8 m' a = ld8 m a" by metis
  moreover have "cstr m (?e + 1) zs" using assms(1) by (simp add: cstr_append)
  ultimately have "cstr m' (?e + 1) zs" using cstr_frame by blast
  moreover have "cstr m' q ts"
    using assms(1) keep low bytes.ld_st [OF assms(2), of ?e] by (auto simp: cstr_append cstr_iff in_set_conv_nth nth_append)
  ultimately show ?thesis by simp
qed

lemma strtok_iter_ok:
  "\<lbrakk>cstr m q xs; cstr m d ds; null_unmapped m; length xs < 2 ^ 63; str = q \<or> str = 0 \<and> p = q;
    span q (Suc (length xs)) \<inter> span d (Suc (length ds)) = {}\<rbrakk> \<Longrightarrow>
   \<exists>rs m'. strtok_iter m p str d = Some (rs, m') \<and> list_all2 (cstr m') rs (tokens (set ds) xs) \<and>
     (\<forall>a. a \<notin> span q (length xs) \<longrightarrow> ld8 m' a = ld8 m a)"
proof (induction "length xs" arbitrary: m q xs str p rule: less_induct)
  case less
  define us where "us = takeWhile (\<lambda>x. x \<in> set ds) xs"
  define ys where "ys = dropWhile (\<lambda>x. x \<in> set ds) xs"
  define ts where "ts = takeWhile (\<lambda>x. x \<notin> set ds) ys"
  define rest where "rest = dropWhile (\<lambda>x. x \<notin> set ds) ys"
  have xs: "xs = us @ ys" "ys = ts @ rest"
    by (simp_all add: us_def ys_def ts_def rest_def)
  have toks: "tokens (set ds) xs = (if ys = [] then [] else ts # tokens (set ds) (drop 1 rest))"
    by (subst tokens.simps) (simp add: Let_def ys_def ts_def rest_def)
  have ts0: "ts = [] \<longleftrightarrow> ys = []"
    using hd_dropWhile [of "\<lambda>x. x \<in> set ds" xs] by (auto simp: ts_def ys_def takeWhile_eq_Nil_iff)
  let ?s = "q + of_nat (length us)"
  let ?e = "?s + of_nat (length ts)"
  have len: "length xs < 2 ^ 64" using less.prems(4) by simp
  note call = strtok_call [OF less.prems(1-3) len less.prems(5) xs(1) us_def xs(2) ts_def]
  have sys: "cstr m ?s ys" using less.prems(1) xs(1) by (simp add: cstr_append)
  have snz: "?s \<noteq> 0" using less.prems(3) cstr_mapped [OF sys, of 0] by auto
  consider "ts = []" | "ts \<noteq> []" "rest = []" | z zs where "ts \<noteq> []" "rest = z # zs"
    by (cases rest) auto
  then show ?case
  proof cases
    case 1
    then show ?thesis using call(1) ts0 toks by (subst strtok_iter.simps) simp
  next
    case 2
    then have "cstr m ?s ts" using sys xs(2) by simp
    have "strtok_iter m 0 0 d = Some ([], m)" by (subst strtok_iter.simps) (simp add: strtok_def)
    moreover have "tokens (set ds) (drop 1 rest) = []" using 2 by (subst tokens.simps) simp
    ultimately show ?thesis
      using 2 call(2) ts0 toks snz \<open>cstr m ?s ts\<close> by (subst strtok_iter.simps) simp
  next
    case (3 z zs)
    have zlen: "length zs < length xs" "length (ts @ z # zs) < 2 ^ 63"
      using xs 3 less.prems(4) by auto
    obtain m1 where m1: "st8 m ?e 0 = Some m1" "strtok m p str d = Some (?s, ?e + 1, m1)"
      using call(3) 3 by (auto simp: add_ac)
    have c1: "cstr m1 ?s ts \<and> cstr m1 (?e + 1) zs"
      using cstr_cut [OF _ m1(1) zlen(2)] sys xs 3 by simp
    have "span ?e 1 \<subseteq> span q (length xs)"
      using span_subset [of "length us + length ts" 1 "length xs" q] xs 3 by (simp add: add_ac)
    then have in_q: "?e \<in> span q (length xs)" "span (?e + 1) (length zs) \<subseteq> span q (length xs)"
        "span (?e + 1) (Suc (length zs)) \<subseteq> span q (Suc (length xs))"
      using span_subset [of "length us + length ts + 1" "length zs" "length xs" q]
        span_subset [of "length us + length ts + 1" "Suc (length zs)" "Suc (length xs)" q] xs 3
      unfolding span_single by (simp_all add: add_ac)
    have mono: "span q (length xs) \<subseteq> span q (Suc (length xs))"
      using span_subset [of 0 "length xs" "Suc (length xs)" q] by simp
    have keep: "ld8 m1 a = ld8 m a" if "a \<noteq> ?e" for a
      using bytes.ld_st [OF m1(1), of a] that by simp
    have "\<forall>a\<in>span d (Suc (length ds)). ld8 m1 a = ld8 m a"
      using keep in_q(1) mono less.prems(6) by (metis disjoint_iff subsetD)
    with less.prems(2) have "cstr m1 d ds" by (rule cstr_frame)
    moreover have "null_unmapped m1"
      using less.prems(3) m1(1) keep [of 0] by (cases "?e = 0") (auto simp: st8_def ld8_def split: option.splits)
    ultimately obtain rs m' where IH: "strtok_iter m1 (?e + 1) 0 d = Some (rs, m')"
        "list_all2 (cstr m') rs (tokens (set ds) zs)"
        "\<forall>a. a \<notin> span (?e + 1) (length zs) \<longrightarrow> ld8 m' a = ld8 m1 a"
      using less.hyps [OF zlen(1), of m1 "?e + 1" 0 "?e + 1"] c1 zlen less.prems(4,6) in_q(3) by force
    have e1: "?s + of_nat (Suc (length ts)) = ?e + 1" by simp
    have "span ?s (Suc (length ts)) \<inter> span (?s + of_nat (Suc (length ts))) (length zs) = {}"
      using span_disjoint [of 0 "Suc (length ts)" "Suc (length ts)" "length zs" ?s] zlen(2) by simp
    then have "\<forall>a\<in>span ?s (Suc (length ts)). ld8 m' a = ld8 m1 a"
      unfolding e1 using IH(3) by blast
    with c1 [THEN conjunct1] have "cstr m' ?s ts" by (rule cstr_frame)
    moreover have "ld8 m' a = ld8 m a" if "a \<notin> span q (length xs)" for a
    proof -
      have "a \<noteq> ?e" "a \<notin> span (?e + 1) (length zs)" using in_q(1,2) that by blast+
      with IH(3) keep show ?thesis by metis
    qed
    ultimately show ?thesis
      using 3 ts0 toks snz m1(2) IH(1,2) by (subst strtok_iter.simps) simp
  qed
qed

section \<open>Further operations\<close>

lemma strcat_ok:
  assumes "cstr m d xs" "cstr m s ys" "region m (d + of_nat (length xs)) (Suc (length ys))"
    and "span d (Suc (length xs + length ys)) \<inter> span s (Suc (length ys)) = {}"
    and "Suc (length xs + length ys) < 2 ^ 64"
  shows "\<exists>m'. strcat m d s = Some (d, m') \<and> cstr m' d (xs @ ys) \<and>
     (\<forall>q. q \<notin> span d (Suc (length xs + length ys)) \<longrightarrow> ld8 m' q = ld8 m q)"
proof -
  let ?e = "d + of_nat (length xs)"
  have sub: "span ?e (Suc (length ys)) \<subseteq> span d (Suc (length xs + length ys))"
    by (rule span_subset) simp
  obtain m' where m': "strcpy_loop m ?e s = Some m'" "cstr m' ?e ys"
      "\<forall>q. q \<notin> span ?e (Suc (length ys)) \<longrightarrow> ld8 m' q = ld8 m q"
    using strcpy_loop_ok [of m s ys ?e] assms sub by (auto simp del: length_0_conv)
  have "span (d + of_nat 0) (length xs) \<inter> span ?e (Suc (length ys)) = {}"
    by (rule span_disjoint) (use assms(5) in auto)
  moreover have "d + of_nat i \<in> span (d + of_nat 0) (length xs)" if "i < length xs" for i
    using that by (simp add: span_def)
  ultimately have "ld8 m' (d + of_nat i) = ld8 m (d + of_nat i)" if "i < length xs" for i
    using that m'(3) by blast
  then have "cstr m' d (xs @ ys)"
    using cstr_append [of m d xs "[]"] assms(1) m'(2) by (simp add: cstr_append)
  with m' sub show ?thesis
    by (auto simp: strcat_def strend_ok [OF assms(1)])
qed

lemma strncmp_loop_same:
  "\<lbrakk>cstr m s xs; cstr m t xs; ld8 m (s + of_nat (length xs) + 1) = None; Suc (length xs) < n\<rbrakk> \<Longrightarrow>
   strncmp_loop m s t n = None"
proof (induction xs arbitrary: s t n)
  case Nil
  then obtain k where "n = Suc (Suc k)" by (auto simp: Suc_less_eq2 gr0_conv_Suc)
  with Nil show ?case by (simp split: bind_split)
next
  case (Cons x xs)
  then obtain k where k: "n = Suc k" by (cases n) auto
  have "ld8 m (s + 1 + of_nat (length xs) + 1) = None"
    using Cons.prems(3) by (simp add: add_ac)
  with Cons.IH [of "s + 1" "t + 1" k] Cons.prems k show ?case by simp
qed

lemma strncpy_loop_bytes:
  "\<lbrakk>cstr m s ys; region m d n; span d n \<inter> span s (Suc (length ys)) = {}; n < 2 ^ 64\<rbrakk> \<Longrightarrow>
   \<exists>m'. strncpy_loop m d s n = Some m' \<and>
     (\<forall>i<n. ld8 m' (d + of_nat i) = Some (if i < length ys then ys ! i else 0)) \<and>
     (\<forall>q. q \<notin> span d n \<longrightarrow> ld8 m' q = ld8 m q)"
proof (induction n arbitrary: m d s ys)
  case (Suc n)
  note r = Suc.prems(2) [unfolded region_Suc]
  obtain x where x: "ld8 m s = Some x" "x = (if ys = [] then 0 else hd ys)" "x \<noteq> 0 \<longleftrightarrow> ys \<noteq> []"
    using Suc.prems(1) by (cases ys) auto
  obtain m1 where m1: "st8 m d x = Some m1"
    using r bytes.st_defined [of m d] by auto
  have keep: "ld8 m1 q = ld8 m q" if "q \<noteq> d" for q
    using bytes.ld_st [OF m1, of q] that by simp
  have d: "d \<notin> span (d + 1) n" using notin_span Suc.prems(4) by simp
  have r1: "region m1 (d + 1) n" using r region_frame [OF _ m1] by blast
  have "\<exists>m'. (if x \<noteq> 0 then strncpy_loop m1 (d + 1) (s + 1) n else fill_up m1 (d + 1) 0 n) = Some m' \<and>
     (\<forall>i<n. ld8 m' (d + 1 + of_nat i) = Some (if i < length (tl ys) then tl ys ! i else 0)) \<and>
     (\<forall>q. q \<notin> span (d + 1) n \<longrightarrow> ld8 m' q = ld8 m1 q)"
  proof (cases ys)
    case Nil
    with x fill_up_ok [OF r1, of 0] Suc.prems(4) show ?thesis by simp
  next
    case (Cons y zs)
    have sp: "span d (Suc n) \<inter> span s (Suc (Suc (length zs))) = {}" using Suc.prems(3) Cons by simp
    then have "d \<notin> span (s + 1) (Suc (length zs))" "span (d + 1) n \<inter> span (s + 1) (Suc (length zs)) = {}"
      unfolding span_Suc [of d] span_Suc [of s] by blast+
    moreover have "cstr m (s + 1) zs" using Suc.prems(1) Cons by simp
    note cstr_st8 [OF this m1]
    ultimately show ?thesis
      unfolding Cons list.sel
      using Suc.IH [of m1 "s + 1" zs "d + 1"] r1 Suc.prems(4) x Cons by (simp split del: if_split)
  qed
  then obtain m' where m': "(if x \<noteq> 0 then strncpy_loop m1 (d + 1) (s + 1) n else fill_up m1 (d + 1) 0 n) = Some m'"
     "\<forall>i<n. ld8 m' (d + 1 + of_nat i) = Some (if i < length (tl ys) then tl ys ! i else 0)"
     "\<forall>q. q \<notin> span (d + 1) n \<longrightarrow> ld8 m' q = ld8 m1 q" by blast
  have "ld8 m' d = Some x" using m'(3) d bytes.ld_st [OF m1, of d] by simp
  then have "\<forall>i<Suc n. ld8 m' (d + of_nat i) = Some (if i < length ys then ys ! i else 0)"
    using m'(2) x(2) by (cases ys) (auto simp: All_less_Suc2 add_ac)
  moreover have "\<forall>q. q \<notin> span d (Suc n) \<longrightarrow> ld8 m' q = ld8 m q"
    using m'(3) keep unfolding span_Suc by (metis insertCI)
  ultimately show ?case using m'(1) x(1) m1 by simp
qed simp

section \<open>Properties\<close>

definition text_mem :: mem where
  "text_mem = [0x1000 \<mapsto> 0x622C61, 0x2000 \<mapsto> 0x2C, 0x3000 \<mapsto> 0x6362, 0x4000 \<mapsto> 0x63622C61]"

lemma text_mem_strings:
  "cstr text_mem 0x1000 [0x61, 0x2C, 0x62]" "cstr text_mem 0x2000 [0x2C]"
  "cstr text_mem 0x3000 [0x62, 0x63]" "cstr text_mem 0x4000 [0x61, 0x2C, 0x62, 0x63]"
  "null_unmapped text_mem"
  by (simp_all add: text_mem_def ld8_def cell_of_def lane_of_def mask_eq_exp_minus_1 drop_bit_eq_div)

lemma region_sub: "region m p n \<Longrightarrow> k + j \<le> n \<Longrightarrow> region m (p + of_nat k) j"
  unfolding region_def by (metis add.assoc less_le_trans nat_add_left_cancel_less of_nat_add)

lemma text_mem_region: "region text_mem 0x1000 8"
proof -
  have "region text_mem 0x1000 (Suc (Suc (Suc (Suc (Suc (Suc (Suc (Suc 0))))))))"
    by (simp add: text_mem_def region_Suc ld8_def cell_of_def mask_eq_exp_minus_1)
  then show ?thesis by (simp add: eval_nat_numeral)
qed

lemmas text_mem_regions =
  region_sub [OF text_mem_region, of 4 4, simplified] region_sub [OF text_mem_region, of 2 4, simplified]
  region_sub [OF text_mem_region, of 4 3, simplified]

text \<open>
  C23: \<^verbatim>\<open>memmove\<close> copies a block correctly however source and destination
  overlap: whenever both blocks are mapped and do not wrap around the address space, every byte of
  the destination is the byte the source had before the call and nothing else changes.
\<close>
theorem memmove_correct:
  assumes "region m dest (unat n)" and "region m src (unat n)"
    and "unat dest + unat n \<le> 2 ^ 64" and "unat src + unat n \<le> 2 ^ 64"
  shows "\<exists>m'. memmove m dest src n = Some (dest, m') \<and>
     (\<forall>i<unat n. ld8 m' (dest + of_nat i) = ld8 m (src + of_nat i)) \<and>
     (\<forall>q. q \<notin> span dest (unat n) \<longrightarrow> ld8 m' q = ld8 m q)"
  using assms by (rule memmove_ok)

theorem memmove_correct_witness:
  "\<exists>m'. memmove text_mem 0x1004 0x1002 4 = Some (0x1004, m') \<and>
     (\<forall>i<4. ld8 m' (0x1004 + of_nat i) = ld8 text_mem (0x1002 + of_nat i))"
proof -
  have "region text_mem 0x1004 (unat (4 :: u64))" "region text_mem 0x1002 (unat (4 :: u64))"
    by (simp_all add: text_mem_regions)
  from memmove_correct [OF this] show ?thesis by auto
qed

text \<open>
  Copying a string into a mapped buffer that is large enough and does not
  overlap it terminates, the copy is the same string (same length, and \<^verbatim>\<open>strcmp\<close> of the copy and
  the original is 0 in both directions), the original is kept and no byte outside the buffer changes.
\<close>
theorem strcpy_correct:
  assumes "cstr m src xs" and "region m dest (Suc (length xs))"
    and "span dest (Suc (length xs)) \<inter> span src (Suc (length xs)) = {}" and "Suc (length xs) < 2 ^ 64"
  shows "\<exists>m'. strcpy m dest src = Some (dest, m') \<and> cstr m' dest xs \<and> cstr m' src xs \<and>
     strlen m' dest = Some (of_nat (length xs)) \<and> strcmp m' dest src = Some 0 \<and> strcmp m' src dest = Some 0 \<and>
     (\<forall>q. q \<notin> span dest (Suc (length xs)) \<longrightarrow> ld8 m' q = ld8 m q)"
proof -
  obtain m' where m': "strcpy_loop m dest src = Some m'" "cstr m' dest xs"
      "\<forall>q. q \<notin> span dest (Suc (length xs)) \<longrightarrow> ld8 m' q = ld8 m q"
    using strcpy_loop_ok [OF assms] by blast
  then have "\<forall>q\<in>span src (Suc (length xs)). ld8 m' q = ld8 m q"
    using assms(3) by blast
  with assms(1) have "cstr m' src xs" by (rule cstr_frame)
  moreover have "first_diff xs xs = 0" for xs by (induction xs) simp_all
  ultimately show ?thesis
    using m' by (simp add: strcpy_def strlen_ok strcmp_ok)
qed

theorem strcpy_correct_witness:
  "\<exists>m'. strcpy text_mem 0x1004 0x3000 = Some (0x1004, m') \<and> cstr m' 0x1004 [0x62, 0x63] \<and>
     strcmp m' 0x1004 0x3000 = Some 0"
proof -
  have a: "region text_mem 0x1004 (Suc (length [0x62, 0x63 :: u8]))"
    using text_mem_regions(3) by (simp add: eval_nat_numeral)
  have b: "span 0x1004 (Suc (length [0x62, 0x63 :: u8])) \<inter> span 0x3000 (Suc (length [0x62, 0x63 :: u8])) = {}"
    by (simp add: span_Suc)
  from strcpy_correct [OF text_mem_strings(3) a b] show ?thesis
    by (auto simp del: cstr.simps)
qed

text \<open>
  \<^verbatim>\<open>strcmp\<close> always returns on two strings, but its result is 0 exactly
  when the first string is a prefix of the second, not only when the two are equal.
\<close>
theorem strcmp_prefix:
  assumes "cstr m s xs" and "cstr m t ys"
  shows "\<exists>r. strcmp m s t = Some r \<and> (r = 0 \<longleftrightarrow> prefix xs ys)"
proof -
  have "0 \<notin> set xs" using assms(1) by (simp add: cstr_iff)
  with strcmp_ok [OF assms] show ?thesis by (simp add: first_diff_zero)
qed

theorem strcmp_prefix_witness:
  "\<exists>r. strcmp text_mem 0x1000 0x4000 = Some r \<and> r = 0 \<and> strlen text_mem 0x1000 \<noteq> strlen text_mem 0x4000"
  using strcmp_prefix [OF text_mem_strings(1,4)]
  by (simp add: strlen_ok [OF text_mem_strings(1)] strlen_ok [OF text_mem_strings(4)])

text \<open>
  \<^verbatim>\<open>strstr\<close> never reads outside its two strings and returns the first
  occurrence of the second in the first, or the null pointer when there is none (or when the first
  string is empty).
\<close>
theorem strstr_correct:
  assumes "cstr m s xs" and "cstr m t ys" and "length ys < 2 ^ 64"
  shows "strstr m s t =
     Some (if \<exists>i<length xs. prefix ys (drop i xs)
           then s + of_nat (LEAST i. prefix ys (drop i xs)) else NULL)"
  using strlen_ok [OF assms(2)] strstr_loop_ok [OF assms(2,3,1)] by (simp add: strstr_def)

theorem strstr_correct_witness: "strstr text_mem 0x4000 0x3000 = Some 0x4002"
proof -
  have "(LEAST i. prefix [0x62, 0x63 :: u8] (drop i [0x61, 0x2C, 0x62, 0x63])) = 2"
  proof (rule Least_equality)
    fix i :: nat
    assume "prefix [0x62, 0x63 :: u8] (drop i [0x61, 0x2C, 0x62, 0x63])"
    then show "2 \<le> i" by (cases i; cases "i - 1") auto
  qed simp
  moreover have "\<exists>i<length [0x61, 0x2C, 0x62, 0x63 :: u8]. prefix [0x62, 0x63 :: u8] (drop i [0x61, 0x2C, 0x62, 0x63])"
    by (rule exI [of _ 2]) simp
  ultimately show ?thesis
    using strstr_correct [OF text_mem_strings(4,3)] by simp
qed

text \<open>
  C25: calling \<^verbatim>\<open>strtok\<close> on a string and then repeatedly with a null pointer
  until it returns null terminates, and the pointers returned are exactly the tokens of the string:
  the maximal runs of characters that are not delimiters, in order. Only bytes of the string are written.
\<close>
theorem strtok_correct:
  assumes "cstr m s xs" and "cstr m d ds" and "null_unmapped m" and "length xs < 2 ^ 63"
    and "span s (Suc (length xs)) \<inter> span d (Suc (length ds)) = {}"
  shows "\<exists>rs m'. strtok_iter m p s d = Some (rs, m') \<and> list_all2 (cstr m') rs (tokens (set ds) xs) \<and>
     (\<forall>a. a \<notin> span s (length xs) \<longrightarrow> ld8 m' a = ld8 m a)"
  using strtok_iter_ok [OF assms(1-4) _ assms(5)] by blast

theorem strtok_correct_witness:
  "\<exists>rs m'. strtok_iter text_mem 0 0x1000 0x2000 = Some (rs, m') \<and> list_all2 (cstr m') rs [[0x61], [0x62]]"
proof -
  have "tokens (set [0x2C]) [0x61, 0x2C, 0x62] = [[0x61], [0x62]]"
    by (simp add: tokens.simps)
  moreover have "span 0x1000 (Suc (length [0x61, 0x2C, 0x62 :: u8])) \<inter> span 0x2000 (Suc (length [0x2C :: u8])) = {}"
    by (simp add: span_Suc)
  ultimately show ?thesis
    using strtok_correct [OF text_mem_strings(1,2,5), of 0] by auto
qed

text \<open>
  \<^verbatim>\<open>strncmp\<close> does not stop at the terminating zero byte: comparing a
  string with an equal one and a larger bound reads past the end of both, and faults when that byte
  is not mapped.
\<close>
theorem strncmp_overrun:
  assumes "cstr m s xs" and "cstr m t xs" and "ld8 m (s + of_nat (length xs) + 1) = None"
    and "Suc (length xs) < unat n"
  shows "strncmp m s t n = None"
  using strncmp_loop_same [OF assms] by (simp add: strncmp_def)

theorem strncmp_overrun_witness:
  "strncmp [0x1000 \<mapsto> 0x0061616161616161, 0x2000 \<mapsto> 0x0061616161616161] 0x1000 0x2000 16 = None"
  by (rule strncmp_overrun [where xs = "[0x61, 0x61, 0x61, 0x61, 0x61, 0x61, 0x61]"])
    (simp_all add: ld8_def cell_of_def lane_of_def mask_eq_exp_minus_1 drop_bit_eq_div)

end
