(* ===== verification/Page_Allocator.thy ===== *)
theory Page_Allocator
  imports Prelude
begin

text \<open>
  What the physical memory manager promises to its clients (paging, the task state segment, the
  device drivers): a state \<open>s\<close> with \<open>inv s F\<close> owns the free pages \<open>F\<close>; allocation either
  returns a null pointer and keeps \<open>F\<close>, or takes the pages it returns out of \<open>F\<close>, and release
  puts pages back.
\<close>

definition page_addr :: "nat \<Rightarrow> u64" where
  "page_addr p = of_nat p * 0x1000"

definition run_of :: "nat \<times> nat \<Rightarrow> nat set" where
  "run_of a = {fst a..<fst a + snd a}"

primrec alloc_all :: "(u64 \<Rightarrow> 's \<Rightarrow> (u64 \<times> 's) option) \<Rightarrow> nat list \<Rightarrow> 's \<Rightarrow> ((u64 \<times> nat) list \<times> 's) option" where
  "alloc_all alloc [] s = Some ([], s)"
| "alloc_all alloc (n # ns) s = do {
     (r, s) \<leftarrow> alloc (of_nat n) s;
     (rs, s) \<leftarrow> alloc_all alloc ns s;
     Some (if r = 0 then rs else (r, n) # rs, s) }"

locale page_allocator =
  fixes inv :: "'s \<Rightarrow> nat set \<Rightarrow> bool"
    and alloc :: "u64 \<Rightarrow> 's \<Rightarrow> (u64 \<times> 's) option"
    and release :: "u64 \<Rightarrow> u64 \<Rightarrow> 's \<Rightarrow> 's option"
    and limit :: nat
  assumes alloc_law: "\<lbrakk>inv s F; 0 < n; n \<le> 64\<rbrakk> \<Longrightarrow> \<exists>r s'. alloc (of_nat n) s = Some (r, s') \<and>
      (r = 0 \<and> inv s' F \<or>
       (\<exists>p. p \<noteq> 0 \<and> r = page_addr p \<and> run_of (p, n) \<subseteq> F \<and> inv s' (F - run_of (p, n))))"
    and release_law: "\<lbrakk>inv s F; 0 < n; p \<noteq> 0; p + n \<le> limit; run_of (p, n) \<inter> F = {}\<rbrakk> \<Longrightarrow>
      \<exists>s'. release (page_addr p) (of_nat n) s = Some s' \<and> inv s' (F \<union> run_of (p, n))"
    and bound_law: "inv s F \<Longrightarrow> F \<subseteq> {..<limit} \<and> limit * 0x1000 \<le> 2 ^ 64"
begin

lemma page_addr_nz: "\<lbrakk>inv s F; p \<in> F; p \<noteq> 0\<rbrakk> \<Longrightarrow> page_addr p \<noteq> 0"
proof -
  assume a: "inv s F" "p \<in> F" "p \<noteq> 0"
  then have "p < limit" "limit * 0x1000 \<le> 2 ^ 64" using bound_law by blast+
  then have "p * 0x1000 < 2 ^ 64" by linarith
  then have "unat (page_addr p) = p * 0x1000" by (simp add: page_addr_def unat_word_ariths unat_of_nat)
  with a show ?thesis by auto
qed

lemma alloc_release:
  assumes "inv s F" "0 < n" "n \<le> 64" "alloc (of_nat n) s = Some (r, s')" "r \<noteq> 0"
  shows "\<exists>s''. release r (of_nat n) s' = Some s'' \<and> inv s'' F"
proof -
  obtain p where p: "p \<noteq> 0" "r = page_addr p" "run_of (p, n) \<subseteq> F" "inv s' (F - run_of (p, n))"
    using alloc_law [OF assms(1-3)] assms(4,5) by auto
  have "p + n - 1 \<in> run_of (p, n)" using assms(2) by (simp add: run_of_def)
  then have "p + n - 1 < limit" using p(3) bound_law [OF assms(1)] by blast
  then have "p + n \<le> limit" by linarith
  then obtain s'' where "release r (of_nat n) s' = Some s''" "inv s'' (F - run_of (p, n) \<union> run_of (p, n))"
    using release_law [OF p(4) assms(2) p(1)] p(2) by blast
  moreover have "F - run_of (p, n) \<union> run_of (p, n) = F" using p(3) by blast
  ultimately show ?thesis by auto
qed

lemma alloc_all_disjoint:
  "\<lbrakk>inv s F; \<forall>n\<in>set ns. 0 < n \<and> n \<le> 64\<rbrakk> \<Longrightarrow>
   \<exists>ps s'. alloc_all alloc ns s = Some (map (\<lambda>(p, n). (page_addr p, n)) ps, s') \<and>
     (\<forall>a\<in>set ps. run_of a \<subseteq> F) \<and> sorted_wrt (\<lambda>a b. run_of a \<inter> run_of b = {}) ps \<and>
     inv s' (F - (\<Union>a\<in>set ps. run_of a))"
proof (induction ns arbitrary: s F)
  case Nil
  then show ?case by (intro exI [of _ "[]"]) simp
next
  case (Cons n ns)
  have n: "0 < n" "n \<le> 64" and ns: "\<forall>n\<in>set ns. 0 < n \<and> n \<le> 64" using Cons.prems(2) by simp_all
  obtain r s1 where a: "alloc (of_nat n) s = Some (r, s1)" and
    alt: "r = 0 \<and> inv s1 F \<or>
       (\<exists>p. p \<noteq> 0 \<and> r = page_addr p \<and> run_of (p, n) \<subseteq> F \<and> inv s1 (F - run_of (p, n)))"
    using alloc_law [OF Cons.prems(1) n] by blast
  from alt show ?case
  proof (elim disjE exE conjE)
    assume r: "r = 0" "inv s1 F"
    have "alloc_all alloc (n # ns) s = alloc_all alloc ns s1"
      using a r(1) by (cases "alloc_all alloc ns s1") auto
    then show ?thesis using Cons.IH [OF r(2) ns] by simp
  next
    fix p
    assume p: "p \<noteq> 0" "r = page_addr p" "run_of (p, n) \<subseteq> F" "inv s1 (F - run_of (p, n))"
    obtain ps s' where ps: "alloc_all alloc ns s1 = Some (map (\<lambda>(p, n). (page_addr p, n)) ps, s')"
        "\<forall>a\<in>set ps. run_of a \<subseteq> F - run_of (p, n)" "sorted_wrt (\<lambda>a b. run_of a \<inter> run_of b = {}) ps"
        "inv s' (F - run_of (p, n) - (\<Union>a\<in>set ps. run_of a))"
      using Cons.IH [OF p(4) ns] by blast
    have "p \<in> run_of (p, n)" using n by (simp add: run_of_def)
    with p(3) have "p \<in> F" by blast
    then have "r \<noteq> 0" unfolding p(2) by (rule page_addr_nz [OF Cons.prems(1) _ p(1)])
    then have "alloc_all alloc (n # ns) s = Some (map (\<lambda>(p, n). (page_addr p, n)) ((p, n) # ps), s')"
      using a ps(1) p(2) by simp
    moreover have "F - run_of (p, n) - (\<Union>a\<in>set ps. run_of a) = F - (\<Union>a\<in>set ((p, n) # ps). run_of a)" by auto
    moreover have "\<forall>a\<in>set ((p, n) # ps). run_of a \<subseteq> F" using ps(2) p(3) by auto
    moreover have "sorted_wrt (\<lambda>a b. run_of a \<inter> run_of b = {}) ((p, n) # ps)"
      using ps(2,3) by (simp only: sorted_wrt.simps) blast
    ultimately show ?thesis using ps(4) by metis
  qed
qed

end

end
