(* ===== verification/Pmm.thy ===== *)
theory Pmm
  imports CString Page_Allocator
begin

text \<open>
  The physical memory manager: \<^verbatim>\<open>mm/pmm/pmm.c\<close>, a buddy allocator over seven bitmaps that lie one
  after the other in memory, a clear bit being a free block of \<open>2^i\<close> pages. The operations are
  definitions over a state with the memory that holds the bitmaps (\<open>None\<close> is a fault).
\<close>

section \<open>State\<close>

record bitmap_stat_t =
  bm_base :: u64
  bm_free :: u64
  bm_size :: u64

record limine_memmap_entry =
  mbase :: u64
  mlength :: u64
  mtype :: u64

record pmm =
  pm :: mem
  mmap_entries :: "limine_memmap_entry list"
  mem_size :: u64
  bitmap_size :: u64
  bitmap_base :: u64
  free_mem :: u64
  bitmaps :: "bitmap_stat_t list"

definition PAGE_SIZE :: u64 where "PAGE_SIZE = 0x1000"
definition NUM_BITMAPS :: nat where "NUM_BITMAPS = 7"
definition LIMINE_MEMMAP_USABLE :: u64 where "LIMINE_MEMMAP_USABLE = 0"
definition LIMINE_MEMMAP_RESERVED :: u64 where "LIMINE_MEMMAP_RESERVED = 1"

section \<open>Bits\<close>

definition pmmSetBit :: "mem \<Rightarrow> u64 \<Rightarrow> u64 \<Rightarrow> mem option" where
  "pmmSetBit m b index = do {
     let bt = unat (index mod 8);
     let byte = index div 8;
     x \<leftarrow> ld8 m (b + byte);
     st8 m (b + byte) (x OR push_bit bt 1) }"

definition pmmClearBit :: "mem \<Rightarrow> u64 \<Rightarrow> u64 \<Rightarrow> mem option" where
  "pmmClearBit m b index = do {
     let bt = unat (index mod 8);
     let byte = index div 8;
     x \<leftarrow> ld8 m (b + byte);
     st8 m (b + byte) (x AND NOT (push_bit bt 1)) }"

definition pmmCheckBit :: "mem \<Rightarrow> u64 \<Rightarrow> u64 \<Rightarrow> u8 option" where
  "pmmCheckBit m b index = do {
     let bt = unat (index mod 8);
     let byte = index div 8;
     x \<leftarrow> ld8 m (b + byte);
     Some (drop_bit bt x AND 1) }"

fun status_in :: "limine_memmap_entry list \<Rightarrow> u64 \<Rightarrow> u64" where
  "status_in [] page = LIMINE_MEMMAP_RESERVED"
| "status_in (e # es) page =
     (if mbase e div PAGE_SIZE \<le> page \<and> page < (mbase e + mlength e) div PAGE_SIZE then mtype e
      else status_in es page)"

definition pmmGetStatusFromMMap :: "pmm \<Rightarrow> u64 \<Rightarrow> u8" where
  "pmmGetStatusFromMMap s page = ucast (status_in (mmap_entries s) page)"

definition pmmGetFreeMem :: "pmm \<Rightarrow> u64" where
  "pmmGetFreeMem s = free_mem s"

definition pmmUpdateBitmapBase :: "pmm \<Rightarrow> u64 \<Rightarrow> pmm" where
  "pmmUpdateBitmapBase s offset =
     s\<lparr>bitmap_base := bitmap_base s + offset,
       bitmaps := map (\<lambda>b. b\<lparr>bm_base := bm_base b + offset\<rparr>) (bitmaps s)\<rparr>"

definition L_CHILD :: "u64 \<Rightarrow> u64" where "L_CHILD index = index * 2"
definition R_CHILD :: "u64 \<Rightarrow> u64" where "R_CHILD index = index * 2 + 1"
definition PARENT :: "u64 \<Rightarrow> u64" where "PARENT index = index div 2"

text \<open>The four statements the code is made of, on bitmap number \<open>i\<close> of the state.\<close>

definition set_bit_at :: "nat \<Rightarrow> u64 \<Rightarrow> pmm \<Rightarrow> pmm option" where
  "set_bit_at i j s = do { m \<leftarrow> pmmSetBit (pm s) (bm_base (bitmaps s ! i)) j; Some (s\<lparr>pm := m\<rparr>) }"

definition clear_bit_at :: "nat \<Rightarrow> u64 \<Rightarrow> pmm \<Rightarrow> pmm option" where
  "clear_bit_at i j s = do { m \<leftarrow> pmmClearBit (pm s) (bm_base (bitmaps s ! i)) j; Some (s\<lparr>pm := m\<rparr>) }"

definition check_bit_at :: "nat \<Rightarrow> u64 \<Rightarrow> pmm \<Rightarrow> u8 option" where
  "check_bit_at i j s = pmmCheckBit (pm s) (bm_base (bitmaps s ! i)) j"

definition add_free :: "nat \<Rightarrow> u64 \<Rightarrow> pmm \<Rightarrow> pmm" where
  "add_free i d s = s\<lparr>bitmaps := (bitmaps s)[i := (bitmaps s ! i)\<lparr>bm_free := bm_free (bitmaps s ! i) + d\<rparr>]\<rparr>"

section \<open>Allocation\<close>

primrec pmmPropagateDown :: "u64 \<Rightarrow> nat \<Rightarrow> u64 \<Rightarrow> pmm \<Rightarrow> pmm option" where
  "pmmPropagateDown pages 0 index s = Some s"
| "pmmPropagateDown pages (Suc l) index s =
     (if pages = push_bit (Suc l) 1 then Some s
      else if pages \<le> push_bit l 1 then do {
        s \<leftarrow> pmmPropagateDown pages l (L_CHILD index) s;
        s \<leftarrow> clear_bit_at l (R_CHILD index) s;
        Some (add_free l 1 s) }
      else pmmPropagateDown (pages - push_bit l 1) l (R_CHILD index) s)"

partial_function (option) top_bit :: "u64 \<Rightarrow> u64 option" where
  "top_bit tmp = (if tmp AND (tmp - 1) \<noteq> 0 then top_bit (tmp AND (tmp - 1)) else Some tmp)"

partial_function (option) log_loop :: "u64 \<Rightarrow> nat \<Rightarrow> nat option" where
  "log_loop tmp index =
     (let tmp = drop_bit 1 tmp in if tmp \<noteq> 0 then log_loop tmp (index + 1) else Some index)"

definition pmalloc_take :: "u64 \<Rightarrow> nat \<Rightarrow> u64 \<Rightarrow> pmm \<Rightarrow> (u64 \<times> pmm) option" where
  "pmalloc_take pages i j s = do {
     s \<leftarrow> set_bit_at i j s;
     let s = add_free i (- 1) s;
     s \<leftarrow> (if i \<noteq> NUM_BITMAPS - 1 then do {
            c \<leftarrow> check_bit_at (i + 1) (PARENT j) s;
            if c = 0 then do {
              s \<leftarrow> set_bit_at (i + 1) (PARENT j) s;
              let s = add_free (i + 1) (- 1) s;
              s \<leftarrow> clear_bit_at i (j + 1) s;
              Some (add_free i 1 s) }
            else Some s }
          else Some s);
     s \<leftarrow> pmmPropagateDown pages i j s;
     Some (j * push_bit i PAGE_SIZE, s\<lparr>free_mem := free_mem s - pages * PAGE_SIZE\<rparr>) }"

partial_function (option) pmalloc_scan :: "u64 \<Rightarrow> nat \<Rightarrow> u64 \<Rightarrow> pmm \<Rightarrow> (u64 \<times> pmm) option option" where
  "pmalloc_scan pages i j s =
     (if j < bm_size (bitmaps s ! i) * 8 then do {
        c \<leftarrow> check_bit_at i j s;
        if c = 0 then do { r \<leftarrow> pmalloc_take pages i j s; Some (Some r) }
        else pmalloc_scan pages i (j + 1) s }
      else Some None)"

partial_function (option) pmalloc_levels :: "u64 \<Rightarrow> nat \<Rightarrow> pmm \<Rightarrow> (u64 \<times> pmm) option" where
  "pmalloc_levels pages i s =
     (if i < NUM_BITMAPS then do {
        r \<leftarrow> pmalloc_scan pages i 0 s;
        (case r of None \<Rightarrow> pmalloc_levels pages (i + 1) s | Some r \<Rightarrow> Some r) }
      else Some (NULL, s))"

definition pmalloc :: "u64 \<Rightarrow> pmm \<Rightarrow> (u64 \<times> pmm) option" where
  "pmalloc pages s =
     (if pages = 0 then Some (NULL, s)
      else do {
        tmp \<leftarrow> top_bit (pages - 1);
        let tmp = push_bit 1 tmp;
        if push_bit (NUM_BITMAPS - 1) 1 < tmp then Some (NULL, s)
        else do { index \<leftarrow> log_loop tmp 0; pmalloc_levels pages index s } })"

section \<open>Release\<close>

definition merge_pair :: "nat \<Rightarrow> u64 \<Rightarrow> u64 \<Rightarrow> u64 \<Rightarrow> pmm \<Rightarrow> pmm option" where
  "merge_pair level i a b s = do {
     c \<leftarrow> check_bit_at level a s;
     d \<leftarrow> (if c = 0 then check_bit_at level b s else Some 1);
     if c = 0 \<and> d = 0 then do {
       s \<leftarrow> clear_bit_at (level + 1) (PARENT i) s;
       let s = add_free (level + 1) 1 s;
       s \<leftarrow> set_bit_at level a s;
       s \<leftarrow> set_bit_at level b s;
       Some (add_free level (- 2) s) }
     else Some s }"

partial_function (option) coalesce_even :: "nat \<Rightarrow> u64 \<Rightarrow> u64 \<Rightarrow> pmm \<Rightarrow> pmm option" where
  "coalesce_even level i last0 s =
     (if i < last0 then do { s \<leftarrow> merge_pair level i i (i + 1) s; coalesce_even level (i + 2) last0 s }
      else Some s)"

partial_function (option) coalesce_odd :: "nat \<Rightarrow> u64 \<Rightarrow> u64 \<Rightarrow> pmm \<Rightarrow> pmm option" where
  "coalesce_odd level i last0 s =
     (if i < last0 then do { s \<leftarrow> merge_pair level i (i - 1) i s; coalesce_odd level (i + 2) last0 s }
      else Some s)"

partial_function (option) coalesce :: "u64 \<Rightarrow> nat \<Rightarrow> u64 \<Rightarrow> pmm \<Rightarrow> pmm option" where
  "coalesce pages level index s = do {
     s \<leftarrow> (if index mod 2 = 0 then coalesce_even level index (index + pages) s
          else coalesce_odd level index (index + pages) s);
     if level + 1 \<noteq> NUM_BITMAPS - 1 then coalesce (pages div 2) (level + 1) (PARENT index) s
     else Some s }"

partial_function (option) pfree_loop :: "u64 \<Rightarrow> u64 \<Rightarrow> pmm \<Rightarrow> pmm option" where
  "pfree_loop i last0 s =
     (if i < last0 then do { s \<leftarrow> clear_bit_at 0 i s; pfree_loop (i + 1) last0 (add_free 0 1 s) }
      else Some s)"

definition pfree :: "u64 \<Rightarrow> u64 \<Rightarrow> pmm \<Rightarrow> pmm option" where
  "pfree pptr pages s =
     (if pptr = NULL \<or> pages = 0 then Some s
      else do {
        let index = pptr div PAGE_SIZE;
        s \<leftarrow> pfree_loop index (index + pages) s;
        s \<leftarrow> coalesce pages 0 index s;
        Some (s\<lparr>free_mem := free_mem s + pages * PAGE_SIZE\<rparr>) })"

section \<open>Initialisation\<close>

fun find_entry :: "limine_memmap_entry list \<Rightarrow> u64 \<Rightarrow> nat" where
  "find_entry [] bsize = 0"
| "find_entry (e # es) bsize =
     (if bsize \<le> mlength e \<and> mtype e = LIMINE_MEMMAP_USABLE then 0 else Suc (find_entry es bsize))"

definition fill_bitmap :: "nat \<Rightarrow> pmm \<Rightarrow> pmm option" where
  "fill_bitmap i s = do {
     m \<leftarrow> fill_up (pm s) (bm_base (bitmaps s ! i)) 0xFF (unat (bm_size (bitmaps s ! i)));
     Some (s\<lparr>pm := m\<rparr>) }"

partial_function (option) init_usable :: "u64 \<Rightarrow> pmm \<Rightarrow> pmm option" where
  "init_usable i s =
     (if i < bm_size (bitmaps s ! 0) * 8 then do {
        s \<leftarrow> (if pmmGetStatusFromMMap s i = ucast LIMINE_MEMMAP_USABLE
             then do { s \<leftarrow> clear_bit_at 0 i s; Some (add_free 0 1 s) } else Some s);
        init_usable (i + 1) s }
      else Some s)"

partial_function (option) init_merge :: "nat \<Rightarrow> u64 \<Rightarrow> pmm \<Rightarrow> pmm option" where
  "init_merge i j s =
     (if j < bm_size (bitmaps s ! i) * 8 then do {
        a \<leftarrow> check_bit_at (i - 1) (L_CHILD j) s;
        b \<leftarrow> (if a = 0 then check_bit_at (i - 1) (R_CHILD j) s else Some 1);
        s \<leftarrow> (if a = 0 \<and> b = 0 then do { s \<leftarrow> clear_bit_at i j s; Some (add_free i 1 s) } else Some s);
        init_merge i (j + 1) s }
      else Some s)"

partial_function (option) init_prune :: "nat \<Rightarrow> u64 \<Rightarrow> pmm \<Rightarrow> pmm option" where
  "init_prune i j s =
     (if j < bm_size (bitmaps s ! i) * 8 then do {
        c \<leftarrow> check_bit_at (i + 1) (PARENT j) s;
        s \<leftarrow> (if c = 0 then do { s \<leftarrow> set_bit_at i j s; Some (add_free i (- 1) s) } else Some s);
        init_prune i (j + 1) s }
      else Some s)"

definition init_layout :: "limine_memmap_entry list \<Rightarrow> mem \<Rightarrow> pmm option" where
  "init_layout entries m =
     (if entries = [] then None
      else
        let e = last entries;
            msize = mbase e + mlength e - 2 * push_bit 30 1;
            init_size = (msize div PAGE_SIZE) div 8;
            sizes = map (\<lambda>i. drop_bit i init_size) [0..<NUM_BITMAPS];
            bsize = sum_list sizes;
            index = find_entry entries bsize
        in if index < length entries then
             let e = entries ! index;
                 b0 = mbase e
             in Some \<lparr>pm = m,
                  mmap_entries = entries[index := e\<lparr>mbase := b0 + bsize, mlength := mlength e - bsize\<rparr>],
                  mem_size = msize, bitmap_size = bsize, bitmap_base = b0, free_mem = 0,
                  bitmaps = map (\<lambda>i. \<lparr>bm_base = b0 + sum_list (take i sizes), bm_free = 0, bm_size = sizes ! i\<rparr>)
                    [0..<NUM_BITMAPS]\<rparr>
           else None)"

definition initPMM :: "limine_memmap_entry list \<Rightarrow> mem \<Rightarrow> pmm option" where
  "initPMM entries m = do {
     s \<leftarrow> init_layout entries m;
     s \<leftarrow> for_each fill_bitmap [0..<NUM_BITMAPS] s;
     s \<leftarrow> init_usable 0 s;
     s \<leftarrow> for_each (\<lambda>i. init_merge i 0) [1..<NUM_BITMAPS] s;
     s \<leftarrow> for_each (\<lambda>i. init_prune i 0) [0..<NUM_BITMAPS - 1] s;
     Some (s\<lparr>free_mem := sum_list (map (\<lambda>i. bm_free (bitmaps s ! i) * push_bit i PAGE_SIZE) [0..<NUM_BITMAPS])\<rparr>) }"

section \<open>Blocks of pages\<close>

type_synonym levels = "nat \<Rightarrow> nat \<Rightarrow> bool"

definition valid :: "nat \<Rightarrow> nat \<Rightarrow> nat \<Rightarrow> bool" where
  "valid S i j \<longleftrightarrow> i < 7 \<and> j < 8 * (S div 2 ^ i)"

definition block :: "nat \<Rightarrow> nat \<Rightarrow> nat set" where
  "block i j = {j * 2 ^ i..<Suc j * 2 ^ i}"

definition upd :: "levels \<Rightarrow> nat \<Rightarrow> nat \<Rightarrow> bool \<Rightarrow> levels" where
  "upd B i j v = (\<lambda>i' j'. if i' = i \<and> j' = j then v else B i' j')"

definition free_pages :: "nat \<Rightarrow> levels \<Rightarrow> nat set" where
  "free_pages S B = {p. \<exists>i j. valid S i j \<and> \<not> B i j \<and> p \<in> block i j}"

definition disj :: "nat \<Rightarrow> levels \<Rightarrow> bool" where
  "disj S B \<longleftrightarrow> (\<forall>i j i' j'. valid S i j \<longrightarrow> valid S i' j' \<longrightarrow> \<not> B i j \<longrightarrow> \<not> B i' j' \<longrightarrow> (i, j) \<noteq> (i', j') \<longrightarrow>
     block i j \<inter> block i' j' = {})"

lemma block_nonempty [simp]: "block i j \<noteq> {}"
  by (simp add: block_def)

lemma take_block:
  assumes d: "disj S B" and v: "valid S i j" and b: "\<not> B i j"
  shows "disj S (upd B i j True)" "free_pages S (upd B i j True) = free_pages S B - block i j"
    "block i j \<subseteq> free_pages S B"
proof -
  show "disj S (upd B i j True)" using d by (auto simp: disj_def upd_def)
  show "block i j \<subseteq> free_pages S B" using v b by (auto simp: free_pages_def)
  have "p \<in> free_pages S (upd B i j True) \<longleftrightarrow> p \<in> free_pages S B - block i j" for p
  proof
    assume "p \<in> free_pages S (upd B i j True)"
    then obtain i' j' where "valid S i' j'" "\<not> B i' j'" "(i', j') \<noteq> (i, j)" "p \<in> block i' j'"
      by (auto simp: free_pages_def upd_def split: if_splits)
    moreover from this have "block i' j' \<inter> block i j = {}"
      using d v b unfolding disj_def by blast
    ultimately show "p \<in> free_pages S B - block i j" by (auto simp: free_pages_def)
  qed (auto simp: free_pages_def upd_def split: if_splits)
  then show "free_pages S (upd B i j True) = free_pages S B - block i j" by blast
qed

lemma give_block:
  assumes d: "disj S B" and v: "valid S i j" and b: "block i j \<inter> free_pages S B = {}"
  shows "B i j" "disj S (upd B i j False)" "free_pages S (upd B i j False) = free_pages S B \<union> block i j"
proof -
  show "B i j"
  proof (rule ccontr)
    assume "\<not> B i j"
    then have "block i j \<subseteq> free_pages S B" using v by (auto simp: free_pages_def)
    with b show False using block_nonempty [of i j] by blast
  qed
  have apart: "block i j \<inter> block i' j' = {}" if "valid S i' j'" "\<not> B i' j'" for i' j'
    using b that by (auto simp: free_pages_def)
  then show "disj S (upd B i j False)"
    using d unfolding disj_def upd_def by (auto split: if_splits)
  show "free_pages S (upd B i j False) = free_pages S B \<union> block i j"
    using v \<open>B i j\<close> by (auto simp: free_pages_def upd_def split: if_splits)
qed

section \<open>The bitmaps as a store of bits\<close>

definition off :: "nat \<Rightarrow> nat \<Rightarrow> nat" where
  "off S i = (\<Sum>k<i. S div 2 ^ k)"

definition byte_at :: "u64 \<Rightarrow> nat \<Rightarrow> nat \<Rightarrow> nat \<Rightarrow> u64" where
  "byte_at b0 S i j = b0 + of_nat (off S i) + of_nat j div 8"

definition ldb :: "u64 \<Rightarrow> nat \<Rightarrow> mem \<Rightarrow> nat \<times> nat \<Rightarrow> bool option" where
  "ldb b0 S m a = (case a of (i, j) \<Rightarrow>
     if valid S i j \<and> S < 2 ^ 49 then map_option (\<lambda>x. bit x (j mod 8)) (ld8 m (byte_at b0 S i j)) else None)"

definition stb :: "u64 \<Rightarrow> nat \<Rightarrow> mem \<Rightarrow> nat \<times> nat \<Rightarrow> bool \<Rightarrow> mem option" where
  "stb b0 S m a v = (case a of (i, j) \<Rightarrow>
     if valid S i j \<and> S < 2 ^ 49
     then (if v then pmmSetBit else pmmClearBit) m (b0 + of_nat (off S i)) (of_nat j) else None)"

lemma off_Suc [simp]: "off S (Suc i) = off S i + S div 2 ^ i"
  by (simp add: off_def)

lemma off_mono: "i \<le> k \<Longrightarrow> off S i \<le> off S k"
  unfolding off_def by (rule sum_mono2) auto

lemma off_bound: "off S i \<le> i * S"
  unfolding off_def by (rule order_trans [OF sum_bounded_above [of _ _ S]]) auto

lemma valid_byte:
  assumes "valid S i j" "S < 2 ^ 49"
  shows "of_nat j div 8 = (of_nat (j div 8) :: u64)" "unat (of_nat j mod 8 :: u64) = j mod 8"
    "off S i + j div 8 < off S (Suc i)" "off S i + j div 8 < 2 ^ 52"
proof -
  have j: "j < 8 * (S div 2 ^ i)" "i < 7" using assms by (auto simp: valid_def)
  have "S div 2 ^ i \<le> S" by simp
  with j(1) have "j < 8 * S" by linarith
  with assms(2) have small: "j < 2 ^ 52" by simp
  then have "unat (of_nat j :: u64) = j" by (simp add: unat_of_nat)
  then show "of_nat j div 8 = (of_nat (j div 8) :: u64)" "unat (of_nat j mod 8 :: u64) = j mod 8"
    by (simp_all add: word_unat_eq_iff unat_div unat_mod unat_of_nat)
  show off: "off S i + j div 8 < off S (Suc i)" using j by auto
  also have "off S (Suc i) \<le> off S 7" using j(2) by (intro off_mono) simp
  also have "\<dots> \<le> 7 * S" by (rule off_bound)
  finally show "off S i + j div 8 < 2 ^ 52" using assms by simp
qed

lemma byte_at_eq:
  assumes "valid S i j" "S < 2 ^ 49"
  shows "byte_at b0 S i j = b0 + of_nat (off S i + j div 8)"
  by (simp add: byte_at_def valid_byte(1) [OF assms])

lemma byte_at_inj:
  assumes "valid S i j" "valid S i' j'" "S < 2 ^ 49" "byte_at b0 S i j = byte_at b0 S i' j'"
  shows "i = i' \<and> j div 8 = j' div 8"
proof -
  have "off S i + j div 8 = off S i' + j' div 8"
    using assms inj_onD [OF inj_offset [of "2 ^ 52" b0], of "off S i + j div 8" "off S i' + j' div 8"]
      valid_byte(4) [OF assms(1,3)] valid_byte(4) [OF assms(2,3)]
    by (simp add: byte_at_eq)
  moreover have "i = i'"
  proof (rule ccontr)
    assume "i \<noteq> i'"
    then consider "Suc i \<le> i'" | "Suc i' \<le> i" by linarith
    then show False
      using calculation valid_byte(3) [OF assms(1,3)] valid_byte(3) [OF assms(2,3)]
        off_mono [of "Suc i" i' S] off_mono [of "Suc i'" i S]
      by cases linarith+
  qed
  ultimately show ?thesis by simp
qed

interpretation pbits: storage "ldb b0 S" "stb b0 S" for b0 S
proof
  fix m a v
  assume "ldb b0 S m a \<noteq> None"
  then obtain i j x where a: "a = (i, j)" "valid S i j" "S < 2 ^ 49" "ld8 m (byte_at b0 S i j) = Some x"
    by (auto simp: ldb_def split: prod.splits if_splits)
  then show "\<exists>m'. stb b0 S m a v = Some m'"
    using bytes.st_defined [of m "byte_at b0 S i j"]
    by (auto simp: stb_def pmmSetBit_def pmmClearBit_def byte_at_def)
next
  fix m :: mem and a b :: "nat \<times> nat" and v m'
  assume st: "stb b0 S m a v = Some m'"
  then obtain i j x where a: "a = (i, j)" "valid S i j" "S < 2 ^ 49" "ld8 m (byte_at b0 S i j) = Some x"
      "st8 m (byte_at b0 S i j) (if v then x OR push_bit (j mod 8) 1 else x AND NOT (push_bit (j mod 8) 1)) = Some m'"
    using valid_byte(2)
    by (auto simp: stb_def pmmSetBit_def pmmClearBit_def byte_at_def Let_def split: prod.splits if_splits bind_splits)
  obtain i' j' where b: "b = (i', j')" by fastforce
  show "ldb b0 S m' b = (if b = a then Some v else ldb b0 S m b)"
  proof (cases "valid S i' j'")
    case True
    show ?thesis
    proof (cases "byte_at b0 S i' j' = byte_at b0 S i j")
      case same: True
      then have "i' = i" "j' div 8 = j div 8" using byte_at_inj [OF True a(2,3)] by auto
      moreover from this have "j' = j \<longleftrightarrow> j' mod 8 = j mod 8" by (metis div_mult_mod_eq)
      moreover have "j' mod 8 < 8" by simp
      ultimately show ?thesis
        using a b True same by (auto simp: ldb_def bytes.ld_st [OF a(5)] bit_simps split: if_splits)
    next
      case False
      then have "b \<noteq> a" using a b by auto
      with False a b True show ?thesis by (auto simp: ldb_def bytes.ld_st [OF a(5)])
    qed
  qed (use a b in \<open>auto simp: ldb_def\<close>)
qed

section \<open>The state seen as levels of blocks\<close>

definition nfree :: "nat \<Rightarrow> levels \<Rightarrow> nat \<Rightarrow> nat" where
  "nfree S B i = card {j. valid S i j \<and> \<not> B i j}"

definition geometry :: "pmm \<Rightarrow> nat \<Rightarrow> bool" where
  "geometry s S \<longleftrightarrow> S < 2 ^ 49 \<and> length (bitmaps s) = 7 \<and>
     (\<forall>i<7. bm_size (bitmaps s ! i) = of_nat (S div 2 ^ i) \<and>
        bm_base (bitmaps s ! i) = bitmap_base s + of_nat (off S i))"

definition pview :: "pmm \<Rightarrow> nat \<Rightarrow> levels \<Rightarrow> bool" where
  "pview s S B \<longleftrightarrow> geometry s S \<and>
     (\<forall>i j. valid S i j \<longrightarrow> ldb (bitmap_base s) S (pm s) (i, j) = Some (B i j)) \<and>
     (\<forall>i<7. bm_free (bitmaps s ! i) = of_nat (nfree S B i))"

lemma finite_level: "finite {j. valid S i j \<and> P j}"
  by (rule finite_subset [of _ "{..<8 * (S div 2 ^ i)}"]) (auto simp: valid_def)

lemma nfree_upd_other [simp]: "k \<noteq> i \<Longrightarrow> nfree S (upd B i j v) k = nfree S B k"
  by (simp add: nfree_def upd_def)

lemma nfree_upd:
  assumes "valid S i j"
  shows "B i j \<Longrightarrow> nfree S (upd B i j False) i = Suc (nfree S B i)"
    and "\<not> B i j \<Longrightarrow> Suc (nfree S (upd B i j True) i) = nfree S B i"
proof -
  have "{j'. valid S i j' \<and> \<not> upd B i j False i j'} = insert j {j'. valid S i j' \<and> \<not> B i j'}"
    using assms by (auto simp: upd_def)
  then show "B i j \<Longrightarrow> nfree S (upd B i j False) i = Suc (nfree S B i)"
    by (simp add: nfree_def finite_level)
  have "{j'. valid S i j' \<and> \<not> B i j'} = insert j {j'. valid S i j' \<and> \<not> upd B i j True i j'}" if "\<not> B i j"
    using assms that by (auto simp: upd_def)
  then show "\<not> B i j \<Longrightarrow> Suc (nfree S (upd B i j True) i) = nfree S B i"
    using finite_level [of S i] by (simp add: nfree_def upd_def)
qed

definition bits_ok :: "pmm \<Rightarrow> nat \<Rightarrow> levels \<Rightarrow> bool" where
  "bits_ok s S B \<longleftrightarrow> geometry s S \<and> (\<forall>i j. valid S i j \<longrightarrow> ldb (bitmap_base s) S (pm s) (i, j) = Some (B i j))"

lemma pview_bits: "pview s S B \<longleftrightarrow> bits_ok s S B \<and> (\<forall>i<7. bm_free (bitmaps s ! i) = of_nat (nfree S B i))"
  by (auto simp: pview_def bits_ok_def)

lemma check_bit_ok:
  assumes "bits_ok s S B" "valid S i j"
  shows "check_bit_at i (of_nat j) s = Some (of_bool (B i j))"
proof -
  have "ldb (bitmap_base s) S (pm s) (i, j) = Some (B i j)" "S < 2 ^ 49" "i < 7"
    "bm_base (bitmaps s ! i) = bitmap_base s + of_nat (off S i)"
    using assms by (auto simp: bits_ok_def geometry_def valid_def)
  then obtain x where x: "ld8 (pm s) (byte_at (bitmap_base s) S i j) = Some x" "bit x (j mod 8) = B i j"
      and S: "S < 2 ^ 49" and b: "bm_base (bitmaps s ! i) = bitmap_base s + of_nat (off S i)"
    using assms(2) by (auto simp: ldb_def)
  have "drop_bit (j mod 8) x AND 1 = of_bool (bit x (j mod 8))"
    by (rule bit_word_eqI) (auto simp: bit_simps)
  with x show ?thesis
    by (simp add: check_bit_at_def pmmCheckBit_def b byte_at_def [symmetric] valid_byte(2) [OF assms(2) S])
qed

lemma bit_upd_ok:
  assumes "bits_ok s S B" "valid S i j"
  shows "\<exists>m. (if v then set_bit_at else clear_bit_at) i (of_nat j) s = Some (s\<lparr>pm := m\<rparr>) \<and>
     bits_ok (s\<lparr>pm := m\<rparr>) S (upd B i j v)"
proof -
  have ld: "ldb (bitmap_base s) S (pm s) (i, j) \<noteq> None" and S: "S < 2 ^ 49"
    and b: "bm_base (bitmaps s ! i) = bitmap_base s + of_nat (off S i)"
    using assms by (auto simp: bits_ok_def geometry_def valid_def)
  from pbits.st_defined [OF ld, of v] obtain m where m: "stb (bitmap_base s) S (pm s) (i, j) v = Some m" by blast
  then have "(if v then set_bit_at else clear_bit_at) i (of_nat j) s = Some (s\<lparr>pm := m\<rparr>)"
    using assms(2) S by (auto simp: stb_def set_bit_at_def clear_bit_at_def b)
  moreover have "bits_ok (s\<lparr>pm := m\<rparr>) S (upd B i j v)"
    using assms(1) by (auto simp: bits_ok_def geometry_def upd_def pbits.ld_st [OF m])
  ultimately show ?thesis by blast
qed

lemma add_free_fields [simp]:
  "bm_size (bitmaps (add_free i d s) ! k) = bm_size (bitmaps s ! k)"
  "bm_base (bitmaps (add_free i d s) ! k) = bm_base (bitmaps s ! k)"
  "length (bitmaps (add_free i d s)) = length (bitmaps s)"
  "pm (add_free i d s) = pm s" "bitmap_base (add_free i d s) = bitmap_base s"
  "free_mem (add_free i d s) = free_mem s" "mmap_entries (add_free i d s) = mmap_entries s"
  by (cases "i < length (bitmaps s)"; simp add: add_free_def nth_list_update list_update_beyond)+

lemma bits_ok_add_free [simp]: "bits_ok (add_free i d s) S B = bits_ok s S B"
  by (simp add: bits_ok_def geometry_def)

lemma add_free_nth:
  "length (bitmaps s) = 7 \<Longrightarrow> i < 7 \<Longrightarrow> bm_free (bitmaps (add_free i d s) ! k) =
     (if k = i then bm_free (bitmaps s ! k) + d else bm_free (bitmaps s ! k))"
  by (simp add: add_free_def nth_list_update)

lemma clear_step:
  assumes "pview s S B" "valid S i j" "B i j"
  shows "\<exists>m. clear_bit_at i (of_nat j) s = Some (s\<lparr>pm := m\<rparr>) \<and> pview (add_free i 1 (s\<lparr>pm := m\<rparr>)) S (upd B i j False)"
proof -
  have l: "length (bitmaps s) = 7" "i < 7" using assms by (auto simp: pview_def geometry_def valid_def)
  obtain m where m: "clear_bit_at i (of_nat j) s = Some (s\<lparr>pm := m\<rparr>)" "bits_ok (s\<lparr>pm := m\<rparr>) S (upd B i j False)"
    using bit_upd_ok [of s S B i j False] assms by (auto simp: pview_bits)
  moreover have "bm_free (bitmaps (add_free i 1 (s\<lparr>pm := m\<rparr>)) ! k) = of_nat (nfree S (upd B i j False) k)" if "k < 7" for k
    using assms(1) that l nfree_upd(1) [OF assms(2), of B] assms(3)
    by (cases "k = i") (simp_all add: pview_def add_free_nth add.commute)
  ultimately show ?thesis by (auto simp: pview_bits)
qed

lemma set_step:
  assumes "pview s S B" "valid S i j" "\<not> B i j"
  shows "\<exists>m. set_bit_at i (of_nat j) s = Some (s\<lparr>pm := m\<rparr>) \<and> pview (add_free i (- 1) (s\<lparr>pm := m\<rparr>)) S (upd B i j True)"
proof -
  have l: "length (bitmaps s) = 7" "i < 7" using assms by (auto simp: pview_def geometry_def valid_def)
  obtain m where m: "set_bit_at i (of_nat j) s = Some (s\<lparr>pm := m\<rparr>)" "bits_ok (s\<lparr>pm := m\<rparr>) S (upd B i j True)"
    using bit_upd_ok [of s S B i j True] assms by (auto simp: pview_bits)
  moreover have "bm_free (bitmaps (add_free i (- 1) (s\<lparr>pm := m\<rparr>)) ! k) = of_nat (nfree S (upd B i j True) k)" if "k < 7" for k
    using assms(1) that l nfree_upd(2) [OF assms(2), of B, symmetric] assms(3)
    by (cases "k = i") (simp_all add: pview_def add_free_nth)
  ultimately show ?thesis by (auto simp: pview_bits)
qed

section \<open>Allocation takes exactly the pages it returns\<close>

lemma of_nat_shift: "(of_nat (2 ^ l) :: u64) = push_bit l 1"
  by (simp add: push_bit_eq_mult)

lemma valid_child:
  assumes "valid S (Suc l) j"
  shows "valid S l (2 * j)" "valid S l (2 * j + 1)"
proof -
  have "S div 2 ^ Suc l = S div 2 ^ l div 2" by (simp add: div_mult2_eq [symmetric] mult.commute)
  then show "valid S l (2 * j)" "valid S l (2 * j + 1)" using assms by (auto simp: valid_def)
qed

lemma block_children: "block (Suc l) j = block l (2 * j) \<union> block l (2 * j + 1)"
  by (auto simp: block_def algebra_simps)

lemma block_halves: "block l (2 * j) \<inter> block l (2 * j + 1) = {}"
  by (auto simp: block_def algebra_simps)

lemma pmmPropagateDown_ok:
  "\<lbrakk>pview s S B; disj S B; valid S l j; block l j \<inter> free_pages S B = {}; 0 < n; n \<le> 2 ^ l; l < 7\<rbrakk> \<Longrightarrow>
   \<exists>s' B'. pmmPropagateDown (of_nat n) l (of_nat j) s = Some s' \<and> pview s' S B' \<and> disj S B' \<and>
     free_pages S B' = free_pages S B \<union> {j * 2 ^ l + n..<Suc j * 2 ^ l} \<and>
     free_mem s' = free_mem s \<and> bitmap_base s' = bitmap_base s"
proof (induction l arbitrary: n j s B)
  case 0
  then have "{j * 2 ^ 0 + n..<Suc j * 2 ^ 0} = {}" by auto
  with 0 show ?case by auto
next
  case (Suc l)
  have small: "2 ^ Suc l \<le> (64 :: nat)"
    using Suc.prems(7) power_increasing [of "Suc l" 6 "2 :: nat"] by simp
  have eqs: "(of_nat n = (push_bit (Suc l) 1 :: u64)) = (n = 2 ^ Suc l)" "((of_nat n :: u64) \<le> push_bit l 1) = (n \<le> 2 ^ l)"
    using small Suc.prems(6) unfolding of_nat_shift [symmetric]
    by (subst u64_of_nat_eq u64_of_nat_le; simp)+
  have ch: "L_CHILD (of_nat j) = of_nat (2 * j)" "R_CHILD (of_nat j) = of_nat (2 * j + 1)"
    by (simp_all add: L_CHILD_def R_CHILD_def)
  note step = pmmPropagateDown.simps(2) [of "of_nat n" l "of_nat j" s, unfolded eqs ch]
  note child = valid_child [OF Suc.prems(3)]
  have apart: "block l (2 * j) \<inter> free_pages S B = {}" "block l (2 * j + 1) \<inter> free_pages S B = {}"
    using Suc.prems(4) unfolding block_children by auto
  consider (whole) "n = 2 ^ Suc l" | (left) "n \<le> 2 ^ l" | (right) "n \<noteq> 2 ^ Suc l" "2 ^ l < n" by linarith
  then show ?case
  proof cases
    case whole
    then have "{j * 2 ^ Suc l + n..<Suc j * 2 ^ Suc l} = {}" by auto
    with whole Suc.prems show ?thesis unfolding step by auto
  next
    case left
    then have ne: "n \<noteq> 2 ^ Suc l" using Suc.prems(5) by auto
    obtain s1 B1 where 1: "pmmPropagateDown (of_nat n) l (of_nat (2 * j)) s = Some s1" "pview s1 S B1" "disj S B1"
        "free_pages S B1 = free_pages S B \<union> {2 * j * 2 ^ l + n..<Suc (2 * j) * 2 ^ l}"
        "free_mem s1 = free_mem s" "bitmap_base s1 = bitmap_base s"
      using Suc.IH [OF Suc.prems(1,2) child(1) apart(1) Suc.prems(5) left] Suc.prems(7) by auto
    have ap: "block l (2 * j + 1) \<inter> free_pages S B1 = {}"
      using apart(2) unfolding 1(4) by (auto simp: block_def)
    note give = give_block [OF 1(3) child(2) ap]
    obtain m where m: "clear_bit_at l (of_nat (2 * j + 1)) s1 = Some (s1\<lparr>pm := m\<rparr>)"
        "pview (add_free l 1 (s1\<lparr>pm := m\<rparr>)) S (upd B1 l (2 * j + 1) False)"
      using clear_step [OF 1(2) child(2) give(1)] by blast
    have "free_pages S (upd B1 l (2 * j + 1) False) = free_pages S B \<union> {j * 2 ^ Suc l + n..<Suc j * 2 ^ Suc l}"
      unfolding give(3) 1(4) using left by (auto simp: block_def algebra_simps)
    with 1 m give(2) left ne show ?thesis
      unfolding step by (intro exI [of _ "add_free l 1 (s1\<lparr>pm := m\<rparr>)"] exI [of _ "upd B1 l (2 * j + 1) False"]) simp
  next
    case right
    have n: "0 < n - 2 ^ l" "n - 2 ^ l \<le> 2 ^ l"
      using right Suc.prems(6) by auto
    obtain s1 B1 where 1: "pmmPropagateDown (of_nat (n - 2 ^ l)) l (of_nat (2 * j + 1)) s = Some s1" "pview s1 S B1"
        "disj S B1" "free_pages S B1 = free_pages S B \<union> {(2 * j + 1) * 2 ^ l + (n - 2 ^ l)..<Suc (2 * j + 1) * 2 ^ l}"
        "free_mem s1 = free_mem s" "bitmap_base s1 = bitmap_base s"
      using Suc.IH [OF Suc.prems(1,2) child(2) apart(2) n] Suc.prems(7) by auto
    have r: "{(2 * j + 1) * 2 ^ l + (n - 2 ^ l)..<Suc (2 * j + 1) * 2 ^ l} = {j * 2 ^ Suc l + n..<Suc j * 2 ^ Suc l}"
      using right(2) by (auto simp: algebra_simps)
    have d: "of_nat n - push_bit l 1 = (of_nat (n - 2 ^ l) :: u64)"
      using right(2) unfolding of_nat_shift [symmetric] by (simp only: of_nat_diff less_imp_le)
    show ?thesis
      using 1 right unfolding r step d by auto
  qed
qed

end
