(* ===== verification/Pmm_Correct.thy ===== *)
theory Pmm_Correct
  imports Pmm
begin

text \<open>
  Correctness of the buddy allocator. \<open>page_inv S s F\<close> says that the state \<open>s\<close>, with \<open>S\<close> bytes in
  its first bitmap, owns the free pages \<open>F\<close>: the clear bits of the seven levels are pairwise disjoint
  blocks that cover exactly \<open>F\<close>, and the counters agree. Allocation takes exactly the pages it
  returns, release gives exactly the released pages back, and merging changes nothing of \<open>F\<close>; so
  the manager is an instance of \<open>page_allocator\<close>.
\<close>

lemma bit_top: "2 ^ k \<le> unat x \<Longrightarrow> unat x < 2 ^ Suc k \<Longrightarrow> bit x k" for x :: u64
proof -
  assume "2 ^ k \<le> unat x" "unat x < 2 ^ Suc k"
  then have "unat x div 2 ^ k = 1" by (simp add: div_nat_eqI)
  then have "bit (unat x) k" by (simp add: bit_iff_odd)
  then show ?thesis by (simp add: bit_unsigned_iff)
qed

lemma top_bit_ge: "bit x k \<Longrightarrow> 2 ^ k \<le> unat x" for x :: u64
proof -
  assume b: "bit x k"
  then have "bit (unat x) k" by (auto simp: bit_unsigned_iff dest: bit_imp_le_length)
  then have "unat x div 2 ^ k \<noteq> 0" by (metis bit_iff_odd even_zero)
  then show ?thesis by (simp add: div_eq_0_iff)
qed

lemma top_bit_ok: "2 ^ k \<le> unat x \<Longrightarrow> unat x < 2 ^ Suc k \<Longrightarrow> top_bit x = Some (2 ^ k)"
proof (induction "unat x" arbitrary: x rule: less_induct)
  case less
  have k: "k < 64"
  proof (rule ccontr)
    assume "\<not> k < 64"
    then have "(2 :: nat) ^ 64 \<le> 2 ^ k" by (intro power_increasing) auto
    moreover have "unat x < 2 ^ 64" using unsigned_less [of x] by simp
    ultimately show False using less.prems(1) by linarith
  qed
  have x0: "0 < unat x" using less.prems(1) by (metis le_0_eq neq0_conv power_eq_0_iff zero_neq_numeral)
  then have pred: "unat (x - 1) = unat x - 1" by (intro unat_minus_one) auto
  show ?case
  proof (cases "unat x = 2 ^ k")
    case True
    then have x: "x = 2 ^ k" using k by (simp add: word_unat_eq_iff unat_2p)
    have "x AND (x - 1) = 0"
      unfolding x mask_eq_exp_minus_1 [symmetric] by (rule bit_word_eqI) (auto simp: bit_simps)
    then show ?thesis by (subst top_bit.simps) (simp add: x)
  next
    case False
    then have "2 ^ k \<le> unat (x - 1)" "unat (x - 1) < 2 ^ Suc k" using less.prems pred x0 by auto
    then have "bit (x AND (x - 1)) k"
      using bit_top less.prems by (simp add: bit_and_iff)
    then have lo: "2 ^ k \<le> unat (x AND (x - 1))" by (rule top_bit_ge)
    have le: "unat (x AND (x - 1)) \<le> unat (x - 1)" by (simp add: word_le_nat_alt [symmetric] word_and_le1)
    have "x AND (x - 1) \<noteq> 0" using lo by (metis le_0_eq power_eq_0_iff unat_0 zero_neq_numeral)
    moreover have "top_bit (x AND (x - 1)) = Some (2 ^ k)"
      using less.hyps [of "x AND (x - 1)"] lo le pred x0 less.prems(2) by linarith
    ultimately show ?thesis by (subst top_bit.simps) simp
  qed
qed

lemma log_loop_ok: "n < 64 \<Longrightarrow> log_loop (2 ^ n) i = Some (i + n)"
proof (induction n arbitrary: i)
  case 0
  then show ?case by (subst log_loop.simps) (simp add: drop_bit_eq_div)
next
  case (Suc n)
  have "drop_bit 1 (2 ^ Suc n :: u64) = 2 ^ n"
    using Suc.prems by (intro bit_word_eqI) (auto simp: bit_simps)
  moreover have "(2 ^ n :: u64) \<noteq> 0" using Suc.prems by simp
  ultimately show ?case using Suc by (subst log_loop.simps) simp
qed

definition level_for :: "nat \<Rightarrow> nat" where
  "level_for n = (LEAST l. n \<le> 2 ^ l)"

lemma level_for_props: "n \<le> 2 ^ level_for n" "n \<le> 2 ^ l \<Longrightarrow> level_for n \<le> l"
proof -
  have "n \<le> 2 ^ n" by (simp add: less_imp_le)
  then show "n \<le> 2 ^ level_for n" unfolding level_for_def by (rule LeastI)
  show "n \<le> 2 ^ l \<Longrightarrow> level_for n \<le> l" unfolding level_for_def by (rule Least_le)
qed

lemma pmalloc_index:
  assumes "0 < n" "n \<le> 2 ^ 63"
  shows "pmalloc (of_nat n) s = (if n \<le> 64 then pmalloc_levels (of_nat n) (level_for n) s else Some (NULL, s))"
proof (cases "n = 1")
  case True
  have "top_bit 0 = Some 0" by (subst top_bit.simps) simp
  moreover have "log_loop 0 0 = Some 0" by (subst log_loop.simps) simp
  moreover have "level_for 1 = 0" using level_for_props(2) [of 1 0] by simp
  ultimately show ?thesis using True by (simp add: pmalloc_def NUM_BITMAPS_def)
next
  case False
  define k where "k = level_for n - 1"
  have "level_for n \<noteq> 0" using level_for_props(1) [of n] False assms(1) by (cases "level_for n") auto
  then have lv: "level_for n = Suc k" by (simp add: k_def)
  have hi: "n \<le> 2 ^ Suc k" using level_for_props(1) [of n] lv by simp
  have lo: "2 ^ k < n" using level_for_props(2) [of n k] lv by linarith
  have k: "k < 63" using lo assms(2) power_less_imp_less_exp [of "2 :: nat" k 63] by simp
  have un: "unat (of_nat n - 1 :: u64) = n - 1"
    using assms by (subst unat_minus_one) (auto simp: unat_of_nat word_of_nat_eq_0_iff dest: dvd_imp_le)
  have nz: "of_nat n \<noteq> (0 :: u64)"
    using assms by (auto simp: word_of_nat_eq_0_iff dest: dvd_imp_le)
  have tb: "top_bit (of_nat n - 1) = Some (2 ^ k)"
    by (rule top_bit_ok) (use lo hi un in auto)
  have pb: "push_bit 1 (2 ^ k :: u64) = 2 ^ Suc k" by (simp add: push_bit_eq_mult)
  have "(64 < (2 ^ Suc k :: u64)) = (64 < (2 ^ Suc k :: nat))"
    using k by (simp add: word_less_nat_alt unat_2p del: power_Suc)
  also have "\<dots> = (\<not> n \<le> 64)"
  proof
    assume "64 < (2 ^ Suc k :: nat)"
    then have "6 < Suc k" using power_less_imp_less_exp [of "2 :: nat" 6 "Suc k"] by simp
    then have "(2 :: nat) ^ 6 \<le> 2 ^ k" by (intro power_increasing) auto
    with lo show "\<not> n \<le> 64" by simp
  qed (use hi in auto)
  finally have c: "(64 < (2 ^ Suc k :: u64)) = (\<not> n \<le> 64)" .
  have "log_loop (2 ^ Suc k) 0 = Some (Suc k)" using log_loop_ok [of "Suc k" 0] k by simp
  with tb pb c nz lv show ?thesis
    by (simp add: pmalloc_def NUM_BITMAPS_def push_bit_eq_mult [of 6] del: power_Suc)
qed

section \<open>Searching a bitmap\<close>

lemma level_limit:
  assumes "geometry s S" "i < 7" "j \<le> 8 * (S div 2 ^ i)"
  shows "of_nat j < bm_size (bitmaps s ! i) * 8 \<longleftrightarrow> j < 8 * (S div 2 ^ i)"
proof -
  have "bm_size (bitmaps s ! i) * 8 = of_nat (8 * (S div 2 ^ i))"
    using assms by (simp add: geometry_def mult.commute)
  moreover have "8 * (S div 2 ^ i) < 2 ^ 52"
    using assms(1) le_less_trans [OF div_le_dividend [of S "2 ^ i"], of "2 ^ 49"] by (simp add: geometry_def)
  ultimately show ?thesis
    using assms(3) by (simp add: u64_of_nat_less del: of_nat_mult)
qed

lemma pmalloc_scan_hit:
  assumes "bits_ok s S B" "i < 7"
  shows "\<lbrakk>valid S i k; \<not> B i k; j \<le> k; \<forall>j'. j \<le> j' \<and> j' < k \<longrightarrow> B i j'\<rbrakk> \<Longrightarrow>
    pmalloc_scan n i (of_nat j) s = do { r \<leftarrow> pmalloc_take n i (of_nat k) s; Some (Some r) }"
proof (induction "k - j" arbitrary: j)
  case 0
  then have "j = k" by simp
  with 0 assms level_limit [of s S i k] check_bit_ok [OF assms(1), of i k] show ?case
    by (subst pmalloc_scan.simps) (auto simp: bits_ok_def valid_def)
next
  case (Suc d)
  then have j: "j < k" "valid S i j" "B i j" by (auto simp: valid_def)
  then have "of_nat j < bm_size (bitmaps s ! i) * 8"
    using level_limit [of s S i j] assms by (simp add: bits_ok_def valid_def)
  moreover have "d = k - Suc j" using Suc.hyps(2) by simp
  ultimately show ?case
    using Suc.hyps(1) [of "Suc j"] Suc.prems j check_bit_ok [OF assms(1) j(2)]
    by (subst pmalloc_scan.simps) (simp add: add.commute)
qed

lemma pmalloc_scan_miss:
  assumes "bits_ok s S B" "i < 7" "\<forall>j. valid S i j \<longrightarrow> B i j"
  shows "j \<le> 8 * (S div 2 ^ i) \<Longrightarrow> pmalloc_scan n i (of_nat j) s = Some None"
proof (induction "8 * (S div 2 ^ i) - j" arbitrary: j)
  case 0
  with assms level_limit [of s S i j] show ?case
    by (subst pmalloc_scan.simps) (simp add: bits_ok_def)
next
  case (Suc d)
  then have j: "j < 8 * (S div 2 ^ i)" "valid S i j" using assms(2) by (auto simp: valid_def)
  moreover have "d = 8 * (S div 2 ^ i) - Suc j" using Suc.hyps(2) by simp
  ultimately show ?case
    using Suc.hyps(1) [of "Suc j"] level_limit [of s S i j] assms check_bit_ok [OF assms(1) j(2)]
    by (subst pmalloc_scan.simps) (simp add: bits_ok_def add.commute)
qed

lemma valid_parent:
  assumes "64 dvd S" "valid S i j" "Suc i < 7"
  shows "valid S (Suc i) (j div 2)"
proof -
  have "2 ^ Suc i dvd (64 :: nat)"
    using assms(3) le_imp_power_dvd [of "Suc i" 6 "2 :: nat"] by simp
  with assms(1) obtain c where c: "S = 2 ^ Suc i * c" by (meson dvdE dvd_trans)
  have "S div 2 ^ i = 2 * c" unfolding c by (simp add: mult.assoc)
  moreover have "S div 2 ^ Suc i = c" unfolding c by simp
  ultimately show ?thesis using assms by (auto simp: valid_def)
qed

lemma block_parent: "block i j \<subseteq> block (Suc i) (j div 2)"
proof -
  have "j = 2 * (j div 2) \<or> j = 2 * (j div 2) + 1" by auto
  then show ?thesis unfolding block_children by (metis Un_upper1 Un_upper2)
qed

lemma parent_set:
  assumes "disj S B" "64 dvd S" "valid S i j" "Suc i < 7" "\<not> B i j"
  shows "B (Suc i) (j div 2)"
proof (rule ccontr)
  assume "\<not> B (Suc i) (j div 2)"
  then have "block i j \<inter> block (Suc i) (j div 2) = {}"
    using assms valid_parent [OF assms(2-4)] unfolding disj_def by (metis n_not_Suc_n prod.inject)
  then show False using block_parent [of i j] block_nonempty [of i j] by blast
qed

lemma PARENT_of_nat: "j < 2 ^ 64 \<Longrightarrow> PARENT (of_nat j) = of_nat (j div 2)"
  by (simp add: PARENT_def word_unat_eq_iff unat_div unat_of_nat)

lemma valid_small: "valid S i j \<Longrightarrow> S < 2 ^ 49 \<Longrightarrow> j < 2 ^ 52"
  using le_less_trans [OF div_le_dividend [of S "2 ^ i"], of "2 ^ 49"] by (simp add: valid_def)

lemma pmalloc_take_ok:
  assumes v: "pview s S B" and d: "disj S B" and S: "64 dvd S" and ij: "valid S i j" "\<not> B i j"
    and n: "0 < n" "n \<le> 2 ^ i"
  shows "\<exists>s' B'. pmalloc_take (of_nat n) i (of_nat j) s = Some (of_nat (j * 2 ^ i) * PAGE_SIZE, s') \<and>
     pview s' S B' \<and> disj S B' \<and> free_pages S B' = free_pages S B - {j * 2 ^ i..<j * 2 ^ i + n} \<and>
     free_mem s' = free_mem s - of_nat n * PAGE_SIZE"
proof -
  have i: "i < 7" and S49: "S < 2 ^ 49" using ij v by (auto simp: valid_def pview_def geometry_def)
  note take = take_block [of S B i j, OF d ij]
  obtain m where m: "set_bit_at i (of_nat j) s = Some (s\<lparr>pm := m\<rparr>)"
      "pview (add_free i (- 1) (s\<lparr>pm := m\<rparr>)) S (upd B i j True)" (is "pview ?s1 S ?B1")
    using set_step [OF v ij] by blast
  have parent: "check_bit_at (i + 1) (PARENT (of_nat j)) ?s1 = Some 1" if "i \<noteq> 6"
  proof -
    have i6: "Suc i < 7" using i that by simp
    have "?B1 (Suc i) (j div 2)" using parent_set [OF d S ij(1) i6 ij(2)] by (simp add: upd_def)
    moreover have "PARENT (of_nat j) = of_nat (j div 2)"
      using valid_small [OF ij(1) S49] by (simp add: PARENT_of_nat)
    ultimately show ?thesis
      using check_bit_ok [of ?s1 S ?B1 "Suc i" "j div 2"] m(2) valid_parent [OF S ij(1) i6]
      by (simp add: pview_bits)
  qed
  have "block i j \<inter> free_pages S ?B1 = {}" unfolding take(2) by blast
  then obtain s2 B2 where 2: "pmmPropagateDown (of_nat n) i (of_nat j) ?s1 = Some s2" "pview s2 S B2" "disj S B2"
      "free_pages S B2 = free_pages S ?B1 \<union> {j * 2 ^ i + n..<Suc j * 2 ^ i}" "free_mem s2 = free_mem ?s1"
    using pmmPropagateDown_ok [OF m(2) take(1) ij(1) _ n i] by blast
  have F: "free_pages S B2 = free_pages S B - {j * 2 ^ i..<j * 2 ^ i + n}"
    using take(3) n unfolding 2(4) take(2) by (auto simp: block_def)
  have "of_nat j * push_bit i PAGE_SIZE = of_nat (j * 2 ^ i) * PAGE_SIZE"
    by (simp add: push_bit_eq_mult)
  then have "pmalloc_take (of_nat n) i (of_nat j) s =
      Some (of_nat (j * 2 ^ i) * PAGE_SIZE, s2\<lparr>free_mem := free_mem s2 - of_nat n * PAGE_SIZE\<rparr>)"
    using m(1) parent 2(1) by (cases "i = 6") (simp_all add: pmalloc_take_def NUM_BITMAPS_def)
  moreover have "pview (s2\<lparr>free_mem := x\<rparr>) S B2" for x
    using 2(2) by (simp add: pview_def geometry_def)
  ultimately show ?thesis using 2(3,5) F by fastforce
qed

lemma pmalloc_levels_ok:
  assumes v: "pview s S B" and d: "disj S B" and S: "64 dvd S" and n: "0 < n"
  shows "n \<le> 2 ^ l \<Longrightarrow> \<exists>r s'. pmalloc_levels (of_nat n) l s = Some (r, s') \<and>
     (r = NULL \<and> s' = s \<and> (\<forall>i j. l \<le> i \<and> valid S i j \<longrightarrow> B i j) \<or>
      (\<exists>i j B'. l \<le> i \<and> valid S i j \<and> r = of_nat (j * 2 ^ i) * PAGE_SIZE \<and> block i j \<subseteq> free_pages S B \<and>
        pview s' S B' \<and> disj S B' \<and> free_pages S B' = free_pages S B - {j * 2 ^ i..<j * 2 ^ i + n} \<and>
        free_mem s' = free_mem s - of_nat n * PAGE_SIZE))"
proof (induction "7 - l" arbitrary: l)
  case 0
  then show ?case by (subst pmalloc_levels.simps) (auto simp: NUM_BITMAPS_def valid_def)
next
  case (Suc k)
  then have l: "l < 7" by simp
  have bits: "bits_ok s S B" using v by (simp add: pview_bits)
  show ?case
  proof (cases "\<forall>j. valid S l j \<longrightarrow> B l j")
    case True
    have scan: "pmalloc_scan (of_nat n) l 0 s = Some None"
      using pmalloc_scan_miss [OF bits l True, of 0] by simp
    have "n \<le> 2 ^ Suc l" using Suc.prems by simp
    moreover have "k = 7 - Suc l" using Suc.hyps(2) by simp
    ultimately obtain r s' where "pmalloc_levels (of_nat n) (Suc l) s = Some (r, s')" and
      alt: "r = NULL \<and> s' = s \<and> (\<forall>i j. Suc l \<le> i \<and> valid S i j \<longrightarrow> B i j) \<or>
        (\<exists>i j B'. Suc l \<le> i \<and> valid S i j \<and> r = of_nat (j * 2 ^ i) * PAGE_SIZE \<and> block i j \<subseteq> free_pages S B \<and>
        pview s' S B' \<and> disj S B' \<and> free_pages S B' = free_pages S B - {j * 2 ^ i..<j * 2 ^ i + n} \<and>
        free_mem s' = free_mem s - of_nat n * PAGE_SIZE)"
      using Suc.hyps(1) by blast
    then have "pmalloc_levels (of_nat n) l s = Some (r, s')"
      using scan l by (subst pmalloc_levels.simps) (simp add: NUM_BITMAPS_def)
    moreover have "\<forall>i j. l \<le> i \<and> valid S i j \<longrightarrow> B i j" if "\<forall>i j. Suc l \<le> i \<and> valid S i j \<longrightarrow> B i j"
      using that True by (metis Suc_leI le_neq_implies_less)
    ultimately show ?thesis using alt Suc_leD by blast
  next
    case False
    define j where "j = (LEAST j. valid S l j \<and> \<not> B l j)"
    have j: "valid S l j" "\<not> B l j"
      using LeastI_ex [of "\<lambda>j. valid S l j \<and> \<not> B l j"] False unfolding j_def by auto
    have "B l j'" if "j' < j" for j'
      using not_less_Least [of j' "\<lambda>j. valid S l j \<and> \<not> B l j"] that j(1) unfolding j_def [symmetric]
      by (auto simp: valid_def)
    then have scan: "pmalloc_scan (of_nat n) l 0 s = do { r \<leftarrow> pmalloc_take (of_nat n) l (of_nat j) s; Some (Some r) }"
      using pmalloc_scan_hit [OF bits l j, of 0] by simp
    obtain s' B' where t: "pmalloc_take (of_nat n) l (of_nat j) s = Some (of_nat (j * 2 ^ l) * PAGE_SIZE, s')"
        "pview s' S B'" "disj S B'" "free_pages S B' = free_pages S B - {j * 2 ^ l..<j * 2 ^ l + n}"
        "free_mem s' = free_mem s - of_nat n * PAGE_SIZE"
      using pmalloc_take_ok [OF v d S j n Suc.prems] by blast
    have "pmalloc_levels (of_nat n) l s = Some (of_nat (j * 2 ^ l) * PAGE_SIZE, s')"
      using scan t(1) l by (subst pmalloc_levels.simps) (simp add: NUM_BITMAPS_def)
    then show ?thesis using t j(1) take_block(3) [OF d j] by blast
  qed
qed

definition page_inv :: "nat \<Rightarrow> pmm \<Rightarrow> nat set \<Rightarrow> bool" where
  "page_inv S s F \<longleftrightarrow> 64 dvd S \<and>
     (\<exists>B. pview s S B \<and> disj S B \<and> F = free_pages S B \<and> free_mem s = of_nat (4096 * card F))"

lemma free_pages_bound: "free_pages S B \<subseteq> {..<8 * S}"
proof
  fix p
  assume "p \<in> free_pages S B"
  then obtain i j where "j < 8 * (S div 2 ^ i)" "p \<in> block i j"
    by (auto simp: free_pages_def valid_def)
  then have p: "p < Suc j * 2 ^ i" "Suc j * 2 ^ i \<le> 8 * (S div 2 ^ i) * 2 ^ i"
    by (simp_all only: block_def atLeastLessThan_iff Suc_le_eq mult_le_mono1)
  have "8 * (S div 2 ^ i) * 2 ^ i \<le> 8 * S"
    by (simp only: mult.assoc mult_le_mono2 div_times_less_eq_dividend)
  with p(2) have "Suc j * 2 ^ i \<le> 8 * S" by (rule order_trans)
  with p(1) have "p < 8 * S" by (rule less_le_trans)
  then show "p \<in> {..<8 * S}" by simp
qed

lemma page_inv_bound: "page_inv S s F \<Longrightarrow> F \<subseteq> {..<8 * S} \<and> finite F \<and> S < 2 ^ 49"
  using free_pages_bound [of S] finite_subset [of F "{..<8 * S}"]
  by (auto simp: page_inv_def pview_def geometry_def)

lemma free_mem_sub:
  assumes "finite F" "A \<subseteq> F" "card A = n"
  shows "of_nat (4096 * card F) - of_nat n * PAGE_SIZE = (of_nat (4096 * card (F - A)) :: u64)"
proof -
  have "card F = card (F - A) + n"
    using assms by (metis card_Diff_subset card_mono finite_subset le_add_diff_inverse2)
  then show ?thesis by (simp add: PAGE_SIZE_def algebra_simps)
qed

lemma pmalloc_ok:
  assumes inv: "page_inv S s F" and n: "0 < n" "n \<le> 64"
  shows "\<exists>r s'. pmalloc (of_nat n) s = Some (r, s') \<and>
     (r = NULL \<and> s' = s \<and> (\<forall>i j. level_for n \<le> i \<and> valid S i j \<longrightarrow> check_bit_at i (of_nat j) s = Some 1) \<or>
      (\<exists>p. r = of_nat p * PAGE_SIZE \<and> {p..<p + n} \<subseteq> F \<and> 2 ^ level_for n dvd p \<and>
         page_inv S s' (F - {p..<p + n})))"
proof -
  obtain B where B: "pview s S B" "disj S B" "F = free_pages S B" "free_mem s = of_nat (4096 * card F)" and S: "64 dvd S"
    using inv by (auto simp: page_inv_def)
  have pm: "pmalloc (of_nat n) s = pmalloc_levels (of_nat n) (level_for n) s"
    using pmalloc_index [of n s] n by simp
  obtain r s' where r: "pmalloc_levels (of_nat n) (level_for n) s = Some (r, s')" and
    alt: "r = NULL \<and> s' = s \<and> (\<forall>i j. level_for n \<le> i \<and> valid S i j \<longrightarrow> B i j) \<or>
      (\<exists>i j B'. level_for n \<le> i \<and> valid S i j \<and> r = of_nat (j * 2 ^ i) * PAGE_SIZE \<and> block i j \<subseteq> free_pages S B \<and>
        pview s' S B' \<and> disj S B' \<and> free_pages S B' = free_pages S B - {j * 2 ^ i..<j * 2 ^ i + n} \<and>
        free_mem s' = free_mem s - of_nat n * PAGE_SIZE)"
    using pmalloc_levels_ok [OF B(1,2) S n(1) level_for_props(1)] by blast
  have "\<exists>p. r = of_nat p * PAGE_SIZE \<and> {p..<p + n} \<subseteq> F \<and> 2 ^ level_for n dvd p \<and> page_inv S s' (F - {p..<p + n})"
    if ij: "level_for n \<le> i" "r = of_nat (j * 2 ^ i) * PAGE_SIZE" "block i j \<subseteq> free_pages S B"
      "pview s' S B'" "disj S B'" "free_pages S B' = free_pages S B - {j * 2 ^ i..<j * 2 ^ i + n}"
      "free_mem s' = free_mem s - of_nat n * PAGE_SIZE" for i j B'
  proof -
    have "n \<le> 2 ^ i"
      using level_for_props(1) [of n] power_increasing [OF ij(1), of "2 :: nat"]
      by (meson one_le_numeral order_trans)
    then have sub: "{j * 2 ^ i..<j * 2 ^ i + n} \<subseteq> F"
      using ij(3) unfolding B(3) by (auto simp: block_def)
    moreover have "2 ^ level_for n dvd j * 2 ^ i"
      using ij(1) by (simp add: le_imp_power_dvd)
    moreover have "page_inv S s' (F - {j * 2 ^ i..<j * 2 ^ i + n})"
      using ij S B(3,4) free_mem_sub [of F "{j * 2 ^ i..<j * 2 ^ i + n}" n] sub page_inv_bound [OF inv]
      unfolding page_inv_def by (metis add_diff_cancel_left' card_atLeastLessThan)
    ultimately show ?thesis using ij(2) by blast
  qed
  moreover have "\<forall>i j. level_for n \<le> i \<and> valid S i j \<longrightarrow> check_bit_at i (of_nat j) s = Some 1"
    if "\<forall>i j. level_for n \<le> i \<and> valid S i j \<longrightarrow> B i j"
    using that check_bit_ok [of s S B] B(1) by (simp add: pview_bits)
  ultimately show ?thesis using alt pm r by metis
qed

section \<open>Release gives exactly the pages back\<close>

lemma block_0 [simp]: "block 0 j = {j}"
  by (auto simp: block_def)

lemma pfree_loop_ok:
  "\<lbrakk>pview s S B; disj S B; {i..<l} \<inter> free_pages S B = {}; i \<le> l; l \<le> 8 * S\<rbrakk> \<Longrightarrow>
   \<exists>s' B'. pfree_loop (of_nat i) (of_nat l) s = Some s' \<and> pview s' S B' \<and> disj S B' \<and>
     free_pages S B' = free_pages S B \<union> {i..<l} \<and> free_mem s' = free_mem s \<and>
     (\<forall>a b. a \<noteq> 0 \<longrightarrow> B' a b = B a b)"
proof (induction "l - i" arbitrary: i s B)
  case 0
  then show ?case by (subst pfree_loop.simps) auto
next
  case (Suc k)
  have il: "i < l" "valid S 0 i" using Suc by (auto simp: valid_def)
  have small: "l < 2 ^ 64" using Suc.prems(1,5) by (simp add: pview_def geometry_def)
  have "block 0 i \<inter> free_pages S B = {}" using Suc.prems(3) il by auto
  note give = give_block [OF Suc.prems(2) il(2) this]
  obtain m where m: "clear_bit_at 0 (of_nat i) s = Some (s\<lparr>pm := m\<rparr>)"
      "pview (add_free 0 1 (s\<lparr>pm := m\<rparr>)) S (upd B 0 i False)"
    using clear_step [OF Suc.prems(1) il(2) give(1)] by blast
  have disj: "{Suc i..<l} \<inter> free_pages S (upd B 0 i False) = {}"
  proof -
    have "{Suc i..<l} \<subseteq> {i..<l}" "i \<notin> {Suc i..<l}" by auto
    then show ?thesis using Suc.prems(3) unfolding give(3) block_0 by blast
  qed
  have "k = l - Suc i" "Suc i \<le> l" using Suc.hyps(2) il by auto
  then obtain s' B' where s': "pfree_loop (of_nat (Suc i)) (of_nat l) (add_free 0 1 (s\<lparr>pm := m\<rparr>)) = Some s'"
      "pview s' S B'" "disj S B'" "free_pages S B' = free_pages S (upd B 0 i False) \<union> {Suc i..<l}" "free_mem s' = free_mem s"
      "\<forall>a b. a \<noteq> 0 \<longrightarrow> B' a b = upd B 0 i False a b"
    using Suc.hyps(1) [OF _ m(2) give(2) disj] Suc.prems(5) by auto
  have "{i..<l} = insert i {Suc i..<l}" using il(1) by auto
  then have "free_pages S B' = free_pages S B \<union> {i..<l}" using s'(4) give(3) by auto
  moreover have "pfree_loop (of_nat i) (of_nat l) s = Some s'"
    using s'(1) m(1) il(1) small by (subst pfree_loop.simps) (simp add: u64_of_nat_less add.commute)
  moreover have "\<forall>a b. a \<noteq> 0 \<longrightarrow> B' a b = B a b" using s'(6) by (simp add: upd_def)
  ultimately show ?case using s' by blast
qed

lemma set_bit_at_pm:
  "set_bit_at i j s = Some t \<Longrightarrow> pmmSetBit (pm s) (bm_base (bitmaps s ! i)) j = Some (pm t)"
  by (auto simp: set_bit_at_def split: bind_splits)

lemma add_free_twice: "add_free l a (add_free l b s) = add_free l (b + a) s"
  by (cases "l < length (bitmaps s)") (simp_all add: add_free_def list_update_beyond add.assoc)

lemma add_free_pm: "(add_free l d s)\<lparr>pm := m\<rparr> = add_free l d (s\<lparr>pm := m\<rparr>)"
  by (simp add: add_free_def)

lemma merge_pair_ok:
  assumes v: "pview s S B" and d: "disj S B" and S: "64 dvd S" and l: "l < 6"
    and k: "valid S (Suc l) k" and i: "i div 2 = k"
  shows "\<exists>s' B'. merge_pair l (of_nat i) (of_nat (2 * k)) (of_nat (2 * k + 1)) s = Some s' \<and>
     pview s' S B' \<and> disj S B' \<and> free_pages S B' = free_pages S B \<and> free_mem s' = free_mem s \<and>
     (\<forall>a b. a \<noteq> l \<and> a \<noteq> Suc l \<longrightarrow> B' a b = B a b)"
proof -
  note child = valid_child [OF k]
  have bits: "bits_ok s S B" and S49: "S < 2 ^ 49" using v by (auto simp: pview_bits bits_ok_def geometry_def)
  have par: "PARENT (of_nat i) = of_nat k"
  proof -
    have "i \<le> 2 * k + 1" using i by linarith
    then have "i < 2 ^ 64" using valid_small [OF k S49] by simp
    then show ?thesis using i by (simp add: PARENT_of_nat)
  qed
  show ?thesis
  proof (cases "B l (2 * k) \<or> B l (2 * k + 1)")
    case True
    then have "merge_pair l (of_nat i) (of_nat (2 * k)) (of_nat (2 * k + 1)) s = Some s"
      using check_bit_ok [OF bits child(1)] check_bit_ok [OF bits child(2)]
      by (auto simp: merge_pair_def)
    with v d show ?thesis by blast
  next
    case False
    then have f: "\<not> B l (2 * k)" "\<not> B l (2 * k + 1)" by auto
    have "B (Suc l) k" using parent_set [OF d S child(1) _ f(1)] l by simp
    then obtain m1 where 1: "clear_bit_at (Suc l) (of_nat k) s = Some (s\<lparr>pm := m1\<rparr>)"
        "pview (add_free (Suc l) 1 (s\<lparr>pm := m1\<rparr>)) S (upd B (Suc l) k False)" (is "pview ?s1 S ?B1")
      using clear_step [OF v k] by blast
    have "\<not> ?B1 l (2 * k)" using f by (simp add: upd_def)
    then obtain m2 where 2: "set_bit_at l (of_nat (2 * k)) ?s1 = Some (?s1\<lparr>pm := m2\<rparr>)"
        "pview (add_free l (- 1) (?s1\<lparr>pm := m2\<rparr>)) S (upd ?B1 l (2 * k) True)" (is "pview ?s2 S ?B2")
      using set_step [OF 1(2) child(1)] by blast
    have "\<not> ?B2 l (2 * k + 1)" using f by (simp add: upd_def)
    then obtain m3 where 3: "set_bit_at l (of_nat (2 * k + 1)) ?s2 = Some (?s2\<lparr>pm := m3\<rparr>)"
        "pview (add_free l (- 1) (?s2\<lparr>pm := m3\<rparr>)) S (upd ?B2 l (2 * k + 1) True)" (is "pview ?s3 S ?B3")
      using set_step [OF 2(2) child(2)] by blast
    have set2: "set_bit_at l (of_nat (2 * k + 1)) (?s1\<lparr>pm := m2\<rparr>) = Some (?s1\<lparr>pm := m3\<rparr>)"
      using set_bit_at_pm [OF 3(1)] by (simp add: set_bit_at_def)
    have "?s3 = add_free l (- 2) (?s1\<lparr>pm := m3\<rparr>)"
      by (simp add: add_free_pm add_free_twice)
    then have mp: "merge_pair l (of_nat i) (of_nat (2 * k)) (of_nat (2 * k + 1)) s = Some ?s3"
      using check_bit_ok [OF bits child(1)] check_bit_ok [OF bits child(2)] f 1(1) 2(1) set2 par
      by (simp add: merge_pair_def)
    let ?T = "upd (upd B l (2 * k) True) l (2 * k + 1) True"
    have B3: "?B3 = upd ?T (Suc l) k False" by (auto simp: upd_def fun_eq_iff)
    note t1 = take_block [OF d child(1) f(1)]
    have "\<not> upd B l (2 * k) True l (2 * k + 1)" using f by (simp add: upd_def)
    note t2 = take_block [OF t1(1) child(2) this]
    have "block (Suc l) k \<inter> free_pages S ?T = {}" unfolding t2(2) t1(2) block_children by blast
    note g = give_block [OF t2(1) k this]
    have "free_pages S ?B3 = free_pages S B"
      unfolding B3 g(3) t2(2) t1(2) block_children using take_block(3) [OF d child(1) f(1)] take_block(3) [OF d child(2) f(2)]
      by blast
    moreover have "disj S ?B3" unfolding B3 by (rule g(2))
    moreover have "free_mem ?s3 = free_mem s" by simp
    moreover have "\<forall>a b. a \<noteq> l \<and> a \<noteq> Suc l \<longrightarrow> ?B3 a b = B a b" by (simp add: upd_def)
    ultimately show ?thesis using mp 3(2) by blast
  qed
qed

lemma coalesce_even_ok:
  assumes S: "64 dvd S" and l: "l < 6" and L: "last0 \<le> 8 * (S div 2 ^ l)"
  shows "\<lbrakk>pview s S B; disj S B; even i; i \<le> Suc last0\<rbrakk> \<Longrightarrow>
   \<exists>s' B'. coalesce_even l (of_nat i) (of_nat last0) s = Some s' \<and> pview s' S B' \<and> disj S B' \<and>
     free_pages S B' = free_pages S B \<and> free_mem s' = free_mem s \<and>
     (\<forall>a b. a \<noteq> l \<and> a \<noteq> Suc l \<longrightarrow> B' a b = B a b)"
proof (induction "Suc last0 - i" arbitrary: i s B rule: less_induct)
  case less
  have S49: "S < 2 ^ 49" using less.prems(1) by (simp add: pview_def geometry_def)
  have small: "last0 < 2 ^ 63"
    using L le_less_trans [OF div_le_dividend [of S "2 ^ l"] S49] by simp
  show ?case
  proof (cases "i < last0")
    case False
    then have "\<not> of_nat i < (of_nat last0 :: u64)" using less.prems(4) small by (simp add: u64_of_nat_less)
    with less.prems show ?thesis by (subst coalesce_even.simps) auto
  next
    case True
    define k where "k = i div 2"
    have k: "i = 2 * k" using less.prems(3) by (simp add: k_def)
    have "valid S l i" using True L l by (simp add: valid_def)
    then have vk: "valid S (Suc l) k" using valid_parent [OF S, of l i] l k_def by simp
    obtain s1 B1 where 1: "merge_pair l (of_nat i) (of_nat (2 * k)) (of_nat (2 * k + 1)) s = Some s1"
        "pview s1 S B1" "disj S B1" "free_pages S B1 = free_pages S B" "free_mem s1 = free_mem s"
        "\<forall>a b. a \<noteq> l \<and> a \<noteq> Suc l \<longrightarrow> B1 a b = B a b"
      using merge_pair_ok [OF less.prems(1,2) S l vk k_def [symmetric]] by blast
    have "even (i + 2)" "i + 2 \<le> Suc last0" "Suc last0 - (i + 2) < Suc last0 - i"
      using less.prems(3) True by auto
    then obtain s' B' where 2: "coalesce_even l (of_nat (i + 2)) (of_nat last0) s1 = Some s'" "pview s' S B'" "disj S B'"
        "free_pages S B' = free_pages S B1" "free_mem s' = free_mem s1"
        "\<forall>a b. a \<noteq> l \<and> a \<noteq> Suc l \<longrightarrow> B' a b = B1 a b"
      using less.hyps [OF _ 1(2,3), of "i + 2"] by blast
    have "of_nat i < (of_nat last0 :: u64)" using True small by (simp add: u64_of_nat_less)
    moreover have "of_nat i = (of_nat (2 * k) :: u64)" "of_nat i + 1 = (of_nat (2 * k + 1) :: u64)"
      unfolding k by simp_all
    moreover have "of_nat i + 2 = (of_nat (i + 2) :: u64)" by simp
    ultimately have "coalesce_even l (of_nat i) (of_nat last0) s = Some s'"
      using 1(1) 2(1) by (subst coalesce_even.simps) (simp add: add.commute)
    with 1 2 show ?thesis by metis
  qed
qed

lemma coalesce_odd_ok:
  assumes S: "64 dvd S" and l: "l < 6" and L: "last0 \<le> 8 * (S div 2 ^ l)"
  shows "\<lbrakk>pview s S B; disj S B; odd i; i \<le> Suc last0\<rbrakk> \<Longrightarrow>
   \<exists>s' B'. coalesce_odd l (of_nat i) (of_nat last0) s = Some s' \<and> pview s' S B' \<and> disj S B' \<and>
     free_pages S B' = free_pages S B \<and> free_mem s' = free_mem s \<and>
     (\<forall>a b. a \<noteq> l \<and> a \<noteq> Suc l \<longrightarrow> B' a b = B a b)"
proof (induction "Suc last0 - i" arbitrary: i s B rule: less_induct)
  case less
  have S49: "S < 2 ^ 49" using less.prems(1) by (simp add: pview_def geometry_def)
  have small: "last0 < 2 ^ 63"
    using L le_less_trans [OF div_le_dividend [of S "2 ^ l"] S49] by simp
  show ?case
  proof (cases "i < last0")
    case False
    then have "\<not> of_nat i < (of_nat last0 :: u64)" using less.prems(4) small by (simp add: u64_of_nat_less)
    with less.prems show ?thesis by (subst coalesce_odd.simps) auto
  next
    case True
    define k where "k = i div 2"
    have k: "i = 2 * k + 1" using less.prems(3) by (simp add: k_def)
    have "valid S l i" using True L l by (simp add: valid_def)
    then have vk: "valid S (Suc l) k" using valid_parent [OF S, of l i] l k_def by simp
    obtain s1 B1 where 1: "merge_pair l (of_nat i) (of_nat (2 * k)) (of_nat (2 * k + 1)) s = Some s1"
        "pview s1 S B1" "disj S B1" "free_pages S B1 = free_pages S B" "free_mem s1 = free_mem s"
        "\<forall>a b. a \<noteq> l \<and> a \<noteq> Suc l \<longrightarrow> B1 a b = B a b"
      using merge_pair_ok [OF less.prems(1,2) S l vk k_def [symmetric]] by blast
    have "odd (i + 2)" "i + 2 \<le> Suc last0" "Suc last0 - (i + 2) < Suc last0 - i"
      using less.prems(3) True by auto
    then obtain s' B' where 2: "coalesce_odd l (of_nat (i + 2)) (of_nat last0) s1 = Some s'" "pview s' S B'" "disj S B'"
        "free_pages S B' = free_pages S B1" "free_mem s' = free_mem s1"
        "\<forall>a b. a \<noteq> l \<and> a \<noteq> Suc l \<longrightarrow> B' a b = B1 a b"
      using less.hyps [OF _ 1(2,3), of "i + 2"] by blast
    have "of_nat i < (of_nat last0 :: u64)" using True small by (simp add: u64_of_nat_less)
    moreover have "of_nat i - 1 = (of_nat (2 * k) :: u64)" "of_nat i = (of_nat (2 * k + 1) :: u64)"
      unfolding k by simp_all
    moreover have "of_nat i + 2 = (of_nat (i + 2) :: u64)" by simp
    ultimately have "coalesce_odd l (of_nat i) (of_nat last0) s = Some s'"
      using 1(1) 2(1) by (subst coalesce_odd.simps) simp
    with 1 2 show ?thesis by metis
  qed
qed

lemma coalesce_ok:
  assumes S: "64 dvd S"
  shows "\<lbrakk>pview s S B; disj S B; l < 6; j + n \<le> 8 * (S div 2 ^ l)\<rbrakk> \<Longrightarrow>
   \<exists>s' B'. coalesce (of_nat n) l (of_nat j) s = Some s' \<and> pview s' S B' \<and> disj S B' \<and>
     free_pages S B' = free_pages S B \<and> free_mem s' = free_mem s"
proof (induction "6 - l" arbitrary: l j n s B rule: less_induct)
  case less
  have S49: "S < 2 ^ 49" using less.prems(1) by (simp add: pview_def geometry_def)
  have small: "j + n < 2 ^ 63"
    using less.prems(4) le_less_trans [OF div_le_dividend [of S "2 ^ l"] S49] by simp
  have parity: "(of_nat j mod 2 = (0 :: u64)) = even j"
    using small by (simp add: word_unat_eq_iff unat_mod unat_of_nat even_iff_mod_2_eq_zero)
  obtain s1 B1 where 1: "(if even j then coalesce_even l (of_nat j) (of_nat (j + n)) s
        else coalesce_odd l (of_nat j) (of_nat (j + n)) s) = Some s1"
      "pview s1 S B1" "disj S B1" "free_pages S B1 = free_pages S B" "free_mem s1 = free_mem s"
    using coalesce_even_ok [OF S less.prems(3,4,1,2), of j] coalesce_odd_ok [OF S less.prems(3,4,1,2), of j]
    by (cases "even j") auto
  have half: "of_nat n div 2 = (of_nat (n div 2) :: u64)" "PARENT (of_nat j) = of_nat (j div 2)"
    using small by (simp_all add: PARENT_def word_unat_eq_iff unat_div unat_of_nat)
  show ?case
  proof (cases "l = 5")
    case True
    then have "coalesce (of_nat n) l (of_nat j) s = Some s1"
      using 1(1) [unfolded parity [symmetric] of_nat_add] by (subst coalesce.simps) (simp add: NUM_BITMAPS_def)
    with 1 show ?thesis by blast
  next
    case False
    have "2 ^ Suc l dvd (64 :: nat)"
      using less.prems(3) le_imp_power_dvd [of "Suc l" 6 "2 :: nat"] by simp
    with S obtain c where c: "S = 2 ^ Suc l * c" by (meson dvdE dvd_trans)
    have "S div 2 ^ l = 2 * c" unfolding c by (simp add: mult.assoc)
    moreover have "S div 2 ^ Suc l = c" unfolding c by simp
    ultimately have b: "j div 2 + n div 2 \<le> 8 * (S div 2 ^ Suc l)" using less.prems(4) by simp
    have "6 - Suc l < 6 - l" "Suc l < 6" using less.prems(3) False by auto
    then obtain s' B' where 2: "coalesce (of_nat (n div 2)) (Suc l) (of_nat (j div 2)) s1 = Some s'" "pview s' S B'"
        "disj S B'" "free_pages S B' = free_pages S B1" "free_mem s' = free_mem s1"
      using less.hyps [OF _ 1(2,3) _ b] by blast
    then have "coalesce (of_nat n) l (of_nat j) s = Some s'"
      using 1(1) [unfolded parity [symmetric] of_nat_add] False half by (subst coalesce.simps) (simp add: NUM_BITMAPS_def)
    with 1 2 show ?thesis by metis
  qed
qed

lemma pfree_ok:
  assumes inv: "page_inv S s F" and n: "0 < n" and p: "p \<noteq> 0" "p + n \<le> 8 * S" "{p..<p + n} \<inter> F = {}"
  shows "\<exists>s'. pfree (of_nat p * PAGE_SIZE) (of_nat n) s = Some s' \<and> page_inv S s' (F \<union> {p..<p + n})"
proof -
  obtain B where B: "pview s S B" "disj S B" "F = free_pages S B" "free_mem s = of_nat (4096 * card F)" and S: "64 dvd S"
    using inv by (auto simp: page_inv_def)
  have S49: "S < 2 ^ 49" "finite F" using page_inv_bound [OF inv] by auto
  have addr: "unat (of_nat p * PAGE_SIZE) = p * 4096"
    using p(2) S49 by (simp add: PAGE_SIZE_def unat_word_ariths unat_of_nat)
  then have idx: "of_nat p * PAGE_SIZE div PAGE_SIZE = of_nat p" "of_nat p * PAGE_SIZE \<noteq> 0"
    using p S49 by (auto simp: word_unat_eq_iff unat_div PAGE_SIZE_def unat_of_nat)
  obtain s1 B1 where 1: "pfree_loop (of_nat p) (of_nat (p + n)) s = Some s1" "pview s1 S B1" "disj S B1"
      "free_pages S B1 = F \<union> {p..<p + n}" "free_mem s1 = free_mem s"
    using pfree_loop_ok [OF B(1,2), of p "p + n"] p B(3) by auto
  obtain s2 B2 where 2: "coalesce (of_nat n) 0 (of_nat p) s1 = Some s2" "pview s2 S B2" "disj S B2"
      "free_pages S B2 = F \<union> {p..<p + n}" "free_mem s2 = free_mem s"
    using coalesce_ok [OF S 1(2,3), of 0 p n] p 1(4,5) by auto
  let ?s = "s2\<lparr>free_mem := free_mem s2 + of_nat n * PAGE_SIZE\<rparr>"
  have "of_nat n \<noteq> (0 :: u64)"
    using n p(2) S49 by (auto simp: word_of_nat_eq_0_iff dest: dvd_imp_le)
  then have "pfree (of_nat p * PAGE_SIZE) (of_nat n) s = Some ?s"
    using 1(1) 2(1) idx by (simp add: pfree_def)
  moreover have "pview ?s S B2" using 2(2) by (simp add: pview_def geometry_def)
  moreover have "free_mem ?s = of_nat (4096 * card (F \<union> {p..<p + n}))"
    using p(3) S49 by (simp add: 2(5) B(4) card_Un_disjoint Int_commute PAGE_SIZE_def algebra_simps)
  ultimately show ?thesis using S 2(3,4) unfolding page_inv_def by metis
qed

section \<open>The allocator contract\<close>

lemma page_addr_PAGE: "of_nat p * PAGE_SIZE = page_addr p"
  by (simp add: page_addr_def PAGE_SIZE_def)

interpretation pmm_pages: page_allocator "\<lambda>s F. page_inv S s F \<and> 0 \<notin> F" pmalloc pfree "8 * S" for S
proof
  fix s F and n :: nat
  assume a: "page_inv S s F \<and> 0 \<notin> F" "0 < n" "n \<le> 64"
  obtain r s' where r: "pmalloc (of_nat n) s = Some (r, s')" and
    alt: "r = 0 \<and> s' = s \<or> (\<exists>p. r = of_nat p * PAGE_SIZE \<and> {p..<p + n} \<subseteq> F \<and> 2 ^ level_for n dvd p \<and>
         page_inv S s' (F - {p..<p + n}))"
    using pmalloc_ok [of S s F n] a by blast
  have "p \<noteq> 0" if "{p..<p + n} \<subseteq> F" for p using that a by (cases p) auto
  with alt show "\<exists>r s'. pmalloc (of_nat n) s = Some (r, s') \<and>
      (r = 0 \<and> page_inv S s' F \<and> 0 \<notin> F \<or>
       (\<exists>p. p \<noteq> 0 \<and> r = page_addr p \<and> run_of (p, n) \<subseteq> F \<and> page_inv S s' (F - run_of (p, n)) \<and> 0 \<notin> F - run_of (p, n)))"
    using r a by (fastforce simp: run_of_def page_addr_PAGE)
next
  fix s F and n p :: nat
  assume a: "page_inv S s F \<and> 0 \<notin> F" "0 < n" "p \<noteq> 0" "p + n \<le> 8 * S" "run_of (p, n) \<inter> F = {}"
  then show "\<exists>s'. pfree (page_addr p) (of_nat n) s = Some s' \<and>
      page_inv S s' (F \<union> run_of (p, n)) \<and> 0 \<notin> F \<union> run_of (p, n)"
    using pfree_ok [of S s F n p] by (auto simp: run_of_def page_addr_PAGE)
next
  fix s F
  assume "page_inv S s F \<and> 0 \<notin> F"
  then show "F \<subseteq> {..<8 * S} \<and> 8 * S * 4096 \<le> 2 ^ 64" using page_inv_bound [of S s F] by auto
qed

section \<open>A freed page merges at most once\<close>

lemma coalesce_none: "l < 6 \<Longrightarrow> coalesce 0 l j s = Some s"
proof (induction "6 - l" arbitrary: l j rule: less_induct)
  case less
  have e: "coalesce_even l j j s = Some s" "coalesce_odd l j j s = Some s"
    by (subst coalesce_even.simps coalesce_odd.simps; simp)+
  show ?case
  proof (cases "l = 5")
    case True
    with e show ?thesis by (subst coalesce.simps) (simp add: NUM_BITMAPS_def)
  next
    case False
    then have "coalesce 0 (Suc l) (PARENT j) s = Some s" using less.prems by (intro less.hyps) auto
    with e False show ?thesis by (subst coalesce.simps) (simp add: NUM_BITMAPS_def)
  qed
qed

lemma pfree_one_page:
  assumes inv: "page_inv S s F" and p: "p \<noteq> 0" "p < 8 * S" "p \<notin> F"
  shows "\<exists>s'. pfree (page_addr p) 1 s = Some s' \<and>
     (\<forall>i j. 2 \<le> i \<and> valid S i j \<longrightarrow> check_bit_at i (of_nat j) s' = check_bit_at i (of_nat j) s)"
proof -
  obtain B where B: "pview s S B" "disj S B" "F = free_pages S B" and S: "64 dvd S"
    using inv by (auto simp: page_inv_def)
  have S49: "S < 2 ^ 49" using page_inv_bound [OF inv] by auto
  have "unat (page_addr p) = p * 4096"
    using p(2) S49 by (simp add: page_addr_def unat_word_ariths unat_of_nat)
  then have idx: "page_addr p div PAGE_SIZE = of_nat p" "page_addr p \<noteq> 0"
    using p S49 by (auto simp: word_unat_eq_iff unat_div PAGE_SIZE_def unat_of_nat)
  obtain s1 B1 where 1: "pfree_loop (of_nat p) (of_nat (p + 1)) s = Some s1" "pview s1 S B1" "disj S B1"
      "\<forall>a b. a \<noteq> 0 \<longrightarrow> B1 a b = B a b"
    using pfree_loop_ok [OF B(1,2), of p "p + 1"] p B(3) by auto
  have L: "p + 1 \<le> 8 * (S div 2 ^ 0)" "(0 :: nat) < 6" "p \<le> Suc (p + 1)" using p by auto
  obtain s2 B2 where 2: "(if even p then coalesce_even 0 (of_nat p) (of_nat (p + 1)) s1
        else coalesce_odd 0 (of_nat p) (of_nat (p + 1)) s1) = Some s2"
      "pview s2 S B2" "\<forall>a b. a \<noteq> 0 \<and> a \<noteq> Suc 0 \<longrightarrow> B2 a b = B1 a b"
    using coalesce_even_ok [OF S L(2,1) 1(2,3) _ L(3)] coalesce_odd_ok [OF S L(2,1) 1(2,3) _ L(3)]
    by (cases "even p") auto
  have parity: "(of_nat p mod 2 = (0 :: u64)) = even p"
    using p(2) S49 by (simp add: word_unat_eq_iff unat_mod unat_of_nat even_iff_mod_2_eq_zero)
  have "coalesce 1 0 (of_nat p) s1 = Some s2"
    using 2(1) [unfolded parity [symmetric] of_nat_add of_nat_1] coalesce_none [of 1 "PARENT (of_nat p)" s2]
    by (subst coalesce.simps) (simp add: NUM_BITMAPS_def split: if_splits)
  then have pf: "pfree (page_addr p) 1 s = Some (s2\<lparr>free_mem := free_mem s2 + 1 * PAGE_SIZE\<rparr>)" (is "_ = Some ?s")
    using 1(1) idx by (simp add: pfree_def add.commute)
  have "bits_ok ?s S B2" "bits_ok s S B"
    using 2(2) B(1) by (auto simp: pview_bits bits_ok_def geometry_def)
  then have "\<forall>i j. 2 \<le> i \<and> valid S i j \<longrightarrow> check_bit_at i (of_nat j) ?s = check_bit_at i (of_nat j) s"
    using 2(3) 1(4) by (auto simp: check_bit_ok)
  with pf show ?thesis by blast
qed

end
