(* ===== verification/Pmm_Init.thy ===== *)
theory Pmm_Init
  imports Pmm_Correct
begin

text \<open>
  Initialisation of the physical memory manager: \<^verbatim>\<open>initPMM\<close> builds, from the boot loader's memory
  map, bitmaps whose free pages are exactly the usable pages of the map.
\<close>

section \<open>Loops over one level\<close>

definition mark :: "levels \<Rightarrow> nat \<Rightarrow> bool \<Rightarrow> (nat \<Rightarrow> bool) \<Rightarrow> nat \<Rightarrow> levels" where
  "mark B i v P n = (\<lambda>i' j. if i' = i \<and> j < n \<and> P j then v else B i' j)"

lemma mark_0 [simp]: "mark B i v P 0 = B"
  by (simp add: mark_def fun_eq_iff)

lemma mark_Suc: "mark B i v P (Suc n) = (if P n then upd (mark B i v P n) i n v else mark B i v P n)"
  by (auto simp: mark_def upd_def fun_eq_iff less_Suc_eq)

lemma div_minus_1: "n mod 4096 \<noteq> 0 \<Longrightarrow> (n - 1) div 4096 = n div 4096" for n :: nat
proof (rule div_nat_eqI)
  assume "n mod 4096 \<noteq> 0"
  moreover have "n = 4096 * (n div 4096) + n mod 4096" "n mod 4096 < 4096" by simp_all
  ultimately have "4096 * (n div 4096) \<le> n - 1" "n - 1 < 4096 + 4096 * (n div 4096)" by linarith+
  then show "4096 * (n div 4096) \<le> n - 1" "n - 1 < 4096 * Suc (n div 4096)" by (simp_all only: mult_Suc_right)
qed

lemma level_loop:
  assumes unfold: "\<And>j s. \<lbrakk>Q j s; j \<le> N\<rbrakk> \<Longrightarrow>
      f (of_nat j) s = (if j < N then do { s \<leftarrow> g j s; f (of_nat (Suc j)) s } else Some s)"
    and step: "\<And>j s. \<lbrakk>Q j s; j < N\<rbrakk> \<Longrightarrow> \<exists>s'. g j s = Some s' \<and> Q (Suc j) s'"
  shows "j \<le> N \<Longrightarrow> Q j s \<Longrightarrow> \<exists>s'. f (of_nat j :: u64) s = Some s' \<and> Q N s'"
proof (induction "N - j" arbitrary: j s)
  case 0
  then show ?case using unfold [of j s] by auto
next
  case (Suc k)
  then have j: "j < N" "k = N - Suc j" by auto
  obtain s1 where "g j s = Some s1" "Q (Suc j) s1" using step [OF Suc.prems(2) j(1)] by blast
  with Suc.hyps(1) [OF j(2), of s1] j show ?case using unfold [OF Suc.prems(2)] by auto
qed

lemma pview_cong:
  "(\<And>i j. valid S i j \<Longrightarrow> B i j = B' i j) \<Longrightarrow> pview s S B \<longleftrightarrow> pview s S B'"
proof -
  assume eq: "\<And>i j. valid S i j \<Longrightarrow> B i j = B' i j"
  then have "{j. valid S i j \<and> \<not> B i j} = {j. valid S i j \<and> \<not> B' i j}" for i by auto
  then show ?thesis using eq by (simp add: pview_def nfree_def)
qed

lemma pview_geometry: "pview s S B \<Longrightarrow> geometry s S"
  by (simp add: pview_def)

definition kept :: "pmm \<Rightarrow> pmm \<Rightarrow> bool" where
  "kept s t \<longleftrightarrow> mmap_entries t = mmap_entries s \<and> bitmap_base t = bitmap_base s"

lemma kept_refl [simp]: "kept s s"
  by (simp add: kept_def)

lemma kept_trans: "kept s t \<Longrightarrow> kept t u \<Longrightarrow> kept s u"
  by (simp add: kept_def)

lemma kept_upd [simp]: "kept s (add_free i d t) = kept s t" "kept s (t\<lparr>pm := m\<rparr>) = kept s t"
  by (simp_all add: kept_def)

lemma init_usable_ok:
  assumes "pview s S (\<lambda>_ _. True)"
  shows "\<exists>s'. init_usable 0 s = Some s' \<and>
     pview s' S (mark (\<lambda>_ _. True) 0 False (\<lambda>p. pmmGetStatusFromMMap s (of_nat p) = 0) (8 * S)) \<and>
     kept s s'"
proof -
  let ?U = "\<lambda>p. pmmGetStatusFromMMap s (of_nat p) = 0"
  let ?B = "mark (\<lambda>_ _. True) 0 False ?U"
  let ?Q = "\<lambda>j s'. pview s' S (?B j) \<and> kept s s'"
  let ?g = "\<lambda>j s'. if pmmGetStatusFromMMap s' (of_nat j) = ucast LIMINE_MEMMAP_USABLE
      then do { s' \<leftarrow> clear_bit_at 0 (of_nat j) s'; Some (add_free 0 1 s') } else Some s'"
  have "\<exists>s'. init_usable (of_nat 0) s = Some s' \<and> ?Q (8 * S) s'"
  proof (rule level_loop [where g = ?g])
    fix j s'
    assume "?Q j s'" "j \<le> 8 * S"
    then show "init_usable (of_nat j) s' =
        (if j < 8 * S then do { s' \<leftarrow> ?g j s'; init_usable (of_nat (Suc j)) s' } else Some s')"
      using level_limit [of s' S 0 j] by (subst init_usable.simps) (auto simp: pview_geometry add.commute)
  next
    fix j s'
    assume q: "?Q j s'" and j: "j < 8 * S"
    have st: "pmmGetStatusFromMMap s' (of_nat j) = pmmGetStatusFromMMap s (of_nat j)"
      using q by (simp add: pmmGetStatusFromMMap_def kept_def)
    show "\<exists>s''. ?g j s' = Some s'' \<and> ?Q (Suc j) s''"
    proof (cases "?U j")
      case True
      have "valid S 0 j" "?B j 0 j" using j by (auto simp: valid_def mark_def)
      then obtain m where "clear_bit_at 0 (of_nat j) s' = Some (s'\<lparr>pm := m\<rparr>)"
          "pview (add_free 0 1 (s'\<lparr>pm := m\<rparr>)) S (upd (?B j) 0 j False)"
        using clear_step [of s' S "?B j" 0 j] q by blast
      with True q st show ?thesis by (simp add: mark_Suc LIMINE_MEMMAP_USABLE_def)
    next
      case False
      with q st show ?thesis by (simp add: mark_Suc LIMINE_MEMMAP_USABLE_def)
    qed
  qed (use assms in auto)
  then show ?thesis by simp
qed

lemma init_merge_ok:
  assumes v: "pview s S B" and i: "Suc k < 7" and B: "\<forall>j. valid S (Suc k) j \<longrightarrow> B (Suc k) j"
  shows "\<exists>s'. init_merge (Suc k) 0 s = Some s' \<and>
     pview s' S (mark B (Suc k) False (\<lambda>j. \<not> B k (2 * j) \<and> \<not> B k (2 * j + 1)) (8 * (S div 2 ^ Suc k))) \<and>
     kept s s'"
proof -
  let ?P = "\<lambda>j. \<not> B k (2 * j) \<and> \<not> B k (2 * j + 1)"
  let ?B = "mark B (Suc k) False ?P"
  let ?N = "8 * (S div 2 ^ Suc k)"
  let ?Q = "\<lambda>j s'. pview s' S (?B j) \<and> kept s s'"
  let ?g = "\<lambda>j s'. do {
      a \<leftarrow> check_bit_at (Suc k - 1) (L_CHILD (of_nat j)) s';
      b \<leftarrow> (if a = 0 then check_bit_at (Suc k - 1) (R_CHILD (of_nat j)) s' else Some 1);
      if a = 0 \<and> b = 0 then do { s' \<leftarrow> clear_bit_at (Suc k) (of_nat j) s'; Some (add_free (Suc k) 1 s') } else Some s' }"
  have "\<exists>s'. init_merge (Suc k) (of_nat 0) s = Some s' \<and> ?Q ?N s'"
  proof (rule level_loop [where g = ?g])
    fix j s'
    assume "?Q j s'" "j \<le> ?N"
    then show "init_merge (Suc k) (of_nat j) s' =
        (if j < ?N then do { s' \<leftarrow> ?g j s'; init_merge (Suc k) (of_nat (Suc j)) s' } else Some s')"
      using level_limit [of s' S "Suc k" j] i
      by (subst init_merge.simps) (auto simp: pview_geometry add.commute)
  next
    fix j s'
    assume q: "?Q j s'" and j: "j < ?N"
    have vj: "valid S (Suc k) j" using j i by (simp add: valid_def)
    note child = valid_child [OF vj]
    have bits: "bits_ok s' S (?B j)" using q by (simp add: pview_bits)
    have "?B j k (2 * j) = B k (2 * j)" "?B j k (2 * j + 1) = B k (2 * j + 1)" by (simp_all add: mark_def)
    then have chk: "check_bit_at k (L_CHILD (of_nat j)) s' = Some (of_bool (B k (2 * j)))"
        "check_bit_at k (R_CHILD (of_nat j)) s' = Some (of_bool (B k (2 * j + 1)))"
      using check_bit_ok [OF bits child(1)] check_bit_ok [OF bits child(2)]
      by (simp_all add: L_CHILD_def R_CHILD_def mult.commute add.commute)
    show "\<exists>s''. ?g j s' = Some s'' \<and> ?Q (Suc j) s''"
    proof (cases "?P j")
      case True
      have "?B j (Suc k) j" using B vj by (simp add: mark_def)
      then obtain m where "clear_bit_at (Suc k) (of_nat j) s' = Some (s'\<lparr>pm := m\<rparr>)"
          "pview (add_free (Suc k) 1 (s'\<lparr>pm := m\<rparr>)) S (upd (?B j) (Suc k) j False)"
        using clear_step [of s' S "?B j" "Suc k" j] q vj by blast
      with True q chk show ?thesis by (simp add: mark_Suc)
    next
      case False
      with q chk show ?thesis by (auto simp: mark_Suc)
    qed
  qed (use v in auto)
  then show ?thesis by simp
qed

lemma init_prune_ok:
  assumes v: "pview s S B" and i: "Suc k < 7" and S: "64 dvd S"
    and B: "\<forall>j. valid S k j \<and> \<not> B (Suc k) (j div 2) \<longrightarrow> \<not> B k j"
  shows "\<exists>s'. init_prune k 0 s = Some s' \<and>
     pview s' S (mark B k True (\<lambda>j. \<not> B (Suc k) (j div 2)) (8 * (S div 2 ^ k))) \<and>
     kept s s'"
proof -
  let ?P = "\<lambda>j. \<not> B (Suc k) (j div 2)"
  let ?B = "mark B k True ?P"
  let ?N = "8 * (S div 2 ^ k)"
  let ?Q = "\<lambda>j s'. pview s' S (?B j) \<and> kept s s'"
  let ?g = "\<lambda>j s'. do {
      c \<leftarrow> check_bit_at (k + 1) (PARENT (of_nat j)) s';
      if c = 0 then do { s' \<leftarrow> set_bit_at k (of_nat j) s'; Some (add_free k (- 1) s') } else Some s' }"
  have "\<exists>s'. init_prune k (of_nat 0) s = Some s' \<and> ?Q ?N s'"
  proof (rule level_loop [where g = ?g])
    fix j s'
    assume "?Q j s'" "j \<le> ?N"
    then show "init_prune k (of_nat j) s' =
        (if j < ?N then do { s' \<leftarrow> ?g j s'; init_prune k (of_nat (Suc j)) s' } else Some s')"
      using level_limit [of s' S k j] i
      by (subst init_prune.simps) (auto simp: pview_geometry add.commute)
  next
    fix j s'
    assume q: "?Q j s'" and j: "j < ?N"
    have vj: "valid S k j" using j i by (simp add: valid_def)
    have bits: "bits_ok s' S (?B j)" using q by (simp add: pview_bits)
    have "j < 2 ^ 64" using valid_small [OF vj] v by (simp add: pview_def geometry_def)
    then have chk: "check_bit_at (k + 1) (PARENT (of_nat j)) s' = Some (of_bool (B (Suc k) (j div 2)))"
      using check_bit_ok [OF bits valid_parent [OF S vj i]] by (simp add: PARENT_of_nat mark_def)
    show "\<exists>s''. ?g j s' = Some s'' \<and> ?Q (Suc j) s''"
    proof (cases "?P j")
      case True
      have "\<not> ?B j k j" using B vj True by (simp add: mark_def)
      then obtain m where "set_bit_at k (of_nat j) s' = Some (s'\<lparr>pm := m\<rparr>)"
          "pview (add_free k (- 1) (s'\<lparr>pm := m\<rparr>)) S (upd (?B j) k j True)"
        using set_step [of s' S "?B j" k j] q vj by blast
      with True q chk show ?thesis by (simp add: mark_Suc)
    next
      case False
      with q chk show ?thesis by (simp add: mark_Suc)
    qed
  qed (use v in auto)
  then show ?thesis by simp
qed

section \<open>All levels\<close>

definition usable_block :: "(nat \<Rightarrow> bool) \<Rightarrow> nat \<Rightarrow> nat \<Rightarrow> bool" where
  "usable_block U i j \<longleftrightarrow> (\<forall>p\<in>block i j. U p)"

definition merged :: "(nat \<Rightarrow> bool) \<Rightarrow> nat \<Rightarrow> levels" where
  "merged U k = (\<lambda>i j. \<not> (i < k \<and> usable_block U i j))"

definition pruned :: "(nat \<Rightarrow> bool) \<Rightarrow> nat \<Rightarrow> levels" where
  "pruned U k = (\<lambda>i j. \<not> (usable_block U i j \<and> \<not> (i < k \<and> usable_block U (Suc i) (j div 2))))"

lemma usable_block_children: "usable_block U (Suc i) j \<longleftrightarrow> usable_block U i (2 * j) \<and> usable_block U i (2 * j + 1)"
  unfolding usable_block_def block_children by blast

lemma usable_block_parent: "usable_block U (Suc i) (j div 2) \<Longrightarrow> usable_block U i j"
  using block_parent [of i j] by (auto simp: usable_block_def)

lemma merge_levels:
  "\<lbrakk>pview s S (merged U (Suc k)); Suc k + n \<le> 7\<rbrakk> \<Longrightarrow>
   \<exists>s'. for_each (\<lambda>i. init_merge i 0) [Suc k..<Suc k + n] s = Some s' \<and>
     pview s' S (merged U (Suc k + n)) \<and> kept s s'"
proof (induction n arbitrary: k s)
  case (Suc n)
  let ?P = "\<lambda>j. \<not> merged U (Suc k) k (2 * j) \<and> \<not> merged U (Suc k) k (2 * j + 1)"
  have k7: "Suc k < 7" and all: "\<forall>j. valid S (Suc k) j \<longrightarrow> merged U (Suc k) (Suc k) j"
    using Suc.prems(2) by (simp_all add: merged_def)
  obtain s1 where s1: "init_merge (Suc k) 0 s = Some s1" "kept s s1"
      "pview s1 S (mark (merged U (Suc k)) (Suc k) False ?P (8 * (S div 2 ^ Suc k)))"
    using init_merge_ok [OF Suc.prems(1) k7 all] by blast
  have "pview s1 S (merged U (Suc (Suc k)))"
    using s1(3) by (rule pview_cong [THEN iffD1, rotated])
      (auto simp: mark_def merged_def valid_def usable_block_children less_Suc_eq)
  then obtain s' where "for_each (\<lambda>i. init_merge i 0) [Suc (Suc k)..<Suc (Suc k) + n] s1 = Some s'"
      "pview s' S (merged U (Suc (Suc k) + n))" "kept s1 s'"
    using Suc.IH [of s1 "Suc k"] Suc.prems(2) by auto
  with s1 kept_trans show ?case by (auto simp: upt_conv_Cons simp del: upt_Suc)
qed simp

lemma prune_levels:
  assumes "64 dvd S"
  shows "\<lbrakk>pview s S (pruned U k); k + n \<le> 6\<rbrakk> \<Longrightarrow>
   \<exists>s'. for_each (\<lambda>i. init_prune i 0) [k..<k + n] s = Some s' \<and>
     pview s' S (pruned U (k + n)) \<and> kept s s'"
proof (induction n arbitrary: k s)
  case (Suc n)
  let ?P = "\<lambda>j. \<not> pruned U k (Suc k) (j div 2)"
  have k7: "Suc k < 7" using Suc.prems(2) by simp
  have sub: "\<forall>j. valid S k j \<and> \<not> pruned U k (Suc k) (j div 2) \<longrightarrow> \<not> pruned U k k j"
    using usable_block_parent [of U k] by (simp add: pruned_def)
  obtain s1 where s1: "init_prune k 0 s = Some s1" "kept s s1"
      "pview s1 S (mark (pruned U k) k True ?P (8 * (S div 2 ^ k)))"
    using init_prune_ok [OF Suc.prems(1) k7 assms sub] by blast
  have "pview s1 S (pruned U (Suc k))"
    using s1(3) by (rule pview_cong [THEN iffD1, rotated])
      (auto simp: mark_def pruned_def valid_def less_Suc_eq)
  then obtain s' where "for_each (\<lambda>i. init_prune i 0) [Suc k..<Suc k + n] s1 = Some s'"
      "pview s' S (pruned U (Suc k + n))" "kept s1 s'"
    using Suc.IH [of s1 "Suc k"] Suc.prems(2) by auto
  with s1 kept_trans show ?case by (auto simp: upt_conv_Cons simp del: upt_Suc)
qed simp

lemma in_block: "p \<in> block i j \<longleftrightarrow> j = p div 2 ^ i"
proof
  assume "j = p div 2 ^ i"
  then show "p \<in> block i j"
    using dividend_less_div_times [of "2 ^ i" p] by (simp add: block_def add.commute)
next
  assume "p \<in> block i j"
  then have "p div 2 ^ i = j" by (intro div_nat_eqI) (auto simp: block_def mult.commute)
  then show "j = p div 2 ^ i" by simp
qed

lemma div_pow_Suc: "p div 2 ^ Suc i = p div 2 ^ i div 2" for p :: nat
  by (simp add: div_mult2_eq [symmetric] mult.commute)

lemma usable_down: "usable_block U (i + d) (p div 2 ^ (i + d)) \<Longrightarrow> usable_block U i (p div 2 ^ i)"
proof (induction d)
  case (Suc d)
  have "usable_block U (Suc (i + d)) (p div 2 ^ (i + d) div 2)"
    using Suc.prems unfolding add_Suc_right div_pow_Suc .
  then have "usable_block U (i + d) (p div 2 ^ (i + d))" by (rule usable_block_parent)
  then show ?case by (rule Suc.IH)
qed simp

lemma pruned_disj: "disj S (pruned U 6)"
proof -
  have less: "\<not> (\<not> pruned U 6 i (p div 2 ^ i) \<and> \<not> pruned U 6 i' (p div 2 ^ i'))" if "i < i'" "i' < 7" for i i' p
  proof
    assume a: "\<not> pruned U 6 i (p div 2 ^ i) \<and> \<not> pruned U 6 i' (p div 2 ^ i')"
    then have "usable_block U (Suc i + (i' - Suc i)) (p div 2 ^ (Suc i + (i' - Suc i)))"
      using that by (simp add: pruned_def)
    then have "usable_block U (Suc i) (p div 2 ^ Suc i)" by (rule usable_down)
    then show False using a that unfolding div_pow_Suc by (simp add: pruned_def)
  qed
  show ?thesis
    unfolding disj_def
  proof (intro allI impI)
    fix i j i' j'
    assume a: "valid S i j" "valid S i' j'" "\<not> pruned U 6 i j" "\<not> pruned U 6 i' j'" "(i, j) \<noteq> (i', j')"
    show "block i j \<inter> block i' j' = {}"
    proof (rule ccontr)
      assume "block i j \<inter> block i' j' \<noteq> {}"
      then obtain p where "p \<in> block i j" "p \<in> block i' j'" by blast
      then have p: "j = p div 2 ^ i" "j' = p div 2 ^ i'" by (simp_all add: in_block)
      with a(5) consider "i < i'" | "i' < i" by fastforce
      then show False using less [of i i' p] less [of i' i p] a p by cases (auto simp: valid_def)
    qed
  qed
qed

lemma valid_block_of:
  assumes "64 dvd S" "p < 8 * S" "i < 7"
  shows "valid S i (p div 2 ^ i)"
proof -
  have "2 ^ i dvd (64 :: nat)" using assms(3) le_imp_power_dvd [of i 6 "2 :: nat"] by simp
  with assms(1) obtain c where c: "S = 2 ^ i * c" by (meson dvdE dvd_trans)
  have "p div 2 ^ i < 8 * c"
    using assms(2) unfolding c by (intro less_mult_imp_div_less) (simp add: mult_ac)
  then show ?thesis using assms(3) by (simp add: valid_def c)
qed

lemma pruned_pages:
  assumes "64 dvd S"
  shows "free_pages S (pruned U 6) = {p. p < 8 * S \<and> U p}"
proof (rule set_eqI)
  fix p
  show "p \<in> free_pages S (pruned U 6) \<longleftrightarrow> p \<in> {p. p < 8 * S \<and> U p}"
  proof
    assume "p \<in> free_pages S (pruned U 6)"
    moreover from this have "p < 8 * S" using free_pages_bound [of S "pruned U 6"] by blast
    ultimately show "p \<in> {p. p < 8 * S \<and> U p}" by (auto simp: free_pages_def pruned_def usable_block_def)
  next
    assume "p \<in> {p. p < 8 * S \<and> U p}"
    then have p: "p < 8 * S" "U p" by auto
    define i where "i = Max {i. i < 7 \<and> usable_block U i (p div 2 ^ i)}"
    have fin: "finite {i. i < 7 \<and> usable_block U i (p div 2 ^ i)}" by simp
    have "0 \<in> {i. i < 7 \<and> usable_block U i (p div 2 ^ i)}" using p(2) by (simp add: usable_block_def)
    then have i: "i < 7" "usable_block U i (p div 2 ^ i)"
      using Max_in [OF fin] unfolding i_def by blast+
    have "\<not> usable_block U (Suc i) (p div 2 ^ Suc i)" if "i < 6"
      using Max_ge [OF fin, of "Suc i"] that unfolding i_def [symmetric] by auto
    then have "\<not> pruned U 6 i (p div 2 ^ i)" using i by (simp only: pruned_def div_pow_Suc) blast
    moreover have "p \<in> block i (p div 2 ^ i)" by (simp add: in_block)
    ultimately show "p \<in> free_pages S (pruned U 6)"
      using valid_block_of [OF assms p(1) i(1)] unfolding free_pages_def by blast
  qed
qed

lemma card_block: "card (block i j) = 2 ^ i"
  by (simp add: block_def)

lemma card_free_pages:
  assumes "disj S B"
  shows "card (free_pages S B) = (\<Sum>i<7. nfree S B i * 2 ^ i)"
proof -
  let ?L = "\<lambda>i. {j. valid S i j \<and> \<not> B i j}"
  have eq: "free_pages S B = (\<Union>a\<in>(SIGMA i:{..<7}. ?L i). block (fst a) (snd a))"
    by (fastforce simp: free_pages_def valid_def)
  have "card (free_pages S B) = (\<Sum>a\<in>(SIGMA i:{..<7}. ?L i). card (block (fst a) (snd a)))"
    unfolding eq
  proof (rule card_UN_disjoint)
    show "finite (SIGMA i:{..<7}. ?L i)" by (intro finite_SigmaI) (auto simp: finite_level)
    show "\<forall>a\<in>(SIGMA i:{..<7}. ?L i). finite (block (fst a) (snd a))" by (simp add: block_def)
    show "\<forall>a\<in>(SIGMA i:{..<7}. ?L i). \<forall>b\<in>(SIGMA i:{..<7}. ?L i). a \<noteq> b \<longrightarrow>
        block (fst a) (snd a) \<inter> block (fst b) (snd b) = {}"
      using assms unfolding disj_def by (metis (no_types, lifting) SigmaE fst_conv mem_Collect_eq snd_conv)
  qed
  also have "\<dots> = (\<Sum>i<7. \<Sum>j\<in>?L i. card (block i j))"
    by (subst sum.Sigma) (auto simp: finite_level split_beta)
  finally show ?thesis by (simp add: card_block nfree_def)
qed

section \<open>The layout of the bitmaps\<close>

definition bitmap_bytes :: "limine_memmap_entry list \<Rightarrow> nat" where
  "bitmap_bytes entries =
     (let e = last entries in unat ((mbase e + mlength e - 2 * push_bit 30 1) div PAGE_SIZE div 8))"

definition shifted_entries :: "limine_memmap_entry list \<Rightarrow> limine_memmap_entry list" where
  "shifted_entries entries =
     (let b = of_nat (off (bitmap_bytes entries) 7); k = find_entry entries b; e = entries ! k
      in entries[k := e\<lparr>mbase := mbase e + b, mlength := mlength e - b\<rparr>])"

lemma sum_sizes:
  "sum_list (map (\<lambda>i. of_nat (S div 2 ^ i) :: u64) [0..<n]) = of_nat (off S n)"
  by (induction n) (simp_all add: off_def)

lemma drop_bit_of_nat_small: "S < 2 ^ 64 \<Longrightarrow> drop_bit i (of_nat S :: u64) = of_nat (S div 2 ^ i)"
proof (rule word_unat_eq_iff [THEN iffD2])
  assume S: "S < 2 ^ 64"
  have "S div 2 ^ i < 2 ^ 64" using S le_less_trans [OF div_le_dividend] by blast
  with S show "unat (drop_bit i (of_nat S :: u64)) = unat (of_nat (S div 2 ^ i) :: u64)"
    by (simp add: unat_drop_bit_eq unat_of_nat flip: drop_bit_eq_div)
qed

lemma init_layout_ok:
  assumes ne: "entries \<noteq> []" and S: "S = bitmap_bytes entries"
    and k: "k = find_entry entries (of_nat (off S 7))" "k < length entries"
  shows "\<exists>s. init_layout entries m = Some s \<and> geometry s S \<and> pm s = m \<and> bitmap_base s = mbase (entries ! k) \<and>
     mmap_entries s = shifted_entries entries \<and> (\<forall>i<7. bm_free (bitmaps s ! i) = 0)"
proof -
  let ?msize = "mbase (last entries) + mlength (last entries) - 2 * push_bit 30 1"
  have "unat (?msize div PAGE_SIZE div 8) = unat ?msize div 4096 div 8"
    by (simp add: unat_div PAGE_SIZE_def)
  moreover have "unat ?msize < 2 ^ 64" using unsigned_less [of ?msize] by simp
  ultimately have S49: "S < 2 ^ 49" by (simp add: S bitmap_bytes_def Let_def)
  have iS: "?msize div PAGE_SIZE div 8 = of_nat S" by (simp add: S bitmap_bytes_def Let_def)
  have sizes: "map (\<lambda>i. drop_bit i (of_nat S :: u64)) [0..<7] = map (\<lambda>i. of_nat (S div 2 ^ i)) [0..<7]"
    using S49 by (simp add: drop_bit_of_nat_small)
  have take: "sum_list (take i (map (\<lambda>i. of_nat (S div 2 ^ i) :: u64) [0..<7])) = of_nat (off S i)" if "i < 7" for i
    using that sum_sizes [of S i] by (simp add: take_map)
  show ?thesis
    unfolding init_layout_def Let_def iS NUM_BITMAPS_def sizes sum_sizes k(1) [symmetric]
    using ne k(2) S49 take
    by (simp add: geometry_def shifted_entries_def S [symmetric] k(1) [symmetric] Let_def)
qed

lemma fill_levels:
  "\<lbrakk>geometry s S; region (pm s) (bitmap_base s) (off S 7); k + n \<le> 7;
    \<forall>q<off S k. ld8 (pm s) (bitmap_base s + of_nat q) = Some 0xFF\<rbrakk> \<Longrightarrow>
   \<exists>m. for_each fill_bitmap [k..<k + n] s = Some (s\<lparr>pm := m\<rparr>) \<and>
     (\<forall>q<off S (k + n). ld8 m (bitmap_base s + of_nat q) = Some 0xFF)"
proof (induction n arbitrary: k s)
  case 0
  then show ?case by (intro exI [of _ "pm s"]) simp
next
  case (Suc n)
  let ?b = "bitmap_base s + of_nat (off S k)"
  let ?n = "S div 2 ^ k"
  have S49: "S < 2 ^ 49" using Suc.prems(1) by (simp add: geometry_def)
  have o7: "off S k + ?n \<le> off S 7" using off_mono [of "Suc k" 7 S] Suc.prems(3) by simp
  have o52: "off S 7 \<le> 2 ^ 52" using off_bound [of S 7] S49 by simp
  have "unat (of_nat ?n :: u64) = ?n"
    using le_less_trans [OF div_le_dividend [of S "2 ^ k"] S49] by (simp add: unat_of_nat)
  then have bm: "bm_base (bitmaps s ! k) = ?b" "unat (bm_size (bitmaps s ! k)) = ?n"
    using Suc.prems(1,3) by (auto simp: geometry_def)
  have "region (pm s) ?b ?n" using region_sub [OF Suc.prems(2) o7] .
  moreover have "?n \<le> 2 ^ 64" using o7 o52 by simp
  ultimately obtain m1 where m1: "fill_up (pm s) ?b 0xFF ?n = Some m1"
      "\<forall>i<?n. ld8 m1 (?b + of_nat i) = Some 0xFF" "\<forall>q. q \<notin> span ?b ?n \<longrightarrow> ld8 m1 q = ld8 (pm s) q"
    using fill_up_ok by blast
  let ?s1 = "s\<lparr>pm := m1\<rparr>"
  have "region m1 (bitmap_base s) (off S 7)"
    unfolding region_def
  proof (intro allI impI)
    fix i
    assume i: "i < off S 7"
    show "ld8 m1 (bitmap_base s + of_nat i) \<noteq> None"
    proof (cases "bitmap_base s + of_nat i \<in> span ?b ?n")
      case True
      then obtain j where "j < ?n" "bitmap_base s + of_nat i = ?b + of_nat j" by (auto simp only: span_def atLeastLessThan_iff)
      then have "ld8 m1 (bitmap_base s + of_nat i) = Some 0xFF" using m1(2) by metis
      then show ?thesis by simp
    next
      case False
      with m1(3) Suc.prems(2) i show ?thesis by (simp add: region_def)
    qed
  qed
  moreover have "ld8 m1 (bitmap_base s + of_nat q) = Some 0xFF" if q: "q < off S (Suc k)" for q
  proof (cases "q < off S k")
    case True
    have "span (bitmap_base s + of_nat q) 1 \<inter> span ?b ?n = {}"
      by (rule span_disjoint) (use True o7 o52 in auto)
    then have "bitmap_base s + of_nat q \<notin> span ?b ?n" unfolding span_single by blast
    with m1(3) Suc.prems(4) True show ?thesis by simp
  next
    case False
    then obtain i where "q = off S k + i" "i < ?n" using q by (metis add_less_cancel_left le_iff_add not_less off_Suc)
    then show ?thesis using m1(2) by (simp add: add.assoc)
  qed
  moreover have "geometry ?s1 S" using Suc.prems(1) by (simp add: geometry_def)
  ultimately obtain m where m: "for_each fill_bitmap [Suc k..<Suc k + n] ?s1 = Some (?s1\<lparr>pm := m\<rparr>)"
      "\<forall>q<off S (Suc k + n). ld8 m (bitmap_base s + of_nat q) = Some 0xFF"
    using Suc.IH [of ?s1 "Suc k"] Suc.prems(3) by auto
  have "fill_bitmap k s = Some ?s1" using m1(1) bm by (simp add: fill_bitmap_def)
  then have "for_each fill_bitmap [k..<k + Suc n] s = Some (s\<lparr>pm := m\<rparr>)"
    using m(1) by (simp add: upt_conv_Cons del: upt_Suc)
  with m(2) show ?case by auto
qed

lemma bit_FF: "n < 8 \<Longrightarrow> bit (0xFF :: u8) n"
  by (simp add: bit_iff_odd less_Suc_eq numeral_eq_Suc) auto

lemma filled_view:
  assumes g: "geometry s S" and f: "\<forall>q<off S 7. ld8 (pm s) (bitmap_base s + of_nat q) = Some 0xFF"
    and z: "\<forall>i<7. bm_free (bitmaps s ! i) = 0"
  shows "pview s S (\<lambda>_ _. True)"
proof -
  have S49: "S < 2 ^ 49" using g by (simp add: geometry_def)
  have "ldb (bitmap_base s) S (pm s) (i, j) = Some True" if v: "valid S i j" for i j
  proof -
    have "off S (Suc i) \<le> off S 7" using v by (intro off_mono) (simp add: valid_def)
    then have "off S i + j div 8 < off S 7" using valid_byte(3) [OF v S49] by simp
    then have "ld8 (pm s) (byte_at (bitmap_base s) S i j) = Some 0xFF"
      unfolding byte_at_eq [OF v S49] using f by blast
    then show ?thesis using v S49 bit_FF by (simp add: ldb_def)
  qed
  with g z show ?thesis by (simp add: pview_def nfree_def)
qed

lemma initPMM_ok:
  assumes ne: "entries \<noteq> []" and S: "S = bitmap_bytes entries" "64 dvd S"
    and k: "k = find_entry entries (of_nat (off S 7))" "k < length entries"
    and r: "region m (mbase (entries ! k)) (off S 7)"
  shows "\<exists>s. initPMM entries m = Some s \<and> bitmap_base s = mbase (entries ! k) \<and> mmap_entries s = shifted_entries entries \<and>
     page_inv S s {p. p < 8 * S \<and> (ucast (status_in (shifted_entries entries) (of_nat p)) :: u8) = 0}"
proof -
  obtain s0 where s0: "init_layout entries m = Some s0" "geometry s0 S" "pm s0 = m" "bitmap_base s0 = mbase (entries ! k)"
      "mmap_entries s0 = shifted_entries entries" "\<forall>i<7. bm_free (bitmaps s0 ! i) = 0"
    using init_layout_ok [OF ne S(1) k] by blast
  obtain m1 where m1: "for_each fill_bitmap [0..<7] s0 = Some (s0\<lparr>pm := m1\<rparr>)"
      "\<forall>q<off S 7. ld8 m1 (bitmap_base s0 + of_nat q) = Some 0xFF"
    using fill_levels [OF s0(2), of 0 7] r s0(3,4) by (auto simp: off_def)
  let ?s1 = "s0\<lparr>pm := m1\<rparr>"
  let ?U = "\<lambda>p. (ucast (status_in (shifted_entries entries) (of_nat p)) :: u8) = 0"
  have v1: "pview ?s1 S (\<lambda>_ _. True)"
    using filled_view [of ?s1 S] s0(2,6) m1(2) by (simp add: geometry_def)
  obtain s2 where s2: "init_usable 0 ?s1 = Some s2" "kept ?s1 s2"
      "pview s2 S (mark (\<lambda>_ _. True) 0 False ?U (8 * S))"
    using init_usable_ok [OF v1] by (auto simp: pmmGetStatusFromMMap_def s0(5))
  have "pview s2 S (merged ?U (Suc 0))"
    using s2(3) by (rule pview_cong [THEN iffD1, rotated])
      (auto simp: mark_def merged_def valid_def usable_block_def)
  then obtain s3 where s3: "for_each (\<lambda>i. init_merge i 0) [1..<7] s2 = Some s3" "pview s3 S (merged ?U 7)" "kept s2 s3"
    using merge_levels [of s2 S ?U 0 6] by auto
  have "pview s3 S (pruned ?U 0)"
    using s3(2) by (rule pview_cong [THEN iffD1, rotated]) (auto simp: merged_def pruned_def valid_def)
  then obtain s4 where s4: "for_each (\<lambda>i. init_prune i 0) [0..<6] s3 = Some s4" "pview s4 S (pruned ?U 6)" "kept s3 s4"
    using prune_levels [OF S(2), of s3 ?U 0 6] by auto
  let ?fm = "sum_list (map (\<lambda>i. bm_free (bitmaps s4 ! i) * push_bit i PAGE_SIZE) [0..<7])"
  have "bm_free (bitmaps s4 ! i) * push_bit i PAGE_SIZE = of_nat (4096 * (nfree S (pruned ?U 6) i * 2 ^ i))" if "i < 7" for i
    using s4(2) that by (simp add: pview_def PAGE_SIZE_def push_bit_eq_mult)
  then have "?fm = sum_list (map (\<lambda>i. of_nat (4096 * (nfree S (pruned ?U 6) i * 2 ^ i))) [0..<7])"
    by (intro arg_cong [of _ _ sum_list] map_cong) auto
  also have "\<dots> = of_nat (\<Sum>i<7. 4096 * (nfree S (pruned ?U 6) i * 2 ^ i))"
    by (simp only: interv_sum_list_conv_sum_set_nat set_upt of_nat_sum atLeast0LessThan)
  also have "\<dots> = of_nat (4096 * card (free_pages S (pruned ?U 6)))"
    unfolding card_free_pages [OF pruned_disj] sum_distrib_left ..
  finally have fm: "?fm = of_nat (4096 * card (free_pages S (pruned ?U 6)))" .
  let ?s = "s4\<lparr>free_mem := ?fm\<rparr>"
  have "initPMM entries m = Some ?s"
    by (simp add: initPMM_def NUM_BITMAPS_def s0(1) m1(1) s2(1) s3(1) [unfolded One_nat_def] s4(1) del: upt_rec_numeral)
  moreover have "bitmap_base ?s = mbase (entries ! k)" "mmap_entries ?s = shifted_entries entries"
    using s2(2) s3(3) s4(3) s0(4,5) by (simp_all add: kept_def)
  moreover have "pview ?s S (pruned ?U 6)" using s4(2) by (simp add: pview_def geometry_def)
  ultimately show ?thesis
    using fm pruned_disj [of S ?U] pruned_pages [OF S(2), of ?U] S(2) unfolding page_inv_def
    by (intro exI [of _ ?s]) (auto simp del: upt_rec_numeral)
qed

section \<open>Properties\<close>

definition boot_map :: "limine_memmap_entry list" where
  "boot_map = [\<lparr>mbase = 0x1000, mlength = 0xFF000, mtype = 0\<rparr>, \<lparr>mbase = 0x80000000, mlength = 0x200000, mtype = 1\<rparr>]"

definition boot_mem :: mem where
  "boot_mem = (\<lambda>_. Some 0)"

definition boot_free :: "nat set" where
  "boot_free = {p. p < 512 \<and> (ucast (status_in (shifted_entries boot_map) (of_nat p)) :: u8) = 0}"

lemma boot_bytes: "bitmap_bytes boot_map = 64"
  by (simp add: bitmap_bytes_def boot_map_def PAGE_SIZE_def)

lemma boot_off: "off 64 7 = 127"
  by code_simp

lemma boot_entry: "find_entry boot_map (of_nat (off 64 7)) = 0"
  by (simp add: boot_off boot_map_def LIMINE_MEMMAP_USABLE_def)

lemma boot_region: "region boot_mem p n"
  by (simp add: region_def boot_mem_def ld8_def)

lemma boot_shifted:
  "shifted_entries boot_map =
     [\<lparr>mbase = 0x107F, mlength = 0xFEF81, mtype = 0\<rparr>, \<lparr>mbase = 0x80000000, mlength = 0x200000, mtype = 1\<rparr>]"
  unfolding shifted_entries_def boot_bytes Let_def boot_entry by (simp add: boot_off boot_map_def)

lemma boot_pages: "0 \<notin> boot_free" "1 \<in> boot_free" "{300..<302} \<inter> boot_free = {}"
proof -
  show "0 \<notin> boot_free" "1 \<in> boot_free"
    by (simp_all add: boot_free_def boot_shifted PAGE_SIZE_def LIMINE_MEMMAP_RESERVED_def)
  have "300 \<notin> boot_free" "301 \<notin> boot_free"
    by (simp_all add: boot_free_def boot_shifted PAGE_SIZE_def LIMINE_MEMMAP_RESERVED_def)
  moreover have "{300..<302} = {300, 301 :: nat}" by auto
  ultimately show "{300..<302} \<inter> boot_free = {}" by simp
qed

lemma boot_state: "\<exists>s. initPMM boot_map boot_mem = Some s \<and> page_inv 64 s boot_free"
proof -
  have "boot_map \<noteq> []" "0 < length boot_map" by (simp_all add: boot_map_def)
  with initPMM_ok [of boot_map 64 0 boot_mem] show ?thesis
    by (auto simp: boot_bytes boot_entry boot_free_def boot_region)
qed

text \<open>
  C1: for every memory map whose page count is a multiple of 512,
  \<^verbatim>\<open>initPMM\<close> terminates and sets up bitmaps whose free pages are exactly the pages the (shifted)
  memory map marks usable, as pairwise disjoint blocks with matching counters and
  free-memory total.
\<close>
theorem initPMM_correct:
  assumes "entries \<noteq> []" and "64 dvd bitmap_bytes entries"
    and "k = find_entry entries (of_nat (off (bitmap_bytes entries) 7))" and "k < length entries"
    and "region m (mbase (entries ! k)) (off (bitmap_bytes entries) 7)"
  shows "\<exists>s. initPMM entries m = Some s \<and>
     page_inv (bitmap_bytes entries) s
       {p. p < 8 * bitmap_bytes entries \<and> pmmGetStatusFromMMap s (of_nat p) = 0} \<and>
     pmmGetFreeMem s = of_nat (4096 * card {p. p < 8 * bitmap_bytes entries \<and> pmmGetStatusFromMMap s (of_nat p) = 0})"
proof -
  let ?S = "bitmap_bytes entries"
  obtain s where s: "initPMM entries m = Some s" "mmap_entries s = shifted_entries entries"
      "page_inv ?S s {p. p < 8 * ?S \<and> (ucast (status_in (shifted_entries entries) (of_nat p)) :: u8) = 0}"
    using initPMM_ok [OF assms(1) refl assms(2-5)] by blast
  then have "page_inv ?S s {p. p < 8 * ?S \<and> pmmGetStatusFromMMap s (of_nat p) = 0}"
    by (simp add: pmmGetStatusFromMMap_def)
  moreover from this have "pmmGetFreeMem s = of_nat (4096 * card {p. p < 8 * ?S \<and> pmmGetStatusFromMMap s (of_nat p) = 0})"
    unfolding page_inv_def pmmGetFreeMem_def by blast
  ultimately show ?thesis using s(1) by blast
qed

theorem initPMM_correct_witness:
  "\<exists>s. initPMM boot_map boot_mem = Some s \<and>
     page_inv 64 s {p. p < 512 \<and> pmmGetStatusFromMMap s (of_nat p) = 0}"
proof -
  have "boot_map \<noteq> []" "0 < length boot_map" by (simp_all add: boot_map_def)
  with initPMM_correct [of boot_map 0 boot_mem] show ?thesis
    by (auto simp: boot_bytes boot_entry boot_region)
qed

text \<open>
  C2: \<^verbatim>\<open>pmalloc\<close> always returns. For 1 to 64 pages it either returns null
  and changes nothing, which happens only when no large enough block is recorded free, or returns the address of that many consecutive free pages, aligned to the
  next power of two, and takes exactly these pages out of the free set and the free-memory counter;
  for more than 64 pages it returns null.
\<close>
theorem pmalloc_correct:
  assumes "page_inv S s F" and "0 < n" and "n \<le> 2 ^ 63"
  shows "\<exists>r s'. pmalloc (of_nat n) s = Some (r, s') \<and>
     (r = NULL \<and> s' = s \<and>
      (n \<le> 64 \<longrightarrow> (\<forall>i j. level_for n \<le> i \<and> valid S i j \<longrightarrow> check_bit_at i (of_nat j) s = Some 1)) \<or>
      n \<le> 64 \<and> (\<exists>p. r = of_nat p * PAGE_SIZE \<and> {p..<p + n} \<subseteq> F \<and> 2 ^ level_for n dvd p \<and>
         page_inv S s' (F - {p..<p + n}) \<and> pmmGetFreeMem s' = of_nat (4096 * card (F - {p..<p + n}))))"
proof (cases "n \<le> 64")
  case True
  have fm: "pmmGetFreeMem s' = of_nat (4096 * card G)" if "page_inv S s' G" for s' G
    using that by (auto simp: page_inv_def pmmGetFreeMem_def)
  obtain r s' where "pmalloc (of_nat n) s = Some (r, s')" and
    "r = NULL \<and> s' = s \<and> (\<forall>i j. level_for n \<le> i \<and> valid S i j \<longrightarrow> check_bit_at i (of_nat j) s = Some 1) \<or>
      (\<exists>p. r = of_nat p * PAGE_SIZE \<and> {p..<p + n} \<subseteq> F \<and> 2 ^ level_for n dvd p \<and> page_inv S s' (F - {p..<p + n}))"
    using pmalloc_ok [OF assms(1,2) True] by blast
  with True fm show ?thesis by blast
next
  case False
  with pmalloc_index [OF assms(2,3)] show ?thesis by simp
qed

theorem pmalloc_correct_witness:
  "\<exists>s r s'. initPMM boot_map boot_mem = Some s \<and> pmalloc 3 s = Some (r, s') \<and>
     (r = NULL \<and> s' = s \<or>
      (\<exists>p. r = of_nat p * PAGE_SIZE \<and> {p..<p + 3} \<subseteq> boot_free \<and> page_inv 64 s' (boot_free - {p..<p + 3})))"
proof -
  obtain s where s: "initPMM boot_map boot_mem = Some s" "page_inv 64 s boot_free" using boot_state by blast
  obtain r s' where "pmalloc (of_nat 3) s = Some (r, s')" "r = NULL \<and> s' = s \<or>
      (\<exists>p. r = of_nat p * PAGE_SIZE \<and> {p..<p + 3} \<subseteq> boot_free \<and> page_inv 64 s' (boot_free - {p..<p + 3}))"
    using pmalloc_correct [OF s(2), of 3] by auto
  with s(1) show ?thesis by auto
qed

text \<open>
  C3: releasing pages that are allocated returns and adds exactly these pages to
  the free set and the free-memory counter, however the blocks are merged.
\<close>
theorem pfree_correct:
  assumes "page_inv S s F" and "0 < n" and "p \<noteq> 0" and "p + n \<le> 8 * S" and "{p..<p + n} \<inter> F = {}"
  shows "\<exists>s'. pfree (of_nat p * PAGE_SIZE) (of_nat n) s = Some s' \<and> page_inv S s' (F \<union> {p..<p + n}) \<and>
     pmmGetFreeMem s' = pmmGetFreeMem s + of_nat (4096 * n)"
proof -
  obtain s' where s': "pfree (of_nat p * PAGE_SIZE) (of_nat n) s = Some s'" "page_inv S s' (F \<union> {p..<p + n})"
    using pfree_ok [OF assms] by blast
  have "card (F \<union> {p..<p + n}) = card F + n"
    using assms(5) page_inv_bound [OF assms(1)] by (simp add: card_Un_disjoint Int_commute)
  with s' assms(1) show ?thesis by (auto simp: page_inv_def pmmGetFreeMem_def)
qed

theorem pfree_correct_witness:
  "\<exists>s s'. initPMM boot_map boot_mem = Some s \<and> pfree (of_nat 300 * PAGE_SIZE) (of_nat 2) s = Some s' \<and>
     page_inv 64 s' (boot_free \<union> {300..<300 + 2})"
proof -
  obtain s where s: "initPMM boot_map boot_mem = Some s" "page_inv 64 s boot_free" using boot_state by blast
  from pfree_correct [OF s(2), of 2 300] s(1) boot_pages(3) show ?thesis by auto
qed

text \<open>
  C13: whatever sequence of requests of 1 to 64 pages is made, all
  calls return, every block returned lies in the pages that were free, no two blocks returned share
  a page, and the free set afterwards is the initial one without these blocks (page 0 is assumed
  not to be free, since its address is the null pointer).
\<close>
theorem pmm_allocations_disjoint:
  assumes "page_inv S s F" and "0 \<notin> F" and "\<forall>n\<in>set ns. 0 < n \<and> n \<le> 64"
  shows "\<exists>ps s'. alloc_all pmalloc ns s = Some (map (\<lambda>(p, n). (page_addr p, n)) ps, s') \<and>
     (\<forall>a\<in>set ps. run_of a \<subseteq> F) \<and> sorted_wrt (\<lambda>a b. run_of a \<inter> run_of b = {}) ps \<and>
     page_inv S s' (F - (\<Union>a\<in>set ps. run_of a))"
  using pmm_pages.alloc_all_disjoint [of S s F ns] assms by blast

theorem pmm_allocations_disjoint_witness:
  "\<exists>s ps s'. initPMM boot_map boot_mem = Some s \<and>
     alloc_all pmalloc [1, 5, 64] s = Some (map (\<lambda>(p, n). (page_addr p, n)) ps, s') \<and>
     sorted_wrt (\<lambda>a b. run_of a \<inter> run_of b = {}) ps"
proof -
  obtain s where s: "initPMM boot_map boot_mem = Some s" "page_inv 64 s boot_free" using boot_state by blast
  from pmm_allocations_disjoint [OF s(2) boot_pages(1), of "[1, 5, 64]"] s(1) show ?thesis by auto
qed

text \<open>
  Releasing a block right after it was allocated restores the free set.
\<close>
theorem pmm_alloc_release:
  assumes "page_inv S s F" and "0 \<notin> F" and "0 < n" and "n \<le> 64"
    and "pmalloc (of_nat n) s = Some (r, s')" and "r \<noteq> NULL"
  shows "\<exists>s''. pfree r (of_nat n) s' = Some s'' \<and> page_inv S s'' F"
  using pmm_pages.alloc_release [of S s F n r s'] assms by blast

lemma boot_alloc:
  "\<exists>s r s'. initPMM boot_map boot_mem = Some s \<and> page_inv 64 s boot_free \<and> pmalloc (of_nat 1) s = Some (r, s') \<and> r \<noteq> NULL"
proof -
  obtain s where s: "initPMM boot_map boot_mem = Some s" "page_inv 64 s boot_free" using boot_state by blast
  obtain r s' where r: "pmalloc (of_nat 1) s = Some (r, s')" and
    alt: "(\<forall>i j. level_for 1 \<le> i \<and> valid 64 i j \<longrightarrow> check_bit_at i (of_nat j) s = Some 1) \<or>
      (\<exists>p. r = of_nat p * PAGE_SIZE \<and> {p..<p + 1} \<subseteq> boot_free)"
    using pmalloc_ok [OF s(2), of 1] by auto
  obtain B where B: "pview s 64 B" "boot_free = free_pages 64 B" using s(2) by (auto simp: page_inv_def)
  have "level_for 1 = 0" using level_for_props(2) [of 1 0] by simp
  moreover obtain i j where ij: "valid 64 i j" "\<not> B i j" using boot_pages(2) B(2) by (auto simp: free_pages_def)
  moreover have "check_bit_at i (of_nat j) s = Some 0"
    using check_bit_ok [of s 64 B i j] B(1) ij by (simp add: pview_bits)
  ultimately have "\<not> (\<forall>i j. level_for 1 \<le> i \<and> valid 64 i j \<longrightarrow> check_bit_at i (of_nat j) s = Some 1)"
    by (metis le0 option.inject zero_neq_one)
  with alt obtain p where p: "r = page_addr p" "p \<in> boot_free" by (auto simp: page_addr_PAGE)
  then have "p \<noteq> 0" using boot_pages(1) by metis
  then have "r \<noteq> NULL" using pmm_pages.page_addr_nz [of 64 s boot_free p] s(2) p boot_pages(1) by simp
  with s r show ?thesis by blast
qed

theorem pmm_alloc_release_witness:
  "\<exists>s r s' s''. initPMM boot_map boot_mem = Some s \<and> pmalloc (of_nat 1) s = Some (r, s') \<and> r \<noteq> NULL \<and>
     pfree r (of_nat 1) s' = Some s'' \<and> page_inv 64 s'' boot_free"
proof -
  obtain s r s' where "initPMM boot_map boot_mem = Some s" "page_inv 64 s boot_free"
      "pmalloc (of_nat 1) s = Some (r, s')" "r \<noteq> NULL" using boot_alloc by blast
  moreover from pmm_alloc_release [OF this(2) boot_pages(1) _ _ this(3,4)]
  obtain s'' where "pfree r (of_nat 1) s' = Some s''" "page_inv 64 s'' boot_free" by auto
  ultimately show ?thesis by blast
qed

text \<open>
  Releasing a single page never re-creates a free block of four pages or
  more: the recursion of \<^verbatim>\<open>coalesce\<close> halves the page count to 0, so the bitmaps of the levels above
  the second are left as they were, whatever is free around the page.
\<close>
theorem pfree_merges_once:
  assumes "page_inv S s F" and "p \<noteq> 0" and "p < 8 * S" and "p \<notin> F"
  shows "\<exists>s'. pfree (page_addr p) 1 s = Some s' \<and>
     (\<forall>i j. 2 \<le> i \<and> valid S i j \<longrightarrow> check_bit_at i (of_nat j) s' = check_bit_at i (of_nat j) s)"
  using assms by (rule pfree_one_page)

theorem pfree_merges_once_witness:
  "\<exists>s s'. initPMM boot_map boot_mem = Some s \<and> pfree (page_addr 300) 1 s = Some s' \<and>
     (\<forall>i j. 2 \<le> i \<and> valid 64 i j \<longrightarrow> check_bit_at i (of_nat j) s' = check_bit_at i (of_nat j) s)"
proof -
  obtain s where s: "initPMM boot_map boot_mem = Some s" "page_inv 64 s boot_free" using boot_state by blast
  have "300 \<in> {300..<302 :: nat}" by simp
  then have "300 \<notin> boot_free" using boot_pages(3) by blast
  with pfree_merges_once [OF s(2), of 300] s(1) show ?thesis by auto
qed

text \<open>
  After \<^verbatim>\<open>initPMM\<close> the page that holds the last bytes of the bitmaps is
  itself free when their size is not a multiple of the page size: the memory-map entry is advanced by
  the size in bytes, and the partial page is rounded down. The allocator can hand out the memory that
  its own bitmaps occupy.
\<close>
theorem bitmap_page_is_free:
  assumes "entries = e # es" and "64 dvd bitmap_bytes entries" and "b = off (bitmap_bytes entries) 7"
    and "b mod 4096 \<noteq> 0" and "mtype e = LIMINE_MEMMAP_USABLE" and "unat (mbase e) mod 4096 = 0"
    and "b + 4096 \<le> unat (mlength e)" and "unat (mbase e) + unat (mlength e) \<le> 4096 * (8 * bitmap_bytes entries)"
    and "region m (mbase e) b"
  shows "\<exists>s F. initPMM entries m = Some s \<and> page_inv (bitmap_bytes entries) s F \<and> bitmap_base s = mbase e \<and>
     (unat (bitmap_base s) + b - 1) div 4096 \<in> F"
proof -
  let ?S = "bitmap_bytes entries"
  let ?p = "(unat (mbase e) + b - 1) div 4096"
  have nowrap: "unat (mbase e) + unat (mlength e) < 2 ^ 64"
  proof -
    have "?S < 2 ^ 49"
    proof -
      have "unat x < 2 ^ 64" for x :: u64 using unsigned_less [of x] by simp
      then have "unat x div 4096 div 8 < 2 ^ 49" for x :: u64 using less_mult_imp_div_less by simp
      then show ?thesis by (simp add: bitmap_bytes_def Let_def PAGE_SIZE_def unat_div)
    qed
    with assms(8) show ?thesis by simp
  qed
  have ub: "unat (of_nat b :: u64) = b" using assms(7) nowrap by (simp add: unat_of_nat)
  then have "of_nat b \<le> mlength e" using assms(7) by (simp add: word_le_nat_alt)
  then have k: "find_entry entries (of_nat (off ?S 7)) = 0" using assms(1,3,5) by simp
  obtain s where s: "initPMM entries m = Some s" "bitmap_base s = mbase e"
      "page_inv ?S s {p. p < 8 * ?S \<and> (ucast (status_in (shifted_entries entries) (of_nat p)) :: u8) = 0}"
    using initPMM_ok [of entries ?S 0 m] k assms by auto
  have sh: "shifted_entries entries = e\<lparr>mbase := mbase e + of_nat b, mlength := mlength e - of_nat b\<rparr> # es"
    unfolding shifted_entries_def Let_def k using assms(1,3) by simp
  have base: "unat (mbase e + of_nat b) = unat (mbase e) + b"
    using assms(7) nowrap ub by (simp add: unat_word_ariths)
  have p: "(unat (mbase e) + b) div 4096 = ?p"
    using div_minus_1 [of "unat (mbase e) + b"] assms(4,6) by (simp add: mod_add_left_eq [symmetric] mod_add_eq)
  have pS: "?p < (unat (mbase e) + unat (mlength e)) div 4096"
    using assms(7) unfolding p [symmetric] by linarith
  moreover have "(unat (mbase e) + unat (mlength e)) div 4096 \<le> 8 * ?S"
    using assms(8) by linarith
  ultimately have p8: "?p < 8 * ?S" by linarith
  then have up: "unat (of_nat ?p :: u64) = ?p"
    using pS nowrap by (simp add: unat_of_nat)
  have e: "mbase e + of_nat b + (mlength e - of_nat b) = mbase e + mlength e" by simp
  have "status_in (shifted_entries entries) (of_nat ?p) = 0"
  proof -
    have "(mbase e + of_nat b) div PAGE_SIZE \<le> of_nat ?p"
      using base p up by (simp add: word_le_nat_alt unat_div PAGE_SIZE_def)
    moreover have "of_nat ?p < (mbase e + mlength e) div PAGE_SIZE"
      using pS up nowrap by (simp add: word_less_nat_alt unat_div PAGE_SIZE_def unat_word_ariths)
    ultimately show ?thesis
      unfolding sh using assms(5) e by (simp add: LIMINE_MEMMAP_USABLE_def)
  qed
  with p8 s show ?thesis by auto
qed

theorem bitmap_page_is_free_witness:
  "\<exists>s F. initPMM boot_map boot_mem = Some s \<and> page_inv 64 s F \<and> bitmap_base s = 0x1000 \<and> 1 \<in> F"
proof -
  have e: "boot_map = \<lparr>mbase = 0x1000, mlength = 0xFF000, mtype = 0\<rparr> #
      [\<lparr>mbase = 0x80000000, mlength = 0x200000, mtype = 1\<rparr>]" by (simp add: boot_map_def)
  show ?thesis
    using bitmap_page_is_free [OF e, of 127 boot_mem]
    by (auto simp: boot_bytes boot_off LIMINE_MEMMAP_USABLE_def boot_region)
qed

end
