(* ===== verification/Stdio.thy ===== *)
theory Stdio
  imports CString
begin

text \<open>
  Formatted output: \<^verbatim>\<open>libc/stdio.c\<close> with the character classes of \<^verbatim>\<open>libc/ctype.h\<close>. A format is a
  list of characters whose end is the terminating zero, the variable arguments are a list of 8-byte
  slots, and the output callback is a parameter, as in the code: a function on the state of the
  caller, from which the bytes of \<^verbatim>\<open>%s\<close> arguments are read. \<open>None\<close> is undefined behaviour (a missing
  argument, a signed overflow, a write past the local buffer, a read past the format).
\<close>

section \<open>Character classes\<close>

definition code_of :: "char \<Rightarrow> int" where "code_of c = of_char c"

definition islower :: "int \<Rightarrow> bool" where "islower c \<longleftrightarrow> 97 \<le> c \<and> c \<le> 122"
definition isupper :: "int \<Rightarrow> bool" where "isupper c \<longleftrightarrow> 65 \<le> c \<and> c \<le> 90"
definition isalpha :: "int \<Rightarrow> bool" where "isalpha c \<longleftrightarrow> islower c \<or> isupper c"
definition isdigit :: "int \<Rightarrow> bool" where "isdigit c \<longleftrightarrow> 48 \<le> c \<and> c \<le> 57"
definition isalnum :: "int \<Rightarrow> bool" where "isalnum c \<longleftrightarrow> isalpha c \<or> isdigit c"
definition isxdigit :: "int \<Rightarrow> bool" where
  "isxdigit c \<longleftrightarrow> isdigit c \<or> 97 \<le> c \<and> c \<le> 102 \<or> 65 \<le> c \<and> c \<le> 70"
definition isspace :: "int \<Rightarrow> bool" where
  "isspace c \<longleftrightarrow> c = 32 \<or> c = 12 \<or> c = 10 \<or> c = 13 \<or> c = 9 \<or> c = 11"
definition isblank :: "int \<Rightarrow> bool" where "isblank c \<longleftrightarrow> c = 32 \<or> c = 9"
definition isgraph :: "int \<Rightarrow> bool" where "isgraph c \<longleftrightarrow> 32 < c \<and> c < 127"
definition isprint :: "int \<Rightarrow> bool" where "isprint c \<longleftrightarrow> 32 \<le> c \<and> c < 127"
definition iscntrl :: "int \<Rightarrow> bool" where "iscntrl c \<longleftrightarrow> 0 \<le> c \<and> c < 32 \<or> c = 127"
definition isascii :: "int \<Rightarrow> bool" where "isascii c \<longleftrightarrow> 0 \<le> c \<and> c < 128"
definition ispunct :: "int \<Rightarrow> bool" where "ispunct c \<longleftrightarrow> isprint c \<and> \<not> isalnum c \<and> \<not> isspace c"
definition tolower :: "int \<Rightarrow> int" where "tolower c = (if isupper c then c - 65 + 97 else c)"
definition toupper :: "int \<Rightarrow> int" where "toupper c = (if islower c then c - 97 + 65 else c)"

section \<open>Conversions\<close>

definition MINUS :: u32 where "MINUS = 1"
definition PLUS :: u32 where "PLUS = 2"
definition SPACE :: u32 where "SPACE = 4"
definition POUND :: u32 where "POUND = 8"
definition ZERO :: u32 where "ZERO = 16"
definition GROUP :: u32 where "GROUP = 32"

datatype conv_type = CHAR_T | SHORT | INT_T | INTMAX | LONG | LONGLONG | PTRDIFFT | SIZET

record kprintf_conversion =
  flags :: u32
  width :: int
  precision :: int
  ctype :: conv_type

record integer_base =
  base :: u64
  digits :: string
  x_char :: "char option"
  group :: nat

definition base_d :: integer_base where
  "base_d = \<lparr>base = 10, digits = ''0123456789'', x_char = None, group = 3\<rparr>"
definition base_o :: integer_base where
  "base_o = \<lparr>base = 8, digits = ''01234567'', x_char = None, group = 3\<rparr>"
definition base_x :: integer_base where
  "base_x = \<lparr>base = 16, digits = ''0123456789abcdef'', x_char = Some (CHR ''x''), group = 4\<rparr>"
definition base_X :: integer_base where
  "base_X = \<lparr>base = 16, digits = ''0123456789ABCDEF'', x_char = Some (CHR ''X''), group = 4\<rparr>"

definition INT_MAX :: int where "INT_MAX = 2 ^ 31 - 1"

definition has :: "kprintf_conversion \<Rightarrow> u32 \<Rightarrow> bool" where
  "has c f \<longleftrightarrow> flags c AND f \<noteq> 0"

fun va_arg :: "u64 list \<Rightarrow> (u64 \<times> u64 list) option" where
  "va_arg [] = None"
| "va_arg (a # args) = Some (a, args)"

definition va_int :: "u64 \<Rightarrow> int" where
  "va_int a = sint (ucast a :: u32)"

section \<open>Parsing a conversion\<close>

fun parse_flags :: "string \<Rightarrow> u32 \<Rightarrow> u32 \<times> string" where
  "parse_flags [] fl = (fl, [])"
| "parse_flags (ch # f) fl =
     (if ch = CHR ''-'' then parse_flags f (fl OR MINUS)
      else if ch = CHR ''+'' then parse_flags f (fl OR PLUS)
      else if ch = CHR '' '' then parse_flags f (fl OR SPACE)
      else if ch = CHR ''#'' then parse_flags f (fl OR POUND)
      else if ch = CHR ''0'' then parse_flags f (fl OR ZERO)
      else if ch = CHR 0x27 then parse_flags f (fl OR GROUP)
      else (fl, ch # f))"

fun parse_number :: "string \<Rightarrow> int \<Rightarrow> (int \<times> string) option" where
  "parse_number [] n = Some (n, [])"
| "parse_number (ch # f) n =
     (if isdigit (code_of ch) then
        if n * 10 + code_of ch \<le> INT_MAX then parse_number f (n * 10 + code_of ch - 48) else None
      else Some (n, ch # f))"

definition looking_at :: "char \<Rightarrow> string \<Rightarrow> bool" where
  "looking_at ch f \<longleftrightarrow> f \<noteq> [] \<and> hd f = ch"

definition parse_width :: "string \<Rightarrow> u32 \<Rightarrow> u64 list \<Rightarrow> (int \<times> u32 \<times> string \<times> u64 list) option" where
  "parse_width f fl args = do {
     (w, f, args) \<leftarrow>
       (if looking_at (CHR ''*'') f then do { (a, args) \<leftarrow> va_arg args; Some (va_int a, tl f, args) }
        else do { (w, f) \<leftarrow> parse_number f 0; Some (w, f, args) });
     if w < 0 then (if - w \<le> INT_MAX then Some (- w, fl OR MINUS, f, args) else None)
     else Some (w, fl, f, args) }"

definition parse_precision :: "string \<Rightarrow> u64 list \<Rightarrow> (int \<times> string \<times> u64 list) option" where
  "parse_precision f args =
     (if looking_at (CHR ''.'') f then do {
        let f = tl f;
        (p, f, args) \<leftarrow>
          (if looking_at (CHR ''*'') f then do { (a, args) \<leftarrow> va_arg args; Some (va_int a, tl f, args) }
           else do { (p, f) \<leftarrow> parse_number f 0; Some (p, f, args) });
        Some (if p < 0 then - 1 else p, f, args) }
      else Some (- 1, f, args))"

definition parse_type :: "string \<Rightarrow> conv_type \<times> string" where
  "parse_type f =
     (if looking_at (CHR ''h'') f then
        if looking_at (CHR ''h'') (tl f) then (CHAR_T, tl (tl f)) else (SHORT, tl f)
      else if looking_at (CHR ''j'') f then (INTMAX, tl f)
      else if looking_at (CHR ''l'') f then
        if looking_at (CHR ''l'') (tl f) then (LONGLONG, tl (tl f)) else (LONG, tl f)
      else if looking_at (CHR ''t'') f then (PTRDIFFT, tl f)
      else if looking_at (CHR ''z'') f then (SIZET, tl f)
      else (INT_T, f))"

definition parse_conversion :: "string \<Rightarrow> u64 list \<Rightarrow> (kprintf_conversion \<times> string \<times> u64 list) option" where
  "parse_conversion f args = do {
     let (fl, f) = parse_flags f 0;
     let fl = (if fl AND MINUS \<noteq> 0 then fl AND NOT ZERO else fl);
     let fl = (if fl AND PLUS \<noteq> 0 then fl AND NOT SPACE else fl);
     (w, fl, f, args) \<leftarrow> parse_width f fl args;
     (p, f, args) \<leftarrow> parse_precision f args;
     let fl = (if 0 \<le> p then fl AND NOT ZERO else fl);
     let (t, f) = parse_type f;
     Some (\<lparr>flags = fl, width = w, precision = p, ctype = t\<rparr>, f, args) }"

section \<open>Output\<close>

primrec output_dup :: "(char \<Rightarrow> 's \<Rightarrow> 's option) \<Rightarrow> char \<Rightarrow> nat \<Rightarrow> 's \<Rightarrow> 's option" where
  "output_dup out ch 0 s = Some s"
| "output_dup out ch (Suc n) s = do { s \<leftarrow> out ch s; output_dup out ch n s }"

primrec output_all :: "(char \<Rightarrow> 's \<Rightarrow> 's option) \<Rightarrow> string \<Rightarrow> 's \<Rightarrow> 's option" where
  "output_all out [] s = Some s"
| "output_all out (ch # t) s = do { s \<leftarrow> out ch s; output_all out t s }"

definition push_buf :: "char \<Rightarrow> string \<Rightarrow> string option" where
  "push_buf ch buf = (if length buf < 64 then Some (buf @ [ch]) else None)"

partial_function (option) digit_loop :: "integer_base \<Rightarrow> bool \<Rightarrow> u64 \<Rightarrow> nat \<Rightarrow> string \<Rightarrow> string option" where
  "digit_loop b grp value digit_cnt buf =
     (if 0 < value then do {
        buf \<leftarrow> (if grp \<and> 0 < digit_cnt \<and> digit_cnt mod group b = 0 then push_buf (CHR '','') buf else Some buf);
        buf \<leftarrow> push_buf (digits b ! unat (value mod base b)) buf;
        digit_loop b grp (value div base b) (digit_cnt + 1) buf }
      else Some buf)"

function zero_loop :: "int \<Rightarrow> string \<Rightarrow> string" where
  "zero_loop p buf = (if int (length buf) < p \<and> length buf < 63 then zero_loop p (buf @ ''0'') else buf)"
  by auto
termination by (relation "measure (\<lambda>(p, buf). 63 - length buf)") auto

definition sign_of :: "bool \<Rightarrow> bool \<Rightarrow> kprintf_conversion \<Rightarrow> string" where
  "sign_of is_signed negative c =
     (if is_signed then
        if has c PLUS then (if negative then ''-'' else ''+'')
        else if has c SPACE then (if negative then ''-'' else '' '')
        else if negative then ''-'' else ''''
      else '''')"

definition format_integer ::
    "(char \<Rightarrow> 's \<Rightarrow> 's option) \<Rightarrow> u64 \<Rightarrow> bool \<Rightarrow> bool \<Rightarrow> integer_base \<Rightarrow> kprintf_conversion \<Rightarrow> 's \<Rightarrow> 's option" where
  "format_integer out value is_signed negative b c s = do {
     let sign = sign_of is_signed negative c;
     let x = (if has c POUND \<and> value \<noteq> 0 then x_char b else None);
     buf \<leftarrow> digit_loop b (has c GROUP) value 0 [];
     let buf = zero_loop (if precision c < 0 then 1 else precision c) buf;
     buf \<leftarrow> (if has c POUND \<and> base b = 8 \<and> (buf = [] \<or> last buf \<noteq> CHR ''0'') then push_buf (CHR ''0'') buf
            else Some buf);
     let pad_cnt = nat (width c - int (length buf) - (if x \<noteq> None then 2 else 0) - (if sign \<noteq> '''' then 1 else 0));
     s \<leftarrow> (if flags c AND (MINUS OR ZERO) = 0 then output_dup out (CHR '' '') pad_cnt s else Some s);
     s \<leftarrow> output_all out sign s;
     s \<leftarrow> (case x of None \<Rightarrow> Some s | Some x \<Rightarrow> do { s \<leftarrow> out (CHR ''0'') s; out x s });
     s \<leftarrow> (if has c ZERO then output_dup out (CHR ''0'') pad_cnt s else Some s);
     s \<leftarrow> output_all out (rev buf) s;
     if has c MINUS then output_dup out (CHR '' '') pad_cnt s else Some s }"

primrec output_chars :: "(char \<Rightarrow> 's \<Rightarrow> 's option) \<Rightarrow> (nat \<Rightarrow> 's \<Rightarrow> char option) \<Rightarrow> nat \<Rightarrow> nat \<Rightarrow> 's \<Rightarrow> 's option" where
  "output_chars out str i 0 s = Some s"
| "output_chars out str i (Suc n) s = do { ch \<leftarrow> str i s; s \<leftarrow> out ch s; output_chars out str (Suc i) n s }"

definition format_string ::
    "(char \<Rightarrow> 's \<Rightarrow> 's option) \<Rightarrow> (nat \<Rightarrow> 's \<Rightarrow> char option) \<Rightarrow> int \<Rightarrow> kprintf_conversion \<Rightarrow> 's \<Rightarrow> 's option" where
  "format_string out str len c s = do {
     s \<leftarrow> (if len < width c \<and> \<not> has c MINUS then output_dup out (CHR '' '') (nat (width c - len)) s else Some s);
     s \<leftarrow> output_chars out str 0 (nat len) s;
     if len < width c \<and> has c MINUS then output_dup out (CHR '' '') (nat (width c - len)) s else Some s }"

section \<open>The format interpreter\<close>

definition SIZE_MAX :: u64 where "SIZE_MAX = - 1"
definition PTRDIFF_MAX :: u64 where "PTRDIFF_MAX = drop_bit 1 (- 1)"

definition signed_value :: "conv_type \<Rightarrow> u64 \<Rightarrow> int" where
  "signed_value t a =
     (case t of
        CHAR_T \<Rightarrow> sint (ucast a :: u8)
      | SHORT \<Rightarrow> sint (ucast a :: u16)
      | INT_T \<Rightarrow> va_int a
      | SIZET \<Rightarrow> sint (if SIZE_MAX div 2 < a then a - SIZE_MAX - 1 else a)
      | _ \<Rightarrow> sint a)"

definition unsigned_value :: "conv_type \<Rightarrow> u64 \<Rightarrow> u64" where
  "unsigned_value t a =
     (case t of
        CHAR_T \<Rightarrow> ucast (ucast a :: u8)
      | SHORT \<Rightarrow> ucast (ucast a :: u16)
      | INT_T \<Rightarrow> ucast (ucast a :: u32)
      | PTRDIFFT \<Rightarrow> a AND (push_bit 1 PTRDIFF_MAX OR 1)
      | _ \<Rightarrow> a)"

definition chr :: "u8 \<Rightarrow> char" where
  "chr b = char_of (unat b)"

definition mem_char :: "('s \<Rightarrow> mem) \<Rightarrow> u64 \<Rightarrow> nat \<Rightarrow> 's \<Rightarrow> char option" where
  "mem_char rd p i s = map_option chr (ld8 (rd s) (p + of_nat i))"

definition lit_char :: "string \<Rightarrow> nat \<Rightarrow> 's \<Rightarrow> char option" where
  "lit_char t i s = (if i < length t then Some (t ! i) else None)"

definition convert :: "('s \<Rightarrow> mem) \<Rightarrow> (char \<Rightarrow> 's \<Rightarrow> 's option) \<Rightarrow> char \<Rightarrow> kprintf_conversion \<Rightarrow> u64 \<Rightarrow> 's \<Rightarrow> 's option" where
  "convert rd out k c a s =
     (if k \<in> set ''di'' then
        (let value = signed_value (ctype c) a in
         if value = - (2 ^ 63) then None
         else format_integer out (of_int (if value < 0 then - value else value)) True (value < 0) base_d c s)
      else if k \<in> set ''ouxX'' then
        format_integer out (unsigned_value (ctype c) a) False False
          (if k = CHR ''o'' then base_o else if k = CHR ''u'' then base_d else if k = CHR ''x'' then base_x else base_X) c s
      else if k = CHR ''c'' then
        format_string out (lit_char [chr (ucast a)]) 1 c s
      else if k = CHR ''s'' then
        (if a = NULL then
           format_string out (lit_char ''(null)'') (if precision c < 0 then 6 else min 6 (precision c)) c s
         else do {
           n \<leftarrow> strnlen (rd s) a (of_int (precision c));
           format_string out (mem_char rd a) (va_int n) c s })
      else format_integer out a False False base_x (c\<lparr>flags := POUND\<rparr>) s)"

partial_function (option) do_vkprintf ::
    "('s \<Rightarrow> mem) \<Rightarrow> (char \<Rightarrow> 's \<Rightarrow> 's option) \<Rightarrow> string \<Rightarrow> u64 list \<Rightarrow> 's \<Rightarrow> 's option" where
  "do_vkprintf rd out format args s =
     (if format = [] then Some s
      else if hd format \<noteq> CHR ''%'' then do {
        s \<leftarrow> out (hd format) s;
        do_vkprintf rd out (tl format) args s }
      else if looking_at (CHR ''%'') (tl format) then do {
        s \<leftarrow> out (CHR ''%'') s;
        do_vkprintf rd out (tl (tl format)) args s }
      else do {
        (c, f, args) \<leftarrow> parse_conversion (tl format) args;
        let k = (if f = [] then CHR 0x00 else hd f);
        if k \<in> set ''diouxXcsp'' then do {
          (a, args) \<leftarrow> va_arg args;
          s \<leftarrow> convert rd out k c a s;
          do_vkprintf rd out (tl f) args s }
        else do {
          s \<leftarrow> do_vkprintf rd out (if k \<in> set ''feEgGn'' then ''<<no %%%c in kernel>>'' else ''<<no %%%c conversion>>'')
                 [of_char k] s;
          if f = [] then None else do_vkprintf rd out (tl f) args s } })"

section \<open>Printing into a buffer\<close>

record vsnkprintf_aux =
  out_p :: u64
  out_length :: int
  max_length :: int

definition vsnkprintf_helper :: "char \<Rightarrow> mem \<times> vsnkprintf_aux \<Rightarrow> (mem \<times> vsnkprintf_aux) option" where
  "vsnkprintf_helper ch s =
     (case s of (m, aux) \<Rightarrow>
        if out_length aux = INT_MAX then None
        else if out_length aux < max_length aux then do {
          m \<leftarrow> st8 m (out_p aux) (of_char ch);
          Some (m, aux\<lparr>out_p := out_p aux + 1, out_length := out_length aux + 1\<rparr>) }
        else Some (m, aux\<lparr>out_length := out_length aux + 1\<rparr>))"

definition vsnkprintf :: "mem \<Rightarrow> u64 \<Rightarrow> u64 \<Rightarrow> string \<Rightarrow> u64 list \<Rightarrow> (int \<times> mem) option" where
  "vsnkprintf m buffer buf_size format args = do {
     let aux = \<lparr>out_p = buffer, out_length = 0, max_length = (if 0 < buf_size then va_int (buf_size - 1) else 0)\<rparr>;
     (m, aux) \<leftarrow> do_vkprintf fst vsnkprintf_helper format args (m, aux);
     m \<leftarrow> (if 0 < buf_size then st8 m (out_p aux) 0 else Some m);
     Some (out_length aux, m) }"

section \<open>Dumps\<close>

text \<open>\<^verbatim>\<open>kprintf\<close> is the interpreter with the callback of the console, a parameter here.\<close>

definition per_line :: u64 where "per_line = 16"

definition ROUND_DOWN :: "u64 \<Rightarrow> u64 \<Rightarrow> u64" where "ROUND_DOWN X STEP = X div STEP * STEP"
definition ROUND_UP :: "u64 \<Rightarrow> u64 \<Rightarrow> u64" where "ROUND_UP X STEP = (X + STEP - 1) div STEP * STEP"
definition DIV_ROUND_UP :: "u64 \<Rightarrow> u64 \<Rightarrow> u64" where "DIV_ROUND_UP X STEP = (X + STEP - 1) div STEP"

definition hex_line :: "('s \<Rightarrow> mem) \<Rightarrow> (string \<Rightarrow> u64 list \<Rightarrow> 's \<Rightarrow> 's option) \<Rightarrow> u64 \<Rightarrow> u64 \<Rightarrow> nat \<Rightarrow> nat \<Rightarrow> bool \<Rightarrow> 's \<Rightarrow> 's option" where
  "hex_line rd kprintf ofs buf start end ascii s = do {
     s \<leftarrow> kprintf ''%08jx  '' [ROUND_DOWN ofs per_line] s;
     s \<leftarrow> for_each (\<lambda>i. kprintf ''   '' []) [0..<start] s;
     s \<leftarrow> for_each (\<lambda>i s. do {
            b \<leftarrow> ld8 (rd s) (buf + of_nat (i - start));
            kprintf ''%02hhx%c'' [ucast b, if i = unat per_line div 2 - 1 then of_char (CHR ''-'') else of_char (CHR '' '')] s })
          [start..<end] s;
     s \<leftarrow> (if ascii then do {
            s \<leftarrow> for_each (\<lambda>i. kprintf ''   '' []) [end..<unat per_line] s;
            s \<leftarrow> kprintf ''|'' [] s;
            s \<leftarrow> for_each (\<lambda>i. kprintf '' '' []) [0..<start] s;
            s \<leftarrow> for_each (\<lambda>i s. do {
                   b \<leftarrow> ld8 (rd s) (buf + of_nat (i - start));
                   kprintf ''%c'' [if isprint (uint b) then ucast b else of_char (CHR ''.'')] s }) [start..<end] s;
            s \<leftarrow> for_each (\<lambda>i. kprintf '' '' []) [end..<unat per_line] s;
            kprintf ''|'' [] s }
          else Some s);
     kprintf ''\<newline>'' [] s }"

partial_function (option) hex_dump ::
    "('s \<Rightarrow> mem) \<Rightarrow> (string \<Rightarrow> u64 list \<Rightarrow> 's \<Rightarrow> 's option) \<Rightarrow> u64 \<Rightarrow> u64 \<Rightarrow> u64 \<Rightarrow> bool \<Rightarrow> 's \<Rightarrow> 's option" where
  "hex_dump rd kprintf ofs buf size0 ascii s =
     (if 0 < size0 then do {
        let start = ofs mod per_line;
        let end = (if size0 < per_line - start then start + size0 else per_line);
        let n = end - start;
        s \<leftarrow> hex_line rd kprintf ofs buf (unat start) (unat end) ascii s;
        hex_dump rd kprintf (ofs + n) (buf + n) (size0 - n) ascii s }
      else Some s)"

fun scale_size :: "u64 \<Rightarrow> string list \<Rightarrow> u64 \<times> string" where
  "scale_size size0 (f # g # fs) = (if 1024 \<le> size0 then scale_size (size0 div 1024) (g # fs) else (size0, f))"
| "scale_size size0 fs = (size0, hd fs)"

text \<open>The unit is a string constant without \<^verbatim>\<open>%\<close>, so it is part of the format instead of a \<^verbatim>\<open>%s\<close> argument.\<close>

definition print_human_readable_size :: "(string \<Rightarrow> u64 list \<Rightarrow> 's \<Rightarrow> 's option) \<Rightarrow> u64 \<Rightarrow> 's \<Rightarrow> 's option" where
  "print_human_readable_size kprintf size0 s =
     (if size0 = 1 then kprintf ''1 byte'' [] s
      else case scale_size size0 [''bytes'', ''kB'', ''MB'', ''GB'', ''TB''] of
             (n, f) \<Rightarrow> kprintf (''%llu '' @ f) [n] s)"

section \<open>Sinks\<close>

text \<open>
  The reference: the text a format produces, with the bytes of string arguments read from \<open>m\<close>; a
  text has at most \<^verbatim>\<open>INT_MAX\<close> characters, since the callers count them in an \<^verbatim>\<open>int\<close>.
\<close>

definition append_char :: "char \<Rightarrow> string \<Rightarrow> string option" where
  "append_char ch t = (if int (length t) < INT_MAX then Some (t @ [ch]) else None)"

definition render :: "mem \<Rightarrow> string \<Rightarrow> u64 list \<Rightarrow> string option" where
  "render m format args = do_vkprintf (\<lambda>_. m) append_char format args []"

definition byte_le :: "mem \<Rightarrow> mem \<Rightarrow> bool" where
  "byte_le m m' \<longleftrightarrow> (\<forall>p b. ld8 m p = Some b \<longrightarrow> ld8 m' p = Some b)"

lemma strnlen_loop_le: "strnlen_loop m p k n = Some r \<Longrightarrow> byte_le m m' \<Longrightarrow> strnlen_loop m' p k n = Some r"
proof -
  have "byte_le m m' \<longrightarrow> strnlen_loop m' p k n = Some r" if "strnlen_loop m p k n = Some r"
    using _ that
  proof (rule strnlen_loop.raw_induct [where P = "\<lambda>m p k n r. byte_le m m' \<longrightarrow> strnlen_loop m' p k n = Some r"])
    fix f m p k n r
    assume IH: "\<And>m p k n r. f m p k n = Some r \<Longrightarrow> byte_le m m' \<longrightarrow> strnlen_loop m' p k n = Some r"
      and step: "(do { x \<leftarrow> ld8 m (p + n); if x \<noteq> 0 \<and> n < k then f m p k (n + 1) else Some n }) = Some r"
    show "byte_le m m' \<longrightarrow> strnlen_loop m' p k n = Some r"
    proof
      assume le: "byte_le m m'"
      from step obtain x where x: "ld8 m (p + n) = Some x" "(if x \<noteq> 0 \<and> n < k then f m p k (n + 1) else Some n) = Some r"
        by (auto simp: bind_eq_Some_conv)
      have "ld8 m' (p + n) = Some x" using x(1) le by (simp add: byte_le_def)
      with x(2) IH le show "strnlen_loop m' p k n = Some r"
        by (subst strnlen_loop.simps) (auto split: if_splits)
    qed
  qed
  then show "strnlen_loop m p k n = Some r \<Longrightarrow> byte_le m m' \<Longrightarrow> strnlen_loop m' p k n = Some r" by blast
qed

locale sink_sim =
  fixes rd1 :: "'s \<Rightarrow> mem" and out1 :: "char \<Rightarrow> 's \<Rightarrow> 's option"
    and rd2 :: "'t \<Rightarrow> mem" and out2 :: "char \<Rightarrow> 't \<Rightarrow> 't option"
    and R :: "'s \<Rightarrow> 't \<Rightarrow> bool"
  assumes reads: "R s t \<Longrightarrow> byte_le (rd1 s) (rd2 t)"
    and writes: "R s t \<Longrightarrow> out1 c s = Some s' \<Longrightarrow> \<exists>t'. out2 c t = Some t' \<and> R s' t'"
begin

lemma sim_out [sim_intros]: "sim R R (out1 c) (out2 c)"
  using writes by (auto simp: sim_def)

lemma sim_output_dup [sim_intros]: "sim R R (output_dup out1 c n) (output_dup out2 c n)"
  by (induction n) (auto simp: output_dup_def intro: sim_intros)

lemma sim_output_all [sim_intros]: "sim R R (output_all out1 t) (output_all out2 t)"
  by (induction t) (auto simp: output_all_def intro: sim_intros)

lemma sim_format_integer [sim_intros]:
  "sim R R (format_integer out1 v sg ng b c) (format_integer out2 v sg ng b c)"
  unfolding format_integer_def Let_def by (intro sim_intros)

lemma sim_output_chars:
  assumes "\<And>i s t ch. R s t \<Longrightarrow> str1 i s = Some ch \<Longrightarrow> str2 i t = Some ch"
  shows "sim R R (output_chars out1 str1 i n) (output_chars out2 str2 i n)"
proof (induction n arbitrary: i)
  case 0
  then show ?case by (simp add: sim_def)
next
  case (Suc n)
  show ?case unfolding sim_def
  proof (intro allI impI)
    fix s t s'
    assume R: "R s t" and "output_chars out1 str1 i (Suc n) s = Some s'"
    then obtain ch s1 where 1: "str1 i s = Some ch" "out1 ch s = Some s1" "output_chars out1 str1 (Suc i) n s1 = Some s'"
      by (auto simp: bind_eq_Some_conv)
    obtain t1 where t1: "out2 ch t = Some t1" "R s1 t1" using writes [OF R 1(2)] by blast
    obtain t' where "output_chars out2 str2 (Suc i) n t1 = Some t'" "R s' t'"
      using simD [OF Suc.IH t1(2) 1(3)] by blast
    with assms [OF R 1(1)] t1 show "\<exists>t'. output_chars out2 str2 i (Suc n) t = Some t' \<and> R s' t'" by auto
  qed
qed

lemma sim_format_string:
  assumes "\<And>i s t ch. R s t \<Longrightarrow> str1 i s = Some ch \<Longrightarrow> str2 i t = Some ch"
  shows "sim R R (format_string out1 str1 n c) (format_string out2 str2 n c)"
  unfolding format_string_def by (intro sim_intros sim_output_chars assms)

lemma sim_lit [sim_intros]: "sim R R (format_string out1 (lit_char x) n c) (format_string out2 (lit_char x) n c)"
  by (rule sim_format_string) (simp add: lit_char_def split: if_splits)

lemma sim_mem [sim_intros]:
  "sim R R (format_string out1 (mem_char rd1 p) n c) (format_string out2 (mem_char rd2 p) n c)"
  using reads by (intro sim_format_string) (auto simp: mem_char_def byte_le_def)

lemma sim_strnlen [sim_intros]:
  "(\<And>n. sim R R (f n) (g n)) \<Longrightarrow>
   sim R R (\<lambda>s. strnlen (rd1 s) a k \<bind> (\<lambda>n. f n s)) (\<lambda>t. strnlen (rd2 t) a k \<bind> (\<lambda>n. g n t))"
proof -
  assume h: "\<And>n. sim R R (f n) (g n)"
  show ?thesis unfolding sim_def
  proof (intro allI impI)
    fix s t s'
    assume R: "R s t" and "strnlen (rd1 s) a k \<bind> (\<lambda>n. f n s) = Some s'"
    then obtain n where n: "strnlen (rd1 s) a k = Some n" "f n s = Some s'" by (auto simp: bind_eq_Some_conv)
    have "strnlen (rd2 t) a k = Some n" using strnlen_loop_le [OF _ reads [OF R]] n(1) by (simp add: strnlen_def)
    with simD [OF h R n(2)] show "\<exists>t'. strnlen (rd2 t) a k \<bind> (\<lambda>n. g n t) = Some t' \<and> R s' t'" by auto
  qed
qed

lemma sim_convert [sim_intros]: "sim R R (convert rd1 out1 k c a) (convert rd2 out2 k c a)"
  unfolding convert_def Let_def by (intro sim_intros)

lemma do_vkprintf_sim_gen:
  assumes "do_vkprintf rd out format args s = Some s'"
  shows "rd = rd1 \<longrightarrow> out = out1 \<longrightarrow> (\<forall>t. R s t \<longrightarrow> (\<exists>t'. do_vkprintf rd2 out2 format args t = Some t' \<and> R s' t'))"
proof (rule do_vkprintf.raw_induct [OF _ assms], intro impI allI)
  fix f rd out format args s s' t
  assume IH: "\<And>rd out format args s s'. f rd out format args s = Some s' \<Longrightarrow>
      rd = rd1 \<longrightarrow> out = out1 \<longrightarrow> (\<forall>t. R s t \<longrightarrow> (\<exists>t'. do_vkprintf rd2 out2 format args t = Some t' \<and> R s' t'))"
    and step: "(if format = [] then Some s
      else if hd format \<noteq> CHR ''%'' then out (hd format) s \<bind> f rd out (tl format) args
      else if looking_at (CHR ''%'') (tl format) then out (CHR ''%'') s \<bind> f rd out (tl (tl format)) args
      else parse_conversion (tl format) args \<bind> (\<lambda>(c, g, args).
        let k = (if g = [] then CHR 0x00 else hd g) in
        if k \<in> set ''diouxXcsp'' then va_arg args \<bind> (\<lambda>(a, args). convert rd out k c a s \<bind> f rd out (tl g) args)
        else f rd out (if k \<in> set ''feEgGn'' then ''<<no %%%c in kernel>>'' else ''<<no %%%c conversion>>'')
               [of_char k] s \<bind> (\<lambda>s. if g = [] then None else f rd out (tl g) args s))) = Some s'"
    and eq: "rd = rd1" "out = out1" and R: "R s t"
  have F [sim_intros]: "sim R R (f rd1 out1 format args) (do_vkprintf rd2 out2 format args)" for format args
    using IH by (auto simp: sim_def)
  show "\<exists>t'. do_vkprintf rd2 out2 format args t = Some t' \<and> R s' t'"
    unfolding do_vkprintf.simps [of rd2 out2 format args t]
    using R step unfolding eq Let_def by (rule simD [where R = R and Q = R, rotated]) (intro sim_intros)
qed

lemma do_vkprintf_sim:
  "do_vkprintf rd1 out1 format args s = Some s' \<Longrightarrow> R s t \<Longrightarrow>
   \<exists>t'. do_vkprintf rd2 out2 format args t = Some t' \<and> R s' t'"
  using do_vkprintf_sim_gen by blast

end

end
