(* ===== verification/Stdio_Correct.thy ===== *)
theory Stdio_Correct
  imports Stdio
begin

text \<open>
  Correctness of formatted output: the digits of an integer conversion against a reference numeral
  system, the layout of a field, the bound of the local digit buffer, and printing into a bounded
  buffer as an instance of the contract \<open>sink_sim\<close> between the streaming interpreter and the text
  it produces.
\<close>

section \<open>Numerals\<close>

function digits_of :: "integer_base \<Rightarrow> nat \<Rightarrow> string" where
  "digits_of b n = (if unat (base b) < 2 \<or> n = 0 then []
     else digits b ! (n mod unat (base b)) # digits_of b (n div unat (base b)))"
  by auto
termination by (relation "measure snd") auto

declare digits_of.simps [simp del] zero_loop.simps [simp del]
declare do_vkprintf.simps [code] digit_loop.simps [code] strnlen_loop.simps [code]

definition std_base :: "integer_base \<Rightarrow> bool" where
  "std_base b \<longleftrightarrow> b = base_d \<or> b = base_o \<or> b = base_x \<or> b = base_X"

lemma std_base_props:
  assumes "std_base b"
  shows "8 \<le> unat (base b)" "length (digits b) = unat (base b)" "distinct (digits b)" "digits b ! 0 = CHR ''0''"
    "0 < group b" "base b \<noteq> 0"
  using assms by (auto simp: std_base_def base_d_def base_o_def base_x_def base_X_def)

lemma digits_of_Cons: "8 \<le> unat (base b) \<Longrightarrow> 0 < n \<Longrightarrow>
    digits_of b n = digits b ! (n mod unat (base b)) # digits_of b (n div unat (base b))"
  by (subst digits_of.simps) simp

lemma digits_of_0 [simp]: "digits_of b 0 = []"
  by (subst digits_of.simps) simp

lemma digits_of_length:
  assumes "8 \<le> unat (base b)"
  shows "n < 8 ^ k \<Longrightarrow> length (digits_of b n) \<le> k"
proof (induction k arbitrary: n)
  case (Suc k)
  show ?case
  proof (cases "n = 0")
    case False
    have "n div unat (base b) \<le> n div 8" using assms by (rule div_le_mono2 [rotated]) simp
    also have "\<dots> < 8 ^ k" using Suc.prems by (simp add: less_mult_imp_div_less mult.commute)
    finally show ?thesis using Suc.IH assms False by (simp add: digits_of_Cons)
  qed simp
qed simp

definition digit_val :: "integer_base \<Rightarrow> char \<Rightarrow> nat" where
  "digit_val b ch = length (takeWhile (\<lambda>d. d \<noteq> ch) (digits b))"

definition numeral_val :: "integer_base \<Rightarrow> string \<Rightarrow> nat" where
  "numeral_val b t = foldl (\<lambda>n ch. n * unat (base b) + digit_val b ch) 0 t"

lemma digit_val_nth: "distinct (digits b) \<Longrightarrow> d < length (digits b) \<Longrightarrow> digit_val b (digits b ! d) = d"
  unfolding digit_val_def
  by (subst takeWhile_eq_take_P_nth [of d]) (auto simp: nth_eq_iff_index_eq)

lemma numeral_val_digits:
  assumes "std_base b"
  shows "numeral_val b (rev (digits_of b n)) = n"
proof (induction n rule: less_induct)
  case (less n)
  note b = std_base_props [OF assms]
  show ?case
  proof (cases "n = 0")
    case True
    then show ?thesis by (simp add: numeral_val_def)
  next
    case False
    have "n div unat (base b) < n" using b(1) False by simp
    moreover have "n mod unat (base b) < length (digits b)" using b(1,2) by simp
    ultimately show ?thesis
      using less [of "n div unat (base b)"] b False
      by (simp add: digits_of_Cons numeral_val_def digit_val_nth)
  qed
qed

lemma digits_last:
  assumes "std_base b" "0 < n"
  shows "last (digits_of b n) \<noteq> CHR ''0''"
  using assms(2)
proof (induction n rule: less_induct)
  case (less n)
  note b = std_base_props [OF assms(1)]
  let ?q = "n div unat (base b)"
  show ?case
  proof (cases "?q = 0")
    case True
    then have "n < unat (base b)" using b(1) by (simp add: div_eq_0_iff)
    moreover from this have "digits b ! n \<noteq> digits b ! 0" using b(2,3) less.prems by (subst nth_eq_iff_index_eq) auto
    ultimately show ?thesis using True b less.prems by (simp add: digits_of_Cons)
  next
    case False
    then have "digits_of b ?q \<noteq> []" using b(1) by (simp add: digits_of_Cons)
    moreover have "?q < n" using b(1) less.prems by simp
    ultimately show ?thesis using less False b(1) by (simp add: digits_of_Cons)
  qed
qed

section \<open>The digit buffer\<close>

lemma u64_small: "unat (v :: u64) < 8 ^ 22"
proof -
  have "unat v < 2 ^ 64" using unsigned_less [of v] by simp
  then show ?thesis by simp
qed

lemma digit_loop_plain:
  assumes "std_base b"
  shows "length buf + length (digits_of b (unat v)) \<le> 64 \<Longrightarrow>
    digit_loop b False v k buf = Some (buf @ digits_of b (unat v))"
proof (induction "unat v" arbitrary: v k buf rule: less_induct)
  case less
  note b = std_base_props [OF assms]
  show ?case
  proof (cases "v = 0")
    case True
    then show ?thesis by (subst digit_loop.simps) simp
  next
    case False
    then have v: "0 < unat v" "0 < v" by (simp_all add: unat_gt_0 word_neq_0_conv [symmetric])
    let ?q = "v div base b"
    have q: "unat ?q = unat v div unat (base b)" "unat (v mod base b) = unat v mod unat (base b)"
      by (simp_all add: unat_div unat_mod)
    have ds: "digits_of b (unat v) = digits b ! unat (v mod base b) # digits_of b (unat ?q)"
      unfolding q using b(1) v(1) by (rule digits_of_Cons)
    have "unat ?q < unat v" unfolding q using b(1) v(1) by simp
    then have "digit_loop b False ?q (k + 1) (buf @ [digits b ! unat (v mod base b)]) =
        Some ((buf @ [digits b ! unat (v mod base b)]) @ digits_of b (unat ?q))"
      using less.prems by (intro less.hyps) (simp_all add: ds)
    then show ?thesis
      using v less.prems by (subst digit_loop.simps) (simp add: push_buf_def ds)
  qed
qed

lemma digit_loop_total:
  assumes "std_base b"
  shows "unat v < 8 ^ n \<Longrightarrow> length buf + 2 * n \<le> 64 \<Longrightarrow>
    \<exists>buf'. digit_loop b grp v k buf = Some buf' \<and> length buf' \<le> length buf + 2 * n"
proof (induction n arbitrary: v k buf)
  case 0
  then have "v = 0" by (simp add: word_unat_eq_iff)
  then show ?case by (subst digit_loop.simps) simp
next
  case (Suc n)
  note b = std_base_props [OF assms]
  show ?case
  proof (cases "v = 0")
    case True
    then show ?thesis by (subst digit_loop.simps) simp
  next
    case False
    then have v: "0 < v" by (simp add: word_neq_0_conv [symmetric])
    have "unat v div unat (base b) \<le> unat v div 8" using b(1) by (rule div_le_mono2 [rotated]) simp
    also have "\<dots> < 8 ^ n" using Suc.prems by (simp add: less_mult_imp_div_less mult.commute)
    finally have q: "unat (v div base b) < 8 ^ n" by (simp add: unat_div)
    define buf1 where "buf1 = (if grp \<and> 0 < k \<and> k mod group b = 0 then buf @ '','' else buf) @ [digits b ! unat (v mod base b)]"
    have "length buf1 \<le> length buf + 2" by (simp add: buf1_def)
    moreover obtain buf' where "digit_loop b grp (v div base b) (k + 1) buf1 = Some buf'" "length buf' \<le> length buf1 + 2 * n"
      using Suc.IH [OF q, of buf1 "k + 1"] Suc.prems(2) calculation by auto
    ultimately show ?thesis
      using v Suc.prems(2) by (subst digit_loop.simps) (auto simp: push_buf_def buf1_def)
  qed
qed

lemma zero_loop_length: "length buf \<le> 63 \<Longrightarrow> length (zero_loop p buf) \<le> 63"
  by (induction p buf rule: zero_loop.induct) (subst zero_loop.simps, auto)

section \<open>The layout of a field\<close>

lemma output_all_text: "int (length t + length x) \<le> INT_MAX \<Longrightarrow> output_all append_char x t = Some (t @ x)"
  by (induction x arbitrary: t) (auto simp: append_char_def)

lemma output_dup_all: "output_dup out ch n s = output_all out (replicate n ch) s"
  by (induction n arbitrary: s) auto

lemma output_dup_text: "int (length t + n) \<le> INT_MAX \<Longrightarrow> output_dup append_char ch n t = Some (t @ replicate n ch)"
  by (simp add: output_dup_all output_all_text)

definition int_prefix :: "integer_base \<Rightarrow> kprintf_conversion \<Rightarrow> u64 \<Rightarrow> string" where
  "int_prefix b c v = (if has c POUND \<and> v \<noteq> 0 then (case x_char b of None \<Rightarrow> '''' | Some x \<Rightarrow> [CHR ''0'', x]) else '''')"

definition int_digits :: "integer_base \<Rightarrow> kprintf_conversion \<Rightarrow> u64 \<Rightarrow> string" where
  "int_digits b c v =
     (if v = 0 then ''0''
      else (if has c POUND \<and> base b = 8 then ''0'' else '''') @ rev (digits_of b (unat v)))"

definition int_layout :: "kprintf_conversion \<Rightarrow> string \<Rightarrow> string \<Rightarrow> string \<Rightarrow> string" where
  "int_layout c sign pre num =
     (let pad = nat (width c - int (length sign + length pre + length num)) in
      if has c MINUS then sign @ pre @ num @ replicate pad (CHR '' '')
      else if has c ZERO then sign @ pre @ replicate pad (CHR ''0'') @ num
      else replicate pad (CHR '' '') @ sign @ pre @ num)"

lemma has_minus_zero: "flags c AND (MINUS OR ZERO) = 0 \<longleftrightarrow> \<not> has c MINUS \<and> \<not> has c ZERO"
  by (simp add: has_def bit.conj_disj_distrib or_eq_0_iff)

lemma int_layout_length: "int (length (int_layout c sign pre num)) = max (width c) (int (length (sign @ pre @ num)))"
  by (auto simp: int_layout_def Let_def)

lemma format_integer_text:
  assumes b: "std_base b" and c: "precision c < 0" "\<not> has c GROUP" "\<not> (has c MINUS \<and> has c ZERO)"
    and len: "int (length t) + max (width c) (int (length (sign_of sg ng c @ int_prefix b c v @ int_digits b c v))) \<le> INT_MAX"
  shows "format_integer append_char v sg ng b c t =
     Some (t @ int_layout c (sign_of sg ng c) (int_prefix b c v) (int_digits b c v))"
proof -
  note props = std_base_props [OF b]
  have d: "length (digits_of b (unat v)) \<le> 22" using props(1) u64_small by (rule digits_of_length)
  then have loop: "digit_loop b False v 0 [] = Some (digits_of b (unat v))"
    using digit_loop_plain [OF b, of "[]" v 0] by simp
  let ?buf = "if v = 0 then ''0'' else digits_of b (unat v)"
  have nz: "digits_of b (unat v) \<noteq> []" "last (digits_of b (unat v)) \<noteq> CHR ''0''" if "v \<noteq> 0"
    using that props(1) digits_last [OF b, of "unat v"] by (simp_all add: digits_of_Cons unat_gt_0)
  have z: "zero_loop 1 (digits_of b (unat v)) = ?buf"
  proof (cases "v = 0")
    case True
    then show ?thesis by (simp add: zero_loop.simps)
  next
    case False
    with nz(1) show ?thesis by (subst zero_loop.simps) (simp add: Suc_le_eq)
  qed
  have oct: "(if has c POUND \<and> base b = 8 \<and> (?buf = [] \<or> last ?buf \<noteq> CHR ''0'') then push_buf (CHR ''0'') ?buf else Some ?buf)
      = Some (rev (int_digits b c v))"
    using nz d by (auto simp: push_buf_def int_digits_def)
  have px: "(if (if has c POUND \<and> v \<noteq> 0 then x_char b else None) \<noteq> None then 2 else 0) = int (length (int_prefix b c v))"
    by (auto simp: int_prefix_def)
  have sx: "(if sign_of sg ng c \<noteq> '''' then 1 else 0) = int (length (sign_of sg ng c))"
    by (auto simp: sign_of_def)
  have xo: "(case if has c POUND \<and> v \<noteq> 0 then x_char b else None of None \<Rightarrow> Some s
      | Some x \<Rightarrow> do { s \<leftarrow> append_char (CHR ''0'') s; append_char x s }) = output_all append_char (int_prefix b c v) s" for s
    by (auto simp: int_prefix_def split: option.splits)
  have prec: "(if precision c < 0 then 1 else precision c) = 1" and grp: "has c GROUP = False" using c(1,2) by auto
  define pad where "pad = nat (width c - int (length (sign_of sg ng c) + length (int_prefix b c v) + length (int_digits b c v)))"
  have pad: "nat (width c - int (length (rev (int_digits b c v))) - int (length (int_prefix b c v)) - int (length (sign_of sg ng c))) = pad"
    unfolding pad_def by (simp add: algebra_simps)
  have "format_integer append_char v sg ng b c t = do {
     s \<leftarrow> (if \<not> has c MINUS \<and> \<not> has c ZERO then output_dup append_char (CHR '' '') pad t else Some t);
     s \<leftarrow> output_all append_char (sign_of sg ng c) s;
     s \<leftarrow> output_all append_char (int_prefix b c v) s;
     s \<leftarrow> (if has c ZERO then output_dup append_char (CHR ''0'') pad s else Some s);
     s \<leftarrow> output_all append_char (int_digits b c v) s;
     if has c MINUS then output_dup append_char (CHR '' '') pad s else Some s }"
    unfolding format_integer_def Let_def has_minus_zero prec grp loop Option.bind.simps z oct px sx xo pad
    by (simp only: rev_rev_ident)
  moreover have "int (length t + (pad + length (sign_of sg ng c) + length (int_prefix b c v) + length (int_digits b c v))) \<le> INT_MAX"
    using len by (auto simp: pad_def)
  ultimately show ?thesis
    using c(3) unfolding int_layout_def Let_def pad_def [symmetric] by (auto simp: output_all_text output_dup_text)
qed

definition total :: "('s \<Rightarrow> 's option) \<Rightarrow> bool" where
  "total f \<longleftrightarrow> (\<forall>s. \<exists>s'. f s = Some s')"

named_theorems total_intros

lemma total_return [total_intros]: "total Some"
  by (simp add: total_def)

lemma total_bind [total_intros]: "total f \<Longrightarrow> total g \<Longrightarrow> total (\<lambda>s. f s \<bind> g)"
  unfolding total_def by (metis bind.bind_lunit)

lemma total_if [total_intros]: "total f \<Longrightarrow> total g \<Longrightarrow> total (\<lambda>s. if P then f s else g s)"
  by (cases P) auto

lemma total_option [total_intros]:
  "total f \<Longrightarrow> (\<And>x. total (g x)) \<Longrightarrow> total (\<lambda>s. case r of None \<Rightarrow> f s | Some x \<Rightarrow> g x s)"
  by (cases r) auto

lemma total_output_all [total_intros]: "(\<And>ch. total (out ch)) \<Longrightarrow> total (output_all out x)"
  by (induction x) (auto simp: output_all_def intro: total_intros)

lemma total_output_dup [total_intros]: "(\<And>ch. total (out ch)) \<Longrightarrow> total (output_dup out ch n)"
  by (simp add: output_dup_all [abs_def] total_output_all)

lemma total_format_integer:
  assumes b: "std_base b" and out: "\<And>ch. total (out ch)"
  shows "total (format_integer out v sg ng b c)"
proof -
  obtain buf where 1: "digit_loop b (has c GROUP) v 0 [] = Some buf" "length buf \<le> 44"
    using digit_loop_total [OF b u64_small [of v], of "[]" "has c GROUP" 0] by auto
  let ?z = "zero_loop (if precision c < 0 then 1 else precision c) buf"
  have "length ?z \<le> 63" using 1(2) by (intro zero_loop_length) simp
  then have "push_buf ch ?z = Some (?z @ [ch])" for ch by (simp add: push_buf_def)
  then obtain buf' where 2: "(if has c POUND \<and> base b = 8 \<and> (?z = [] \<or> last ?z \<noteq> CHR ''0'') then push_buf (CHR ''0'') ?z
      else Some ?z) = Some buf'" by (metis (full_types))
  show ?thesis
    unfolding format_integer_def Let_def 1(1) Option.bind.simps 2 by (intro total_intros out)
qed

section \<open>Printing into a buffer\<close>

definition vsn_rel :: "mem \<Rightarrow> mem \<Rightarrow> u64 \<Rightarrow> nat \<Rightarrow> string \<Rightarrow> mem \<times> vsnkprintf_aux \<Rightarrow> bool" where
  "vsn_rel m0 mi buffer n t s \<longleftrightarrow>
     0 < n \<and> n \<le> 2 ^ 31 \<and> (\<forall>p\<in>span buffer n. ld8 m0 p = None) \<and>
     out_length (snd s) = int (length t) \<and> max_length (snd s) = int n - 1 \<and>
     out_p (snd s) = buffer + of_nat (min (length t) (n - 1)) \<and> int (length t) \<le> INT_MAX \<and>
     (\<forall>i<min (length t) (n - 1). ld8 (fst s) (buffer + of_nat i) = Some (of_char (t ! i))) \<and>
     (\<forall>p. p \<notin> span buffer n \<longrightarrow> ld8 (fst s) p = ld8 mi p) \<and>
     region (fst s) buffer n \<and> byte_le m0 (fst s)"

lemma in_span: "i < n \<Longrightarrow> p + of_nat i \<in> span p n"
  by (auto simp: span_def)

lemma byte_le_st8: "byte_le m0 m \<Longrightarrow> ld8 m0 p = None \<Longrightarrow> st8 m p x = Some m' \<Longrightarrow> byte_le m0 m'"
  unfolding byte_le_def by (auto simp: bytes.ld_st)

lemma region_at: "region m p n \<Longrightarrow> i < n \<Longrightarrow> ld8 m (p + of_nat i) \<noteq> None"
  by (simp add: region_def)

lemma vsn_step:
  assumes r: "vsn_rel m0 mi buffer n t s" and a: "append_char ch t = Some t'"
  shows "\<exists>s'. vsnkprintf_helper ch s = Some s' \<and> vsn_rel m0 mi buffer n t' s'"
proof -
  obtain m aux where s: "s = (m, aux)" by fastforce
  have t': "t' = t @ [ch]" "int (length t) < INT_MAX" using a by (auto simp: append_char_def split: if_splits)
  note R = r [unfolded vsn_rel_def s fst_conv snd_conv]
  show ?thesis
  proof (cases "length t < n - 1")
    case False
    then have "vsnkprintf_helper ch s = Some (m, aux\<lparr>out_length := out_length aux + 1\<rparr>)"
      using R t'(2) by (simp add: s vsnkprintf_helper_def, linarith)
    moreover have "vsn_rel m0 mi buffer n t' (m, aux\<lparr>out_length := out_length aux + 1\<rparr>)"
      using R False t' by (auto simp: vsn_rel_def min_def nth_append)
    ultimately show ?thesis by blast
  next
    case True
    let ?q = "buffer + of_nat (length t)"
    have q: "out_p aux = ?q" "?q \<in> span buffer n" "ld8 m ?q \<noteq> None"
      using R True in_span [of "length t" n buffer] region_at [of m buffer n "length t"] by (auto simp: min_def)
    obtain m' where m': "st8 m ?q (of_char ch) = Some m'" using bytes.st_defined [OF q(3)] by blast
    have ld: "ld8 m' p = (if p = ?q then Some (of_char ch) else ld8 m p)" for p by (rule bytes.ld_st [OF m'])
    let ?aux = "aux\<lparr>out_p := ?q + 1, out_length := out_length aux + 1\<rparr>"
    have "vsnkprintf_helper ch s = Some (m', ?aux)"
      using R t'(2) True m' q(1) by (simp add: s vsnkprintf_helper_def, linarith)
    moreover have "vsn_rel m0 mi buffer n t' (m', ?aux)"
    proof -
      have n: "n < 2 ^ 64" using R by simp
      have inj: "buffer + of_nat i = ?q \<longleftrightarrow> i = length t" if "i < n" for i
        using inj_onD [OF inj_offset [of "2 ^ 64" buffer], of i "length t"] that True n by auto
      have "byte_le m0 m'" using byte_le_st8 [OF _ _ m'] R q(2) by blast
      moreover have "region m' buffer n" using R ld unfolding region_def by auto
      moreover have "\<forall>p. p \<notin> span buffer n \<longrightarrow> ld8 m' p = ld8 mi p" using R q(2) ld by auto
      moreover have "ld8 m' (buffer + of_nat i) = Some (of_char (t' ! i))" if "i < min (length t') (n - 1)" for i
      proof (cases "i = length t")
        case True
        then show ?thesis using ld t'(1) by simp
      next
        case False
        then have "i < length t" "i < n" using that t'(1) by auto
        then show ?thesis using R True inj ld t'(1) False by (simp add: nth_append)
      qed
      ultimately show ?thesis
        using R True t' by (simp add: vsn_rel_def min_def add.assoc add.commute [of 1])
    qed
    ultimately show ?thesis by blast
  qed
qed

interpretation vsn: sink_sim "\<lambda>_. m0" append_char fst vsnkprintf_helper "vsn_rel m0 mi buffer n" for m0 mi buffer n
proof
  show "byte_le m0 (fst t)" if "vsn_rel m0 mi buffer n s t" for s t
    using that by (simp add: vsn_rel_def)
qed (rule vsn_step)

lemma va_int_small: "k < 2 ^ 31 \<Longrightarrow> va_int (of_nat k) = int k"
proof -
  assume k: "k < 2 ^ 31"
  have "sint (of_nat k :: u32) = int k"
    using k by (simp add: signed_of_nat signed_take_bit_int_eq_self)
  moreover have "(ucast (of_nat k :: u64) :: u32) = of_nat k"
    by (rule bit_word_eqI) (simp add: bit_simps)
  ultimately show ?thesis by (simp add: va_int_def)
qed

lemma vsnkprintf_ok:
  assumes n: "0 < n" "n \<le> 2 ^ 31" and buf: "region m buffer n" "byte_le m0 m" "\<forall>p\<in>span buffer n. ld8 m0 p = None"
    and tx: "render m0 format args = Some txt"
  shows "\<exists>m'. vsnkprintf m buffer (of_nat n) format args = Some (int (length txt), m') \<and>
     (\<forall>i<min (length txt) (n - 1). ld8 m' (buffer + of_nat i) = Some (of_char (txt ! i))) \<and>
     ld8 m' (buffer + of_nat (min (length txt) (n - 1))) = Some 0 \<and>
     (\<forall>p. p \<notin> span buffer n \<longrightarrow> ld8 m' p = ld8 m p)"
proof -
  let ?aux = "\<lparr>out_p = buffer, out_length = 0, max_length = int n - 1\<rparr>"
  have nz: "0 < (of_nat n :: u64)"
    using n by (simp add: word_neq_0_conv [symmetric] word_of_nat_eq_0_iff) (auto dest: dvd_imp_le)
  have "of_nat n - 1 = (of_nat (n - 1) :: u64)" using n by simp
  then have ml: "va_int (of_nat n - 1) = int n - 1" using n va_int_small [of "n - 1"] by simp
  have "vsn_rel m0 m buffer n [] (m, ?aux)" using n buf by (simp add: vsn_rel_def INT_MAX_def)
  then obtain s where s: "do_vkprintf fst vsnkprintf_helper format args (m, ?aux) = Some s" "vsn_rel m0 m buffer n txt s"
    using vsn.do_vkprintf_sim [of m0 format args "[]" "txt"] tx unfolding render_def by blast
  obtain m1 aux where s1: "s = (m1, aux)" by fastforce
  let ?k = "min (length txt) (n - 1)"
  note R = s(2) [unfolded vsn_rel_def s1 fst_conv snd_conv]
  have k: "?k < n" using n by simp
  then have "ld8 m1 (buffer + of_nat ?k) \<noteq> None" using R region_at by blast
  then obtain m' where m': "st8 m1 (buffer + of_nat ?k) 0 = Some m'" using bytes.st_defined by blast
  have ld: "ld8 m' p = (if p = buffer + of_nat ?k then Some 0 else ld8 m1 p)" for p by (rule bytes.ld_st [OF m'])
  have "vsnkprintf m buffer (of_nat n) format args = Some (int (length txt), m')"
    using s(1) s1 nz R m' ml by (simp add: vsnkprintf_def)
  moreover have "ld8 m' (buffer + of_nat i) = Some (of_char (txt ! i))" if "i < ?k" for i
  proof -
    have "buffer + of_nat i \<noteq> buffer + of_nat ?k"
      using inj_onD [OF inj_offset [of "2 ^ 64" buffer], of i ?k] that k n by auto
    then show ?thesis using R that ld by simp
  qed
  moreover have "ld8 m' p = ld8 m p" if "p \<notin> span buffer n" for p
    using R that ld in_span [OF k] by metis
  ultimately show ?thesis using ld by auto
qed

section \<open>Formats\<close>

lemma append_step: "int (length t) < INT_MAX \<Longrightarrow> append_char ch t = Some (t @ [ch])"
  by (simp add: append_char_def)

lemma do_vkprintf_literal:
  "CHR ''%'' \<notin> set f \<Longrightarrow> do_vkprintf rd out (f @ g) args s = do { s \<leftarrow> output_all out f s; do_vkprintf rd out g args s }"
proof (induction f arbitrary: s)
  case (Cons ch f)
  then have "do_vkprintf rd out ((ch # f) @ g) args s = do { s \<leftarrow> out ch s; do_vkprintf rd out (f @ g) args s }"
    by (subst do_vkprintf.simps) auto
  with Cons show ?case by (simp cong: Option.bind_cong)
qed simp

lemma digit_val_zero: "std_base b \<Longrightarrow> digit_val b (CHR ''0'') = 0"
  using digit_val_nth [of b 0] std_base_props [of b] by simp

lemma int_digits_val:
  assumes "std_base b"
  shows "numeral_val b (int_digits b c v) = unat v"
  using numeral_val_digits [OF assms, of "unat v"] digit_val_zero [OF assms]
  by (auto simp: int_digits_def numeral_val_def)

definition read_int :: "string \<Rightarrow> int" where
  "read_int t = (if looking_at (CHR ''-'') t then - int (numeral_val base_d (tl t)) else int (numeral_val base_d t))"

lemma digits_of_set: "std_base b \<Longrightarrow> set (digits_of b n) \<subseteq> set (digits b)"
proof (induction n rule: less_induct)
  case (less n)
  note b = std_base_props [OF less.prems]
  show ?case
  proof (cases "n = 0")
    case False
    have "n div unat (base b) < n" "n mod unat (base b) < length (digits b)" using b(1,2) False by simp_all
    then show ?thesis using less b(1) False by (simp add: digits_of_Cons)
  qed simp
qed

definition plain_long :: kprintf_conversion where
  "plain_long = \<lparr>flags = 0, width = 0, precision = - 1, ctype = LONG\<rparr>"

definition dec_text :: "bool \<Rightarrow> u64 \<Rightarrow> string" where
  "dec_text ng v = (if ng then ''-'' else []) @ int_digits base_d plain_long v"

lemma format_plain_long: "format_integer append_char v True ng base_d plain_long [] = Some (dec_text ng v)"
proof -
  have c: "precision plain_long < 0" "\<not> has plain_long GROUP" "\<not> (has plain_long MINUS \<and> has plain_long ZERO)"
    "\<not> has plain_long ZERO" "\<not> has plain_long MINUS"
    by (simp_all add: has_def plain_long_def)
  have b: "std_base base_d" by (simp add: std_base_def)
  have "length (int_digits base_d plain_long v) \<le> 22"
    using digits_of_length [OF std_base_props(1) [OF b] u64_small [of v]]
    by (simp add: int_digits_def has_def plain_long_def)
  moreover have "sign_of True ng plain_long = (if ng then ''-'' else [])" "int_prefix base_d plain_long v = []"
    by (simp_all add: sign_of_def int_prefix_def has_def plain_long_def)
  ultimately show ?thesis
    using format_integer_text [OF b c(1-3), of "[]" True ng v] c(4,5)
    by (auto simp: INT_MAX_def int_layout_def dec_text_def plain_long_def split: if_splits)
qed

lemma dec_text_val: "read_int (dec_text ng v) = (if ng then - int (unat v) else int (unat v))"
proof -
  have b: "std_base base_d" by (simp add: std_base_def)
  have "CHR ''-'' \<notin> set (digits base_d)" by (simp add: base_d_def)
  then have "CHR ''-'' \<notin> set (int_digits base_d plain_long v)"
    using digits_of_set [OF b, of "unat v"] by (auto simp: int_digits_def)
  then have "\<not> looking_at (CHR ''-'') (int_digits base_d plain_long v)"
    unfolding looking_at_def by (metis list.set_sel(1))
  then show ?thesis
    using int_digits_val [OF b, of plain_long v] by (auto simp: dec_text_def read_int_def looking_at_def)
qed

section \<open>Dumps return\<close>

lemma do_vkprintf_nil [simp]: "do_vkprintf rd out [] args s = Some s"
  by (subst do_vkprintf.simps) simp

lemma total_literal:
  assumes "CHR ''%'' \<notin> set f" "\<And>ch. total (out ch)"
  shows "total (do_vkprintf rd out f args)"
  using total_output_all [OF assms(2), where x = f] do_vkprintf_literal [OF assms(1), of rd out "[]" args]
  by (simp add: total_def)

lemma total_for_each [total_intros]: "(\<And>i. i \<in> set is \<Longrightarrow> total (f i)) \<Longrightarrow> total (for_each f is)"
proof (induction "is")
  case (Cons i "is")
  then show ?case by (simp add: total_bind)
qed (simp add: total_def)

lemma do_vkprintf_conversion:
  assumes "parse_conversion f args = Some (c, k # g, args)" "k \<in> set ''diouxXcsp''" "\<not> looking_at (CHR ''%'') f" "args = a # args'"
  shows "do_vkprintf rd out (CHR ''%'' # f) args s = do { s \<leftarrow> convert rd out k c a s; do_vkprintf rd out g args' s }"
  unfolding do_vkprintf.simps [of rd out "CHR ''%'' # f"] using assms by simp

lemma total_conversion:
  assumes "parse_conversion f args = Some (c, k # g, args)" "k \<in> set ''diouxXcsp''" "\<not> looking_at (CHR ''%'') f" "args = a # args'"
    and "total (convert rd out k c a)" "total (do_vkprintf rd out g args')"
  shows "total (do_vkprintf rd out (CHR ''%'' # f) args)"
  using total_bind [OF assms(5,6)] do_vkprintf_conversion [OF assms(1-4), of rd out] by (simp add: total_def)

lemmas parse_defs = parse_conversion_def parse_width_def parse_precision_def parse_type_def looking_at_def
  isdigit_def code_of_def INT_MAX_def MINUS_def PLUS_def ZERO_def SPACE_def

lemma hex_formats_total:
  assumes "\<And>ch. total (out ch)"
  shows "total (do_vkprintf rd out ''%c'' [a])" "total (do_vkprintf rd out ''%08jx  '' [a])"
    "total (do_vkprintf rd out ''%02hhx%c'' [a, a'])"
proof -
  note lit = total_literal [OF _ assms]
  have c: "parse_conversion ''c'' args = Some (\<lparr>flags = 0, width = 0, precision = - 1, ctype = INT_T\<rparr>, ''c'', args)" for args
    by (simp add: parse_defs)
  have j: "parse_conversion ''08jx  '' args = Some (\<lparr>flags = ZERO, width = 8, precision = - 1, ctype = INTMAX\<rparr>, ''x  '', args)" for args
    by (simp add: parse_defs)
  have h: "parse_conversion ''02hhx%c'' args = Some (\<lparr>flags = ZERO, width = 2, precision = - 1, ctype = CHAR_T\<rparr>, ''x%c'', args)" for args
    by (simp add: parse_defs)
  have conv: "total (convert rd out (CHR ''c'') \<lparr>flags = 0, width = 0, precision = - 1, ctype = INT_T\<rparr> x)" for x
    using assms by (simp add: total_def convert_def format_string_def lit_char_def)
  have hexc: "total (convert rd out (CHR ''x'') c x)" for c x
    using total_format_integer [of base_x out] assms by (simp add: convert_def std_base_def total_def)
  show 1: "total (do_vkprintf rd out ''%c'' [a])" for a
    by (rule total_conversion [OF c _ _ refl conv]) (simp_all add: looking_at_def total_def)
  show "total (do_vkprintf rd out ''%08jx  '' [a])"
    by (rule total_conversion [OF j _ _ refl hexc lit]) (simp_all add: looking_at_def)
  show "total (do_vkprintf rd out ''%02hhx%c'' [a, a'])"
    by (rule total_conversion [OF h _ _ refl hexc 1]) (simp_all add: looking_at_def)
qed

lemma total_ld8:
  assumes "\<And>s. ld8 (rd s) p \<noteq> None" "\<And>b. total (f b)"
  shows "total (\<lambda>s. ld8 (rd s) p \<bind> (\<lambda>b. f b s))"
  unfolding total_def
proof
  fix s
  obtain b where "ld8 (rd s) p = Some b" using assms(1) [of s] by blast
  then show "\<exists>s'. ld8 (rd s) p \<bind> (\<lambda>b. f b s) = Some s'" using assms(2) [of b] by (simp add: total_def)
qed

lemma hex_line_total:
  assumes out: "\<And>ch. total (out ch)" and mapped: "\<And>s. region (rd s) buf n" and e: "end \<le> start + n"
  shows "total (hex_line rd (do_vkprintf rd out) ofs buf start end ascii)"
proof -
  note lit = total_literal [OF _ out]
  have b: "ld8 (rd s) (buf + of_nat (i - start)) \<noteq> None" if "i \<in> set [start..<end]" for s i
    using mapped [of s] that e by (intro region_at) auto
  show ?thesis
    unfolding hex_line_def by (intro total_intros total_ld8 b hex_formats_total out lit) simp_all
qed

lemma hex_dump_total:
  assumes out: "\<And>ch. total (out ch)"
  shows "(\<And>s. region (rd s) buf (unat n)) \<Longrightarrow> total (hex_dump rd (do_vkprintf rd out) ofs buf n ascii)"
proof (induction "unat n" arbitrary: n buf ofs rule: less_induct)
  case less
  show ?case
  proof (cases "n = 0")
    case True
    then show ?thesis unfolding total_def by (subst hex_dump.simps) simp
  next
    case False
    then have n0: "0 < n" by (simp add: word_neq_0_conv [symmetric])
    define start where "start = ofs mod per_line"
    define e where "e = (if n < per_line - start then start + n else per_line)"
    have s16: "unat start < 16" by (simp add: start_def per_line_def unat_mod)
    have pl: "unat (per_line - start) = 16 - unat start"
      using s16 by (simp add: per_line_def unat_sub word_le_nat_alt)
    have e: "unat e = unat start + min (unat n) (16 - unat start)"
    proof (cases "n < per_line - start")
      case True
      then have "unat n < 16 - unat start" using pl by (simp add: word_less_nat_alt)
      then show ?thesis using True s16 by (simp add: e_def unat_word_ariths)
    next
      case False
      then have "16 - unat start \<le> unat n" using pl by (simp add: word_less_nat_alt)
      then show ?thesis using False s16 by (simp add: e_def per_line_def)
    qed
    have d: "unat (e - start) = min (unat n) (16 - unat start)" using e by (simp add: unat_sub word_le_nat_alt)
    have d0: "0 < unat (e - start)" using d n0 s16 by (simp add: word_less_nat_alt)
    have le: "unat (e - start) \<le> unat n" using d by simp
    have sub: "unat (n - (e - start)) = unat n - unat (e - start)" using le by (simp add: unat_sub word_le_nat_alt)
    have rest: "region (rd s) (buf + (e - start)) (unat (n - (e - start)))" for s
      using region_sub [OF less.prems [of s], of "unat (e - start)" "unat (n - (e - start))"] sub le by simp
    have "total (hex_line rd (do_vkprintf rd out) ofs buf (unat start) (unat e) ascii)"
      using e by (intro hex_line_total [OF out less.prems]) simp
    moreover have "total (hex_dump rd (do_vkprintf rd out) (ofs + (e - start)) (buf + (e - start)) (n - (e - start)) ascii)"
      using sub d0 le rest by (intro less.hyps) simp_all
    moreover have "hex_dump rd (do_vkprintf rd out) ofs buf n ascii s =
        do { s \<leftarrow> hex_line rd (do_vkprintf rd out) ofs buf (unat start) (unat e) ascii s;
             hex_dump rd (do_vkprintf rd out) (ofs + (e - start)) (buf + (e - start)) (n - (e - start)) ascii s }" for s
      using n0 by (subst hex_dump.simps) (simp add: start_def [symmetric] e_def [symmetric] Let_def)
    ultimately show ?thesis using total_bind unfolding total_def by metis
  qed
qed

section \<open>Properties\<close>

text \<open>
  C26: an integer conversion with the default precision produces sign,
  prefix and digits, padded with blanks on the left, blanks on the right (flag \<^verbatim>\<open>-\<close>) or zeros between
  prefix and digits (flag \<^verbatim>\<open>0\<close>) to exactly the field width or to its natural length if that is
  larger, and the digits read back as the value, in each of the four bases.
\<close>
theorem format_integer_correct:
  assumes "std_base b" and "precision c < 0" and "\<not> has c GROUP" and "\<not> (has c MINUS \<and> has c ZERO)"
    and "core = sign_of sg ng c @ int_prefix b c v @ int_digits b c v"
    and "int (length t) + max (width c) (int (length core)) \<le> INT_MAX"
  shows "format_integer append_char v sg ng b c t =
       Some (t @ int_layout c (sign_of sg ng c) (int_prefix b c v) (int_digits b c v)) \<and>
     int (length (int_layout c (sign_of sg ng c) (int_prefix b c v) (int_digits b c v))) =
       max (width c) (int (length core)) \<and>
     numeral_val b (int_digits b c v) = unat v"
  using format_integer_text [OF assms(1-4)] int_layout_length int_digits_val assms by simp

theorem format_integer_correct_witness:
  "format_integer append_char 255 False False base_x \<lparr>flags = POUND OR ZERO, width = 8, precision = - 1, ctype = INT_T\<rparr> [] =
     Some ''0x0000ff''"
proof -
  let ?c = "\<lparr>flags = POUND OR ZERO, width = 8, precision = - 1, ctype = INT_T\<rparr>"
  have 1: "std_base base_x" "precision ?c < 0" "\<not> has ?c GROUP" "\<not> (has ?c MINUS \<and> has ?c ZERO)"
    by (simp_all add: std_base_def has_def GROUP_def MINUS_def POUND_def ZERO_def)
  have 2: "sign_of False False ?c = ''''" "int_prefix base_x ?c 255 = ''0x''" "int_digits base_x ?c 255 = ''ff''"
    by code_simp+
  have 3: "int_layout ?c '''' ''0x'' ''ff'' = ''0x0000ff''" by code_simp
  show ?thesis
    using format_integer_correct [OF 1 refl, of "[]" False False 255] unfolding 2 3
    by (simp add: INT_MAX_def)
qed

text \<open>
  An integer conversion in any of the four bases, with any flags, width and
  precision, never writes past its 64-byte digit buffer and returns, whatever the output callback.
\<close>
theorem format_integer_safe:
  assumes "std_base b" and "\<forall>ch s. \<exists>s'. out ch s = Some s'"
  shows "\<exists>s'. format_integer out v sg ng b c s = Some s'"
  using total_format_integer [OF assms(1), of out v sg ng c] assms(2) by (simp add: total_def)

theorem format_integer_safe_witness:
  "\<exists>s'. format_integer (\<lambda>ch n. Some (Suc n)) (- 1) False False base_o
     \<lparr>flags = POUND OR GROUP, width = 1000, precision = 500, ctype = INTMAX\<rparr> 0 = Some s'"
  using format_integer_safe [of base_o "\<lambda>ch n. Some (Suc n)"] by (simp add: std_base_def)

text \<open>
  C27: printing a 64-bit signed integer with \<^verbatim>\<open>%ld\<close> returns and the text
  reads back as that integer (the most negative one is excluded: its negation overflows).
\<close>
theorem render_long_roundtrip:
  assumes "sint a \<noteq> - (2 ^ 63)"
  shows "\<exists>t. render m ''%ld'' [a] = Some t \<and> read_int t = sint a"
proof -
  define v :: u64 where "v = of_int (if sint a < 0 then - sint a else sint a)"
  have parse: "parse_conversion ''ld'' [a] = Some (plain_long, ''d'', [a])"
    by (simp add: parse_conversion_def parse_width_def parse_precision_def parse_type_def looking_at_def
        isdigit_def code_of_def plain_long_def)
  have nil: "do_vkprintf rd out [] as t = Some t" for rd as and out :: "char \<Rightarrow> string \<Rightarrow> string option" and t
    by (subst do_vkprintf.simps) simp
  have "signed_value (ctype plain_long) a = sint a" by (simp add: signed_value_def plain_long_def)
  then have "convert (\<lambda>_. m) append_char (CHR ''d'') plain_long a [] = Some (dec_text (sint a < 0) v)"
    using assms format_plain_long unfolding convert_def v_def by (simp add: Let_def del: of_int_minus)
  then have "render m ''%ld'' [a] = Some (dec_text (sint a < 0) v)"
    unfolding render_def by (subst do_vkprintf.simps) (simp add: looking_at_def parse nil)
  moreover have "unat v = nat \<bar>sint a\<bar>"
    using sint_greater_eq [of a] sint_less [of a] unfolding v_def
    by (simp add: unat_eq_nat_uint uint_word_of_int_eq take_bit_int_eq_self)
  ultimately show ?thesis using dec_text_val [of "sint a < 0" v] by simp
qed

theorem render_long_roundtrip_witness:
  "\<exists>t. render Map.empty ''%ld'' [- 42] = Some t \<and> read_int t = - 42"
  using render_long_roundtrip [of "- 42" Map.empty] by simp

text \<open>
  C28: printing into a buffer of \<open>n\<close> bytes stores the first \<open>n - 1\<close> characters of
  the text the format produces, followed by a zero byte, changes no byte outside the buffer, and
  returns the length of the whole text. The string arguments must not lie in the buffer: the text is
  produced from a memory in which the buffer is not mapped.
\<close>
theorem vsnkprintf_correct:
  assumes "0 < n" and "n \<le> 2 ^ 31" and "region m buffer n" and "byte_le m0 m"
    and "\<forall>p\<in>span buffer n. ld8 m0 p = None" and "render m0 format args = Some t"
  shows "\<exists>m'. vsnkprintf m buffer (of_nat n) format args = Some (int (length t), m') \<and>
     (\<forall>i<min (length t) (n - 1). ld8 m' (buffer + of_nat i) = Some (of_char (t ! i))) \<and>
     ld8 m' (buffer + of_nat (min (length t) (n - 1))) = Some 0 \<and>
     (\<forall>p. p \<notin> span buffer n \<longrightarrow> ld8 m' p = ld8 m p)"
  using assms by (rule vsnkprintf_ok)

theorem vsnkprintf_correct_witness:
  "\<exists>m'. vsnkprintf text_mem 0x1000 4 ''n=%d'' [1234] = Some (6, m') \<and> ld8 m' 0x1002 = Some 0x31 \<and> ld8 m' 0x1003 = Some 0"
proof -
  have r: "render Map.empty ''n=%d'' [1234] = Some ''n=1234''" unfolding render_def by code_simp
  have "region text_mem 0x1000 4" using text_mem_region region_sub [of text_mem "0x1000" 8 0 4] by simp
  then obtain m' where m': "vsnkprintf text_mem 0x1000 (of_nat 4) ''n=%d'' [1234] = Some (int (length ''n=1234''), m')"
      "\<forall>i<min (length ''n=1234'') (4 - 1). ld8 m' (0x1000 + of_nat i) = Some (of_char (''n=1234'' ! i))"
      "ld8 m' (0x1000 + of_nat (min (length ''n=1234'') (4 - 1))) = Some 0"
    using vsnkprintf_correct [OF _ _ _ _ _ r, of 4 text_mem "0x1000"] by (auto simp: byte_le_def ld8_def)
  from m'(2) [rule_format, of 2] m'(1,3) show ?thesis by simp
qed

text \<open>
  A format that ends in a lone \<^verbatim>\<open>%\<close> is not stopped at its terminating
  zero: the error message is printed for the zero byte, the loop increments past it, and the
  interpreter goes on reading beyond the string.
\<close>
theorem trailing_percent_overrun:
  assumes "CHR ''%'' \<notin> set f"
  shows "do_vkprintf rd out (f @ ''%'') args s = None"
proof -
  have parse: "parse_conversion [] args = Some (\<lparr>flags = 0, width = 0, precision = - 1, ctype = INT_T\<rparr>, [], args)"
    by (simp add: parse_conversion_def parse_width_def parse_precision_def parse_type_def looking_at_def)
  have "do_vkprintf rd out ''%'' args s = None" for s
    by (subst do_vkprintf.simps) (simp add: looking_at_def parse)
  then show ?thesis unfolding do_vkprintf_literal [OF assms] by (cases "output_all out f s") auto
qed

theorem trailing_percent_overrun_witness:
  "do_vkprintf (\<lambda>_. text_mem) append_char ''100%'' [] [] = None"
  using trailing_percent_overrun [of "''100''" "\<lambda>_. text_mem" append_char "[]" "[]"] by simp

text \<open>
  Dumping any mapped block, of any size and at any offset, terminates: every
  line advances by at least one byte and never past the end of the block.
\<close>
theorem hex_dump_returns:
  assumes "\<forall>ch s. \<exists>s'. out ch s = Some s'" and "\<forall>s. region (rd s) buf (unat n)"
  shows "\<exists>s'. hex_dump rd (do_vkprintf rd out) ofs buf n ascii s = Some s'"
  using hex_dump_total [of out rd buf n ofs ascii] assms by (simp add: total_def)

theorem hex_dump_returns_witness:
  "\<exists>s'. hex_dump (\<lambda>_. text_mem) (do_vkprintf (\<lambda>_. text_mem) (\<lambda>ch t. Some (ch # t))) 0x1005 0x1000 8 True [] = Some s'"
  using hex_dump_returns [of "\<lambda>ch t. Some (ch # t)" "\<lambda>_. text_mem" "0x1000" 8] text_mem_region by simp

end
