(* ===== verification/Pmm_Frame.thy ===== *)
theory Pmm_Frame
  imports Pmm_Init
begin

text \<open>
  The frame rule of the physical memory manager: an allocation or a release that is defined on a
  memory is defined on every larger one, with the same result, and leaves the additional addresses
  as they were. Applied to the memory that holds nothing but the bitmaps, this shows that the
  manager reads and writes its bitmaps only; the page tables, which lie in the same memory, rely
  on it.
\<close>

definition framed :: "mem \<Rightarrow> u64 set \<Rightarrow> u64 \<Rightarrow> u64 \<Rightarrow> pmm \<Rightarrow> pmm \<Rightarrow> bool" where
  "framed m D b0 ms s t \<longleftrightarrow>
     dom (pm s) = D \<and> bitmap_base s = b0 \<and> mem_size s = ms \<and> t = s\<lparr>pm := m ++ pm s\<rparr>"

definition framed_pair :: "mem \<Rightarrow> u64 set \<Rightarrow> u64 \<Rightarrow> u64 \<Rightarrow> 'r \<times> pmm \<Rightarrow> 'r \<times> pmm \<Rightarrow> bool" where
  "framed_pair m D b0 ms x y \<longleftrightarrow> fst x = fst y \<and> framed m D b0 ms (snd x) (snd y)"

lemma ld8_add: "ld8 m' p = Some x \<Longrightarrow> ld8 (m ++ m') p = Some x"
  by (auto simp: ld8_def)

lemma st8_add: "st8 m' p x = Some m'' \<Longrightarrow> st8 (m ++ m') p x = Some (m ++ m'') \<and> dom m'' = dom m'"
  by (auto simp: st8_def split: option.splits if_splits)

lemma rmw_add:
  assumes "(do { x \<leftarrow> ld8 m' p; st8 m' p (f x) }) = Some m''"
  shows "(do { x \<leftarrow> ld8 (m ++ m') p; st8 (m ++ m') p (f x) }) = Some (m ++ m'') \<and> dom m'' = dom m'"
proof -
  obtain x where x: "ld8 m' p = Some x" "st8 m' p (f x) = Some m''" using assms by (auto simp: bind_eq_Some_conv)
  from ld8_add [OF x(1), of m] st8_add [OF x(2), of m] show ?thesis by simp
qed

lemma bit_ops_add:
  "pmmSetBit m' b i = Some m'' \<Longrightarrow> pmmSetBit (m ++ m') b i = Some (m ++ m'') \<and> dom m'' = dom m'"
  "pmmClearBit m' b i = Some m'' \<Longrightarrow> pmmClearBit (m ++ m') b i = Some (m ++ m'') \<and> dom m'' = dom m'"
  unfolding pmmSetBit_def pmmClearBit_def Let_def by (rule rmw_add, assumption)+

lemma sim_set_bit [sim_intros]: "sim (framed m D b0 ms) (framed m D b0 ms) (set_bit_at i j) (set_bit_at i j)"
proof (rule simI)
  fix s t s'
  assume R: "framed m D b0 ms s t" and st: "set_bit_at i j s = Some s'"
  from st obtain m1 where m1: "pmmSetBit (pm s) (bm_base (bitmaps s ! i)) j = Some m1" "s' = s\<lparr>pm := m1\<rparr>"
    by (auto simp: set_bit_at_def bind_eq_Some_conv)
  with R bit_ops_add(1) [OF m1(1), of m] show "\<exists>t'. set_bit_at i j t = Some t' \<and> framed m D b0 ms s' t'"
    by (auto simp: framed_def set_bit_at_def)
qed

lemma sim_clear_bit [sim_intros]: "sim (framed m D b0 ms) (framed m D b0 ms) (clear_bit_at i j) (clear_bit_at i j)"
proof (rule simI)
  fix s t s'
  assume R: "framed m D b0 ms s t" and st: "clear_bit_at i j s = Some s'"
  from st obtain m1 where m1: "pmmClearBit (pm s) (bm_base (bitmaps s ! i)) j = Some m1" "s' = s\<lparr>pm := m1\<rparr>"
    by (auto simp: clear_bit_at_def bind_eq_Some_conv)
  with R bit_ops_add(2) [OF m1(1), of m] show "\<exists>t'. clear_bit_at i j t = Some t' \<and> framed m D b0 ms s' t'"
    by (auto simp: framed_def clear_bit_at_def)
qed

lemma check_bit_framed: "framed m D b0 ms s t \<Longrightarrow> check_bit_at i j s = Some c \<Longrightarrow> check_bit_at i j t = Some c"
  by (auto simp: framed_def check_bit_at_def pmmCheckBit_def bind_eq_Some_conv dest: ld8_add)

lemma sim_check_bit [sim_intros]:
  "(\<And>c. sim (framed m D b0 ms) Q (f c) (g c)) \<Longrightarrow>
   sim (framed m D b0 ms) Q (\<lambda>s. check_bit_at i j s \<bind> (\<lambda>c. f c s)) (\<lambda>t. check_bit_at i j t \<bind> (\<lambda>c. g c t))"
  by (rule sim_read) (rule check_bit_framed)

lemma sim_add_free [sim_intros]: "sim (framed m D b0 ms) (framed m D b0 ms) (\<lambda>s. Some (add_free i d s)) (\<lambda>t. Some (add_free i d t))"
  unfolding sim_def framed_def by (simp add: add_free_def)

lemma sim_free_mem [sim_intros]:
  "sim (framed m D b0 ms) (framed m D b0 ms) (\<lambda>s. Some (s\<lparr>free_mem := free_mem s + x\<rparr>)) (\<lambda>t. Some (t\<lparr>free_mem := free_mem t + x\<rparr>))"
  unfolding sim_def framed_def by simp

lemma pmmPropagateDown_Suc:
  "pmmPropagateDown pages (Suc l) index = (\<lambda>s.
     if pages = push_bit (Suc l) 1 then Some s
     else if pages \<le> push_bit l 1 then do {
       s \<leftarrow> pmmPropagateDown pages l (L_CHILD index) s;
       s \<leftarrow> clear_bit_at l (R_CHILD index) s;
       Some (add_free l 1 s) }
     else pmmPropagateDown (pages - push_bit l 1) l (R_CHILD index) s)"
  by (rule ext) simp

lemma sim_propagate [sim_intros]:
  "sim (framed m D b0 ms) (framed m D b0 ms) (pmmPropagateDown pages l index) (pmmPropagateDown pages l index)"
proof (induction l arbitrary: pages index)
  case 0
  have "pmmPropagateDown pages 0 index = Some" by (rule ext) simp
  then show ?case by (simp add: sim_return)
next
  case (Suc l)
  show ?case unfolding pmmPropagateDown_Suc by (intro sim_intros Suc.IH)
qed

text \<open>The bodies with every update as a step of its own.\<close>

lemma pmalloc_take_steps:
  "pmalloc_take pages i j = (\<lambda>s. do {
     s \<leftarrow> (do {
       s \<leftarrow> set_bit_at i j s;
       s \<leftarrow> Some (add_free i (- 1) s);
       s \<leftarrow> (if i \<noteq> NUM_BITMAPS - 1 then do {
              c \<leftarrow> check_bit_at (i + 1) (PARENT j) s;
              if c = 0 then do {
                s \<leftarrow> set_bit_at (i + 1) (PARENT j) s;
                s \<leftarrow> Some (add_free (i + 1) (- 1) s);
                s \<leftarrow> clear_bit_at i (j + 1) s;
                Some (add_free i 1 s) }
              else Some s }
            else Some s);
       s \<leftarrow> pmmPropagateDown pages i j s;
       Some (s\<lparr>free_mem := free_mem s + - (pages * PAGE_SIZE)\<rparr>) });
     Some (j * push_bit i PAGE_SIZE, s) })"
  by (rule ext) (simp add: pmalloc_take_def Let_def cong: if_cong)

lemma merge_pair_steps:
  "merge_pair level i a b = (\<lambda>s. do {
     c \<leftarrow> check_bit_at level a s;
     if c = 0 then do {
       d \<leftarrow> check_bit_at level b s;
       if d = 0 then do {
         s \<leftarrow> clear_bit_at (level + 1) (PARENT i) s;
         s \<leftarrow> Some (add_free (level + 1) 1 s);
         s \<leftarrow> set_bit_at level a s;
         s \<leftarrow> set_bit_at level b s;
         Some (add_free level (- 2) s) }
       else Some s }
     else Some s })"
  by (rule ext) (auto simp: merge_pair_def Let_def intro!: Option.bind_cong)

lemma sim_merge_pair [sim_intros]: "sim (framed m D b0 ms) (framed m D b0 ms) (merge_pair l i a b) (merge_pair l i a b)"
  unfolding merge_pair_steps by (intro sim_intros)

lemma sim_pair [sim_intros]:
  "sim (framed m D b0 ms) (framed m D b0 ms) f g \<Longrightarrow>
   sim (framed m D b0 ms) (framed_pair m D b0 ms) (\<lambda>s. f s \<bind> (\<lambda>s. Some (r, s))) (\<lambda>t. g t \<bind> (\<lambda>t. Some (r, t)))"
  unfolding sim_def framed_pair_def by (fastforce simp: bind_eq_Some_conv)

lemma sim_take: "sim (framed m D b0 ms) (framed_pair m D b0 ms) (pmalloc_take pages i j) (pmalloc_take pages i j)"
  unfolding pmalloc_take_steps by (intro sim_intros)

text \<open>The loops, by fixed-point induction.\<close>

lemma framed_add_free: "framed m D b0 ms s t \<Longrightarrow> framed m D b0 ms (add_free i d s) (add_free i d t)"
  by (simp add: framed_def add_free_def)

lemma sim_after_add_free:
  "sim (framed m D b0 ms) Q f g \<Longrightarrow> sim (framed m D b0 ms) Q (\<lambda>s. f (add_free i d s)) (\<lambda>t. g (add_free i d t))"
  unfolding sim_def using framed_add_free by blast

lemma sim_coalesce_even [sim_intros]: "sim (framed m D b0 ms) (framed m D b0 ms) (coalesce_even l i k) (coalesce_even l i k)"
proof (rule simI)
  let ?R = "framed m D b0 ms"
  fix s t s'
  assume R: "?R s t" and run: "coalesce_even l i k s = Some s'"
  have "\<forall>t. ?R s t \<longrightarrow> (\<exists>t'. coalesce_even l i k t = Some t' \<and> ?R s' t')"
  proof (rule coalesce_even.raw_induct [OF _ run], intro allI impI)
    fix f l i k s s' t
    assume IH: "\<And>l i k s s'. f l i k s = Some s' \<Longrightarrow> \<forall>t. ?R s t \<longrightarrow> (\<exists>t'. coalesce_even l i k t = Some t' \<and> ?R s' t')"
      and step: "(if i < k then merge_pair l i i (i + 1) s \<bind> f l (i + 2) k else Some s) = Some s'" and R: "?R s t"
    have F: "sim ?R ?R (f l i k) (coalesce_even l i k)" for l i k
      using IH by (auto simp: sim_def)
    show "\<exists>t'. coalesce_even l i k t = Some t' \<and> ?R s' t'"
      unfolding coalesce_even.simps [of l i k t]
      using R step by (rule simD [where R = ?R and Q = ?R, rotated]) (intro sim_intros F)
  qed
  with R show "\<exists>t'. coalesce_even l i k t = Some t' \<and> ?R s' t'" by blast
qed

lemma sim_coalesce_odd [sim_intros]: "sim (framed m D b0 ms) (framed m D b0 ms) (coalesce_odd l i k) (coalesce_odd l i k)"
proof (rule simI)
  let ?R = "framed m D b0 ms"
  fix s t s'
  assume R: "?R s t" and run: "coalesce_odd l i k s = Some s'"
  have "\<forall>t. ?R s t \<longrightarrow> (\<exists>t'. coalesce_odd l i k t = Some t' \<and> ?R s' t')"
  proof (rule coalesce_odd.raw_induct [OF _ run], intro allI impI)
    fix f l i k s s' t
    assume IH: "\<And>l i k s s'. f l i k s = Some s' \<Longrightarrow> \<forall>t. ?R s t \<longrightarrow> (\<exists>t'. coalesce_odd l i k t = Some t' \<and> ?R s' t')"
      and step: "(if i < k then merge_pair l i (i - 1) i s \<bind> f l (i + 2) k else Some s) = Some s'" and R: "?R s t"
    have F: "sim ?R ?R (f l i k) (coalesce_odd l i k)" for l i k
      using IH by (auto simp: sim_def)
    show "\<exists>t'. coalesce_odd l i k t = Some t' \<and> ?R s' t'"
      unfolding coalesce_odd.simps [of l i k t]
      using R step by (rule simD [where R = ?R and Q = ?R, rotated]) (intro sim_intros F)
  qed
  with R show "\<exists>t'. coalesce_odd l i k t = Some t' \<and> ?R s' t'" by blast
qed

lemma sim_pfree_loop [sim_intros]: "sim (framed m D b0 ms) (framed m D b0 ms) (pfree_loop i k) (pfree_loop i k)"
proof (rule simI)
  let ?R = "framed m D b0 ms"
  fix s t s'
  assume R: "?R s t" and run: "pfree_loop i k s = Some s'"
  have "\<forall>t. ?R s t \<longrightarrow> (\<exists>t'. pfree_loop i k t = Some t' \<and> ?R s' t')"
  proof (rule pfree_loop.raw_induct [OF _ run], intro allI impI)
    fix f i k s s' t
    assume IH: "\<And>i k s s'. f i k s = Some s' \<Longrightarrow> \<forall>t. ?R s t \<longrightarrow> (\<exists>t'. pfree_loop i k t = Some t' \<and> ?R s' t')"
      and step: "(if i < k then clear_bit_at 0 i s \<bind> (\<lambda>s. f (i + 1) k (add_free 0 1 s)) else Some s) = Some s'" and R: "?R s t"
    have F: "sim ?R ?R (f i k) (pfree_loop i k)" for i k
      using IH by (auto simp: sim_def)
    show "\<exists>t'. pfree_loop i k t = Some t' \<and> ?R s' t'"
      unfolding pfree_loop.simps [of i k t]
      using R step by (rule simD [where R = ?R and Q = ?R, rotated]) (intro sim_intros F sim_after_add_free)
  qed
  with R show "\<exists>t'. pfree_loop i k t = Some t' \<and> ?R s' t'" by blast
qed

lemma sim_coalesce [sim_intros]: "sim (framed m D b0 ms) (framed m D b0 ms) (coalesce pages l index) (coalesce pages l index)"
proof (rule simI)
  let ?R = "framed m D b0 ms"
  fix s t s'
  assume R: "?R s t" and run: "coalesce pages l index s = Some s'"
  have "\<forall>t. ?R s t \<longrightarrow> (\<exists>t'. coalesce pages l index t = Some t' \<and> ?R s' t')"
  proof (rule coalesce.raw_induct [OF _ run], intro allI impI)
    fix f pages l index s s' t
    assume IH: "\<And>pages l index s s'. f pages l index s = Some s' \<Longrightarrow> \<forall>t. ?R s t \<longrightarrow> (\<exists>t'. coalesce pages l index t = Some t' \<and> ?R s' t')"
      and step: "((if index mod 2 = 0 then coalesce_even l index (index + pages) s else coalesce_odd l index (index + pages) s) \<bind> (\<lambda>s. if l + 1 \<noteq> NUM_BITMAPS - 1 then f (pages div 2) (l + 1) (PARENT index) s else Some s)) = Some s'" and R: "?R s t"
    have F: "sim ?R ?R (f pages l index) (coalesce pages l index)" for pages l index
      using IH by (auto simp: sim_def)
    show "\<exists>t'. coalesce pages l index t = Some t' \<and> ?R s' t'"
      unfolding coalesce.simps [of pages l index t]
      using R step by (rule simD [where R = ?R and Q = ?R, rotated]) (intro sim_intros F)
  qed
  with R show "\<exists>t'. coalesce pages l index t = Some t' \<and> ?R s' t'" by blast
qed

lemma framed_size: "framed m D b0 ms s t \<Longrightarrow> bm_size (bitmaps t ! i) = bm_size (bitmaps s ! i)"
  by (simp add: framed_def)

lemma sim_scan:
  "sim (framed m D b0 ms) (rel_option (framed_pair m D b0 ms)) (pmalloc_scan pages i j) (pmalloc_scan pages i j)"
proof (rule simI)
  let ?R = "framed m D b0 ms" and ?Q = "rel_option (framed_pair m D b0 ms)"
  fix s t r
  assume R: "?R s t" and run: "pmalloc_scan pages i j s = Some r"
  have "\<forall>t. ?R s t \<longrightarrow> (\<exists>r'. pmalloc_scan pages i j t = Some r' \<and> ?Q r r')"
  proof (rule pmalloc_scan.raw_induct [OF _ run], intro allI impI)
    fix f pages i j s r t
    assume IH: "\<And>pages i j s r. f pages i j s = Some r \<Longrightarrow> \<forall>t. ?R s t \<longrightarrow> (\<exists>r'. pmalloc_scan pages i j t = Some r' \<and> ?Q r r')"
      and step: "(if j < bm_size (bitmaps s ! i) * 8
         then check_bit_at i j s \<bind> (\<lambda>c. if c = 0 then pmalloc_take pages i j s \<bind> (\<lambda>r. Some (Some r)) else f pages i (j + 1) s)
         else Some None) = Some r" and R: "?R s t"
    show "\<exists>r'. pmalloc_scan pages i j t = Some r' \<and> ?Q r r'"
    proof (cases "j < bm_size (bitmaps s ! i) * 8")
      case False
      with step R show ?thesis by (subst pmalloc_scan.simps) (auto simp: framed_size)
    next
      case True
      with step obtain c where c: "check_bit_at i j s = Some c"
          "(if c = 0 then pmalloc_take pages i j s \<bind> (\<lambda>r. Some (Some r)) else f pages i (j + 1) s) = Some r"
        by (auto simp: bind_eq_Some_conv)
      have t: "pmalloc_scan pages i j t = (if c = 0 then pmalloc_take pages i j t \<bind> (\<lambda>r. Some (Some r)) else pmalloc_scan pages i (j + 1) t)"
        using True check_bit_framed [OF R c(1)] framed_size [OF R, of i] by (subst pmalloc_scan.simps) simp
      show ?thesis
      proof (cases "c = 0")
        case True
        with c obtain x where x: "pmalloc_take pages i j s = Some x" "r = Some x" by (auto simp: bind_eq_Some_conv)
        with simD [OF sim_take R x(1)] True t show ?thesis by auto
      next
        case False
        with c IH R t show ?thesis by auto
      qed
    qed
  qed
  with R show "\<exists>r'. pmalloc_scan pages i j t = Some r' \<and> ?Q r r'" by blast
qed

lemma sim_levels: "sim (framed m D b0 ms) (framed_pair m D b0 ms) (pmalloc_levels pages i) (pmalloc_levels pages i)"
proof (rule simI)
  let ?R = "framed m D b0 ms" and ?Q = "framed_pair m D b0 ms"
  fix s t r
  assume R: "?R s t" and run: "pmalloc_levels pages i s = Some r"
  have "\<forall>t. ?R s t \<longrightarrow> (\<exists>r'. pmalloc_levels pages i t = Some r' \<and> ?Q r r')"
  proof (rule pmalloc_levels.raw_induct [OF _ run], intro allI impI)
    fix f pages i s r t
    assume IH: "\<And>pages i s r. f pages i s = Some r \<Longrightarrow> \<forall>t. ?R s t \<longrightarrow> (\<exists>r'. pmalloc_levels pages i t = Some r' \<and> ?Q r r')"
      and step: "(if i < NUM_BITMAPS
         then pmalloc_scan pages i 0 s \<bind> (\<lambda>x. case x of None \<Rightarrow> f pages (i + 1) s | Some x \<Rightarrow> Some x)
         else Some (NULL, s)) = Some r" and R: "?R s t"
    show "\<exists>r'. pmalloc_levels pages i t = Some r' \<and> ?Q r r'"
    proof (cases "i < NUM_BITMAPS")
      case False
      with step R show ?thesis by (subst pmalloc_levels.simps) (auto simp: framed_pair_def)
    next
      case True
      with step obtain x where x: "pmalloc_scan pages i 0 s = Some x"
          "(case x of None \<Rightarrow> f pages (Suc i) s | Some x \<Rightarrow> Some x) = Some r" by (auto simp: bind_eq_Some_conv)
      obtain x' where x': "pmalloc_scan pages i 0 t = Some x'" "rel_option ?Q x x'"
        using simD [OF sim_scan R x(1)] by blast
      show ?thesis
        using x(2) x' IH R True by (subst pmalloc_levels.simps) (cases x; cases x'; auto)
    qed
  qed
  with R show "\<exists>r'. pmalloc_levels pages i t = Some r' \<and> ?Q r r'" by blast
qed

lemma pmalloc_framed: "sim (framed m D b0 ms) (framed_pair m D b0 ms) (pmalloc pages) (pmalloc pages)"
  unfolding pmalloc_def Let_def
  by (intro sim_if sim_bind_pure sim_levels) (auto simp: sim_def framed_pair_def)

lemma pfree_framed: "sim (framed m D b0 ms) (framed m D b0 ms) (pfree pptr pages) (pfree pptr pages)"
  unfolding pfree_def Let_def by (intro sim_intros)

section \<open>Only the bitmaps\<close>

definition bitmap_cells :: "nat \<Rightarrow> u64 \<Rightarrow> u64 set" where
  "bitmap_cells S b0 = (\<lambda>k. cell_of (b0 + of_nat k)) ` {..<off S 7}"

lemma byte_in_cells: "valid S i j \<Longrightarrow> S < 2 ^ 49 \<Longrightarrow> cell_of (byte_at b0 S i j) \<in> bitmap_cells S b0"
proof -
  assume v: "valid S i j" "S < 2 ^ 49"
  have "off S i + j div 8 < off S 7"
    using valid_byte(3) [OF v] off_mono [of "Suc i" 7 S] v(1) by (simp add: valid_def del: off_Suc)
  then show ?thesis unfolding byte_at_eq [OF v] bitmap_cells_def by blast
qed

lemma pview_frame_cong:
  assumes "pview s S B" "\<forall>p\<in>bitmap_cells S (bitmap_base s). m p = pm s p"
  shows "pview (s\<lparr>pm := m\<rparr>) S B"
proof -
  have "ldb (bitmap_base s) S m (i, j) = ldb (bitmap_base s) S (pm s) (i, j)" if "valid S i j" for i j
    using assms(2) byte_in_cells [OF that] by (simp add: ldb_def ld8_def)
  with assms(1) show ?thesis by (simp add: pview_def geometry_def)
qed

lemma page_inv_cong:
  assumes "page_inv S s F" "\<forall>p\<in>bitmap_cells S (bitmap_base s). m p = pm s p"
  shows "page_inv S (s\<lparr>pm := m\<rparr>) F"
  using assms pview_frame_cong unfolding page_inv_def by fastforce

definition only_bitmaps :: "nat \<Rightarrow> pmm \<Rightarrow> pmm \<Rightarrow> bool" where
  "only_bitmaps S s s' \<longleftrightarrow> bitmap_base s' = bitmap_base s \<and> mem_size s' = mem_size s \<and> dom (pm s') = dom (pm s) \<and>
     (\<forall>p. p \<notin> bitmap_cells S (bitmap_base s) \<longrightarrow> pm s' p = pm s p)"

lemma restricted_frame:
  "framed (pm s) (dom (pm s) \<inter> C) (bitmap_base s) (mem_size s) (s\<lparr>pm := pm s |` C\<rparr>) s"
proof -
  have "pm s ++ pm s |` C = pm s" by (rule ext) (simp add: map_add_def restrict_map_def split: option.split)
  then show ?thesis by (simp add: framed_def)
qed

lemma framed_only_bitmaps:
  assumes "framed (pm s) (dom (pm s) \<inter> bitmap_cells S (bitmap_base s)) (bitmap_base s) (mem_size s) t s'"
  shows "only_bitmaps S s s'"
  using assms unfolding framed_def only_bitmaps_def by (auto simp: map_add_def domIff split: option.splits)

lemma restricted_inv: "page_inv S s F \<Longrightarrow> page_inv S (s\<lparr>pm := pm s |` bitmap_cells S (bitmap_base s)\<rparr>) F"
  by (rule page_inv_cong) (auto simp: restrict_map_def)

lemma pmalloc_only_bitmaps:
  assumes "page_inv S s F" "0 < n" "n \<le> 64" "pmalloc (of_nat n) s = Some (r, s')"
  shows "only_bitmaps S s s'"
proof -
  let ?C = "bitmap_cells S (bitmap_base s)"
  obtain r0 t0 where "pmalloc (of_nat n) (s\<lparr>pm := pm s |` ?C\<rparr>) = Some (r0, t0)"
    using pmalloc_ok [OF restricted_inv [OF assms(1)] assms(2,3)] by blast
  from simD [OF pmalloc_framed restricted_frame this]
  have "framed (pm s) (dom (pm s) \<inter> ?C) (bitmap_base s) (mem_size s) t0 s'"
    using assms(4) by (auto simp: framed_pair_def)
  then show ?thesis by (rule framed_only_bitmaps)
qed

lemma pfree_only_bitmaps:
  assumes "page_inv S s F" "0 < n" "p \<noteq> 0" "p + n \<le> 8 * S" "{p..<p + n} \<inter> F = {}"
    and "pfree (of_nat p * PAGE_SIZE) (of_nat n) s = Some s'"
  shows "only_bitmaps S s s'"
proof -
  let ?C = "bitmap_cells S (bitmap_base s)"
  obtain t0 where "pfree (of_nat p * PAGE_SIZE) (of_nat n) (s\<lparr>pm := pm s |` ?C\<rparr>) = Some t0"
    using pfree_ok [OF restricted_inv [OF assms(1)] assms(2-5)] by blast
  from simD [OF pfree_framed restricted_frame this]
  have "framed (pm s) (dom (pm s) \<inter> ?C) (bitmap_base s) (mem_size s) t0 s'"
    using assms(6) by auto
  then show ?thesis by (rule framed_only_bitmaps)
qed

section \<open>Whole blocks\<close>

lemma level_for_64: "level_for 64 = 6"
proof -
  have "level_for 64 \<le> 6" using level_for_props(2) [of 64 6] by simp
  moreover have "64 \<le> (2 :: nat) ^ level_for 64" using level_for_props(1) [of 64] by simp
  then have "6 \<le> level_for 64" using power_le_imp_le_exp [of "2 :: nat" 6 "level_for 64"] by simp
  ultimately show ?thesis by simp
qed

lemma pmalloc_64:
  assumes inv: "page_inv S s F" and free: "bm_free (bitmaps s ! 6) \<noteq> 0"
  shows "\<exists>p s'. pmalloc 64 s = Some (of_nat p * PAGE_SIZE, s') \<and> {p..<p + 64} \<subseteq> F \<and>
     page_inv S s' (F - {p..<p + 64}) \<and> bm_free (bitmaps s' ! 6) = bm_free (bitmaps s ! 6) - 1"
proof -
  obtain B where B: "pview s S B" "disj S B" "F = free_pages S B" "free_mem s = of_nat (4096 * card F)" and S: "64 dvd S"
    using inv by (auto simp: page_inv_def)
  have l7: "length (bitmaps s) = 7" and bits: "bits_ok s S B" using B(1) by (auto simp: pview_bits bits_ok_def geometry_def)
  have "bm_free (bitmaps s ! 6) = of_nat (nfree S B 6)" using B(1) by (simp add: pview_def)
  then have "nfree S B 6 \<noteq> 0" using free by (intro notI) simp
  then have "{j. valid S 6 j \<and> \<not> B 6 j} \<noteq> {}" unfolding nfree_def by (intro notI) simp
  then have ex: "\<exists>j. valid S 6 j \<and> \<not> B 6 j" by blast
  define j where "j = (LEAST j. valid S 6 j \<and> \<not> B 6 j)"
  have j: "valid S 6 j" "\<not> B 6 j" using LeastI_ex [OF ex] unfolding j_def by auto
  have before: "B 6 j'" if "j' < j" for j'
    using not_less_Least [of j' "\<lambda>j. valid S 6 j \<and> \<not> B 6 j"] that j(1) unfolding j_def [symmetric] by (auto simp: valid_def)
  obtain m where m: "set_bit_at 6 (of_nat j) s = Some (s\<lparr>pm := m\<rparr>)"
      "pview (add_free 6 (- 1) (s\<lparr>pm := m\<rparr>)) S (upd B 6 j True)"
    using set_step [OF B(1) j] by blast
  let ?s1 = "add_free 6 (- 1) (s\<lparr>pm := m\<rparr>)"
  let ?s2 = "?s1\<lparr>free_mem := free_mem ?s1 - 64 * PAGE_SIZE\<rparr>"
  let ?p = "j * 64"
  note take = take_block [of S B 6 j, OF B(2) j]
  have blk: "block 6 j = {?p..<?p + 64}" by (simp add: block_def algebra_simps)
  have down: "pmmPropagateDown 64 6 i t = Some t" for i t
    using pmmPropagateDown.simps(2) [of 64 5 i t] by (simp add: push_bit_eq_mult eval_nat_numeral)
  have "pmalloc_take 64 6 (of_nat j) s = Some (of_nat ?p * PAGE_SIZE, ?s2)"
    using m(1) down by (simp add: pmalloc_take_def NUM_BITMAPS_def push_bit_eq_mult)
  then have "pmalloc_scan 64 6 0 s = Some (Some (of_nat ?p * PAGE_SIZE, ?s2))"
    using pmalloc_scan_hit [OF bits, of 6 j 0 64] j before by simp
  moreover have "pmalloc 64 s = pmalloc_levels 64 6 s" using pmalloc_index [of 64 s] by (simp add: level_for_64)
  ultimately have "pmalloc 64 s = Some (of_nat ?p * PAGE_SIZE, ?s2)"
    by (subst (asm) pmalloc_levels.simps) (simp add: NUM_BITMAPS_def)
  moreover have F: "free_pages S (upd B 6 j True) = F - {?p..<?p + 64}" "{?p..<?p + 64} \<subseteq> F"
    using take(2,3) unfolding blk B(3) by auto
  moreover have "page_inv S ?s2 (F - {?p..<?p + 64})"
  proof -
    have "free_mem ?s2 = of_nat (4096 * card (F - {?p..<?p + 64}))"
      using free_mem_sub [OF _ F(2), of 64] page_inv_bound [OF inv] B(4) by simp
    moreover have "pview ?s2 S (upd B 6 j True)" using m(2) by (simp add: pview_def geometry_def)
    ultimately show ?thesis using S take(1) F(1) unfolding page_inv_def by metis
  qed
  moreover have "bm_free (bitmaps ?s2 ! 6) = bm_free (bitmaps s ! 6) - 1"
    using l7 by (simp add: add_free_nth)
  ultimately show ?thesis by blast
qed

end
