(* ===== verification/Paging.thy ===== *)
theory Paging
  imports Pmm_Frame Spinlock
begin

text \<open>
  Four-level page tables: \<^verbatim>\<open>mm/paging/paging.c\<close> with the address fields of \<^verbatim>\<open>paging.h\<close>. The state holds
  the physical memory manager with the memory both use (the page tables and the bitmaps are accessed
  through the window of all physical memory at \<open>page_direct_base\<close>), the pool of pages fetched 64 at a
  time, the control register CR3 and the lock. A lock that is taken twice never returns (\<open>None\<close>), as
  does an access to an unmapped address.
\<close>

section \<open>Addresses and entries\<close>

definition page_direct_base :: u64 where "page_direct_base = 0xFFFF800000000000"
definition kheap_base :: u64 where "kheap_base = 0xFFFF900000000000"
definition lapic_base :: u64 where "lapic_base = 0xFFFFA00000000000"
definition ioapic_base :: u64 where "ioapic_base = 0xFFFFA10000000000"
definition kstack_base :: u64 where "kstack_base = 0xFFFFB00000000000"
definition kernel_base :: u64 where "kernel_base = 0xFFFFFFFF80000000"

definition PAGE_FLAG_PRESENT :: u64 where "PAGE_FLAG_PRESENT = 0x1"
definition PAGE_FLAG_READWRITE :: u64 where "PAGE_FLAG_READWRITE = 0x2"
definition PAGE_FLAG_USERSUPER :: u64 where "PAGE_FLAG_USERSUPER = 0x4"
definition PAGE_FLAG_WRITETHRU :: u64 where "PAGE_FLAG_WRITETHRU = 0x8"
definition PAGE_FLAG_CACHEDBLE :: u64 where "PAGE_FLAG_CACHEDBLE = 0x10"
definition PAGE_FLAG_ACCESSED :: u64 where "PAGE_FLAG_ACCESSED = 0x20"
definition PAGE_FLAG_AVAILABLE :: u64 where "PAGE_FLAG_AVAILABLE = 0x40"
definition PAGE_FLAG_RESERVED :: u64 where "PAGE_FLAG_RESERVED = 0x80"
definition PAGE_FLAG_EXECDBLE :: u64 where "PAGE_FLAG_EXECDBLE = 0x8000000000000000"
definition PAGE_FLAG_DIRTY :: u64 where "PAGE_FLAG_DIRTY = 0x40"
definition PAGE_FLAG_ATTRIBUTE :: u64 where "PAGE_FLAG_ATTRIBUTE = 0x80"
definition PAGE_FLAG_GLOBAL :: u64 where "PAGE_FLAG_GLOBAL = 0x100"

definition PAGE_OFFSET :: "u64 \<Rightarrow> u64" where "PAGE_OFFSET vptr = drop_bit 0 vptr AND 0xFFF"
definition PAGE_P1E :: "u64 \<Rightarrow> u64" where "PAGE_P1E vptr = drop_bit 12 vptr AND 0x1FF"
definition PAGE_P2E :: "u64 \<Rightarrow> u64" where "PAGE_P2E vptr = drop_bit 21 vptr AND 0x1FF"
definition PAGE_P3E :: "u64 \<Rightarrow> u64" where "PAGE_P3E vptr = drop_bit 30 vptr AND 0x1FF"
definition PAGE_P4E :: "u64 \<Rightarrow> u64" where "PAGE_P4E vptr = drop_bit 39 vptr AND 0x1FF"
definition ALIGN_TO_PAGE :: "u64 \<Rightarrow> u64" where "ALIGN_TO_PAGE vptr = (vptr div PAGE_SIZE) * PAGE_SIZE"
definition GET_NUM_PAGES :: "u64 \<Rightarrow> u64" where "GET_NUM_PAGES sz = (sz + PAGE_SIZE - 1) div PAGE_SIZE"

definition NUM_ALLOC :: nat where "NUM_ALLOC = 64"

record paging =
  frames :: pmm
  bulk_alloc_ptrs :: "u64 list"
  curr :: u8
  cr3 :: u64
  bsp_cr3 :: u64
  plock :: u8

definition rd :: "u64 \<Rightarrow> paging \<Rightarrow> u64 option" where
  "rd a s = ld64 (pm (frames s)) a"

definition wr :: "u64 \<Rightarrow> u64 \<Rightarrow> paging \<Rightarrow> paging option" where
  "wr a v s = do { m \<leftarrow> st64 (pm (frames s)) a v; Some (s\<lparr>frames := (frames s)\<lparr>pm := m\<rparr>\<rparr>) }"

definition table_of :: "u64 \<Rightarrow> u64" where
  "table_of e = (e AND 0x000FFFFFFFFFF000) + page_direct_base"

section \<open>Tables\<close>

definition pmallocBulk :: "paging \<Rightarrow> (u64 \<times> paging) option" where
  "pmallocBulk s = do {
     s \<leftarrow> (if unat (curr s) + 1 = NUM_ALLOC then do {
            (ptr, f) \<leftarrow> pmalloc (of_nat NUM_ALLOC) (frames s);
            Some (s\<lparr>frames := f, bulk_alloc_ptrs := map (\<lambda>i. ptr + of_nat i * PAGE_SIZE) [0..<NUM_ALLOC], curr := 0\<rparr>) }
          else Some s);
     if unat (curr s) < length (bulk_alloc_ptrs s)
     then Some (bulk_alloc_ptrs s ! unat (curr s), s\<lparr>curr := curr s + 1\<rparr>) else None }"

definition pagingAllocTable :: "paging \<Rightarrow> (u64 \<times> paging) option" where
  "pagingAllocTable s = do {
     (pptr, s) \<leftarrow> pmallocBulk s;
     let vptr = pptr + page_direct_base;
     s \<leftarrow> for_each (\<lambda>i. wr vptr 0) [0..<512 :: nat] s;
     Some (pptr, s) }"

definition pagingFreeTable :: "u64 \<Rightarrow> paging \<Rightarrow> paging option" where
  "pagingFreeTable table_pptr s = do { f \<leftarrow> pfree table_pptr 1 (frames s); Some (s\<lparr>frames := f\<rparr>) }"

definition pagingAddEntry :: "u64 \<Rightarrow> u64 \<Rightarrow> u64 \<Rightarrow> u64 \<Rightarrow> paging \<Rightarrow> paging option" where
  "pagingAddEntry table_vptr entry_num entry_pptr flags s =
     wr (table_vptr + entry_num * 8) ((entry_pptr AND NOT 0xFFF) OR flags) s"

definition pagingUpdateEntry :: "u64 \<Rightarrow> u64 \<Rightarrow> u64 \<Rightarrow> u64 \<Rightarrow> paging \<Rightarrow> paging option" where
  "pagingUpdateEntry table_vptr entry_num entry_pptr flags s =
     wr (table_vptr + entry_num * 8) ((entry_pptr AND NOT 0xFFF) OR flags) s"

partial_function (option) pagingRemoveEntry :: "u64 \<Rightarrow> u16 \<Rightarrow> u64 \<Rightarrow> bool \<Rightarrow> paging \<Rightarrow> paging option" where
  "pagingRemoveEntry table_vptr level entry_num do_pfree s = do {
     e \<leftarrow> rd (table_vptr + 8 * entry_num) s;
     if e AND 0x1 \<noteq> 0x1 then Some s
     else
       let entry_pptr = e AND 0x000FFFFFFFFFF000 in
       if mem_size (frames s) \<le> entry_pptr then Some s
       else if level = 1 then do {
         s \<leftarrow> (if do_pfree then do { f \<leftarrow> pfree entry_pptr 1 (frames s); Some (s\<lparr>frames := f\<rparr>) } else Some s);
         wr (table_vptr + 8 * entry_num) 0 s }
       else do {
         s \<leftarrow> for_each (\<lambda>i s. pagingRemoveEntry (entry_pptr + page_direct_base) (level - 1) (of_nat i) do_pfree s) [0..<512] s;
         s \<leftarrow> pagingFreeTable entry_pptr s;
         wr (table_vptr + 8 * entry_num) 0 s } }"

definition pagingGetCR3 :: "paging \<Rightarrow> u64" where
  "pagingGetCR3 s = (cr3 s AND NOT 0xFFF) + page_direct_base"

definition pagingSetCR3 :: "u64 \<Rightarrow> paging \<Rightarrow> paging" where
  "pagingSetCR3 pptr s = s\<lparr>cr3 := pptr\<rparr>"

definition pagingFlushTLB :: "paging \<Rightarrow> paging" where
  "pagingFlushTLB s = pagingSetCR3 (pagingGetCR3 s - page_direct_base) s"

section \<open>Mapping\<close>

text \<open>The step from one table to the next, which the helpers repeat for each level.\<close>

definition next_table_alloc :: "u64 \<Rightarrow> u64 \<Rightarrow> u64 \<Rightarrow> paging \<Rightarrow> (u64 \<times> paging) option" where
  "next_table_alloc tp num flags s = do {
     e \<leftarrow> rd (tp + num * 8) s;
     s \<leftarrow> (if e = 0 then do { (pptr, s) \<leftarrow> pagingAllocTable s; pagingAddEntry tp num pptr flags s } else Some s);
     e \<leftarrow> rd (tp + num * 8) s;
     Some (table_of e, s) }"

definition vmallocHelper :: "u64 \<Rightarrow> u64 \<Rightarrow> u64 \<Rightarrow> paging \<Rightarrow> (u64 \<times> paging) option" where
  "vmallocHelper vptr p4tp flags s = do {
     (p3tp, s) \<leftarrow> next_table_alloc p4tp (PAGE_P4E vptr) flags s;
     (p2tp, s) \<leftarrow> next_table_alloc p3tp (PAGE_P3E vptr) flags s;
     (p1tp, s) \<leftarrow> next_table_alloc p2tp (PAGE_P2E vptr) flags s;
     (pptr, s) \<leftarrow> pmallocBulk s;
     s \<leftarrow> pagingAddEntry p1tp (PAGE_P1E vptr) pptr flags s;
     Some (vptr, s) }"

primrec each_page :: "(u64 \<Rightarrow> paging \<Rightarrow> (u64 \<times> paging) option) \<Rightarrow> nat \<Rightarrow> u64 \<Rightarrow> paging \<Rightarrow> (bool \<times> paging) option" where
  "each_page h 0 i s = Some (True, s)"
| "each_page h (Suc n) i s = do {
     (ptr, s) \<leftarrow> h (i * PAGE_SIZE) s;
     if ptr = NULL then Some (False, s) else each_page h n (i + 1) s }"

definition lock_paging :: "paging \<Rightarrow> paging option" where
  "lock_paging s = do { l \<leftarrow> spinLock (plock s); Some (s\<lparr>plock := l\<rparr>) }"

definition unlock_paging :: "paging \<Rightarrow> paging" where
  "unlock_paging s = s\<lparr>plock := spinUnlock (plock s)\<rparr>"

definition vmalloc :: "u64 \<Rightarrow> u64 \<Rightarrow> u64 \<Rightarrow> paging \<Rightarrow> (u64 \<times> paging) option" where
  "vmalloc vptr pages flags s = do {
     s \<leftarrow> lock_paging s;
     let p4tp = pagingGetCR3 s;
     (ok, s) \<leftarrow> each_page (\<lambda>d s. vmallocHelper (vptr + d) p4tp flags s) (unat pages) 0 s;
     if ok then Some (vptr, pagingFlushTLB (unlock_paging s)) else Some (NULL, unlock_paging s) }"

definition vmallocCR3 :: "u64 \<Rightarrow> u64 \<Rightarrow> u64 \<Rightarrow> u64 \<Rightarrow> paging \<Rightarrow> (u64 \<times> paging) option" where
  "vmallocCR3 vptr pages flags c s = do {
     s \<leftarrow> lock_paging s;
     (ok, s) \<leftarrow> each_page (\<lambda>d s. vmallocHelper (vptr + d) c flags s) (unat pages) 0 s;
     if ok then Some (vptr, unlock_paging s) else Some (NULL, unlock_paging s) }"

definition videntityHelper :: "u64 \<Rightarrow> u64 \<Rightarrow> u64 \<Rightarrow> u64 \<Rightarrow> paging \<Rightarrow> (u64 \<times> paging) option" where
  "videntityHelper vptr pptr p4tp flags s = do {
     (p3tp, s) \<leftarrow> next_table_alloc p4tp (PAGE_P4E vptr) flags s;
     (p2tp, s) \<leftarrow> next_table_alloc p3tp (PAGE_P3E vptr) flags s;
     (p1tp, s) \<leftarrow> next_table_alloc p2tp (PAGE_P2E vptr) flags s;
     s \<leftarrow> pagingAddEntry p1tp (PAGE_P1E vptr) pptr flags s;
     Some (vptr, s) }"

text \<open>On a null result the two functions return before the (unreachable) unlock.\<close>

definition videntity :: "u64 \<Rightarrow> u64 \<Rightarrow> u64 \<Rightarrow> u64 \<Rightarrow> paging \<Rightarrow> (u64 \<times> paging) option" where
  "videntity vptr pptr pages flags s = do {
     s \<leftarrow> lock_paging s;
     let p4tp = pagingGetCR3 s;
     (ok, s) \<leftarrow> each_page (\<lambda>d s. videntityHelper (vptr + d) (pptr + d) p4tp flags s) (unat pages) 0 s;
     if ok then Some (vptr, pagingFlushTLB (unlock_paging s)) else Some (NULL, s) }"

definition videntityCR3 :: "u64 \<Rightarrow> u64 \<Rightarrow> u64 \<Rightarrow> u64 \<Rightarrow> u64 \<Rightarrow> paging \<Rightarrow> (u64 \<times> paging) option" where
  "videntityCR3 vptr pptr pages flags c s = do {
     s \<leftarrow> lock_paging s;
     (ok, s) \<leftarrow> each_page (\<lambda>d s. videntityHelper (vptr + d) (pptr + d) c flags s) (unat pages) 0 s;
     if ok then Some (vptr, unlock_paging s) else Some (NULL, s) }"

section \<open>Unmapping and flags\<close>

primrec table_zero :: "u64 \<Rightarrow> nat list \<Rightarrow> paging \<Rightarrow> bool option" where
  "table_zero tp [] s = Some True"
| "table_zero tp (i # is) s = do { e \<leftarrow> rd (tp + of_nat i * 8) s; if e \<noteq> 0 then Some False else table_zero tp is s }"

definition when_zero :: "u64 \<Rightarrow> (paging \<Rightarrow> paging option) \<Rightarrow> paging \<Rightarrow> paging option" where
  "when_zero tp f s = do { z \<leftarrow> table_zero tp [0..<512] s; if z then f s else Some s }"

definition vfreeHelper :: "u64 \<Rightarrow> u64 \<Rightarrow> bool \<Rightarrow> paging \<Rightarrow> paging option" where
  "vfreeHelper vptr p4tp do_pfree s = do {
     p4e \<leftarrow> rd (p4tp + PAGE_P4E vptr * 8) s;
     if p4e = 0 then Some s else do {
     let p3tp = table_of p4e;
     p3e \<leftarrow> rd (p3tp + PAGE_P3E vptr * 8) s;
     if p3e = 0 then Some s else do {
     let p2tp = table_of p3e;
     p2e \<leftarrow> rd (p2tp + PAGE_P2E vptr * 8) s;
     if p2e = 0 then Some s else do {
     let p1tp = table_of p2e;
     p1e \<leftarrow> rd (p1tp + PAGE_P1E vptr * 8) s;
     s \<leftarrow> pagingRemoveEntry p1tp 1 (PAGE_P1E vptr) do_pfree s;
     when_zero p1tp (\<lambda>s. do {
       s \<leftarrow> pagingRemoveEntry p2tp 2 (PAGE_P2E vptr) do_pfree s;
       when_zero p2tp (\<lambda>s. do {
         s \<leftarrow> pagingRemoveEntry p3tp 3 (PAGE_P3E vptr) do_pfree s;
         when_zero p3tp (pagingRemoveEntry p4tp 4 (PAGE_P4E vptr) do_pfree) s }) s }) s }}}}"

primrec for_pages :: "(u64 \<Rightarrow> paging \<Rightarrow> paging option) \<Rightarrow> nat \<Rightarrow> u64 \<Rightarrow> paging \<Rightarrow> paging option" where
  "for_pages h 0 i s = Some s"
| "for_pages h (Suc n) i s = do { s \<leftarrow> h (i * PAGE_SIZE) s; for_pages h n (i + 1) s }"

definition vfree :: "u64 \<Rightarrow> u64 \<Rightarrow> bool \<Rightarrow> paging \<Rightarrow> paging option" where
  "vfree vptr pages do_pfree s = do {
     s \<leftarrow> lock_paging s;
     let p4tp = pagingGetCR3 s;
     s \<leftarrow> for_pages (\<lambda>d. vfreeHelper (vptr + d) p4tp do_pfree) (unat pages) 0 s;
     Some (pagingFlushTLB (unlock_paging s)) }"

definition vfreeCR3 :: "u64 \<Rightarrow> u64 \<Rightarrow> bool \<Rightarrow> u64 \<Rightarrow> paging \<Rightarrow> paging option" where
  "vfreeCR3 vptr pages do_pfree c s = do {
     s \<leftarrow> lock_paging s;
     s \<leftarrow> for_pages (\<lambda>d. vfreeHelper (vptr + d) c do_pfree) (unat pages) 0 s;
     Some (unlock_paging s) }"

definition vflagsHelper :: "u64 \<Rightarrow> u64 \<Rightarrow> u64 \<Rightarrow> paging \<Rightarrow> paging option" where
  "vflagsHelper vptr p4tp flags s = do {
     p4e \<leftarrow> rd (p4tp + PAGE_P4E vptr * 8) s;
     if p4e = 0 then Some s else do {
     let p3tp = table_of p4e;
     p3e \<leftarrow> rd (p3tp + PAGE_P3E vptr * 8) s;
     if p3e = 0 then Some s else do {
     let p2tp = table_of p3e;
     p2e \<leftarrow> rd (p2tp + PAGE_P2E vptr * 8) s;
     if p2e = 0 then Some s else do {
     let p1tp = table_of p2e;
     p1e \<leftarrow> rd (p1tp + PAGE_P1E vptr * 8) s;
     wr (p1tp + PAGE_P1E vptr * 8) ((p1e AND 0x8FFFFFFFFFFFFFE0) OR flags) s }}}}"

definition vflags :: "u64 \<Rightarrow> u64 \<Rightarrow> u64 \<Rightarrow> paging \<Rightarrow> paging option" where
  "vflags vptr pages flags s = do {
     s \<leftarrow> lock_paging s;
     let p4tp = pagingGetCR3 s;
     s \<leftarrow> for_pages (\<lambda>d. vflagsHelper (vptr + d) p4tp flags) (unat pages) 0 s;
     Some (pagingFlushTLB (unlock_paging s)) }"

definition vflagsCR3 :: "u64 \<Rightarrow> u64 \<Rightarrow> u64 \<Rightarrow> u64 \<Rightarrow> paging \<Rightarrow> paging option" where
  "vflagsCR3 vptr pages flags c s = do {
     s \<leftarrow> lock_paging s;
     s \<leftarrow> for_pages (\<lambda>d. vflagsHelper (vptr + d) c flags) (unat pages) 0 s;
     Some (unlock_paging s) }"

definition pagingCreateUser :: "paging \<Rightarrow> (u64 \<times> paging) option" where
  "pagingCreateUser s = do {
     (pptr, s) \<leftarrow> pagingAllocTable s;
     let p4tp = pptr + page_direct_base;
     let ker_cr3 = bsp_cr3 s;
     s \<leftarrow> for_each (\<lambda>i s. do { e \<leftarrow> rd (ker_cr3 + of_nat i * 8) s; wr (p4tp + of_nat i * 8) e s }) [256..<512] s;
     Some (p4tp, s) }"

section \<open>Initialisation\<close>

text \<open>
  The boot loader maps physical memory both at address 0 and at \<open>page_direct_base\<close>. Moving the base of
  the bitmaps changes the window through which the same bytes are seen, and the mapping at 0 is removed.
\<close>

definition through_window :: "u64 \<Rightarrow> mem \<Rightarrow> mem" where
  "through_window w m = (\<lambda>a. m (a - w))"

definition initPaging :: "paging \<Rightarrow> paging option" where
  "initPaging s = do {
     let f = pmmUpdateBitmapBase (frames s) page_direct_base;
     let s = s\<lparr>frames := f\<lparr>pm := through_window page_direct_base (pm f)\<rparr>\<rparr>;
     s \<leftarrow> vfree 0 (mem_size (frames s) div PAGE_SIZE) False s;
     Some (s\<lparr>bsp_cr3 := pagingGetCR3 s\<rparr>) }"

definition initAPPaging :: "paging \<Rightarrow> paging" where
  "initAPPaging s = pagingSetCR3 (bsp_cr3 s - page_direct_base) s"

section \<open>Dumps\<close>

text \<open>The console is a parameter: \<open>kprintf\<close> acts on a state of its own.\<close>

definition print_row :: "(string \<Rightarrow> u64 list \<Rightarrow> 'c \<Rightarrow> 'c option) \<Rightarrow> paging \<Rightarrow> u64 \<Rightarrow> nat \<Rightarrow> 'c \<Rightarrow> 'c option" where
  "print_row kprintf s vptr i c = do {
     c \<leftarrow> for_each (\<lambda>j c. do {
            e \<leftarrow> rd (vptr + of_nat (j + 8 * i) * 8) s;
            c \<leftarrow> kprintf ''%lx'' [e] c;
            if j \<noteq> 7 then kprintf '' '' [] c else Some c }) [0..<8] c;
     kprintf ''\<newline>'' [] c }"

partial_function (option) printTable_loop :: "(string \<Rightarrow> u64 list \<Rightarrow> 'c \<Rightarrow> 'c option) \<Rightarrow> paging \<Rightarrow> u64 \<Rightarrow> nat \<Rightarrow> 'c \<Rightarrow> 'c option" where
  "printTable_loop kprintf s vptr i c =
     (if i < 512 div 8 then do { c \<leftarrow> print_row kprintf s vptr i c; printTable_loop kprintf s vptr (i + 8 + 1) c }
      else Some c)"

definition printTable :: "(string \<Rightarrow> u64 list \<Rightarrow> 'c \<Rightarrow> 'c option) \<Rightarrow> paging \<Rightarrow> u64 \<Rightarrow> 'c \<Rightarrow> 'c option" where
  "printTable kprintf s vptr c = printTable_loop kprintf s vptr 0 c"

definition pagingDumpTable :: "(string \<Rightarrow> u64 list \<Rightarrow> 'c \<Rightarrow> 'c option) \<Rightarrow> u64 \<Rightarrow> nat \<Rightarrow> paging \<Rightarrow> 'c \<Rightarrow> 'c option" where
  "pagingDumpTable kprintf vptr level s c = do {
     let p4tp = pagingGetCR3 s;
     c \<leftarrow> (if level = 4 then printTable kprintf s p4tp c else Some c);
     p4e \<leftarrow> rd (p4tp + PAGE_P4E vptr * 8) s;
     if p4e = 0 then Some c else do {
     c \<leftarrow> (if level = 3 then printTable kprintf s (table_of p4e) c else Some c);
     p3e \<leftarrow> rd (table_of p4e + PAGE_P3E vptr * 8) s;
     if p3e = 0 then Some c else do {
     c \<leftarrow> (if level = 2 then printTable kprintf s (table_of p3e) c else Some c);
     p2e \<leftarrow> rd (table_of p3e + PAGE_P2E vptr * 8) s;
     if p2e = 0 then Some c else
     if level = 1 then printTable kprintf s (table_of p2e) c else Some c }}}"

definition fault_message :: "u64 \<Rightarrow> string" where
  "fault_message error_code =
     (if error_code AND 7 = 0 then ''Kernel tried to read non-present page\<newline>''
      else if error_code AND 7 = 1 then ''Kernel tried to read protected page\<newline>''
      else if error_code AND 7 = 2 then ''Kernel tried to write non-present page\<newline>''
      else if error_code AND 7 = 3 then ''Kernel tried to write protected page\<newline>''
      else if error_code AND 7 = 4 then ''User tried to read non-present page\<newline>''
      else if error_code AND 7 = 5 then ''User tried to read protected page\<newline>''
      else if error_code AND 7 = 6 then ''User tried to write non-present page\<newline>''
      else ''User tried to write protected page\<newline>'')"

text \<open>The handler prints and halts the CPU with interrupts disabled; its value is the console then.\<close>

definition isrPageFaultHandler :: "(string \<Rightarrow> u64 list \<Rightarrow> 'c \<Rightarrow> 'c option) \<Rightarrow> u64 \<Rightarrow> u64 \<Rightarrow> u64 \<Rightarrow> 'c \<Rightarrow> 'c option" where
  "isrPageFaultHandler kprintf rip error_code cr2 c = do {
     c \<leftarrow> kprintf ''\<newline>Page Fault @ %lx: '' [rip] c;
     c \<leftarrow> kprintf (fault_message error_code) [] c;
     kprintf ''Culprit address: %lx\<newline>'' [cr2] c }"

end
