(* ===== verification/Paging_Tables.thy ===== *)
theory Paging_Tables
  imports Paging
begin

text \<open>
  Page tables as a tree in memory. \<open>slot m root is\<close> is the address of the entry reached by the indices
  \<open>is\<close>, \<open>translate\<close> is the walk of the processor. \<open>tables_wf\<close> says that no two paths reach the same
  entry, so the effect of writing an entry can be stated by paths: overwriting a last-level entry
  changes the translation of one page only, and hanging a zeroed table into an empty entry changes
  no translation.
\<close>

section \<open>Paths\<close>

definition PATH :: "u64 \<Rightarrow> u64 list" where
  "PATH v = [PAGE_P4E v, PAGE_P3E v, PAGE_P2E v, PAGE_P1E v]"

definition path_ok :: "u64 list \<Rightarrow> bool" where
  "path_ok p \<longleftrightarrow> p \<noteq> [] \<and> length p \<le> 4 \<and> (\<forall>i\<in>set p. i < 512)"

fun slot :: "mem \<Rightarrow> u64 \<Rightarrow> u64 list \<Rightarrow> u64 option" where
  "slot m t [] = None"
| "slot m t [i] = Some (t + i * 8)"
| "slot m t (i # j # is) =
     (case m (t + i * 8) of None \<Rightarrow> None | Some e \<Rightarrow> if e = 0 then None else slot m (table_of e) (j # is))"

definition entry :: "mem \<Rightarrow> u64 \<Rightarrow> u64 list \<Rightarrow> u64 option" where
  "entry m t p = do { a \<leftarrow> slot m t p; m a }"

definition slots :: "mem \<Rightarrow> u64 \<Rightarrow> u64 set" where
  "slots m root = {a. \<exists>p. path_ok p \<and> slot m root p = Some a}"

definition table_entry_ok :: "u64 \<Rightarrow> bool" where
  "table_entry_ok e \<longleftrightarrow> e = 0 \<or> bit e 0 \<and> \<not> bit e 7"

definition tables_wf :: "mem \<Rightarrow> u64 \<Rightarrow> bool" where
  "tables_wf m root \<longleftrightarrow>
     (\<forall>p a. path_ok p \<longrightarrow> slot m root p = Some a \<longrightarrow> (\<exists>e. m a = Some e \<and> (length p < 4 \<longrightarrow> table_entry_ok e))) \<and>
     (\<forall>p q a. path_ok p \<longrightarrow> path_ok q \<longrightarrow> slot m root p = Some a \<longrightarrow> slot m root q = Some a \<longrightarrow> p = q)"

text \<open>The walk of the processor for 4 KiB pages: every entry present, no large-page bit.\<close>

definition translate :: "mem \<Rightarrow> u64 \<Rightarrow> u64 \<Rightarrow> u64 option" where
  "translate m root v = do {
     e4 \<leftarrow> m (root + PAGE_P4E v * 8);
     if \<not> bit e4 0 \<or> bit e4 7 then None else do {
     e3 \<leftarrow> m (table_of e4 + PAGE_P3E v * 8);
     if \<not> bit e3 0 \<or> bit e3 7 then None else do {
     e2 \<leftarrow> m (table_of e3 + PAGE_P2E v * 8);
     if \<not> bit e2 0 \<or> bit e2 7 then None else do {
     e1 \<leftarrow> m (table_of e2 + PAGE_P1E v * 8);
     if \<not> bit e1 0 then None else Some ((e1 AND 0x000FFFFFFFFFF000) + PAGE_OFFSET v) }}}}"

lemma index_bound: "PAGE_P1E v < 512" "PAGE_P2E v < 512" "PAGE_P3E v < 512" "PAGE_P4E v < 512"
proof -
  have "(x AND 0x1FF) < 512" for x :: u64
    using word_and_le1 [of x "0x1FF"] by (simp add: le_less_trans [of _ "0x1FF" 512] word_and_le1)
  then show "PAGE_P1E v < 512" "PAGE_P2E v < 512" "PAGE_P3E v < 512" "PAGE_P4E v < 512"
    by (simp_all only: PAGE_P1E_def PAGE_P2E_def PAGE_P3E_def PAGE_P4E_def)
qed

lemma path_ok_PATH: "path_ok (PATH v)" "length (PATH v) = 4"
  by (auto simp: path_ok_def PATH_def index_bound)

lemma path_ok_take: "path_ok p \<Longrightarrow> 0 < n \<Longrightarrow> path_ok (take n p)"
  by (auto simp: path_ok_def dest: in_set_takeD)

lemma path_ok_append: "path_ok (p @ r) \<Longrightarrow> p \<noteq> [] \<Longrightarrow> path_ok p"
  by (auto simp: path_ok_def)

lemma slot_append:
  "p \<noteq> [] \<Longrightarrow> r \<noteq> [] \<Longrightarrow> slot m t (p @ r) =
     (case entry m t p of None \<Rightarrow> None | Some e \<Rightarrow> if e = 0 then None else slot m (table_of e) r)"
proof (induction m t p rule: slot.induct)
  case (2 m t i)
  then obtain j js where "r = j # js" by (cases r) auto
  then show ?case by (auto simp: entry_def split: option.split)
next
  case (3 m t i j "is")
  then show ?case by (simp add: entry_def split: option.split)
qed simp

lemma slot_cong:
  "(\<And>n a. 0 < n \<Longrightarrow> n < length p \<Longrightarrow> slot m t (take n p) = Some a \<Longrightarrow> m' a = m a) \<Longrightarrow> slot m' t p = slot m t p"
proof (induction m t p rule: slot.induct)
  case (3 m t i j "is")
  have a: "m' (t + i * 8) = m (t + i * 8)" using 3(2) [of 1] by auto
  show ?case
  proof (cases "m (t + i * 8)")
    case (Some x)
    show ?thesis
    proof (cases "x = 0")
      case False
      have "m' b = m b" if h: "0 < n" "n < length (j # is)" "slot m (table_of x) (take n (j # is)) = Some b" for n b
      proof -
        from h(1) obtain n' where n': "n = Suc n'" by (cases n) auto
        have "slot m t (take (Suc n) (i # j # is)) = slot m (table_of x) (take n (j # is))"
          using Some False by (simp add: n')
        then show ?thesis using 3(2) [of "Suc n"] h by simp
      qed
      from 3(1) [OF Some False this] show ?thesis using Some a False by simp
    qed (use Some a in simp)
  qed (use a in simp)
qed simp_all

lemma slot_upd:
  "(\<And>n. 0 < n \<Longrightarrow> n < length p \<Longrightarrow> slot m t (take n p) \<noteq> Some a) \<Longrightarrow> slot (m(a \<mapsto> e)) t p = slot m t p"
  by (rule slot_cong) auto

lemma slot_in: "path_ok p \<Longrightarrow> slot m root p = Some a \<Longrightarrow> a \<in> slots m root"
  by (auto simp: slots_def)

lemma wf_inj: "tables_wf m root \<Longrightarrow> path_ok p \<Longrightarrow> path_ok q \<Longrightarrow> slot m root p = Some a \<Longrightarrow> slot m root q = Some a \<Longrightarrow> p = q"
  unfolding tables_wf_def by blast

lemma wf_entry:
  assumes "tables_wf m root" "path_ok p" "slot m root p = Some a"
  obtains e where "m a = Some e" "length p < 4 \<longrightarrow> table_entry_ok e"
  using assms unfolding tables_wf_def by blast

lemma slots_agree:
  assumes "\<forall>a\<in>slots m root. m' a = m a"
  shows "path_ok q \<Longrightarrow> slot m' root q = slot m root q" "path_ok q \<Longrightarrow> entry m' root q = entry m root q"
    "slots m' root = slots m root" "tables_wf m root \<Longrightarrow> tables_wf m' root"
proof -
  show sl: "slot m' root q = slot m root q" if "path_ok q" for q
    by (rule slot_cong) (use assms slot_in path_ok_take that in blast)
  show "path_ok q \<Longrightarrow> entry m' root q = entry m root q"
    using sl [of q] assms slot_in [of q m root] by (cases "slot m root q") (auto simp: entry_def)
  show "slots m' root = slots m root" using sl by (auto simp: slots_def)
  show "tables_wf m root \<Longrightarrow> tables_wf m' root"
    unfolding tables_wf_def using sl assms slot_in by (metis (no_types, lifting))
qed

section \<open>Translation by paths\<close>

lemma present_nz: "bit e n \<Longrightarrow> e \<noteq> 0" for e :: u64
  by auto

lemma translate_entry:
  assumes wf: "tables_wf m root"
  shows "translate m root v =
     (case entry m root (PATH v) of
        None \<Rightarrow> None
      | Some e \<Rightarrow> if bit e 0 then Some ((e AND 0x000FFFFFFFFFF000) + PAGE_OFFSET v) else None)"
proof -
  have ok: "path_ok (take n (PATH v))" if "0 < n" for n using path_ok_take [OF path_ok_PATH(1)] that by simp
  let ?p1 = "[PAGE_P4E v]" and ?p2 = "[PAGE_P4E v, PAGE_P3E v]" and ?p3 = "[PAGE_P4E v, PAGE_P3E v, PAGE_P2E v]"
  have p: "path_ok ?p1" "path_ok ?p2" "path_ok ?p3" using ok [of 1] ok [of 2] ok [of 3] by (simp_all add: PATH_def)
  obtain e4 where e4: "m (root + PAGE_P4E v * 8) = Some e4" "table_entry_ok e4"
    using wf_entry [OF wf p(1)] by auto
  show ?thesis
  proof (cases "e4 = 0")
    case True
    then show ?thesis using e4 by (simp add: translate_def entry_def PATH_def)
  next
    case n4: False
    then have b4: "bit e4 0" "\<not> bit e4 7" using e4(2) by (auto simp: table_entry_ok_def)
    obtain e3 where e3: "m (table_of e4 + PAGE_P3E v * 8) = Some e3" "table_entry_ok e3"
      using wf_entry [OF wf p(2)] e4 n4 by auto
    show ?thesis
    proof (cases "e3 = 0")
      case True
      then show ?thesis using e4 e3 n4 b4 by (simp add: translate_def entry_def PATH_def)
    next
      case n3: False
      then have b3: "bit e3 0" "\<not> bit e3 7" using e3(2) by (auto simp: table_entry_ok_def)
      obtain e2 where e2: "m (table_of e3 + PAGE_P2E v * 8) = Some e2" "table_entry_ok e2"
        using wf_entry [OF wf p(3)] e4 n4 e3 n3 by auto
      show ?thesis
      proof (cases "e2 = 0")
        case True
        then show ?thesis using e4 e3 e2 n4 n3 b4 b3 by (simp add: translate_def entry_def PATH_def)
      next
        case n2: False
        then have b2: "bit e2 0" "\<not> bit e2 7" using e2(2) by (auto simp: table_entry_ok_def)
        show ?thesis
          using e4 e3 e2 n4 n3 n2 b4 b3 b2
          by (simp add: translate_def entry_def PATH_def split: option.split)
      qed
    qed
  qed
qed

section \<open>Writing a last-level entry\<close>

lemma slot_leaf:
  assumes "tables_wf m root" "path_ok p" "length p = 4" "slot m root p = Some a" "path_ok q"
  shows "slot (m(a \<mapsto> e)) root q = slot m root q"
proof (rule slot_upd)
  fix n
  assume n: "0 < n" "n < length q"
  show "slot m root (take n q) \<noteq> Some a"
  proof
    assume "slot m root (take n q) = Some a"
    then have "take n q = p" using wf_inj [OF assms(1) path_ok_take [OF assms(5) n(1)] assms(2)] assms(4) by blast
    then have "length p = n" using n by auto
    then show False using assms(3,5) n by (auto simp: path_ok_def)
  qed
qed

lemma leaf_write:
  assumes wf: "tables_wf m root" and p: "path_ok p" "length p = 4" "slot m root p = Some a"
  shows "tables_wf (m(a \<mapsto> e)) root" "slots (m(a \<mapsto> e)) root = slots m root"
    "entry (m(a \<mapsto> e)) root p = Some e"
    "path_ok q \<Longrightarrow> q \<noteq> p \<Longrightarrow> entry (m(a \<mapsto> e)) root q = entry m root q"
proof -
  note same = slot_leaf [OF wf p]
  show "slots (m(a \<mapsto> e)) root = slots m root" using same by (auto simp: slots_def)
  show "entry (m(a \<mapsto> e)) root p = Some e" using same [OF p(1)] p(3) by (simp add: entry_def)
  have ne: "b \<noteq> a" if "path_ok q" "q \<noteq> p" "slot m root q = Some b" for q b
    using wf_inj [OF wf that(1) p(1) that(3)] p(3) that(2) by blast
  then show "path_ok q \<Longrightarrow> q \<noteq> p \<Longrightarrow> entry (m(a \<mapsto> e)) root q = entry m root q"
    using same by (cases "slot m root q") (auto simp: entry_def)
  show "tables_wf (m(a \<mapsto> e)) root"
    unfolding tables_wf_def
  proof (intro conjI allI impI)
    fix q b assume q: "path_ok q" "slot (m(a \<mapsto> e)) root q = Some b"
    then have qb: "slot m root q = Some b" using same by simp
    obtain x where x: "m b = Some x" "length q < 4 \<longrightarrow> table_entry_ok x" using wf_entry [OF wf q(1) qb] by blast
    show "\<exists>x. (m(a \<mapsto> e)) b = Some x \<and> (length q < 4 \<longrightarrow> table_entry_ok x)"
      using x ne [OF q(1) _ qb] p(2) by (cases "q = p") auto
  next
    fix q q' b assume "path_ok q" "path_ok q'" "slot (m(a \<mapsto> e)) root q = Some b" "slot (m(a \<mapsto> e)) root q' = Some b"
    then show "q = q'" using wf_inj [OF wf] same by simp
  qed
qed

section \<open>Hanging in an empty table\<close>

definition table_cells :: "u64 \<Rightarrow> u64 set" where
  "table_cells t = (\<lambda>k. t + of_nat k * 8) ` {..<512}"

lemma table_cell: "i < 512 \<Longrightarrow> t + i * 8 \<in> table_cells t" for i :: u64
proof -
  assume "i < 512"
  then have "unat i < 512" by (simp add: word_less_nat_alt)
  moreover have "t + i * 8 = t + of_nat (unat i) * 8" by simp
  ultimately show ?thesis unfolding table_cells_def by blast
qed

definition below :: "u64 list \<Rightarrow> u64 list \<Rightarrow> bool" where
  "below p q \<longleftrightarrow> p \<noteq> q \<and> take (length p) q = p"

lemma below_split: "below p q \<Longrightarrow> \<exists>r. r \<noteq> [] \<and> q = p @ r"
  unfolding below_def by (metis append_Nil2 append_take_drop_id)

lemma slot_new:
  assumes wf: "tables_wf m root" and p: "path_ok p" "slot m root p = Some a" "m a = Some 0"
    and fresh: "table_cells t \<inter> slots m root = {}" "\<forall>b\<in>table_cells t. m b = Some 0"
    and e: "e \<noteq> 0" "table_of e = t" and q: "path_ok q"
  shows "slot (m(a \<mapsto> e)) root q =
     (if below p q then (if length q = Suc (length p) then Some (t + last q * 8) else None) else slot m root q)"
proof -
  let ?m = "m(a \<mapsto> e)"
  have ne: "slot m root r \<noteq> Some a" if "path_ok r" "r \<noteq> p" for r
    using wf_inj [OF wf that(1) p(1) _ p(2)] that(2) by blast
  have a: "a \<in> slots m root" using slot_in p by blast
  show ?thesis
  proof (cases "below p q")
    case False
    have "slot ?m root q = slot m root q"
    proof (rule slot_upd)
      fix n assume n: "0 < n" "n < length q"
      have "take n q \<noteq> p"
      proof
        assume t: "take n q = p"
        then have "length p = n" using n by auto
        with t False have "p = q" by (auto simp: below_def)
        with n \<open>length p = n\<close> show False by simp
      qed
      then show "slot m root (take n q) \<noteq> Some a" using ne path_ok_take [OF q n(1)] by blast
    qed
    with False show ?thesis by simp
  next
    case True
    then obtain r where r: "q = p @ r" "r \<noteq> []" using below_split by blast
    have "slot ?m root p = slot m root p"
    proof (rule slot_upd)
      fix n assume n: "0 < n" "n < length p"
      then have "take n p \<noteq> p" by (metis length_take min.absorb4 less_irrefl)
      then show "slot m root (take n p) \<noteq> Some a" using ne path_ok_take [OF p(1) n(1)] by blast
    qed
    then have "entry ?m root p = Some e" using p(2) by (simp add: entry_def)
    moreover have "p \<noteq> []" using p(1) by (simp add: path_ok_def)
    ultimately have sl: "slot ?m root q = slot ?m t r" using slot_append [of p r ?m root] r e by simp
    obtain k ks where k: "r = k # ks" using r(2) by (cases r) auto
    show ?thesis
    proof (cases ks)
      case Nil
      then show ?thesis using True sl r k by simp
    next
      case (Cons j js)
      have "k < 512" using q r(1) k by (simp add: path_ok_def)
      then have "t + k * 8 \<in> table_cells t" by (rule table_cell)
      then have "?m (t + k * 8) = Some 0" using fresh a by auto
      then have "slot ?m t r = None" using k Cons by simp
      then show ?thesis using True sl r k Cons by simp
    qed
  qed
qed

lemma slots_new:
  assumes wf: "tables_wf m root" and p: "path_ok p" "slot m root p = Some a" "m a = Some 0"
    and fresh: "table_cells t \<inter> slots m root = {}" "\<forall>b\<in>table_cells t. m b = Some 0"
    and e: "e \<noteq> 0" "table_of e = t"
  shows "slots (m(a \<mapsto> e)) root \<subseteq> slots m root \<union> table_cells t"
proof
  fix b assume "b \<in> slots (m(a \<mapsto> e)) root"
  then obtain q where q: "path_ok q" "slot (m(a \<mapsto> e)) root q = Some b" by (auto simp: slots_def)
  note sl = slot_new [OF wf p fresh e q(1)]
  show "b \<in> slots m root \<union> table_cells t"
  proof (cases "below p q")
    case True
    then have "b = t + last q * 8" using sl q(2) by (auto split: if_splits)
    moreover have "last q < 512" using q(1) by (auto simp: path_ok_def)
    ultimately show ?thesis using table_cell by auto
  next
    case False
    then have "slot m root q = Some b" using sl q(2) by simp
    then show ?thesis using slot_in [OF q(1)] by blast
  qed
qed

lemma new_table_wf:
  assumes wf: "tables_wf m root" and p: "path_ok p" "slot m root p = Some a" "m a = Some 0"
    and fresh: "table_cells t \<inter> slots m root = {}" "\<forall>b\<in>table_cells t. m b = Some 0"
    and e: "e \<noteq> 0" "table_of e = t" and inj: "inj_on (\<lambda>i. t + i * 8) {i. i < 512}" and te: "table_entry_ok e"
  shows "tables_wf (m(a \<mapsto> e)) root"
proof -
  let ?m = "m(a \<mapsto> e)"
  note sl = slot_new [OF wf p fresh e]
  have a: "a \<in> slots m root" using slot_in p by blast
  have new: "length q = Suc (length p) \<and> b = t + last q * 8 \<and> last q < 512 \<and> b \<in> table_cells t \<and> q = p @ [last q]"
    if h: "path_ok q" "below p q" "slot ?m root q = Some b" for q b
  proof -
    obtain r where r: "r \<noteq> []" "q = p @ r" using below_split [OF h(2)] by blast
    have l: "length q = Suc (length p)" "b = t + last q * 8" using sl [OF h(1)] h(2,3) by (auto split: if_splits)
    have "last q < 512" using h(1) by (auto simp: path_ok_def)
    moreover have "length r = 1" using l(1) r(2) by simp
    then have "q = p @ [last q]" using r by (auto simp: length_Suc_conv)
    ultimately show ?thesis using l table_cell by auto
  qed
  have old: "slot m root q = Some b" if "path_ok q" "\<not> below p q" "slot ?m root q = Some b" for q b
    using sl [OF that(1)] that by simp
  show ?thesis unfolding tables_wf_def
  proof (intro conjI allI impI)
    fix q b assume q: "path_ok q" "slot ?m root q = Some b"
    show "\<exists>x. ?m b = Some x \<and> (length q < 4 \<longrightarrow> table_entry_ok x)"
    proof (cases "below p q")
      case True
      then have "b \<in> table_cells t" using new q by blast
      then have "?m b = Some 0" using fresh a by auto
      then show ?thesis by (simp add: table_entry_ok_def)
    next
      case False
      from old [OF q(1) False q(2)] obtain x where "m b = Some x" "length q < 4 \<longrightarrow> table_entry_ok x"
        using wf_entry [OF wf q(1)] by blast
      with te show ?thesis by (cases "b = a") auto
    qed
  next
    fix q q' b assume q: "path_ok q" "path_ok q'" "slot ?m root q = Some b" "slot ?m root q' = Some b"
    consider "below p q" "below p q'" | "below p q" "\<not> below p q'" | "\<not> below p q" "below p q'" | "\<not> below p q" "\<not> below p q'" by blast
    then show "q = q'"
    proof cases
      case 1
      from new [OF q(1) 1(1) q(3)] new [OF q(2) 1(2) q(4)]
      have "last q = last q'" using inj_onD [OF inj, of "last q" "last q'"] by auto
      with new [OF q(1) 1(1) q(3)] new [OF q(2) 1(2) q(4)] show ?thesis by metis
    next
      case 2
      then have "b \<in> table_cells t" "b \<in> slots m root" using new old slot_in q by blast+
      then show ?thesis using fresh by blast
    next
      case 3
      then have "b \<in> table_cells t" "b \<in> slots m root" using new old slot_in q by blast+
      then show ?thesis using fresh by blast
    next
      case 4
      then show ?thesis using old wf_inj [OF wf] q by blast
    qed
  qed
qed

lemma new_table_translate:
  assumes wf: "tables_wf m root" and p: "path_ok p" "slot m root p = Some a" "m a = Some 0"
    and fresh: "table_cells t \<inter> slots m root = {}" "\<forall>b\<in>table_cells t. m b = Some 0"
    and e: "e \<noteq> 0" "table_of e = t" and inj: "inj_on (\<lambda>i. t + i * 8) {i. i < 512}" and te: "table_entry_ok e"
    and l: "length p < 4"
  shows "translate (m(a \<mapsto> e)) root v = translate m root v" "entry (m(a \<mapsto> e)) root p = Some e"
proof -
  let ?m = "m(a \<mapsto> e)"
  note sl = slot_new [OF wf p fresh e]
  have a: "a \<in> slots m root" using slot_in p by blast
  show "entry ?m root p = Some e" using sl [OF p(1)] p(2) by (simp add: entry_def below_def)
  note ok = path_ok_PATH [of v]
  show "translate ?m root v = translate m root v"
  proof (cases "below p (PATH v)")
    case True
    then obtain r where r: "r \<noteq> []" "PATH v = p @ r" using below_split by blast
    have "p \<noteq> []" using p(1) by (simp add: path_ok_def)
    then have "slot m root (PATH v) = None" using slot_append [of p r m root] r p by (simp add: entry_def)
    then have 1: "translate m root v = None" unfolding translate_entry [OF wf] by (simp add: entry_def)
    have "last (PATH v) < 512" using ok(1) by (auto simp: path_ok_def)
    then have "t + last (PATH v) * 8 \<in> table_cells t" by (rule table_cell)
    then have "?m (t + last (PATH v) * 8) = Some 0" using fresh a by auto
    then have "entry ?m root (PATH v) = None \<or> entry ?m root (PATH v) = Some 0"
      using sl [OF ok(1)] True by (auto simp: entry_def)
    then have "translate ?m root v = None"
      unfolding translate_entry [OF new_table_wf [OF wf p fresh e inj te]] by auto
    with 1 show ?thesis by simp
  next
    case False
    then have "slot ?m root (PATH v) = slot m root (PATH v)" using sl [OF ok(1)] by simp
    moreover have "slot m root (PATH v) \<noteq> Some a"
      using wf_inj [OF wf ok(1) p(1) _ p(2)] ok(2) l by auto
    ultimately have "entry ?m root (PATH v) = entry m root (PATH v)"
      by (cases "slot m root (PATH v)") (auto simp: entry_def)
    then show ?thesis
      unfolding translate_entry [OF wf] translate_entry [OF new_table_wf [OF wf p fresh e inj te]] by simp
  qed
qed

lemma translate_agree:
  assumes "\<forall>a\<in>slots m root. m' a = m a" "tables_wf m root"
  shows "translate m' root v = translate m root v"
  unfolding translate_entry [OF assms(2)] translate_entry [OF slots_agree(4) [OF assms]]
  using slots_agree(2) [OF assms(1) path_ok_PATH(1)] by simp

section \<open>Entries and pages\<close>

lemma addr_mask: "(0x000FFFFFFFFFF000 :: u64) = mask 52 AND NOT (mask 12)" "(0xFFF :: u64) = mask 12"
  by (simp_all add: mask_eq_exp_minus_1)

definition flags_ok :: "u64 \<Rightarrow> bool" where
  "flags_ok flags \<longleftrightarrow> bit flags 0 \<and> \<not> bit flags 7 \<and> flags AND 0x000FFFFFFFFFF000 = 0"

definition frame_addr :: "u64 \<Rightarrow> bool" where
  "frame_addr pp \<longleftrightarrow> pp AND 0x000FFFFFFFFFF000 = pp"

lemma flags_bits: "flags_ok flags \<Longrightarrow> 12 \<le> n \<Longrightarrow> n < 52 \<Longrightarrow> \<not> bit flags n"
proof -
  assume h: "flags_ok flags" "12 \<le> n" "n < 52"
  have "\<not> bit (flags AND 0x000FFFFFFFFFF000) n" using h(1) by (simp add: flags_ok_def)
  then show ?thesis unfolding addr_mask using h(2,3) by (simp add: bit_simps)
qed

lemma frame_bits: "frame_addr pp \<Longrightarrow> bit pp n \<Longrightarrow> 12 \<le> n \<and> n < 52"
proof -
  assume h: "frame_addr pp" "bit pp n"
  then have "bit (pp AND 0x000FFFFFFFFFF000) n" by (simp add: frame_addr_def)
  then show ?thesis unfolding addr_mask by (auto simp: bit_simps)
qed

lemma entry_fields:
  assumes "frame_addr pp" "flags_ok flags"
  shows "((pp AND NOT 0xFFF) OR flags) AND 0x000FFFFFFFFFF000 = pp" "bit ((pp AND NOT 0xFFF) OR flags) 0"
    "\<not> bit ((pp AND NOT 0xFFF) OR flags) 7" "(pp AND NOT 0xFFF) OR flags \<noteq> 0"
proof -
  show "((pp AND NOT 0xFFF) OR flags) AND 0x000FFFFFFFFFF000 = pp"
  proof (rule bit_word_eqI)
    fix n
    show "bit (((pp AND NOT 0xFFF) OR flags) AND 0x000FFFFFFFFFF000) n = bit pp n"
      unfolding addr_mask using flags_bits [OF assms(2), of n] frame_bits [OF assms(1), of n]
      by (cases "12 \<le> n \<and> n < 52") (auto simp: bit_simps)
  qed
  show b: "bit ((pp AND NOT 0xFFF) OR flags) 0" using assms(2) by (simp add: flags_ok_def bit_simps)
  show "\<not> bit ((pp AND NOT 0xFFF) OR flags) 7"
    using assms(2) frame_bits [OF assms(1), of 7] by (auto simp: flags_ok_def bit_simps)
  show "(pp AND NOT 0xFFF) OR flags \<noteq> 0" using present_nz [OF b] .
qed

lemma page_addr_frame: "p < 2 ^ 40 \<Longrightarrow> frame_addr (page_addr p)"
proof -
  assume p: "p < 2 ^ 40"
  have "page_addr p = push_bit 12 (of_nat p)" by (simp add: page_addr_def push_bit_eq_mult)
  moreover have "k < 40" if "bit p k" for k
  proof (rule ccontr)
    assume "\<not> k < 40"
    then have "p < 2 ^ k" using p power_increasing [of 40 k "2 :: nat"] by simp
    then show False using that by (simp add: bit_iff_odd)
  qed
  ultimately show ?thesis
    unfolding frame_addr_def addr_mask by (intro bit_word_eqI) (fastforce simp: bit_simps)
qed

definition page_cells :: "nat \<Rightarrow> u64 set" where
  "page_cells p = table_cells (page_addr p + page_direct_base)"

lemma page_cell_eq: "page_addr p + page_direct_base + of_nat k * 8 = page_direct_base + of_nat (p * 4096 + k * 8)"
  by (simp add: page_addr_def algebra_simps)

lemma page_cells_disjoint:
  assumes "p < 2 ^ 40" "q < 2 ^ 40" "p \<noteq> q"
  shows "page_cells p \<inter> page_cells q = {}"
proof -
  have ne: "page_addr p + page_direct_base + of_nat k * 8 \<noteq> page_addr q + page_direct_base + of_nat l * 8"
    if h: "k < 512" "l < 512" for k l :: nat
  proof
    assume eq: "page_addr p + page_direct_base + of_nat k * 8 = page_addr q + page_direct_base + of_nat l * 8"
    have "p * 4096 + k * 8 \<in> {0..<2 ^ 64}" "q * 4096 + l * 8 \<in> {0..<2 ^ 64}" using h assms(1,2) by simp_all
    then have "p * 4096 + k * 8 = q * 4096 + l * 8"
      using inj_onD [OF inj_offset [OF order_refl, of page_direct_base] eq [unfolded page_cell_eq]] by blast
    then have "(p * 4096 + k * 8) div 4096 = (q * 4096 + l * 8) div 4096" by (rule arg_cong)
    moreover have "(p * 4096 + k * 8) div 4096 = p" "(q * 4096 + l * 8) div 4096 = q" using h by simp_all
    ultimately show False using assms(3) by simp
  qed
  show ?thesis
  proof (rule equals0I)
    fix a assume "a \<in> page_cells p \<inter> page_cells q"
    then obtain k l where "k < 512" "l < 512" "a = page_addr p + page_direct_base + of_nat k * 8"
        "a = page_addr q + page_direct_base + of_nat l * 8"
      unfolding page_cells_def table_cells_def by blast
    then show False using ne by blast
  qed
qed

lemma index_inj: "inj_on (\<lambda>i :: u64. t + i * 8) {i. i < 512}"
proof (rule inj_onI)
  fix i j :: u64
  assume "i \<in> {i. i < 512}" "j \<in> {i. i < 512}" "t + i * 8 = t + j * 8"
  then have "unat i < 512" "unat j < 512" "i * 8 = j * 8" by (auto simp: word_less_nat_alt)
  then have "unat (i * 8) = unat (j * 8)" by simp
  then have "unat i * 8 = unat j * 8" using \<open>unat i < 512\<close> \<open>unat j < 512\<close> by (simp add: unat_word_ariths)
  then show "i = j" by (simp add: word_unat_eq_iff)
qed

end
