(* ===== verification/Paging_Correct.thy ===== *)
theory Paging_Correct
  imports Paging_Tables
begin

text \<open>
  Correctness of mapping. \<open>avail S s U\<close> says that the pool and the physical memory manager together own
  the pages \<open>U\<close>; \<open>vm_tree S s root U\<close> adds that the tables below \<open>root\<close> are a tree that shares no memory
  with these pages or with the bitmaps. Since the code clears only the first entry of a new table, the mapping
  theorems need one thing more, which nothing in the code ensures: \<open>blank_tails s U\<close>, the entries 1 to 511 of
  each of these pages are zero. What a new table holds without it is stated as well. \<open>cap\<close> counts the pages that can
  still be handed out.
\<close>

section \<open>The pool of pages\<close>

definition avail :: "nat \<Rightarrow> paging \<Rightarrow> nat set \<Rightarrow> bool" where
  "avail S s U \<longleftrightarrow> S \<le> 2 ^ 37 \<and> length (bulk_alloc_ptrs s) = 64 \<and> unat (curr s) \<le> 63 \<and>
     (\<exists>F P. page_inv S (frames s) F \<and> 0 \<notin> F \<and> U = F \<union> set P \<and> distinct P \<and> set P \<inter> F = {} \<and>
        set P \<subseteq> {1..<8 * S} \<and> length P = 63 - unat (curr s) \<and>
        (\<forall>k<length P. bulk_alloc_ptrs s ! (unat (curr s) + k) = page_addr (P ! k)))"

definition cap :: "paging \<Rightarrow> nat" where
  "cap s = 63 - unat (curr s) + 63 * unat (bm_free (bitmaps (frames s) ! 6))"

definition same_regs :: "paging \<Rightarrow> paging \<Rightarrow> bool" where
  "same_regs s s' \<longleftrightarrow> cr3 s' = cr3 s \<and> bsp_cr3 s' = bsp_cr3 s \<and> plock s' = plock s"

lemma availI:
  assumes "S \<le> 2 ^ 37" "length (bulk_alloc_ptrs s) = 64" "unat (curr s) \<le> 63" "page_inv S (frames s) F" "0 \<notin> F"
    "distinct P" "set P \<inter> F = {}" "set P \<subseteq> {1..<8 * S}" "length P = 63 - unat (curr s)"
    "\<And>k. k < length P \<Longrightarrow> bulk_alloc_ptrs s ! (unat (curr s) + k) = page_addr (P ! k)"
  shows "avail S s (F \<union> set P)"
  using assms unfolding avail_def by blast

lemma availE:
  assumes "avail S s U"
  obtains F P where "S \<le> 2 ^ 37" "length (bulk_alloc_ptrs s) = 64" "unat (curr s) \<le> 63" "page_inv S (frames s) F" "0 \<notin> F"
    "U = F \<union> set P" "distinct P" "set P \<inter> F = {}" "set P \<subseteq> {1..<8 * S}" "length P = 63 - unat (curr s)"
    "\<And>k. k < length P \<Longrightarrow> bulk_alloc_ptrs s ! (unat (curr s) + k) = page_addr (P ! k)"
  using assms unfolding avail_def by blast

lemma avail_page: "avail S s U \<Longrightarrow> p \<in> U \<Longrightarrow> p \<noteq> 0 \<and> p < 2 ^ 40"
proof -
  assume a: "avail S s U" "p \<in> U"
  from a(1) show ?thesis
  proof (rule availE)
    fix F P
    assume h: "S \<le> 2 ^ 37" "page_inv S (frames s) F" "0 \<notin> F" "U = F \<union> set P" "set P \<subseteq> {1..<8 * S}"
    have "F \<subseteq> {..<8 * S}" using page_inv_bound [OF h(2)] by blast
    then have "p \<noteq> 0" "p < 8 * S" using h a(2) by auto
    then show ?thesis using h(1) by simp
  qed
qed

lemma page_addr_add: "page_addr p + of_nat i * PAGE_SIZE = page_addr (p + i)"
  by (simp add: page_addr_def PAGE_SIZE_def algebra_simps)

lemma bulk_pop:
  assumes av: "avail S s U" and c: "unat (curr s) < 63"
  shows "\<exists>p U'. pmallocBulk s = Some (page_addr p, s\<lparr>curr := curr s + 1\<rparr>) \<and> avail S (s\<lparr>curr := curr s + 1\<rparr>) U' \<and>
     p \<in> U \<and> U' \<subseteq> U - {p} \<and> cap (s\<lparr>curr := curr s + 1\<rparr>) + 1 = cap s"
  using av
proof (rule availE)
  fix F P
  assume h: "S \<le> 2 ^ 37" "length (bulk_alloc_ptrs s) = 64" "unat (curr s) \<le> 63" "page_inv S (frames s) F" "0 \<notin> F"
    "U = F \<union> set P" "distinct P" "set P \<inter> F = {}" "set P \<subseteq> {1..<8 * S}" "length P = 63 - unat (curr s)"
    and nth: "\<And>k. k < length P \<Longrightarrow> bulk_alloc_ptrs s ! (unat (curr s) + k) = page_addr (P ! k)"
  obtain p P' where P: "P = p # P'" using h(10) c by (cases P) auto
  have u: "unat (curr s + 1) = unat (curr s) + 1" using c by (simp add: unat_word_ariths)
  have "pmallocBulk s = Some (page_addr p, s\<lparr>curr := curr s + 1\<rparr>)"
    using c h(2) nth [of 0] P by (simp add: pmallocBulk_def NUM_ALLOC_def)
  moreover have "avail S (s\<lparr>curr := curr s + 1\<rparr>) (F \<union> set P')"
    using h P u c nth [of "Suc _"] by (intro availI) auto
  moreover have "p \<notin> F \<union> set P'" using h(7,8) P by auto
  ultimately show ?thesis using h(6) P u c by (intro exI [of _ p] exI [of _ "F \<union> set P'"]) (auto simp: cap_def)
qed

lemma bulk_refill:
  assumes av: "avail S s U" and c: "unat (curr s) = 63" and b: "bm_free (bitmaps (frames s) ! 6) \<noteq> 0"
  shows "\<exists>p s' U'. pmallocBulk s = Some (page_addr p, s') \<and> avail S s' U' \<and> p \<in> U \<and> U' \<subseteq> U - {p} \<and>
     cap s' + 1 = cap s \<and> only_bitmaps S (frames s) (frames s') \<and> same_regs s s'"
  using av
proof (rule availE)
  fix F P
  assume h: "S \<le> 2 ^ 37" "length (bulk_alloc_ptrs s) = 64" "unat (curr s) \<le> 63" "page_inv S (frames s) F" "0 \<notin> F"
    "U = F \<union> set P" "length P = 63 - unat (curr s)"
  have U: "U = F" using h(6,7) c by simp
  obtain p f where f: "pmalloc 64 (frames s) = Some (of_nat p * PAGE_SIZE, f)" "{p..<p + 64} \<subseteq> F"
      "page_inv S f (F - {p..<p + 64})" "bm_free (bitmaps f ! 6) = bm_free (bitmaps (frames s) ! 6) - 1"
    using pmalloc_64 [OF h(4) b] by blast
  define s1 where "s1 = s\<lparr>frames := f, bulk_alloc_ptrs := map (\<lambda>i. page_addr (p + i)) [0..<64], curr := 1\<rparr>"
  have "map (\<lambda>i. page_addr p + of_nat i * PAGE_SIZE) [0..<64] = map (\<lambda>i. page_addr (p + i)) [0..<64]"
    by (simp add: page_addr_add)
  then have bulk: "pmallocBulk s = Some (page_addr p, s1)"
    using c f(1) by (simp add: pmallocBulk_def NUM_ALLOC_def s1_def page_addr_PAGE)
  have ob: "only_bitmaps S (frames s) f" using pmalloc_only_bitmaps [OF h(4), of 64] f(1) by simp
  have pF: "p \<in> F" "p + 63 \<in> F" using subsetD [OF f(2), of p] subsetD [OF f(2), of "p + 63"] by simp_all
  then have p0: "p \<noteq> 0" using h(5) by (intro notI) simp
  have "F \<subseteq> {..<8 * S}" using page_inv_bound [OF h(4)] by blast
  then have p8: "p + 63 < 8 * S" using pF(2) by blast
  let ?P = "map ((+) p) [1..<63]"
  have sp: "set ?P = {p + 1..<p + 63}" by (simp only: set_map set_upt image_add_atLeastLessThan add.commute)
  have "avail S s1 ((F - {p..<p + 64}) \<union> set ?P)"
    unfolding s1_def by (rule availI) (use h f p8 p0 sp in \<open>auto simp: distinct_map\<close>)
  moreover note pF(1)
  moreover have "(F - {p..<p + 64}) \<union> set ?P \<subseteq> F - {p}" using f(2) unfolding sp by auto
  moreover have "cap s1 + 1 = cap s"
    using c f(4) b unat_minus_one [OF b] unat_gt_0 [of "bm_free (bitmaps (frames s) ! 6)"] by (simp add: cap_def s1_def)
  moreover have "same_regs s s1" by (simp add: same_regs_def s1_def)
  moreover have "only_bitmaps S (frames s) (frames s1)" using ob by (simp add: s1_def)
  ultimately show ?thesis using bulk U by blast
qed

lemma bulk_ok:
  assumes av: "avail S s U" and c: "0 < cap s"
  shows "\<exists>p s' U'. pmallocBulk s = Some (page_addr p, s') \<and> avail S s' U' \<and> p \<in> U \<and> U' \<subseteq> U - {p} \<and>
     cap s' + 1 = cap s \<and> only_bitmaps S (frames s) (frames s') \<and> same_regs s s'"
proof (cases "unat (curr s) < 63")
  case True
  have "only_bitmaps S (frames s) (frames (s\<lparr>curr := curr s + 1\<rparr>))" "same_regs s (s\<lparr>curr := curr s + 1\<rparr>)"
    by (simp_all add: only_bitmaps_def same_regs_def)
  with bulk_pop [OF av True] show ?thesis by blast
next
  case False
  then have c63: "unat (curr s) = 63" using av by (auto elim: availE)
  then have "bm_free (bitmaps (frames s) ! 6) \<noteq> 0" using c by (auto simp: cap_def)
  then show ?thesis using bulk_refill [OF av c63] by blast
qed

section \<open>The invariant of mapping\<close>

definition first_cell :: "nat \<Rightarrow> u64" where
  "first_cell p = page_addr p + page_direct_base"

definition vm_tree :: "nat \<Rightarrow> paging \<Rightarrow> u64 \<Rightarrow> nat set \<Rightarrow> bool" where
  "vm_tree S s root U \<longleftrightarrow> avail S s U \<and> tables_wf (pm (frames s)) root \<and>
     slots (pm (frames s)) root \<inter> bitmap_cells S (bitmap_base (frames s)) = {} \<and>
     (\<forall>p\<in>U. page_cells p \<inter> slots (pm (frames s)) root = {} \<and>
        page_cells p \<inter> bitmap_cells S (bitmap_base (frames s)) = {} \<and> pm (frames s) (first_cell p) \<noteq> None)"

definition blank_tails :: "paging \<Rightarrow> nat set \<Rightarrow> bool" where
  "blank_tails s U \<longleftrightarrow> (\<forall>p\<in>U. \<forall>a\<in>page_cells p - {first_cell p}. pm (frames s) a = Some 0)"

definition vm :: "nat \<Rightarrow> paging \<Rightarrow> u64 \<Rightarrow> nat set \<Rightarrow> bool" where
  "vm S s root U \<longleftrightarrow> vm_tree S s root U \<and> blank_tails s U"

abbreviation trans :: "paging \<Rightarrow> u64 \<Rightarrow> u64 \<Rightarrow> u64 option" where
  "trans s \<equiv> translate (pm (frames s))"

lemma vm_tree_D:
  assumes "vm_tree S s root U"
  shows "avail S s U" "tables_wf (pm (frames s)) root"
    "slots (pm (frames s)) root \<inter> bitmap_cells S (bitmap_base (frames s)) = {}"
    "p \<in> U \<Longrightarrow> page_cells p \<inter> slots (pm (frames s)) root = {}"
    "p \<in> U \<Longrightarrow> page_cells p \<inter> bitmap_cells S (bitmap_base (frames s)) = {}"
    "p \<in> U \<Longrightarrow> pm (frames s) (first_cell p) \<noteq> None"
  using assms unfolding vm_tree_def by blast+

lemma vm_D:
  assumes "vm S s root U"
  shows "avail S s U" "tables_wf (pm (frames s)) root"
    "slots (pm (frames s)) root \<inter> bitmap_cells S (bitmap_base (frames s)) = {}"
    "p \<in> U \<Longrightarrow> page_cells p \<inter> slots (pm (frames s)) root = {}"
    "p \<in> U \<Longrightarrow> page_cells p \<inter> bitmap_cells S (bitmap_base (frames s)) = {}"
    "p \<in> U \<Longrightarrow> a \<in> page_cells p \<Longrightarrow> a \<noteq> first_cell p \<Longrightarrow> pm (frames s) a = Some 0"
  using assms vm_tree_D [of S s root U] unfolding vm_def blank_tails_def by blast+

lemma first_cell_in: "first_cell p \<in> page_cells p"
  using table_cell [of 0 "page_addr p + page_direct_base"] by (simp add: page_cells_def first_cell_def)

text \<open>A step that leaves the pages still available as they were keeps the invariant.\<close>

lemma vm_tree_step:
  assumes v: "vm_tree S s root U" and "avail S s' U'" "U' \<subseteq> U" "tables_wf (pm (frames s')) root"
    and base: "bitmap_base (frames s') = bitmap_base (frames s)"
    and "slots (pm (frames s')) root \<inter> bitmap_cells S (bitmap_base (frames s)) = {}"
    and sl: "\<And>p. p \<in> U' \<Longrightarrow> page_cells p \<inter> slots (pm (frames s')) root = {}"
    and same: "\<And>p a. p \<in> U' \<Longrightarrow> a \<in> page_cells p \<Longrightarrow> pm (frames s') a = pm (frames s) a"
  shows "vm_tree S s' root U'"
  unfolding vm_tree_def
proof (intro conjI ballI)
  fix p assume p: "p \<in> U'"
  then have pU: "p \<in> U" using assms(3) by blast
  show "page_cells p \<inter> slots (pm (frames s')) root = {}" by (rule sl [OF p])
  show "page_cells p \<inter> bitmap_cells S (bitmap_base (frames s')) = {}" using vm_tree_D(5) [OF v pU] base by simp
  show "pm (frames s') (first_cell p) \<noteq> None" using vm_tree_D(6) [OF v pU] same [OF p first_cell_in] by simp
qed (use assms in simp_all)

lemma blank_tails_step:
  "blank_tails s U \<Longrightarrow> U' \<subseteq> U \<Longrightarrow> (\<And>p a. p \<in> U' \<Longrightarrow> a \<in> page_cells p \<Longrightarrow> pm (frames s') a = pm (frames s) a) \<Longrightarrow> blank_tails s' U'"
  unfolding blank_tails_def by (metis DiffE subsetD)

lemma vm_step:
  assumes "vm S s root U" "avail S s' U'" "U' \<subseteq> U" "tables_wf (pm (frames s')) root"
    "bitmap_base (frames s') = bitmap_base (frames s)" "slots (pm (frames s')) root \<inter> bitmap_cells S (bitmap_base (frames s)) = {}"
    "\<And>p. p \<in> U' \<Longrightarrow> page_cells p \<inter> slots (pm (frames s')) root = {}"
    "\<And>p a. p \<in> U' \<Longrightarrow> a \<in> page_cells p \<Longrightarrow> pm (frames s') a = pm (frames s) a"
  shows "vm S s' root U'"
  using vm_tree_step [of S s root U s' U'] blank_tails_step [of s U U' s'] assms unfolding vm_def by blast

lemma tree_bulk:
  assumes v: "vm_tree S s root U" and c: "0 < cap s"
  shows "\<exists>p s' U'. pmallocBulk s = Some (page_addr p, s') \<and> vm_tree S s' root U' \<and> p \<in> U \<and> U' \<subseteq> U - {p} \<and>
     cap s' + 1 = cap s \<and> same_regs s s' \<and> bitmap_base (frames s') = bitmap_base (frames s) \<and>
     (\<forall>a. a \<notin> bitmap_cells S (bitmap_base (frames s)) \<longrightarrow> pm (frames s') a = pm (frames s) a)"
proof -
  note D = vm_tree_D [OF v]
  obtain p s' U' where b: "pmallocBulk s = Some (page_addr p, s')" "avail S s' U'" "p \<in> U" "U' \<subseteq> U - {p}"
      "cap s' + 1 = cap s" "only_bitmaps S (frames s) (frames s')" "same_regs s s'"
    using bulk_ok [OF D(1) c] by blast
  have base: "bitmap_base (frames s') = bitmap_base (frames s)"
    and out: "\<And>a. a \<notin> bitmap_cells S (bitmap_base (frames s)) \<Longrightarrow> pm (frames s') a = pm (frames s) a"
    using b(6) by (auto simp: only_bitmaps_def)
  have agree: "\<forall>a\<in>slots (pm (frames s)) root. pm (frames s') a = pm (frames s) a" using out D(3) by blast
  note same = slots_agree(3,4) [OF agree]
  have U: "U' \<subseteq> U" using b(4) by blast
  have "vm_tree S s' root U'"
  proof (rule vm_tree_step [OF v b(2) U same(2) [OF D(2)] base])
    show "slots (pm (frames s')) root \<inter> bitmap_cells S (bitmap_base (frames s)) = {}" using D(3) same(1) by simp
    show "page_cells q \<inter> slots (pm (frames s')) root = {}" if "q \<in> U'" for q using D(4) [of q] same(1) that U by auto
    show "pm (frames s') a = pm (frames s) a" if "q \<in> U'" "a \<in> page_cells q" for q a
      using D(5) [of q] that U by (intro out) blast
  qed
  with b base out show ?thesis by blast
qed

lemma vm_blank:
  assumes v: "vm S s root U" and "vm_tree S s' root U'" "U' \<subseteq> U"
    and "\<forall>a. a \<notin> bitmap_cells S (bitmap_base (frames s)) \<longrightarrow> pm (frames s') a = pm (frames s) a"
  shows "vm S s' root U'"
proof -
  have "pm (frames s') a = pm (frames s) a" if "q \<in> U'" "a \<in> page_cells q" for q a
    using vm_D(5) [OF v, of q] assms(3,4) that by blast
  then have "blank_tails s' U'" using blank_tails_step [of s U U' s'] v assms(3) by (simp add: vm_def)
  with assms(2) show ?thesis by (simp add: vm_def)
qed

lemma vm_bulk:
  assumes v: "vm S s root U" and c: "0 < cap s"
  shows "\<exists>p s' U'. pmallocBulk s = Some (page_addr p, s') \<and> vm S s' root U' \<and> p \<in> U \<and> U' \<subseteq> U - {p} \<and>
     cap s' + 1 = cap s \<and> same_regs s s' \<and> bitmap_base (frames s') = bitmap_base (frames s) \<and>
     (\<forall>a. a \<notin> bitmap_cells S (bitmap_base (frames s)) \<longrightarrow> pm (frames s') a = pm (frames s) a)"
proof -
  have "vm_tree S s root U" using v by (simp add: vm_def)
  then obtain p s' U' where b: "pmallocBulk s = Some (page_addr p, s')" "vm_tree S s' root U'" "p \<in> U" "U' \<subseteq> U - {p}"
      "cap s' + 1 = cap s" "same_regs s s'" "bitmap_base (frames s') = bitmap_base (frames s)"
      "\<forall>a. a \<notin> bitmap_cells S (bitmap_base (frames s)) \<longrightarrow> pm (frames s') a = pm (frames s) a"
    using tree_bulk [OF _ c] by blast
  have "U' \<subseteq> U" using b(4) by blast
  from vm_blank [OF v b(2) this b(8)] b show ?thesis by blast
qed

lemma vm_bulk_trans:
  assumes "vm_tree S s root U" "\<forall>a. a \<notin> bitmap_cells S (bitmap_base (frames s)) \<longrightarrow> pm (frames s') a = pm (frames s) a"
  shows "\<forall>a\<in>slots (pm (frames s)) root. pm (frames s') a = pm (frames s) a"
  using assms vm_tree_D(3) by blast

text \<open>A write to an entry keeps the pool: neither the bitmaps nor the pages lie there.\<close>

lemma avail_write:
  assumes "avail S s U" "a \<notin> bitmap_cells S (bitmap_base (frames s))"
  shows "avail S (s\<lparr>frames := (frames s)\<lparr>pm := (pm (frames s))(a \<mapsto> e)\<rparr>\<rparr>) U"
  using assms(1)
proof (rule availE)
  fix F P
  assume h: "S \<le> 2 ^ 37" "length (bulk_alloc_ptrs s) = 64" "unat (curr s) \<le> 63" "page_inv S (frames s) F" "0 \<notin> F"
    "U = F \<union> set P" "distinct P" "set P \<inter> F = {}" "set P \<subseteq> {1..<8 * S}" "length P = 63 - unat (curr s)"
    and nth: "\<And>k. k < length P \<Longrightarrow> bulk_alloc_ptrs s ! (unat (curr s) + k) = page_addr (P ! k)"
  have "\<forall>p\<in>bitmap_cells S (bitmap_base (frames s)). ((pm (frames s))(a \<mapsto> e)) p = pm (frames s) p"
    using assms(2) by auto
  then have "page_inv S ((frames s)\<lparr>pm := (pm (frames s))(a \<mapsto> e)\<rparr>) F" by (rule page_inv_cong [OF h(4)])
  then show ?thesis unfolding h(6) using h nth by (intro availI) auto
qed

lemma cap_frames_pm [simp]: "cap (s\<lparr>frames := (frames s)\<lparr>pm := m\<rparr>\<rparr>) = cap s"
  by (simp add: cap_def)

lemma wr_eq: "pm (frames s) a \<noteq> None \<Longrightarrow> wr a v s = Some (s\<lparr>frames := (frames s)\<lparr>pm := (pm (frames s))(a \<mapsto> v)\<rparr>\<rparr>)"
  by (auto simp: wr_def st64_def)

lemma rd_eq: "rd a s = pm (frames s) a"
  by (simp add: rd_def ld64_def)

lemma clear_again:
  assumes "pm (frames s) v = Some 0"
  shows "for_each (\<lambda>i. wr v 0) is s = Some s"
proof -
  have "(pm (frames s))(v \<mapsto> 0) = pm (frames s)" using assms by auto
  then have "wr v 0 s = Some s" using wr_eq [of s v 0] assms by simp
  then show ?thesis by (induction "is") simp_all
qed

lemma pagingAllocTable_ok:
  assumes "pmallocBulk s = Some (pptr, s1)" "pm (frames s1) (pptr + page_direct_base) \<noteq> None"
  shows "pagingAllocTable s = Some (pptr, s1\<lparr>frames := (frames s1)\<lparr>pm := (pm (frames s1))(pptr + page_direct_base \<mapsto> 0)\<rparr>\<rparr>)"
proof -
  let ?v = "pptr + page_direct_base"
  let ?s2 = "s1\<lparr>frames := (frames s1)\<lparr>pm := (pm (frames s1))(?v \<mapsto> 0)\<rparr>\<rparr>"
  have "for_each (\<lambda>i. wr ?v 0) (i # is) s1 = Some ?s2" for i :: nat and "is"
    using wr_eq [OF assms(2), of 0] clear_again [of ?s2 ?v "is"] by simp
  then have "for_each (\<lambda>i. wr ?v 0) [0..<512 :: nat] s1 = Some ?s2"
    using upt_conv_Cons [of 0 512] by (simp del: upt_Suc)
  then show ?thesis using assms(1) by (simp add: pagingAllocTable_def)
qed

section \<open>One level down\<close>

definition at_table :: "mem \<Rightarrow> u64 \<Rightarrow> u64 list \<Rightarrow> u64 \<Rightarrow> bool" where
  "at_table m root pre t \<longleftrightarrow> (if pre = [] then t = root else \<exists>e. entry m root pre = Some e \<and> e \<noteq> 0 \<and> t = table_of e)"

lemma at_table_slot: "at_table m root pre t \<Longrightarrow> slot m root (pre @ [i]) = Some (t + i * 8)"
  using slot_append [of pre "[i]" m root] by (auto simp: at_table_def split: if_splits)

lemma vm_hang:
  assumes v: "vm S s root U'" and U: "U' \<subseteq> U - {p}" and p: "p < 2 ^ 40" "page_cells p \<inter> slots (pm (frames s)) root = {}"
      "page_cells p \<inter> bitmap_cells S (bitmap_base (frames s)) = {}" "\<forall>a\<in>page_cells p. pm (frames s) a = Some 0"
    and q: "path_ok q" "length q < 4" "slot (pm (frames s)) root q = Some a" "pm (frames s) a = Some 0" and fl: "flags_ok flags"
    and e: "e = (page_addr p AND NOT 0xFFF) OR flags"
    and s': "s' = s\<lparr>frames := (frames s)\<lparr>pm := (pm (frames s))(a \<mapsto> e)\<rparr>\<rparr>"
  shows "vm S s' root U'" "trans s' root w = trans s root w" "entry (pm (frames s')) root q = Some e"
proof -
  note D = vm_D [OF v]
  let ?m = "pm (frames s)" and ?C = "bitmap_cells S (bitmap_base (frames s))"
  note f = entry_fields [OF page_addr_frame [OF p(1)] fl, folded e]
  have t: "table_of e = page_addr p + page_direct_base" using f(1) by (simp add: table_of_def)
  have te: "table_entry_ok e" using f(2,3) by (simp add: table_entry_ok_def)
  note cells = p(2,4) [unfolded page_cells_def]
  note wf' = new_table_wf [OF D(2) q(1,3,4) cells f(4) t index_inj te]
  note tr = new_table_translate [OF D(2) q(1,3,4) cells f(4) t index_inj te q(2)]
  have sub: "slots (?m(a \<mapsto> e)) root \<subseteq> slots ?m root \<union> page_cells p"
    unfolding page_cells_def by (rule slots_new [OF D(2) q(1,3,4) cells f(4) t])
  have a: "a \<in> slots ?m root" using slot_in [OF q(1,3)] .
  then have aC: "a \<notin> ?C" using D(3) by blast
  show "trans s' root w = trans s root w" using tr(1) s' by simp
  show "entry (pm (frames s')) root q = Some e" using tr(2) s' by simp
  show "vm S s' root U'"
  proof (rule vm_step [OF v])
    show "avail S s' U'" unfolding s' by (rule avail_write [OF D(1) aC])
    show "tables_wf (pm (frames s')) root" using wf' s' by simp
    show "slots (pm (frames s')) root \<inter> ?C = {}" using sub D(3) p(3) s' by auto
    fix x assume x: "x \<in> U'"
    have x40: "x < 2 ^ 40" "x \<noteq> p" using avail_page [OF D(1) x] x U by auto
    have "page_cells x \<inter> page_cells p = {}" using page_cells_disjoint [OF x40(1) p(1) x40(2)] .
    then show "page_cells x \<inter> slots (pm (frames s')) root = {}" using sub D(4) [OF x] s' by auto
    show "pm (frames s') b = ?m b" if "b \<in> page_cells x" for b using that a D(4) [OF x] s' by auto
  qed (use s' in simp_all)
qed

lemma vm_clear:
  assumes v: "vm S s root U'" and U: "p \<notin> U'" and p: "p < 2 ^ 40" "page_cells p \<inter> slots (pm (frames s)) root = {}"
      "page_cells p \<inter> bitmap_cells S (bitmap_base (frames s)) = {}"
  shows "vm S (s\<lparr>frames := (frames s)\<lparr>pm := (pm (frames s))(first_cell p \<mapsto> 0)\<rparr>\<rparr>) root U'"
proof -
  note D = vm_D [OF v]
  let ?s = "s\<lparr>frames := (frames s)\<lparr>pm := (pm (frames s))(first_cell p \<mapsto> 0)\<rparr>\<rparr>"
  have agree: "\<forall>a\<in>slots (pm (frames s)) root. pm (frames ?s) a = pm (frames s) a" using p(2) first_cell_in [of p] by auto
  note same = slots_agree(3,4) [where m' = "pm (frames ?s)", OF agree]
  show ?thesis
  proof (rule vm_step [OF v])
    show "avail S ?s U'" using avail_write [OF D(1)] p(3) first_cell_in by blast
    show "tables_wf (pm (frames ?s)) root" by (rule same(2) [OF D(2)])
    show "slots (pm (frames ?s)) root \<inter> bitmap_cells S (bitmap_base (frames s)) = {}" unfolding same(1) by (rule D(3))
    fix x assume x: "x \<in> U'"
    show "page_cells x \<inter> slots (pm (frames ?s)) root = {}" unfolding same(1) by (rule D(4) [OF x])
    have "page_cells x \<inter> page_cells p = {}" using page_cells_disjoint [OF _ p(1), of x] avail_page [OF D(1) x] x U by auto
    then show "pm (frames ?s) b = pm (frames s) b" if "b \<in> page_cells x" for b using that first_cell_in [of p] by auto
  qed simp_all
qed

text \<open>A new table, whatever its page holds.\<close>

lemma new_table_run:
  assumes v: "vm_tree S s root U" and q: "path_ok q" "slot (pm (frames s)) root q = Some (t + num * 8)" "pm (frames s) (t + num * 8) = Some 0"
    and c: "0 < cap s"
  shows "\<exists>p s1 U1. next_table_alloc t num flags s = Some (table_of ((page_addr p AND NOT 0xFFF) OR flags),
       s1\<lparr>frames := (frames s1)\<lparr>pm := (pm (frames s1))(first_cell p \<mapsto> 0, t + num * 8 \<mapsto> (page_addr p AND NOT 0xFFF) OR flags)\<rparr>\<rparr>) \<and>
     vm_tree S s1 root U1 \<and> p \<in> U \<and> U1 \<subseteq> U - {p} \<and> cap s1 + 1 = cap s \<and> same_regs s s1 \<and> bitmap_base (frames s1) = bitmap_base (frames s) \<and>
     (\<forall>a. a \<notin> bitmap_cells S (bitmap_base (frames s)) \<longrightarrow> pm (frames s1) a = pm (frames s) a)"
proof -
  note D = vm_tree_D [OF v]
  let ?m = "pm (frames s)" and ?a = "t + num * 8"
  obtain p s1 U1 where b: "pmallocBulk s = Some (page_addr p, s1)" "vm_tree S s1 root U1" "p \<in> U" "U1 \<subseteq> U - {p}"
      "cap s1 + 1 = cap s" "same_regs s s1" "bitmap_base (frames s1) = bitmap_base (frames s)"
      "\<forall>a. a \<notin> bitmap_cells S (bitmap_base (frames s)) \<longrightarrow> pm (frames s1) a = ?m a"
    using tree_bulk [OF v c] by blast
  let ?s1 = "s1\<lparr>frames := (frames s1)\<lparr>pm := (pm (frames s1))(first_cell p \<mapsto> 0)\<rparr>\<rparr>"
  have "first_cell p \<notin> bitmap_cells S (bitmap_base (frames s))" using D(5) [OF b(3)] first_cell_in by blast
  then have "pm (frames s1) (first_cell p) \<noteq> None" using D(6) [OF b(3)] b(8) by simp
  then have "pagingAllocTable s = Some (page_addr p, ?s1)" using pagingAllocTable_ok [OF b(1)] by (simp add: first_cell_def)
  moreover have "pm (frames s1) ?a = Some 0" using vm_bulk_trans [OF v b(8)] slot_in [OF q(1,2)] q(3) by simp
  then have "pm (frames ?s1) ?a \<noteq> None" by simp
  ultimately show ?thesis
    using b q(3) wr_eq [of ?s1 ?a]
    by (intro exI [of _ p] exI [of _ s1] exI [of _ U1]) (simp add: next_table_alloc_def rd_eq pagingAddEntry_def)
qed

lemma next_table_ok:
  assumes v: "vm S s root U" and t: "at_table (pm (frames s)) root pre t"
    and pre: "length pre < 3" "\<forall>i\<in>set pre. i < 512" "num < 512" and fl: "flags_ok flags" and c: "0 < cap s"
  shows "\<exists>t' s' U'. next_table_alloc t num flags s = Some (t', s') \<and> vm S s' root U' \<and> U' \<subseteq> U \<and>
     at_table (pm (frames s')) root (pre @ [num]) t' \<and> cap s \<le> cap s' + 1 \<and> same_regs s s' \<and>
     (\<forall>w. trans s' root w = trans s root w)"
proof -
  note D = vm_D [OF v]
  have v': "vm_tree S s root U" using v by (simp add: vm_def)
  let ?m = "pm (frames s)" and ?a = "t + num * 8" and ?q = "pre @ [num]"
  have q: "path_ok ?q" "length ?q < 4" using pre by (auto simp: path_ok_def)
  have sl: "slot ?m root ?q = Some ?a" using at_table_slot [OF t] .
  obtain e0 where e0: "?m ?a = Some e0" using wf_entry [OF D(2) q(1) sl] by blast
  show ?thesis
  proof (cases "e0 = 0")
    case False
    then have "next_table_alloc t num flags s = Some (table_of e0, s)"
      using e0 by (simp add: next_table_alloc_def rd_eq)
    moreover have "at_table ?m root ?q (table_of e0)" using sl e0 False by (simp add: at_table_def entry_def)
    ultimately show ?thesis using v by (auto simp: same_regs_def)
  next
    case True
    define ent where "ent p = (page_addr p AND NOT 0xFFF) OR flags" for p
    obtain p s1 U1 where b: "next_table_alloc t num flags s =
          Some (table_of (ent p), s1\<lparr>frames := (frames s1)\<lparr>pm := (pm (frames s1))(first_cell p \<mapsto> 0, ?a \<mapsto> ent p)\<rparr>\<rparr>)"
        "vm_tree S s1 root U1" "p \<in> U" "U1 \<subseteq> U - {p}" "cap s1 + 1 = cap s" "same_regs s s1" "bitmap_base (frames s1) = bitmap_base (frames s)"
        "\<forall>a. a \<notin> bitmap_cells S (bitmap_base (frames s)) \<longrightarrow> pm (frames s1) a = ?m a"
      using new_table_run [OF v' q(1) sl _ c] e0 True unfolding ent_def by blast
    have p40: "p < 2 ^ 40" using avail_page [OF D(1) b(3)] by blast
    let ?s1 = "s1\<lparr>frames := (frames s1)\<lparr>pm := (pm (frames s1))(first_cell p \<mapsto> 0)\<rparr>\<rparr>"
    let ?m1 = "pm (frames ?s1)"
    note bt = vm_bulk_trans [OF v' b(8)]
    have agree: "\<forall>a\<in>slots ?m root. ?m1 a = ?m a" using bt D(4) [OF b(3)] first_cell_in [of p] by auto
    note ag = slots_agree [where m' = ?m1, OF agree]
    have pz: "\<forall>a\<in>page_cells p. ?m1 a = Some 0" using D(5,6) [OF b(3)] b(8) by auto
    have ps: "page_cells p \<inter> slots ?m1 root = {}" unfolding ag(3) by (rule D(4) [OF b(3)])
    have pc: "page_cells p \<inter> bitmap_cells S (bitmap_base (frames s1)) = {}" "page_cells p \<inter> slots (pm (frames s1)) root = {}"
      using D(4,5) [OF b(3)] b(7) slots_agree(3) [OF bt] by simp_all
    have "vm S s1 root U1" using vm_blank [OF v b(2) _ b(8)] b(4) by blast
    then have v1: "vm S ?s1 root U1" using vm_clear [OF _ _ p40 pc(2,1)] b(4) by blast
    have sl1: "slot ?m1 root ?q = Some ?a" "?m1 ?a = Some 0" using ag(1) [OF q(1)] sl agree slot_in [OF q(1) sl] e0 True by simp_all
    define s2 where "s2 = ?s1\<lparr>frames := (frames ?s1)\<lparr>pm := ?m1(?a \<mapsto> ent p)\<rparr>\<rparr>"
    have pc1: "page_cells p \<inter> bitmap_cells S (bitmap_base (frames ?s1)) = {}" using pc(1) by simp
    note hang = vm_hang [OF v1 b(4) p40 ps pc1 pz q sl1 fl ent_def s2_def]
    have "next_table_alloc t num flags s = Some (table_of (ent p), s2)" using b(1) by (simp add: s2_def)
    moreover have "at_table (pm (frames s2)) root ?q (table_of (ent p))"
      using hang(3) entry_fields(4) [OF page_addr_frame [OF p40] fl] by (simp add: at_table_def ent_def)
    moreover have "trans s2 root w = trans s root w" for w
      using hang(2) translate_agree [where m' = ?m1, OF agree D(2)] by simp
    moreover have "cap s2 = cap s1" "same_regs s s2" using b(6) by (simp_all add: s2_def same_regs_def cap_def)
    ultimately show ?thesis using hang(1) b(4,5) by (intro exI [of _ "table_of (ent p)"] exI [of _ s2] exI [of _ U1]) auto
  qed
qed

section \<open>Mapping one page\<close>

lemma same_regs_trans: "same_regs s s' \<Longrightarrow> same_regs s' s'' \<Longrightarrow> same_regs s s''"
  by (simp add: same_regs_def)

lemma PATH_prefix: "PATH v = [PAGE_P4E v, PAGE_P3E v, PAGE_P2E v] @ [PAGE_P1E v]"
  by (simp add: PATH_def)

definition walk_down :: "u64 \<Rightarrow> u64 \<Rightarrow> u64 \<Rightarrow> paging \<Rightarrow> (u64 \<times> paging) option" where
  "walk_down v root flags s = do {
     (p3tp, s) \<leftarrow> next_table_alloc root (PAGE_P4E v) flags s;
     (p2tp, s) \<leftarrow> next_table_alloc p3tp (PAGE_P3E v) flags s;
     next_table_alloc p2tp (PAGE_P2E v) flags s }"

lemma walk_down_ok:
  assumes v: "vm S s root U" and fl: "flags_ok flags" and c: "3 \<le> cap s"
  shows "\<exists>t s' U'. walk_down v root flags s = Some (t, s') \<and> vm S s' root U' \<and> U' \<subseteq> U \<and>
     at_table (pm (frames s')) root [PAGE_P4E v, PAGE_P3E v, PAGE_P2E v] t \<and> cap s \<le> cap s' + 3 \<and> same_regs s s' \<and>
     (\<forall>w. trans s' root w = trans s root w)"
proof -
  note ib = index_bound [of v]
  obtain t3 s1 U1 where 1: "next_table_alloc root (PAGE_P4E v) flags s = Some (t3, s1)" "vm S s1 root U1" "U1 \<subseteq> U"
      "at_table (pm (frames s1)) root [PAGE_P4E v] t3" "cap s \<le> cap s1 + 1" "same_regs s s1" "\<forall>w. trans s1 root w = trans s root w"
    using next_table_ok [OF v, of "[]" root "PAGE_P4E v" flags] fl c ib by (auto simp: at_table_def)
  obtain t2 s2 U2 where 2: "next_table_alloc t3 (PAGE_P3E v) flags s1 = Some (t2, s2)" "vm S s2 root U2" "U2 \<subseteq> U1"
      "at_table (pm (frames s2)) root [PAGE_P4E v, PAGE_P3E v] t2" "cap s1 \<le> cap s2 + 1" "same_regs s1 s2"
      "\<forall>w. trans s2 root w = trans s1 root w"
    using next_table_ok [OF 1(2,4), of "PAGE_P3E v" flags] fl c ib 1(5) by auto
  obtain t1 s3 U3 where 3: "next_table_alloc t2 (PAGE_P2E v) flags s2 = Some (t1, s3)" "vm S s3 root U3" "U3 \<subseteq> U2"
      "at_table (pm (frames s3)) root [PAGE_P4E v, PAGE_P3E v, PAGE_P2E v] t1" "cap s2 \<le> cap s3 + 1" "same_regs s2 s3"
      "\<forall>w. trans s3 root w = trans s2 root w"
    using next_table_ok [OF 2(2,4), of "PAGE_P2E v" flags] fl c ib 1(5) 2(5) by auto
  have "walk_down v root flags s = Some (t1, s3)" using 1(1) 2(1) 3(1) by (simp add: walk_down_def)
  moreover have "same_regs s s3" using same_regs_trans 1(6) 2(6) 3(6) by blast
  moreover have "U3 \<subseteq> U" "cap s \<le> cap s3 + 3" using 1 2 3 by auto
  ultimately show ?thesis using 3(2,4) 1(7) 2(7) 3(7) by (intro exI [of _ t1] exI [of _ s3] exI [of _ U3]) simp
qed

lemma vm_leaf:
  assumes v: "vm S s root U" and t: "at_table (pm (frames s)) root [PAGE_P4E v, PAGE_P3E v, PAGE_P2E v] t"
    and pp: "frame_addr pp" and fl: "flags_ok flags"
  shows "\<exists>s'. pagingAddEntry t (PAGE_P1E v) pp flags s = Some s' \<and> vm S s' root U \<and> cap s' = cap s \<and> same_regs s s' \<and>
     (\<forall>w. trans s' root w = (if PATH w = PATH v then Some (pp + PAGE_OFFSET w) else trans s root w))"
proof -
  note D = vm_D [OF v]
  let ?m = "pm (frames s)" and ?a = "t + PAGE_P1E v * 8"
  define e where "e = (pp AND NOT 0xFFF) OR flags"
  define s' where "s' = s\<lparr>frames := (frames s)\<lparr>pm := ?m(?a \<mapsto> e)\<rparr>\<rparr>"
  have sl: "slot ?m root (PATH v) = Some ?a" unfolding PATH_prefix by (rule at_table_slot [OF t])
  note ok = path_ok_PATH [of v]
  have ain: "?a \<in> slots ?m root" by (rule slot_in [OF ok(1) sl])
  then have aC: "?a \<notin> bitmap_cells S (bitmap_base (frames s))" using D(3) by blast
  have "?m ?a \<noteq> None" using wf_entry [OF D(2) ok(1) sl] by blast
  then have run: "pagingAddEntry t (PAGE_P1E v) pp flags s = Some s'"
    using wr_eq by (simp add: pagingAddEntry_def s'_def e_def)
  note lw = leaf_write [OF D(2) ok(1,2) sl, where e = e]
  note f = entry_fields [OF pp fl, folded e_def]
  have "vm S s' root U"
  proof (rule vm_step [OF v])
    show "avail S s' U" unfolding s'_def by (rule avail_write [OF D(1) aC])
    show "tables_wf (pm (frames s')) root" using lw(1) by (simp add: s'_def)
    show "slots (pm (frames s')) root \<inter> bitmap_cells S (bitmap_base (frames s)) = {}" using lw(2) D(3) by (simp add: s'_def)
    fix x assume x: "x \<in> U"
    show "page_cells x \<inter> slots (pm (frames s')) root = {}" using lw(2) D(4) [OF x] by (simp add: s'_def)
    show "pm (frames s') b = ?m b" if "b \<in> page_cells x" for b using that ain D(4) [OF x] by (auto simp: s'_def)
  qed (simp_all add: s'_def)
  moreover have "trans s' root w = (if PATH w = PATH v then Some (pp + PAGE_OFFSET w) else trans s root w)" for w
    using lw(3) lw(4) [OF path_ok_PATH(1) [of w]] f(1,2)
    unfolding s'_def by (simp add: translate_entry [OF lw(1)] translate_entry [OF D(2)])
  moreover have "cap s' = cap s" "same_regs s s'" by (simp_all add: s'_def same_regs_def)
  ultimately show ?thesis using run by blast
qed

lemma videntityHelper_ok:
  assumes v: "vm S s root U" and fl: "flags_ok flags" and c: "3 \<le> cap s" and pp: "frame_addr pp"
  shows "\<exists>s' U'. videntityHelper v pp root flags s = Some (v, s') \<and> vm S s' root U' \<and> U' \<subseteq> U \<and> cap s \<le> cap s' + 3 \<and>
     same_regs s s' \<and> (\<forall>w. trans s' root w = (if PATH w = PATH v then Some (pp + PAGE_OFFSET w) else trans s root w))"
proof -
  obtain t s1 U1 where 1: "walk_down v root flags s = Some (t, s1)" "vm S s1 root U1" "U1 \<subseteq> U"
      "at_table (pm (frames s1)) root [PAGE_P4E v, PAGE_P3E v, PAGE_P2E v] t" "cap s \<le> cap s1 + 3" "same_regs s s1"
      "\<forall>w. trans s1 root w = trans s root w"
    using walk_down_ok [OF v fl c] by blast
  obtain s2 where 2: "pagingAddEntry t (PAGE_P1E v) pp flags s1 = Some s2" "vm S s2 root U1" "cap s2 = cap s1" "same_regs s1 s2"
      "\<forall>w. trans s2 root w = (if PATH w = PATH v then Some (pp + PAGE_OFFSET w) else trans s1 root w)"
    using vm_leaf [OF 1(2,4) pp fl] by blast
  have "videntityHelper v pp root flags s =
      do { (t, s) \<leftarrow> walk_down v root flags s; s \<leftarrow> pagingAddEntry t (PAGE_P1E v) pp flags s; Some (v, s) }"
    by (simp add: videntityHelper_def walk_down_def case_prod_unfold)
  then have "videntityHelper v pp root flags s = Some (v, s2)" using 1(1) 2(1) by simp
  then show ?thesis using 1 2 same_regs_trans [OF 1(6) 2(4)] by (intro exI [of _ s2] exI [of _ U1]) simp
qed

lemma vmallocHelper_ok:
  assumes v: "vm S s root U" and fl: "flags_ok flags" and c: "4 \<le> cap s"
  shows "\<exists>p s' U'. vmallocHelper v root flags s = Some (v, s') \<and> vm S s' root U' \<and> U' \<subseteq> U - {p} \<and> p \<in> U \<and> cap s \<le> cap s' + 4 \<and>
     same_regs s s' \<and> (\<forall>w. trans s' root w = (if PATH w = PATH v then Some (page_addr p + PAGE_OFFSET w) else trans s root w))"
proof -
  have c3: "3 \<le> cap s" using c by simp
  obtain t s1 U1 where 1: "walk_down v root flags s = Some (t, s1)" "vm S s1 root U1" "U1 \<subseteq> U"
      "at_table (pm (frames s1)) root [PAGE_P4E v, PAGE_P3E v, PAGE_P2E v] t" "cap s \<le> cap s1 + 3" "same_regs s s1"
      "\<forall>w. trans s1 root w = trans s root w"
    using walk_down_ok [OF v fl c3] by blast
  have "0 < cap s1" using 1(5) c by simp
  then obtain p s2 U2 where b: "pmallocBulk s1 = Some (page_addr p, s2)" "vm S s2 root U2" "p \<in> U1" "U2 \<subseteq> U1 - {p}"
      "cap s2 + 1 = cap s1" "same_regs s1 s2"
      "\<forall>a. a \<notin> bitmap_cells S (bitmap_base (frames s1)) \<longrightarrow> pm (frames s2) a = pm (frames s1) a"
    using vm_bulk [OF 1(2)] by blast
  have agree: "\<forall>a\<in>slots (pm (frames s1)) root. pm (frames s2) a = pm (frames s1) a" using vm_bulk_trans [OF _ b(7)] 1(2) unfolding vm_def by blast
  have pre: "path_ok [PAGE_P4E v, PAGE_P3E v, PAGE_P2E v]" using index_bound [of v] by (simp add: path_ok_def)
  have at2: "at_table (pm (frames s2)) root [PAGE_P4E v, PAGE_P3E v, PAGE_P2E v] t"
    using 1(4) slots_agree(2) [OF agree pre] by (simp add: at_table_def)
  have p40: "p < 2 ^ 40" using avail_page [OF vm_D(1) [OF 1(2)] b(3)] by blast
  obtain s3 where 3: "pagingAddEntry t (PAGE_P1E v) (page_addr p) flags s2 = Some s3" "vm S s3 root U2" "cap s3 = cap s2" "same_regs s2 s3"
      "\<forall>w. trans s3 root w = (if PATH w = PATH v then Some (page_addr p + PAGE_OFFSET w) else trans s2 root w)"
    using vm_leaf [OF b(2) at2 page_addr_frame [OF p40] fl] by blast
  have "vmallocHelper v root flags s = do {
      (t, s) \<leftarrow> walk_down v root flags s; (pptr, s) \<leftarrow> pmallocBulk s;
      s \<leftarrow> pagingAddEntry t (PAGE_P1E v) pptr flags s; Some (v, s) }"
    by (simp add: vmallocHelper_def walk_down_def case_prod_unfold)
  then have "vmallocHelper v root flags s = Some (v, s3)" using 1(1) b(1) 3(1) by simp
  moreover have "same_regs s s3" using same_regs_trans 1(6) b(6) 3(4) by blast
  moreover have "trans s2 root w = trans s root w" for w
    using translate_agree [OF agree vm_D(2) [OF 1(2)]] 1(7) by simp
  moreover have "U2 \<subseteq> U - {p}" "p \<in> U" "cap s \<le> cap s3 + 4" using 1(3,5) b(3-5) 3(3) by auto
  ultimately show ?thesis using 3(2,5) by (intro exI [of _ p] exI [of _ s3] exI [of _ U2]) simp
qed

section \<open>Mapping a range\<close>

definition page_num :: "u64 \<Rightarrow> nat" where
  "page_num v = unat v div 4096 mod 2 ^ 36"

lemma PATH_page_num: "PATH v = PATH w \<Longrightarrow> page_num v = page_num w"
proof -
  have u: "unat (drop_bit k x AND 0x1FF) = unat x div 2 ^ k mod 512" if "k < 64" for x :: u64 and k
  proof -
    have "unat (y AND 0x1FF) = unat y mod 512" for y :: u64
    proof -
      have "y AND 0x1FF = take_bit 9 y" by (simp add: take_bit_eq_mask mask_eq_exp_minus_1)
      then show ?thesis by (simp add: take_bit_eq_mod unat_mod)
    qed
    moreover have "unat (drop_bit k x) = unat x div 2 ^ k" using that by (simp add: drop_bit_eq_div unat_div unat_2p)
    ultimately show ?thesis by simp
  qed
  have split: "page_num x = unat (PAGE_P1E x) + 512 * (unat (PAGE_P2E x) + 512 * (unat (PAGE_P3E x) + 512 * unat (PAGE_P4E x)))" for x
  proof -
    let ?n = "unat x div 4096"
    have d: "unat x div 2097152 = ?n div 512" "unat x div 1073741824 = ?n div 512 div 512" "unat x div 549755813888 = ?n div 512 div 512 div 512"
      by (simp_all add: div_mult2_eq [symmetric])
    have m: "a mod (512 * b) = a mod 512 + 512 * (a div 512 mod b)" for a b :: nat by (simp add: mod_mult2_eq)
    have "?n mod 2 ^ 36 = ?n mod (512 * (512 * (512 * 512)))" by simp
    also have "\<dots> = ?n mod 512 + 512 * (?n div 512 mod 512 + 512 * (?n div 512 div 512 mod 512 + 512 * (?n div 512 div 512 div 512 mod 512)))"
      by (simp only: m)
    finally show ?thesis
      unfolding page_num_def PAGE_P1E_def PAGE_P2E_def PAGE_P3E_def PAGE_P4E_def by (simp add: u d)
  qed
  assume "PATH v = PATH w"
  then show ?thesis by (simp add: split PATH_def)
qed

lemma page_num_add: "page_num (v + of_nat k * PAGE_SIZE) = (unat v div 4096 + k) mod 2 ^ 36"
proof -
  have "unat (v + of_nat k * PAGE_SIZE) = (unat v + k * 4096) mod 2 ^ 64"
    by (simp add: unat_word_ariths unat_of_nat PAGE_SIZE_def mod_simps)
  moreover have "(a mod 2 ^ 64) div 4096 mod 2 ^ 36 = a div 4096 mod 2 ^ 36" for a :: nat
  proof -
    have "a mod 2 ^ 64 = a mod (4096 * 2 ^ 52)" by simp
    also have "\<dots> = a mod 4096 + 4096 * (a div 4096 mod 2 ^ 52)" by (subst mod_mult2_eq) simp
    finally have "(a mod 2 ^ 64) div 4096 = a div 4096 mod 2 ^ 52" by simp
    then show ?thesis by (simp add: mod_mod_cancel)
  qed
  ultimately show ?thesis by (simp add: page_num_def add.commute)
qed

lemma PATH_inj:
  assumes "j < 2 ^ 36" "k < 2 ^ 36" "PATH (v + of_nat j * PAGE_SIZE) = PATH (v + of_nat k * PAGE_SIZE)"
  shows "j = k"
proof -
  let ?n = "unat v div 4096"
  have "(?n + j) mod 2 ^ 36 = (?n + k) mod 2 ^ 36" using PATH_page_num [OF assms(3)] by (simp only: page_num_add)
  then have "j mod 2 ^ 36 = k mod 2 ^ 36" by (simp add: mod_add_cong nat_mod_eq_iff)
  then show ?thesis using assms(1,2) by simp
qed

text \<open>
  What \<open>vmalloc\<close> and \<open>videntity\<close> need of their helpers to map a range: the helper maps one page to a
  frame \<open>pp\<close>, leaves every other translation alone and uses up at most \<open>cost\<close> pages.
\<close>

fun chain :: "(nat \<Rightarrow> u64 \<Rightarrow> nat set \<Rightarrow> nat set \<Rightarrow> bool) \<Rightarrow> nat \<Rightarrow> u64 list \<Rightarrow> nat set \<Rightarrow> nat set \<Rightarrow> bool" where
  "chain R k [] U U' \<longleftrightarrow> U' = U"
| "chain R k (pp # pps) U U' \<longleftrightarrow> (\<exists>U1. R k pp U U1 \<and> U1 \<subseteq> U \<and> chain R (Suc k) pps U1 U')"

lemma chain_subset: "chain R k pps U U' \<Longrightarrow> U' \<subseteq> U"
  by (induction pps arbitrary: k U) auto

locale page_mapper =
  fixes S :: nat and root :: u64 and v :: u64 and h :: "u64 \<Rightarrow> paging \<Rightarrow> (u64 \<times> paging) option"
    and cost :: nat and n :: nat and R :: "nat \<Rightarrow> u64 \<Rightarrow> nat set \<Rightarrow> nat set \<Rightarrow> bool"
  assumes step: "\<lbrakk>vm S s root U; cost \<le> cap s; k < n\<rbrakk> \<Longrightarrow>
      \<exists>pp s' U'. h (of_nat k * PAGE_SIZE) s = Some (v + of_nat k * PAGE_SIZE, s') \<and> vm S s' root U' \<and> U' \<subseteq> U \<and> R k pp U U' \<and>
        cap s \<le> cap s' + cost \<and> same_regs s s' \<and>
        (\<forall>w. trans s' root w = (if PATH w = PATH (v + of_nat k * PAGE_SIZE) then Some (pp + PAGE_OFFSET w) else trans s root w))"
    and nonnull: "k < n \<Longrightarrow> v + of_nat k * PAGE_SIZE \<noteq> 0"
    and range: "n \<le> 2 ^ 36"
begin

lemma loop:
  "\<lbrakk>vm S s root U; cost * c \<le> cap s; k + c \<le> n\<rbrakk> \<Longrightarrow>
   \<exists>pps s' U'. each_page h c (of_nat k) s = Some (True, s') \<and> vm S s' root U' \<and> same_regs s s' \<and> length pps = c \<and>
     chain R k pps U U' \<and>
     (\<forall>j<c. \<forall>w. PATH w = PATH (v + of_nat (k + j) * PAGE_SIZE) \<longrightarrow> trans s' root w = Some (pps ! j + PAGE_OFFSET w)) \<and>
     (\<forall>w. (\<forall>j<c. PATH w \<noteq> PATH (v + of_nat (k + j) * PAGE_SIZE)) \<longrightarrow> trans s' root w = trans s root w)"
proof (induction c arbitrary: k s U)
  case 0
  then show ?case by (auto simp: same_regs_def)
next
  case (Suc c)
  let ?vk = "v + of_nat k * PAGE_SIZE"
  have k: "k < n" "cost \<le> cap s" using Suc.prems by auto
  obtain pp s1 U1 where 1: "h (of_nat k * PAGE_SIZE) s = Some (?vk, s1)" "vm S s1 root U1" "U1 \<subseteq> U" "R k pp U U1"
      "cap s \<le> cap s1 + cost" "same_regs s s1"
      "\<forall>w. trans s1 root w = (if PATH w = PATH ?vk then Some (pp + PAGE_OFFSET w) else trans s root w)"
    using step [OF Suc.prems(1) k(2,1)] by blast
  have c1: "cost * c \<le> cap s1" "Suc k + c \<le> n" using Suc.prems 1(5) by auto
  obtain pps s2 U2 where 2: "each_page h c (of_nat (Suc k)) s1 = Some (True, s2)" "vm S s2 root U2" "same_regs s1 s2"
      "length pps = c" "chain R (Suc k) pps U1 U2"
      "\<forall>j<c. \<forall>w. PATH w = PATH (v + of_nat (Suc k + j) * PAGE_SIZE) \<longrightarrow> trans s2 root w = Some (pps ! j + PAGE_OFFSET w)"
      "\<forall>w. (\<forall>j<c. PATH w \<noteq> PATH (v + of_nat (Suc k + j) * PAGE_SIZE)) \<longrightarrow> trans s2 root w = trans s1 root w"
    using Suc.IH [OF 1(2) c1] by blast
  have run: "each_page h (Suc c) (of_nat k) s = Some (True, s2)"
    using 1(1) 2(1) nonnull [OF k(1)] by (simp add: add.commute)
  have other: "PATH ?vk \<noteq> PATH (v + of_nat (Suc k + j) * PAGE_SIZE)" if "j < c" for j
  proof
    assume "PATH ?vk = PATH (v + of_nat (Suc k + j) * PAGE_SIZE)"
    moreover have "k < 2 ^ 36" "Suc k + j < 2 ^ 36" using c1(2) that range by auto
    ultimately have "k = Suc k + j" by (intro PATH_inj)
    then show False by simp
  qed
  have "trans s2 root w = Some ((pp # pps) ! j + PAGE_OFFSET w)"
    if "j < Suc c" "PATH w = PATH (v + of_nat (k + j) * PAGE_SIZE)" for j w
  proof (cases j)
    case 0
    then have w: "PATH w = PATH ?vk" using that(2) by simp
    then have "trans s2 root w = trans s1 root w" using 2(7) other by metis
    then show ?thesis using 1(7) w 0 by simp
  next
    case (Suc i)
    then show ?thesis using 2(6) that by simp
  qed
  moreover have "trans s2 root w = trans s root w" if h: "\<forall>j<Suc c. PATH w \<noteq> PATH (v + of_nat (k + j) * PAGE_SIZE)" for w
  proof -
    have "PATH w \<noteq> PATH (v + of_nat (Suc k + j) * PAGE_SIZE)" if "j < c" for j
      using h [rule_format, of "Suc j"] that by simp
    moreover have "PATH w \<noteq> PATH ?vk" using h [rule_format, of 0] by simp
    ultimately show ?thesis using 2(7) 1(7) by simp
  qed
  moreover have "chain R k (pp # pps) U U2" using 1(3,4) 2(5) by auto
  moreover have "same_regs s s2" using same_regs_trans [OF 1(6) 2(3)] .
  ultimately show ?case using run 2(2,4) by (intro exI [of _ "pp # pps"] exI [of _ s2] exI [of _ U2]) simp
qed

end

definition range_ok :: "u64 \<Rightarrow> u64 \<Rightarrow> nat \<Rightarrow> bool" where
  "range_ok v flags n \<longleftrightarrow> flags_ok flags \<and> (\<forall>k<n. v + of_nat k * PAGE_SIZE \<noteq> 0) \<and> n \<le> 2 ^ 36"

definition frames_ok :: "u64 \<Rightarrow> nat \<Rightarrow> bool" where
  "frames_ok pp n \<longleftrightarrow> (\<forall>k<n. frame_addr (pp + of_nat k * PAGE_SIZE))"

interpretation ident: page_mapper S root v "\<lambda>d s. videntityHelper (v + d) (pp + d) root flags s" 3
    "if range_ok v flags n \<and> frames_ok pp n then n else 0" "\<lambda>k q U U'. q = pp + of_nat k * PAGE_SIZE"
  for S root v pp flags n
proof
  fix s U k
  assume a: "vm S s root U" "3 \<le> cap s" "k < (if range_ok v flags n \<and> frames_ok pp n then n else 0)"
  then have "flags_ok flags" "frame_addr (pp + of_nat k * PAGE_SIZE)" by (auto simp: range_ok_def frames_ok_def split: if_splits)
  from videntityHelper_ok [OF a(1) this(1) a(2) this(2)]
  show "\<exists>q s' U'. videntityHelper (v + of_nat k * PAGE_SIZE) (pp + of_nat k * PAGE_SIZE) root flags s = Some (v + of_nat k * PAGE_SIZE, s') \<and>
        vm S s' root U' \<and> U' \<subseteq> U \<and> q = pp + of_nat k * PAGE_SIZE \<and> cap s \<le> cap s' + 3 \<and> same_regs s s' \<and>
        (\<forall>w. trans s' root w = (if PATH w = PATH (v + of_nat k * PAGE_SIZE) then Some (q + PAGE_OFFSET w) else trans s root w))"
    by blast
qed (auto simp: range_ok_def split: if_splits)

interpretation fresh: page_mapper S root v "\<lambda>d s. vmallocHelper (v + d) root flags s" 4
    "if range_ok v flags n then n else 0" "\<lambda>k q U U'. \<exists>p. q = page_addr p \<and> p \<in> U \<and> U' \<subseteq> U - {p}"
  for S root v flags n
proof
  fix s U k
  assume a: "vm S s root U" "4 \<le> cap s" "k < (if range_ok v flags n then n else 0)"
  then have fl: "flags_ok flags" by (auto simp: range_ok_def split: if_splits)
  obtain p s' U' where "vmallocHelper (v + of_nat k * PAGE_SIZE) root flags s = Some (v + of_nat k * PAGE_SIZE, s')"
      "vm S s' root U'" "U' \<subseteq> U - {p}" "p \<in> U" "cap s \<le> cap s' + 4" "same_regs s s'"
      "\<forall>w. trans s' root w = (if PATH w = PATH (v + of_nat k * PAGE_SIZE) then Some (page_addr p + PAGE_OFFSET w) else trans s root w)"
    using vmallocHelper_ok [OF a(1) fl a(2)] by blast
  then show "\<exists>q s' U'. vmallocHelper (v + of_nat k * PAGE_SIZE) root flags s = Some (v + of_nat k * PAGE_SIZE, s') \<and>
        vm S s' root U' \<and> U' \<subseteq> U \<and> (\<exists>p. q = page_addr p \<and> p \<in> U \<and> U' \<subseteq> U - {p}) \<and> cap s \<le> cap s' + 4 \<and> same_regs s s' \<and>
        (\<forall>w. trans s' root w = (if PATH w = PATH (v + of_nat k * PAGE_SIZE) then Some (q + PAGE_OFFSET w) else trans s root w))"
    by (intro exI [of _ "page_addr p"] exI [of _ s'] exI [of _ U']) auto
qed (auto simp: range_ok_def split: if_splits)

lemma ident_chain: "chain (\<lambda>k q U U'. q = pp + of_nat k * PAGE_SIZE) k qs U U' \<Longrightarrow> j < length qs \<Longrightarrow> qs ! j = pp + of_nat (k + j) * PAGE_SIZE"
proof (induction qs arbitrary: k U j)
  case (Cons q qs)
  show ?case
  proof (cases j)
    case 0
    then show ?thesis using Cons.prems(1) by auto
  next
    case (Suc i)
    obtain U1 where "chain (\<lambda>k q U U'. q = pp + of_nat k * PAGE_SIZE) (Suc k) qs U1 U'" using Cons.prems(1) by auto
    from Cons.IH [OF this, of i] Cons.prems(2) Suc show ?thesis by simp
  qed
qed simp

lemma fresh_chain:
  "chain (\<lambda>k q U U'. \<exists>p. q = page_addr p \<and> p \<in> U \<and> U' \<subseteq> U - {p}) k qs U U' \<Longrightarrow>
   \<exists>ps. qs = map page_addr ps \<and> distinct ps \<and> set ps \<subseteq> U - U'"
proof (induction qs arbitrary: k U)
  case Nil
  then show ?case by simp
next
  case (Cons q qs)
  then obtain p U1 where p: "q = page_addr p" "p \<in> U" "U1 \<subseteq> U - {p}" "chain (\<lambda>k q U U'. \<exists>p. q = page_addr p \<and> p \<in> U \<and> U' \<subseteq> U - {p}) (Suc k) qs U1 U'"
    by auto
  obtain ps where ps: "qs = map page_addr ps" "distinct ps" "set ps \<subseteq> U1 - U'" using Cons.IH [OF p(4)] by blast
  have "p \<notin> set ps" "p \<notin> U'" using ps(3) p(3) chain_subset [OF p(4)] by auto
  with ps p show ?case by (intro exI [of _ "p # ps"]) auto
qed

lemma vm_regs [simp]:
  "vm S (s\<lparr>plock := x\<rparr>) root U = vm S s root U" "vm S (s\<lparr>cr3 := y\<rparr>) root U = vm S s root U"
  "cap (s\<lparr>plock := x\<rparr>) = cap s" "cap (s\<lparr>cr3 := y\<rparr>) = cap s"
  by (simp_all add: vm_def vm_tree_def blank_tails_def avail_def cap_def)

lemma cr3_flush: "pagingGetCR3 (pagingFlushTLB s) = pagingGetCR3 s"
  by (simp add: pagingFlushTLB_def pagingGetCR3_def pagingSetCR3_def)

definition loaded :: "paging \<Rightarrow> u64 \<Rightarrow> bool" where
  "loaded s root \<longleftrightarrow> plock s = 0 \<and> pagingGetCR3 s = root"

section \<open>A concrete address space\<close>

text \<open>
  The memory manager as it is after booting the example memory map, a pool filled with the pages 300
  to 362, which that map does not list as usable, and an empty root table in page 400. The first word of
  the page 300 is left over from an earlier use.
\<close>

definition demo_root :: u64 where
  "demo_root = page_addr 400 + page_direct_base"

definition demo :: "pmm \<Rightarrow> paging" where
  "demo f = \<lparr>frames = f\<lparr>pm := (\<lambda>a. if a \<in> bitmap_cells 64 (bitmap_base f) then pm f a else if a = first_cell 300 then Some 7 else Some 0)\<rparr>,
     bulk_alloc_ptrs = map page_addr [300..<364], curr = 0, cr3 = page_addr 400, bsp_cr3 = 0, plock = 0\<rparr>"

lemma boot_free_small: "p \<in> boot_free \<Longrightarrow> p < 256"
proof -
  assume "p \<in> boot_free"
  then have p: "p < 512" "(ucast (status_in (shifted_entries boot_map) (of_nat p)) :: u8) = 0" by (auto simp: boot_free_def)
  then have "of_nat p < (256 :: u64)"
    unfolding boot_shifted by (auto simp: PAGE_SIZE_def LIMINE_MEMMAP_RESERVED_def split: if_splits)
  then show ?thesis using p(1) by (simp add: word_less_nat_alt unat_of_nat)
qed

lemma high_cells:
  assumes "p < 512" "a \<in> page_cells p"
  shows "0xFFFF800000000000 \<le> unat a"
proof -
  obtain k where k: "k < 512" "a = page_direct_base + of_nat (p * 4096 + k * 8)"
    using assms(2) unfolding page_cells_def table_cells_def page_cell_eq by blast
  have "unat a = unat page_direct_base + (p * 4096 + k * 8)"
    using assms(1) k by (simp add: unat_word_ariths unat_of_nat page_direct_base_def)
  then show ?thesis by (simp add: page_direct_base_def)
qed

lemma low_cells: "a \<in> bitmap_cells 64 0x1000 \<Longrightarrow> unat a < 0x2000"
proof -
  assume "a \<in> bitmap_cells 64 0x1000"
  then obtain k where k: "k < 127" "a = cell_of (0x1000 + of_nat k)" unfolding bitmap_cells_def boot_off by blast
  have "cell_of x \<le> x" for x by (simp add: cell_of_def word_and_le2)
  then have "unat a \<le> unat (0x1000 + of_nat k :: u64)" using k(2) by (simp add: word_le_nat_alt)
  also have "\<dots> = 0x1000 + k" using k(1) by (simp add: unat_word_ariths unat_of_nat)
  finally show ?thesis using k(1) by simp
qed

lemma cells_apart: "p < 512 \<Longrightarrow> page_cells p \<inter> bitmap_cells 64 0x1000 = {}"
  using high_cells [of p] low_cells by fastforce

lemma empty_root_slot:
  assumes "\<forall>i<512. m (t + i * 8) = Some 0" "path_ok p"
  shows "slot m t p = (if length p = 1 then Some (t + hd p * 8) else None)"
  using assms by (cases "(m, t, p)" rule: slot.cases) (auto simp: path_ok_def)

lemma demo_vm:
  "\<exists>f. page_inv 64 f boot_free \<and> vm_tree 64 (demo f) demo_root (boot_free \<union> {300..<363}) \<and>
     blank_tails (demo f) (boot_free \<union> {300..<363}) \<and> loaded (demo f) demo_root \<and> 63 \<le> cap (demo f)"
proof -
  have "boot_map \<noteq> []" "0 < length boot_map" "mbase (boot_map ! 0) = 0x1000" by (simp_all add: boot_map_def)
  then obtain f where f: "page_inv 64 f boot_free" "bitmap_base f = 0x1000"
    using initPMM_ok [of boot_map 64 0 boot_mem] by (auto simp: boot_bytes boot_entry boot_free_def boot_region)
  let ?m = "pm (frames (demo f))"
  have mz: "?m a = Some 0" if "a \<in> page_cells p" "p < 512" "a \<noteq> first_cell p" for a p
  proof -
    have "a \<noteq> first_cell 300" using page_cells_disjoint [of p 300] first_cell_in [of 300] that by (cases "p = 300") auto
    then show ?thesis using cells_apart [OF that(2)] that(1) f(2) by (auto simp: demo_def)
  qed
  have mf: "?m (first_cell p) \<noteq> None" if "p < 512" for p
    using cells_apart [OF that] first_cell_in [of p] f(2) by (auto simp: demo_def)
  have m4: "?m a = Some 0" if "a \<in> page_cells 400" for a
    using page_cells_disjoint [of 300 400] first_cell_in [of 300] cells_apart [of 400] that f(2) by (auto simp: demo_def)
  have root0: "\<forall>i<512. ?m (demo_root + i * 8) = Some 0"
    using m4 table_cell by (simp add: page_cells_def demo_root_def)
  note sl = empty_root_slot [OF root0]
  have sub: "slots ?m demo_root \<subseteq> page_cells 400"
  proof
    fix a assume "a \<in> slots ?m demo_root"
    then obtain p where p: "path_ok p" "slot ?m demo_root p = Some a" by (auto simp: slots_def)
    then have "a = demo_root + hd p * 8" using sl [OF p(1)] by (simp split: if_splits)
    moreover have "hd p < 512" using p(1) by (simp add: path_ok_def)
    ultimately show "a \<in> page_cells 400" using table_cell by (simp add: page_cells_def demo_root_def)
  qed
  have wf: "tables_wf ?m demo_root" unfolding tables_wf_def
  proof (intro conjI allI impI)
    fix p a assume "path_ok p" "slot ?m demo_root p = Some a"
    then have "a \<in> page_cells 400" using sub slot_in by blast
    then show "\<exists>e. ?m a = Some e \<and> (length p < 4 \<longrightarrow> table_entry_ok e)" using m4 [of a] by (simp add: table_entry_ok_def)
  next
    fix p q a assume h: "path_ok p" "path_ok q" "slot ?m demo_root p = Some a" "slot ?m demo_root q = Some a"
    then have "length p = 1" "length q = 1" "demo_root + hd p * 8 = demo_root + hd q * 8" using sl by (auto split: if_splits)
    then obtain i j where ij: "p = [i]" "q = [j]" "demo_root + i * 8 = demo_root + j * 8" by (auto simp: length_Suc_conv)
    then have "i = j" using inj_onD [OF index_inj [of demo_root], of i j] h by (simp add: path_ok_def)
    then show "p = q" using ij by simp
  qed
  have av: "avail 64 (demo f) (boot_free \<union> set [300..<363])"
  proof (rule availI)
    show "page_inv 64 (frames (demo f)) boot_free" unfolding demo_def using page_inv_cong [OF f(1)] by simp
    show "0 \<notin> boot_free" by (rule boot_pages(1))
    show "set [300..<363] \<inter> boot_free = {}" using boot_free_small by fastforce
    show "bulk_alloc_ptrs (demo f) ! (unat (curr (demo f)) + k) = page_addr ([300..<363] ! k)" if "k < length [300..<363]" for k
      using that by (simp add: demo_def del: upt_rec_numeral)
  qed (simp_all add: demo_def del: upt_rec_numeral)
  have U: "p < 512 \<and> p \<noteq> 400" if "p \<in> boot_free \<union> {300..<363}" for p using that boot_free_small by fastforce
  have "vm_tree 64 (demo f) demo_root (boot_free \<union> {300..<363})"
    unfolding vm_tree_def
  proof (intro conjI ballI)
    show "avail 64 (demo f) (boot_free \<union> {300..<363})" using av unfolding set_upt .
    show "slots ?m demo_root \<inter> bitmap_cells 64 (bitmap_base (frames (demo f))) = {}"
      using sub cells_apart [of 400] f(2) by (auto simp: demo_def)
    fix p assume "p \<in> boot_free \<union> {300..<363}"
    then have p: "p < 512" "p \<noteq> 400" using U by blast+
    have "page_cells p \<inter> page_cells 400 = {}" using page_cells_disjoint [of p 400] p by simp
    then show "page_cells p \<inter> slots ?m demo_root = {}" using sub by blast
    show "page_cells p \<inter> bitmap_cells 64 (bitmap_base (frames (demo f))) = {}" using cells_apart [OF p(1)] f(2) by (simp add: demo_def)
    show "?m (first_cell p) \<noteq> None" by (rule mf [OF p(1)])
  qed (rule wf)
  moreover have "blank_tails (demo f) (boot_free \<union> {300..<363})" unfolding blank_tails_def using mz U by blast
  moreover have "page_addr 400 AND NOT 0xFFF = page_addr 400" by (simp add: page_addr_def)
  then have "loaded (demo f) demo_root" by (simp add: loaded_def demo_def pagingGetCR3_def demo_root_def)
  moreover have "63 \<le> cap (demo f)" by (simp add: cap_def demo_def)
  ultimately show ?thesis using f(1) by blast
qed

lemma demo_range: "range_ok 0x400000 3 2" "frames_ok 0xFEC00000 2"
  by (auto simp: range_ok_def frames_ok_def flags_ok_def frame_addr_def PAGE_SIZE_def less_2_cases_iff)

section \<open>Properties\<close>

text \<open>
  C5: on an unlocked address space with enough pages in the pool, \<^verbatim>\<open>vmalloc\<close> returns,
  maps the \<open>n\<close> pages of the range to \<open>n\<close> distinct frames that were free and no longer are, leaves the
  translation of every other address as it was, and releases the lock. The pages of the pool and of the physical memory
  manager are assumed to be zero in their entries 1 to 511 (\<open>blank_tails\<close>): \<^verbatim>\<open>pagingAllocTable\<close> clears only the entry 0 of a page
  that becomes a table, whatever it held, and no code clears the rest; on pages that do not meet the assumption the
  translation of other addresses can change.
\<close>
theorem vmalloc_correct:
  assumes "vm_tree S s root U" and "blank_tails s U" and "loaded s root" and "range_ok v flags n" and "4 * n \<le> cap s"
  shows "\<exists>s' U' ps. vmalloc v (of_nat n) flags s = Some (v, s') \<and> vm_tree S s' root U' \<and> blank_tails s' U' \<and> loaded s' root \<and>
     length ps = n \<and> distinct ps \<and> set ps \<subseteq> U - U' \<and>
     (\<forall>j<n. \<forall>w. PATH w = PATH (v + of_nat j * PAGE_SIZE) \<longrightarrow> trans s' root w = Some (page_addr (ps ! j) + PAGE_OFFSET w)) \<and>
     (\<forall>w. (\<forall>j<n. PATH w \<noteq> PATH (v + of_nat j * PAGE_SIZE)) \<longrightarrow> trans s' root w = trans s root w)"
proof -
  let ?s = "s\<lparr>plock := 1\<rparr>"
  have v1: "vm S ?s root U" and l: "lock_paging s = Some ?s" "pagingGetCR3 ?s = root"
    using assms(1-3) vm_def [of S s root U] by (simp_all add: lock_paging_def spinLock_def xchg_8_def loaded_def pagingGetCR3_def)
  have c: "4 * n \<le> cap ?s" "0 + n \<le> (if range_ok v flags n then n else 0)" using assms(4,5) by simp_all
  obtain qs s1 U' where 1: "each_page (\<lambda>d s. vmallocHelper (v + d) root flags s) n 0 ?s = Some (True, s1)" "vm S s1 root U'"
      "same_regs ?s s1" "length qs = n" "chain (\<lambda>k q U U'. \<exists>p. q = page_addr p \<and> p \<in> U \<and> U' \<subseteq> U - {p}) 0 qs U U'"
      "\<forall>j<n. \<forall>w. PATH w = PATH (v + of_nat j * PAGE_SIZE) \<longrightarrow> trans s1 root w = Some (qs ! j + PAGE_OFFSET w)"
      "\<forall>w. (\<forall>j<n. PATH w \<noteq> PATH (v + of_nat j * PAGE_SIZE)) \<longrightarrow> trans s1 root w = trans ?s root w"
    using fresh.loop [OF v1 c] by auto
  obtain ps where ps: "qs = map page_addr ps" "distinct ps" "set ps \<subseteq> U - U'" using fresh_chain [OF 1(5)] by blast
  have "n < 2 ^ 64" using assms(4) by (simp add: range_ok_def)
  then have un: "unat (of_nat n :: u64) = n" by (simp add: unat_of_nat)
  let ?s' = "pagingFlushTLB (unlock_paging s1)"
  have "vmalloc v (of_nat n) flags s = Some (v, ?s')" using l 1(1) un by (simp add: vmalloc_def)
  moreover have "vm S ?s' root U'" "trans ?s' = trans s1"
    using 1(2) by (simp_all add: pagingFlushTLB_def pagingSetCR3_def unlock_paging_def)
  moreover have "loaded ?s' root"
    using 1(3) l(2) unfolding loaded_def cr3_flush
    by (simp add: pagingFlushTLB_def pagingSetCR3_def unlock_paging_def spinUnlock_def same_regs_def pagingGetCR3_def)
  ultimately show ?thesis using 1(4,6,7) ps unfolding vm_def by (intro exI [of _ ?s'] exI [of _ U'] exI [of _ ps]) auto
qed

theorem vmalloc_correct_witness:
  "\<exists>f s' U' ps. pm (frames (demo f)) (first_cell 300) = Some 7 \<and> vmalloc 0x400000 2 3 (demo f) = Some (0x400000, s') \<and> vm_tree 64 s' demo_root U' \<and>
     length ps = 2 \<and> distinct ps \<and> trans s' demo_root 0x401008 = Some (page_addr (ps ! 1) + 8) \<and>
     trans s' demo_root 0x800000 = trans (demo f) demo_root 0x800000"
proof -
  obtain f where f: "vm_tree 64 (demo f) demo_root (boot_free \<union> {300..<363})" "blank_tails (demo f) (boot_free \<union> {300..<363})"
      "loaded (demo f) demo_root" "63 \<le> cap (demo f)"
    using demo_vm by blast
  have w: "PATH 0x401008 = PATH (0x400000 + of_nat 1 * PAGE_SIZE)" "PAGE_OFFSET 0x401008 = 8"
    "\<forall>j<2. PATH 0x800000 \<noteq> PATH (0x400000 + of_nat j * PAGE_SIZE)"
    by (auto simp: PATH_def PAGE_P1E_def PAGE_P2E_def PAGE_P3E_def PAGE_P4E_def PAGE_OFFSET_def PAGE_SIZE_def less_2_cases_iff)
  have "page_cells 300 \<inter> bitmap_cells 64 (bitmap_base (frames (demo f))) = {}" using vm_tree_D(5) [OF f(1), of 300] by simp
  then have "pm (frames (demo f)) (first_cell 300) = Some 7" using first_cell_in [of 300] by (auto simp: demo_def)
  moreover obtain s' U' ps where r: "vmalloc 0x400000 (of_nat 2) 3 (demo f) = Some (0x400000, s')" "vm_tree 64 s' demo_root U'" "length ps = 2" "distinct ps"
      "\<forall>j<2. \<forall>w. PATH w = PATH (0x400000 + of_nat j * PAGE_SIZE) \<longrightarrow> trans s' demo_root w = Some (page_addr (ps ! j) + PAGE_OFFSET w)"
      "\<forall>w. (\<forall>j<2. PATH w \<noteq> PATH (0x400000 + of_nat j * PAGE_SIZE)) \<longrightarrow> trans s' demo_root w = trans (demo f) demo_root w"
    using vmalloc_correct [OF f(1,2,3) demo_range(1)] f(4) by auto
  ultimately show ?thesis using r(5) [rule_format, of 1, OF _ w(1)] r(6) [rule_format, OF w(3) [rule_format]] w(2) by fastforce
qed

text \<open>
  On an unlocked address space with enough pages in the pool, \<^verbatim>\<open>videntity\<close> returns,
  maps page \<open>j\<close> of the range to frame \<open>pp + j\<close> pages for every page of the range, leaves the
  translation of every other address as it was, and releases the lock.
\<close>
theorem videntity_correct:
  assumes "vm S s root U" and "loaded s root" and "range_ok v flags n" and "frames_ok pp n" and "3 * n \<le> cap s"
  shows "\<exists>s' U'. videntity v pp (of_nat n) flags s = Some (v, s') \<and> vm S s' root U' \<and> U' \<subseteq> U \<and> loaded s' root \<and>
     (\<forall>j<n. \<forall>w. PATH w = PATH (v + of_nat j * PAGE_SIZE) \<longrightarrow>
        trans s' root w = Some (pp + of_nat j * PAGE_SIZE + PAGE_OFFSET w)) \<and>
     (\<forall>w. (\<forall>j<n. PATH w \<noteq> PATH (v + of_nat j * PAGE_SIZE)) \<longrightarrow> trans s' root w = trans s root w)"
proof -
  let ?s = "s\<lparr>plock := 1\<rparr>"
  have v1: "vm S ?s root U" and l: "lock_paging s = Some ?s" "pagingGetCR3 ?s = root"
    using assms(1,2) by (simp_all add: lock_paging_def spinLock_def xchg_8_def loaded_def pagingGetCR3_def)
  have c: "3 * n \<le> cap ?s" "0 + n \<le> (if range_ok v flags n \<and> frames_ok pp n then n else 0)" using assms(3-5) by simp_all
  obtain qs s1 U' where 1: "each_page (\<lambda>d s. videntityHelper (v + d) (pp + d) root flags s) n 0 ?s = Some (True, s1)" "vm S s1 root U'"
      "same_regs ?s s1" "length qs = n" "chain (\<lambda>k q U U'. q = pp + of_nat k * PAGE_SIZE) 0 qs U U'"
      "\<forall>j<n. \<forall>w. PATH w = PATH (v + of_nat j * PAGE_SIZE) \<longrightarrow> trans s1 root w = Some (qs ! j + PAGE_OFFSET w)"
      "\<forall>w. (\<forall>j<n. PATH w \<noteq> PATH (v + of_nat j * PAGE_SIZE)) \<longrightarrow> trans s1 root w = trans ?s root w"
    using ident.loop [OF v1 c] by auto
  have "n < 2 ^ 64" using assms(3) by (simp add: range_ok_def)
  then have un: "unat (of_nat n :: u64) = n" by (simp add: unat_of_nat)
  let ?s' = "pagingFlushTLB (unlock_paging s1)"
  have "videntity v pp (of_nat n) flags s = Some (v, ?s')" using l 1(1) un by (simp add: videntity_def)
  moreover have "vm S ?s' root U'" "trans ?s' = trans s1"
    using 1(2) by (simp_all add: pagingFlushTLB_def pagingSetCR3_def unlock_paging_def)
  moreover have "loaded ?s' root"
    using 1(3) l(2) unfolding loaded_def cr3_flush
    by (simp add: pagingFlushTLB_def pagingSetCR3_def unlock_paging_def spinUnlock_def same_regs_def pagingGetCR3_def)
  moreover have "U' \<subseteq> U" using chain_subset [OF 1(5)] .
  moreover have "qs ! j = pp + of_nat j * PAGE_SIZE" if "j < n" for j using ident_chain [OF 1(5), of j] that 1(4) by simp
  ultimately show ?thesis using 1(6,7) by (intro exI [of _ ?s'] exI [of _ U']) auto
qed

theorem videntity_correct_witness:
  "\<exists>f s' U'. videntity 0x400000 0xFEC00000 2 3 (demo f) = Some (0x400000, s') \<and> vm 64 s' demo_root U' \<and>
     trans s' demo_root 0x401008 = Some 0xFEC01008"
proof -
  obtain f where f: "vm 64 (demo f) demo_root (boot_free \<union> {300..<363})" "loaded (demo f) demo_root" "63 \<le> cap (demo f)"
    using demo_vm unfolding vm_def by blast
  have w: "PATH 0x401008 = PATH (0x400000 + of_nat 1 * PAGE_SIZE)" "PAGE_OFFSET 0x401008 = 8"
    by (simp_all add: PATH_def PAGE_P1E_def PAGE_P2E_def PAGE_P3E_def PAGE_P4E_def PAGE_OFFSET_def PAGE_SIZE_def)
  obtain s' U' where r: "videntity 0x400000 0xFEC00000 (of_nat 2) 3 (demo f) = Some (0x400000, s')" "vm 64 s' demo_root U'"
      "\<forall>j<2. \<forall>w. PATH w = PATH (0x400000 + of_nat j * PAGE_SIZE) \<longrightarrow>
         trans s' demo_root w = Some (0xFEC00000 + of_nat j * PAGE_SIZE + PAGE_OFFSET w)"
    using videntity_correct [OF f(1,2) demo_range(1,2)] f(3) by auto
  from r(3) [rule_format, of 1, OF _ w(1)] r(1,2) w(2) show ?thesis by (auto simp: PAGE_SIZE_def)
qed

text \<open>
  Mapping a range that contains the null page leaves the lock taken: the
  function returns before the unlock, and every later mapping call spins forever.
\<close>
theorem videntity_null_deadlock:
  assumes "vm S s root U" and "loaded s root" and "flags_ok flags" and "frame_addr pp" and "3 \<le> cap s" and "0 < pages"
  shows "\<exists>s'. videntity 0 pp pages flags s = Some (NULL, s') \<and> plock s' = 1 \<and>
     (\<forall>v q n fl. videntity v q n fl s' = None \<and> vmalloc v n fl s' = None)"
proof -
  let ?s = "s\<lparr>plock := 1\<rparr>"
  have v1: "vm S ?s root U" and l: "lock_paging s = Some ?s" "pagingGetCR3 ?s = root"
    using assms(1,2) by (simp_all add: lock_paging_def spinLock_def xchg_8_def loaded_def pagingGetCR3_def)
  have c: "3 \<le> cap ?s" using assms(5) by simp
  obtain s1 where 1: "videntityHelper 0 pp root flags ?s = Some (0, s1)" "same_regs ?s s1"
    using videntityHelper_ok [OF v1 assms(3) c assms(4), of 0] by blast
  obtain n where n: "unat pages = Suc n" using assms(6) by (cases "unat pages") (auto simp: word_less_nat_alt)
  have "videntity 0 pp pages flags s = Some (NULL, s1)" using l 1(1) n by (simp add: videntity_def)
  moreover have "plock s1 = 1" using 1(2) by (simp add: same_regs_def)
  ultimately show ?thesis by (auto simp: videntity_def vmalloc_def lock_paging_def spinLock_def xchg_8_def)
qed

theorem videntity_null_deadlock_witness:
  "\<exists>f s'. videntity 0 0xFEC00000 1 3 (demo f) = Some (NULL, s') \<and> vmalloc 0x400000 1 3 s' = None"
proof -
  obtain f where f: "vm 64 (demo f) demo_root (boot_free \<union> {300..<363})" "loaded (demo f) demo_root" "63 \<le> cap (demo f)"
    using demo_vm unfolding vm_def by blast
  have "flags_ok 3" "frame_addr 0xFEC00000" using demo_range by (auto simp: range_ok_def frames_ok_def frame_addr_def)
  with videntity_null_deadlock [OF f(1,2), of 3 "0xFEC00000" 1] f(3) show ?thesis by fastforce
qed

text \<open>
  C29: what a new page table holds. When the walk reaches an empty entry, it links a page that was free; of the 512 entries
  of that table only the first is cleared, whatever the page held before, and each of the other 511 is the word
  the page held before, taken for an entry.
\<close>
theorem new_table_contents:
  assumes v: "vm_tree S s root U" and t: "at_table (pm (frames s)) root pre t"
    and pre: "length pre < 3" "\<forall>i\<in>set pre. i < 512" "num < 512" and z: "pm (frames s) (t + num * 8) = Some 0"
    and fl: "flags_ok flags" and c: "0 < cap s"
  shows "\<exists>p\<in>U. \<exists>t' s'. next_table_alloc t num flags s = Some (t', s') \<and> entry (pm (frames s')) root (pre @ [num, 0]) = Some 0 \<and>
     (\<forall>i. 0 < i \<and> i < 512 \<longrightarrow> entry (pm (frames s')) root (pre @ [num, i]) = pm (frames s) (page_addr p + page_direct_base + i * 8))"
proof -
  note D = vm_tree_D [OF v]
  let ?m = "pm (frames s)" and ?a = "t + num * 8" and ?q = "pre @ [num]"
  have q: "path_ok ?q" using pre by (auto simp: path_ok_def)
  have sl: "slot ?m root ?q = Some ?a" using at_table_slot [OF t] .
  define ent where "ent p = (page_addr p AND NOT 0xFFF) OR flags" for p
  obtain p s1 where b: "next_table_alloc t num flags s =
        Some (table_of (ent p), s1\<lparr>frames := (frames s1)\<lparr>pm := (pm (frames s1))(first_cell p \<mapsto> 0, ?a \<mapsto> ent p)\<rparr>\<rparr>)" "p \<in> U"
      "\<forall>a. a \<notin> bitmap_cells S (bitmap_base (frames s)) \<longrightarrow> pm (frames s1) a = ?m a"
    using new_table_run [OF v q sl z c] unfolding ent_def by blast
  note f = entry_fields [OF page_addr_frame fl, of p, folded ent_def]
  have p40: "p < 2 ^ 40" using avail_page [OF D(1) b(2)] by blast
  have tab: "table_of (ent p) = first_cell p" using f(1) [OF p40] by (simp add: table_of_def first_cell_def)
  let ?m1 = "(pm (frames s1))(first_cell p \<mapsto> 0)" and ?m2 = "(pm (frames s1))(first_cell p \<mapsto> 0, ?a \<mapsto> ent p)"
  have agree: "\<forall>a\<in>slots ?m root. ?m1 a = ?m a" using vm_bulk_trans [OF v b(3)] D(4) [OF b(2)] first_cell_in [of p] by auto
  note ag = slots_agree [where m' = ?m1, OF agree]
  have "slot ?m2 root ?q = slot ?m1 root ?q"
  proof (rule slot_upd)
    fix n assume n: "0 < n" "n < length ?q"
    then have ne: "take n ?q \<noteq> ?q" by (simp only: take_all_iff)
    have "slot ?m1 root ?q = Some ?a" using ag(1) [OF q] sl by (rule trans)
    then show "slot ?m1 root (take n ?q) \<noteq> Some ?a"
      using wf_inj [OF ag(4) [OF D(2)] path_ok_take [OF q n(1)] q] ne by blast
  qed
  then have "entry ?m2 root ?q = Some (ent p)" using ag(1) [OF q] sl by (simp add: entry_def)
  then have ent2: "entry ?m2 root (pre @ [num, i]) = ?m2 (first_cell p + i * 8)" for i
    using slot_append [of ?q "[i]" ?m2 root] f(4) [OF p40] by (simp add: entry_def tab)
  have pa: "first_cell p + i * 8 \<noteq> ?a" "first_cell p + i * 8 \<in> page_cells p" if "i < 512" for i
    using table_cell [OF that, of "first_cell p"] slot_in [OF q sl] D(4) [OF b(2)] by (auto simp: page_cells_def first_cell_def)
  have cell: "?m2 (first_cell p + i * 8) = (if i = 0 then Some 0 else ?m (first_cell p + i * 8))" if "i < 512" for i
    using pa [OF that] inj_onD [OF index_inj [of "first_cell p"], of i 0] that b(3) D(5) [OF b(2)] by auto
  note both = trans [OF ent2 cell]
  have "entry ?m2 root (pre @ [num, 0]) = Some 0" using both [of 0] by simp
  moreover have "\<forall>i. 0 < i \<and> i < 512 \<longrightarrow> entry ?m2 root (pre @ [num, i]) = ?m (page_addr p + page_direct_base + i * 8)"
    using both by (simp add: first_cell_def)
  ultimately show ?thesis
    using b(1) by (intro bexI [OF _ b(2)] exI [of _ "table_of (ent p)"] exI [of _ "s1\<lparr>frames := (frames s1)\<lparr>pm := ?m2\<rparr>\<rparr>"]) simp
qed

theorem new_table_contents_witness:
  "\<exists>f p t' s'. p \<in> boot_free \<union> {300..<363} \<and> next_table_alloc demo_root 1 3 (demo f) = Some (t', s') \<and> entry (pm (frames s')) demo_root [1, 0] = Some 0 \<and>
     entry (pm (frames s')) demo_root [1, 5] = pm (frames (demo f)) (page_addr p + page_direct_base + 40)"
proof -
  obtain f where f: "vm_tree 64 (demo f) demo_root (boot_free \<union> {300..<363})" "63 \<le> cap (demo f)" using demo_vm by blast
  have "demo_root + 1 * 8 \<in> page_cells 400" "demo_root + 1 * 8 \<noteq> first_cell 300"
    using table_cell [of 1 demo_root] page_cells_disjoint [of 300 400] first_cell_in [of 300] by (auto simp: page_cells_def demo_root_def)
  moreover have "demo_root + 1 * 8 \<notin> bitmap_cells 64 (bitmap_base (frames (demo f)))"
    using vm_tree_D(3) [OF f(1)] slot_in [of "[1]" "pm (frames (demo f))" demo_root] by (auto simp: path_ok_def)
  ultimately have "pm (frames (demo f)) (demo_root + 1 * 8) = Some 0" by (simp add: demo_def)
  moreover have "at_table (pm (frames (demo f))) demo_root [] demo_root" "flags_ok 3" "0 < cap (demo f)"
    using f(2) demo_range(1) by (simp_all add: at_table_def range_ok_def)
  ultimately have "\<exists>p\<in>boot_free \<union> {300..<363}. \<exists>t' s'. next_table_alloc demo_root 1 3 (demo f) = Some (t', s') \<and>
      entry (pm (frames s')) demo_root ([] @ [1, 0]) = Some 0 \<and>
      (\<forall>i. 0 < i \<and> i < 512 \<longrightarrow> entry (pm (frames s')) demo_root ([] @ [1, i]) = pm (frames (demo f)) (page_addr p + page_direct_base + i * 8))"
    by (intro new_table_contents [OF f(1)]) simp_all
  then obtain p t' s' where "p \<in> boot_free \<union> {300..<363}" "next_table_alloc demo_root 1 3 (demo f) = Some (t', s')"
      "entry (pm (frames s')) demo_root ([] @ [1, 0]) = Some 0"
      "\<forall>i. 0 < i \<and> i < 512 \<longrightarrow> entry (pm (frames s')) demo_root ([] @ [1, i]) = pm (frames (demo f)) (page_addr p + page_direct_base + i * 8)"
    by blast
  moreover from this(4) have "entry (pm (frames s')) demo_root [1, 5] = pm (frames (demo f)) (page_addr p + page_direct_base + 40)"
    by (auto dest: spec [of _ 5])
  ultimately show ?thesis by (intro exI [of _ f] exI [of _ p] exI [of _ t'] exI [of _ s']) simp
qed

end
