(* ===== verification/Heap.thy ===== *)
theory Heap
  imports Paging Linked_List CString
begin

text \<open>
  The kernel heap: \<^verbatim>\<open>mm/heap/memlib.c\<close> (the break of a fixed region) and \<^verbatim>\<open>mm/heap/heap.c\<close> (blocks
  with boundary tags, twelve segregated free lists threaded through the free blocks, a lock). A tag is
  one 8-byte cell, the size in words in its low 63 bits and the in-use bit on top; the free lists are
  the intrusive lists of \<open>Linked_List\<close>, in the same memory. \<^verbatim>\<open>size_t\<close> is \<open>u64\<close>, \<^verbatim>\<open>int\<close> is \<open>u32\<close> read as
  signed, and the conversions between them are written out.
\<close>

section \<open>The heap region\<close>

record heap =
  hmem :: mem
  mem_start_brk :: u64
  mem_brk :: u64
  mem_max_addr :: u64
  free_lists :: u64
  heap_listp :: u64
  hlock :: u8

definition MAX_HEAP :: u64 where "MAX_HEAP = push_bit 25 1"
definition ALIGNMENT :: u64 where "ALIGNMENT = 16"

definition initKernelHeapMem :: "paging \<Rightarrow> heap \<Rightarrow> (int \<times> paging \<times> heap) option" where
  "initKernelHeapMem pg s = do {
     (p, pg) \<leftarrow> vmalloc kheap_base (MAX_HEAP div PAGE_SIZE) (PAGE_FLAG_PRESENT OR PAGE_FLAG_READWRITE OR PAGE_FLAG_EXECDBLE) pg;
     let s = s\<lparr>mem_start_brk := p\<rparr> in
     if p = NULL then Some (-1, pg, s)
     else Some (0, pg, s\<lparr>mem_max_addr := p + MAX_HEAP, mem_brk := p\<rparr>) }"

definition mem_deinit :: "heap \<Rightarrow> paging \<Rightarrow> paging option" where
  "mem_deinit s pg = vfree (mem_start_brk s) (MAX_HEAP div PAGE_SIZE) True pg"

definition mem_sbrk :: "u32 \<Rightarrow> heap \<Rightarrow> u64 \<times> heap" where
  "mem_sbrk incr s =
     (if sint incr < 0 \<or> mem_brk s + scast incr > mem_max_addr s then (NULL, s)
      else (mem_brk s, s\<lparr>mem_brk := mem_brk s + scast incr\<rparr>))"

definition mem_reset_brk :: "heap \<Rightarrow> heap" where "mem_reset_brk s = s\<lparr>mem_brk := mem_start_brk s\<rparr>"
definition mem_heap_lo :: "heap \<Rightarrow> u64" where "mem_heap_lo s = mem_start_brk s"
definition mem_heap_hi :: "heap \<Rightarrow> u64" where "mem_heap_hi s = mem_brk s - 1"
definition mem_heapsize :: "heap \<Rightarrow> u64" where "mem_heapsize s = mem_brk s - mem_start_brk s"
definition mem_pagesize :: u64 where "mem_pagesize = PAGE_SIZE"

section \<open>Tags and blocks\<close>

definition tag_size :: "u64 \<Rightarrow> u64" where "tag_size t = t AND mask 63"
definition tag_inuse :: "u64 \<Rightarrow> bool" where "tag_inuse t = bit t 63"
definition put_inuse :: "u64 \<Rightarrow> u32 \<Rightarrow> u64" where "put_inuse t i = (t AND mask 63) OR push_bit 63 (ucast i)"
definition put_size :: "u64 \<Rightarrow> u32 \<Rightarrow> u64" where "put_size t n = (t AND push_bit 63 1) OR (scast n AND mask 63)"

definition FENCE :: u64 where "FENCE = push_bit 63 1"
definition WSIZE :: u64 where "WSIZE = 8"
definition MIN_BLOCK_SIZE_WORDS :: u64 where "MIN_BLOCK_SIZE_WORDS = 8"
definition CHUNKSIZE :: u64 where "CHUNKSIZE = 36"
definition NUM_LISTS :: nat where "NUM_LISTS = 12"

definition get_seg_index :: "u64 \<Rightarrow> nat" where
  "get_seg_index words =
     (if words \<le> 8 then 0 else if words \<le> 16 then 1 else if words \<le> 32 then 2 else if words \<le> 64 then 3
      else if words \<le> 128 then 4 else if words \<le> 256 then 5 else if words \<le> 512 then 6 else if words \<le> 1024 then 7
      else if words \<le> 2048 then 8 else if words \<le> 4096 then 9 else if words \<le> 8192 then 10 else 11)"

definition max_size :: "u64 \<Rightarrow> u64 \<Rightarrow> u64" where "max_size x y = (if x > y then x else y)"
definition align :: "u64 \<Rightarrow> u64" where "align sz = (sz + ALIGNMENT - 1) AND NOT (ALIGNMENT - 1)"

definition payload :: "u64 \<Rightarrow> u64" where "payload blk = blk + 8"
definition prev_blk_footer :: "u64 \<Rightarrow> u64" where "prev_blk_footer blk = blk - 8"

definition blk_free :: "mem \<Rightarrow> u64 \<Rightarrow> bool option" where
  "blk_free m blk = do { h \<leftarrow> ld64 m blk; Some (\<not> tag_inuse h) }"

definition blk_size :: "mem \<Rightarrow> u64 \<Rightarrow> u64 option" where
  "blk_size m blk = do { h \<leftarrow> ld64 m blk; Some (tag_size h) }"

definition prev_blk :: "mem \<Rightarrow> u64 \<Rightarrow> u64 option" where
  "prev_blk m blk = do { f \<leftarrow> ld64 m (prev_blk_footer blk); Some (blk - WSIZE * tag_size f) }"

definition next_blk :: "mem \<Rightarrow> u64 \<Rightarrow> u64 option" where
  "next_blk m blk = do { h \<leftarrow> ld64 m blk; Some (blk + WSIZE * tag_size h) }"

definition get_footer :: "mem \<Rightarrow> u64 \<Rightarrow> u64 option" where
  "get_footer m blk = do { h \<leftarrow> ld64 m blk; Some (blk + WSIZE * tag_size h - 8) }"

definition set_header_and_footer :: "mem \<Rightarrow> u64 \<Rightarrow> u32 \<Rightarrow> u32 \<Rightarrow> mem option" where
  "set_header_and_footer m blk sz inuse = do {
     h \<leftarrow> ld64 m blk; m \<leftarrow> st64 m blk (put_inuse h inuse);
     h \<leftarrow> ld64 m blk; m \<leftarrow> st64 m blk (put_size h sz);
     f \<leftarrow> get_footer m blk; h \<leftarrow> ld64 m blk; st64 m f h }"

definition mark_block_used :: "mem \<Rightarrow> u64 \<Rightarrow> u32 \<Rightarrow> mem option" where
  "mark_block_used m blk sz = set_header_and_footer m blk sz 1"

text \<open>The \<^verbatim>\<open>memmove\<close> of the local element \<^verbatim>\<open>tmp\<close>, both of whose links are NULL, to the start of the payload.\<close>
definition mark_block_free :: "mem \<Rightarrow> u64 \<Rightarrow> u32 \<Rightarrow> mem option" where
  "mark_block_free m blk sz = do {
     m \<leftarrow> set_header_and_footer m blk sz 0;
     m \<leftarrow> st64 m (elem_prev (payload blk)) NULL;
     st64 m (elem_next (payload blk)) NULL }"

definition get_seg_list :: "u64 \<Rightarrow> u64 \<Rightarrow> u64" where
  "get_seg_list fl words = fl + 32 * of_nat (get_seg_index words)"

text \<open>Putting a block on the list of its size: \<^verbatim>\<open>list_push_back(get_seg_list(blk->header.size), &blk->payload)\<close>.\<close>
definition push_free :: "u64 \<Rightarrow> mem \<Rightarrow> u64 \<Rightarrow> mem option" where
  "push_free fl m blk = do { n \<leftarrow> blk_size m blk; list_push_back m (get_seg_list fl n) (payload blk) }"

text \<open>\<^verbatim>\<open>list_remove(&blk->payload)\<close>, whose result is not used.\<close>
definition unlink :: "mem \<Rightarrow> u64 \<Rightarrow> mem option" where
  "unlink m blk = do { (_, m) \<leftarrow> list_remove m (payload blk); Some m }"

definition heap_coalesce :: "u64 \<Rightarrow> mem \<Rightarrow> u64 \<Rightarrow> (u64 \<times> mem) option" where
  "heap_coalesce fl m bp = do {
     pf \<leftarrow> ld64 m (prev_blk_footer bp);
     nb \<leftarrow> next_blk m bp;
     nfree \<leftarrow> blk_free m nb;
     sz \<leftarrow> blk_size m bp;
     if tag_inuse pf \<and> \<not> nfree then Some (bp, m)
     else do {
       (bp, m) \<leftarrow>
         (if tag_inuse pf \<and> nfree then do {
            m \<leftarrow> unlink m bp;
            nb \<leftarrow> next_blk m bp; m \<leftarrow> unlink m nb;
            nb \<leftarrow> next_blk m bp; nsz \<leftarrow> blk_size m nb;
            m \<leftarrow> mark_block_free m bp (ucast (sz + nsz)); Some (bp, m) }
          else if \<not> tag_inuse pf \<and> \<not> nfree then do {
            m \<leftarrow> unlink m bp;
            pb \<leftarrow> prev_blk m bp; m \<leftarrow> unlink m pb;
            bp \<leftarrow> prev_blk m bp; psz \<leftarrow> blk_size m bp;
            m \<leftarrow> mark_block_free m bp (ucast (sz + psz)); Some (bp, m) }
          else do {
            m \<leftarrow> unlink m bp;
            pb \<leftarrow> prev_blk m bp; m \<leftarrow> unlink m pb;
            nb \<leftarrow> next_blk m bp; m \<leftarrow> unlink m nb;
            pb \<leftarrow> prev_blk m bp; nb \<leftarrow> next_blk m bp; nsz \<leftarrow> blk_size m nb; psz \<leftarrow> blk_size m pb;
            m \<leftarrow> mark_block_free m pb (ucast (sz + nsz + psz));
            bp \<leftarrow> prev_blk m bp; Some (bp, m) });
       m \<leftarrow> push_free fl m bp;
       Some (bp, m) } }"

definition place :: "u64 \<Rightarrow> mem \<Rightarrow> u64 \<Rightarrow> u64 \<Rightarrow> mem option" where
  "place fl m bp asize = do {
     csize \<leftarrow> blk_size m bp;
     m \<leftarrow> unlink m bp;
     if csize - asize \<ge> MIN_BLOCK_SIZE_WORDS then do {
       m \<leftarrow> mark_block_used m bp (ucast asize);
       bp \<leftarrow> next_blk m bp;
       m \<leftarrow> mark_block_free m bp (ucast (csize - asize));
       push_free fl m bp }
     else mark_block_used m bp (ucast csize) }"

text \<open>The inner loop of \<^verbatim>\<open>find_fit\<close>; \<open>lim\<close> is \<^verbatim>\<open>11 - (i - idx)\<close>, and \<open>Some None\<close> says that the list has been left.\<close>
partial_function (option) fit_loop :: "mem \<Rightarrow> u64 \<Rightarrow> u64 \<Rightarrow> u64 \<Rightarrow> nat \<Rightarrow> nat \<Rightarrow> u64 option option" where
  "fit_loop m l elem asize lim j =
     (if elem = list_end l then Some None
      else do {
        n \<leftarrow> blk_size m (elem - 8);
        if n \<ge> asize then Some (Some (elem - 8))
        else if j > lim then Some None
        else do { elem \<leftarrow> list_next m elem; fit_loop m l elem asize lim (j + 1) } })"

declare fit_loop.simps [code]

primrec fit_lists :: "u64 \<Rightarrow> mem \<Rightarrow> u64 \<Rightarrow> nat \<Rightarrow> nat list \<Rightarrow> u64 option" where
  "fit_lists fl m asize idx [] = Some NULL"
| "fit_lists fl m asize idx (i # is) = do {
     e \<leftarrow> list_begin m (fl + 32 * of_nat i);
     r \<leftarrow> fit_loop m (fl + 32 * of_nat i) e asize (11 - (i - idx)) 0;
     (case r of Some blk \<Rightarrow> Some blk | None \<Rightarrow> fit_lists fl m asize idx is) }"

definition find_fit :: "u64 \<Rightarrow> mem \<Rightarrow> u64 \<Rightarrow> u64 option" where
  "find_fit fl m asize = fit_lists fl m asize (get_seg_index asize) [get_seg_index asize..<NUM_LISTS]"

section \<open>The heap operations\<close>

definition extend_heap :: "u64 \<Rightarrow> heap \<Rightarrow> (u64 \<times> heap) option" where
  "extend_heap words s = (case mem_sbrk (ucast (words * WSIZE)) s of (bp, s) \<Rightarrow>
     if bp = NULL then Some (NULL, s)
     else do {
       let blk = bp - 8;
       m \<leftarrow> mark_block_free (hmem s) blk (ucast words);
       m \<leftarrow> push_free (free_lists s) m blk;
       nb \<leftarrow> next_blk m blk;
       m \<leftarrow> st64 m nb FENCE;
       (bp, m) \<leftarrow> heap_coalesce (free_lists s) m blk;
       Some (bp, s\<lparr>hmem := m\<rparr>) })"

definition initKernelHeap :: "heap \<Rightarrow> (int \<times> heap) option" where
  "initKernelHeap s = (case mem_sbrk (4 * 8) s of (initial, s) \<Rightarrow>
     if initial = NULL then Some (-1, s)
     else do {
       m \<leftarrow> for_each (\<lambda>i m. list_init m (free_lists s + 32 * of_nat i)) [0..<NUM_LISTS] (hmem s);
       let s = s\<lparr>hlock := spinInit (hlock s)\<rparr>;
       m \<leftarrow> st64 m (initial + 2 * 8) FENCE;
       let s = s\<lparr>heap_listp := initial + 3 * 8\<rparr>;
       m \<leftarrow> st64 m (initial + 3 * 8) FENCE;
       (bp, s) \<leftarrow> extend_heap CHUNKSIZE (s\<lparr>hmem := m\<rparr>);
       Some (if bp = NULL then -1 else 0, s) })"

definition request_words :: "u64 \<Rightarrow> u64 option" where
  "request_words sz = (let bsize = align (sz + 2 * 8) in
     if bsize < sz then None else Some (max_size MIN_BLOCK_SIZE_WORDS (bsize div WSIZE)))"

definition kmalloc_unlocked :: "u64 \<Rightarrow> heap \<Rightarrow> (u64 \<times> heap) option" where
  "kmalloc_unlocked sz s =
     (if sz = 0 then Some (NULL, s)
      else case request_words sz of None \<Rightarrow> Some (NULL, s)
      | Some awords \<Rightarrow> do {
          bp \<leftarrow> find_fit (free_lists s) (hmem s) awords;
          if bp \<noteq> NULL then do {
            m \<leftarrow> place (free_lists s) (hmem s) bp awords;
            Some (payload bp, s\<lparr>hmem := m\<rparr>) }
          else do {
            (bp, s) \<leftarrow> extend_heap (max_size awords CHUNKSIZE) s;
            if bp = NULL then Some (NULL, s)
            else do {
              m \<leftarrow> place (free_lists s) (hmem s) bp awords;
              Some (payload bp, s\<lparr>hmem := m\<rparr>) } } })"

definition kcalloc_unlocked :: "u64 \<Rightarrow> heap \<Rightarrow> (u64 \<times> heap) option" where
  "kcalloc_unlocked sz s = do {
     (ptr, s) \<leftarrow> kmalloc_unlocked sz s;
     (r, m) \<leftarrow> memset (hmem s) ptr 0 sz;
     Some (r, s\<lparr>hmem := m\<rparr>) }"

definition kfree_unlocked :: "u64 \<Rightarrow> heap \<Rightarrow> heap option" where
  "kfree_unlocked bp s =
     (if bp = NULL then Some s
      else do {
        let blk = bp - 8;
        n \<leftarrow> blk_size (hmem s) blk;
        m \<leftarrow> mark_block_free (hmem s) blk (ucast n);
        m \<leftarrow> push_free (free_lists s) m blk;
        (_, m) \<leftarrow> heap_coalesce (free_lists s) m blk;
        Some (s\<lparr>hmem := m\<rparr>) })"

text \<open>The branches of \<^verbatim>\<open>_krealloc\<close> that grow or shrink in place; \<open>awords\<close> is the new size and \<open>oldsize\<close> the old one.\<close>

definition realloc_shrink :: "u64 \<Rightarrow> mem \<Rightarrow> u64 \<Rightarrow> u64 \<Rightarrow> u64 \<Rightarrow> mem option" where
  "realloc_shrink fl m blk awords oldsize = do {
     m \<leftarrow> mark_block_used m blk (ucast awords);
     blk \<leftarrow> next_blk m blk;
     m \<leftarrow> mark_block_free m blk (ucast (oldsize - awords));
     m \<leftarrow> push_free fl m blk;
     (_, m) \<leftarrow> heap_coalesce fl m blk;
     Some m }"

definition realloc_next :: "u64 \<Rightarrow> mem \<Rightarrow> u64 \<Rightarrow> u64 \<Rightarrow> u64 \<Rightarrow> mem option" where
  "realloc_next fl m blk awords oldsize = do {
     nb \<leftarrow> next_blk m blk; tmp \<leftarrow> blk_size m nb;
     m \<leftarrow> unlink m nb;
     m \<leftarrow> mark_block_used m blk (ucast awords);
     blk \<leftarrow> next_blk m blk;
     m \<leftarrow> mark_block_free m blk (ucast (oldsize + tmp - awords));
     push_free fl m blk }"

definition realloc_both :: "u64 \<Rightarrow> mem \<Rightarrow> u64 \<Rightarrow> u64 \<Rightarrow> u64 \<Rightarrow> (u64 \<times> mem) option" where
  "realloc_both fl m blk awords oldsize = do {
     blk \<leftarrow> prev_blk m blk;
     tmp1 \<leftarrow> blk_size m blk;
     nb \<leftarrow> next_blk m blk; nnb \<leftarrow> next_blk m nb; tmp2 \<leftarrow> blk_size m nnb;
     m \<leftarrow> unlink m blk;
     nb \<leftarrow> next_blk m blk; nnb \<leftarrow> next_blk m nb; m \<leftarrow> unlink m nnb;
     nb \<leftarrow> next_blk m blk;
     (_, m) \<leftarrow> memmove m (payload blk) (payload nb) ((oldsize - 2) * WSIZE);
     m \<leftarrow> mark_block_used m blk (ucast awords);
     let ptr = payload blk;
     blk \<leftarrow> next_blk m blk;
     m \<leftarrow> mark_block_free m blk (ucast (oldsize + tmp1 + tmp2 - awords));
     m \<leftarrow> push_free fl m blk;
     Some (ptr, m) }"

definition realloc_prev :: "u64 \<Rightarrow> mem \<Rightarrow> u64 \<Rightarrow> u64 \<Rightarrow> u64 \<Rightarrow> (u64 \<times> mem) option" where
  "realloc_prev fl m blk awords oldsize = do {
     blk \<leftarrow> prev_blk m blk;
     tmp \<leftarrow> blk_size m blk;
     m \<leftarrow> unlink m blk;
     nb \<leftarrow> next_blk m blk;
     (_, m) \<leftarrow> memmove m (payload blk) (payload nb) ((oldsize - 2) * WSIZE);
     m \<leftarrow> mark_block_used m blk (ucast awords);
     let ptr = payload blk;
     blk \<leftarrow> next_blk m blk;
     m \<leftarrow> mark_block_free m blk (ucast (oldsize + tmp - awords));
     m \<leftarrow> push_free fl m blk;
     (_, m) \<leftarrow> heap_coalesce fl m blk;
     Some (ptr, m) }"

definition realloc_move :: "u64 \<Rightarrow> u64 \<Rightarrow> heap \<Rightarrow> (u64 \<times> heap) option" where
  "realloc_move ptr sz s = do {
     (newptr, s) \<leftarrow> kmalloc_unlocked sz s;
     if newptr = NULL then Some (NULL, s)
     else do {
       n \<leftarrow> blk_size (hmem s) (ptr - 8);
       let old = n * WSIZE - 2 * 8;
       (_, m) \<leftarrow> memmove (hmem s) newptr ptr (if sz < old then sz else old);
       s \<leftarrow> kfree_unlocked ptr (s\<lparr>hmem := m\<rparr>);
       Some (newptr, s) } }"

definition krealloc_unlocked :: "u64 \<Rightarrow> u64 \<Rightarrow> heap \<Rightarrow> (u64 \<times> heap) option" where
  "krealloc_unlocked ptr sz s =
     (if ptr = NULL then kmalloc_unlocked sz s
      else if sz = 0 then do { s \<leftarrow> kfree_unlocked ptr s; Some (NULL, s) }
      else do {
        let blk = ptr - 8;
        oldsize \<leftarrow> blk_size (hmem s) blk;
        (case request_words sz of None \<Rightarrow> Some (NULL, s)
         | Some awords \<Rightarrow> do {
             pf \<leftarrow> ld64 (hmem s) (prev_blk_footer blk);
             let prev_alloc = tag_inuse pf;
             nb \<leftarrow> next_blk (hmem s) blk; nfree \<leftarrow> blk_free (hmem s) nb;
             let next_alloc = (\<not> nfree);
             nh \<leftarrow> ld64 (hmem s) nb;
             (_, s) \<leftarrow> (if nh = FENCE \<and> prev_alloc \<and> awords > oldsize
                       then extend_heap (max_size (awords - oldsize) CHUNKSIZE) s
                       else Some (NULL, s));
             let m = hmem s;
             let fl = free_lists s;
             if awords = oldsize then Some (ptr, s)
             else if awords < oldsize \<and> oldsize - awords \<ge> MIN_BLOCK_SIZE_WORDS then do {
               m \<leftarrow> realloc_shrink fl m blk awords oldsize;
               Some (ptr, s\<lparr>hmem := m\<rparr>) }
             else do {
               nb \<leftarrow> next_blk m blk; nsz \<leftarrow> blk_size m nb;
               if \<not> next_alloc \<and> prev_alloc \<and> awords < nsz + oldsize \<and> oldsize + nsz - awords \<ge> MIN_BLOCK_SIZE_WORDS
               then do { m \<leftarrow> realloc_next fl m blk awords oldsize; Some (ptr, s\<lparr>hmem := m\<rparr>) }
               else if \<not> prev_alloc then do {
                 pb \<leftarrow> prev_blk m blk; psz \<leftarrow> blk_size m pb;
                 if awords < psz + oldsize + nsz \<and> oldsize + psz + nsz - awords \<ge> MIN_BLOCK_SIZE_WORDS \<and> \<not> next_alloc
                 then do { (p, m) \<leftarrow> realloc_both fl m blk awords oldsize; Some (p, s\<lparr>hmem := m\<rparr>) }
                 else if awords < psz + oldsize \<and> oldsize + psz - awords \<ge> MIN_BLOCK_SIZE_WORDS
                 then do { (p, m) \<leftarrow> realloc_prev fl m blk awords oldsize; Some (p, s\<lparr>hmem := m\<rparr>) }
                 else realloc_move ptr sz s }
               else realloc_move ptr sz s } }) })"

definition with_heap_lock :: "(heap \<Rightarrow> ('a \<times> heap) option) \<Rightarrow> heap \<Rightarrow> ('a \<times> heap) option" where
  "with_heap_lock f s = do {
     l \<leftarrow> spinLock (hlock s);
     (r, s) \<leftarrow> f (s\<lparr>hlock := l\<rparr>);
     Some (r, s\<lparr>hlock := spinUnlock (hlock s)\<rparr>) }"

definition kmalloc :: "u64 \<Rightarrow> heap \<Rightarrow> (u64 \<times> heap) option" where
  "kmalloc sz = with_heap_lock (kmalloc_unlocked sz)"

definition kcalloc :: "u64 \<Rightarrow> heap \<Rightarrow> (u64 \<times> heap) option" where
  "kcalloc sz = with_heap_lock (kcalloc_unlocked sz)"

definition kfree :: "u64 \<Rightarrow> heap \<Rightarrow> (unit \<times> heap) option" where
  "kfree ptr = with_heap_lock (\<lambda>s. do { s \<leftarrow> kfree_unlocked ptr s; Some ((), s) })"

definition krealloc :: "u64 \<Rightarrow> u64 \<Rightarrow> heap \<Rightarrow> (u64 \<times> heap) option" where
  "krealloc ptr sz = with_heap_lock (krealloc_unlocked ptr sz)"

end
