(* ===== verification/Heap_Layout.thy ===== *)
theory Heap_Layout
  imports Heap
begin

text \<open>
  The representation of the kernel heap in memory. Words of the heap are counted from the fence that
  precedes the first block; \<open>B\<close> maps the first word of every block to its size and its in-use bit. The
  predicate \<open>hs\<close> says that memory holds the blocks of \<open>B\<close>, tiling the heap up to the fence at word \<open>N\<close>,
  with header and footer, and that the free lists hold exactly the free blocks in \<open>X\<close>, each on the list
  of its size. The theory shows what unlinking, linking and rewriting a region of blocks do to it.
\<close>

section \<open>Tags\<close>

definition tagw :: "nat \<Rightarrow> bool \<Rightarrow> u64" where
  "tagw s u = of_nat s OR (if u then push_bit 63 1 else 0)"

lemma bit63_small: "n < 2 ^ 63 \<Longrightarrow> \<not> bit (of_nat n :: u64) 63"
  by (simp add: bit_of_nat_iff) (simp add: bit_iff_odd)

lemma and_mask63: "n < 2 ^ 63 \<Longrightarrow> (of_nat n :: u64) AND mask 63 = of_nat n"
  by (simp add: take_bit_eq_mask [symmetric] take_bit_of_nat take_bit_nat_eq_self)

lemma tagw_simps:
  assumes "s < 2 ^ 63"
  shows tag_size_tagw: "tag_size (tagw s u) = of_nat s" and tag_inuse_tagw: "tag_inuse (tagw s u) = u"
proof -
  have "(push_bit 63 1 :: u64) AND mask 63 = 0" unfolding mask_eq_exp_minus_1 by simp
  then show "tag_size (tagw s u) = of_nat s"
    using and_mask63 [OF assms] by (simp add: tag_size_def tagw_def bit.conj_disj_distrib2)
  show "tag_inuse (tagw s u) = u"
    using bit63_small [OF assms] by (simp add: tag_inuse_def tagw_def bit_or_iff)
qed

lemma FENCE_tagw: "FENCE = tagw 0 True"
  by (simp add: FENCE_def tagw_def)

lemma int_of_words:
  assumes "s < 2 ^ 31"
  shows "(scast (ucast (of_nat s :: u64) :: u32) :: u64) = of_nat s"
proof -
  have "(ucast (of_nat s :: u64) :: u32) = of_nat s"
    using assms by (simp add: unsigned_ucast_eq unat_of_nat unsigned_of_nat take_bit_nat_eq_self)
  moreover have "sint (of_nat s :: u32) = int s"
    using assms by (simp add: sint_uint uint_nat unat_of_nat signed_take_bit_int_eq_self)
  ultimately show ?thesis by (simp add: scast_eq)
qed

section \<open>Blocks and free lists in memory\<close>

record geo =
  zb :: u64
  flb :: u64
  lim :: nat

type_synonym blocks = "nat \<rightharpoonup> nat \<times> bool"

definition adr :: "geo \<Rightarrow> nat \<Rightarrow> u64" where
  "adr g k = zb g + 8 * of_nat k"

definition hd_cell :: "geo \<Rightarrow> nat \<Rightarrow> u64" where
  "hd_cell g j = flb g + 8 * of_nat j"

definition lst :: "geo \<Rightarrow> nat \<Rightarrow> u64" where
  "lst g i = flb g + 32 * of_nat i"

definition heads :: "geo \<Rightarrow> u64 set" where
  "heads g = hd_cell g ` {..<48}"

definition geo_ok :: "geo \<Rightarrow> bool" where
  "geo_ok g \<longleftrightarrow> lim g < 2 ^ 28 \<and> adr g ` {..lim g} \<inter> heads g = {} \<and> 0 \<notin> adr g ` {..lim g} \<and> 0 \<notin> heads g"

definition tiling :: "blocks \<Rightarrow> nat \<Rightarrow> bool" where
  "tiling B N \<longleftrightarrow> odd N \<and>
     (\<forall>k s u. B k = Some (s, u) \<longrightarrow> odd k \<and> even s \<and> 8 \<le> s \<and> k + s \<le> N \<and> (k + s \<noteq> N \<longrightarrow> k + s \<in> dom B)) \<and>
     (\<forall>j. j \<in> dom B \<or> j = N \<longrightarrow> j = 1 \<or> (\<exists>k s u. B k = Some (s, u) \<and> k + s = j)) \<and>
     (\<forall>k s u j. B k = Some (s, u) \<longrightarrow> j \<in> dom B \<longrightarrow> k < j \<longrightarrow> k + s \<le> j)"

definition tags :: "geo \<Rightarrow> mem \<Rightarrow> blocks \<Rightarrow> nat \<Rightarrow> bool" where
  "tags g m B N \<longleftrightarrow> m (adr g 0) = Some FENCE \<and> m (adr g N) = Some FENCE \<and>
     (\<forall>k s u. B k = Some (s, u) \<longrightarrow> m (adr g k) = Some (tagw s u) \<and> m (adr g (k + s - 1)) = Some (tagw s u))"

definition seg :: "nat \<Rightarrow> nat" where
  "seg s = get_seg_index (of_nat s)"

definition in_list :: "blocks \<Rightarrow> nat set \<Rightarrow> nat \<Rightarrow> nat set" where
  "in_list B X i = {k \<in> X. \<exists>s u. B k = Some (s, u) \<and> seg s = i}"

definition lists :: "geo \<Rightarrow> mem \<Rightarrow> blocks \<Rightarrow> nat set \<Rightarrow> bool" where
  "lists g m B X \<longleftrightarrow> (\<forall>i<12. \<exists>xs. dlist m (lst g i) (map (\<lambda>k. adr g (Suc k)) xs) \<and> set xs = in_list B X i)"

definition free_blocks :: "blocks \<Rightarrow> nat set" where
  "free_blocks B = {k. \<exists>s. B k = Some (s, False)}"

definition hs :: "geo \<Rightarrow> mem \<Rightarrow> blocks \<Rightarrow> nat \<Rightarrow> nat set \<Rightarrow> bool" where
  "hs g m B N X \<longleftrightarrow> geo_ok g \<and> N \<le> lim g \<and> adr g ` {..lim g} \<union> heads g \<subseteq> dom m \<and>
     tiling B N \<and> tags g m B N \<and> lists g m B X \<and> X \<subseteq> free_blocks B"

definition pw :: "nat set \<Rightarrow> nat set" where
  "pw A = Suc ` A \<union> (\<lambda>k. k + 2) ` A"

definition same :: "geo \<Rightarrow> nat set \<Rightarrow> mem \<Rightarrow> mem \<Rightarrow> bool" where
  "same g A m m' \<longleftrightarrow> dom m' = dom m \<and> (\<forall>a. a \<notin> heads g \<longrightarrow> a \<notin> adr g ` A \<longrightarrow> m' a = m a)"

lemma same_refl [simp]: "same g A m m"
  by (simp add: same_def)

lemma same_trans: "same g A m m' \<Longrightarrow> same g A m' m'' \<Longrightarrow> same g A m m''"
  by (auto simp: same_def)

lemma same_mono: "same g A m m' \<Longrightarrow> A \<subseteq> A' \<Longrightarrow> same g A' m m'"
  unfolding same_def by (meson image_mono subsetD)

subsection \<open>Addresses\<close>

lemma adr_eq: "j < 2 ^ 29 \<Longrightarrow> k < 2 ^ 29 \<Longrightarrow> adr g j = adr g k \<longleftrightarrow> j = k"
proof -
  assume h: "j < 2 ^ 29" "k < 2 ^ 29"
  have "adr g j = adr g k \<longleftrightarrow> (of_nat (8 * j) :: u64) = of_nat (8 * k)" by (simp add: adr_def)
  also have "\<dots> \<longleftrightarrow> 8 * j = 8 * k" using h by (intro u64_of_nat_eq) auto
  finally show ?thesis by simp
qed

lemma hd_cell_eq: "j < 48 \<Longrightarrow> k < 48 \<Longrightarrow> hd_cell g j = hd_cell g k \<longleftrightarrow> j = k"
proof -
  assume h: "j < 48" "k < 48"
  have "hd_cell g j = hd_cell g k \<longleftrightarrow> (of_nat (8 * j) :: u64) = of_nat (8 * k)" by (simp add: hd_cell_def)
  also have "\<dots> \<longleftrightarrow> 8 * j = 8 * k" using h by (intro u64_of_nat_eq) auto
  finally show ?thesis by simp
qed

lemma adr_Suc: "adr g k + 8 = adr g (Suc k)" "adr g (Suc k) - 8 = adr g k"
  by (simp_all add: adr_def algebra_simps)

lemma adr_add: "adr g k + 8 * of_nat s = adr g (k + s)"
  by (simp add: adr_def algebra_simps)

lemma adr_diff: "s \<le> k \<Longrightarrow> adr g k - 8 * of_nat s = adr g (k - s)"
  by (simp add: adr_def algebra_simps)

lemma adr_disjoint:
  "geo_ok g \<Longrightarrow> A \<subseteq> {..lim g} \<Longrightarrow> C \<subseteq> {..lim g} \<Longrightarrow> A \<inter> C = {} \<Longrightarrow> adr g ` A \<inter> adr g ` C = {}"
proof -
  assume h: "geo_ok g" "A \<subseteq> {..lim g}" "C \<subseteq> {..lim g}" "A \<inter> C = {}"
  have False if "j \<in> A" "k \<in> C" "adr g j = adr g k" for j k
  proof -
    have "j < 2 ^ 29" "k < 2 ^ 29" using h(1-3) that by (auto simp: geo_ok_def)
    then show False using adr_eq that h(4) by blast
  qed
  then show ?thesis by fastforce
qed

lemma adr_in: "geo_ok g \<Longrightarrow> k \<le> lim g \<Longrightarrow> A \<subseteq> {..lim g} \<Longrightarrow> adr g k \<in> adr g ` A \<longleftrightarrow> k \<in> A"
  using adr_disjoint [of g "{k}" A] by auto

lemma adr_heads: "geo_ok g \<Longrightarrow> k \<le> lim g \<Longrightarrow> adr g k \<notin> heads g"
  by (auto simp: geo_ok_def)

definition hc :: "geo \<Rightarrow> nat \<Rightarrow> u64 set" where
  "hc g i = hd_cell g ` {4 * i..<4 * i + 4}"

lemma hc_set: "hc g i = {lst g i, lst g i + 8, lst g i + 16, lst g i + 24}"
proof -
  have "{4 * i..<4 * i + 4} = {4 * i, 4 * i + 1, 4 * i + 2, 4 * i + 3}" by auto
  then show ?thesis by (auto simp: hc_def hd_cell_def lst_def algebra_simps)
qed

lemma hc_heads: "i < 12 \<Longrightarrow> hc g i \<subseteq> heads g"
  by (auto simp: hc_def heads_def)

lemma hc_disjoint: "i < 12 \<Longrightarrow> j < 12 \<Longrightarrow> i \<noteq> j \<Longrightarrow> hc g i \<inter> hc g j = {}"
  unfolding hc_def using hd_cell_eq by fastforce

lemma list_cells: "cells_of (set (nodes (lst g i) (map (\<lambda>k. adr g (Suc k)) xs))) = hc g i \<union> adr g ` pw (set xs)"
  by (auto simp: cells_of_def hc_set pw_def adr_Suc image_iff add.commute add.assoc)

subsection \<open>Blocks\<close>

lemma hsD:
  assumes "hs g m B N X"
  shows "geo_ok g" "N \<le> lim g" "tiling B N" "tags g m B N" "lists g m B X" "X \<subseteq> free_blocks B"
    "\<And>k. k \<le> lim g \<Longrightarrow> m (adr g k) \<noteq> None" "\<And>a. a \<in> heads g \<Longrightarrow> m a \<noteq> None" "lim g < 2 ^ 28"
  using assms by (auto simp: hs_def geo_ok_def)

lemma tilingD:
  assumes "tiling B N" "B k = Some (s, u)"
  shows "odd k" "even s" "8 \<le> s" "k + s \<le> N" "k + s = N \<or> k + s \<in> dom B" "0 < k"
    "\<And>j. j \<in> dom B \<Longrightarrow> k < j \<Longrightarrow> k + s \<le> j" "s < N"
proof -
  show a: "odd k" "even s" "8 \<le> s" "k + s \<le> N" "k + s = N \<or> k + s \<in> dom B" "\<And>j. j \<in> dom B \<Longrightarrow> k < j \<Longrightarrow> k + s \<le> j"
    using assms unfolding tiling_def by blast+
  show "0 < k" using a(1) by (auto intro: Nat.gr0I)
  then show "s < N" using a(4) by simp
qed

lemma tiling_prev:
  assumes "tiling B N" "k \<in> dom B \<or> k = N" "k \<noteq> 1"
  obtains j s u where "B j = Some (s, u)" "j + s = k"
  using assms unfolding tiling_def by blast

lemma blocks_apart:
  assumes "tiling B N" "B j = Some (s, u)" "B k = Some (t, v)" "j \<noteq> k"
  shows "j + s \<le> k \<or> k + t \<le> j"
  using tilingD(7) [OF assms(1,2)] tilingD(7) [OF assms(1,3)] assms(2-4) by (metis domI linorder_neqE_nat)

lemma tagsD:
  assumes "tags g m B N" "B k = Some (s, u)"
  shows "m (adr g k) = Some (tagw s u)" "m (adr g (k + s - 1)) = Some (tagw s u)"
  using assms by (auto simp: tags_def)

lemma free_blocksE: "k \<in> free_blocks B \<Longrightarrow> (\<And>s. B k = Some (s, False) \<Longrightarrow> P) \<Longrightarrow> P"
  by (auto simp: free_blocks_def)

lemma pw_apart:
  assumes "tiling B N" "B k = Some (s, u)" "j \<in> dom B" "j \<noteq> k"
  shows "pw {j} \<inter> {k..<k + s} = {}"
proof -
  obtain t v where "B j = Some (t, v)" using assms(3) by auto
  then show ?thesis using blocks_apart [OF assms(1,2)] assms(4) tilingD(3) [OF assms(1)] by (fastforce simp: pw_def)
qed

lemma pw_un: "pw (A \<union> C) = pw A \<union> pw C" "pw (insert k A) = {k + 1, k + 2} \<union> pw A" "pw {} = {}"
  by (auto simp: pw_def)

lemma pw_Union: "pw A = (\<Union>k\<in>A. pw {k})"
  by (auto simp: pw_def)

lemma pw_in_block:
  assumes "tiling B N" "B k = Some (s, u)"
  shows "pw {k} \<subseteq> {k + 1..<k + s - 1}"
  using tilingD [OF assms] by (auto simp: pw_def)

lemma pw_bound: "tiling B N \<Longrightarrow> X \<subseteq> dom B \<Longrightarrow> pw X \<subseteq> {..<N}"
proof
  fix w assume h: "tiling B N" "X \<subseteq> dom B" "w \<in> pw X"
  then obtain k s u where "w \<in> pw {k}" "B k = Some (s, u)" by (auto simp: pw_Union [of X])
  then show "w \<in> {..<N}" using pw_in_block [OF h(1)] tilingD(4) [OF h(1)] by fastforce
qed

lemma pw_disjoint:
  assumes "tiling B N" "X \<subseteq> dom B" "Y \<subseteq> dom B" "X \<inter> Y = {}"
  shows "pw X \<inter> pw Y = {}"
proof -
  have "pw {j} \<inter> pw {k} = {}" if jk: "j \<in> X" "k \<in> Y" for j k
  proof -
    obtain s u where k: "B k = Some (s, u)" using jk assms(3) by auto
    have "pw {k} \<subseteq> {k..<k + s}" using pw_in_block [OF assms(1) k] by (auto simp: pw_un)
    moreover have "pw {j} \<inter> {k..<k + s} = {}" using pw_apart [OF assms(1) k] jk assms(2,4) by blast
    ultimately show ?thesis by blast
  qed
  then show ?thesis unfolding pw_Union [of X] pw_Union [of Y] by blast
qed

lemma free_dom: "X \<subseteq> free_blocks B \<Longrightarrow> X \<subseteq> dom B"
  by (auto simp: free_blocks_def)

lemma seg_less: "seg s < 12"
  by (simp add: seg_def get_seg_index_def)

lemma tags_same:
  assumes "hs g m B N X" "same g (pw Y) m m'" "Y \<subseteq> dom B"
  shows "tags g m' B N"
proof -
  note h = hsD [OF assms(1)]
  have b: "pw Y \<subseteq> {..lim g}" using pw_bound [OF h(3) assms(3)] h(2) by auto
  have keep: "m' (adr g w) = m (adr g w)" if "w \<le> lim g" "w \<notin> pw Y" for w
    using assms(2) adr_in [OF h(1) that(1) b] adr_heads [OF h(1) that(1)] that(2) by (simp add: same_def)
  have ends: "0 \<notin> pw Y" "N \<notin> pw Y" using pw_bound [OF h(3) assms(3)] by (auto simp: pw_def)
  have blk: "k \<notin> pw Y" "k + s - 1 \<notin> pw Y" if k: "B k = Some (s, u)" for k s u
  proof -
    have "w \<notin> pw {j}" if "j \<in> Y" "w \<in> {k, k + s - 1}" for w j
    proof (cases "j = k")
      case True
      then show ?thesis using that(2) pw_in_block [OF h(3) k] by auto
    next
      case False
      moreover have "w \<in> {k..<k + s}" using that(2) tilingD(3) [OF h(3) k] by auto
      ultimately show ?thesis using that(1) assms(3) pw_apart [OF h(3) k, of j] by blast
    qed
    then show "k \<notin> pw Y" "k + s - 1 \<notin> pw Y" by (auto simp: pw_Union [of Y])
  qed
  show ?thesis unfolding tags_def
  proof (intro conjI allI impI)
    show "m' (adr g 0) = Some FENCE" "m' (adr g N) = Some FENCE"
      using keep ends h(2,4) by (simp_all add: tags_def)
    fix k s u assume k: "B k = Some (s, u)"
    have "k \<le> lim g" "k + s - 1 \<le> lim g" using tilingD(4) [OF h(3) k] h(2) by simp_all
    then show "m' (adr g k) = Some (tagw s u)" "m' (adr g (k + s - 1)) = Some (tagw s u)"
      using keep blk [OF k] tagsD [OF h(4) k] by simp_all
  qed
qed

subsection \<open>Linking and unlinking\<close>

lemma dlist_keep:
  assumes g: "geo_ok g" and i: "i < 12" and b: "pw (set xs) \<subseteq> {..lim g}"
    and keep: "\<And>a. a \<in> hc g i \<Longrightarrow> m' a = m a" "\<And>w. w \<in> pw (set xs) \<Longrightarrow> m' (adr g w) = m (adr g w)"
  shows "dlist m' (lst g i) (map (\<lambda>k. adr g (Suc k)) xs) = dlist m (lst g i) (map (\<lambda>k. adr g (Suc k)) xs)"
  by (rule dlist_frame) (auto simp: list_cells keep simp del: set_nodes)

text \<open>A change of one list: the others are in other cells.\<close>
lemma lists_change:
  assumes h: "hs g m B N X" and i: "i < 12" and X': "X' \<subseteq> dom B"
    and others: "\<And>j. j < 12 \<Longrightarrow> j \<noteq> i \<Longrightarrow> in_list B X' j = in_list B X j"
    and d: "dlist m' (lst g i) (map (\<lambda>k. adr g (Suc k)) xs)" "set xs = in_list B X' i"
    and keep: "\<And>a. a \<notin> hc g i \<Longrightarrow> a \<notin> adr g ` pw (in_list B (X \<union> X') i) \<Longrightarrow> m' a = m a"
  shows "lists g m' B X'"
  unfolding lists_def
proof (intro allI impI)
  note h' = hsD [OF h]
  fix j :: nat assume j: "j < 12"
  show "\<exists>xs. dlist m' (lst g j) (map (\<lambda>k. adr g (Suc k)) xs) \<and> set xs = in_list B X' j"
  proof (cases "j = i")
    case False
    obtain ys where ys: "dlist m (lst g j) (map (\<lambda>k. adr g (Suc k)) ys)" "set ys = in_list B X j"
      using h'(5) j unfolding lists_def by blast
    have sub: "set ys \<subseteq> dom B" "in_list B (X \<union> X') i \<subseteq> dom B" by (auto simp: ys(2) in_list_def)
    have b: "pw (set ys) \<subseteq> {..lim g}" "pw (in_list B (X \<union> X') i) \<subseteq> {..lim g}"
      using pw_bound [OF h'(3) sub(1)] pw_bound [OF h'(3) sub(2)] h'(2) by (simp_all add: subset_eq) (meson less_imp_le_nat less_le_trans)+
    have dis: "pw (set ys) \<inter> pw (in_list B (X \<union> X') i) = {}"
      by (rule pw_disjoint [OF h'(3) sub]) (use False in \<open>auto simp: ys(2) in_list_def\<close>)
    have "dlist m' (lst g j) (map (\<lambda>k. adr g (Suc k)) ys)"
    proof (subst dlist_keep [OF h'(1) j b(1), of m' m])
      show "m' a = m a" if "a \<in> hc g j" for a
      proof (rule keep)
        show "a \<notin> hc g i" using hc_disjoint [OF i j] False that by blast
        show "a \<notin> adr g ` pw (in_list B (X \<union> X') i)" 
        proof
          assume "a \<in> adr g ` pw (in_list B (X \<union> X') i)"
          then obtain w where "w \<le> lim g" "a = adr g w" using b(2) by blast
          then show False using that hc_heads [OF j] adr_heads [OF h'(1)] by blast
        qed
      qed
      show "m' (adr g w) = m (adr g w)" if "w \<in> pw (set ys)" for w
      proof (rule keep)
        have "w \<le> lim g" using that b(1) by auto
        then show "adr g w \<notin> hc g i" using adr_heads [OF h'(1)] hc_heads [OF i] by blast
        show "adr g w \<notin> adr g ` pw (in_list B (X \<union> X') i)" using adr_in [OF h'(1) \<open>w \<le> lim g\<close> b(2)] that dis by blast
      qed
    qed (rule ys(1))
    then show ?thesis using ys(2) others [OF j False] by blast
  qed (use d in blast)
qed

lemma hs_relink:
  assumes h: "hs g m B N X" and i: "i < 12" and X': "X' \<subseteq> free_blocks B" and dm: "dom m' = dom m"
    and others: "\<And>j. j < 12 \<Longrightarrow> j \<noteq> i \<Longrightarrow> in_list B X' j = in_list B X j"
    and d: "dlist m' (lst g i) (map (\<lambda>k. adr g (Suc k)) xs)" "set xs = in_list B X' i"
    and keep: "\<And>a. a \<notin> hc g i \<Longrightarrow> a \<notin> adr g ` pw (in_list B (X \<union> X') i) \<Longrightarrow> m' a = m a"
  shows "hs g m' B N X' \<and> same g (pw (X \<union> X')) m m'"
proof -
  note h' = hsD [OF h]
  have s: "same g (pw (X \<union> X')) m m'"
    unfolding same_def
  proof (intro conjI allI impI dm)
    fix a assume a: "a \<notin> heads g" "a \<notin> adr g ` pw (X \<union> X')"
    have "pw (in_list B (X \<union> X') i) \<subseteq> pw (X \<union> X')" by (auto simp: pw_def in_list_def)
    then show "m' a = m a" using keep hc_heads [OF i] a by blast
  qed
  moreover have "tags g m' B N" using tags_same [OF h s] free_dom [OF X'] free_dom [OF h'(6)] by blast
  moreover have "lists g m' B X'" using lists_change [OF h i free_dom [OF X'] others d keep] by blast
  ultimately show ?thesis using h X' dm by (simp add: hs_def)
qed

lemma st64_dom: "st64 m a v = Some m' \<Longrightarrow> dom m' = dom m"
  by (auto simp: st64_def split: option.splits if_splits)

lemma list_remove_dom: "list_remove m e = Some (n, m') \<Longrightarrow> dom m' = dom m"
  by (clarsimp simp: list_remove_def bind_eq_Some_conv) (metis st64_dom)

lemma list_push_back_dom: "list_push_back m l e = Some m' \<Longrightarrow> dom m' = dom m"
  by (clarsimp simp: list_push_back_def list_insert_def bind_eq_Some_conv) (metis st64_dom)

lemma unlink_hs:
  assumes h: "hs g m B N X" and k: "k \<in> X"
  shows "\<exists>m'. unlink m (adr g k) = Some m' \<and> hs g m' B N (X - {k}) \<and> same g (pw X) m m'"
proof -
  note h' = hsD [OF h]
  obtain s where s: "B k = Some (s, False)" using k h'(6) free_blocksE by blast
  obtain zs where zs: "dlist m (lst g (seg s)) (map (\<lambda>k. adr g (Suc k)) zs)" "set zs = in_list B X (seg s)"
    using h'(5) seg_less [of s] unfolding lists_def by blast
  have "k \<in> set zs" using zs(2) k s by (auto simp: in_list_def)
  then obtain xs ys where sp: "zs = xs @ k # ys" by (meson split_list)
  have dis: "distinct zs"
    using dlist_notin [OF zs(1)] by (simp add: distinct_map)
  obtain m' where m': "list_remove m (adr g (Suc k)) = Some (hd (map (\<lambda>k. adr g (Suc k)) ys @ [lst g (seg s) + 16]), m')"
      "dlist m' (lst g (seg s)) (map (\<lambda>k. adr g (Suc k)) (xs @ ys))"
      "\<forall>x. x \<notin> cells_of (set (nodes (lst g (seg s)) (map (\<lambda>k. adr g (Suc k)) (xs @ ys)))) \<longrightarrow> m' x = m x"
    using list_remove_ok [of m "lst g (seg s)" "map (\<lambda>k. adr g (Suc k)) xs" "adr g (Suc k)" "map (\<lambda>k. adr g (Suc k)) ys"] zs(1)
    unfolding sp by auto
  have set: "set (xs @ ys) = in_list B (X - {k}) (seg s)"
    using zs(2) dis unfolding sp by (auto simp: in_list_def)
  have "hs g m' B N (X - {k}) \<and> same g (pw (X \<union> (X - {k}))) m m'"
  proof (rule hs_relink [OF h seg_less _ list_remove_dom [OF m'(1)] _ m'(2) set])
    show "X - {k} \<subseteq> free_blocks B" using h'(6) by blast
    show "in_list B (X - {k}) j = in_list B X j" if "j \<noteq> seg s" for j using that s by (auto simp: in_list_def)
    show "m' a = m a" if a: "a \<notin> hc g (seg s)" "a \<notin> adr g ` pw (in_list B (X \<union> (X - {k})) (seg s))" for a
    proof -
      have "pw (set (xs @ ys)) \<subseteq> pw (in_list B (X \<union> (X - {k})) (seg s))"
        unfolding set by (auto simp: pw_def in_list_def)
      then show ?thesis using m'(3) a unfolding list_cells by blast
    qed
  qed
  moreover have "X \<union> (X - {k}) = X" by blast
  ultimately show ?thesis using m'(1) by (simp add: unlink_def payload_def adr_Suc)
qed

lemma nodes_words:
  assumes "geo_ok g" "i < 12"
  shows "set (nodes (lst g i) (map (\<lambda>k. adr g (Suc k)) xs)) \<subseteq> heads g \<union> adr g ` (Suc ` set xs)"
  using hc_heads [OF assms(2), of g] by (auto simp: hc_set)

lemma push_hs:
  assumes h: "hs g m B N X" and s: "B k = Some (s, False)" and k: "k \<notin> X"
  shows "\<exists>m'. push_free (flb g) m (adr g k) = Some m' \<and> hs g m' B N (insert k X) \<and> same g (pw (insert k X)) m m'"
proof -
  note h' = hsD [OF h] and t = tilingD [OF hsD(3) [OF h] s]
  let ?e = "\<lambda>k. adr g (Suc k)"
  obtain xs where xs: "dlist m (lst g (seg s)) (map ?e xs)" "set xs = in_list B X (seg s)"
    using h'(5) seg_less [of s] unfolding lists_def by blast
  have sub: "set xs \<subseteq> dom B" "k \<notin> set xs" using k by (auto simp: xs(2) in_list_def)
  have kl: "k + 2 \<le> lim g" using t h'(2) by simp
  have xl: "Suc ` set xs \<subseteq> {..lim g}"
    using pw_bound [OF h'(3) sub(1)] h'(2) by (fastforce simp: pw_def)
  have far: "{k, k + 1, k + 2} \<inter> Suc ` set xs = {}"
  proof -
    have "pw {j} \<inter> {k..<k + s} = {}" if "j \<in> set xs" for j
      by (rule pw_apart [OF h'(3) s]) (use that sub in auto)
    then have "Suc j \<notin> {k..<k + s}" if "j \<in> set xs" for j using that by (auto simp: pw_un)
    then show ?thesis using t(3) by fastforce
  qed
  have off: "adr g w \<notin> set (nodes (lst g (seg s)) (map ?e xs))" if "w \<in> {k, k + 1, k + 2}" for w
  proof -
    have w: "w \<le> lim g" using that kl by auto
    have "w \<notin> Suc ` set xs" using far that by blast
    then show ?thesis
      using nodes_words [OF h'(1) seg_less, of s xs] adr_heads [OF h'(1) w] adr_in [OF h'(1) w xl] by blast
  qed
  have fr: "fresh_elem m (?e k) (nodes (lst g (seg s)) (map ?e xs))"
    unfolding fresh_elem_def
  proof (intro conjI ballI)
    show "?e k \<noteq> 0" using h'(1) kl by (auto simp: geo_ok_def image_iff)
    show "?e k \<notin> set (nodes (lst g (seg s)) (map ?e xs))" "?e k + 8 \<notin> set (nodes (lst g (seg s)) (map ?e xs))"
      using off [of "k + 1"] off [of "k + 2"] by (simp_all add: adr_Suc del: set_nodes)
    show "a + 8 \<noteq> ?e k" if "a \<in> set (nodes (lst g (seg s)) (map ?e xs))" for a
    proof
      assume "a + 8 = ?e k"
      then have "a = adr g k" using adr_Suc(2) [of g k] by (metis add_diff_cancel)
      then show False using off [of k] that by blast
    qed
    show "m (?e k) \<noteq> None" "m (?e k + 8) \<noteq> None" using h'(7) kl by (simp_all add: adr_Suc)
  qed
  obtain m' where m': "list_push_back m (lst g (seg s)) (?e k) = Some m'" "dlist m' (lst g (seg s)) (map ?e (xs @ [k]))"
      "\<forall>x. x \<notin> cells_of (set (nodes (lst g (seg s)) (map ?e (xs @ [k])))) \<longrightarrow> m' x = m x"
    using list_push_back_ok [OF xs(1) fr] by auto
  have set: "set (xs @ [k]) = in_list B (insert k X) (seg s)" using xs(2) s by (auto simp: in_list_def)
  have "hs g m' B N (insert k X) \<and> same g (pw (X \<union> insert k X)) m m'"
  proof (rule hs_relink [OF h seg_less _ list_push_back_dom [OF m'(1)] _ m'(2) set])
    show "insert k X \<subseteq> free_blocks B" using h'(6) s by (auto simp: free_blocks_def)
    show "in_list B (insert k X) j = in_list B X j" if "j \<noteq> seg s" for j using that s by (auto simp: in_list_def)
    show "m' a = m a" if a: "a \<notin> hc g (seg s)" "a \<notin> adr g ` pw (in_list B (X \<union> insert k X) (seg s))" for a
    proof -
      have "X \<union> insert k X = insert k X" by blast
      then show ?thesis using m'(3) a unfolding list_cells set by simp
    qed
  qed
  moreover have "X \<union> insert k X = insert k X" by blast
  moreover have "s < 2 ^ 63" using t(8) h'(2,9) by simp
  then have "push_free (flb g) m (adr g k) = Some m'"
    using m'(1) tagsD(1) [OF h'(4) s]
    by (simp add: push_free_def blk_size_def ld64_def tag_size_tagw get_seg_list_def payload_def adr_Suc lst_def seg_def)
  ultimately show ?thesis by simp
qed

subsection \<open>Rewriting a region\<close>

lemma put_tag:
  assumes "s < 2 ^ 31"
  shows "put_size (put_inuse h (if u then 1 else 0)) (ucast (of_nat s :: u64)) = tagw s u"
proof -
  have z: "mask 63 AND push_bit 63 1 = (0 :: u64)" unfolding mask_eq_exp_minus_1 by simp
  have "(h AND mask 63) AND push_bit 63 1 = (0 :: u64)" unfolding and.assoc z by simp
  then have "put_inuse h (if u then 1 else 0) AND push_bit 63 1 = (if u then push_bit 63 1 else 0)"
    by (simp add: put_inuse_def bit.conj_disj_distrib2)
  then show ?thesis
    using assms int_of_words [OF assms] and_mask63 [of s] by (simp add: put_size_def tagw_def or.commute)
qed

lemma set_header_and_footer_cells:
  assumes "m a = Some h" "put_size (put_inuse h i) sz = T" "a + WSIZE * tag_size T - 8 = f" "m f \<noteq> None"
  shows "set_header_and_footer m a sz i = Some (m(a \<mapsto> T, f \<mapsto> T))"
  using assms by (cases "f = a") (auto simp: set_header_and_footer_def ld64_def st64_def get_footer_def)

lemma set_header_and_footer_raw:
  assumes "m (adr g k) \<noteq> None" "m (adr g (k + s - 1)) \<noteq> None" "0 < s" "s < 2 ^ 31"
  shows "set_header_and_footer m (adr g k) (ucast (of_nat s :: u64)) (if u then 1 else 0) =
    Some (m(adr g k \<mapsto> tagw s u, adr g (k + s - 1) \<mapsto> tagw s u))"
proof -
  obtain h where h: "m (adr g k) = Some h" using assms(1) by auto
  have "s < 2 ^ 63" using assms(4) by simp
  then have f: "adr g k + WSIZE * tag_size (tagw s u) - 8 = adr g (k + s - 1)"
    using assms(3) adr_Suc(2) [of g "k + s - 1"] by (simp add: WSIZE_def adr_add tag_size_tagw)
  show ?thesis by (rule set_header_and_footer_cells [OF h put_tag [OF assms(4)] f assms(2)])
qed

lemma mark_block_used_raw:
  assumes "m (adr g k) \<noteq> None" "m (adr g (k + s - 1)) \<noteq> None" "0 < s" "s < 2 ^ 31"
  shows "mark_block_used m (adr g k) (ucast (of_nat s :: u64)) = Some (m(adr g k \<mapsto> tagw s True, adr g (k + s - 1) \<mapsto> tagw s True))"
  using set_header_and_footer_raw [OF assms, of True] by (simp add: mark_block_used_def)

lemma st64_Some: "m a \<noteq> None \<Longrightarrow> st64 m a v = Some (m(a \<mapsto> v))"
  by (auto simp: st64_def)

lemma mark_block_free_raw:
  assumes "\<And>w. w \<in> {k, k + 1, k + 2, k + s - 1} \<Longrightarrow> m (adr g w) \<noteq> None" "0 < s" "s < 2 ^ 31"
  shows "mark_block_free m (adr g k) (ucast (of_nat s :: u64)) =
    Some (m(adr g k \<mapsto> tagw s False, adr g (k + s - 1) \<mapsto> tagw s False, adr g (k + 1) \<mapsto> 0, adr g (k + 2) \<mapsto> 0))"
proof -
  define m1 where "m1 = m(adr g k \<mapsto> tagw s False, adr g (k + s - 1) \<mapsto> tagw s False)"
  have "set_header_and_footer m (adr g k) (ucast (of_nat s :: u64)) 0 = Some m1"
    using set_header_and_footer_raw [of m g k s False] assms by (simp add: m1_def)
  moreover have "m1 (adr g (k + 1)) \<noteq> None" "m1 (adr g (k + 2)) \<noteq> None" using assms(1) by (simp_all add: m1_def)
  ultimately have "mark_block_free m (adr g k) (ucast (of_nat s :: u64)) = Some (m1(adr g (k + 1) \<mapsto> 0, adr g (k + 2) \<mapsto> 0))"
    by (simp add: mark_block_free_def payload_def adr_Suc elem_prev_def elem_next_def st64_Some del: fun_upd_apply)
      (simp add: st64_Some)
  then show ?thesis by (simp add: m1_def)
qed

lemma hs_update:
  assumes h: "hs g m B N X" and t: "tiling B' N'" "N' \<le> lim g" and r: "0 < lo" "hi \<le> Suc (lim g)" and dm: "dom m' = dom m"
    and keep: "\<And>a. a \<notin> adr g ` {lo..<hi} \<Longrightarrow> m' a = m a"
    and out: "\<And>j. j \<notin> {lo..<hi} \<Longrightarrow> B' j = B j"
      "\<And>j s u. B j = Some (s, u) \<Longrightarrow> j \<notin> {lo..<hi} \<Longrightarrow> j + s \<le> lo \<or> hi \<le> j"
    and inn: "\<And>j s u. B' j = Some (s, u) \<Longrightarrow> j \<in> {lo..<hi} \<Longrightarrow> m' (adr g j) = Some (tagw s u) \<and> m' (adr g (j + s - 1)) = Some (tagw s u)"
    and X: "X \<inter> {lo..<hi} = {}" and fence: "m' (adr g N') = Some FENCE"
  shows "hs g m' B' N' X"
proof -
  note h' = hsD [OF h]
  have reg: "{lo..<hi} \<subseteq> {..lim g}" using r(2) by auto
  have kw: "m' (adr g w) = m (adr g w)" if "w \<le> lim g" "w \<notin> {lo..<hi}" for w
    using keep adr_in [OF h'(1) that(1) reg] that(2) by blast
  have tg: "tags g m' B' N'" unfolding tags_def
  proof (intro conjI allI impI fence)
    show "m' (adr g 0) = Some FENCE" using kw [of 0] r(1) h'(4) by (simp add: tags_def)
    fix k s u assume k: "B' k = Some (s, u)"
    have "m' (adr g k) = Some (tagw s u) \<and> m' (adr g (k + s - 1)) = Some (tagw s u)"
    proof (cases "k \<in> {lo..<hi}")
      case False
      then have b: "B k = Some (s, u)" using out(1) k by simp
      note bt = tilingD [OF h'(3) b]
      have "k \<le> lim g" "k + s - 1 \<le> lim g" "k + s - 1 \<notin> {lo..<hi}"
        using bt h'(2) out(2) [OF b False] by auto
      then show ?thesis using tagsD [OF h'(4) b] kw False by simp
    qed (use inn k in blast)
    then show "m' (adr g k) = Some (tagw s u)" "m' (adr g (k + s - 1)) = Some (tagw s u)" by simp_all
  qed
  have XB: "B' k = B k" if "k \<in> X" for k using out(1) X that by blast
  have il: "in_list B' X i = in_list B X i" for i using XB by (auto simp: in_list_def)
  have "lists g m' B' X" unfolding lists_def
  proof (intro allI impI)
    fix i :: nat assume i: "i < 12"
    obtain xs where xs: "dlist m (lst g i) (map (\<lambda>k. adr g (Suc k)) xs)" "set xs = in_list B X i"
      using h'(5) i unfolding lists_def by blast
    have sub: "set xs \<subseteq> dom B" "set xs \<subseteq> X" by (auto simp: xs(2) in_list_def)
    have b: "pw (set xs) \<subseteq> {..lim g}" using pw_bound [OF h'(3) sub(1)] h'(2) by auto
    have dis: "pw {k} \<inter> {lo..<hi} = {}" if kx: "k \<in> set xs" for k
    proof -
      obtain s u where k: "B k = Some (s, u)" using kx sub(1) by fastforce
      have "k \<notin> {lo..<hi}" using kx sub(2) X by blast
      then show ?thesis using out(2) [OF k] tilingD(3) [OF h'(3) k] by (auto simp: pw_un)
    qed
    have "dlist m' (lst g i) (map (\<lambda>k. adr g (Suc k)) xs)"
    proof (subst dlist_keep [OF h'(1) i b, of m' m])
      show "m' a = m a" if "a \<in> hc g i" for a
      proof (rule keep)
        have "adr g ` {lo..<hi} \<inter> heads g = {}" using h'(1) reg unfolding geo_ok_def by blast
        then show "a \<notin> adr g ` {lo..<hi}" using that hc_heads [OF i] by blast
      qed
      show "m' (adr g w) = m (adr g w)" if w: "w \<in> pw (set xs)" for w
      proof (rule kw)
        show "w \<le> lim g" using w b by blast
        obtain k where "k \<in> set xs" "w \<in> pw {k}" using w unfolding pw_Union [of "set xs"] by blast
        then show "w \<notin> {lo..<hi}" using dis by blast
      qed
    qed (rule xs(1))
    then show "\<exists>xs. dlist m' (lst g i) (map (\<lambda>k. adr g (Suc k)) xs) \<and> set xs = in_list B' X i"
      using xs(2) il by blast
  qed
  moreover have "X \<subseteq> free_blocks B'" using h'(6) XB by (auto simp: free_blocks_def)
  ultimately show ?thesis using h t tg dm by (simp add: hs_def)
qed

section \<open>Reading blocks\<close>

lemma hs_size: "hs g m B N X \<Longrightarrow> B k = Some (s, u) \<Longrightarrow> s < 2 ^ 28"
  using tilingD(8) hsD(2,3,9) by (metis less_trans order.strict_trans2)

lemma hs_reads:
  assumes h: "hs g m B N X" and k: "B k = Some (s, u)"
  shows "ld64 m (adr g k) = Some (tagw s u)" "ld64 m (adr g (k + s - 1)) = Some (tagw s u)"
    "blk_size m (adr g k) = Some (of_nat s)" "blk_free m (adr g k) = Some (\<not> u)" "next_blk m (adr g k) = Some (adr g (k + s))"
    "tag_size (tagw s u) = of_nat s" "tag_inuse (tagw s u) = u"
proof -
  have s: "s < 2 ^ 63" using hs_size [OF h k] by simp
  show "ld64 m (adr g k) = Some (tagw s u)" "ld64 m (adr g (k + s - 1)) = Some (tagw s u)"
    using tagsD [OF hsD(4) [OF h] k] by (simp_all add: ld64_def)
  then show "blk_size m (adr g k) = Some (of_nat s)" "blk_free m (adr g k) = Some (\<not> u)" "next_blk m (adr g k) = Some (adr g (k + s))"
    using tagw_simps [OF s] by (simp_all add: blk_size_def blk_free_def next_blk_def WSIZE_def adr_add)
  show "tag_size (tagw s u) = of_nat s" "tag_inuse (tagw s u) = u" by (rule tagw_simps [OF s])+
qed

definition next_used :: "blocks \<Rightarrow> nat \<Rightarrow> bool" where
  "next_used B j \<longleftrightarrow> j \<notin> free_blocks B"

definition prev_free :: "blocks \<Rightarrow> nat \<Rightarrow> bool" where
  "prev_free B k \<longleftrightarrow> (\<exists>j s. B j = Some (s, False) \<and> j + s = k)"

lemma prev_unique:
  assumes "tiling B N" "B j = Some (s, u)" "B j' = Some (s', u')" "j + s = j' + s'"
  shows "j = j'"
proof (rule ccontr)
  assume "j \<noteq> j'"
  then show False using blocks_apart [OF assms(1-3)] assms(4) tilingD(3) [OF assms(1,2)] tilingD(3) [OF assms(1,3)] by auto
qed

lemma next_tag:
  assumes h: "hs g m B N X" and k: "B k = Some (s, u)"
  shows "\<exists>v. ld64 m (adr g (k + s)) = Some v \<and> tag_inuse v = (k + s \<notin> free_blocks B) \<and> blk_free m (adr g (k + s)) = Some (k + s \<in> free_blocks B)"
proof (cases "k + s = N")
  case True
  have "N \<notin> dom B" using tilingD(4,3) [OF hsD(3) [OF h], of N] by fastforce
  then have "N \<notin> free_blocks B" by (auto simp: free_blocks_def)
  then show ?thesis
    using True hsD(4) [OF h] tag_inuse_tagw [of 0 True] by (simp add: tags_def ld64_def blk_free_def FENCE_tagw)
next
  case False
  then obtain t v where v: "B (k + s) = Some (t, v)" using tilingD(5) [OF hsD(3) [OF h] k] by auto
  then have "k + s \<in> free_blocks B \<longleftrightarrow> \<not> v" by (simp add: free_blocks_def)
  then show ?thesis using hs_reads [OF h v] by simp
qed

lemma prev_tag:
  assumes h: "hs g m B N X" and k: "B k = Some (s, u)"
  shows "\<exists>v. ld64 m (prev_blk_footer (adr g k)) = Some v \<and> tag_inuse v = (\<not> prev_free B k)"
proof (cases "k = 1")
  case True
  have "\<not> prev_free B 1"
    unfolding prev_free_def using tilingD(3,6) [OF hsD(3) [OF h]] by fastforce
  then show ?thesis
    using True hsD(4) [OF h] tag_inuse_tagw [of 0 True] adr_Suc(2) [of g 0] by (simp add: tags_def ld64_def prev_blk_footer_def FENCE_tagw)
next
  case False
  then obtain j t v where j: "B j = Some (t, v)" "j + t = k" using tiling_prev [OF hsD(3) [OF h], of k] k by blast
  have "prev_free B k \<longleftrightarrow> \<not> v"
    unfolding prev_free_def using j prev_unique [OF hsD(3) [OF h] j(1)] by fastforce
  moreover have "prev_blk_footer (adr g k) = adr g (j + t - 1)"
    using adr_Suc(2) [of g "k - 1"] tilingD(3) [OF hsD(3) [OF h] j(1)] j(2) by (auto simp: prev_blk_footer_def)
  ultimately show ?thesis using hs_reads [OF h j(1)] by simp
qed

lemma prev_block:
  assumes h: "hs g m B N X" and j: "B j = Some (s, u)"
  shows "prev_blk m (adr g (j + s)) = Some (adr g j)"
proof -
  have "prev_blk_footer (adr g (j + s)) = adr g (j + s - 1)"
    using adr_Suc(2) [of g "j + s - 1"] tilingD(3) [OF hsD(3) [OF h] j] by (auto simp: prev_blk_footer_def)
  then show ?thesis
    using hs_reads [OF h j] adr_diff [of s "j + s" g] by (simp add: prev_blk_def WSIZE_def)
qed

section \<open>Splitting and merging blocks\<close>

definition loc :: "blocks \<Rightarrow> nat \<Rightarrow> nat \<Rightarrow> bool" where
  "loc C lo hi \<longleftrightarrow> lo \<in> dom C \<and> (\<exists>k s u. C k = Some (s, u) \<and> k + s = hi) \<and>
     (\<forall>k s u. C k = Some (s, u) \<longrightarrow> lo \<le> k \<and> odd k \<and> even s \<and> 8 \<le> s \<and> k + s \<le> hi \<and> (k + s \<noteq> hi \<longrightarrow> k + s \<in> dom C)) \<and>
     (\<forall>j\<in>dom C. j = lo \<or> (\<exists>k s u. C k = Some (s, u) \<and> k + s = j)) \<and>
     (\<forall>k s u j. C k = Some (s, u) \<longrightarrow> j \<in> dom C \<longrightarrow> k < j \<longrightarrow> k + s \<le> j)"

definition patch :: "blocks \<Rightarrow> nat \<Rightarrow> nat \<Rightarrow> blocks \<Rightarrow> blocks" where
  "patch B lo hi C = (\<lambda>j. if lo \<le> j \<and> j < hi then C j else B j)"

definition cut :: "blocks \<Rightarrow> nat \<Rightarrow> nat \<Rightarrow> nat \<Rightarrow> bool" where
  "cut B N lo hi \<longleftrightarrow> lo \<in> dom B \<and> (hi \<in> dom B \<or> hi = N) \<and> lo < hi"

lemma loc_one: "odd lo \<Longrightarrow> even n \<Longrightarrow> 8 \<le> n \<Longrightarrow> loc [lo \<mapsto> (n, u)] lo (lo + n)"
  by (auto simp: loc_def split: if_splits)

lemma loc_two:
  assumes "odd lo" "even a" "even b" "8 \<le> a" "8 \<le> b"
  shows "loc [lo \<mapsto> (a, u), lo + a \<mapsto> (b, v)] lo (lo + a + b)"
  unfolding loc_def
proof (intro conjI)
  show "\<exists>k s w. [lo \<mapsto> (a, u), lo + a \<mapsto> (b, v)] k = Some (s, w) \<and> k + s = lo + a + b"
    by (rule exI [of _ "lo + a"]) simp
  show "\<forall>j\<in>dom [lo \<mapsto> (a, u), lo + a \<mapsto> (b, v)]. j = lo \<or> (\<exists>k s w. [lo \<mapsto> (a, u), lo + a \<mapsto> (b, v)] k = Some (s, w) \<and> k + s = j)"
  proof
    fix j assume "j \<in> dom [lo \<mapsto> (a, u), lo + a \<mapsto> (b, v)]"
    then have "j = lo \<or> j = lo + a" by (auto split: if_splits)
    then show "j = lo \<or> (\<exists>k s w. [lo \<mapsto> (a, u), lo + a \<mapsto> (b, v)] k = Some (s, w) \<and> k + s = j)"
      using assms(4) by (auto intro: exI [of _ lo])
  qed
qed (use assms in \<open>auto split: if_splits\<close>)

lemma locD:
  assumes "loc C lo hi"
  shows "lo \<in> dom C" "\<exists>k s u. C k = Some (s, u) \<and> k + s = hi"
    "\<And>k s u. C k = Some (s, u) \<Longrightarrow> lo \<le> k \<and> odd k \<and> even s \<and> 8 \<le> s \<and> k + s \<le> hi \<and> (k + s \<noteq> hi \<longrightarrow> k + s \<in> dom C)"
    "\<And>j. j \<in> dom C \<Longrightarrow> j \<noteq> lo \<Longrightarrow> \<exists>k s u. C k = Some (s, u) \<and> k + s = j"
    "\<And>k s u j. C k = Some (s, u) \<Longrightarrow> j \<in> dom C \<Longrightarrow> k < j \<Longrightarrow> k + s \<le> j"
  using assms unfolding loc_def by blast+

lemma tiling_patch:
  assumes t: "tiling B N" and c: "cut B N lo hi" and l: "loc C lo hi"
  shows "tiling (patch B lo hi C) N"
proof -
  let ?P = "patch B lo hi C"
  have C: "?P k = Some (s, u)" "lo \<le> k" "k < hi" if "C k = Some (s, u)" for k s u
    using locD(3) [OF l that] that by (auto simp: patch_def)
  have hiN: "hi \<le> N" using c tilingD(4) [OF t] by (fastforce simp: cut_def)
  have lodom: "lo \<in> dom ?P" using locD(1) [OF l] C by fastforce
  have hidom: "hi \<noteq> N \<Longrightarrow> hi \<in> dom ?P" using c by (auto simp: cut_def patch_def)
  have below: "j + s \<le> lo" if "B j = Some (s, u)" "j < lo" for j s u
    using tilingD(7) [OF t that(1)] c that(2) by (auto simp: cut_def)
  show ?thesis unfolding tiling_def
  proof (intro conjI allI impI)
    show "odd N" using t by (simp add: tiling_def)
    fix k s u assume k: "?P k = Some (s, u)"
    consider (i) "C k = Some (s, u)" "lo \<le> k" "k < hi" | (o') "B k = Some (s, u)" "k < lo \<or> hi \<le> k"
      using k by (force simp: patch_def split: if_splits)
    then have "odd k \<and> even s \<and> 8 \<le> s \<and> k + s \<le> N \<and> (k + s \<noteq> N \<longrightarrow> k + s \<in> dom ?P) \<and> (\<forall>j\<in>dom ?P. k < j \<longrightarrow> k + s \<le> j)"
    proof cases
      case i
      note d = locD(3) [OF l i(1)]
      have "k + s \<in> dom ?P" if "k + s \<noteq> N"
        using that d hidom C by (cases "k + s = hi") fastforce+
      moreover have "k + s \<le> j" if "j \<in> dom ?P" "k < j" for j
        using that d locD(5) [OF l i(1)] by (cases "j < hi") (auto simp: patch_def dom_def split: if_splits)
      ultimately show ?thesis using d hiN by auto
    next
      case o'
      note d = tilingD [OF t o'(1)]
      have "k + s \<in> dom ?P" if "k + s \<noteq> N"
      proof (cases "k < lo")
        case True
        then show ?thesis using below [OF o'(1)] lodom d(5) that by (cases "k + s = lo") (auto simp: patch_def)
      qed (use o' d(5) that in \<open>auto simp: patch_def\<close>)
      moreover have "k + s \<le> j" if "j \<in> dom ?P" "k < j" for j
      proof (cases "k < lo \<and> lo \<le> j")
        case False
        then show ?thesis using that o'(2) d(7) [of j] by (auto simp: patch_def dom_def split: if_splits)
      qed (use below [OF o'(1)] in auto)
      ultimately show ?thesis using d by auto
    qed
    then show "odd k" "even s" "8 \<le> s" "k + s \<le> N" "k + s \<noteq> N \<Longrightarrow> k + s \<in> dom ?P"
      "\<And>j. j \<in> dom ?P \<Longrightarrow> k < j \<Longrightarrow> k + s \<le> j" by blast+
  next
    fix j assume j: "j \<in> dom ?P \<or> j = N"
    show "j = 1 \<or> (\<exists>k s u. ?P k = Some (s, u) \<and> k + s = j)"
    proof (cases "j = 1")
      case False
      have from_B: ?thesis if h: "j \<in> dom B \<or> j = N" "j \<le> lo \<or> hi \<le> j"
      proof -
        obtain k s u where k: "B k = Some (s, u)" "k + s = j" using tiling_prev [OF t h(1) False] by blast
        show ?thesis
        proof (cases "lo \<le> k \<and> k < hi")
          case True
          then have "j = hi" using k h(2) tilingD(7) [OF t k(1), of hi] tilingD(3,4) [OF t k(1)] c by (auto simp: cut_def)
          then show ?thesis using locD(2) [OF l] C by blast
        next
          case False
          then have "?P k = Some (s, u)" using k by (auto simp: patch_def)
          then show ?thesis using k(2) by blast
        qed
      qed
      show ?thesis
      proof (cases "lo < j \<and> j < hi")
        case True
        then have "j \<in> dom C" using j hiN by (auto simp: patch_def split: if_splits)
        then show ?thesis using locD(4) [OF l, of j] True C by blast
      next
        case out: False
        show ?thesis
        proof (rule from_B)
          show "j \<in> dom B \<or> j = N" using out j c by (auto simp: patch_def cut_def split: if_splits)
        qed (use out in auto)
      qed
    qed simp
  qed
qed

lemma hs_patch:
  assumes h: "hs g m B N X" and c: "cut B N lo hi" and l: "loc C lo hi" and dm: "dom m' = dom m"
    and keep: "\<And>a. a \<notin> adr g ` {lo..<hi} \<Longrightarrow> m' a = m a" and X: "X \<inter> {lo..<hi} = {}"
    and tg: "\<And>j s u. C j = Some (s, u) \<Longrightarrow> m' (adr g j) = Some (tagw s u) \<and> m' (adr g (j + s - 1)) = Some (tagw s u)"
  shows "hs g m' (patch B lo hi C) N X"
proof (rule hs_update [OF h, where lo = lo and hi = hi])
  note h' = hsD [OF h]
  have hi: "hi \<le> N" using c tilingD(4) [OF h'(3)] by (fastforce simp: cut_def)
  show "tiling (patch B lo hi C) N" by (rule tiling_patch [OF h'(3) c l])
  show "N \<le> lim g" by (rule h'(2))
  show "0 < lo" using c tilingD(6) [OF h'(3)] by (auto simp: cut_def)
  show "hi \<le> Suc (lim g)" using hi h'(2) by simp
  show "patch B lo hi C j = B j" if "j \<notin> {lo..<hi}" for j using that by (auto simp: patch_def)
  show "j + s \<le> lo \<or> hi \<le> j" if "B j = Some (s, u)" "j \<notin> {lo..<hi}" for j s u
    using that c tilingD(7) [OF h'(3) that(1), of lo] by (auto simp: cut_def)
  show "m' (adr g j) = Some (tagw s u) \<and> m' (adr g (j + s - 1)) = Some (tagw s u)"
    if "patch B lo hi C j = Some (s, u)" "j \<in> {lo..<hi}" for j s u
    using tg that by (auto simp: patch_def)
  have "N \<notin> {lo..<hi}" "{lo..<hi} \<subseteq> {..lim g}" using hi h'(2) by auto
  then show "m' (adr g N) = Some FENCE"
    using keep h'(4) adr_in [OF h'(1,2)] by (simp add: tags_def)
qed (use dm keep X in blast)+

lemma cut_facts:
  assumes h: "hs g m B N X" and c: "cut B N lo hi"
  shows "odd lo" "even (hi - lo)" "8 \<le> hi - lo" "hi \<le> N" "hi \<le> lim g" "lo < hi"
proof -
  note h' = hsD [OF h]
  obtain s u where s: "B lo = Some (s, u)" using c by (auto simp: cut_def)
  note t = tilingD [OF h'(3) s]
  have oN: "odd N" using h'(3) by (simp add: tiling_def)
  show "odd lo" "lo < hi" using t c by (auto simp: cut_def)
  show hi: "hi \<le> N" using c tilingD(4) [OF h'(3)] by (fastforce simp: cut_def)
  then show "hi \<le> lim g" using h'(2) by simp
  have "odd hi" using c oN tilingD(1) [OF h'(3)] by (auto simp: cut_def)
  then show "even (hi - lo)" using t(1) c by (simp add: cut_def)
  have "lo + s \<le> hi" using t(4) t(7) [of hi] c by (auto simp: cut_def)
  then show "8 \<le> hi - lo" using t(3) by simp
qed

lemma region_words:
  assumes "hs g m B N X" "w \<le> lim g"
  shows "m (adr g w) \<noteq> None"
  using hsD(7) [OF assms] .

lemma dom_upd: "m a \<noteq> None \<Longrightarrow> dom (m(a \<mapsto> v)) = dom m"
  by auto

lemma mark_free_hs:
  assumes h: "hs g m B N X" and c: "cut B N lo hi" and X: "X \<inter> {lo..<hi} = {}" and n: "n = hi - lo"
  shows "\<exists>m'. mark_block_free m (adr g lo) (ucast (of_nat n :: u64)) = Some m' \<and>
    hs g m' (patch B lo hi [lo \<mapsto> (n, False)]) N X \<and> same g {lo, lo + 1, lo + 2, hi - 1} m m'"
proof -
  note f = cut_facts [OF h c] and g = hsD(1) [OF h]
  have nb: "n < 2 ^ 31" "lo + n = hi" "8 \<le> n" using f hsD(9) [OF h] n by auto
  have w: "m (adr g w) \<noteq> None" if "w \<in> {lo..<hi}" for w using region_words [OF h] that f by auto
  define m' where "m' = m(adr g lo \<mapsto> tagw n False, adr g (lo + n - 1) \<mapsto> tagw n False, adr g (lo + 1) \<mapsto> 0, adr g (lo + 2) \<mapsto> 0)"
  have run: "mark_block_free m (adr g lo) (ucast (of_nat n :: u64)) = Some m'"
    unfolding m'_def by (rule mark_block_free_raw) (use w nb in auto)
  have dm: "dom m' = dom m" unfolding m'_def using w nb by (auto simp: dom_upd)
  have keep: "m' a = m a" if "a \<notin> adr g ` {lo, lo + 1, lo + 2, hi - 1}" for a using that nb unfolding m'_def by auto
  have sub: "{lo, lo + 1, lo + 2, hi - 1} \<subseteq> {lo..<hi}" using nb by auto
  have ne: "adr g i \<noteq> adr g j" if "i \<in> {lo..<hi}" "j \<in> {lo..<hi}" "i \<noteq> j" for i j
    using adr_eq [of i j g] that f hsD(9) [OF h] by auto
  have "hs g m' (patch B lo hi [lo \<mapsto> (n, False)]) N X"
  proof (rule hs_patch [OF h c _ dm _ X])
    show "m' a = m a" if "a \<notin> adr g ` {lo..<hi}" for a using keep that sub by blast
    show "loc [lo \<mapsto> (n, False)] lo hi" using loc_one [of lo n False] f n nb by simp
    show "m' (adr g j) = Some (tagw s u) \<and> m' (adr g (j + s - 1)) = Some (tagw s u)" if "[lo \<mapsto> (n, False)] j = Some (s, u)" for j s u
    proof -
      have "j = lo" "s = n" "\<not> u" using that by (auto split: if_splits)
      then show ?thesis
        using nb ne [of lo "lo + 1"] ne [of lo "lo + 2"] ne [of "lo + n - 1" "lo + 1"] ne [of "lo + n - 1" "lo + 2"]
        unfolding m'_def by auto
    qed
  qed
  then show ?thesis using run dm keep by (auto simp: same_def)
qed

lemma mark_used_hs:
  assumes h: "hs g m B N X" and c: "cut B N lo hi" and X: "X \<inter> {lo..<hi} = {}" and n: "n = hi - lo"
  shows "\<exists>m'. mark_block_used m (adr g lo) (ucast (of_nat n :: u64)) = Some m' \<and>
    hs g m' (patch B lo hi [lo \<mapsto> (n, True)]) N X \<and> same g {lo, hi - 1} m m'"
proof -
  note f = cut_facts [OF h c] and g = hsD(1) [OF h]
  have nb: "n < 2 ^ 31" "lo + n = hi" "8 \<le> n" using f hsD(9) [OF h] n by auto
  have w: "m (adr g w) \<noteq> None" if "w \<in> {lo..<hi}" for w using region_words [OF h] that f by auto
  define m' where "m' = m(adr g lo \<mapsto> tagw n True, adr g (lo + n - 1) \<mapsto> tagw n True)"
  have run: "mark_block_used m (adr g lo) (ucast (of_nat n :: u64)) = Some m'"
    unfolding m'_def by (rule mark_block_used_raw) (use w nb in auto)
  have dm: "dom m' = dom m" unfolding m'_def using w nb by (auto simp: dom_upd)
  have keep: "m' a = m a" if "a \<notin> adr g ` {lo, hi - 1}" for a using that nb unfolding m'_def by auto
  have "hs g m' (patch B lo hi [lo \<mapsto> (n, True)]) N X"
  proof (rule hs_patch [OF h c _ dm _ X])
    show "loc [lo \<mapsto> (n, True)] lo hi" using loc_one [of lo n True] f n nb by simp
    show "m' a = m a" if "a \<notin> adr g ` {lo..<hi}" for a
    proof (rule keep)
      have "{lo, hi - 1} \<subseteq> {lo..<hi}" using f by auto
      then show "a \<notin> adr g ` {lo, hi - 1}" using that by blast
    qed
    show "m' (adr g j) = Some (tagw s u) \<and> m' (adr g (j + s - 1)) = Some (tagw s u)" if "[lo \<mapsto> (n, True)] j = Some (s, u)" for j s u
      using that unfolding m'_def by (auto split: if_splits)
  qed
  then show ?thesis using run dm keep by (auto simp: same_def)
qed

text \<open>Marking the first part of a region used and the rest free.\<close>
lemma mark_split_hs:
  assumes h: "hs g m B N X" and c: "cut B N lo (lo + a + b)" and X: "X \<inter> {lo..<lo + a + b} = {}"
    and a: "even a" "8 \<le> a" "8 \<le> b"
  shows "\<exists>m1 m2. mark_block_used m (adr g lo) (ucast (of_nat a :: u64)) = Some m1 \<and> next_blk m1 (adr g lo) = Some (adr g (lo + a)) \<and>
    mark_block_free m1 (adr g (lo + a)) (ucast (of_nat b :: u64)) = Some m2 \<and>
    hs g m2 (patch B lo (lo + a + b) [lo \<mapsto> (a, True), lo + a \<mapsto> (b, False)]) N X \<and>
    same g ({lo, lo + a - 1} \<union> {lo + a..<lo + a + b}) m m2"
proof -
  note f = cut_facts [OF h c] and g = hsD(1) [OF h]
  have eb: "even b" using f(2) a(1) by simp
  have nb: "a < 2 ^ 31" "b < 2 ^ 31" "a < 2 ^ 63" using f hsD(9) [OF h] by auto
  have w: "m (adr g w) \<noteq> None" if "w \<in> {lo..<lo + a + b}" for w using region_words [OF h] that f by auto
  have "lo \<in> {lo..<lo + a + b}" "lo + a - 1 \<in> {lo..<lo + a + b}" using a by auto
  then have we: "m (adr g lo) \<noteq> None" "m (adr g (lo + a - 1)) \<noteq> None" using w by blast+
  define m1 where "m1 = m(adr g lo \<mapsto> tagw a True, adr g (lo + a - 1) \<mapsto> tagw a True)"
  have run1: "mark_block_used m (adr g lo) (ucast (of_nat a :: u64)) = Some m1"
    unfolding m1_def by (rule mark_block_used_raw) (use we a nb in auto)
  have w1: "m1 (adr g w) \<noteq> None" if "w \<in> {lo..<lo + a + b}" for w using w that by (simp add: m1_def)
  define m2 where "m2 = m1(adr g (lo + a) \<mapsto> tagw b False, adr g (lo + a + b - 1) \<mapsto> tagw b False, adr g (lo + a + 1) \<mapsto> 0, adr g (lo + a + 2) \<mapsto> 0)"
  have run2: "mark_block_free m1 (adr g (lo + a)) (ucast (of_nat b :: u64)) = Some m2"
    unfolding m2_def by (rule mark_block_free_raw) (use w1 nb a in auto)
  have ne: "adr g i = adr g j \<longleftrightarrow> i = j" if "i < lo + a + b" "j < lo + a + b" for i j
    using adr_eq [of i j g] that f hsD(9) [OF h] by auto
  have hd1: "m1 (adr g lo) = Some (tagw a True)" by (simp add: m1_def)
  have nx: "next_blk m1 (adr g lo) = Some (adr g (lo + a))"
    using tag_size_tagw [OF nb(3)] by (simp add: next_blk_def ld64_def hd1 WSIZE_def adr_add)
  have dm1: "dom m1 = dom m" unfolding m1_def using we by auto
  then have dm: "dom m2 = dom m" unfolding m2_def using w1 a by (auto simp: dom_upd)
  have keep: "m2 x = m x" if "x \<notin> adr g ` ({lo, lo + a - 1} \<union> {lo + a..<lo + a + b})" for x
    using that a unfolding m1_def m2_def by auto
  have "hs g m2 (patch B lo (lo + a + b) [lo \<mapsto> (a, True), lo + a \<mapsto> (b, False)]) N X"
  proof (rule hs_patch [OF h c _ dm _ X])
    show "loc [lo \<mapsto> (a, True), lo + a \<mapsto> (b, False)] lo (lo + a + b)" by (rule loc_two [OF f(1) a(1) eb a(2,3)])
    show "m2 x = m x" if "x \<notin> adr g ` {lo..<lo + a + b}" for x
    proof (rule keep)
      have "{lo, lo + a - 1} \<union> {lo + a..<lo + a + b} \<subseteq> {lo..<lo + a + b}" using a by auto
      then show "x \<notin> adr g ` ({lo, lo + a - 1} \<union> {lo + a..<lo + a + b})" using that by blast
    qed
    show "m2 (adr g j) = Some (tagw s u) \<and> m2 (adr g (j + s - 1)) = Some (tagw s u)"
      if C: "[lo \<mapsto> (a, True), lo + a \<mapsto> (b, False)] j = Some (s, u)" for j s u
    proof -
      have "j = lo \<and> s = a \<and> u \<or> j = lo + a \<and> s = b \<and> \<not> u" using C a by (auto split: if_splits)
      moreover have "m2 (adr g lo) = Some (tagw a True)" "m2 (adr g (lo + a - 1)) = Some (tagw a True)"
        using a unfolding m2_def m1_def by (simp_all add: ne) linarith+
      moreover have "m2 (adr g (lo + a)) = Some (tagw b False)" "m2 (adr g (lo + a + b - 1)) = Some (tagw b False)"
        using a unfolding m2_def by (simp_all add: ne) linarith
      ultimately show ?thesis by auto
    qed
  qed
  then show ?thesis using run1 nx run2 dm keep by (auto simp: same_def)
qed

end
