(* ===== verification/Heap_Correct.thy ===== *)
theory Heap_Correct
  imports Heap_Layout
begin

text \<open>
  Correctness of the kernel heap: the invariant \<open>heap_inv\<close> (the blocks tile the heap, the free lists hold
  exactly the free blocks, no two neighbours are free) is established by initialisation and kept by every
  operation; allocation returns a block that was free or new and keeps the contents of every block in use.
\<close>

section \<open>Free and used blocks\<close>

definition no_adj :: "blocks \<Rightarrow> bool" where
  "no_adj B \<longleftrightarrow> (\<forall>k s. B k = Some (s, False) \<longrightarrow> k + s \<notin> free_blocks B)"

definition heap_inv :: "geo \<Rightarrow> mem \<Rightarrow> blocks \<Rightarrow> nat \<Rightarrow> bool" where
  "heap_inv g m B N \<longleftrightarrow> hs g m B N (free_blocks B) \<and> no_adj B"

definition fwords :: "blocks \<Rightarrow> nat set" where
  "fwords B = (\<Union>k\<in>free_blocks B. case B k of Some (s, u) \<Rightarrow> {k..<k + s} | None \<Rightarrow> {})"

definition used :: "blocks \<Rightarrow> (nat \<times> nat) set" where
  "used B = {(k, s). B k = Some (s, True)}"

lemma fwordsI: "B k = Some (s, False) \<Longrightarrow> {k..<k + s} \<subseteq> fwords B"
  by (force simp: fwords_def free_blocks_def)

lemma fwordsE:
  assumes "w \<in> fwords B"
  obtains k s where "B k = Some (s, False)" "k \<le> w" "w < k + s"
  using assms by (auto simp: fwords_def free_blocks_def split: option.splits)

lemma pw_fwords:
  assumes "tiling B N" "X \<subseteq> free_blocks B"
  shows "pw X \<subseteq> fwords B"
proof
  fix w assume "w \<in> pw X"
  then obtain k where k: "k \<in> X" "w \<in> pw {k}" by (auto simp: pw_Union [of X])
  then obtain s where s: "B k = Some (s, False)" using assms(2) free_blocksE by blast
  then show "w \<in> fwords B" using fwordsI [of B, OF s] pw_in_block [OF assms(1) s] k(2) by force
qed

lemma free_region_fwords:
  assumes t: "tiling B N" and c: "cut B N lo hi" and f: "\<And>j. j \<in> dom B \<Longrightarrow> lo \<le> j \<Longrightarrow> j < hi \<Longrightarrow> j \<in> free_blocks B"
  shows "{lo..<hi} \<subseteq> fwords B"
proof
  fix w assume w: "w \<in> {lo..<hi}"
  define j where "j = Max {j \<in> dom B. j \<le> w}"
  have fin: "finite {j \<in> dom B. j \<le> w}" by simp
  have ne: "{j \<in> dom B. j \<le> w} \<noteq> {}" using c w by (auto simp: cut_def)
  have j: "j \<in> dom B" "j \<le> w" using Max_in [OF fin ne] by (auto simp: j_def)
  have mx: "i \<le> j" if "i \<in> dom B" "i \<le> w" for i using Max_ge [OF fin] that by (simp add: j_def)
  have lo: "lo \<le> j" using mx c w by (auto simp: cut_def)
  then have "j \<in> free_blocks B" using f j w by auto
  then obtain s where s: "B j = Some (s, False)" using free_blocksE by blast
  have "w < j + s"
  proof (rule ccontr)
    assume "\<not> w < j + s"
    then have le: "j + s \<le> w" by simp
    have "j + s \<noteq> N" using le w c tilingD(4) [OF t] by (fastforce simp: cut_def)
    then have "j + s \<in> dom B" using tilingD(5) [OF t s] by simp
    then show False using mx [of "j + s"] le tilingD(3) [OF t s] by simp
  qed
  then show "w \<in> fwords B" using fwordsI [of B, OF s] j(2) by auto
qed

lemma heap_invD: "heap_inv g m B N \<Longrightarrow> hs g m B N (free_blocks B)" "heap_inv g m B N \<Longrightarrow> no_adj B"
  by (simp_all add: heap_inv_def)

section \<open>Coalescing\<close>

definition merge :: "blocks \<Rightarrow> nat \<Rightarrow> nat \<Rightarrow> blocks" where
  "merge B lo hi = patch B lo hi [lo \<mapsto> (hi - lo, False)]"

lemma merge_free: "lo < hi \<Longrightarrow> free_blocks (merge B lo hi) = insert lo (free_blocks B - {lo..<hi})"
  by (auto simp: free_blocks_def merge_def patch_def split: if_splits)

lemma merge_used:
  assumes "\<And>j. j \<in> dom B \<Longrightarrow> lo \<le> j \<Longrightarrow> j < hi \<Longrightarrow> j \<in> free_blocks B"
  shows "used (merge B lo hi) = used B"
  using assms by (fastforce simp: used_def merge_def patch_def free_blocks_def split: if_splits)

lemma merge_no_adj:
  assumes t: "tiling B N" and c: "cut B N lo hi" and hi: "hi \<notin> free_blocks B" and lo: "\<not> prev_free B lo"
    and adj: "\<And>j t. B j = Some (t, False) \<Longrightarrow> j + t \<in> free_blocks B \<Longrightarrow> lo \<le> j \<and> j + t < hi"
  shows "no_adj (merge B lo hi)"
  unfolding no_adj_def
proof (intro allI impI)
  fix k s assume k: "merge B lo hi k = Some (s, False)"
  have lh: "lo < hi" using c by (simp add: cut_def)
  show "k + s \<notin> free_blocks (merge B lo hi)"
  proof (cases "lo \<le> k \<and> k < hi")
    case True
    then have "k = lo" "s = hi - lo" using k by (auto simp: merge_def patch_def split: if_splits)
    then show ?thesis using hi lh by (simp add: merge_free)
  next
    case False
    then have b: "B k = Some (s, False)" using k by (auto simp: merge_def patch_def)
    then have "k + s \<noteq> lo" using lo by (auto simp: prev_free_def)
    moreover have "k + s \<notin> free_blocks B" using adj [OF b] False tilingD(3) [OF t b] by auto
    ultimately show ?thesis using lh by (simp add: merge_free)
  qed
qed

lemma merge_hs:
  assumes h: "hs g m B N (free_blocks B - {lo..<hi})" and c: "cut B N lo hi" and n: "n = hi - lo"
    and f: "\<And>j. j \<in> dom B \<Longrightarrow> lo \<le> j \<Longrightarrow> j < hi \<Longrightarrow> j \<in> free_blocks B"
  shows "\<exists>m1 m'. mark_block_free m (adr g lo) (ucast (of_nat n :: u64)) = Some m1 \<and>
    (\<forall>w. w \<in> {lo..<hi} - {lo, lo + 1, lo + 2, hi - 1} \<longrightarrow> m1 (adr g w) = m (adr g w)) \<and>
    push_free (flb g) m1 (adr g lo) = Some m' \<and>
    hs g m' (merge B lo hi) N (free_blocks (merge B lo hi)) \<and> same g (fwords B) m m'"
proof -
  note h' = hsD [OF h] and cf = cut_facts [OF h c]
  have reg: "{lo..<hi} \<subseteq> fwords B" by (rule free_region_fwords [OF h'(3) c f])
  obtain m1 where m1: "mark_block_free m (adr g lo) (ucast (of_nat n :: u64)) = Some m1"
      "hs g m1 (merge B lo hi) N (free_blocks B - {lo..<hi})" "same g {lo, lo + 1, lo + 2, hi - 1} m m1"
    using mark_free_hs [OF h c _ n] n by (auto simp: merge_def)
  have lo: "merge B lo hi lo = Some (n, False)" using n cf by (simp add: merge_def patch_def)
  obtain m' where m': "push_free (flb g) m1 (adr g lo) = Some m'" "hs g m' (merge B lo hi) N (insert lo (free_blocks B - {lo..<hi}))"
      "same g (pw (insert lo (free_blocks B - {lo..<hi}))) m1 m'"
    using push_hs [OF m1(2) lo] cf by auto
  have "pw (insert lo (free_blocks B - {lo..<hi})) \<subseteq> fwords B"
  proof -
    have "pw (free_blocks B - {lo..<hi}) \<subseteq> fwords B" by (rule pw_fwords [OF h'(3)]) simp
    moreover have "{lo + 1, lo + 2} \<subseteq> {lo..<hi}" using cf by auto
    ultimately show ?thesis using reg by (auto simp: pw_un)
  qed
  then have s2: "same g (fwords B) m1 m'" using m'(3) same_mono by blast
  have "{lo, lo + 1, lo + 2, hi - 1} \<subseteq> {lo..<hi}" using cf by auto
  then have s1: "same g (fwords B) m m1" using m1(3) same_mono reg by (meson subset_trans)
  have kw: "m1 (adr g w) = m (adr g w)" if w: "w \<in> {lo..<hi} - {lo, lo + 1, lo + 2, hi - 1}" for w
  proof -
    have wl: "w \<le> lim g" "{lo, lo + 1, lo + 2, hi - 1} \<subseteq> {..lim g}" using w cf by auto
    have "adr g w \<notin> adr g ` {lo, lo + 1, lo + 2, hi - 1}" using adr_in [OF h'(1) wl] w by blast
    then show ?thesis using m1(3) adr_heads [OF h'(1) wl(1)] by (simp add: same_def)
  qed
  show ?thesis
    using m1(1) kw m'(1,2) same_trans [OF s1 s2] cf(6) by (auto simp: merge_free)
qed

lemma block_dom:
  assumes "tiling B N" "B k = Some (s, u)"
  shows "dom B \<inter> {k..<k + s} = {k}"
proof -
  have False if "j \<in> dom B" "k < j" "j < k + s" for j using tilingD(7) [OF assms that(1,2)] that(3) by simp
  then show ?thesis using assms(2) tilingD(3) [OF assms] by force
qed

lemma block_dom2:
  assumes "tiling B N" "B k = Some (s, u)" "B (k + s) = Some (t, v)"
  shows "dom B \<inter> {k..<k + s + t} = {k, k + s}"
proof -
  have "{k..<k + s + t} = {k..<k + s} \<union> {k + s..<k + s + t}" by auto
  then show ?thesis using block_dom [OF assms(1,2)] block_dom [OF assms(1,3)] by (simp only: Int_Un_distrib) blast
qed

lemma block_dom3:
  assumes "tiling B N" "B k = Some (s, u)" "B (k + s) = Some (t, v)" "B (k + s + t) = Some (r, w)"
  shows "dom B \<inter> {k..<k + s + t + r} = {k, k + s, k + s + t}"
proof -
  have "{k..<k + s + t + r} = {k..<k + s + t} \<union> {k + s + t..<k + s + t + r}" by auto
  then show ?thesis using block_dom2 [OF assms(1-3)] block_dom [OF assms(1,4)] by (simp only: Int_Un_distrib) blast
qed

lemma free_minus: "free_blocks B - R = free_blocks B - (dom B \<inter> R)"
  by (auto simp: free_blocks_def)

lemma merge_fwords:
  assumes t: "tiling B N" and c: "cut B N lo hi" and f: "\<And>j. j \<in> dom B \<Longrightarrow> lo \<le> j \<Longrightarrow> j < hi \<Longrightarrow> j \<in> free_blocks B"
  shows "fwords (merge B lo hi) \<subseteq> fwords B"
proof
  fix w assume "w \<in> fwords (merge B lo hi)"
  then obtain k s where k: "merge B lo hi k = Some (s, False)" "k \<le> w" "w < k + s" by (rule fwordsE)
  show "w \<in> fwords B"
  proof (cases "lo \<le> k \<and> k < hi")
    case True
    then have "w \<in> {lo..<hi}" using k by (auto simp: merge_def patch_def split: if_splits)
    then show ?thesis using free_region_fwords [OF t c f] by blast
  next
    case False
    then have "B k = Some (s, False)" using k by (auto simp: merge_def patch_def)
    then show ?thesis using fwordsI [of B] k by fastforce
  qed
qed

text \<open>What coalescing achieves, from any of its cases.\<close>
definition coalesced :: "geo \<Rightarrow> mem \<Rightarrow> blocks \<Rightarrow> nat \<Rightarrow> nat \<Rightarrow> (u64 \<times> mem) option \<Rightarrow> bool" where
  "coalesced g m B N s r \<longleftrightarrow> (\<exists>m' k' s' B'. r = Some (adr g k', m') \<and> heap_inv g m' B' N \<and> B' k' = Some (s', False) \<and> s \<le> s' \<and>
     used B' = used B \<and> fwords B' \<subseteq> fwords B \<and> same g (fwords B) m m')"

lemma coalescedI:
  assumes t: "tiling B N" and c: "cut B N lo hi" and f: "\<And>j. j \<in> dom B \<Longrightarrow> lo \<le> j \<Longrightarrow> j < hi \<Longrightarrow> j \<in> free_blocks B"
    and hi: "hi \<notin> free_blocks B" and lo: "\<not> prev_free B lo"
    and adj: "\<And>j t. B j = Some (t, False) \<Longrightarrow> j + t \<in> free_blocks B \<Longrightarrow> lo \<le> j \<and> j + t < hi"
    and h: "hs g m' (merge B lo hi) N (free_blocks (merge B lo hi))" and s: "same g (fwords B) m m'" and n: "n \<le> hi - lo"
  shows "coalesced g m B N n (Some (adr g lo, m'))"
proof -
  have "merge B lo hi lo = Some (hi - lo, False)" using c by (simp add: merge_def patch_def cut_def)
  moreover have "used (merge B lo hi) = used B" by (rule merge_used [OF f])
  moreover have "fwords (merge B lo hi) \<subseteq> fwords B" by (rule merge_fwords [OF t c f])
  moreover have "no_adj (merge B lo hi)" by (rule merge_no_adj [OF t c hi lo adj])
  ultimately show ?thesis unfolding coalesced_def heap_inv_def using h s n by blast
qed

lemma unlink_fw:
  assumes "hs g m B N X" "j \<in> X"
  shows "\<exists>m'. unlink m (adr g j) = Some m' \<and> hs g m' B N (X - {j}) \<and> same g (fwords B) m m'"
proof -
  obtain m' where "unlink m (adr g j) = Some m'" "hs g m' B N (X - {j})" "same g (pw X) m m'" using unlink_hs [OF assms] by blast
  then show ?thesis using same_mono pw_fwords [OF hsD(3) [OF assms(1)] hsD(6) [OF assms(1)]] by blast
qed

text \<open>The only free neighbours of free blocks are those of block \<open>k\<close>.\<close>
definition adj_at :: "blocks \<Rightarrow> nat \<Rightarrow> bool" where
  "adj_at B k \<longleftrightarrow> (\<forall>j t. B j = Some (t, False) \<longrightarrow> j + t \<in> free_blocks B \<longrightarrow> j = k \<or> j + t = k)"

lemma adj_atD: "adj_at B k \<Longrightarrow> B j = Some (t, False) \<Longrightarrow> j + t \<in> free_blocks B \<Longrightarrow> j = k \<or> j + t = k"
  by (simp add: adj_at_def)

text \<open>What \<^verbatim>\<open>coalesce\<close> reads first.\<close>
lemma join_entry:
  assumes h: "hs g m B N X" and k: "B k = Some (s, u)"
  obtains pv where "ld64 m (prev_blk_footer (adr g k)) = Some pv" "tag_inuse pv = (\<not> prev_free B k)"
    "next_blk m (adr g k) = Some (adr g (k + s))" "blk_free m (adr g (k + s)) = Some (k + s \<in> free_blocks B)"
    "blk_size m (adr g k) = Some (of_nat s)"
  using next_tag [OF h k] prev_tag [OF h k] hs_reads [OF h k] by blast

lemma join_none:
  assumes h: "hs g m B N (free_blocks B)" and k: "B k = Some (s, False)" and adj: "adj_at B k"
    and p: "\<not> prev_free B k" and n: "k + s \<notin> free_blocks B"
  shows "coalesced g m B N s (heap_coalesce (flb g) m (adr g k))"
proof -
  obtain pv where pv: "ld64 m (prev_blk_footer (adr g k)) = Some pv" "tag_inuse pv = (\<not> prev_free B k)"
      "next_blk m (adr g k) = Some (adr g (k + s))" "blk_free m (adr g (k + s)) = Some (k + s \<in> free_blocks B)"
      "blk_size m (adr g k) = Some (of_nat s)"
    by (rule join_entry [OF h k])
  have "no_adj B" unfolding no_adj_def using adj p n k unfolding prev_free_def adj_at_def by fastforce
  then show ?thesis
    using pv p n h k unfolding coalesced_def heap_inv_def by (auto simp: heap_coalesce_def)
qed

lemma join_next:
  assumes h: "hs g m B N (free_blocks B)" and k: "B k = Some (s, False)" and adj: "adj_at B k"
    and np: "\<not> prev_free B k" and t: "B (k + s) = Some (t, False)"
  shows "coalesced g m B N s (heap_coalesce (flb g) m (adr g k))"
proof -
  let ?F = "free_blocks B"
  note h' = hsD [OF h] and tk = tilingD [OF hsD(3) [OF h] k] and tt = tilingD [OF hsD(3) [OF h] t]
  obtain pv where pv: "ld64 m (prev_blk_footer (adr g k)) = Some pv" "tag_inuse pv = (\<not> prev_free B k)"
      "next_blk m (adr g k) = Some (adr g (k + s))" "blk_free m (adr g (k + s)) = Some (k + s \<in> free_blocks B)"
      "blk_size m (adr g k) = Some (of_nat s)"
    by (rule join_entry [OF h k])
  have F: "k \<in> ?F" "k + s \<in> ?F" using k t by (simp_all add: free_blocks_def)
  obtain m1 where m1: "unlink m (adr g k) = Some m1" "hs g m1 B N (?F - {k})" "same g (fwords B) m m1"
    using unlink_fw [OF h F(1)] by blast
  obtain m2 where m2: "unlink m1 (adr g (k + s)) = Some m2" "hs g m2 B N (?F - {k} - {k + s})" "same g (fwords B) m1 m2"
    using unlink_fw [OF m1(2), of "k + s"] F tk by auto
  have X: "?F - {k} - {k + s} = ?F - {k..<k + s + t}"
    unfolding free_minus [of B "{k..<k + s + t}"] block_dom2 [OF h'(3) k t] by blast
  have c: "cut B N k (k + s + t)" using k tk tt by (auto simp: cut_def)
  have f: "j \<in> ?F" if "j \<in> dom B" "k \<le> j" "j < k + s + t" for j
  proof -
    have "j \<in> dom B \<inter> {k..<k + s + t}" using that by simp
    then show ?thesis unfolding block_dom2 [OF h'(3) k t] using F by blast
  qed
  obtain m3 m4 where m4: "mark_block_free m2 (adr g k) (ucast (of_nat (s + t) :: u64)) = Some m3"
      "push_free (flb g) m3 (adr g k) = Some m4" "hs g m4 (merge B k (k + s + t)) N (free_blocks (merge B k (k + s + t)))"
      "same g (fwords B) m2 m4"
    using merge_hs [OF m2(2) [unfolded X] c _ f, of "s + t"] by auto
  have "heap_coalesce (flb g) m (adr g k) = Some (adr g k, m4)"
    using np F pv m1(1) hs_reads [OF m1(2) k] m2(1) hs_reads [OF m2(2) k] hs_reads [OF m2(2) t] m4(1,2)
    by (simp add: heap_coalesce_def)
  moreover have "coalesced g m B N s (Some (adr g k, m4))"
  proof (rule coalescedI [OF h'(3) c f _ np _ m4(3)])
    show "k + s + t \<notin> ?F" using adj_atD [OF adj t] tk tt by auto
    show "k \<le> j \<and> j + t' < k + s + t" if "B j = Some (t', False)" "j + t' \<in> ?F" for j t'
      using adj_atD [OF adj that] np that(1) tt k unfolding prev_free_def by auto
    show "same g (fwords B) m m4" using same_trans m1(3) m2(3) m4(4) by blast
  qed auto
  ultimately show ?thesis by simp
qed

lemma prev_not_free:
  assumes t: "tiling B N" and p: "B p = Some (q, False)" and adj: "adj_at B (p + q)"
  shows "\<not> prev_free B p"
proof
  assume "prev_free B p"
  then obtain j t where j: "B j = Some (t, False)" "j + t = p" unfolding prev_free_def by blast
  moreover have "p \<in> free_blocks B" using p by (simp add: free_blocks_def)
  ultimately show False using adj_atD [OF adj j(1)] tilingD(3) [OF t p] tilingD(3) [OF t j(1)] by auto
qed

lemma join_prev:
  assumes h: "hs g m B N (free_blocks B)" and k: "B (p + q) = Some (s, False)" and adj: "adj_at B (p + q)"
    and p: "B p = Some (q, False)" and n: "p + q + s \<notin> free_blocks B"
  shows "coalesced g m B N s (heap_coalesce (flb g) m (adr g (p + q)))"
proof -
  let ?F = "free_blocks B" and ?k = "p + q"
  note h' = hsD [OF h] and tk = tilingD [OF hsD(3) [OF h] k] and tp = tilingD [OF hsD(3) [OF h] p]
  have pf: "prev_free B ?k" using p by (auto simp: prev_free_def)
  obtain pv where pv: "ld64 m (prev_blk_footer (adr g ?k)) = Some pv" "tag_inuse pv = (\<not> prev_free B ?k)"
      "next_blk m (adr g ?k) = Some (adr g (?k + s))" "blk_free m (adr g (?k + s)) = Some (?k + s \<in> free_blocks B)"
      "blk_size m (adr g ?k) = Some (of_nat s)"
    by (rule join_entry [OF h k])
  have F: "?k \<in> ?F" "p \<in> ?F" using k p by (simp_all add: free_blocks_def)
  obtain m1 where m1: "unlink m (adr g ?k) = Some m1" "hs g m1 B N (?F - {?k})" "same g (fwords B) m m1"
    using unlink_fw [OF h F(1)] by blast
  obtain m2 where m2: "unlink m1 (adr g p) = Some m2" "hs g m2 B N (?F - {?k} - {p})" "same g (fwords B) m1 m2"
    using unlink_fw [OF m1(2), of p] F tp by auto
  have X: "?F - {?k} - {p} = ?F - {p..<?k + s}"
    unfolding free_minus [of B "{p..<p + q + s}"] block_dom2 [OF h'(3) p k] by blast
  have c: "cut B N p (?k + s)" using p tp tk by (auto simp: cut_def)
  have f: "j \<in> ?F" if "j \<in> dom B" "p \<le> j" "j < ?k + s" for j
  proof -
    have "j \<in> dom B \<inter> {p..<p + q + s}" using that by simp
    then show ?thesis unfolding block_dom2 [OF h'(3) p k] using F by blast
  qed
  have sz: "s + q = ?k + s - p" by simp
  obtain m3 m4 where m4: "mark_block_free m2 (adr g p) (ucast (of_nat (s + q) :: u64)) = Some m3"
      "push_free (flb g) m3 (adr g p) = Some m4" "hs g m4 (merge B p (?k + s)) N (free_blocks (merge B p (?k + s)))"
      "same g (fwords B) m2 m4"
    using merge_hs [OF m2(2) [unfolded X] c sz f] by blast
  have "heap_coalesce (flb g) m (adr g ?k) = Some (adr g p, m4)"
    using n pf pv m1(1) prev_block [OF m1(2) p] m2(1) prev_block [OF m2(2) p] hs_reads [OF m2(2) p] m4(1,2)
    by (simp add: heap_coalesce_def)
  moreover have "coalesced g m B N s (Some (adr g p, m4))"
  proof (rule coalescedI [OF h'(3) c f n prev_not_free [OF h'(3) p adj] _ m4(3)])
    show "p \<le> j \<and> j + t' < ?k + s" if jt: "B j = Some (t', False)" "j + t' \<in> ?F" for j t'
    proof -
      have "j \<noteq> ?k" using jt n k by auto
      then have "j + t' = p + q" using adj_atD [OF adj jt] by simp
      moreover from this have "j = p" by (rule prev_unique [OF h'(3) jt(1) p])
      ultimately show ?thesis using tk by simp
    qed
    show "same g (fwords B) m m4" using same_trans m1(3) m2(3) m4(4) by blast
  qed auto
  ultimately show ?thesis by simp
qed

lemma join_both:
  assumes h: "hs g m B N (free_blocks B)" and k: "B (p + q) = Some (s, False)" and adj: "adj_at B (p + q)"
    and p: "B p = Some (q, False)" and t: "B (p + q + s) = Some (t, False)"
  shows "coalesced g m B N s (heap_coalesce (flb g) m (adr g (p + q)))"
proof -
  let ?F = "free_blocks B" and ?k = "p + q" and ?hi = "p + q + s + t"
  note h' = hsD [OF h] and tk = tilingD [OF hsD(3) [OF h] k] and tp = tilingD [OF hsD(3) [OF h] p] and tt = tilingD [OF hsD(3) [OF h] t]
  have pf: "prev_free B ?k" using p by (auto simp: prev_free_def)
  obtain pv where pv: "ld64 m (prev_blk_footer (adr g ?k)) = Some pv" "tag_inuse pv = (\<not> prev_free B ?k)"
      "next_blk m (adr g ?k) = Some (adr g (?k + s))" "blk_free m (adr g (?k + s)) = Some (?k + s \<in> free_blocks B)"
      "blk_size m (adr g ?k) = Some (of_nat s)"
    by (rule join_entry [OF h k])
  have F: "?k \<in> ?F" "p \<in> ?F" "?k + s \<in> ?F" using k p t by (simp_all add: free_blocks_def)
  obtain m1 where m1: "unlink m (adr g ?k) = Some m1" "hs g m1 B N (?F - {?k})" "same g (fwords B) m m1"
    using unlink_fw [OF h F(1)] by blast
  obtain m2 where m2: "unlink m1 (adr g p) = Some m2" "hs g m2 B N (?F - {?k} - {p})" "same g (fwords B) m1 m2"
    using unlink_fw [OF m1(2), of p] F tp by auto
  obtain m3 where m3: "unlink m2 (adr g (?k + s)) = Some m3" "hs g m3 B N (?F - {?k} - {p} - {?k + s})" "same g (fwords B) m2 m3"
    using unlink_fw [OF m2(2), of "?k + s"] F tk tp by auto
  have X: "?F - {?k} - {p} - {?k + s} = ?F - {p..<?hi}"
    unfolding free_minus [of B "{p..<p + q + s + t}"] block_dom3 [OF h'(3) p k t] by blast
  have c: "cut B N p ?hi" using p tp tk tt by (auto simp: cut_def)
  have f: "j \<in> ?F" if "j \<in> dom B" "p \<le> j" "j < ?hi" for j
  proof -
    have "j \<in> dom B \<inter> {p..<p + q + s + t}" using that by simp
    then show ?thesis unfolding block_dom3 [OF h'(3) p k t] using F by blast
  qed
  have sz: "s + t + q = ?hi - p" by simp
  obtain m4 m5 where m5: "mark_block_free m3 (adr g p) (ucast (of_nat (s + t + q) :: u64)) = Some m4"
      "\<forall>w. w \<in> {p..<?hi} - {p, p + 1, p + 2, ?hi - 1} \<longrightarrow> m4 (adr g w) = m3 (adr g w)"
      "push_free (flb g) m4 (adr g p) = Some m5" "hs g m5 (merge B p ?hi) N (free_blocks (merge B p ?hi))"
      "same g (fwords B) m3 m5"
    using merge_hs [OF m3(2) [unfolded X] c sz f] by blast
  have "p + q - 1 \<in> {p..<?hi} - {p, p + 1, p + 2, ?hi - 1}" using tp(3) tk(3) tt(3) by auto
  then have "ld64 m4 (adr g (p + q - 1)) = ld64 m3 (adr g (p + q - 1))" using m5(2) by (simp add: ld64_def)
  moreover have "prev_blk_footer (adr g ?k) = adr g (p + q - 1)"
    using adr_Suc(2) [of g "?k - 1"] tk(6) by (simp add: prev_blk_footer_def)
  ultimately have "prev_blk m4 (adr g ?k) = Some (adr g p)"
    using prev_block [OF m3(2) p] by (simp add: prev_blk_def)
  then have "heap_coalesce (flb g) m (adr g ?k) = Some (adr g p, m5)"
    using pf F pv m1(1) prev_block [OF m1(2) p] m2(1) hs_reads [OF m2(2) k] m3(1) prev_block [OF m3(2) p] hs_reads [OF m3(2) k]
      hs_reads [OF m3(2) p] hs_reads [OF m3(2) t] m5(1,3)
    by (simp add: heap_coalesce_def)
  moreover have "coalesced g m B N s (Some (adr g p, m5))"
  proof (rule coalescedI [OF h'(3) c f _ prev_not_free [OF h'(3) p adj] _ m5(4)])
    show "?hi \<notin> ?F" using adj_atD [OF adj t] tk tt by auto
    show "p \<le> j \<and> j + t' < ?hi" if jt: "B j = Some (t', False)" "j + t' \<in> ?F" for j t'
    proof (cases "j = ?k")
      case False
      then have "j + t' = p + q" using adj_atD [OF adj jt] by simp
      moreover from this have "j = p" by (rule prev_unique [OF h'(3) jt(1) p])
      ultimately show ?thesis using tk by simp
    qed (use jt k tt in auto)
    show "same g (fwords B) m m5" using same_trans m1(3) m2(3) m3(3) m5(5) by blast
  qed auto
  ultimately show ?thesis by simp
qed

lemma join_ok:
  assumes h: "hs g m B N (free_blocks B)" and k: "B k = Some (s, False)" and adj: "adj_at B k"
  shows "coalesced g m B N s (heap_coalesce (flb g) m (adr g k))"
proof (cases "prev_free B k")
  case False
  then show ?thesis
    using join_none [OF h k adj False] join_next [OF h k adj False] free_blocksE [of "k + s" B] by blast
next
  case True
  then obtain p q where p: "B p = Some (q, False)" "k = p + q" unfolding prev_free_def by blast
  then show ?thesis
    using join_prev [of g m B N p q s] join_both [of g m B N p q s] h k adj free_blocksE [of "k + s" B] by blast
qed

section \<open>Placing a block\<close>

lemma patch_free: "free_blocks (patch B lo hi C) = (free_blocks B - {lo..<hi}) \<union> (free_blocks C \<inter> {lo..<hi})"
  by (auto simp: free_blocks_def patch_def)

lemma patch_used: "used (patch B lo hi C) = {x \<in> used B. fst x \<notin> {lo..<hi}} \<union> {x \<in> used C. fst x \<in> {lo..<hi}}"
  by (auto simp: used_def patch_def split: if_splits)

lemma patch_fwords:
  assumes t: "tiling B N" and c: "cut B N lo hi" and l: "loc C lo hi"
  shows "fwords (patch B lo hi C) \<subseteq> (fwords B - {lo..<hi}) \<union> fwords C"
proof
  fix w assume "w \<in> fwords (patch B lo hi C)"
  then obtain k s where k: "patch B lo hi C k = Some (s, False)" "k \<le> w" "w < k + s" by (rule fwordsE)
  show "w \<in> (fwords B - {lo..<hi}) \<union> fwords C"
  proof (cases "lo \<le> k \<and> k < hi")
    case True
    then have "C k = Some (s, False)" using k(1) by (simp add: patch_def)
    then show ?thesis using fwordsI [of C] k by fastforce
  next
    case False
    then have b: "B k = Some (s, False)" using k(1) by (auto simp: patch_def)
    then have "k + s \<le> lo \<or> hi \<le> k" using False tilingD(7) [OF t b, of lo] c by (auto simp: cut_def)
    then show ?thesis using fwordsI [of B, OF b] k by auto
  qed
qed

lemma fwords_one: "fwords [k \<mapsto> (s, u)] = (if u then {} else {k..<k + s})"
  by (auto simp: fwords_def free_blocks_def split: if_splits)

lemma fwords_two: "8 \<le> a \<Longrightarrow> fwords [k \<mapsto> (a, True), k + a \<mapsto> (b, False)] \<subseteq> {k + a..<k + a + b}"
  by (auto simp: fwords_def free_blocks_def split: if_splits)

lemma no_adj_split:
  assumes t: "tiling B N" and na: "no_adj B" and k: "B k = Some (c, u)" and nx: "k + c \<notin> free_blocks B"
    and ab: "a + b = c" "0 < a" "0 < b"
  shows "no_adj (patch B k (k + c) [k \<mapsto> (a, True), k + a \<mapsto> (b, False)])" (is "no_adj ?B")
  unfolding no_adj_def
proof (intro allI impI)
  fix j s assume j: "?B j = Some (s, False)"
  have F: "free_blocks ?B \<subseteq> insert (k + a) (free_blocks B - {k..<k + c})"
    unfolding patch_free using ab by (auto simp: free_blocks_def split: if_splits)
  show "j + s \<notin> free_blocks ?B"
  proof (cases "k \<le> j \<and> j < k + c")
    case True
    then have "j + s = k + c" using j ab by (auto simp: patch_def split: if_splits)
    then show ?thesis using F nx ab by auto
  next
    case False
    then have b: "B j = Some (s, False)" using j by (auto simp: patch_def)
    then have "j + s \<notin> free_blocks B" using na by (simp add: no_adj_def)
    moreover have "j + s \<noteq> k + a" using blocks_apart [OF t b k] False ab by auto
    ultimately show ?thesis using F by blast
  qed
qed

lemma no_adj_use:
  assumes t: "tiling B N" and na: "no_adj B" and k: "B k = Some (c, u)"
  shows "no_adj (patch B k (k + c) [k \<mapsto> (c, True)])" (is "no_adj ?B")
  unfolding no_adj_def
proof (intro allI impI)
  fix j s assume j: "?B j = Some (s, False)"
  then have "B j = Some (s, False)" by (auto simp: patch_def split: if_splits)
  then have "j + s \<notin> free_blocks B" using na by (simp add: no_adj_def)
  then show "j + s \<notin> free_blocks ?B" unfolding patch_free by (auto simp: free_blocks_def split: if_splits)
qed

text \<open>What placing a request of \<open>a\<close> words at block \<open>k\<close> achieves.\<close>
definition placed :: "geo \<Rightarrow> mem \<Rightarrow> blocks \<Rightarrow> nat \<Rightarrow> nat \<Rightarrow> nat \<Rightarrow> mem \<Rightarrow> blocks \<Rightarrow> bool" where
  "placed g m B N k a m' B' \<longleftrightarrow> heap_inv g m' B' N \<and> (\<exists>s. a \<le> s \<and> s < a + 8 \<and> used B' = insert (k, s) (used B) \<and>
     {k..<k + s} \<subseteq> fwords B \<and> fwords B' \<subseteq> fwords B - {k..<k + s}) \<and> same g (fwords B) m m'"

lemma word_ge8: "n < 2 ^ 63 \<Longrightarrow> (8 :: u64) \<le> of_nat n \<longleftrightarrow> 8 \<le> n"
  using u64_of_nat_le [of 8 n] by simp

lemma place_split:
  assumes i: "heap_inv g m B N" and k: "B k = Some (a + b, False)" and a: "even a" "8 \<le> a" "8 \<le> b"
  shows "\<exists>m' B'. place (flb g) m (adr g k) (of_nat a) = Some m' \<and> placed g m B N k a m' B'"
proof -
  let ?c = "a + b" and ?C = "[k \<mapsto> (a, True), k + a \<mapsto> (b, False)]"
  let ?B = "patch B k (k + ?c) ?C"
  note h = heap_invD(1) [OF i] and h' = hsD [OF heap_invD(1) [OF i]]
  note tk = tilingD [OF h'(3) k] and kd = block_dom [OF h'(3) k]
  have F: "k \<in> free_blocks B" using k by (simp add: free_blocks_def)
  have cut: "cut B N k (k + ?c)" using k tk by (auto simp: cut_def)
  have reg: "{k..<k + ?c} \<subseteq> fwords B" by (rule fwordsI [of B, OF k])
  obtain m1 where m1: "unlink m (adr g k) = Some m1" "hs g m1 B N (free_blocks B - {k})" "same g (fwords B) m m1"
    using unlink_fw [OF h F] by blast
  have X: "(free_blocks B - {k}) \<inter> {k..<k + a + b} = {}"
    using kd free_dom [of "free_blocks B" B] by (force simp: add.assoc)
  obtain m2 m3 where m3: "mark_block_used m1 (adr g k) (ucast (of_nat a :: u64)) = Some m2" "next_blk m2 (adr g k) = Some (adr g (k + a))"
      "mark_block_free m2 (adr g (k + a)) (ucast (of_nat b :: u64)) = Some m3" "hs g m3 ?B N (free_blocks B - {k})"
      "same g ({k, k + a - 1} \<union> {k + a..<k + a + b}) m1 m3"
    using mark_split_hs [OF m1(2) _ X a] cut by (auto simp: add.assoc)
  have kb: "?B (k + a) = Some (b, False)" using a by (simp add: patch_def)
  have nF: "free_blocks ?B = insert (k + a) (free_blocks B - {k})"
    using X a unfolding patch_free by (auto simp: free_blocks_def split: if_splits)
  have "k + a \<notin> free_blocks B - {k}" using X a by (auto simp: disjoint_iff)
  then obtain m4 where m4: "push_free (flb g) m3 (adr g (k + a)) = Some m4" "hs g m4 ?B N (free_blocks ?B)" "same g (pw (free_blocks ?B)) m3 m4"
    using push_hs [OF m3(4) kb] unfolding nF by blast
  have l: "loc ?C k (k + ?c)" using loc_two [of k a b True False] tk a by (simp add: add.assoc)
  have fw: "fwords ?B \<subseteq> fwords B - {k..<k + a}"
    using patch_fwords [OF h'(3) cut l] fwords_two [OF a(2), of k b] reg a by fastforce
  have "{k, k + a - 1} \<union> {k + a..<k + a + b} \<subseteq> {k..<k + ?c}" using a by auto
  then have "same g (fwords B) m1 m3" using same_mono [OF m3(5)] reg by (meson subset_trans)
  moreover have "same g (fwords B) m3 m4" using same_mono [OF m4(3)] pw_fwords [OF hsD(3,6) [OF m4(2)]] fw by blast
  ultimately have s: "same g (fwords B) m m4" using m1(3) same_trans by blast
  have "used ?B = insert (k, a) (used B)"
  proof -
    have "j = k" if "B j = Some x" "k \<le> j" "j < k + ?c" for j x using kd that by (auto simp: set_eq_iff)
    then show ?thesis using k a unfolding patch_used by (fastforce simp: used_def split: if_splits)
  qed
  moreover have "heap_inv g m4 ?B N"
    unfolding heap_inv_def using m4(2) no_adj_split [OF h'(3) heap_invD(2) [OF i] k] heap_invD(2) [OF i] k a by (simp add: no_adj_def)
  moreover have "{k..<k + a} \<subseteq> fwords B" using reg by auto
  ultimately have "placed g m B N k a m4 ?B" unfolding placed_def using s fw by (intro conjI exI [of _ a]) auto
  moreover have "b < 2 ^ 63" using hs_size [OF h k] by simp
  then have "place (flb g) m (adr g k) (of_nat a) = Some m4"
    using hs_reads [OF h k] m1(1) m3(1-3) m4(1) a(3) word_ge8 [of b] by (simp add: place_def MIN_BLOCK_SIZE_WORDS_def)
  ultimately show ?thesis by blast
qed

lemma place_whole:
  assumes i: "heap_inv g m B N" and k: "B k = Some (c, False)" and a: "a \<le> c" "c < a + 8"
  shows "\<exists>m' B'. place (flb g) m (adr g k) (of_nat a) = Some m' \<and> placed g m B N k a m' B'"
proof -
  let ?B = "patch B k (k + c) [k \<mapsto> (c, True)]"
  note h = heap_invD(1) [OF i] and h' = hsD [OF heap_invD(1) [OF i]]
  note tk = tilingD [OF h'(3) k] and kd = block_dom [OF h'(3) k]
  have F: "k \<in> free_blocks B" using k by (simp add: free_blocks_def)
  have cut: "cut B N k (k + c)" using k tk by (auto simp: cut_def)
  have reg: "{k..<k + c} \<subseteq> fwords B" by (rule fwordsI [of B, OF k])
  obtain m1 where m1: "unlink m (adr g k) = Some m1" "hs g m1 B N (free_blocks B - {k})" "same g (fwords B) m m1"
    using unlink_fw [OF h F] by blast
  have X: "(free_blocks B - {k}) \<inter> {k..<k + c} = {}"
    using kd free_dom [of "free_blocks B" B] by force
  obtain m2 where m2: "mark_block_used m1 (adr g k) (ucast (of_nat c :: u64)) = Some m2" "hs g m2 ?B N (free_blocks B - {k})"
      "same g {k, k + c - 1} m1 m2"
    using mark_used_hs [OF m1(2) cut X] by auto
  have nF: "free_blocks ?B = free_blocks B - {k}"
    using X tk(3) unfolding patch_free by (auto simp: free_blocks_def split: if_splits)
  have l: "loc [k \<mapsto> (c, True)] k (k + c)" using loc_one [of k c True] tk by simp
  have fw: "fwords ?B \<subseteq> fwords B - {k..<k + c}" using patch_fwords [OF h'(3) cut l] by (simp add: fwords_one)
  have "{k, k + c - 1} \<subseteq> {k..<k + c}" using tk(3) by auto
  then have "same g (fwords B) m1 m2" using same_mono [OF m2(3)] reg by (meson subset_trans)
  then have s: "same g (fwords B) m m2" using m1(3) same_trans by blast
  have "used ?B = insert (k, c) (used B)"
  proof -
    have "j = k" if "B j = Some x" "k \<le> j" "j < k + c" for j x using kd that by (auto simp: set_eq_iff)
    then show ?thesis using k tk(3) unfolding patch_used by (fastforce simp: used_def split: if_splits)
  qed
  moreover have "heap_inv g m2 ?B N"
    unfolding heap_inv_def using m2(2) no_adj_use [OF h'(3) heap_invD(2) [OF i] k] by (simp add: nF)
  ultimately have "placed g m B N k a m2 ?B" unfolding placed_def using s fw reg a by (intro conjI exI [of _ c]) auto
  moreover have "of_nat c - of_nat a = (of_nat (c - a) :: u64)" "c - a < 2 ^ 63" using a hs_size [OF h k] by simp_all
  then have "place (flb g) m (adr g k) (of_nat a) = Some m2"
    using hs_reads [OF h k] m1(1) m2(1) word_ge8 [of "c - a"] less_diff_conv2 [of a c 8] a
    by (simp add: place_def MIN_BLOCK_SIZE_WORDS_def add.commute del: of_nat_diff)
  ultimately show ?thesis by blast
qed

lemma place_ok:
  assumes i: "heap_inv g m B N" and k: "B k = Some (c, False)" and a: "even a" "8 \<le> a" "a \<le> c"
  shows "\<exists>m' B'. place (flb g) m (adr g k) (of_nat a) = Some m' \<and> placed g m B N k a m' B'"
  using place_whole [OF i k a(3)] place_split [OF i _ a(1,2), of k "c - a"] k a by (cases "c < a + 8") auto

section \<open>Finding a fit\<close>

lemma fit_loop_ok:
  assumes h: "hs g m B N X" and a: "a < 2 ^ 63" and i: "i < 12"
  shows "dlist m (lst g i) (map (\<lambda>k. adr g (Suc k)) (xs @ ys)) \<Longrightarrow> set ys \<subseteq> free_blocks B \<Longrightarrow>
    \<exists>r. fit_loop m (lst g i) (hd (map (\<lambda>k. adr g (Suc k)) ys @ [lst g i + 16])) (of_nat a) lm j = Some r \<and>
      (\<forall>p. r = Some p \<longrightarrow> (\<exists>k c. p = adr g k \<and> B k = Some (c, False) \<and> a \<le> c))"
proof (induction ys arbitrary: xs j)
  case Nil
  then show ?case by (subst fit_loop.simps) (simp add: list_end_def list_tail_def)
next
  case (Cons y ys)
  obtain c where c: "B y = Some (c, False)" using Cons.prems(2) free_blocksE by (metis list.set_intros(1) subsetD)
  have ne: "adr g (Suc y) \<noteq> lst g i + 16" using dlist_notin [OF Cons.prems(1)] by auto
  have nx: "list_next m (adr g (Suc y)) = Some (hd (map (\<lambda>k. adr g (Suc k)) ys @ [lst g i + 16]))"
    using dlist_next(1) [of m "lst g i" "map (\<lambda>k. adr g (Suc k)) xs" "adr g (Suc y)"] Cons.prems(1) by simp
  have le: "(of_nat a :: u64) \<le> of_nat c \<longleftrightarrow> a \<le> c" using u64_of_nat_le [of a c] a hs_size [OF h c] by simp
  show ?case
  proof (cases "a \<le> c")
    case True
    then show ?thesis
      using ne hs_reads(3) [OF h c] le c by (subst fit_loop.simps) (auto simp: list_end_def list_tail_def adr_Suc)
  next
    case False
    then show ?thesis
      using ne hs_reads(3) [OF h c] le nx Cons.IH [of "xs @ [y]" "Suc j"] Cons.prems
      by (subst fit_loop.simps) (simp add: list_end_def list_tail_def adr_Suc)
  qed
qed

lemma fit_lists_ok:
  assumes h: "hs g m B N (free_blocks B)" and a: "a < 2 ^ 63"
  shows "set is \<subseteq> {..<12} \<Longrightarrow> \<exists>r. fit_lists (flb g) m (of_nat a) idx is = Some r \<and>
    (r = NULL \<or> (\<exists>k c. r = adr g k \<and> B k = Some (c, False) \<and> a \<le> c))"
proof (induction "is")
  case (Cons i js)
  then have i: "i < 12" by simp
  obtain ys where ys: "dlist m (lst g i) (map (\<lambda>k. adr g (Suc k)) ys)" "set ys = in_list B (free_blocks B) i"
    using hsD(5) [OF h] i unfolding lists_def by blast
  have sub: "set ys \<subseteq> free_blocks B" using ys(2) by (auto simp: in_list_def)
  obtain r where "fit_loop m (lst g i) (hd (map (\<lambda>k. adr g (Suc k)) ys @ [lst g i + 16])) (of_nat a) (11 - (i - idx)) 0 = Some r"
      "\<forall>p. r = Some p \<longrightarrow> (\<exists>k c. p = adr g k \<and> B k = Some (c, False) \<and> a \<le> c)"
    using fit_loop_ok [OF h a i, of "[]" ys "11 - (i - idx)" 0] ys(1) sub by auto
  moreover have "list_begin m (lst g i) = Some (hd (map (\<lambda>k. adr g (Suc k)) ys @ [lst g i + 16]))"
    using dlist_begin [OF ys(1)] .
  ultimately show ?case using Cons.IH Cons.prems by (cases r) (auto simp: lst_def)
qed simp

lemma find_fit_ok:
  assumes h: "hs g m B N (free_blocks B)" and a: "a < 2 ^ 63"
  shows "\<exists>r. find_fit (flb g) m (of_nat a) = Some r \<and> (r = NULL \<or> (\<exists>k c. r = adr g k \<and> B k = Some (c, False) \<and> a \<le> c))"
  unfolding find_fit_def by (rule fit_lists_ok [OF h a]) (auto simp: NUM_LISTS_def)

section \<open>Extending the heap\<close>

lemma tiling_extend:
  assumes t: "tiling B N" and w: "even w" "8 \<le> w"
  shows "tiling (B(N \<mapsto> (w, False))) (N + w)" "N \<notin> dom B"
proof -
  note tk = tilingD [OF t]
  show nd: "N \<notin> dom B" using tk(3,4) by fastforce
  have oN: "odd N" using t by (simp add: tiling_def)
  have lt: "j < N" if "j \<in> dom B" for j using that tk(3,4) by fastforce
  show "tiling (B(N \<mapsto> (w, False))) (N + w)" unfolding tiling_def
  proof (intro conjI allI impI)
    show "odd (N + w)" using oN w by simp
    fix k s u assume k: "(B(N \<mapsto> (w, False))) k = Some (s, u)"
    show "odd k" "even s" "8 \<le> s" "k + s \<le> N + w" using k oN w tk [of k s u] by (auto split: if_splits)
    show "k + s \<in> dom (B(N \<mapsto> (w, False)))" if "k + s \<noteq> N + w"
      using k that tk(5) [of k s u] by (auto split: if_splits)
    show "k + s \<le> j" if "j \<in> dom (B(N \<mapsto> (w, False)))" "k < j" for j
      using k that tk(4,7) [of k s u] lt by (auto split: if_splits) fastforce+
  next
    fix j assume "j \<in> dom (B(N \<mapsto> (w, False))) \<or> j = N + w"
    then consider "j = N + w" | "j \<in> dom B \<or> j = N" by (auto split: if_splits)
    then show "j = 1 \<or> (\<exists>k s u. (B(N \<mapsto> (w, False))) k = Some (s, u) \<and> k + s = j)"
    proof cases
      case 1
      then show ?thesis by (auto intro!: exI [of _ N])
    next
      case 2
      show ?thesis
      proof (cases "j = 1")
        case False
        then obtain k s u where k: "B k = Some (s, u)" "k + s = j" using tiling_prev [OF t 2] by blast
        then have "k \<noteq> N" using nd by auto
        then show ?thesis using k by auto
      qed simp
    qed
  qed
qed

lemma st64_upd: "st64 m a v = Some m' \<Longrightarrow> a \<noteq> c \<Longrightarrow> st64 (m(c \<mapsto> x)) a v = Some (m'(c \<mapsto> x))"
  by (auto simp: st64_def fun_upd_twist split: option.splits)

text \<open>\<^verbatim>\<open>list_push_back\<close> does not depend on cells it neither reads nor writes.\<close>
lemma list_push_back_upd:
  assumes r: "list_push_back m l e = Some m'" and p: "m (l + 16) = Some p" and e: "l + 16 \<noteq> e" "l + 16 \<noteq> e + 8"
    and c: "c \<noteq> l + 16" "c \<noteq> e" "c \<noteq> e + 8" "c \<noteq> p + 8"
  shows "list_push_back (m(c \<mapsto> x)) l e = Some (m'(c \<mapsto> x))"
proof -
  obtain m1 where m1: "st64 m e p = Some m1" and r1: "(st64 m1 (e + 8) (l + 16) \<bind> (\<lambda>m. ld64 m (l + 16) \<bind> (\<lambda>p. st64 m (p + 8) e \<bind> (\<lambda>m. st64 m (l + 16) e)))) = Some m'"
    using r p by (auto simp: list_push_back_def list_insert_def list_end_def list_tail_def elem_prev_def elem_next_def ld64_def bind_eq_Some_conv)
  obtain m2 where m2: "st64 m1 (e + 8) (l + 16) = Some m2" and r2: "(ld64 m2 (l + 16) \<bind> (\<lambda>p. st64 m2 (p + 8) e \<bind> (\<lambda>m. st64 m (l + 16) e))) = Some m'"
    using r1 by (auto simp: bind_eq_Some_conv)
  have p2: "m2 (l + 16) = Some p"
    using m1 m2 p e by (auto simp: st64_def split: option.splits)
  obtain m3 where m3: "st64 m2 (p + 8) e = Some m3" "st64 m3 (l + 16) e = Some m'"
    using r2 p2 by (auto simp: ld64_def bind_eq_Some_conv)
  show ?thesis
    using st64_upd [OF m1 c(2) [symmetric], of x] st64_upd [OF m2 c(3) [symmetric], of x] st64_upd [OF m3(1) c(4) [symmetric], of x]
      st64_upd [OF m3(2) c(1) [symmetric], of x] p p2 c
    by (simp add: list_push_back_def list_insert_def list_end_def list_tail_def elem_prev_def elem_next_def ld64_def)
qed

lemma seg_tail:
  assumes h: "hs g m B N X" and i: "i < 12"
  obtains p where "m (lst g i + 16) = Some p" "p + 8 \<in> hc g i \<union> adr g ` pw X" "lst g i + 16 \<in> heads g"
proof -
  obtain xs where xs: "dlist m (lst g i) (map (\<lambda>k. adr g (Suc k)) xs)" "set xs = in_list B X i"
    using hsD(5) [OF h] i unfolding lists_def by blast
  let ?p = "last (lst g i # map (\<lambda>k. adr g (Suc k)) xs)"
  have "m (lst g i + 16) = Some ?p"
    using dlist_rbegin [OF xs(1)] by (simp add: list_rbegin_def link_defs)
  moreover have "?p + 8 \<in> hc g i \<union> adr g ` pw X"
  proof (cases xs rule: rev_cases)
    case (snoc ys y)
    then have "y \<in> X" using xs(2) by (auto simp: in_list_def)
    then show ?thesis using snoc by (auto simp: adr_Suc pw_def)
  qed (simp add: hc_set)
  moreover have "lst g i + 16 \<in> heads g" using hc_heads [OF i, of g] by (auto simp: hc_set)
  ultimately show ?thesis using that by blast
qed

text \<open>Pushing a block when the cell \<open>z\<close>, a word of the heap outside the listed blocks, has been given another value.\<close>
lemma push_other_cell:
  assumes h: "hs g m B N X" and s: "B k = Some (s, False)" and k: "k \<notin> X" and z: "z \<le> lim g" "z \<notin> pw (insert k X)" "z \<noteq> k"
  shows "\<exists>m'. push_free (flb g) m (adr g k) = Some m' \<and> hs g m' B N (insert k X) \<and> same g (pw (insert k X)) m m' \<and>
    push_free (flb g) (m(adr g z \<mapsto> v)) (adr g k) = Some (m'(adr g z \<mapsto> v))"
proof -
  note h' = hsD [OF h] and ts = tilingD [OF hsD(3) [OF h] s]
  obtain m' where m': "push_free (flb g) m (adr g k) = Some m'" "hs g m' B N (insert k X)" "same g (pw (insert k X)) m m'"
    using push_hs [OF h s k] by blast
  obtain p where p: "m (lst g (seg s) + 16) = Some p" "p + 8 \<in> hc g (seg s) \<union> adr g ` pw X" "lst g (seg s) + 16 \<in> heads g"
    by (rule seg_tail [OF h seg_less])
  have pl: "list_push_back m (lst g (seg s)) (adr g (Suc k)) = Some m'"
    using m'(1) hs_reads(3) [OF h s] by (simp add: push_free_def get_seg_list_def payload_def adr_Suc lst_def seg_def)
  have kl: "k + 2 \<le> lim g" using ts h'(2) by simp
  have zh: "adr g z \<notin> heads g" by (rule adr_heads [OF h'(1) z(1)])
  have b: "pw (insert k X) \<subseteq> {..lim g}"
    using pw_bound [OF h'(3), of "insert k X"] s free_dom [OF h'(6)] h'(2) by force
  have zn: "adr g z \<notin> adr g ` pw (insert k X)" using adr_in [OF h'(1) z(1) b] z(2) by blast
  have "list_push_back (m(adr g z \<mapsto> v)) (lst g (seg s)) (adr g (Suc k)) = Some (m'(adr g z \<mapsto> v))"
  proof (rule list_push_back_upd [OF pl p(1)])
    show "lst g (seg s) + 16 \<noteq> adr g (Suc k)" "lst g (seg s) + 16 \<noteq> adr g (Suc k) + 8"
      using p(3) adr_heads [OF h'(1), of "Suc k"] adr_heads [OF h'(1), of "Suc (Suc k)"] kl by (auto simp: adr_Suc)
    show "adr g z \<noteq> lst g (seg s) + 16" using p(3) zh by auto
    show "adr g z \<noteq> adr g (Suc k)" "adr g z \<noteq> adr g (Suc k) + 8" using zn by (auto simp: pw_def adr_Suc)
    show "adr g z \<noteq> p + 8"
    proof -
      have "pw X \<subseteq> pw (insert k X)" by (auto simp: pw_def)
      then have "p + 8 \<in> heads g \<union> adr g ` pw (insert k X)" using p(2) hc_heads [OF seg_less, of g s] by blast
      then show ?thesis using zn zh by auto
    qed
  qed
  moreover have "adr g k \<noteq> adr g z" using adr_eq [of k z g] z h'(9) kl by auto
  ultimately have "push_free (flb g) (m(adr g z \<mapsto> v)) (adr g k) = Some (m'(adr g z \<mapsto> v))"
    using hs_reads(3) [OF h s] by (simp add: push_free_def blk_size_def ld64_def get_seg_list_def payload_def adr_Suc lst_def seg_def)
  then show ?thesis using m' by blast
qed

text \<open>The states of the heap: the memory with the break and the addresses of the free lists.\<close>
definition heap_ok :: "geo \<Rightarrow> heap \<Rightarrow> blocks \<Rightarrow> nat \<Rightarrow> bool" where
  "heap_ok g s B N \<longleftrightarrow> heap_inv g (hmem s) B N \<and> free_lists s = flb g \<and> mem_brk s = adr g (Suc N) \<and>
     mem_max_addr s = adr g (Suc (lim g)) \<and> unat (zb g) + 2 ^ 33 \<le> 2 ^ 64"

lemma heap_okD:
  assumes "heap_ok g s B N"
  shows "heap_inv g (hmem s) B N" "free_lists s = flb g" "mem_brk s = adr g (Suc N)" "mem_max_addr s = adr g (Suc (lim g))"
    "unat (zb g) + 2 ^ 33 \<le> 2 ^ 64"
  using assms by (simp_all add: heap_ok_def)

lemma unat_adr: "unat (zb g) + 8 * k < 2 ^ 64 \<Longrightarrow> unat (adr g k) = unat (zb g) + 8 * k"
  by (simp add: adr_def unat_word_ariths unat_of_nat)

lemma ucast_words: "n < 2 ^ 32 \<Longrightarrow> (ucast (of_nat n :: u64) :: u32) = of_nat n"
  by (simp add: unsigned_ucast_eq unat_of_nat unsigned_of_nat take_bit_nat_eq_self)

lemma sint_words: "n < 2 ^ 31 \<Longrightarrow> sint (of_nat n :: u32) = int n"
  by (simp add: sint_uint uint_nat unat_of_nat signed_take_bit_int_eq_self)

lemma sint_words_neg:
  assumes "2 ^ 31 \<le> n" "n < 2 ^ 32"
  shows "sint (of_nat n :: u32) < 0"
proof -
  have "n div 2 ^ 31 = 1" using assms by simp
  then have "bit n 31" by (simp add: bit_iff_odd)
  then have "bit (int n) 31" by (simp add: bit_of_nat_iff_bit)
  moreover have "uint (of_nat n :: u32) = int n" using assms by (simp add: uint_nat unat_of_nat)
  ultimately show ?thesis by (simp add: sint_uint)
qed

lemma sbrk_incr:
  assumes "w < 2 ^ 29"
  shows "8 * w < 2 ^ 31 \<Longrightarrow> 0 \<le> sint (ucast (of_nat w * 8 :: u64) :: u32) \<and> scast (ucast (of_nat w * 8 :: u64) :: u32) = (8 * of_nat w :: u64)"
    and "2 ^ 31 \<le> 8 * w \<Longrightarrow> sint (ucast (of_nat w * 8 :: u64) :: u32) < 0"
proof -
  have e: "(of_nat w * 8 :: u64) = of_nat (8 * w)" by simp
  have u: "(ucast (of_nat w * 8 :: u64) :: u32) = of_nat (8 * w)" unfolding e by (rule ucast_words) (use assms in simp)
  show "0 \<le> sint (ucast (of_nat w * 8 :: u64) :: u32) \<and> scast (ucast (of_nat w * 8 :: u64) :: u32) = (8 * of_nat w :: u64)" if "8 * w < 2 ^ 31"
    unfolding u scast_eq sint_words [OF that] by simp
  show "sint (ucast (of_nat w * 8 :: u64) :: u32) < 0" if "2 ^ 31 \<le> 8 * w"
    unfolding u by (rule sint_words_neg [OF that]) (use assms in simp)
qed

lemma new_block:
  assumes h: "hs g m B N X" and w: "even w" "8 \<le> w" "N + w \<le> lim g"
  shows "\<exists>m1 m2 m3. mark_block_free m (adr g N) (ucast (of_nat w :: u64)) = Some m1 \<and> push_free (flb g) m1 (adr g N) = Some m2 \<and>
    next_blk m2 (adr g N) = Some (adr g (N + w)) \<and> st64 m2 (adr g (N + w)) FENCE = Some m3 \<and>
    hs g m3 (B(N \<mapsto> (w, False))) (N + w) (insert N X) \<and> same g (pw X \<union> {N..N + w}) m m3"
proof -
  let ?B = "B(N \<mapsto> (w, False))" and ?z = "N + w"
  note h' = hsD [OF h] and te = tiling_extend [OF hsD(3) [OF h] w(1,2)]
  have eq: "adr g i = adr g j \<longleftrightarrow> i = j" if "i \<le> N + w" "j \<le> N + w" for i j using adr_eq [of i j g] that w(3) h'(9) by auto
  have mp: "m (adr g i) \<noteq> None" if "i \<le> N + w" for i using h'(7) that w(3) by simp
  define m1 where "m1 = m(adr g N \<mapsto> tagw w False, adr g (N + w - 1) \<mapsto> tagw w False, adr g (N + 1) \<mapsto> 0, adr g (N + 2) \<mapsto> 0)"
  define mA where "mA = m1(adr g ?z \<mapsto> FENCE)"
  have run1: "mark_block_free m (adr g N) (ucast (of_nat w :: u64)) = Some m1"
    unfolding m1_def by (rule mark_block_free_raw) (use mp w h'(9) in auto)
  have N0: "0 < N" using h'(3) by (auto simp: tiling_def intro: Nat.gr0I)
  have Xd: "X \<subseteq> dom B" by (rule free_dom [OF h'(6)])
  have dmA: "dom mA = dom m" unfolding mA_def m1_def using mp w(2) by auto
  have keep: "mA a = m a" if "a \<notin> adr g ` {N..<?z + 1}" for a
  proof -
    have "{N, N + w - 1, N + 1, N + 2, ?z} \<subseteq> {N..<?z + 1}" using w(2) by auto
    then have "a \<notin> adr g ` {N, N + w - 1, N + 1, N + 2, ?z}" using that by blast
    then show ?thesis unfolding mA_def m1_def by simp
  qed
  have hA: "hs g mA ?B ?z X"
  proof (rule hs_update [OF h te(1) w(3) N0 _ dmA keep])
    show "?B j = B j" if "j \<notin> {N..<?z + 1}" for j using that by auto
    show "j + s \<le> N \<or> ?z + 1 \<le> j" if "B j = Some (s, u)" for j s u using tilingD(4) [OF h'(3) that] by simp
    show "mA (adr g j) = Some (tagw s u) \<and> mA (adr g (j + s - 1)) = Some (tagw s u)" if "?B j = Some (s, u)" "j \<in> {N..<?z + 1}" for j s u
    proof -
      have "B i = None" if "N \<le> i" for i
      proof (cases "B i")
        case (Some x)
        then show ?thesis using tilingD(3,4) [OF h'(3), of i "fst x" "snd x"] that by simp
      qed
      then have "j = N \<and> s = w \<and> \<not> u" using that by (auto split: if_splits)
      then show ?thesis using w(2) unfolding mA_def m1_def by (simp add: eq) linarith
    qed
    show "X \<inter> {N..<?z + 1} = {}" using Xd tilingD(3,4) [OF h'(3)] by fastforce
    show "mA (adr g ?z) = Some FENCE" by (simp add: mA_def)
  qed (use w(3) in simp)
  have NX: "N \<notin> X" using te(2) Xd by blast
  have zX: "?z \<notin> pw (insert N X)" using pw_bound [OF h'(3) Xd] w(2) by (auto simp: pw_un)
  have Nk: "?B N = Some (w, False)" by simp
  have "m1 (adr g ?z) \<noteq> None" using mp [of ?z] unfolding m1_def by simp
  then obtain v where v: "m1 (adr g ?z) = Some v" by blast
  obtain mB where mB: "push_free (flb g) mA (adr g N) = Some mB" "hs g mB ?B ?z (insert N X)" "same g (pw (insert N X)) mA mB"
      "push_free (flb g) (mA(adr g ?z \<mapsto> v)) (adr g N) = Some (mB(adr g ?z \<mapsto> v))"
    using push_other_cell [OF hA Nk NX w(3) zX _, of v] w(2) by (auto simp del: fun_upd_apply)
  have "mA(adr g ?z \<mapsto> v) = m1" using v by (auto simp: mA_def)
  then have run2: "push_free (flb g) m1 (adr g N) = Some (mB(adr g ?z \<mapsto> v))" using mB(4) by simp
  have fz: "mB (adr g ?z) = Some FENCE" using hsD(4) [OF mB(2)] by (simp add: tags_def)
  then have run3: "st64 (mB(adr g ?z \<mapsto> v)) (adr g ?z) FENCE = Some mB" by (auto simp: st64_def)
  have "(mB(adr g ?z \<mapsto> v)) (adr g N) = mB (adr g N)" using eq [of N ?z] w(2) by simp
  then have nx: "next_blk (mB(adr g ?z \<mapsto> v)) (adr g N) = Some (adr g ?z)"
    using hs_reads(5) [OF mB(2) Nk] by (simp add: next_blk_def ld64_def)
  have "same g (pw X \<union> {N..?z}) mA mB" by (rule same_mono [OF mB(3)]) (use w(2) in \<open>auto simp: pw_un\<close>)
  moreover have "{N..<?z + 1} = {N..?z}" by auto
  then have "same g (pw X \<union> {N..?z}) m mA" using dmA keep unfolding same_def image_Un by auto
  ultimately have "same g (pw X \<union> {N..?z}) m mB" using same_trans by blast
  then show ?thesis using run1 run2 nx run3 mB(2) by blast
qed

lemma extend_adj: "tiling B N \<Longrightarrow> no_adj B \<Longrightarrow> adj_at (B(N \<mapsto> (w, False))) N"
  unfolding adj_at_def no_adj_def by (auto simp: free_blocks_def split: if_splits)

lemma extend_used: "N \<notin> dom B \<Longrightarrow> used (B(N \<mapsto> (w, False))) = used B"
  by (auto simp: used_def split: if_splits)

lemma extend_fwords: "fwords (B(N \<mapsto> (w, False))) \<subseteq> fwords B \<union> {N..<N + w}"
proof
  fix x assume "x \<in> fwords (B(N \<mapsto> (w, False)))"
  then obtain k s where k: "(B(N \<mapsto> (w, False))) k = Some (s, False)" "k \<le> x" "x < k + s" by (rule fwordsE)
  then show "x \<in> fwords B \<union> {N..<N + w}" using fwordsI [of B k s] by (cases "k = N") auto
qed

lemma free_upd: "N \<notin> dom B \<Longrightarrow> free_blocks (B(N \<mapsto> (w, False))) = insert N (free_blocks B)"
  by (auto simp: free_blocks_def)

text \<open>What extending by \<open>w\<close> words achieves.\<close>
definition extended :: "geo \<Rightarrow> heap \<Rightarrow> blocks \<Rightarrow> nat \<Rightarrow> nat \<Rightarrow> u64 \<Rightarrow> heap \<Rightarrow> bool" where
  "extended g s B N w r s' \<longleftrightarrow> (\<exists>k c B' m'. r = adr g k \<and> s' = s\<lparr>mem_brk := adr g (Suc (N + w)), hmem := m'\<rparr> \<and>
     heap_ok g s' B' (N + w) \<and> B' k = Some (c, False) \<and> w \<le> c \<and> used B' = used B \<and>
     fwords B' \<subseteq> fwords B \<union> {N..<N + w} \<and> same g (fwords B \<union> {N..N + w}) (hmem s) m')"

lemma adr_nonzero: "geo_ok g \<Longrightarrow> k \<le> lim g \<Longrightarrow> adr g k \<noteq> 0"
  by (auto simp: geo_ok_def)

lemma sbrk_ok:
  assumes o: "heap_ok g s B N" and w: "w < 2 ^ 29" "N + w \<le> lim g"
  shows "mem_sbrk (ucast (of_nat w * 8 :: u64)) s = (adr g (Suc N), s\<lparr>mem_brk := adr g (Suc (N + w))\<rparr>)"
proof -
  note o' = heap_okD [OF o]
  have "lim g < 2 ^ 28" using hsD(9) heap_invD(1) o'(1) by blast
  then have i: "0 \<le> sint (ucast (of_nat w * 8 :: u64) :: u32)" "scast (ucast (of_nat w * 8 :: u64) :: u32) = (8 * of_nat w :: u64)"
    using sbrk_incr(1) [OF w(1)] w(2) by simp_all
  have e: "adr g (Suc N) + 8 * of_nat w = adr g (Suc (N + w))" using adr_add [of g "Suc N" w] by simp
  have "unat (adr g (Suc (N + w))) \<le> unat (adr g (Suc (lim g)))" using unat_adr o'(5) w(2) \<open>lim g < 2 ^ 28\<close> by simp
  then have "\<not> adr g (Suc (N + w)) > adr g (Suc (lim g))" by (simp add: word_less_nat_alt)
  then show ?thesis using i o'(3,4) by (simp add: mem_sbrk_def e)
qed

lemma sbrk_fail:
  assumes o: "heap_ok g s B N" and w: "w < 2 ^ 29" "lim g < N + w"
  shows "mem_sbrk (ucast (of_nat w * 8 :: u64)) s = (NULL, s)"
proof (cases "8 * w < 2 ^ 31")
  case True
  note o' = heap_okD [OF o] and h = hsD [OF heap_invD(1) [OF heap_okD(1) [OF o]]]
  have i: "scast (ucast (of_nat w * 8 :: u64) :: u32) = (8 * of_nat w :: u64)" using sbrk_incr(1) [OF w(1) True] by simp
  have e: "adr g (Suc N) + 8 * of_nat w = adr g (Suc (N + w))" using adr_add [of g "Suc N" w] by simp
  have "unat (adr g (Suc (lim g))) < unat (adr g (Suc (N + w)))"
    using unat_adr [of g "Suc (N + w)"] unat_adr [of g "Suc (lim g)"] o'(5) w h(2,9) by simp
  then have "adr g (Suc (N + w)) > adr g (Suc (lim g))" by (simp add: word_less_nat_alt)
  then show ?thesis using i o'(3,4) by (simp add: mem_sbrk_def e)
qed (use sbrk_incr(2) [OF w(1)] in \<open>simp add: mem_sbrk_def\<close>)

lemma extend_heap_ok:
  assumes o: "heap_ok g s B N" and w: "even w" "8 \<le> w" "w < 2 ^ 29"
  shows "\<exists>r s'. extend_heap (of_nat w) s = Some (r, s') \<and>
    (if N + w \<le> lim g then r \<noteq> NULL \<and> extended g s B N w r s' else r = NULL \<and> s' = s)"
proof (cases "N + w \<le> lim g")
  case False
  then show ?thesis using sbrk_fail [OF o w(3)] by (simp add: extend_heap_def WSIZE_def)
next
  case True
  note o' = heap_okD [OF o] and h = heap_invD(1) [OF heap_okD(1) [OF o]]
  note h' = hsD [OF h] and te = tiling_extend [OF hsD(3) [OF h] w(1,2)]
  let ?B = "B(N \<mapsto> (w, False))" and ?m = "hmem s"
  obtain m1 m2 m3 where m: "mark_block_free ?m (adr g N) (ucast (of_nat w :: u64)) = Some m1" "push_free (flb g) m1 (adr g N) = Some m2"
      "next_blk m2 (adr g N) = Some (adr g (N + w))" "st64 m2 (adr g (N + w)) FENCE = Some m3"
      "hs g m3 ?B (N + w) (insert N (free_blocks B))" "same g (pw (free_blocks B) \<union> {N..N + w}) ?m m3"
    using new_block [OF h w(1,2) True] by blast
  have "hs g m3 ?B (N + w) (free_blocks ?B)" using m(5) te(2) by (simp add: free_upd)
  then have "coalesced g m3 ?B (N + w) w (heap_coalesce (flb g) m3 (adr g N))"
    by (rule join_ok) (use extend_adj [OF h'(3) heap_invD(2) [OF o'(1)]] in simp_all)
  then obtain m4 k c B' where c: "heap_coalesce (flb g) m3 (adr g N) = Some (adr g k, m4)" "heap_inv g m4 B' (N + w)"
      "B' k = Some (c, False)" "w \<le> c" "used B' = used ?B" "fwords B' \<subseteq> fwords ?B" "same g (fwords ?B) m3 m4"
    unfolding coalesced_def by blast
  have s1: "same g (fwords B \<union> {N..N + w}) ?m m3"
    by (rule same_mono [OF m(6)]) (use pw_fwords [OF h'(3), of "free_blocks B"] in auto)
  have "{N..<N + w} \<subseteq> {N..N + w}" by auto
  then have s2: "same g (fwords B \<union> {N..N + w}) m3 m4"
    using same_mono [OF c(7)] extend_fwords [of B N w] by blast
  let ?s = "s\<lparr>mem_brk := adr g (Suc (N + w)), hmem := m4\<rparr>"
  have "heap_ok g ?s B' (N + w)" using c(2) o' by (simp add: heap_ok_def)
  then have ext: "extended g s B N w (adr g k) ?s"
    unfolding extended_def using c(3-6) te(2) extend_fwords [of B N w] same_trans [OF s1 s2]
    by (intro exI [of _ k] exI [of _ c] exI [of _ B'] exI [of _ m4]) (auto simp: extend_used)
  have kN: "k \<le> lim g" using tilingD(4) [OF hsD(3) [OF heap_invD(1) [OF c(2)]] c(3)] True by simp
  have "extend_heap (of_nat w) s = Some (adr g k, ?s)"
    using sbrk_ok [OF o w(3) True] m(1-4) c(1) o'(2) adr_Suc(2) [of g N] True w(2) adr_nonzero [OF h'(1), of "Suc N"]
    by (simp add: extend_heap_def WSIZE_def)
  then show ?thesis using True ext adr_nonzero [OF h'(1) kN] by simp
qed

section \<open>Allocation\<close>

definition req :: "nat \<Rightarrow> nat" where
  "req n = max 8 (2 * ((n + 31) div 16))"

lemma align_eq:
  assumes n: "n + 15 < 2 ^ 64"
  shows "align (of_nat n) = of_nat (16 * ((n + 15) div 16))"
proof -
  have m: "(16 - 1 :: u64) = mask 4" by (simp add: mask_eq_exp_minus_1)
  have e: "(of_nat n + 16 - 1 :: u64) = of_nat (n + 15)" by simp
  have "align (of_nat n) = (of_nat (n + 15) :: u64) AND NOT (mask 4)" unfolding align_def ALIGNMENT_def e m ..
  also have "\<dots> = push_bit 4 (drop_bit 4 (of_nat (n + 15) :: u64))"
    by (rule bit_word_eqI) (auto simp: bit_simps)
  also have "\<dots> = of_nat (16 * ((n + 15) div 16))"
    using n by (simp add: push_bit_eq_mult drop_bit_eq_div word_unat_eq_iff unat_word_ariths unat_div unat_of_nat)
  finally show ?thesis .
qed

lemma req_props: "even (req n)" "8 \<le> req n" "n \<le> 8 * (req n - 2)" "n < 2 ^ 32 - 32 \<Longrightarrow> req n < 2 ^ 29"
  unfolding req_def by (auto simp: max_def)

lemma request_words_eq:
  assumes n: "n < 2 ^ 32"
  shows "request_words (of_nat n) = Some (of_nat (req n))"
proof -
  have a: "align (of_nat n + 2 * 8) = of_nat (16 * ((n + 31) div 16))"
    using align_eq [of "n + 16"] n by (simp add: add.commute)
  have q: "2 * ((n + 31) div 16) < 2 ^ 64" "16 * ((n + 31) div 16) < 2 ^ 64" using n by auto
  have "n \<le> 16 * ((n + 31) div 16)" by linarith
  then have "\<not> (of_nat (16 * ((n + 31) div 16)) :: u64) < of_nat n"
    using u64_of_nat_less [of "16 * ((n + 31) div 16)" n] n q by (simp del: of_nat_mult)
  moreover have "(of_nat (16 * ((n + 31) div 16)) :: u64) div WSIZE = of_nat (2 * ((n + 31) div 16))"
    using q by (simp add: WSIZE_def word_unat_eq_iff unat_div unat_of_nat del: of_nat_mult)
  moreover have "max_size MIN_BLOCK_SIZE_WORDS (of_nat (2 * ((n + 31) div 16))) = of_nat (req n)"
    using u64_of_nat_less [of "2 * ((n + 31) div 16)" 8] q
    by (auto simp: max_size_def MIN_BLOCK_SIZE_WORDS_def req_def max_def simp del: of_nat_mult)
  ultimately show ?thesis unfolding request_words_def Let_def a by simp
qed

lemma max_size_nat: "a < 2 ^ 63 \<Longrightarrow> max_size (of_nat a) CHUNKSIZE = of_nat (max a 36)"
  using u64_of_nat_less [of 36 a] by (auto simp: max_size_def CHUNKSIZE_def max_def)

text \<open>What an allocation achieves: a block \<open>k\<close> of \<open>c\<close> words, of which \<open>c - 2\<close> are the client's.\<close>
definition allocated :: "geo \<Rightarrow> heap \<Rightarrow> blocks \<Rightarrow> nat \<Rightarrow> nat \<Rightarrow> u64 \<Rightarrow> heap \<Rightarrow> bool" where
  "allocated g s B N n r s' \<longleftrightarrow> (\<exists>k c B' N' m' b. r = adr g (Suc k) \<and> s' = s\<lparr>hmem := m', mem_brk := b\<rparr> \<and> heap_ok g s' B' N' \<and>
     N \<le> N' \<and> n \<le> 8 * (c - 2) \<and> used B' = insert (k, c) (used B) \<and>
     {k..<k + c} \<subseteq> fwords B \<union> {N..} \<and> same g (fwords B \<union> {N..lim g}) (hmem s) (hmem s'))"

lemma placed_allocated:
  assumes p: "placed g m B1 N1 k (req n) m' B'" and o: "heap_ok g s1 B1 N1" and m: "m = hmem s1"
    and s1: "s1 = s\<lparr>hmem := m, mem_brk := b\<rparr>"
    and B1: "used B1 = used B" "fwords B1 \<subseteq> fwords B \<union> {N..}" "N \<le> N1" "same g (fwords B \<union> {N..lim g}) (hmem s) m"
  shows "allocated g s B N n (payload (adr g k)) (s1\<lparr>hmem := m'\<rparr>)"
proof -
  obtain c where c: "req n \<le> c" "used B' = insert (k, c) (used B1)" "{k..<k + c} \<subseteq> fwords B1"
    and i: "heap_inv g m' B' N1" and sm: "same g (fwords B1) m m'"
    using p unfolding placed_def by blast
  have "heap_ok g (s1\<lparr>hmem := m'\<rparr>) B' N1" using o i by (simp add: heap_ok_def)
  moreover have "same g (fwords B \<union> {N..lim g}) m m'"
  proof (rule same_mono [of g "fwords B1"])
    have "fwords B1 \<subseteq> {..lim g}"
    proof
      fix w assume "w \<in> fwords B1"
      then obtain j t where j: "B1 j = Some (t, False)" "w < j + t" by (rule fwordsE)
      note hh = hsD [OF heap_invD(1) [OF heap_okD(1) [OF o]]]
      show "w \<in> {..lim g}" using tilingD(4) [OF hh(3) j(1)] j(2) hh(2) by simp
    qed
    then show "fwords B1 \<subseteq> fwords B \<union> {N..lim g}" using B1(2) by auto
  qed (rule sm)
  moreover have "n \<le> 8 * (c - 2)" using req_props(3) [of n] c(1) by linarith
  moreover have "{k..<k + c} \<subseteq> fwords B \<union> {N..}" using c(3) B1(2) by blast
  moreover have "payload (adr g k) = adr g (Suc k)" by (simp add: payload_def adr_Suc)
  moreover have "s1\<lparr>hmem := m'\<rparr> = s\<lparr>hmem := m', mem_brk := b\<rparr>" unfolding s1 by simp
  moreover have "hmem (s1\<lparr>hmem := m'\<rparr>) = m'" "used B' = insert (k, c) (used B)" using c(2) B1(1) by simp_all
  ultimately show ?thesis
    unfolding allocated_def using B1(3) same_trans [OF B1(4)]
    by (intro exI [of _ k] exI [of _ c] exI [of _ B'] exI [of _ N1] exI [of _ m'] exI [of _ b]) simp
qed

lemma payload_nonzero:
  assumes "heap_ok g s B N" "B k = Some (c, u)"
  shows "payload (adr g k) \<noteq> NULL"
proof -
  note h = hsD [OF heap_invD(1) [OF heap_okD(1) [OF assms(1)]]]
  have "Suc k \<le> lim g" using tilingD(3,4) [OF h(3) assms(2)] h(2) by simp
  then show ?thesis using adr_nonzero [OF h(1)] by (simp add: payload_def adr_Suc)
qed

lemma alloc_in_place:
  assumes o: "heap_ok g s B N" and k: "B k = Some (c, False)" "req n \<le> c"
  shows "\<exists>m'. place (flb g) (hmem s) (adr g k) (of_nat (req n)) = Some m' \<and> payload (adr g k) \<noteq> NULL \<and>
    allocated g s B N n (payload (adr g k)) (s\<lparr>hmem := m'\<rparr>)"
proof -
  obtain m' B' where m': "place (flb g) (hmem s) (adr g k) (of_nat (req n)) = Some m'" "placed g (hmem s) B N k (req n) m' B'"
    using place_ok [OF heap_okD(1) [OF o] k(1) req_props(1,2) k(2)] by blast
  have "allocated g s B N n (payload (adr g k)) (s\<lparr>hmem := m'\<rparr>)"
    by (rule placed_allocated [OF m'(2) o refl, where b = "mem_brk s"]) auto
  then show ?thesis using m'(1) payload_nonzero [OF o k(1)] by blast
qed

lemma alloc_in_extension:
  assumes o: "heap_ok g s B N" and x: "extended g s B N w r s1" and w: "req n \<le> w" "N + w \<le> lim g"
  shows "\<exists>m'. place (flb g) (hmem s1) r (of_nat (req n)) = Some m' \<and> payload r \<noteq> NULL \<and>
    allocated g s B N n (payload r) (s1\<lparr>hmem := m'\<rparr>)"
proof -
  obtain k c B1 m1 where x: "r = adr g k" "s1 = s\<lparr>mem_brk := adr g (Suc (N + w)), hmem := m1\<rparr>" "heap_ok g s1 B1 (N + w)"
      "B1 k = Some (c, False)" "w \<le> c" "used B1 = used B" "fwords B1 \<subseteq> fwords B \<union> {N..<N + w}"
      "same g (fwords B \<union> {N..N + w}) (hmem s) m1"
    using x unfolding extended_def by auto
  have hm1: "hmem s1 = m1" using x(2) by simp
  have "req n \<le> c" using w(1) x(5) by simp
  then obtain m' B' where m': "place (flb g) m1 (adr g k) (of_nat (req n)) = Some m'" "placed g m1 B1 (N + w) k (req n) m' B'"
    using place_ok [OF heap_okD(1) [OF x(3)] x(4) req_props(1,2)] hm1 by blast
  have "allocated g s B N n (payload (adr g k)) (s1\<lparr>hmem := m'\<rparr>)"
  proof (rule placed_allocated [OF m'(2) x(3) hm1 [symmetric], where b = "adr g (Suc (N + w))"])
    show "s1 = s\<lparr>hmem := m1, mem_brk := adr g (Suc (N + w))\<rparr>" using x(2) by simp
    show "fwords B1 \<subseteq> fwords B \<union> {N..}" using x(7) by auto
    show "same g (fwords B \<union> {N..lim g}) (hmem s) m1" by (rule same_mono [OF x(8)]) (use w(2) in auto)
  qed (use x(6) in auto)
  then show ?thesis using m'(1) payload_nonzero [OF x(3,4)] x(1) hm1 by blast
qed

lemma kmalloc_unlocked_ok:
  assumes o: "heap_ok g s B N" and n: "0 < n" "n < 2 ^ 32 - 32"
  shows "\<exists>r s'. kmalloc_unlocked (of_nat n) s = Some (r, s') \<and>
    (r = NULL \<and> s' = s \<and> lim g < N + max (req n) 36 \<or> r \<noteq> NULL \<and> allocated g s B N n r s')"
proof -
  note fl = heap_okD(2) [OF o] and h = heap_invD(1) [OF heap_okD(1) [OF o]] and q = req_props [of n]
  have sz: "(of_nat n :: u64) \<noteq> 0" "request_words (of_nat n) = Some (of_nat (req n))"
    using n u64_of_nat_eq [of n 0] request_words_eq [of n] by simp_all
  have q63: "req n < 2 ^ 63" using q(4) n by simp
  obtain f where f: "find_fit (flb g) (hmem s) (of_nat (req n)) = Some f"
      "f = NULL \<or> (\<exists>k c. f = adr g k \<and> B k = Some (c, False) \<and> req n \<le> c)"
    using find_fit_ok [OF h q63] by blast
  show ?thesis
  proof (cases "f = NULL")
    case False
    then obtain k c where k: "f = adr g k" "B k = Some (c, False)" "req n \<le> c" using f(2) by blast
    then show ?thesis
      using alloc_in_place [OF o k(2,3)] sz f(1) False fl by (auto simp: kmalloc_unlocked_def)
  next
    case True
    define w where "w = max (req n) 36"
    have w: "even w" "8 \<le> w" "w < 2 ^ 29" "req n \<le> w" "max_size (of_nat (req n)) CHUNKSIZE = of_nat w"
      using q n max_size_nat [OF q63] by (auto simp: w_def max_def)
    obtain r s1 where e: "extend_heap (of_nat w) s = Some (r, s1)"
        "if N + w \<le> lim g then r \<noteq> NULL \<and> extended g s B N w r s1 else r = NULL \<and> s1 = s"
      using extend_heap_ok [OF o w(1-3)] by blast
    show ?thesis
    proof (cases "N + w \<le> lim g")
      case False
      then show ?thesis using sz f(1) True w(5) e fl by (simp add: kmalloc_unlocked_def w_def)
    next
      case le: True
      then have "free_lists s1 = flb g" using e(2) fl unfolding extended_def by auto
      then show ?thesis
        using alloc_in_extension [OF o _ w(4) le, of r s1] e le sz f(1) True w(5) fl by (auto simp: kmalloc_unlocked_def)
    qed
  qed
qed

section \<open>Release\<close>

lemma release_sets:
  assumes t: "tiling B N" and k: "B k = Some (c, True)"
  shows "free_blocks (merge B k (k + c)) = insert k (free_blocks B)" "used (merge B k (k + c)) = used B - {(k, c)}"
    "fwords (merge B k (k + c)) \<subseteq> fwords B \<union> {k..<k + c}"
proof -
  have only: "j = k" if "B j = Some x" "k \<le> j" "j < k + c" for j x using block_dom [OF t k] that by (auto simp: set_eq_iff)
  have c: "0 < c" using tilingD(3) [OF t k] by simp
  have "free_blocks B \<inter> {k..<k + c} = {}" using only k by (fastforce simp: free_blocks_def)
  then show "free_blocks (merge B k (k + c)) = insert k (free_blocks B)" using c by (auto simp: merge_free)
  show "used (merge B k (k + c)) = used B - {(k, c)}"
    using only k c by (fastforce simp: used_def merge_def patch_def split: if_splits)
  have "cut B N k (k + c)" using k tilingD [OF t k] by (auto simp: cut_def)
  moreover have "loc [k \<mapsto> (c, False)] k (k + c)" using loc_one tilingD [OF t k] by blast
  ultimately show "fwords (merge B k (k + c)) \<subseteq> fwords B \<union> {k..<k + c}"
    using patch_fwords [OF t, of k "k + c"] fwords_one [of k c False] by (fastforce simp: merge_def)
qed

lemma release_adj: "no_adj B \<Longrightarrow> free_blocks B' = insert k (free_blocks B) \<Longrightarrow> (\<And>j. j \<noteq> k \<Longrightarrow> j \<in> free_blocks B' \<Longrightarrow> B' j = B j) \<Longrightarrow>
   adj_at B' k"
  unfolding adj_at_def
proof (intro allI impI)
  fix j t assume h: "no_adj B" "free_blocks B' = insert k (free_blocks B)" "\<And>j. j \<noteq> k \<Longrightarrow> j \<in> free_blocks B' \<Longrightarrow> B' j = B j"
    "B' j = Some (t, False)" "j + t \<in> free_blocks B'"
  show "j = k \<or> j + t = k"
  proof (cases "j = k")
    case False
    have "j \<in> free_blocks B'" using h(4) by (simp add: free_blocks_def)
    then have "B j = Some (t, False)" using h(3,4) False by simp
    then have "j + t \<notin> free_blocks B" using h(1) by (simp add: no_adj_def)
    then show ?thesis using h(2,5) by blast
  qed simp
qed

text \<open>Marking a block free, linking it and coalescing it: the common end of \<^verbatim>\<open>_kfree\<close> and of shrinking.\<close>
definition released :: "geo \<Rightarrow> mem \<Rightarrow> blocks \<Rightarrow> nat \<Rightarrow> nat \<Rightarrow> nat \<Rightarrow> mem \<Rightarrow> bool" where
  "released g m B N k c m' \<longleftrightarrow> (\<exists>B'. heap_inv g m' B' N \<and> used B' = used B - {(k, c)} \<and>
     fwords B' \<subseteq> fwords B \<union> {k..<k + c} \<and> same g (fwords B \<union> {k..<k + c}) m m')"

lemma release_ok:
  assumes i: "heap_inv g m B N" and k: "B k = Some (c, True)"
  shows "\<exists>m1 m2 r m'. mark_block_free m (adr g k) (ucast (of_nat c :: u64)) = Some m1 \<and> push_free (flb g) m1 (adr g k) = Some m2 \<and>
    heap_coalesce (flb g) m2 (adr g k) = Some (r, m') \<and> released g m B N k c m'"
proof -
  let ?B = "merge B k (k + c)"
  note h = heap_invD(1) [OF i] and h' = hsD [OF heap_invD(1) [OF i]]
  note tk = tilingD [OF h'(3) k] and rs = release_sets [OF h'(3) k]
  have cut: "cut B N k (k + c)" using k tk by (auto simp: cut_def)
  have "k \<notin> free_blocks B" using k by (simp add: free_blocks_def)
  moreover have "free_blocks B \<inter> {k..<k + c} \<subseteq> {k}" using free_dom [OF subset_refl, of B] unfolding block_dom [OF h'(3) k, symmetric] by blast
  ultimately have X: "free_blocks B \<inter> {k..<k + c} = {}" by auto
  obtain m1 where m1: "mark_block_free m (adr g k) (ucast (of_nat c :: u64)) = Some m1" "hs g m1 ?B N (free_blocks B)"
      "same g {k, k + 1, k + 2, k + c - 1} m m1"
    using mark_free_hs [OF h cut X] by (auto simp: merge_def)
  have kB: "?B k = Some (c, False)" using tk(3) by (simp add: merge_def patch_def)
  have "k \<notin> free_blocks B" using k by (simp add: free_blocks_def)
  then obtain m2 where m2: "push_free (flb g) m1 (adr g k) = Some m2" "hs g m2 ?B N (free_blocks ?B)" "same g (pw (free_blocks ?B)) m1 m2"
    using push_hs [OF m1(2) kB] rs(1) by metis
  have "adj_at ?B k"
  proof (rule release_adj [OF heap_invD(2) [OF i] rs(1)])
    show "?B j = B j" if "j \<noteq> k" "j \<in> free_blocks ?B" for j using that X rs(1) by (auto simp: merge_def patch_def)
  qed
  then obtain m3 k' s' B' where m3: "heap_coalesce (flb g) m2 (adr g k) = Some (adr g k', m3)" "heap_inv g m3 B' N"
      "used B' = used ?B" "fwords B' \<subseteq> fwords ?B" "same g (fwords ?B) m2 m3"
    using join_ok [OF m2(2) kB] unfolding coalesced_def by blast
  let ?W = "fwords B \<union> {k..<k + c}"
  have "{k, k + 1, k + 2, k + c - 1} \<subseteq> {k..<k + c}" using tk(3) by auto
  then have "same g ?W m m1" using same_mono [OF m1(3), of ?W] by blast
  moreover have "same g ?W m1 m2" using same_mono [OF m2(3), of ?W] pw_fwords [OF hsD(3,6) [OF m2(2)]] rs(3) by blast
  moreover have "same g ?W m2 m3" using same_mono [OF m3(5), of ?W] rs(3) by blast
  ultimately have "released g m B N k c m3"
    unfolding released_def using m3(2-4) rs(2,3) same_trans by (metis subset_trans)
  then show ?thesis using m1(1) m2(1) m3(1) by blast
qed

lemma kfree_unlocked_ok:
  assumes o: "heap_ok g s B N" and k: "(k, c) \<in> used B"
  shows "\<exists>m'. kfree_unlocked (adr g (Suc k)) s = Some (s\<lparr>hmem := m'\<rparr>) \<and> released g (hmem s) B N k c m'"
proof -
  have kB: "B k = Some (c, True)" using k by (simp add: used_def)
  have nz: "adr g (Suc k) \<noteq> 0" using payload_nonzero [OF o kB] by (simp add: payload_def adr_Suc)
  show ?thesis
    using release_ok [OF heap_okD(1) [OF o] kB] nz hs_reads(3) [OF heap_invD(1) [OF heap_okD(1) [OF o]] kB] heap_okD(2) [OF o]
    by (auto simp: kfree_unlocked_def adr_Suc)
qed

section \<open>Initialisation\<close>

definition boot_ok :: "geo \<Rightarrow> heap \<Rightarrow> bool" where
  "boot_ok g s \<longleftrightarrow> geo_ok g \<and> 37 \<le> lim g \<and> adr g ` {..lim g} \<union> heads g \<subseteq> dom (hmem s) \<and> free_lists s = flb g \<and>
     16 \<le> unat (zb g) \<and> unat (zb g) + 2 ^ 33 \<le> 2 ^ 64 \<and> mem_brk s = zb g - 16 \<and> mem_brk s \<noteq> NULL \<and> mem_max_addr s = adr g (Suc (lim g))"

lemma lst_nonzero: "geo_ok g \<Longrightarrow> i < 12 \<Longrightarrow> lst g i \<noteq> 0 \<and> lst g i + 16 \<noteq> 0"
  using hc_heads [of i g] by (auto simp: geo_ok_def hc_set)

lemma init_lists:
  assumes g: "geo_ok g" and m: "heads g \<subseteq> dom m"
  shows "n \<le> 12 \<Longrightarrow> \<exists>m'. for_each (\<lambda>i m. list_init m (flb g + 32 * of_nat i)) [0..<n] m = Some m' \<and>
    (\<forall>i<n. dlist m' (lst g i) []) \<and> dom m' = dom m \<and> (\<forall>a. a \<notin> heads g \<longrightarrow> m' a = m a)"
proof (induction n)
  case (Suc n)
  then obtain m1 where m1: "for_each (\<lambda>i m. list_init m (flb g + 32 * of_nat i)) [0..<n] m = Some m1"
      "\<forall>i<n. dlist m1 (lst g i) []" "dom m1 = dom m" "\<forall>a. a \<notin> heads g \<longrightarrow> m1 a = m a" by auto
  have n: "n < 12" using Suc.prems by simp
  have "hc g n \<subseteq> dom m1" using hc_heads [OF n] m m1(3) by blast
  then have "m1 (lst g n) \<noteq> None" "m1 (lst g n + 8) \<noteq> None" "m1 (lst g n + 16) \<noteq> None" "m1 (lst g n + 24) \<noteq> None"
    by (auto simp: hc_set)
  then obtain m2 where m2: "list_init m1 (lst g n) = Some m2" "dlist m2 (lst g n) []" "\<forall>x. x \<notin> hc g n \<longrightarrow> m2 x = m1 x"
    using list_init_ok [of "lst g n" m1] lst_nonzero [OF g n] unfolding hc_set by blast
  have "dlist m2 (lst g i) []" if i: "i < n" for i
  proof -
    have "m2 a = m1 a" if "a \<in> hc g i" for a using m2(3) hc_disjoint [of i n g] i n that by auto
    then show ?thesis using dlist_keep [OF g, of i "[]" m2 m1] m1(2) i n by (simp add: pw_def)
  qed
  moreover have "dom m2 = dom m1" using m2(1) by (clarsimp simp: list_init_def bind_eq_Some_conv) (metis st64_dom)
  moreover have "for_each (\<lambda>i m. list_init m (flb g + 32 * of_nat i)) [0..<Suc n] m = Some m2"
  proof -
    have "for_each f (xs @ [x]) s = for_each f xs s \<bind> f x" for f :: "nat \<Rightarrow> mem \<Rightarrow> mem option" and xs x s
      by (induction xs arbitrary: s) (auto simp: bind_assoc)
    then show ?thesis using m1(1) m2(1) by (simp add: lst_def)
  qed
  moreover have "m2 a = m a" if "a \<notin> heads g" for a using that m2(3) m1(4) hc_heads [OF n, of g] by auto
  ultimately show ?case using m2(2) m1(3) by (auto simp: less_Suc_eq)
qed simp

lemma empty_heap:
  assumes "geo_ok g" "1 \<le> lim g" "adr g ` {..lim g} \<union> heads g \<subseteq> dom m" "\<forall>i<12. dlist m (lst g i) []"
    "m (adr g 0) = Some FENCE" "m (adr g 1) = Some FENCE"
  shows "heap_inv g m Map.empty 1"
  using assms by (auto simp: heap_inv_def hs_def no_adj_def free_blocks_def tiling_def tags_def lists_def in_list_def intro!: exI [of _ "[]"])

lemma dlist_off_heads:
  assumes "geo_ok g" "i < 12" "dlist m (lst g i) []" "\<And>a. a \<in> heads g \<Longrightarrow> m' a = m a"
  shows "dlist m' (lst g i) []"
  using dlist_keep [OF assms(1,2), of "[]" m' m] assms(3,4) hc_heads [OF assms(2)] by (auto simp: pw_def)

lemma initKernelHeap_ok:
  assumes b: "boot_ok g s"
  shows "\<exists>s' B. initKernelHeap s = Some (0, s') \<and> heap_ok g s' B 37 \<and> used B = {} \<and> hlock s' = 0 \<and> dom (hmem s') = dom (hmem s)"
proof -
  have b': "geo_ok g" "37 \<le> lim g" "adr g ` {..lim g} \<union> heads g \<subseteq> dom (hmem s)" "free_lists s = flb g" "16 \<le> unat (zb g)"
      "unat (zb g) + 2 ^ 33 \<le> 2 ^ 64" "mem_brk s = zb g - 16" "mem_brk s \<noteq> NULL" "mem_max_addr s = adr g (Suc (lim g))"
    using b unfolding boot_ok_def by blast+
  have lg: "lim g < 2 ^ 28" using b'(1) by (simp add: geo_ok_def)
  have e: "zb g - 16 + 32 = adr g 2" by (simp add: adr_def)
  have "unat (adr g 2) \<le> unat (adr g (Suc (lim g)))" using unat_adr [of g 2] unat_adr [of g "Suc (lim g)"] b'(2,6) lg by simp
  then have "\<not> adr g 2 > adr g (Suc (lim g))" by (simp add: word_less_nat_alt)
  then have sb: "mem_sbrk (4 * 8) s = (zb g - 16, s\<lparr>mem_brk := adr g 2\<rparr>)" using b' e by (simp add: mem_sbrk_def)
  obtain m1 where m1: "for_each (\<lambda>i m. list_init m (flb g + 32 * of_nat i)) [0..<NUM_LISTS] (hmem s) = Some m1"
      "\<forall>i<12. dlist m1 (lst g i) []" "dom m1 = dom (hmem s)"
    using init_lists [OF b'(1), of "hmem s" 12] b'(3) by (auto simp: NUM_LISTS_def)
  have a01: "zb g - 16 + 2 * 8 = adr g 0" "zb g - 16 + 3 * 8 = adr g 1" by (simp_all add: adr_def)
  have in_dom: "adr g k \<in> dom m1" if "k \<le> lim g" for k using b'(3) m1(3) that by blast
  have mp: "m1 (adr g 0) \<noteq> None" "m1 (adr g 1) \<noteq> None" using in_dom [of 0] in_dom [of 1] b'(2) by auto
  define m2 where "m2 = m1(adr g 0 \<mapsto> FENCE, adr g 1 \<mapsto> FENCE)"
  have st: "st64 m1 (adr g 0) FENCE = Some (m1(adr g 0 \<mapsto> FENCE))" "st64 (m1(adr g 0 \<mapsto> FENCE)) (adr g 1) FENCE = Some m2"
    using mp by (simp_all add: st64_Some m2_def)
  have dm: "dom m2 = dom (hmem s)" using mp m1(3) by (auto simp: m2_def)
  have keep: "m2 a = m1 a" if "a \<in> heads g" for a
    using that adr_heads [OF b'(1), of 0] adr_heads [OF b'(1), of 1] b'(2) by (auto simp: m2_def)
  have "heap_inv g m2 Map.empty 1"
  proof (rule empty_heap [OF b'(1)])
    show "\<forall>i<12. dlist m2 (lst g i) []" using dlist_off_heads [OF b'(1)] m1(2) keep by blast
    show "m2 (adr g 0) = Some FENCE" "m2 (adr g 1) = Some FENCE" by (simp_all add: m2_def)
  qed (use b' dm in auto)
  define s2 where "s2 = s\<lparr>mem_brk := adr g 2, hlock := spinInit (hlock s), heap_listp := adr g 1, hmem := m2\<rparr>"
  have "heap_ok g s2 Map.empty 1" using \<open>heap_inv g m2 Map.empty 1\<close> b' by (simp add: heap_ok_def s2_def numeral_2_eq_2)
  then obtain r s3 where r: "extend_heap (of_nat 36) s2 = Some (r, s3)" "r \<noteq> NULL" "extended g s2 Map.empty 1 36 r s3"
    using extend_heap_ok [of g s2 Map.empty 1 36] b'(2) by auto
  obtain B where B: "heap_ok g s3 B 37" "used B = used Map.empty" "hlock s3 = hlock s2" "dom (hmem s3) = dom (hmem s2)"
    using r(3) unfolding extended_def same_def by auto
  have "initKernelHeap s = Some (0, s3)"
    using sb b'(4,7,8) m1(1) st r(1,2) unfolding initKernelHeap_def Let_def
    by (simp add: a01 CHUNKSIZE_def s2_def) (simp add: adr_def add.commute)
  moreover have "used B = {}" "hlock s3 = 0" "dom (hmem s3) = dom (hmem s)" using B dm by (simp_all add: used_def s2_def spinInit_def)
  ultimately show ?thesis using B(1) by blast
qed

end
