(* ===== verification/Object_Allocator.thy ===== *)
theory Object_Allocator
  imports Prelude
begin

text \<open>
  What a heap promises to its clients. A state \<open>s\<close> with \<open>inv s L\<close> has the live objects \<open>L\<close>, each given
  by its address and its size in 8-byte cells. Allocation never fails to return; it adds an object of at
  least the requested size, or returns a null pointer; release removes one; neither changes the contents
  of any other object, and live objects do not overlap. From these laws the theory derives what a client
  sees that allocates and releases in any order.
\<close>

definition obj_cells :: "u64 \<times> nat \<Rightarrow> u64 set" where
  "obj_cells x = (\<lambda>i. fst x + 8 * of_nat i) ` {..<snd x}"

definition kept :: "('s \<Rightarrow> u64 \<Rightarrow> u64 option) \<Rightarrow> (u64 \<times> nat) set \<Rightarrow> 's \<Rightarrow> 's \<Rightarrow> bool" where
  "kept rdc L s s' \<longleftrightarrow> (\<forall>x\<in>L. \<forall>a\<in>obj_cells x. rdc s' a = rdc s a)"

text \<open>A client that holds pointers: it allocates, or releases the pointer at a position of its list.\<close>
datatype client_op = New u64 | Drop nat

primrec client_step :: "(u64 \<Rightarrow> 's \<Rightarrow> (u64 \<times> 's) option) \<Rightarrow> (u64 \<Rightarrow> 's \<Rightarrow> (unit \<times> 's) option) \<Rightarrow>
    client_op \<Rightarrow> u64 list \<times> 's \<Rightarrow> (u64 list \<times> 's) option" where
  "client_step alloc release (New n) ps = do {
     (r, s) \<leftarrow> alloc n (snd ps);
     Some (if r = NULL then fst ps else fst ps @ [r], s) }"
| "client_step alloc release (Drop i) ps =
     (if i < length (fst ps) then do {
        (_, s) \<leftarrow> release (fst ps ! i) (snd ps);
        Some (take i (fst ps) @ drop (Suc i) (fst ps), s) }
      else Some ps)"

definition op_ok :: "nat \<Rightarrow> client_op \<Rightarrow> bool" where
  "op_ok bound c = (case c of New n \<Rightarrow> unat n < bound | Drop _ \<Rightarrow> True)"

locale object_allocator =
  fixes inv :: "'s \<Rightarrow> (u64 \<times> nat) set \<Rightarrow> bool"
    and rdc :: "'s \<Rightarrow> u64 \<Rightarrow> u64 option"
    and alloc :: "u64 \<Rightarrow> 's \<Rightarrow> (u64 \<times> 's) option"
    and release :: "u64 \<Rightarrow> 's \<Rightarrow> (unit \<times> 's) option"
    and bound :: nat
  assumes alloc_law: "inv s L \<Longrightarrow> unat n < bound \<Longrightarrow> \<exists>r s'. alloc n s = Some (r, s') \<and> kept rdc L s s' \<and>
      (if r = NULL then inv s' L else \<exists>c. unat n \<le> 8 * c \<and> (\<forall>x\<in>L. fst x \<noteq> r) \<and> inv s' (insert (r, c) L))"
    and release_law: "inv s L \<Longrightarrow> (p, c) \<in> L \<Longrightarrow>
      \<exists>s'. release p s = Some ((), s') \<and> kept rdc (L - {(p, c)}) s s' \<and> inv s' (L - {(p, c)})"
    and apart_law: "inv s L \<Longrightarrow> x \<in> L \<Longrightarrow> y \<in> L \<Longrightarrow> x \<noteq> y \<Longrightarrow> fst x \<noteq> fst y \<and> obj_cells x \<inter> obj_cells y = {}"
begin

text \<open>The client's pointers are live objects besides those of \<open>K\<close>, which it does not touch.\<close>
definition holds :: "(u64 \<times> nat) set \<Rightarrow> 's \<Rightarrow> u64 list \<times> 's \<Rightarrow> bool" where
  "holds K s0 ps \<longleftrightarrow> (\<exists>L. inv (snd ps) L \<and> K \<subseteq> L \<and> distinct (fst ps) \<and> set (fst ps) = fst ` (L - K) \<and> kept rdc K s0 (snd ps))"

lemma kept_chain: "kept rdc K s s1 \<Longrightarrow> kept rdc L s1 s2 \<Longrightarrow> K \<subseteq> L \<Longrightarrow> kept rdc K s s2"
  unfolding kept_def by (metis subsetD)

lemma step_holds:
  assumes h: "holds K s0 ps" and v: "op_ok bound c"
  shows "\<exists>ps'. client_step alloc release c ps = Some ps' \<and> holds K s0 ps'"
proof -
  obtain L where L: "inv (snd ps) L" "K \<subseteq> L" "distinct (fst ps)" "set (fst ps) = fst ` (L - K)" "kept rdc K s0 (snd ps)"
    using h unfolding holds_def by blast
  show ?thesis
  proof (cases c)
    case (New n)
    then obtain r s' where r: "alloc n (snd ps) = Some (r, s')" "kept rdc L (snd ps) s'"
        "if r = NULL then inv s' L else \<exists>c. unat n \<le> 8 * c \<and> (\<forall>x\<in>L. fst x \<noteq> r) \<and> inv s' (insert (r, c) L)"
      using alloc_law [OF L(1), of n] v by (auto simp: op_ok_def)
    have k: "kept rdc K s0 s'" by (rule kept_chain [OF L(5) r(2) L(2)])
    show ?thesis
    proof (cases "r = NULL")
      case True
      then have "holds K s0 (fst ps, s')" unfolding holds_def using L r(3) k by (intro exI [of _ L]) simp
      then show ?thesis using r(1) New True by simp
    next
      case False
      then obtain d where d: "\<forall>x\<in>L. fst x \<noteq> r" "inv s' (insert (r, d) L)" using r(3) by auto
      have "(r, d) \<notin> K" using d(1) L(2) by fastforce
      then have "insert (r, d) L - K = insert (r, d) (L - K)" by blast
      then have "holds K s0 (fst ps @ [r], s')"
        unfolding holds_def using L d k by (intro exI [of _ "insert (r, d) L"]) auto
      then show ?thesis using r(1) New False by simp
    qed
  next
    case (Drop i)
    show ?thesis
    proof (cases "i < length (fst ps)")
      case True
      have "fst ps ! i \<in> fst ` (L - K)" using L(4) nth_mem [OF True] by simp
      then obtain d where d: "(fst ps ! i, d) \<in> L" "(fst ps ! i, d) \<notin> K" by (auto simp: image_iff)
      obtain s' where s': "release (fst ps ! i) (snd ps) = Some ((), s')" "kept rdc (L - {(fst ps ! i, d)}) (snd ps) s'"
          "inv s' (L - {(fst ps ! i, d)})"
        using release_law [OF L(1) d(1)] by blast
      let ?q = "take i (fst ps) @ drop (Suc i) (fst ps)"
      have sp: "fst ps = take i (fst ps) @ fst ps ! i # drop (Suc i) (fst ps)" using True by (rule id_take_nth_drop)
      then have dq: "distinct ?q" "fst ps ! i \<notin> set ?q" "set ?q = set (fst ps) - {fst ps ! i}"
      proof -
        have d0: "distinct (take i (fst ps) @ fst ps ! i # drop (Suc i) (fst ps))" using L(3) sp by simp
        then show "distinct ?q" "fst ps ! i \<notin> set ?q" by auto
        have "set (fst ps) = insert (fst ps ! i) (set ?q)" by (subst sp) auto
        then show "set ?q = set (fst ps) - {fst ps ! i}" using d0 by auto
      qed
      have "fst ` (L - {(fst ps ! i, d)} - K) = fst ` (L - K) - {fst ps ! i}"
        using apart_law [OF L(1) d(1)] d by (fastforce simp: image_iff)
      moreover have "K \<subseteq> L - {(fst ps ! i, d)}" using L(2) d(2) by blast
      ultimately have "holds K s0 (?q, s')"
        unfolding holds_def using s' dq L(4) kept_chain [OF L(5) s'(2)] by (intro exI [of _ "L - {(fst ps ! i, d)}"]) simp
      then show ?thesis using s'(1) Drop True by simp
    qed (use h Drop in simp)
  qed
qed

text \<open>Any sequence of allocations and releases returns, and objects the client does not release keep their contents.\<close>
lemma run_holds:
  assumes "holds K s0 ps" and "\<forall>c\<in>set cs. op_ok bound c"
  shows "\<exists>ps'. for_each (client_step alloc release) cs ps = Some ps' \<and> holds K s0 ps'"
  using assms
proof (induction cs arbitrary: ps)
  case (Cons c cs)
  then obtain ps1 where "client_step alloc release c ps = Some ps1" "holds K s0 ps1" using step_holds [of K s0 ps c] by auto
  then show ?case using Cons by simp
qed auto

lemma run_from:
  assumes "inv s K" and "\<forall>c\<in>set cs. op_ok bound c"
  shows "\<exists>ps s' L. for_each (client_step alloc release) cs ([], s) = Some (ps, s') \<and> inv s' L \<and> K \<subseteq> L \<and> distinct ps \<and>
    set ps = fst ` (L - K) \<and> kept rdc K s s' \<and> (\<forall>x\<in>L. \<forall>y\<in>L. x \<noteq> y \<longrightarrow> obj_cells x \<inter> obj_cells y = {})"
proof -
  have "holds K s ([], s)" unfolding holds_def using assms(1) by (intro exI [of _ K]) (simp add: kept_def)
  then obtain ps s' where r: "for_each (client_step alloc release) cs ([], s) = Some (ps, s')" "holds K s (ps, s')"
    using run_holds [OF _ assms(2)] by (metis prod.exhaust)
  then obtain L where "inv s' L" "K \<subseteq> L" "distinct ps" "set ps = fst ` (L - K)" "kept rdc K s s'" unfolding holds_def by auto
  moreover have "\<forall>x\<in>L. \<forall>y\<in>L. x \<noteq> y \<longrightarrow> obj_cells x \<inter> obj_cells y = {}" using apart_law calculation(1) by blast
  ultimately show ?thesis using r(1) by blast
qed

end

end
