(* ===== verification/Heap_Client.thy ===== *)
theory Heap_Client
  imports Heap_Correct Object_Allocator
begin

text \<open>
  The kernel heap as its clients see it: \<^verbatim>\<open>kmalloc\<close> and \<^verbatim>\<open>kfree\<close> with the lock are an instance of
  \<open>object_allocator\<close>, so that objects are disjoint and keep their contents. The theory also holds what goes
  wrong for requests of 4 GiB and more, and for \<^verbatim>\<open>kcalloc\<close> when memory is exhausted.
\<close>

definition uwords :: "blocks \<Rightarrow> nat set" where
  "uwords B = (\<Union>(k, c)\<in>used B. {k..<k + c})"

definition live :: "geo \<Rightarrow> blocks \<Rightarrow> (u64 \<times> nat) set" where
  "live g B = (\<lambda>(k, c). (adr g (Suc k), c - 2)) ` used B"

definition heap_live :: "geo \<Rightarrow> heap \<Rightarrow> (u64 \<times> nat) set \<Rightarrow> bool" where
  "heap_live g s L \<longleftrightarrow> (\<exists>B N. heap_ok g s B N \<and> hlock s = 0 \<and> L = live g B)"

lemma uwordsI: "(k, c) \<in> used B \<Longrightarrow> w \<in> {k..<k + c} \<Longrightarrow> w \<in> uwords B"
  unfolding uwords_def by blast

lemma uwordsE:
  assumes "w \<in> uwords B"
  obtains k c where "B k = Some (c, True)" "k \<le> w" "w < k + c"
  using assms by (auto simp: uwords_def used_def)

lemma uwords_bound:
  assumes t: "tiling B N" and w: "w \<in> uwords B"
  shows "w < N" "w \<notin> fwords B"
proof -
  obtain k c where k: "B k = Some (c, True)" "k \<le> w" "w < k + c" using w by (rule uwordsE)
  show "w < N" using tilingD(4) [OF t k(1)] k(3) by simp
  show "w \<notin> fwords B"
  proof
    assume "w \<in> fwords B"
    then obtain j d where j: "B j = Some (d, False)" "j \<le> w" "w < j + d" by (rule fwordsE)
    have "j \<noteq> k" using j(1) k(1) by auto
    then show False using blocks_apart [OF t j(1) k(1)] j k by auto
  qed
qed

lemma same_uwords:
  assumes h: "hs g m B N X" and s: "same g A m m'" and A: "A \<subseteq> {..lim g}" "w \<notin> A" and w: "w \<in> uwords B"
  shows "m' (adr g w) = m (adr g w)"
proof -
  note h' = hsD [OF h]
  have "w \<le> lim g" using uwords_bound(1) [OF h'(3) w] h'(2) by simp
  then show ?thesis using s adr_in [OF h'(1) _ A(1)] adr_heads [OF h'(1)] A(2) by (simp add: same_def)
qed

lemma fwords_bound: "tiling B N \<Longrightarrow> fwords B \<subseteq> {..<N}"
proof
  fix w assume t: "tiling B N" and "w \<in> fwords B"
  then obtain j d where "B j = Some (d, False)" "j \<le> w" "w < j + d" by (metis fwordsE)
  then show "w \<in> {..<N}" using tilingD(4) [OF t] by force
qed

section \<open>The locked operations\<close>

lemma with_heap_lock_ok:
  assumes "hlock s = 0" "f (s\<lparr>hlock := 1\<rparr>) = Some (r, s')"
  shows "with_heap_lock f s = Some (r, s'\<lparr>hlock := 0\<rparr>)"
  using assms by (simp add: with_heap_lock_def spinLock_def xchg_8_def spinUnlock_def)

lemma heap_ok_lock [simp]: "heap_ok g (s\<lparr>hlock := l\<rparr>) B N = heap_ok g s B N"
  by (simp add: heap_ok_def)

text \<open>What \<^verbatim>\<open>kmalloc\<close> returns: a null pointer when the request is empty or does not fit, or a new block.\<close>
definition kmalloc_post :: "geo \<Rightarrow> heap \<Rightarrow> blocks \<Rightarrow> nat \<Rightarrow> nat \<Rightarrow> u64 \<Rightarrow> heap \<Rightarrow> blocks \<Rightarrow> bool" where
  "kmalloc_post g s B N n r s' B' \<longleftrightarrow>
     (if r = NULL then used B' = used B \<and> (n = 0 \<or> lim g < N + max (req n) 36)
      else \<exists>k c. r = adr g (Suc k) \<and> n \<le> 8 * (c - 2) \<and> used B' = insert (k, c) (used B) \<and> {k..<k + c} \<inter> uwords B = {}) \<and>
     (\<forall>w\<in>uwords B. hmem s' (adr g w) = hmem s (adr g w))"

lemma allocated_post:
  assumes o: "heap_ok g s B N" and a: "allocated g s B N n r s'" and r: "r \<noteq> NULL"
  shows "\<exists>B' N'. heap_ok g s' B' N' \<and> N \<le> N' \<and> kmalloc_post g s B N n r s' B'"
proof -
  note h = heap_invD(1) [OF heap_okD(1) [OF o]]
  note h' = hsD [OF h]
  obtain k c B' N' where x: "r = adr g (Suc k)" "heap_ok g s' B' N'" "N \<le> N'" "n \<le> 8 * (c - 2)" "used B' = insert (k, c) (used B)"
      "{k..<k + c} \<subseteq> fwords B \<union> {N..}" "same g (fwords B \<union> {N..lim g}) (hmem s) (hmem s')"
    using a unfolding allocated_def by blast
  have A: "fwords B \<union> {N..lim g} \<subseteq> {..lim g}" using fwords_bound [OF h'(3)] h'(2) by auto
  have out: "w \<notin> fwords B \<union> {N..}" if "w \<in> uwords B" for w using uwords_bound [OF h'(3) that] by simp
  then have "{k..<k + c} \<inter> uwords B = {}" using x(6) by blast
  moreover have "hmem s' (adr g w) = hmem s (adr g w)" if "w \<in> uwords B" for w
    using same_uwords [OF h x(7) A _ that] out [OF that] by simp
  ultimately show ?thesis using x r unfolding kmalloc_post_def by auto
qed

lemma kmalloc_ok:
  assumes o: "heap_ok g s B N" and l: "hlock s = 0" and n: "n < 2 ^ 32 - 32"
  shows "\<exists>r s' B' N'. kmalloc (of_nat n) s = Some (r, s') \<and> heap_ok g s' B' N' \<and> hlock s' = 0 \<and> N \<le> N' \<and> kmalloc_post g s B N n r s' B'"
proof (cases "n = 0")
  case True
  then have "kmalloc (of_nat n) s = Some (NULL, s)"
    using with_heap_lock_ok [OF l, of "kmalloc_unlocked 0" NULL "s\<lparr>hlock := 1\<rparr>"] l by (simp add: kmalloc_def kmalloc_unlocked_def)
  then show ?thesis using True o l by (auto simp: kmalloc_post_def)
next
  case False
  let ?s = "s\<lparr>hlock := 1\<rparr>"
  have o1: "heap_ok g ?s B N" using o by simp
  obtain r s1 where r: "kmalloc_unlocked (of_nat n) ?s = Some (r, s1)"
      "r = NULL \<and> s1 = ?s \<and> lim g < N + max (req n) 36 \<or> r \<noteq> NULL \<and> allocated g ?s B N n r s1"
    using kmalloc_unlocked_ok [OF o1 _ n] False by blast
  have k: "kmalloc (of_nat n) s = Some (r, s1\<lparr>hlock := 0\<rparr>)" using with_heap_lock_ok [of s "kmalloc_unlocked (of_nat n)", OF l r(1)] by (simp add: kmalloc_def)
  from r(2) show ?thesis
  proof (elim disjE conjE)
    assume "r = NULL" "s1 = ?s" "lim g < N + max (req n) 36"
    then show ?thesis using k o l by (intro exI [of _ r] exI [of _ "s1\<lparr>hlock := 0\<rparr>"] exI [of _ B] exI [of _ N]) (simp add: kmalloc_post_def)
  next
    assume "r \<noteq> NULL" "allocated g ?s B N n r s1"
    then obtain B' N' where "heap_ok g s1 B' N'" "N \<le> N'" "kmalloc_post g ?s B N n r s1 B'" using allocated_post [OF o1] by blast
    moreover have "kmalloc_post g s B N n r (s1\<lparr>hlock := 0\<rparr>) B' = kmalloc_post g ?s B N n r s1 B'" by (simp add: kmalloc_post_def)
    ultimately show ?thesis using k
      by (intro exI [of _ r] exI [of _ "s1\<lparr>hlock := 0\<rparr>"] exI [of _ B'] exI [of _ N']) simp
  qed
qed

lemma kfree_ok:
  assumes o: "heap_ok g s B N" and l: "hlock s = 0" and k: "(k, c) \<in> used B"
  shows "\<exists>s' B'. kfree (adr g (Suc k)) s = Some ((), s') \<and> heap_ok g s' B' N \<and> hlock s' = 0 \<and> used B' = used B - {(k, c)} \<and>
    (\<forall>w\<in>uwords B - {k..<k + c}. hmem s' (adr g w) = hmem s (adr g w))"
proof -
  let ?s = "s\<lparr>hlock := 1\<rparr>"
  have o1: "heap_ok g ?s B N" using o by simp
  note h = heap_invD(1) [OF heap_okD(1) [OF o]]
  note h' = hsD [OF h]
  obtain m' where m': "kfree_unlocked (adr g (Suc k)) ?s = Some (?s\<lparr>hmem := m'\<rparr>)" "released g (hmem ?s) B N k c m'"
    using kfree_unlocked_ok [OF o1 k] by blast
  then obtain B' where B': "heap_inv g m' B' N" "used B' = used B - {(k, c)}" "same g (fwords B \<union> {k..<k + c}) (hmem s) m'"
    unfolding released_def by auto
  have r: "kfree (adr g (Suc k)) s = Some ((), s\<lparr>hmem := m', hlock := 0\<rparr>)"
    using with_heap_lock_ok [OF l, of "\<lambda>s. do { s \<leftarrow> kfree_unlocked (adr g (Suc k)) s; Some ((), s) }"] m'(1) by (simp add: kfree_def)
  have "B k = Some (c, True)" using k by (simp add: used_def)
  then have "k + c \<le> N" using tilingD(4) [OF h'(3)] by simp
  then have A: "fwords B \<union> {k..<k + c} \<subseteq> {..lim g}" using fwords_bound [OF h'(3)] h'(2) by auto
  have "m' (adr g w) = hmem s (adr g w)" if "w \<in> uwords B - {k..<k + c}" for w
    using same_uwords [OF h B'(3) A] that uwords_bound(2) [OF h'(3)] by auto
  moreover have "heap_ok g (s\<lparr>hmem := m', hlock := 0\<rparr>) B' N" using o B'(1) by (simp add: heap_ok_def)
  ultimately show ?thesis using r B'(2) by (intro exI [of _ "s\<lparr>hmem := m', hlock := 0\<rparr>"] exI [of _ B']) auto
qed

section \<open>The heap as an allocator of objects\<close>

lemma live_cells:
  assumes "(k, c) \<in> used B" "tiling B N"
  shows "obj_cells (adr g (Suc k), c - 2) = adr g ` {Suc k..<k + c - 1}" "adr g ` {Suc k..<k + c - 1} \<subseteq> adr g ` {k..<k + c}"
proof -
  have k: "B k = Some (c, True)" using assms(1) by (simp add: used_def)
  have c: "8 \<le> c" by (rule tilingD(3) [OF assms(2) k])
  have "obj_cells (adr g (Suc k), c - 2) = (\<lambda>i. adr g (Suc k + i)) ` {..<c - 2}"
    by (auto simp: obj_cells_def adr_def algebra_simps)
  also have "\<dots> = adr g ` ((\<lambda>i. Suc k + i) ` {..<c - 2})" by (simp add: image_image)
  also have "(\<lambda>i. Suc k + i) ` {..<c - 2} = {Suc k..<k + c - 1}"
  proof (rule set_eqI)
    fix w show "w \<in> (\<lambda>i. Suc k + i) ` {..<c - 2} \<longleftrightarrow> w \<in> {Suc k..<k + c - 1}"
      using c by (auto simp: image_iff intro!: bexI [of _ "w - Suc k"])
  qed
  finally show "obj_cells (adr g (Suc k), c - 2) = adr g ` {Suc k..<k + c - 1}" .
  show "adr g ` {Suc k..<k + c - 1} \<subseteq> adr g ` {k..<k + c}" by (rule image_mono) auto
qed

lemma kept_live:
  assumes t: "tiling B N" and k: "\<And>w. w \<in> uwords B \<Longrightarrow> hmem s' (adr g w) = hmem s (adr g w)"
  shows "kept hmem (live g B) s s'"
  unfolding kept_def
proof (intro ballI)
  fix x a assume "x \<in> live g B" "a \<in> obj_cells x"
  then obtain j d where j: "(j, d) \<in> used B" "a \<in> obj_cells (adr g (Suc j), d - 2)" by (auto simp: live_def)
  then obtain w where "w \<in> {j..<j + d}" "a = adr g w" using live_cells [OF j(1) t] by blast
  moreover from this have "w \<in> uwords B" using uwordsI [OF j(1)] by blast
  ultimately show "hmem s' a = hmem s a" using k by simp
qed

lemma live_apart:
  assumes o: "heap_ok g s B N" and x: "(j, d) \<in> used B" "(k, c) \<in> used B" "(j, d) \<noteq> (k, c)"
  shows "adr g (Suc j) \<noteq> adr g (Suc k) \<and> obj_cells (adr g (Suc j), d - 2) \<inter> obj_cells (adr g (Suc k), c - 2) = {}"
proof -
  note h = hsD [OF heap_invD(1) [OF heap_okD(1) [OF o]]]
  have B: "B j = Some (d, True)" "B k = Some (c, True)" using x by (simp_all add: used_def)
  have jk: "j \<noteq> k" using B x(3) by auto
  have dis: "{j..<j + d} \<inter> {k..<k + c} = {}" using blocks_apart [OF h(3) B jk] by auto
  have sub: "{j..<j + d} \<subseteq> {..lim g}" "{k..<k + c} \<subseteq> {..lim g}"
    using tilingD(4) [OF h(3) B(1)] tilingD(4) [OF h(3) B(2)] h(2) by auto
  have "adr g ` {j..<j + d} \<inter> adr g ` {k..<k + c} = {}" by (rule adr_disjoint [OF h(1) sub dis])
  then have "obj_cells (adr g (Suc j), d - 2) \<inter> obj_cells (adr g (Suc k), c - 2) = {}"
    using live_cells [OF x(1) h(3), of g] live_cells [OF x(2) h(3), of g] by blast
  moreover have "Suc j < 2 ^ 29" "Suc k < 2 ^ 29"
    using tilingD(3,4) [OF h(3) B(1)] tilingD(3,4) [OF h(3) B(2)] h(2,9) by simp_all
  then have "adr g (Suc j) \<noteq> adr g (Suc k)" using adr_eq jk by blast
  ultimately show ?thesis by blast
qed

interpretation kheap: object_allocator "heap_live g" hmem kmalloc kfree "2 ^ 32 - 32" for g
proof
  fix s L n assume i: "heap_live g s L" and n: "unat (n :: u64) < 2 ^ 32 - 32"
  obtain B N where o: "heap_ok g s B N" "hlock s = 0" "L = live g B" using i unfolding heap_live_def by blast
  note t = hsD(3) [OF heap_invD(1) [OF heap_okD(1) [OF o(1)]]]
  obtain r s' B' N' where r: "kmalloc n s = Some (r, s')" "heap_ok g s' B' N'" "hlock s' = 0" "kmalloc_post g s B N (unat n) r s' B'"
    using kmalloc_ok [OF o(1,2) n] by auto
  have keep: "kept hmem L s s'" unfolding o(3) by (rule kept_live [OF t]) (use r(4) in \<open>simp add: kmalloc_post_def\<close>)
  show "\<exists>r s'. kmalloc n s = Some (r, s') \<and> kept hmem L s s' \<and>
      (if r = NULL then heap_live g s' L else \<exists>c. unat n \<le> 8 * c \<and> (\<forall>x\<in>L. fst x \<noteq> r) \<and> heap_live g s' (insert (r, c) L))"
  proof (cases "r = NULL")
    case True
    then have "live g B' = L" using r(4) o(3) by (simp add: kmalloc_post_def live_def)
    then have "heap_live g s' L" using r(2,3) unfolding heap_live_def by blast
    then show ?thesis using r(1) keep True by auto
  next
    case False
    then obtain k c where k: "r = adr g (Suc k)" "unat n \<le> 8 * (c - 2)" "used B' = insert (k, c) (used B)" "{k..<k + c} \<inter> uwords B = {}"
      using r(4) by (auto simp: kmalloc_post_def)
    have "live g B' = insert (r, c - 2) L" using k(1,3) o(3) by (simp add: live_def)
    then have "heap_live g s' (insert (r, c - 2) L)" using r(2,3) unfolding heap_live_def by blast
    moreover have "fst x \<noteq> r" if xL: "x \<in> L" for x
    proof -
      obtain j d where j: "(j, d) \<in> used B" "x = (adr g (Suc j), d - 2)" using xL o(3) by (auto simp: live_def)
      have "(j, d) \<noteq> (k, c)"
      proof
        assume "(j, d) = (k, c)"
        then have "0 < c" "(k, c) \<in> used B" using j(1) tilingD(3) [OF t, of j d True] by (auto simp: used_def)
        then have "k \<in> uwords B" by (intro uwordsI) auto
        moreover have "k \<in> {k..<k + c}" using \<open>0 < c\<close> by simp
        ultimately show False using k(4) by blast
      qed
      then show ?thesis using live_apart [OF r(2), of j d k c] j k(1,3) by simp
    qed
    ultimately show ?thesis using r(1) keep False k(2) by auto
  qed
next
  fix s L p c assume i: "heap_live g s L" and x: "(p, c) \<in> L"
  obtain B N where o: "heap_ok g s B N" "hlock s = 0" "L = live g B" using i unfolding heap_live_def by blast
  note t = hsD(3) [OF heap_invD(1) [OF heap_okD(1) [OF o(1)]]]
  obtain k d where k: "(k, d) \<in> used B" "p = adr g (Suc k)" "c = d - 2" using x o(3) by (auto simp: live_def)
  obtain s' B' where s': "kfree p s = Some ((), s')" "heap_ok g s' B' N" "hlock s' = 0" "used B' = used B - {(k, d)}"
      "\<forall>w\<in>uwords B - {k..<k + d}. hmem s' (adr g w) = hmem s (adr g w)"
    using kfree_ok [OF o(1,2) k(1)] k(2) by blast
  have "inj_on (\<lambda>(k, c). (adr g (Suc k), c - 2)) (used B)"
    by (rule inj_onI) (use live_apart [OF o(1)] in \<open>fastforce split: prod.splits\<close>)
  then have lv: "live g B' = L - {(p, c)}"
    unfolding live_def s'(4) o(3) using k by (subst inj_on_image_set_diff) auto
  have tB': "tiling B' N" using hsD(3) [OF heap_invD(1) [OF heap_okD(1) [OF s'(2)]]] .
  have "kept hmem (live g B') s s'"
  proof (rule kept_live [OF tB'])
    fix w assume "w \<in> uwords B'"
    then obtain j e where "(j, e) \<in> used B'" "w \<in> {j..<j + e}" unfolding uwords_def by blast
    then have j: "(j, e) \<in> used B" "(j, e) \<noteq> (k, d)" "w \<in> {j..<j + e}" using s'(4) by auto
    have B: "B j = Some (e, True)" "B k = Some (d, True)" using j(1) k(1) by (simp_all add: used_def)
    have "j \<noteq> k" using B j(2) by auto
    then have "w \<notin> {k..<k + d}" using blocks_apart [OF t B] j(3) by auto
    moreover have "w \<in> uwords B" by (rule uwordsI [OF j(1,3)])
    ultimately show "hmem s' (adr g w) = hmem s (adr g w)" using s'(5) by blast
  qed
  then show "\<exists>s'. kfree p s = Some ((), s') \<and> kept hmem (L - {(p, c)}) s s' \<and> heap_live g s' (L - {(p, c)})"
    using s'(1-3) lv unfolding heap_live_def by metis
next
  fix s L x y assume i: "heap_live g s L" and xy: "x \<in> L" "y \<in> L" "x \<noteq> y"
  obtain B N where o: "heap_ok g s B N" "L = live g B" using i unfolding heap_live_def by blast
  obtain j d k c where "(j, d) \<in> used B" "(k, c) \<in> used B" "x = (adr g (Suc j), d - 2)" "y = (adr g (Suc k), c - 2)"
    using xy(1,2) o(2) by (auto simp: live_def)
  then show "fst x \<noteq> fst y \<and> obj_cells x \<inter> obj_cells y = {}" using live_apart [OF o(1), of j d k c] xy(3) by auto
qed

section \<open>Requests of four gibibytes\<close>

lemma huge_request: "request_words 0x100000000 = Some 0x20000002"
  by (simp add: request_words_def align_def ALIGNMENT_def max_size_def MIN_BLOCK_SIZE_WORDS_def WSIZE_def)

lemma no_huge_fit:
  assumes "hs g m B N (free_blocks B)"
  shows "find_fit (flb g) m 0x20000002 = Some NULL"
proof -
  obtain r where r: "find_fit (flb g) m 0x20000002 = Some r" "r = NULL \<or> (\<exists>k c. r = adr g k \<and> B k = Some (c, False) \<and> 0x20000002 \<le> c)"
    using find_fit_ok [OF assms, of "0x20000002"] by auto
  then show ?thesis using hs_size [OF assms] by fastforce
qed

text \<open>The break moves by 16 bytes only, and the footer of the block lies 4 GiB further on.\<close>
lemma huge_footer_faults:
  assumes m: "m (adr g N) = Some FENCE" and u: "m (adr g (N + 0x20000001)) = None"
  shows "mark_block_free m (adr g N) (ucast (0x20000002 :: u64)) = None"
proof -
  let ?t = "put_size (put_inuse FENCE 0) (ucast (0x20000002 :: u64))"
  have t: "?t = tagw 0x20000002 False" using put_tag [of "0x20000002" FENCE False] by simp
  then have sz: "tag_size ?t = 0x20000002" using tag_size_tagw [of "0x20000002" False] by simp
  have f: "adr g N + WSIZE * 0x20000002 - 8 = adr g (N + 0x20000001)"
    by (simp add: WSIZE_def adr_def algebra_simps)
  have ne: "adr g (N + 0x20000001) \<noteq> adr g N" using m u by auto
  have "set_header_and_footer m (adr g N) (ucast (0x20000002 :: u64)) 0 = None"
    using m u sz f ne by (auto simp: set_header_and_footer_def get_footer_def ld64_def st64_def WSIZE_def)
  then show ?thesis by (simp add: mark_block_free_def)
qed

lemma huge_sbrk:
  assumes o: "heap_ok g s B N" and l: "N + 2 \<le> lim g"
  shows "mem_sbrk (ucast (0x20000002 * WSIZE :: u64)) s = (adr g (Suc N), s\<lparr>mem_brk := adr g (N + 3)\<rparr>)"
proof -
  note o' = heap_okD [OF o] and h = hsD [OF heap_invD(1) [OF heap_okD(1) [OF o]]]
  have e: "adr g (Suc N) + 16 = adr g (N + 3)" by (simp add: adr_def algebra_simps)
  have "unat (adr g (N + 3)) \<le> unat (adr g (Suc (lim g)))"
    using unat_adr [of g "N + 3"] unat_adr [of g "Suc (lim g)"] o'(5) h(9) l by simp
  then have "\<not> adr g (N + 3) > adr g (Suc (lim g))" by (simp add: word_less_nat_alt)
  then show ?thesis using o'(3,4) by (simp add: mem_sbrk_def WSIZE_def e)
qed

lemma kmalloc_huge:
  assumes o: "heap_ok g s B N" and l: "N + 2 \<le> lim g" and u: "hmem s (adr g (N + 0x20000001)) = None"
  shows "kmalloc_unlocked 0x100000000 s = None"
proof -
  note o' = heap_okD [OF o] and h = heap_invD(1) [OF heap_okD(1) [OF o]]
  have "hmem s (adr g N) = Some FENCE" using hsD(4) [OF h] by (simp add: tags_def)
  then have "mark_block_free (hmem s) (adr g N) (ucast (0x20000002 :: u64)) = None" using huge_footer_faults [of "hmem s"] u by blast
  moreover have "adr g (Suc N) \<noteq> NULL" using adr_nonzero [OF hsD(1) [OF h], of "Suc N"] l by simp
  moreover have "max_size 0x20000002 CHUNKSIZE = 0x20000002" by (simp add: max_size_def CHUNKSIZE_def)
  ultimately show ?thesis
    using huge_sbrk [OF o l] no_huge_fit [OF h] o'(2) adr_Suc(2) [of g N]
    by (simp add: kmalloc_unlocked_def huge_request extend_heap_def)
qed

section \<open>An example\<close>

definition demo_heap :: heap where
  "demo_heap = \<lparr>hmem = (\<lambda>a. if a < 0xFFFF900004000000 \<or> 0xFFFFFFFF80000000 \<le> a then Some 0 else None), mem_start_brk = kheap_base,
     mem_brk = kheap_base, mem_max_addr = kheap_base + MAX_HEAP, free_lists = 0xFFFFFFFF80100000, heap_listp = 0, hlock = 0\<rparr>"

definition demo_geo :: geo where
  "demo_geo = \<lparr>zb = kheap_base + 16, flb = 0xFFFFFFFF80100000, lim = 4194301\<rparr>"

lemma demo_adr: "k \<le> lim demo_geo \<Longrightarrow> unat (adr demo_geo k) = 0xFFFF900000000010 + 8 * k"
  using unat_adr [of demo_geo k] by (simp add: demo_geo_def kheap_base_def)

lemma demo_hd_cell: "j < 48 \<Longrightarrow> unat (hd_cell demo_geo j) = 0xFFFFFFFF80100000 + 8 * j"
  by (simp add: hd_cell_def demo_geo_def unat_word_ariths unat_of_nat)

lemma demo_boot: "boot_ok demo_geo demo_heap"
proof -
  have lim: "lim demo_geo = 4194301" by (simp add: demo_geo_def)
  have lo: "unat (adr demo_geo k) < 0xFFFF900004000000 \<and> 0 < unat (adr demo_geo k)" if "k \<le> lim demo_geo" for k
    using demo_adr [OF that] that lim by simp
  have hi: "0xFFFFFFFF80000000 \<le> unat (hd_cell demo_geo j)" if "j < 48" for j using demo_hd_cell [OF that] by simp
  have "adr demo_geo k \<noteq> hd_cell demo_geo j" if "k \<le> lim demo_geo" "j < 48" for k j using lo [OF that(1)] hi [OF that(2)] by auto
  then have "geo_ok demo_geo" unfolding geo_ok_def heads_def using lim lo hi by (fastforce simp: image_iff)
  moreover have "hmem demo_heap (adr demo_geo k) \<noteq> None" if "k \<le> lim demo_geo" for k
    using lo [OF that] by (simp add: demo_heap_def word_less_nat_alt)
  moreover have "hmem demo_heap (hd_cell demo_geo j) \<noteq> None" if "j < 48" for j
    using hi [OF that] by (simp add: demo_heap_def word_le_nat_alt)
  ultimately show ?thesis
    unfolding boot_ok_def heads_def
    by (auto simp: lim demo_heap_def demo_geo_def kheap_base_def adr_def MAX_HEAP_def)
qed

section \<open>Properties\<close>

text \<open>
  On a mapped region with room for a first chunk, \<^verbatim>\<open>initKernelHeap\<close> returns 0 and leaves an unlocked
  heap that satisfies the invariant (blocks tile the region, header and footer agree, the free lists hold exactly the
  free blocks, no two free neighbours) and has no object in use.
\<close>
theorem heap_init:
  assumes "boot_ok g s"
  shows "\<exists>s' B. initKernelHeap s = Some (0, s') \<and> heap_ok g s' B 37 \<and> used B = {} \<and> hlock s' = 0"
  using initKernelHeap_ok [OF assms] by blast

theorem heap_init_witness: "\<exists>s' B. initKernelHeap demo_heap = Some (0, s') \<and> heap_ok demo_geo s' B 37 \<and> used B = {} \<and> hlock s' = 0"
  by (rule heap_init [OF demo_boot])

text \<open>
  C4: on an unlocked heap, \<^verbatim>\<open>kmalloc\<close> of less than 4 GiB (less 32 bytes) returns, keeps the
  invariant and releases the lock. The result is a null pointer only for an empty request or when the region is
  exhausted; otherwise it is the payload of a new block with room for the request, disjoint from all blocks in use.
  No word of a block in use changes.
\<close>
theorem kmalloc_correct:
  assumes "heap_ok g s B N" and "hlock s = 0" and "n < 2 ^ 32 - 32"
  shows "\<exists>r s' B' N'. kmalloc (of_nat n) s = Some (r, s') \<and> heap_ok g s' B' N' \<and> hlock s' = 0 \<and> N \<le> N' \<and>
    (if r = NULL then used B' = used B \<and> (n = 0 \<or> lim g < N + max (req n) 36)
     else \<exists>k c. r = adr g (Suc k) \<and> n \<le> 8 * (c - 2) \<and> used B' = insert (k, c) (used B) \<and> {k..<k + c} \<inter> uwords B = {}) \<and>
    (\<forall>w\<in>uwords B. hmem s' (adr g w) = hmem s (adr g w))"
  using kmalloc_ok [OF assms] unfolding kmalloc_post_def by blast

theorem kmalloc_correct_witness:
  "\<exists>s B r s' B' N' k c. initKernelHeap demo_heap = Some (0, s) \<and> used B = {} \<and> kmalloc 100 s = Some (r, s') \<and> heap_ok demo_geo s' B' N' \<and>
     r = adr demo_geo (Suc k) \<and> 100 \<le> 8 * (c - 2) \<and> used B' = {(k, c)}"
proof -
  obtain s B where s: "initKernelHeap demo_heap = Some (0, s)" "heap_ok demo_geo s B 37" "used B = {}" "hlock s = 0"
    using initKernelHeap_ok [OF demo_boot] by blast
  obtain r s' B' N' where r: "kmalloc (of_nat 100) s = Some (r, s')" "heap_ok demo_geo s' B' N'"
      "if r = NULL then used B' = used B \<and> ((100 :: nat) = 0 \<or> lim demo_geo < 37 + max (req 100) 36)
       else \<exists>k c. r = adr demo_geo (Suc k) \<and> 100 \<le> 8 * (c - 2) \<and> used B' = insert (k, c) (used B) \<and> {k..<k + c} \<inter> uwords B = {}"
    using kmalloc_correct [OF s(2,4), of 100] by auto
  have "r \<noteq> NULL" using r(3) by (auto simp: demo_geo_def req_def)
  then show ?thesis using r s by auto
qed

text \<open>
  C16: \<^verbatim>\<open>kfree\<close> of the payload of a block in use returns, keeps the invariant, releases the lock,
  removes exactly that block from the blocks in use, and changes no word of the others.
\<close>
theorem kfree_correct:
  assumes "heap_ok g s B N" and "hlock s = 0" and "(k, c) \<in> used B"
  shows "\<exists>s' B'. kfree (adr g (Suc k)) s = Some ((), s') \<and> heap_ok g s' B' N \<and> hlock s' = 0 \<and> used B' = used B - {(k, c)} \<and>
    (\<forall>w\<in>uwords B - {k..<k + c}. hmem s' (adr g w) = hmem s (adr g w))"
  by (rule kfree_ok [OF assms])

theorem kfree_correct_witness:
  "\<exists>s r s' s'' B'' N. initKernelHeap demo_heap = Some (0, s) \<and> kmalloc 100 s = Some (r, s') \<and> kfree r s' = Some ((), s'') \<and>
     heap_ok demo_geo s'' B'' N \<and> used B'' = {}"
proof -
  obtain s B where s: "initKernelHeap demo_heap = Some (0, s)" "heap_ok demo_geo s B 37" "used B = {}" "hlock s = 0"
    using initKernelHeap_ok [OF demo_boot] by blast
  obtain r s' B' N' where r: "kmalloc (of_nat 100) s = Some (r, s')" "heap_ok demo_geo s' B' N'" "hlock s' = 0"
      "kmalloc_post demo_geo s B 37 100 r s' B'"
    using kmalloc_ok [OF s(2,4), of 100] by auto
  have "r \<noteq> NULL" using r(4) by (auto simp: kmalloc_post_def demo_geo_def req_def)
  then obtain k c where k: "r = adr demo_geo (Suc k)" "used B' = {(k, c)}" using r(4) s(3) by (auto simp: kmalloc_post_def)
  then obtain s'' B'' where "kfree r s' = Some ((), s'')" "heap_ok demo_geo s'' B'' N'" "used B'' = {}"
    using kfree_correct [OF r(2,3), of k c] by auto
  then show ?thesis using s(1) r(1) by auto
qed

text \<open>
  C12: from any unlocked heap with live objects \<open>K\<close>, every sequence of allocations and of
  releases of the pointers so obtained returns; afterwards the live objects are \<open>K\<close> and those of the pointers still
  held, which are distinct, no two objects share a memory cell, and the contents of the objects in \<open>K\<close> are unchanged.
\<close>
theorem heap_objects_independent:
  assumes "heap_live g s K" and "\<forall>c\<in>set cs. op_ok (2 ^ 32 - 32) c"
  shows "\<exists>ps s' L. for_each (client_step kmalloc kfree) cs ([], s) = Some (ps, s') \<and> heap_live g s' L \<and> K \<subseteq> L \<and> distinct ps \<and>
    set ps = fst ` (L - K) \<and> (\<forall>x\<in>K. \<forall>a\<in>obj_cells x. hmem s' a = hmem s a) \<and>
    (\<forall>x\<in>L. \<forall>y\<in>L. x \<noteq> y \<longrightarrow> obj_cells x \<inter> obj_cells y = {})"
  using kheap.run_from [OF assms] unfolding kept_def .

theorem heap_objects_independent_witness:
  "\<exists>s ps s'. initKernelHeap demo_heap = Some (0, s) \<and>
     for_each (client_step kmalloc kfree) [New 24, New 4000, Drop 0, New 64, Drop 1] ([], s) = Some (ps, s') \<and> distinct ps"
proof -
  obtain s B where s: "initKernelHeap demo_heap = Some (0, s)" "heap_ok demo_geo s B 37" "used B = {}" "hlock s = 0"
    using initKernelHeap_ok [OF demo_boot] by blast
  then have "heap_live demo_geo s {}" unfolding heap_live_def live_def by force
  then show ?thesis
    using heap_objects_independent [of demo_geo s "{}" "[New 24, New 4000, Drop 0, New 64, Drop 1]"] s(1)
    by (fastforce simp: op_ok_def)
qed

text \<open>
  C30: a request of exactly 4 GiB is not refused: the increment passed to \<^verbatim>\<open>mem_sbrk\<close> is
  truncated to 16 bytes, the break moves by that, and the footer of the block of 4 GiB is written far outside
  the heap, a fault when nothing is mapped there.
\<close>
theorem kmalloc_huge_faults:
  assumes "heap_ok g s B N" and "hlock s = 0" and "N + 2 \<le> lim g" and "hmem s (adr g (N + 0x20000001)) = None"
  shows "mem_sbrk (ucast (0x20000002 * WSIZE :: u64)) s = (adr g (Suc N), s\<lparr>mem_brk := mem_brk s + 16\<rparr>) \<and> kmalloc 0x100000000 s = None"
proof -
  have "mem_brk s + 16 = adr g (N + 3)" using heap_okD(3) [OF assms(1)] by (simp add: adr_def algebra_simps)
  moreover have "kmalloc_unlocked 0x100000000 (s\<lparr>hlock := 1\<rparr>) = None" using kmalloc_huge [of g "s\<lparr>hlock := 1\<rparr>" B N] assms by simp
  then have "kmalloc 0x100000000 s = None"
    using assms(2) by (simp add: kmalloc_def with_heap_lock_def spinLock_def xchg_8_def)
  ultimately show ?thesis using huge_sbrk [OF assms(1,3)] by simp
qed

theorem kmalloc_huge_faults_witness: "\<exists>s. initKernelHeap demo_heap = Some (0, s) \<and> kmalloc 0x100000000 s = None"
proof -
  obtain s B where s: "initKernelHeap demo_heap = Some (0, s)" "heap_ok demo_geo s B 37" "hlock s = 0" "dom (hmem s) = dom (hmem demo_heap)"
    using initKernelHeap_ok [OF demo_boot] by blast
  have "unat (adr demo_geo (37 + 0x20000001)) = 0xFFFF900000000010 + 8 * 0x20000026"
    using unat_adr [of demo_geo "37 + 0x20000001"] by (simp add: demo_geo_def kheap_base_def)
  then have "hmem demo_heap (adr demo_geo (37 + 0x20000001)) = None"
    by (simp add: demo_heap_def word_less_nat_alt word_le_nat_alt)
  then have "hmem s (adr demo_geo (37 + 0x20000001)) = None" using s(4) by blast
  then show ?thesis using kmalloc_huge_faults [OF s(2,3)] s(1) by (auto simp: demo_geo_def)
qed

end
