(* ===== verification/Kmodule.thy ===== *)
theory Kmodule
  imports CString
begin

text \<open>
  Boot modules: \<^verbatim>\<open>fs/kmodule.c\<close>. The boot loader leaves a response in memory, a count and a table of
  pointers to file descriptors (address, size and path at offsets 8, 16 and 24); the functions read it
  there, and \<open>None\<close> is a dereference of an unmapped address or a path without end.
\<close>

definition kmodulesGetNum :: "mem \<Rightarrow> u64 \<Rightarrow> u64 option" where
  "kmodulesGetNum m response = ld64 m (response + 8)"

definition kmodule_slot :: "mem \<Rightarrow> u64 \<Rightarrow> u64 \<Rightarrow> u64 option" where
  "kmodule_slot m response num = do { modules \<leftarrow> ld64 m (response + 16); ld64 m (modules + 8 * num) }"

definition kmoduleGet :: "mem \<Rightarrow> u64 \<Rightarrow> u64 \<Rightarrow> u64 option" where
  "kmoduleGet m response num = do {
     count \<leftarrow> kmodulesGetNum m response;
     if num > count then Some NULL else kmodule_slot m response num }"

partial_function (option) kmodule_search :: "mem \<Rightarrow> u64 \<Rightarrow> u64 \<Rightarrow> u32 \<Rightarrow> u64 option" where
  "kmodule_search m response path i = do {
     count \<leftarrow> kmodulesGetNum m response;
     if ucast i < count then do {
       file \<leftarrow> kmodule_slot m response (ucast i);
       name \<leftarrow> ld64 m (file + 24);
       r \<leftarrow> strcmp m path name;
       if r = 0 then kmodule_slot m response (ucast i) else kmodule_search m response path (i + 1) }
     else Some NULL }"

definition kmoduleFindByPath :: "mem \<Rightarrow> u64 \<Rightarrow> u64 \<Rightarrow> u64 option" where
  "kmoduleFindByPath m response path = kmodule_search m response path 0"

definition kmoduleGetc :: "mem \<Rightarrow> u64 \<Rightarrow> u64 \<Rightarrow> u8 option" where
  "kmoduleGetc m file index =
     (if file \<noteq> NULL then do {
        sz \<leftarrow> ld64 m (file + 16);
        if index < sz then do { address \<leftarrow> ld64 m (file + 8); ld8 m (address + index) } else Some 0 }
      else Some 0)"

declare kmodule_search.simps [code]

end
