(* ===== verification/Ports.thy ===== *)
theory Ports
  imports Prelude
begin

text \<open>
  Port and model-specific register access: \<^verbatim>\<open>device/io.h\<close>. The instructions reach hardware outside the
  program, so what a port or register does is a parameter: a record of transition functions on a state
  \<open>'d\<close> of the hardware, which the drivers thread through their calls, and the same for memory-mapped
  registers. The model-specific registers the kernel uses hold what was written to them. Arrays of the
  drivers are lists, with an access outside the array the value \<open>None\<close>.
\<close>

record 'd port_io =
  inb :: "u16 \<Rightarrow> 'd \<Rightarrow> u8 \<times> 'd"
  outb :: "u16 \<Rightarrow> u8 \<Rightarrow> 'd \<Rightarrow> 'd"
  inw :: "u16 \<Rightarrow> 'd \<Rightarrow> u16 \<times> 'd"
  outw :: "u16 \<Rightarrow> u16 \<Rightarrow> 'd \<Rightarrow> 'd"
  inl :: "u16 \<Rightarrow> 'd \<Rightarrow> u32 \<times> 'd"
  outl :: "u16 \<Rightarrow> u32 \<Rightarrow> 'd \<Rightarrow> 'd"

record 'd mmio =
  read32 :: "u64 \<Rightarrow> 'd \<Rightarrow> u32 \<times> 'd"
  write32 :: "u64 \<Rightarrow> u32 \<Rightarrow> 'd \<Rightarrow> 'd"
  read64 :: "u64 \<Rightarrow> 'd \<Rightarrow> u64 \<times> 'd"
  write64 :: "u64 \<Rightarrow> u64 \<Rightarrow> 'd \<Rightarrow> 'd"

type_synonym msrs = "u32 \<Rightarrow> u64"

definition wrmsr :: "u32 \<Rightarrow> u32 \<Rightarrow> u32 \<Rightarrow> msrs \<Rightarrow> msrs" where
  "wrmsr msr lo hi r = r(msr := ucast lo OR push_bit 32 (ucast hi))"

definition rdmsr :: "u32 \<Rightarrow> msrs \<Rightarrow> u32 \<times> u32" where
  "rdmsr msr r = (ucast (r msr), ucast (drop_bit 32 (r msr)))"

lemma rdmsr_wrmsr [simp]: "rdmsr a (wrmsr b lo hi r) = (if a = b then (lo, hi) else rdmsr a r)"
  by (auto simp: rdmsr_def wrmsr_def intro!: bit_word_eqI)
    (auto simp: bit_simps dest: bit_imp_le_length)


definition get_at :: "'a list \<Rightarrow> nat \<Rightarrow> 'a option" where
  "get_at xs i = (if i < length xs then Some (xs ! i) else None)"

definition put_at :: "'a list \<Rightarrow> nat \<Rightarrow> 'a \<Rightarrow> 'a list option" where
  "put_at xs i v = (if i < length xs then Some (xs[i := v]) else None)"

lemma put_atD: "put_at xs i v = Some ys \<Longrightarrow> i < length xs \<and> ys = xs[i := v]"
  by (simp add: put_at_def split: if_splits)

lemma get_put_at: "put_at xs i v = Some ys \<Longrightarrow> get_at ys j = (if j = i then Some v else get_at xs j)"
  by (auto simp: put_at_def get_at_def split: if_splits)

end
