(* ===== verification/Text.thy ===== *)
theory Text
  imports Kmodule Ports
begin

text \<open>
  The text screen: \<^verbatim>\<open>device/vga/graphics.c\<close> and \<^verbatim>\<open>device/vga/text.c\<close>. The frame buffer, the buffer that
  saves the pixels under the cursor, the font and the boot modules are all in the memory \<open>vmem\<close>, so that
  a store to a wrong offset is a fault or changes another object. Coordinates are 16-bit, byte offsets
  into the frame buffer 32-bit and the geometry 64-bit, as in the code. The comparisons of
  \<^verbatim>\<open>cursor + character_size * 2U + spacing\<close> are 32-bit and cannot wrap there, so they are written in
  64 bits.
\<close>

section \<open>The frame buffer\<close>

record screen =
  vmem :: mem
  fb_base :: u64
  fb_w :: u64
  fb_h :: u64
  fb_p :: u64
  fb_bpp :: u64
  cursor_x :: u16
  cursor_y :: u16
  background_color :: u32
  foreground_color :: u32
  current_font :: u64
  pixels_at_cursor :: u64
  cursor_enabled :: bool
  module_response :: u64
  font_path :: u64

definition DISP_DISABLED :: u16 where "DISP_DISABLED = 0"
definition DISP_ENABLED :: u16 where "DISP_ENABLED = 1"
definition DISP_INDEX_XRES :: u16 where "DISP_INDEX_XRES = 1"
definition DISP_INDEX_YRES :: u16 where "DISP_INDEX_YRES = 2"
definition DISP_INDEX_BPP :: u16 where "DISP_INDEX_BPP = 3"
definition DISP_INDEX_ENABLE :: u16 where "DISP_INDEX_ENABLE = 4"

definition graphicsWriteReg :: "'d port_io \<Rightarrow> u16 \<Rightarrow> u16 \<Rightarrow> 'd \<Rightarrow> 'd" where
  "graphicsWriteReg io index data d = outw io 0x1CF data (outw io 0x1CE index d)"

definition graphicsReadReg :: "'d port_io \<Rightarrow> u16 \<Rightarrow> 'd \<Rightarrow> u16 \<times> 'd" where
  "graphicsReadReg io index d = inw io 0x1CF (outw io 0x1CE index d)"

definition graphicsChangeResolution :: "'d port_io \<Rightarrow> u16 \<Rightarrow> u16 \<Rightarrow> 'd \<Rightarrow> bool \<times> 'd" where
  "graphicsChangeResolution io width height d =
     (let d = graphicsWriteReg io DISP_INDEX_ENABLE DISP_DISABLED d;
          d = graphicsWriteReg io DISP_INDEX_XRES width d;
          d = graphicsWriteReg io DISP_INDEX_YRES height d;
          d = graphicsWriteReg io DISP_INDEX_ENABLE DISP_ENABLED d;
          (x, d) = graphicsReadReg io DISP_INDEX_XRES d
      in if x \<noteq> width then (True, d)
         else let (y, d) = graphicsReadReg io DISP_INDEX_YRES d in (y \<noteq> height, d))"

definition graphicsChangeBitDepth :: "'d port_io \<Rightarrow> u16 \<Rightarrow> 'd \<Rightarrow> bool \<times> 'd" where
  "graphicsChangeBitDepth io depth d =
     (let d = graphicsWriteReg io DISP_INDEX_ENABLE DISP_DISABLED d;
          d = graphicsWriteReg io DISP_INDEX_BPP depth d;
          d = graphicsWriteReg io DISP_INDEX_ENABLE DISP_ENABLED d;
          (b, d) = graphicsReadReg io DISP_INDEX_BPP d
      in (b \<noteq> depth, d))"

definition graphicsPutpixel :: "u16 \<Rightarrow> u16 \<Rightarrow> u32 \<Rightarrow> screen \<Rightarrow> screen option" where
  "graphicsPutpixel x y color s = do {
     let where0 = (ucast (ucast x * fb_bpp s + ucast y * fb_p s) :: u32);
     m \<leftarrow> st8 (vmem s) (fb_base s + ucast where0) (ucast (color AND 0xFF));
     m \<leftarrow> st8 m (fb_base s + ucast (where0 + 1)) (ucast (drop_bit 8 color AND 0xFF));
     m \<leftarrow> st8 m (fb_base s + ucast (where0 + 2)) (ucast (drop_bit 16 color AND 0xFF));
     Some (s\<lparr>vmem := m\<rparr>) }"

section \<open>The cursor\<close>

definition margin_x :: u16 where "margin_x = 4"
definition margin_y :: u16 where "margin_y = 4"
definition spacing_x :: u16 where "spacing_x = 2"
definition spacing_y :: u16 where "spacing_y = 4"
definition character_size_x :: u16 where "character_size_x = 8"
definition character_size_y :: u16 where "character_size_y = 16"

definition glyph_mask :: "u8 list" where
  "glyph_mask = [0x80, 0x40, 0x20, 0x10, 0x08, 0x04, 0x02, 0x01]"

definition load_font :: "screen \<Rightarrow> screen option" where
  "load_font s =
     (if current_font s = NULL then do {
        font \<leftarrow> kmoduleFindByPath (vmem s) (module_response s) (font_path s);
        address \<leftarrow> ld64 (vmem s) (font + 8);
        Some (s\<lparr>current_font := address\<rparr>) }
      else Some s)"

definition textDrawChar :: "u8 \<Rightarrow> u16 \<Rightarrow> u16 \<Rightarrow> bool \<Rightarrow> screen \<Rightarrow> screen option" where
  "textDrawChar c x y transparent s = do {
     s \<leftarrow> load_font s;
     let font_char = current_font s + ucast c * ucast character_size_y;
     for_each (\<lambda>cy. for_each (\<lambda>cx s. do {
         b \<leftarrow> ld8 (vmem s) (font_char + of_nat cy);
         let lit = (b AND glyph_mask ! cx \<noteq> 0);
         if transparent then
           (if lit then graphicsPutpixel (x + of_nat cx) (y + of_nat cy) (foreground_color s) s else Some s)
         else graphicsPutpixel (x + of_nat cx) (y + of_nat cy)
                (if lit then foreground_color s else background_color s) s })
       [0..<unat character_size_x]) [0..<unat character_size_y] s }"

definition textDrawCharAtCursor :: "u8 \<Rightarrow> bool \<Rightarrow> screen \<Rightarrow> screen option" where
  "textDrawCharAtCursor c transparent s = textDrawChar c (cursor_x s) (cursor_y s) transparent s"

definition cursor_where :: "nat \<Rightarrow> screen \<Rightarrow> u64" where
  "cursor_where cy s =
     ucast (ucast (ucast (cursor_x s) * fb_bpp s + (ucast (cursor_y s) + of_nat cy) * fb_p s) :: u32)"

definition textDrawCursor :: "screen \<Rightarrow> screen option" where
  "textDrawCursor s = do {
     s \<leftarrow> for_each (\<lambda>cy s. do {
            (_, m) \<leftarrow> memcpy (vmem s) (pixels_at_cursor s + 4 * (of_nat cy * ucast character_size_x))
                       (fb_base s + cursor_where cy s) (fb_bpp s * ucast character_size_x);
            Some (s\<lparr>vmem := m\<rparr>) }) [0..<unat character_size_y] s;
     s \<leftarrow> textDrawCharAtCursor 219 False s;
     Some (s\<lparr>cursor_enabled := True\<rparr>) }"

definition textClearCursor :: "screen \<Rightarrow> screen option" where
  "textClearCursor s = do {
     s \<leftarrow> for_each (\<lambda>cy s. do {
            (_, m) \<leftarrow> memcpy (vmem s) (fb_base s + cursor_where cy s)
                       (pixels_at_cursor s + 4 * (of_nat cy * ucast character_size_x))
                       (fb_bpp s * ucast character_size_x);
            Some (s\<lparr>vmem := m\<rparr>) }) [0..<unat character_size_y] s;
     (_, m) \<leftarrow> memset (vmem s) (pixels_at_cursor s) 0 (8 * 16 * 4);
     Some (s\<lparr>vmem := m, cursor_enabled := False\<rparr>) }"

definition textMoveCursor :: "u16 \<Rightarrow> u16 \<Rightarrow> screen \<Rightarrow> screen option" where
  "textMoveCursor x y s = textDrawCursor (s\<lparr>cursor_x := x, cursor_y := y\<rparr>)"

section \<open>Characters\<close>

definition textMoveScreenUpOneLine :: "screen \<Rightarrow> screen option" where
  "textMoveScreenUpOneLine s = do {
     (s, p) \<leftarrow> for_each (\<lambda>i (s, p). do {
            (_, m) \<leftarrow> memcpy (vmem s) p (p + (ucast spacing_y + ucast character_size_y) * fb_p s) (fb_p s);
            Some (s\<lparr>vmem := m\<rparr>, p + fb_p s) })
          [unat margin_y + unat spacing_y + unat character_size_y..<unat (fb_h s)] (s, fb_base s);
     (_, m) \<leftarrow> memset (vmem s) (fb_base s + ucast (cursor_y s) * fb_p s) 0
                ((ucast character_size_y + ucast margin_y) * fb_p s);
     Some (s\<lparr>vmem := m\<rparr>) }"

definition last_line :: "screen \<Rightarrow> bool" where
  "last_line s \<longleftrightarrow>
     ucast (cursor_y s) + ucast character_size_y * 2 + ucast spacing_y > fb_h s - ucast margin_y"

definition last_column :: "screen \<Rightarrow> bool" where
  "last_column s \<longleftrightarrow>
     ucast (cursor_x s) + ucast character_size_x * 2 + ucast spacing_x > fb_w s - ucast margin_x"

definition textNewline :: "screen \<Rightarrow> screen option" where
  "textNewline s = do {
     s \<leftarrow> textClearCursor s;
     if last_line s then do {
       s \<leftarrow> textMoveScreenUpOneLine s;
       textMoveCursor margin_x (cursor_y s) s }
     else textMoveCursor margin_x (cursor_y s + spacing_y + character_size_y) s }"

definition textCursorUp :: "screen \<Rightarrow> screen option" where
  "textCursorUp s =
     (if cursor_y s = margin_y then Some s
      else do {
        s \<leftarrow> textClearCursor s;
        textMoveCursor (cursor_x s) (cursor_y s - spacing_y - character_size_y) s })"

definition textCursorDown :: "screen \<Rightarrow> screen option" where
  "textCursorDown s =
     (if last_line s then Some s
      else do {
        s \<leftarrow> textClearCursor s;
        textMoveCursor (cursor_x s) (cursor_y s + spacing_y + character_size_y) s })"

definition textCursorLeft :: "screen \<Rightarrow> screen option" where
  "textCursorLeft s =
     (if cursor_x s = margin_x then Some s
      else do {
        s \<leftarrow> textClearCursor s;
        textMoveCursor (cursor_x s - spacing_x - character_size_x) (cursor_y s) s })"

definition textCursorRight :: "screen \<Rightarrow> screen option" where
  "textCursorRight s =
     (if last_column s then Some s
      else do {
        s \<leftarrow> textClearCursor s;
        textMoveCursor (cursor_x s + spacing_x + character_size_x) (cursor_y s) s })"

definition textAdvanceCursorRight :: "screen \<Rightarrow> screen option" where
  "textAdvanceCursorRight s =
     (if last_line s \<and> last_column s then do {
        s \<leftarrow> textMoveScreenUpOneLine s;
        textMoveCursor margin_x (cursor_y s) s }
      else if last_column s then textMoveCursor margin_x (cursor_y s + spacing_y + character_size_y) s
      else textMoveCursor (cursor_x s + spacing_x + character_size_x) (cursor_y s) s)"

definition textSetBackground :: "u32 \<Rightarrow> screen \<Rightarrow> screen" where
  "textSetBackground color s = s\<lparr>background_color := color\<rparr>"

definition textSetForeground :: "u32 \<Rightarrow> screen \<Rightarrow> screen" where
  "textSetForeground color s = s\<lparr>foreground_color := color\<rparr>"

definition textClearCharAtCursor :: "screen \<Rightarrow> screen option" where
  "textClearCharAtCursor s = do {
     s \<leftarrow> textClearCursor s;
     s \<leftarrow> textDrawCharAtCursor 0x20 False s;
     textDrawCursor s }"

definition textClearScreen :: "screen \<Rightarrow> screen option" where
  "textClearScreen s = do {
     s \<leftarrow> textClearCursor s;
     (_, m) \<leftarrow> memset (vmem s) (fb_base s) 0 (fb_h s * fb_p s);
     Some (s\<lparr>vmem := m\<rparr>) }"

definition textPutc :: "u8 \<Rightarrow> screen \<Rightarrow> screen option" where
  "textPutc c s =
     (if c = 0x0A then textNewline s
      else if c = 0x08 then do { s \<leftarrow> textCursorLeft s; textClearCharAtCursor s }
      else if c = 0x86 then textCursorUp s
      else if c = 0x87 then textCursorDown s
      else if c = 0x88 then textCursorLeft s
      else if c = 0x89 then textCursorRight s
      else if c = 0x90 then do { s \<leftarrow> textClearScreen s; textMoveCursor 4 4 s }
      else if c = 0x91 then textClearCursor s
      else if c = 0x92 then textDrawCursor s
      else do {
        s \<leftarrow> textClearCursor s;
        s \<leftarrow> textDrawCharAtCursor c False s;
        textAdvanceCursorRight s })"

definition initGraphics :: "'d port_io \<Rightarrow> u64 \<Rightarrow> u16 \<Rightarrow> u16 \<Rightarrow> u16 \<Rightarrow> 'd \<times> screen \<Rightarrow> (nat \<times> 'd \<times> screen) option" where
  "initGraphics io response width height depth ds = do {
     let (d, s) = ds;
     count \<leftarrow> ld64 (vmem s) (response + 8);
     if count = 0 then Some (1, d, s)
     else do {
       framebuffers \<leftarrow> ld64 (vmem s) (response + 16);
       framebuffer \<leftarrow> ld64 (vmem s) framebuffers;
       address \<leftarrow> ld64 (vmem s) framebuffer;
       let s = s\<lparr>fb_base := address\<rparr>;
       let (e, d) = graphicsChangeResolution io width height d;
       if e then Some (1, d, s)
       else do {
         let (e, d) = graphicsChangeBitDepth io depth d;
         if e then Some (1, d, s)
         else do {
           let bpp = (ucast (depth div 8) :: u64);
           s \<leftarrow> textMoveCursor 4 4 (s\<lparr>fb_w := ucast width, fb_h := ucast height, fb_bpp := bpp, fb_p := ucast width * bpp\<rparr>);
           Some (0, d, s) } } } }"

end
