(* ===== verification/Text_Correct.thy ===== *)
theory Text_Correct
  imports Text Stdio_Correct
begin

text \<open>
  Correctness of the text screen.
\<close>

section \<open>Two buffers in memory\<close>

definition block :: "u64 \<Rightarrow> nat \<Rightarrow> mem \<Rightarrow> nat \<Rightarrow> u8 option" where
  "block p n m = (\<lambda>i. if i < n then ld8 m (p + of_nat i) else None)"

definition bufs :: "u64 \<Rightarrow> nat \<Rightarrow> u64 \<Rightarrow> nat \<Rightarrow> mem \<Rightarrow> bool" where
  "bufs a n b k m \<longleftrightarrow> unat a + n \<le> 2 ^ 64 \<and> unat b + k \<le> 2 ^ 64 \<and>
     span a n \<inter> span b k = {} \<and> region m a n \<and> region m b k"

definition bstep :: "u64 \<Rightarrow> nat \<Rightarrow> u64 \<Rightarrow> nat \<Rightarrow> mem \<Rightarrow> mem \<Rightarrow> (nat \<Rightarrow> u8 option) \<Rightarrow> (nat \<Rightarrow> u8 option) \<Rightarrow> bool" where
  "bstep a n b k m m' F G \<longleftrightarrow> bufs a n b k m' \<and> block a n m' = F \<and> block b k m' = G \<and>
     (\<forall>q. q \<notin> span a n \<union> span b k \<longrightarrow> ld8 m' q = ld8 m q)"

definition copied :: "nat \<Rightarrow> nat \<Rightarrow> nat \<Rightarrow> (nat \<Rightarrow> 'a) \<Rightarrow> (nat \<Rightarrow> 'a) \<Rightarrow> nat \<Rightarrow> 'a" where
  "copied d s n src dst = (\<lambda>i. if d \<le> i \<and> i < d + n then src (s + (i - d)) else dst i)"

lemma span_mem: "i < n \<Longrightarrow> p + of_nat i \<in> span p n"
  unfolding span_def by (rule image_eqI [where x = i]) simp_all

lemma span_E: "q \<in> span p n \<Longrightarrow> (\<And>i. i < n \<Longrightarrow> q = p + of_nat i \<Longrightarrow> P) \<Longrightarrow> P"
  unfolding span_def by (erule imageE) simp

lemma in_span_iff:
  assumes "unat p + n \<le> 2 ^ 64" "k + l \<le> n" "i < n"
  shows "p + of_nat i \<in> span (p + of_nat k) l \<longleftrightarrow> k \<le> i \<and> i < k + l"
proof
  assume "p + of_nat i \<in> span (p + of_nat k) l"
  then obtain j where j: "j < l" "p + of_nat i = p + of_nat k + of_nat j" by (rule span_E)
  have "unat (p + of_nat (k + j)) = unat p + (k + j)"
    by (rule unat_offset [OF assms(1)]) (use assms(2) j(1) in simp)
  moreover have "unat (p + of_nat i) = unat p + i"
    by (rule unat_offset [OF assms(1,3)])
  ultimately have "i = k + j" using j(2) by (simp add: add.assoc)
  with j(1) show "k \<le> i \<and> i < k + l" by simp
next
  assume ki: "k \<le> i \<and> i < k + l"
  then have "i - k < l" by arith
  with ki show "p + of_nat i \<in> span (p + of_nat k) l"
    using span_mem [of "i - k" l "p + of_nat k"] by (simp add: add.assoc of_nat_diff)
qed

lemma bufs_sym: "bufs a n b k m \<Longrightarrow> bufs b k a n m"
  by (simp add: bufs_def Int_commute)

lemma bstep_sym: "bstep a n b k m m' F G \<Longrightarrow> bstep b k a n m m' G F"
  by (simp add: bstep_def bufs_sym)

lemma bstep_refl: "bufs a n b k m \<Longrightarrow> bstep a n b k m m (block a n m) (block b k m)"
  by (simp add: bstep_def)

lemma bstep_trans: "bstep a n b k m m' F G \<Longrightarrow> bstep a n b k m' m'' F' G' \<Longrightarrow> bstep a n b k m m'' F' G'"
  by (simp add: bstep_def)

lemma bufs_apart:
  assumes "bufs a n b k m" "i < n" "j < k"
  shows "a + of_nat i \<noteq> b + of_nat j"
proof -
  have "a + of_nat i \<in> span a n" "b + of_nat j \<in> span b k" using assms by (simp_all add: span_mem)
  moreover have "span a n \<inter> span b k = {}" using assms by (simp add: bufs_def)
  ultimately show ?thesis by auto
qed

lemma bufs_keep: "bufs a n b k m \<Longrightarrow> (\<And>q. ld8 m q \<noteq> None \<Longrightarrow> ld8 m' q \<noteq> None) \<Longrightarrow> bufs a n b k m'"
  unfolding bufs_def region_def by blast

lemma bstep_write:
  assumes v: "bufs a n b k m" and d: "d + l \<le> n"
    and new: "\<And>i. i < l \<Longrightarrow> ld8 m' (a + of_nat d + of_nat i) = f i" "\<And>i. i < l \<Longrightarrow> f i \<noteq> None"
    and old: "\<And>q. q \<notin> span (a + of_nat d) l \<Longrightarrow> ld8 m' q = ld8 m q"
  shows "bstep a n b k m m' (\<lambda>i. if d \<le> i \<and> i < d + l then f (i - d) else block a n m i) (block b k m)"
proof -
  have w: "unat a + n \<le> 2 ^ 64" using v by (simp add: bufs_def)
  have in_a: "ld8 m' (a + of_nat i) = (if d \<le> i \<and> i < d + l then f (i - d) else ld8 m (a + of_nat i))"
    if "i < n" for i
  proof (cases "d \<le> i \<and> i < d + l")
    case True
    then have "a + of_nat d + of_nat (i - d) = a + of_nat i" "i - d < l" by (simp add: of_nat_diff, arith)
    with new(1) [of "i - d"] True show ?thesis by simp
  next
    case False
    with in_span_iff [OF w d that] have "a + of_nat i \<notin> span (a + of_nat d) l" by simp
    from old [OF this] False show ?thesis by (simp only: if_False)
  qed
  have sub: "span (a + of_nat d) l \<subseteq> span a n" by (rule span_subset [OF d])
  have out: "ld8 m' q = ld8 m q" if "q \<notin> span a n" for q using that sub by (intro old) blast
  have in_b: "ld8 m' (b + of_nat i) = ld8 m (b + of_nat i)" if "i < k" for i
  proof (rule out)
    have "span a n \<inter> span b k = {}" using v by (simp add: bufs_def)
    with span_mem [OF that, of b] show "b + of_nat i \<notin> span a n" by blast
  qed
  have keep: "ld8 m' q \<noteq> None" if "ld8 m q \<noteq> None" for q
  proof (cases "q \<in> span (a + of_nat d) l")
    case True
    then show ?thesis by (rule span_E) (simp add: new)
  qed (simp add: old that)
  have "bufs a n b k m'" by (rule bufs_keep [OF v keep])
  moreover have "block a n m' = (\<lambda>i. if d \<le> i \<and> i < d + l then f (i - d) else block a n m i)"
    unfolding block_def using d by (rule_tac ext) (simp add: in_a)
  moreover have "block b k m' = block b k m"
    unfolding block_def by (rule ext) (simp add: in_b)
  ultimately show ?thesis
    using out unfolding bstep_def by blast
qed

lemma bufs_region: "bufs a n b k m \<Longrightarrow> d + l \<le> n \<Longrightarrow> region m (a + of_nat d) l"
  unfolding bufs_def by (elim conjE, rule region_sub)

lemma block_part: "d + l \<le> n \<Longrightarrow> i < l \<Longrightarrow> ld8 m (p + of_nat d + of_nat i) = block p n m (d + i)"
  by (simp add: block_def add.assoc)

lemma bstep_st8:
  assumes v: "bufs a n b k m" and d: "d < n"
  shows "\<exists>m'. st8 m (a + of_nat d) x = Some m' \<and> bstep a n b k m m' ((block a n m)(d \<mapsto> x)) (block b k m)"
proof -
  have "ld8 m (a + of_nat d) \<noteq> None" using v d by (simp add: bufs_def region_def)
  then obtain m' where m': "st8 m (a + of_nat d) x = Some m'" using bytes.st_defined by blast
  note ld = ld8_st8 [OF m']
  have "bstep a n b k m m' (\<lambda>i. if d \<le> i \<and> i < d + 1 then Some x else block a n m i) (block b k m)"
  proof (rule bstep_write [OF v])
    show "d + 1 \<le> n" using d by simp
    show "ld8 m' (a + of_nat d + of_nat i) = Some x" if "i < 1" for i using that by (simp add: ld)
    show "ld8 m' q = ld8 m q" if "q \<notin> span (a + of_nat d) 1" for q
      using that span_mem [of 0 1 "a + of_nat d"] by (auto simp: ld)
  qed simp
  moreover have "(\<lambda>i. if d \<le> i \<and> i < d + 1 then Some x else block a n m i) = (block a n m)(d \<mapsto> x)"
    by (rule ext) auto
  ultimately show ?thesis using m' by simp
qed

lemma bstep_copy:
  assumes v: "bufs a n b k m" and d: "d + l \<le> n" and s: "s + l \<le> k" and l: "unat ln = l"
  shows "\<exists>m'. memcpy m (a + of_nat d) (b + of_nat s) ln = Some (a + of_nat d, m') \<and>
     bstep a n b k m m' (copied d s l (block b k m) (block a n m)) (block b k m)"
proof -
  have ra: "region m (a + of_nat d) l" and rb: "region m (b + of_nat s) l"
    using bufs_region [OF v d] bufs_region [OF bufs_sym [OF v] s] .
  have "l \<le> 2 ^ 64" using v d by (simp add: bufs_def)
  moreover have "a + of_nat d + of_nat i \<noteq> b + of_nat s + of_nat j" if "j < l" "i < j" for i j
    using bufs_apart [OF v, of "d + i" "s + j"] that d s by (simp add: add.assoc)
  ultimately obtain m' where m': "copy_up m (a + of_nat d) (b + of_nat s) l = Some m'"
      "\<forall>i<l. ld8 m' (a + of_nat d + of_nat i) = ld8 m (b + of_nat s + of_nat i)"
      "\<forall>q. q \<notin> span (a + of_nat d) l \<longrightarrow> ld8 m' q = ld8 m q"
    using copy_up_ok [OF ra rb] by blast
  have "bstep a n b k m m' (\<lambda>i. if d \<le> i \<and> i < d + l then block b k m (s + (i - d)) else block a n m i) (block b k m)"
  proof (rule bstep_write [OF v d])
    show "ld8 m' (a + of_nat d + of_nat i) = block b k m (s + i)" if "i < l" for i
      using m'(2) that block_part [OF s that, of m b] by simp
    show "block b k m (s + i) \<noteq> None" if "i < l" for i
      using rb that unfolding block_part [OF s that, symmetric] region_def by blast
    show "ld8 m' q = ld8 m q" if "q \<notin> span (a + of_nat d) l" for q using m'(3) that by blast
  qed
  with m'(1) show ?thesis by (simp add: memcpy_def l copied_def)
qed

lemma bstep_move:
  assumes v: "bufs a n b k m" and s: "s + l \<le> n" and d: "d \<le> s" and l: "unat ln = l"
  shows "\<exists>m'. memcpy m (a + of_nat d) (a + of_nat s) ln = Some (a + of_nat d, m') \<and>
     bstep a n b k m m' (copied d s l (block a n m) (block a n m)) (block b k m)"
proof -
  have d': "d + l \<le> n" using s d by simp
  have ra: "region m (a + of_nat d) l" and rs: "region m (a + of_nat s) l"
    using bufs_region [OF v d'] bufs_region [OF v s] .
  have w: "unat a + n \<le> 2 ^ 64" using v by (simp add: bufs_def)
  have "l \<le> 2 ^ 64" using w d' by simp
  moreover have "a + of_nat d + of_nat i \<noteq> a + of_nat s + of_nat j" if "j < l" "i < j" for i j
  proof -
    have "unat (a + of_nat (d + i)) = unat a + (d + i)" "unat (a + of_nat (s + j)) = unat a + (s + j)"
      using that d s by (intro unat_offset [OF w]; simp)+
    then show ?thesis using that d by (auto simp: add.assoc)
  qed
  ultimately obtain m' where m': "copy_up m (a + of_nat d) (a + of_nat s) l = Some m'"
      "\<forall>i<l. ld8 m' (a + of_nat d + of_nat i) = ld8 m (a + of_nat s + of_nat i)"
      "\<forall>q. q \<notin> span (a + of_nat d) l \<longrightarrow> ld8 m' q = ld8 m q"
    using copy_up_ok [OF ra rs] by blast
  have "bstep a n b k m m' (\<lambda>i. if d \<le> i \<and> i < d + l then block a n m (s + (i - d)) else block a n m i) (block b k m)"
  proof (rule bstep_write [OF v d'])
    show "ld8 m' (a + of_nat d + of_nat i) = block a n m (s + i)" if "i < l" for i
      using m'(2) that block_part [OF s that, of m a] by simp
    show "block a n m (s + i) \<noteq> None" if "i < l" for i
      using rs that unfolding block_part [OF s that, symmetric] region_def by blast
    show "ld8 m' q = ld8 m q" if "q \<notin> span (a + of_nat d) l" for q using m'(3) that by blast
  qed
  with m'(1) show ?thesis by (simp add: memcpy_def l copied_def)
qed

lemma bstep_fill:
  assumes v: "bufs a n b k m" and d: "d + l \<le> n" and l: "unat ln = l"
  shows "\<exists>m'. memset m (a + of_nat d) c ln = Some (a + of_nat d, m') \<and>
     bstep a n b k m m' (\<lambda>i. if d \<le> i \<and> i < d + l then Some (ucast c) else block a n m i) (block b k m)"
proof -
  have ra: "region m (a + of_nat d) l" by (rule bufs_region [OF v d])
  have "l \<le> 2 ^ 64" using v d by (simp add: bufs_def)
  then obtain m' where m': "fill_up m (a + of_nat d) (ucast c) l = Some m'"
      "\<forall>i<l. ld8 m' (a + of_nat d + of_nat i) = Some (ucast c)"
      "\<forall>q. q \<notin> span (a + of_nat d) l \<longrightarrow> ld8 m' q = ld8 m q"
    using fill_up_ok [OF ra] by blast
  have "bstep a n b k m m' (\<lambda>i. if d \<le> i \<and> i < d + l then Some (ucast c) else block a n m i) (block b k m)"
    by (rule bstep_write [OF v d]) (use m' in blast)+
  with m'(1) show ?thesis by (simp add: memset_def l)
qed

section \<open>Geometry\<close>

definition row_of :: "screen \<Rightarrow> nat \<Rightarrow> nat" where "row_of s k = k div unat (fb_p s)"
definition col_of :: "screen \<Rightarrow> nat \<Rightarrow> nat" where "col_of s k = k mod unat (fb_p s) div unat (fb_bpp s)"
definition chan_of :: "screen \<Rightarrow> nat \<Rightarrow> nat" where "chan_of s k = k mod unat (fb_p s) mod unat (fb_bpp s)"

definition fb_bytes :: "screen \<Rightarrow> nat" where "fb_bytes s = unat (fb_h s) * unat (fb_p s)"

definition at_pixel :: "screen \<Rightarrow> nat \<Rightarrow> nat \<Rightarrow> nat \<Rightarrow> nat" where
  "at_pixel s x y b = y * unat (fb_p s) + x * unat (fb_bpp s) + b"

definition geometry_ok :: "screen \<Rightarrow> bool" where
  "geometry_ok s \<longleftrightarrow> fb_bpp s \<in> {3, 4} \<and> unat (fb_p s) = unat (fb_w s) * unat (fb_bpp s) \<and>
     16 \<le> unat (fb_w s) \<and> unat (fb_w s) < 2 ^ 16 \<and> 24 \<le> unat (fb_h s) \<and> unat (fb_h s) < 2 ^ 16 \<and>
     fb_bytes s \<le> 2 ^ 32"

lemma geometry_vmem [simp]:
  "row_of (s\<lparr>vmem := m\<rparr>) = row_of s" "col_of (s\<lparr>vmem := m\<rparr>) = col_of s" "chan_of (s\<lparr>vmem := m\<rparr>) = chan_of s"
  "fb_bytes (s\<lparr>vmem := m\<rparr>) = fb_bytes s" "at_pixel (s\<lparr>vmem := m\<rparr>) = at_pixel s"
  "geometry_ok (s\<lparr>vmem := m\<rparr>) = geometry_ok s"
  by (simp_all add: fun_eq_iff row_of_def col_of_def chan_of_def fb_bytes_def at_pixel_def geometry_ok_def)

lemma geometry_bpp: "geometry_ok s \<Longrightarrow> 3 \<le> unat (fb_bpp s) \<and> unat (fb_bpp s) \<le> 4"
  by (auto simp: geometry_ok_def)

lemma line_width:
  assumes "geometry_ok s" "x < unat (fb_w s)" "b < unat (fb_bpp s)"
  shows "x * unat (fb_bpp s) + b < unat (fb_p s)"
proof -
  have "x * unat (fb_bpp s) + b < Suc x * unat (fb_bpp s)" using assms(3) by simp
  also have "\<dots> \<le> unat (fb_w s) * unat (fb_bpp s)" by (rule mult_le_mono1) (use assms(2) in simp)
  finally show ?thesis using assms(1) by (simp add: geometry_ok_def)
qed

lemma at_pixel_bound:
  assumes "geometry_ok s" "x < unat (fb_w s)" "y < unat (fb_h s)" "b < unat (fb_bpp s)"
  shows "at_pixel s x y b < fb_bytes s"
proof -
  have "at_pixel s x y b < Suc y * unat (fb_p s)"
    using line_width [OF assms(1,2,4)] by (simp add: at_pixel_def)
  also have "\<dots> \<le> fb_bytes s" unfolding fb_bytes_def by (rule mult_le_mono1) (use assms(3) in simp)
  finally show ?thesis .
qed

lemma at_pixel_iff:
  assumes "geometry_ok s" "x < unat (fb_w s)" "b < unat (fb_bpp s)"
  shows "k = at_pixel s x y b \<longleftrightarrow> row_of s k = y \<and> col_of s k = x \<and> chan_of s k = b"
proof
  assume k: "k = at_pixel s x y b"
  have lt: "x * unat (fb_bpp s) + b < unat (fb_p s)" by (rule line_width [OF assms])
  then have m: "k mod unat (fb_p s) = x * unat (fb_bpp s) + b" by (simp add: k at_pixel_def add.assoc)
  have "row_of s k = y" using lt by (simp add: k at_pixel_def row_of_def add.assoc)
  then show "row_of s k = y \<and> col_of s k = x \<and> chan_of s k = b"
    using assms(3) by (simp add: col_of_def chan_of_def m)
next
  assume "row_of s k = y \<and> col_of s k = x \<and> chan_of s k = b"
  then have "k mod unat (fb_p s) = x * unat (fb_bpp s) + b" "k div unat (fb_p s) = y"
    by (auto simp: row_of_def col_of_def chan_of_def)
  then show "k = at_pixel s x y b"
    unfolding at_pixel_def by (metis div_mult_mod_eq add.assoc)
qed

lemma chan_bound: "geometry_ok s \<Longrightarrow> chan_of s k < unat (fb_bpp s)"
  using geometry_bpp [of s] by (simp add: chan_of_def)

lemma at_pixel_self: "geometry_ok s \<Longrightarrow> at_pixel s (col_of s k) (row_of s k) (chan_of s k) = k"
  unfolding at_pixel_def row_of_def col_of_def chan_of_def by (simp add: add.assoc)

lemma row_bound: "k < fb_bytes s \<Longrightarrow> row_of s k < unat (fb_h s)"
  unfolding fb_bytes_def row_of_def by (simp add: less_mult_imp_div_less)

definition pixel_byte :: "u32 \<Rightarrow> nat \<Rightarrow> u8" where
  "pixel_byte color b = ucast (drop_bit (8 * b) color)"

lemma ucast_down_of_nat: "ucast (of_nat k :: u64) = (of_nat k :: u32)"
  by (rule bit_word_eqI) (simp add: bit_simps)

lemma ucast_up_of_nat: "k < 2 ^ 32 \<Longrightarrow> ucast (of_nat k :: u32) = (of_nat k :: u64)"
  by (simp add: word_unat_eq_iff unat_of_nat unsigned_ucast_eq take_bit_eq_mod)

lemma pixel_offset:
  assumes g: "geometry_ok s" and x: "unat x < unat (fb_w s)" and y: "unat y < unat (fb_h s)" and b: "b < 3"
  shows "ucast (ucast (ucast (x :: u16) * fb_bpp s + ucast (y :: u16) * fb_p s) + of_nat b :: u32)
      = (of_nat (at_pixel s (unat x) (unat y) b) :: u64)"
proof -
  have b': "b < unat (fb_bpp s)" using b geometry_bpp [OF g] by simp
  have lt: "at_pixel s (unat x) (unat y) b < 2 ^ 32"
    using at_pixel_bound [OF g x y b'] g by (simp add: geometry_ok_def)
  have "ucast x * fb_bpp s + ucast y * fb_p s = (of_nat (at_pixel s (unat x) (unat y) 0) :: u64)"
    by (simp add: at_pixel_def)
  then have "(ucast (ucast x * fb_bpp s + ucast y * fb_p s) + of_nat b :: u32) = of_nat (at_pixel s (unat x) (unat y) 0 + b)"
    by (simp only: ucast_down_of_nat of_nat_add)
  then show ?thesis using ucast_up_of_nat [OF lt] by (simp add: at_pixel_def)
qed

definition painted :: "screen \<Rightarrow> (nat \<Rightarrow> nat \<Rightarrow> bool) \<Rightarrow> (nat \<Rightarrow> nat \<Rightarrow> u32) \<Rightarrow> (nat \<Rightarrow> u8 option) \<Rightarrow> nat \<Rightarrow> u8 option" where
  "painted s D color F = (\<lambda>k. if D (col_of s k) (row_of s k) \<and> chan_of s k < 3 \<and> k < fb_bytes s
     then Some (pixel_byte (color (col_of s k) (row_of s k)) (chan_of s k)) else F k)"

abbreviation vstep :: "screen \<Rightarrow> mem \<Rightarrow> (nat \<Rightarrow> u8 option) \<Rightarrow> (nat \<Rightarrow> u8 option) \<Rightarrow> bool" where
  "vstep s m F G \<equiv> bstep (fb_base s) (fb_bytes s) (pixels_at_cursor s) 512 (vmem s) m F G"

abbreviation fb_block :: "screen \<Rightarrow> nat \<Rightarrow> u8 option" where
  "fb_block s \<equiv> block (fb_base s) (fb_bytes s) (vmem s)"

abbreviation pix_block :: "screen \<Rightarrow> nat \<Rightarrow> u8 option" where
  "pix_block s \<equiv> block (pixels_at_cursor s) 512 (vmem s)"

definition video_ok :: "screen \<Rightarrow> bool" where
  "video_ok s \<longleftrightarrow> geometry_ok s \<and> bufs (fb_base s) (fb_bytes s) (pixels_at_cursor s) 512 (vmem s)"

lemma graphicsPutpixel_ok:
  assumes v: "video_ok s" and x: "unat x < unat (fb_w s)" and y: "unat y < unat (fb_h s)"
  shows "\<exists>m. graphicsPutpixel x y color s = Some (s\<lparr>vmem := m\<rparr>) \<and>
     vstep s m (painted s (\<lambda>i j. i = unat x \<and> j = unat y) (\<lambda>_ _. color) (fb_block s)) (pix_block s)"
proof -
  have g: "geometry_ok s" using v by (simp add: video_ok_def)
  let ?a = "fb_base s" and ?n = "fb_bytes s" and ?b = "pixels_at_cursor s"
  let ?k = "\<lambda>b. at_pixel s (unat x) (unat y) b"
  have b3: "b < 3 \<Longrightarrow> b < unat (fb_bpp s)" for b using geometry_bpp [OF g] by simp
  have bd: "?k b < ?n" if "b < 3" for b by (rule at_pixel_bound [OF g x y b3 [OF that]])
  have off: "ucast (ucast (ucast x * fb_bpp s + ucast y * fb_p s) :: u32) = (of_nat (?k 0) :: u64)"
    "ucast (ucast (ucast x * fb_bpp s + ucast y * fb_p s) + 1 :: u32) = (of_nat (?k 1) :: u64)"
    "ucast (ucast (ucast x * fb_bpp s + ucast y * fb_p s) + 2 :: u32) = (of_nat (?k 2) :: u64)"
    using pixel_offset [OF g x y, of 0] pixel_offset [OF g x y, of 1] pixel_offset [OF g x y, of 2] by simp_all
  have B0: "bufs ?a ?n ?b 512 (vmem s)" using v by (simp add: video_ok_def)
  obtain m1 where m1: "st8 (vmem s) (?a + of_nat (?k 0)) (ucast (color AND 0xFF)) = Some m1"
      "bstep ?a ?n ?b 512 (vmem s) m1 ((fb_block s)(?k 0 \<mapsto> ucast (color AND 0xFF))) (pix_block s)"
    using bstep_st8 [OF B0 bd [of 0]] by fastforce
  then have B1: "bufs ?a ?n ?b 512 m1" by (simp add: bstep_def)
  obtain m2 where m2: "st8 m1 (?a + of_nat (?k 1)) (ucast (drop_bit 8 color AND 0xFF)) = Some m2"
      "bstep ?a ?n ?b 512 m1 m2 ((block ?a ?n m1)(?k 1 \<mapsto> ucast (drop_bit 8 color AND 0xFF))) (block ?b 512 m1)"
    using bstep_st8 [OF B1 bd [of 1]] by fastforce
  then have B2: "bufs ?a ?n ?b 512 m2" by (simp add: bstep_def)
  obtain m3 where m3: "st8 m2 (?a + of_nat (?k 2)) (ucast (drop_bit 16 color AND 0xFF)) = Some m3"
      "bstep ?a ?n ?b 512 m2 m3 ((block ?a ?n m2)(?k 2 \<mapsto> ucast (drop_bit 16 color AND 0xFF))) (block ?b 512 m2)"
    using bstep_st8 [OF B2 bd [of 2]] by fastforce
  let ?F = "(fb_block s)(?k 0 \<mapsto> ucast (color AND 0xFF), ?k 1 \<mapsto> ucast (drop_bit 8 color AND 0xFF),
     ?k 2 \<mapsto> ucast (drop_bit 16 color AND 0xFF))"
  have st: "vstep s m3 ?F (pix_block s)"
    using m1(2) m2(2) m3(2) by (simp add: bstep_def)
  have bytes: "ucast (c AND 0xFF) = (ucast c :: u8)" for c :: u32
    by (rule bit_word_eqI) (simp add: bit_simps, auto simp: less_Suc_eq numeral_eq_Suc)
  have pos: "j = ?k b \<longleftrightarrow> row_of s j = unat y \<and> col_of s j = unat x \<and> chan_of s j = b" if "b < 3" for b j
    by (rule at_pixel_iff [OF g x b3 [OF that]])
  have "?F = painted s (\<lambda>i j. i = unat x \<and> j = unat y) (\<lambda>_ _. color) (fb_block s)"
  proof (rule ext)
    fix j
    show "?F j = painted s (\<lambda>i j. i = unat x \<and> j = unat y) (\<lambda>_ _. color) (fb_block s) j"
      using pos [of 0 j] pos [of 1 j] pos [of 2 j] bd [of 0] bd [of 1] bd [of 2]
      by (auto simp: painted_def pixel_byte_def bytes numeral_eq_Suc less_Suc_eq)
  qed
  with st m1(1) m2(1) m3(1) show ?thesis
    by (intro exI [of _ m3]) (simp add: graphicsPutpixel_def Let_def off)
qed

section \<open>Drawing a character\<close>

definition font_ok :: "screen \<Rightarrow> bool" where
  "font_ok s \<longleftrightarrow> current_font s \<noteq> NULL \<and> region (vmem s) (current_font s) 4096 \<and>
     span (current_font s) 4096 \<inter> (span (fb_base s) (fb_bytes s) \<union> span (pixels_at_cursor s) 512) = {}"

definition glyph :: "screen \<Rightarrow> u8 \<Rightarrow> nat \<Rightarrow> u8" where
  "glyph s c r = (if r < 16 then the (ld8 (vmem s) (current_font s + ucast c * 16 + of_nat r)) else 0)"

definition in_cell :: "nat \<Rightarrow> nat \<Rightarrow> nat \<Rightarrow> nat \<Rightarrow> bool" where
  "in_cell x y i j \<longleftrightarrow> x \<le> i \<and> i < x + 8 \<and> y \<le> j \<and> j < y + 16"

definition glyph_color :: "(u8 \<Rightarrow> nat \<Rightarrow> u8) \<Rightarrow> u32 \<Rightarrow> u32 \<Rightarrow> u8 \<Rightarrow> nat \<Rightarrow> nat \<Rightarrow> nat \<Rightarrow> nat \<Rightarrow> u32" where
  "glyph_color g fg bg c x y i j = (if g c (j - y) AND glyph_mask ! (i - x) \<noteq> 0 then fg else bg)"

abbreviation char_color :: "screen \<Rightarrow> u8 \<Rightarrow> nat \<Rightarrow> nat \<Rightarrow> nat \<Rightarrow> nat \<Rightarrow> u32" where
  "char_color s \<equiv> glyph_color (glyph s) (foreground_color s) (background_color s)"

lemma painted_empty: "(\<And>i j. \<not> D i j) \<Longrightarrow> painted s D color F = F"
  by (simp add: painted_def)

lemma painted_vmem [simp]: "painted (s\<lparr>vmem := m\<rparr>) = painted s"
  by (simp add: fun_eq_iff painted_def)

lemma painted_painted:
  "(\<And>i j. D' i j \<Longrightarrow> color' i j = color i j) \<Longrightarrow> (\<And>i j. E i j \<longleftrightarrow> D i j \<or> D' i j) \<Longrightarrow>
   painted s D' color' (painted s D color F) = painted s E color F"
  by (auto simp: fun_eq_iff painted_def)

lemma font_byte:
  assumes f: "font_ok s" and v: "vstep s m F G" and r: "r < 16"
  shows "ld8 m (current_font s + ucast c * 16 + of_nat r) = Some (glyph s c r)"
proof -
  let ?p = "current_font s + ucast c * 16 + of_nat r"
  have lt: "unat c * 16 + r < 4096" using r unsigned_less [of c, where ?'a = nat] by simp
  have p: "?p = current_font s + of_nat (unat c * 16 + r)" by (simp add: add.assoc)
  have "?p \<in> span (current_font s) 4096" unfolding p by (rule span_mem [OF lt])
  then have "?p \<notin> span (fb_base s) (fb_bytes s) \<union> span (pixels_at_cursor s) 512"
    using f unfolding font_ok_def by blast
  then have "ld8 m ?p = ld8 (vmem s) ?p" using v unfolding bstep_def by blast
  moreover have "ld8 (vmem s) ?p \<noteq> None" using f lt unfolding font_ok_def region_def p by blast
  ultimately show ?thesis using r by (simp add: glyph_def)
qed

lemma vstep_video: "video_ok s \<Longrightarrow> vstep s m F G \<Longrightarrow> video_ok (s\<lparr>vmem := m\<rparr>)"
  by (simp add: video_ok_def bstep_def)

lemma draw_pixel:
  assumes v: "video_ok s" "font_ok s" and xy: "unat x + 8 \<le> unat (fb_w s)" "unat y + 16 \<le> unat (fb_h s)"
    and c: "cx < 8" "cy < 16" and st: "vstep s m (painted s D (char_color s c (unat x) (unat y)) (fb_block s)) (pix_block s)"
    and E: "\<And>i j. E i j \<longleftrightarrow> D i j \<or> i = unat x + cx \<and> j = unat y + cy"
  shows "\<exists>m'. (do {
         b \<leftarrow> ld8 m (current_font s + ucast c * ucast character_size_y + of_nat cy);
         let lit = (b AND glyph_mask ! cx \<noteq> 0);
         if False then
           (if lit then graphicsPutpixel (x + of_nat cx) (y + of_nat cy) (foreground_color s) (s\<lparr>vmem := m\<rparr>) else Some (s\<lparr>vmem := m\<rparr>))
         else graphicsPutpixel (x + of_nat cx) (y + of_nat cy)
                (if lit then foreground_color s else background_color s) (s\<lparr>vmem := m\<rparr>) }) = Some (s\<lparr>vmem := m'\<rparr>) \<and>
     vstep s m' (painted s E (char_color s c (unat x) (unat y)) (fb_block s)) (pix_block s)"
proof -
  have w: "unat (fb_w s) < 2 ^ 16" "unat (fb_h s) < 2 ^ 16" using v(1) by (simp_all add: video_ok_def geometry_ok_def)
  have ux: "unat (x + of_nat cx) = unat x + cx" "unat (y + of_nat cy) = unat y + cy"
    using w xy c by (simp_all add: unat_word_ariths unat_of_nat)
  let ?col = "if glyph s c cy AND glyph_mask ! cx \<noteq> 0 then foreground_color s else background_color s"
  have b: "ld8 m (current_font s + ucast c * ucast character_size_y + of_nat cy) = Some (glyph s c cy)"
    using font_byte [OF v(2) st c(2)] by (simp add: character_size_y_def)
  obtain m' where m': "graphicsPutpixel (x + of_nat cx) (y + of_nat cy) ?col (s\<lparr>vmem := m\<rparr>) = Some (s\<lparr>vmem := m'\<rparr>)"
      "vstep (s\<lparr>vmem := m\<rparr>) m' (painted s (\<lambda>i j. i = unat x + cx \<and> j = unat y + cy) (\<lambda>_ _. ?col)
         (block (fb_base s) (fb_bytes s) m)) (block (pixels_at_cursor s) 512 m)"
    using graphicsPutpixel_ok [OF vstep_video [OF v(1) st], of "x + of_nat cx" "y + of_nat cy" ?col] ux xy c by auto
  have F: "block (fb_base s) (fb_bytes s) m = painted s D (char_color s c (unat x) (unat y)) (fb_block s)"
    and G: "block (pixels_at_cursor s) 512 m = pix_block s" using st by (simp_all add: bstep_def)
  have "painted s (\<lambda>i j. i = unat x + cx \<and> j = unat y + cy) (\<lambda>_ _. ?col)
         (painted s D (char_color s c (unat x) (unat y)) (fb_block s)) = painted s E (char_color s c (unat x) (unat y)) (fb_block s)"
    by (rule painted_painted) (auto simp: glyph_color_def E)
  then have "vstep (s\<lparr>vmem := m\<rparr>) m' (painted s E (char_color s c (unat x) (unat y)) (fb_block s)) (pix_block s)"
    using m'(2) by (simp add: F G)
  then have "vstep s m' (painted s E (char_color s c (unat x) (unat y)) (fb_block s)) (pix_block s)"
    using bstep_trans [OF st] by simp
  with m'(1) show ?thesis by (intro exI [of _ m']) (simp add: b)
qed

lemma textDrawChar_ok:
  assumes v: "video_ok s" "font_ok s" and xy: "unat x + 8 \<le> unat (fb_w s)" "unat y + 16 \<le> unat (fb_h s)"
  shows "\<exists>m. textDrawChar c x y False s = Some (s\<lparr>vmem := m\<rparr>) \<and>
     vstep s m (painted s (in_cell (unat x) (unat y)) (char_color s c (unat x) (unat y)) (fb_block s)) (pix_block s)"
proof -
  let ?col = "char_color s c (unat x) (unat y)"
  let ?S = "\<lambda>D t. \<exists>m. t = s\<lparr>vmem := m\<rparr> \<and> vstep s m (painted s D ?col (fb_block s)) (pix_block s)"
  let ?P = "\<lambda>cy i j. unat x \<le> i \<and> i < unat x + 8 \<and> unat y \<le> j \<and> j < unat y + cy"
  let ?Q = "\<lambda>cy cx i j. ?P cy i j \<or> j = unat y + cy \<and> unat x \<le> i \<and> i < unat x + cx"
  let ?px = "\<lambda>cy cx s'. do {
         b \<leftarrow> ld8 (vmem s') (current_font s + ucast c * ucast character_size_y + of_nat cy);
         let lit = (b AND glyph_mask ! cx \<noteq> 0);
         if False then
           (if lit then graphicsPutpixel (x + of_nat cx) (y + of_nat cy) (foreground_color s') s' else Some s')
         else graphicsPutpixel (x + of_nat cx) (y + of_nat cy)
                (if lit then foreground_color s' else background_color s') s' }"
  have inner: "\<exists>t'. for_each (?px cy) [0..<8] t = Some t' \<and> ?S (?P (Suc cy)) t'" if cy: "cy < 16" and S: "?S (?P cy) t" for cy t
  proof -
    have eq: "?Q cy 0 = ?P cy" "?Q cy 8 = ?P (Suc cy)" by (auto simp: fun_eq_iff)
    have "\<exists>t'. for_each (?px cy) [0..<8] t = Some t' \<and> ?S (?Q cy 8) t'"
    proof (rule for_each_range [where P = "\<lambda>cx. ?S (?Q cy cx)"])
      show "?S (?Q cy 0) t" unfolding eq by (rule S)
      fix cx t
      assume cx: "cx < (8 :: nat)" and "?S (?Q cy cx) t"
      then obtain m where m: "t = s\<lparr>vmem := m\<rparr>" "vstep s m (painted s (?Q cy cx) ?col (fb_block s)) (pix_block s)" by blast
      have E: "?Q cy (Suc cx) i j \<longleftrightarrow> ?Q cy cx i j \<or> i = unat x + cx \<and> j = unat y + cy" for i j by auto
      show "\<exists>t'. ?px cy cx t = Some t' \<and> ?S (?Q cy (Suc cx)) t'"
        using draw_pixel [OF v xy cx cy m(2) E] unfolding m(1) by (auto cong: if_cong)
    qed simp
    then show ?thesis unfolding eq .
  qed
  have "\<exists>t. for_each (\<lambda>cy. for_each (?px cy) [0..<8]) [0..<16] s = Some t \<and> ?S (?P 16) t"
  proof (rule for_each_range [where P = "\<lambda>cy. ?S (?P cy)"])
    have "painted s (?P 0) ?col (fb_block s) = fb_block s" by (rule painted_empty) simp
    then show "?S (?P 0) s" using v(1) bstep_refl by (intro exI [of _ "vmem s"]) (simp add: video_ok_def)
  qed (use inner in simp_all)
  moreover have "?P 16 = in_cell (unat x) (unat y)" by (simp add: fun_eq_iff in_cell_def)
  moreover have "current_font s \<noteq> NULL" using v(2) by (simp add: font_ok_def)
  ultimately show ?thesis
    by (auto simp: textDrawChar_def load_font_def character_size_x_def character_size_y_def)
qed

section \<open>Saving and restoring the pixels under the cursor\<close>

definition saved :: "screen \<Rightarrow> nat \<Rightarrow> nat \<Rightarrow> nat \<Rightarrow> (nat \<Rightarrow> u8 option) \<Rightarrow> (nat \<Rightarrow> u8 option) \<Rightarrow> nat \<Rightarrow> u8 option" where
  "saved s x y r F G = (\<lambda>i. if i div 32 < r \<and> i mod 32 < 8 * unat (fb_bpp s)
     then F (at_pixel s x (y + i div 32) (i mod 32)) else G i)"

definition restored :: "screen \<Rightarrow> nat \<Rightarrow> nat \<Rightarrow> nat \<Rightarrow> (nat \<Rightarrow> u8 option) \<Rightarrow> (nat \<Rightarrow> u8 option) \<Rightarrow> nat \<Rightarrow> u8 option" where
  "restored s x y r G F = (\<lambda>k. if x \<le> col_of s k \<and> col_of s k < x + 8 \<and> y \<le> row_of s k \<and> row_of s k < y + r
     then G (32 * (row_of s k - y) + (col_of s k - x) * unat (fb_bpp s) + chan_of s k) else F k)"

lemma saved_0: "saved s x y 0 F G = G" and restored_0: "restored s x y 0 G F = F"
  by (auto simp: fun_eq_iff saved_def restored_def)

lemma saved_Suc:
  assumes g: "geometry_ok s"
  shows "copied (32 * r) (at_pixel s x (y + r) 0) (8 * unat (fb_bpp s)) F (saved s x y r F G) = saved s x y (Suc r) F G"
proof (rule ext)
  fix i
  have B: "8 * unat (fb_bpp s) \<le> 32" using geometry_bpp [OF g] by simp
  have iff: "32 * r \<le> i \<and> i < 32 * r + 8 * unat (fb_bpp s) \<longleftrightarrow> i div 32 = r \<and> i mod 32 < 8 * unat (fb_bpp s)"
    (is "?L = ?R")
  proof
    assume L: ?L
    then have "i div 32 = r" using B by (intro div_nat_eqI) simp_all
    with L show ?R by (auto simp: minus_mult_div_eq_mod [symmetric])
  next
    assume ?R
    then show ?L using mult_div_mod_eq [of 32 i] by auto
  qed
  have "i - 32 * r = i mod 32" if "i div 32 = r" using that by (simp add: minus_mult_div_eq_mod [symmetric])
  with iff show "copied (32 * r) (at_pixel s x (y + r) 0) (8 * unat (fb_bpp s)) F (saved s x y r F G) i = saved s x y (Suc r) F G i"
    unfolding copied_def saved_def by (auto simp: at_pixel_def less_Suc_eq)
qed

lemma cell_line:
  assumes g: "geometry_ok s" and x: "x + 8 \<le> unat (fb_w s)"
  shows "at_pixel s x y 0 \<le> k \<and> k < at_pixel s x y 0 + 8 * unat (fb_bpp s) \<longleftrightarrow>
     row_of s k = y \<and> x \<le> col_of s k \<and> col_of s k < x + 8" (is "?L = ?R")
    and "row_of s k = y \<Longrightarrow> x \<le> col_of s k \<Longrightarrow> k - at_pixel s x y 0 = (col_of s k - x) * unat (fb_bpp s) + chan_of s k"
proof -
  let ?B = "unat (fb_bpp s)"
  have B: "0 < ?B" using geometry_bpp [OF g] by simp
  have line: "(x + 8) * ?B \<le> unat (fb_p s)" using g mult_le_mono1 [OF x, of ?B] by (simp add: geometry_ok_def)
  have k: "k = row_of s k * unat (fb_p s) + (col_of s k * ?B + chan_of s k)"
    using at_pixel_self [OF g, of k] by (simp add: at_pixel_def)
  have ch: "chan_of s k < ?B" by (rule chan_bound [OF g])
  show d: "k - at_pixel s x y 0 = (col_of s k - x) * ?B + chan_of s k" if "row_of s k = y" "x \<le> col_of s k"
  proof -
    have "x * ?B \<le> col_of s k * ?B" using that(2) by simp
    then show ?thesis using k that(1) unfolding at_pixel_def by (simp add: diff_mult_distrib)
  qed
  show "?L = ?R"
  proof
    assume L: ?L
    define j where "j = k - at_pixel s x y 0"
    have j: "k = y * unat (fb_p s) + (x * ?B + j)" "j < 8 * ?B" using L by (auto simp: j_def at_pixel_def)
    have lt: "x * ?B + j < unat (fb_p s)" using j(2) line by (simp add: algebra_simps)
    then have r: "row_of s k = y" and m: "k mod unat (fb_p s) = x * ?B + j" by (simp_all add: row_of_def j(1))
    have c: "col_of s k = x + j div ?B" using B by (simp add: col_of_def m)
    have "j div ?B < 8" using j(2) by (simp add: less_mult_imp_div_less)
    with r c show ?R by simp
  next
    assume R: ?R
    have "col_of s k - x \<le> 7" using R by arith
    then have "(col_of s k - x) * ?B \<le> 7 * ?B" by (rule mult_le_mono1)
    moreover have "k - at_pixel s x y 0 = (col_of s k - x) * ?B + chan_of s k" by (rule d) (use R in auto)
    ultimately have "k - at_pixel s x y 0 < 8 * ?B" using ch by linarith
    moreover have "at_pixel s x y 0 \<le> k"
    proof -
      have "x * ?B \<le> col_of s k * ?B" using R by simp
      moreover have "k = y * unat (fb_p s) + (col_of s k * ?B + chan_of s k)" using k R by simp
      ultimately show ?thesis unfolding at_pixel_def by linarith
    qed
    ultimately show ?L by simp
  qed
qed

lemma restored_Suc:
  assumes g: "geometry_ok s" and x: "x + 8 \<le> unat (fb_w s)"
  shows "copied (at_pixel s x (y + r) 0) (32 * r) (8 * unat (fb_bpp s)) G (restored s x y r G F) = restored s x y (Suc r) G F"
proof (rule ext)
  fix k
  show "copied (at_pixel s x (y + r) 0) (32 * r) (8 * unat (fb_bpp s)) G (restored s x y r G F) k = restored s x y (Suc r) G F k"
    unfolding copied_def restored_def cell_line(1) [OF g x]
    using cell_line(2) [OF g x, of k "y + r"] by (auto simp: less_Suc_eq add.assoc)
qed

lemma restored_saved:
  assumes g: "geometry_ok s" and x: "x + 8 \<le> unat (fb_w s)"
  shows "restored s x y 16 (saved s x y 16 F G) (painted s (in_cell x y) color F) = F"
proof (rule ext)
  fix k
  let ?B = "unat (fb_bpp s)"
  show "restored s x y 16 (saved s x y 16 F G) (painted s (in_cell x y) color F) k = F k"
  proof (cases "in_cell x y (col_of s k) (row_of s k)")
    case True
    let ?j = "(col_of s k - x) * ?B + chan_of s k"
    have c: "x \<le> col_of s k" "col_of s k < x + 8" "y \<le> row_of s k" "row_of s k < y + 16"
      using True by (auto simp: in_cell_def)
    have "k - at_pixel s x (row_of s k) 0 < 8 * ?B" "at_pixel s x (row_of s k) 0 \<le> k"
      using cell_line(1) [OF g x, of "row_of s k" k] c by auto
    then have j: "?j < 8 * ?B" "at_pixel s x (row_of s k) 0 + ?j = k"
      using cell_line(2) [OF g x, of k "row_of s k"] c(1) by simp_all
    then have "?j < 32" using geometry_bpp [OF g] by simp
    then have "(32 * (row_of s k - y) + ?j) div 32 = row_of s k - y" "(32 * (row_of s k - y) + ?j) mod 32 = ?j"
      by simp_all
    moreover have "row_of s k - y < 16" using c by arith
    ultimately show ?thesis
      using c j by (simp add: restored_def saved_def at_pixel_def add.assoc)
  next
    case False
    then show ?thesis by (auto simp: restored_def painted_def in_cell_def)
  qed
qed

lemma restored_vmem [simp]: "restored (s\<lparr>vmem := m\<rparr>) = restored s" "saved (s\<lparr>vmem := m\<rparr>) = saved s"
  by (simp_all add: fun_eq_iff restored_def saved_def)

section \<open>The cursor\<close>

definition cursor_in :: "screen \<Rightarrow> bool" where
  "cursor_in s \<longleftrightarrow> unat (cursor_x s) + 8 \<le> unat (fb_w s) \<and> unat (cursor_y s) + 16 \<le> unat (fb_h s)"

abbreviation (input) cx :: "screen \<Rightarrow> nat" where "cx s \<equiv> unat (cursor_x s)"
abbreviation (input) cy :: "screen \<Rightarrow> nat" where "cy s \<equiv> unat (cursor_y s)"

lemma cursor_line:
  assumes g: "geometry_ok s" and c: "cursor_in s" and r: "r < 16"
  shows "cursor_where r s = of_nat (at_pixel s (cx s) (cy s + r) 0)"
    and "at_pixel s (cx s) (cy s + r) 0 + 8 * unat (fb_bpp s) \<le> fb_bytes s"
proof -
  have B: "3 \<le> unat (fb_bpp s)" "unat (fb_bpp s) \<le> 4" using geometry_bpp [OF g] by auto
  have "at_pixel s (cx s + 7) (cy s + r) (unat (fb_bpp s) - 1) < fb_bytes s"
    using c r B by (intro at_pixel_bound [OF g]) (auto simp: cursor_in_def)
  then show le: "at_pixel s (cx s) (cy s + r) 0 + 8 * unat (fb_bpp s) \<le> fb_bytes s"
    using B by (simp add: at_pixel_def algebra_simps)
  then have lt: "at_pixel s (cx s) (cy s + r) 0 < 2 ^ 32" using g B by (simp add: geometry_ok_def)
  have "ucast (cursor_x s) * fb_bpp s + (ucast (cursor_y s) + of_nat r) * fb_p s = (of_nat (at_pixel s (cx s) (cy s + r) 0) :: u64)"
    by (simp add: at_pixel_def)
  then show "cursor_where r s = of_nat (at_pixel s (cx s) (cy s + r) 0)"
    unfolding cursor_where_def by (simp only: ucast_down_of_nat ucast_up_of_nat [OF lt])
qed

lemma cursor_where_vmem [simp]: "cursor_where r (s\<lparr>vmem := m\<rparr>) = cursor_where r s"
  by (simp add: cursor_where_def)

lemma cell_bytes: "geometry_ok s \<Longrightarrow> unat (fb_bpp s * ucast character_size_x) = 8 * unat (fb_bpp s)"
  using geometry_bpp [of s] by (simp add: character_size_x_def unat_word_ariths)

lemma save_line_offset: "pixels_at_cursor s + 4 * (of_nat r * ucast character_size_x) = pixels_at_cursor s + of_nat (32 * r)"
  by (simp add: character_size_x_def)

lemma save_loop:
  assumes v: "video_ok s" and c: "cursor_in s"
  shows "\<exists>m. for_each (\<lambda>cy s. do {
            (_, m) \<leftarrow> memcpy (vmem s) (pixels_at_cursor s + 4 * (of_nat cy * ucast character_size_x))
                       (fb_base s + cursor_where cy s) (fb_bpp s * ucast character_size_x);
            Some (s\<lparr>vmem := m\<rparr>) }) [0..<unat character_size_y] s = Some (s\<lparr>vmem := m\<rparr>) \<and>
     vstep s m (fb_block s) (saved s (cx s) (cy s) 16 (fb_block s) (pix_block s))"
proof -
  have g: "geometry_ok s" using v by (simp add: video_ok_def)
  let ?B = "unat (fb_bpp s)"
  let ?P = "\<lambda>r t. \<exists>m. t = s\<lparr>vmem := m\<rparr> \<and> vstep s m (fb_block s) (saved s (cx s) (cy s) r (fb_block s) (pix_block s))"
  let ?f = "\<lambda>cy s. do {
            (_, m) \<leftarrow> memcpy (vmem s) (pixels_at_cursor s + 4 * (of_nat cy * ucast character_size_x))
                       (fb_base s + cursor_where cy s) (fb_bpp s * ucast character_size_x);
            Some (s\<lparr>vmem := m\<rparr>) }"
  have "\<exists>t. for_each ?f [0..<16] s = Some t \<and> ?P 16 t"
  proof (rule for_each_range [where P = ?P])
    show "?P 0 s" using v by (intro exI [of _ "vmem s"]) (simp add: saved_0 bstep_refl video_ok_def)
    fix r t
    assume r: "r < (16 :: nat)" and "?P r t"
    then obtain m where m: "t = s\<lparr>vmem := m\<rparr>" "vstep s m (fb_block s) (saved s (cx s) (cy s) r (fb_block s) (pix_block s))"
      by blast
    then have b: "bufs (pixels_at_cursor s) 512 (fb_base s) (fb_bytes s) m" by (simp add: bstep_def bufs_sym)
    have d: "32 * r + 8 * ?B \<le> 512" using r geometry_bpp [OF g] by simp
    obtain m' where m': "memcpy m (pixels_at_cursor s + of_nat (32 * r)) (fb_base s + of_nat (at_pixel s (cx s) (cy s + r) 0))
          (fb_bpp s * ucast character_size_x) = Some (pixels_at_cursor s + of_nat (32 * r), m')"
        "bstep (pixels_at_cursor s) 512 (fb_base s) (fb_bytes s) m m'
           (copied (32 * r) (at_pixel s (cx s) (cy s + r) 0) (8 * ?B) (block (fb_base s) (fb_bytes s) m) (block (pixels_at_cursor s) 512 m))
           (block (fb_base s) (fb_bytes s) m)"
      using bstep_copy [OF b d cursor_line(2) [OF g c r] cell_bytes [OF g]] by blast
    have "vstep s m' (fb_block s) (saved s (cx s) (cy s) (Suc r) (fb_block s) (pix_block s))"
      using bstep_trans [OF m(2) bstep_sym [OF m'(2)]] m(2) by (simp add: bstep_def saved_Suc [OF g])
    then show "\<exists>t'. ?f r t = Some t' \<and> ?P (Suc r) t'"
      using m'(1) by (intro exI [of _ "s\<lparr>vmem := m'\<rparr>"]) (auto simp: m(1) save_line_offset cursor_line(1) [OF g c r])
  qed simp
  then show ?thesis by (auto simp: character_size_y_def)
qed

lemma restore_loop:
  assumes v: "video_ok s" and c: "cursor_in s"
  shows "\<exists>m. for_each (\<lambda>cy s. do {
            (_, m) \<leftarrow> memcpy (vmem s) (fb_base s + cursor_where cy s)
                       (pixels_at_cursor s + 4 * (of_nat cy * ucast character_size_x))
                       (fb_bpp s * ucast character_size_x);
            Some (s\<lparr>vmem := m\<rparr>) }) [0..<unat character_size_y] s = Some (s\<lparr>vmem := m\<rparr>) \<and>
     vstep s m (restored s (cx s) (cy s) 16 (pix_block s) (fb_block s)) (pix_block s)"
proof -
  have g: "geometry_ok s" using v by (simp add: video_ok_def)
  let ?B = "unat (fb_bpp s)"
  have x: "cx s + 8 \<le> unat (fb_w s)" using c by (simp add: cursor_in_def)
  let ?P = "\<lambda>r t. \<exists>m. t = s\<lparr>vmem := m\<rparr> \<and> vstep s m (restored s (cx s) (cy s) r (pix_block s) (fb_block s)) (pix_block s)"
  let ?f = "\<lambda>cy s. do {
            (_, m) \<leftarrow> memcpy (vmem s) (fb_base s + cursor_where cy s)
                       (pixels_at_cursor s + 4 * (of_nat cy * ucast character_size_x))
                       (fb_bpp s * ucast character_size_x);
            Some (s\<lparr>vmem := m\<rparr>) }"
  have "\<exists>t. for_each ?f [0..<16] s = Some t \<and> ?P 16 t"
  proof (rule for_each_range [where P = ?P])
    show "?P 0 s" using v by (intro exI [of _ "vmem s"]) (simp add: restored_0 bstep_refl video_ok_def)
    fix r t
    assume r: "r < (16 :: nat)" and "?P r t"
    then obtain m where m: "t = s\<lparr>vmem := m\<rparr>" "vstep s m (restored s (cx s) (cy s) r (pix_block s) (fb_block s)) (pix_block s)"
      by blast
    then have b: "bufs (fb_base s) (fb_bytes s) (pixels_at_cursor s) 512 m" by (simp add: bstep_def)
    have d: "32 * r + 8 * ?B \<le> 512" using r geometry_bpp [OF g] by simp
    obtain m' where m': "memcpy m (fb_base s + of_nat (at_pixel s (cx s) (cy s + r) 0)) (pixels_at_cursor s + of_nat (32 * r))
          (fb_bpp s * ucast character_size_x) = Some (fb_base s + of_nat (at_pixel s (cx s) (cy s + r) 0), m')"
        "bstep (fb_base s) (fb_bytes s) (pixels_at_cursor s) 512 m m'
           (copied (at_pixel s (cx s) (cy s + r) 0) (32 * r) (8 * ?B) (block (pixels_at_cursor s) 512 m) (block (fb_base s) (fb_bytes s) m))
           (block (pixels_at_cursor s) 512 m)"
      using bstep_copy [OF b cursor_line(2) [OF g c r] d cell_bytes [OF g]] by blast
    have "vstep s m' (restored s (cx s) (cy s) (Suc r) (pix_block s) (fb_block s)) (pix_block s)"
      using bstep_trans [OF m(2) m'(2)] m(2) by (simp add: bstep_def restored_Suc [OF g x])
    then show "\<exists>t'. ?f r t = Some t' \<and> ?P (Suc r) t'"
      using m'(1) by (intro exI [of _ "s\<lparr>vmem := m'\<rparr>"]) (auto simp: m(1) save_line_offset cursor_line(1) [OF g c r])
  qed simp
  then show ?thesis by (auto simp: character_size_y_def)
qed

lemma vstep_font:
  assumes f: "font_ok s" and v: "vstep s m F G"
  shows "font_ok (s\<lparr>vmem := m\<rparr>)" and "glyph (s\<lparr>vmem := m\<rparr>) = glyph s"
proof -
  have "ld8 m (current_font s + of_nat i) = ld8 (vmem s) (current_font s + of_nat i)" if "i < 4096" for i
  proof -
    have "current_font s + of_nat i \<notin> span (fb_base s) (fb_bytes s) \<union> span (pixels_at_cursor s) 512"
      using f span_mem [OF that, of "current_font s"] unfolding font_ok_def by blast
    then show ?thesis using v unfolding bstep_def by blast
  qed
  then show "font_ok (s\<lparr>vmem := m\<rparr>)" using f by (simp add: font_ok_def region_def)
  show "glyph (s\<lparr>vmem := m\<rparr>) = glyph s"
    using font_byte [OF f v] by (auto simp: fun_eq_iff glyph_def)
qed

lemma textDrawCursor_ok:
  assumes v: "video_ok s" "font_ok s" and c: "cursor_in s"
  shows "\<exists>m. textDrawCursor s = Some (s\<lparr>vmem := m, cursor_enabled := True\<rparr>) \<and>
     vstep s m (painted s (in_cell (cx s) (cy s)) (char_color s 219 (cx s) (cy s)) (fb_block s))
       (saved s (cx s) (cy s) 16 (fb_block s) (pix_block s))"
proof -
  obtain m where m: "for_each (\<lambda>cy s. do {
            (_, m) \<leftarrow> memcpy (vmem s) (pixels_at_cursor s + 4 * (of_nat cy * ucast character_size_x))
                       (fb_base s + cursor_where cy s) (fb_bpp s * ucast character_size_x);
            Some (s\<lparr>vmem := m\<rparr>) }) [0..<unat character_size_y] s = Some (s\<lparr>vmem := m\<rparr>)"
      "vstep s m (fb_block s) (saved s (cx s) (cy s) 16 (fb_block s) (pix_block s))"
    using save_loop [OF v(1) c] by blast
  let ?t = "s\<lparr>vmem := m\<rparr>"
  have t: "video_ok ?t" "font_ok ?t" using vstep_video [OF v(1) m(2)] vstep_font(1) [OF v(2) m(2)] .
  obtain m' where m': "textDrawChar 219 (cursor_x s) (cursor_y s) False ?t = Some (?t\<lparr>vmem := m'\<rparr>)"
      "vstep ?t m' (painted ?t (in_cell (cx s) (cy s)) (char_color ?t 219 (cx s) (cy s)) (fb_block ?t)) (pix_block ?t)"
    using textDrawChar_ok [OF t, of "cursor_x s" "cursor_y s" 219] c by (auto simp: cursor_in_def)
  have "fb_block ?t = fb_block s" "pix_block ?t = saved s (cx s) (cy s) 16 (fb_block s) (pix_block s)"
    using m(2) by (simp_all add: bstep_def)
  then have "bstep (fb_base s) (fb_bytes s) (pixels_at_cursor s) 512 m m'
       (painted s (in_cell (cx s) (cy s)) (char_color s 219 (cx s) (cy s)) (fb_block s))
       (saved s (cx s) (cy s) 16 (fb_block s) (pix_block s))"
    using m'(2) unfolding vstep_font(2) [OF v(2) m(2)] by simp
  then have "vstep s m' (painted s (in_cell (cx s) (cy s)) (char_color s 219 (cx s) (cy s)) (fb_block s))
       (saved s (cx s) (cy s) 16 (fb_block s) (pix_block s))"
    by (rule bstep_trans [OF m(2)])
  then show ?thesis
    using m(1) m'(1) by (intro exI [of _ m']) (simp add: textDrawCursor_def textDrawCharAtCursor_def)
qed

lemma textClearCursor_ok:
  assumes v: "video_ok s" and c: "cursor_in s"
  shows "\<exists>m. textClearCursor s = Some (s\<lparr>vmem := m, cursor_enabled := False\<rparr>) \<and>
     vstep s m (restored s (cx s) (cy s) 16 (pix_block s) (fb_block s)) (\<lambda>i. if i < 512 then Some 0 else None)"
proof -
  obtain m where m: "for_each (\<lambda>cy s. do {
            (_, m) \<leftarrow> memcpy (vmem s) (fb_base s + cursor_where cy s)
                       (pixels_at_cursor s + 4 * (of_nat cy * ucast character_size_x))
                       (fb_bpp s * ucast character_size_x);
            Some (s\<lparr>vmem := m\<rparr>) }) [0..<unat character_size_y] s = Some (s\<lparr>vmem := m\<rparr>)"
      "vstep s m (restored s (cx s) (cy s) 16 (pix_block s) (fb_block s)) (pix_block s)"
    using restore_loop [OF v c] by blast
  then have b: "bufs (pixels_at_cursor s) 512 (fb_base s) (fb_bytes s) m" by (simp add: bstep_def bufs_sym)
  have u: "unat (8 * 16 * 4 :: u64) = 512" by simp
  obtain m' where m': "memset m (pixels_at_cursor s + of_nat 0) 0 (8 * 16 * 4) = Some (pixels_at_cursor s + of_nat 0, m')"
      "bstep (pixels_at_cursor s) 512 (fb_base s) (fb_bytes s) m m'
         (\<lambda>i. if 0 \<le> i \<and> i < 0 + 512 then Some (ucast (0 :: u32)) else block (pixels_at_cursor s) 512 m i) (block (fb_base s) (fb_bytes s) m)"
    using bstep_fill [OF b, of 0 512 "8 * 16 * 4" 0] u by auto
  have "(\<lambda>i. if 0 \<le> i \<and> i < 0 + 512 then Some (ucast (0 :: u32)) else block (pixels_at_cursor s) 512 m i)
      = (\<lambda>i. if i < 512 then Some 0 else None)" by (simp add: fun_eq_iff block_def)
  then have "vstep s m' (restored s (cx s) (cy s) 16 (pix_block s) (fb_block s)) (\<lambda>i. if i < 512 then Some 0 else None)"
    using bstep_trans [OF m(2) bstep_sym [OF m'(2)]] m(2) by (simp add: bstep_def)
  then show ?thesis
    using m(1) m'(1) by (intro exI [of _ m']) (simp add: textClearCursor_def)
qed

section \<open>Scrolling\<close>

definition scrolled :: "screen \<Rightarrow> nat \<Rightarrow> (nat \<Rightarrow> u8 option) \<Rightarrow> nat \<Rightarrow> u8 option" where
  "scrolled s y F = (\<lambda>k. if y \<le> row_of s k \<and> row_of s k < y + 20 then Some 0
     else if row_of s k < unat (fb_h s) - 24 then F (k + 20 * unat (fb_p s)) else F k)"

lemma row_range:
  assumes "geometry_ok s"
  shows "j * unat (fb_p s) \<le> k \<and> k < (j + n) * unat (fb_p s) \<longleftrightarrow> j \<le> row_of s k \<and> row_of s k < j + n"
proof -
  have p: "0 < unat (fb_p s)" using assms geometry_bpp [OF assms] by (auto simp: geometry_ok_def)
  show ?thesis unfolding row_of_def
    using p by (simp add: less_eq_div_iff_mult_less_eq div_less_iff_less_mult)
qed

lemma textMoveScreenUpOneLine_ok:
  assumes v: "video_ok s" and c: "unat (cursor_y s) + 20 \<le> unat (fb_h s)"
  shows "\<exists>m. textMoveScreenUpOneLine s = Some (s\<lparr>vmem := m\<rparr>) \<and> vstep s m (scrolled s (cy s) (fb_block s)) (pix_block s)"
proof -
  have g: "geometry_ok s" using v by (simp add: video_ok_def)
  have h: "24 \<le> unat (fb_h s)" "unat (fb_h s) < 2 ^ 16" using g by (simp_all add: geometry_ok_def)
  have N: "fb_bytes s \<le> 2 ^ 32" using g by (simp add: geometry_ok_def)
  let ?P = "unat (fb_p s)" and ?n = "fb_bytes s"
  let ?F = "\<lambda>i k. if row_of s k < i - 24 then fb_block s (k + 20 * ?P) else fb_block s k"
  let ?I = "\<lambda>i t. \<exists>m. t = (s\<lparr>vmem := m\<rparr>, fb_base s + of_nat ((i - 24) * ?P)) \<and> vstep s m (?F i) (pix_block s)"
  let ?f = "\<lambda>i (s, p). do {
            (_, m) \<leftarrow> memcpy (vmem s) p (p + (ucast spacing_y + ucast character_size_y) * fb_p s) (fb_p s);
            Some (s\<lparr>vmem := m\<rparr>, p + fb_p s) }"
  have "\<exists>t. for_each ?f [24..<unat (fb_h s)] (s, fb_base s) = Some t \<and> ?I (unat (fb_h s)) t"
  proof (rule for_each_range [where P = ?I])
    show "?I 24 (s, fb_base s)" using v by (intro exI [of _ "vmem s"]) (simp add: bstep_refl video_ok_def)
    fix i t
    assume i: "24 \<le> i" "i < unat (fb_h s)" and "?I i t"
    then obtain m where m: "t = (s\<lparr>vmem := m\<rparr>, fb_base s + of_nat ((i - 24) * ?P))" "vstep s m (?F i) (pix_block s)" by blast
    define j where "j = i - 24"
    have ij: "i = j + 24" using i(1) by (simp add: j_def)
    have b: "bufs (fb_base s) ?n (pixels_at_cursor s) 512 m" using m(2) by (simp add: bstep_def)
    have "(j + 21) * ?P \<le> ?n" unfolding fb_bytes_def by (rule mult_le_mono1) (use i(2) ij in simp)
    then have bd: "(j + 20) * ?P + ?P \<le> ?n" by (simp add: algebra_simps)
    obtain m' where m': "memcpy m (fb_base s + of_nat (j * ?P)) (fb_base s + of_nat ((j + 20) * ?P)) (fb_p s) = Some (fb_base s + of_nat (j * ?P), m')"
        "bstep (fb_base s) ?n (pixels_at_cursor s) 512 m m' (copied (j * ?P) ((j + 20) * ?P) ?P (block (fb_base s) ?n m) (block (fb_base s) ?n m))
          (block (pixels_at_cursor s) 512 m)"
      using bstep_move [OF b bd, of "j * ?P" "fb_p s"] by auto
    have blk: "block (fb_base s) ?n m = ?F i" "block (pixels_at_cursor s) 512 m = pix_block s"
      using m(2) by (simp_all add: bstep_def)
    have p0: "0 < ?P" using g geometry_bpp [OF g] by (auto simp: geometry_ok_def)
    have "copied (j * ?P) ((j + 20) * ?P) ?P (?F i) (?F i) = ?F (Suc i)"
    proof (rule ext)
      fix k
      have r: "j * ?P \<le> k \<and> k < j * ?P + ?P \<longleftrightarrow> row_of s k = j"
        using row_range [OF g, of j k 1] by (auto simp: algebra_simps)
      have "row_of s ((j + 20) * ?P + (k - j * ?P)) \<ge> j + 20" if "j * ?P \<le> k"
        unfolding row_of_def using p0 by (simp add: less_eq_div_iff_mult_less_eq)
      moreover have "(j + 20) * ?P + (k - j * ?P) = k + 20 * ?P" if "j * ?P \<le> k" using that by (simp add: algebra_simps)
      ultimately show "copied (j * ?P) ((j + 20) * ?P) ?P (?F i) (?F i) k = ?F (Suc i) k"
        unfolding copied_def using r by (auto simp: ij less_Suc_eq)
    qed
    then have "vstep s m' (?F (Suc i)) (pix_block s)"
      using bstep_trans [OF m(2) m'(2)] unfolding blk by simp
    moreover have "ucast spacing_y + ucast character_size_y = (20 :: u64)"
      by (simp add: spacing_y_def character_size_y_def)
    moreover have "fb_base s + of_nat (j * ?P) + 20 * fb_p s = fb_base s + of_nat ((j + 20) * ?P)"
      "fb_base s + of_nat (j * ?P) + fb_p s = fb_base s + of_nat ((Suc i - 24) * ?P)"
      by (simp_all add: ij algebra_simps)
    moreover have "t = (s\<lparr>vmem := m\<rparr>, fb_base s + of_nat (j * ?P))" by (simp add: m(1) ij)
    ultimately show "\<exists>t'. ?f i t = Some t' \<and> ?I (Suc i) t'"
      using m'(1) by (intro exI [of _ "(s\<lparr>vmem := m'\<rparr>, fb_base s + of_nat ((Suc i - 24) * ?P))"] conjI exI [of _ m'])
        (simp_all add: add.assoc del: of_nat_mult of_nat_add)
  qed (use h in simp)
  then obtain m where m: "for_each ?f [24..<unat (fb_h s)] (s, fb_base s) = Some (s\<lparr>vmem := m\<rparr>, fb_base s + of_nat ((unat (fb_h s) - 24) * ?P))"
      "vstep s m (?F (unat (fb_h s))) (pix_block s)" by blast
  have b: "bufs (fb_base s) ?n (pixels_at_cursor s) 512 m" using m(2) by (simp add: bstep_def)
  have "(cy s + 20) * ?P \<le> ?n" unfolding fb_bytes_def by (rule mult_le_mono1 [OF c])
  then have bd: "cy s * ?P + 20 * ?P \<le> ?n" by (simp add: algebra_simps)
  then have ln: "unat ((ucast character_size_y + ucast margin_y) * fb_p s) = 20 * ?P"
    using N by (simp add: character_size_y_def margin_y_def unat_word_ariths)
  obtain m' where m': "memset m (fb_base s + of_nat (cy s * ?P)) 0 ((ucast character_size_y + ucast margin_y) * fb_p s) = Some (fb_base s + of_nat (cy s * ?P), m')"
      "bstep (fb_base s) ?n (pixels_at_cursor s) 512 m m' (\<lambda>i. if cy s * ?P \<le> i \<and> i < cy s * ?P + 20 * ?P then Some (ucast (0 :: u32)) else block (fb_base s) ?n m i)
         (block (pixels_at_cursor s) 512 m)"
    using bstep_fill [OF b bd ln] by blast
  have "(\<lambda>i. if cy s * ?P \<le> i \<and> i < cy s * ?P + 20 * ?P then Some (ucast (0 :: u32)) else block (fb_base s) ?n m i) = scrolled s (cy s) (fb_block s)"
    using m(2) row_range [OF g, of "cy s" _ 20] by (simp add: fun_eq_iff scrolled_def bstep_def algebra_simps)
  then have "vstep s m' (scrolled s (cy s) (fb_block s)) (pix_block s)"
    using bstep_trans [OF m(2) m'(2)] m(2) by (simp add: bstep_def)
  then show ?thesis
    using m(1) m'(1) by (intro exI [of _ m']) (simp add: textMoveScreenUpOneLine_def margin_y_def spacing_y_def character_size_y_def)
qed

end
