(* ===== verification/Text_Screen.thy ===== *)
theory Text_Screen
  imports Text_Correct
begin

text \<open>
  The text screen refines an abstract display: what is on the screen when the cursor block is taken
  away, and the position of the cursor. Every character \<^verbatim>\<open>textPutc\<close> handles acts on the display as the
  abstract operation says, stays inside the frame buffer and the save buffer, and keeps the cursor on
  the grid of character cells.
\<close>

section \<open>The abstract display\<close>

record geometry =
  gw :: nat
  gh :: nat
  gb :: nat
  gfont :: "u8 \<Rightarrow> nat \<Rightarrow> u8"
  ink :: u32
  paper :: u32

record display =
  shown :: "nat \<Rightarrow> u8 option"
  pos_x :: nat
  pos_y :: nat

definition dsp_row :: "geometry \<Rightarrow> nat \<Rightarrow> nat" where "dsp_row g k = k div (gw g * gb g)"
definition dsp_col :: "geometry \<Rightarrow> nat \<Rightarrow> nat" where "dsp_col g k = k mod (gw g * gb g) div gb g"
definition dsp_chan :: "geometry \<Rightarrow> nat \<Rightarrow> nat" where "dsp_chan g k = k mod (gw g * gb g) mod gb g"

definition dsp_draw :: "geometry \<Rightarrow> u8 \<Rightarrow> display \<Rightarrow> display" where
  "dsp_draw g c d = d\<lparr>shown := (\<lambda>k.
     if in_cell (pos_x d) (pos_y d) (dsp_col g k) (dsp_row g k) \<and> dsp_chan g k < 3 \<and> k < gh g * (gw g * gb g)
     then Some (pixel_byte (glyph_color (gfont g) (ink g) (paper g) c (pos_x d) (pos_y d) (dsp_col g k) (dsp_row g k)) (dsp_chan g k))
     else shown d k)\<rparr>"

definition dsp_scroll :: "geometry \<Rightarrow> display \<Rightarrow> display" where
  "dsp_scroll g d = d\<lparr>shown := (\<lambda>k.
     if pos_y d \<le> dsp_row g k \<and> dsp_row g k < pos_y d + 20 then Some 0
     else if dsp_row g k < gh g - 24 then shown d (k + 20 * (gw g * gb g)) else shown d k)\<rparr>"

definition dsp_blank :: "geometry \<Rightarrow> display \<Rightarrow> display" where
  "dsp_blank g d = d\<lparr>shown := (\<lambda>k. if k < gh g * (gw g * gb g) then Some 0 else None)\<rparr>"

definition dsp_bottom :: "geometry \<Rightarrow> display \<Rightarrow> bool" where "dsp_bottom g d \<longleftrightarrow> gh g < pos_y d + 40"
definition dsp_edge :: "geometry \<Rightarrow> display \<Rightarrow> bool" where "dsp_edge g d \<longleftrightarrow> gw g < pos_x d + 22"

definition dsp_newline :: "geometry \<Rightarrow> display \<Rightarrow> display" where
  "dsp_newline g d = (if dsp_bottom g d then (dsp_scroll g d)\<lparr>pos_x := 4\<rparr> else d\<lparr>pos_x := 4, pos_y := pos_y d + 20\<rparr>)"

definition dsp_advance :: "geometry \<Rightarrow> display \<Rightarrow> display" where
  "dsp_advance g d = (if dsp_edge g d then dsp_newline g d else d\<lparr>pos_x := pos_x d + 10\<rparr>)"

definition dsp_left :: "display \<Rightarrow> display" where
  "dsp_left d = (if pos_x d = 4 then d else d\<lparr>pos_x := pos_x d - 10\<rparr>)"

definition dsp_right :: "geometry \<Rightarrow> display \<Rightarrow> display" where
  "dsp_right g d = (if dsp_edge g d then d else d\<lparr>pos_x := pos_x d + 10\<rparr>)"

definition dsp_up :: "display \<Rightarrow> display" where
  "dsp_up d = (if pos_y d = 4 then d else d\<lparr>pos_y := pos_y d - 20\<rparr>)"

definition dsp_down :: "geometry \<Rightarrow> display \<Rightarrow> display" where
  "dsp_down g d = (if dsp_bottom g d then d else d\<lparr>pos_y := pos_y d + 20\<rparr>)"

definition dsp_putc :: "geometry \<Rightarrow> u8 \<Rightarrow> display \<Rightarrow> display" where
  "dsp_putc g c d =
     (if c = 0x0A then dsp_newline g d
      else if c = 0x08 then dsp_draw g 0x20 (dsp_left d)
      else if c = 0x86 then dsp_up d
      else if c = 0x87 then dsp_down g d
      else if c = 0x88 then dsp_left d
      else if c = 0x89 then dsp_right g d
      else if c = 0x90 then (dsp_blank g d)\<lparr>pos_x := 4, pos_y := 4\<rparr>
      else if c = 0x91 \<or> c = 0x92 then d
      else dsp_advance g (dsp_draw g c d))"

section \<open>The screen as a display\<close>

definition geometry_of :: "screen \<Rightarrow> geometry" where
  "geometry_of s = \<lparr>gw = unat (fb_w s), gh = unat (fb_h s), gb = unat (fb_bpp s), gfont = glyph s,
     ink = foreground_color s, paper = background_color s\<rparr>"

definition display_of :: "screen \<Rightarrow> display" where
  "display_of s = \<lparr>shown = (if cursor_enabled s
       then restored s (unat (cursor_x s)) (unat (cursor_y s)) 16 (pix_block s) (fb_block s) else fb_block s),
     pos_x = unat (cursor_x s), pos_y = unat (cursor_y s)\<rparr>"

definition on_grid :: "screen \<Rightarrow> bool" where
  "on_grid s \<longleftrightarrow> unat (cursor_x s) mod 10 = 4 \<and> unat (cursor_x s) + 12 \<le> unat (fb_w s) \<and>
     unat (cursor_y s) mod 20 = 4 \<and> unat (cursor_y s) + 20 \<le> unat (fb_h s)"

definition screen_ok :: "screen \<Rightarrow> bool" where
  "screen_ok s \<longleftrightarrow> video_ok s \<and> font_ok s \<and> on_grid s"

definition elsewhere :: "screen \<Rightarrow> screen \<Rightarrow> bool" where
  "elsewhere s t \<longleftrightarrow> t = s\<lparr>vmem := vmem t, cursor_x := cursor_x t, cursor_y := cursor_y t, cursor_enabled := cursor_enabled t\<rparr> \<and>
     (\<forall>q. q \<notin> span (fb_base s) (fb_bytes s) \<union> span (pixels_at_cursor s) 512 \<longrightarrow> ld8 (vmem t) q = ld8 (vmem s) q)"

text \<open>
  A step of the screen: the invariant is kept, the cursor is shown or hidden as \<open>e\<close> says, the display
  becomes \<open>d\<close>, and nothing but the frame buffer, the save buffer and the cursor changes.
\<close>

definition sstep :: "screen \<Rightarrow> screen \<Rightarrow> bool \<Rightarrow> display \<Rightarrow> bool" where
  "sstep s t e d \<longleftrightarrow> screen_ok t \<and> cursor_enabled t = e \<and> display_of t = d \<and> geometry_of t = geometry_of s \<and> elsewhere s t"

lemma elsewhere_fields:
  assumes "elsewhere s t"
  shows "fb_base t = fb_base s \<and> fb_bytes t = fb_bytes s \<and> pixels_at_cursor t = pixels_at_cursor s"
proof -
  from assms have t: "t = s\<lparr>vmem := vmem t, cursor_x := cursor_x t, cursor_y := cursor_y t, cursor_enabled := cursor_enabled t\<rparr>"
    by (simp add: elsewhere_def)
  have "fb_base t = fb_base s" "fb_h t = fb_h s" "fb_p t = fb_p s" "pixels_at_cursor t = pixels_at_cursor s"
    by (subst t, simp)+
  then show ?thesis by (simp add: fb_bytes_def)
qed

lemma elsewhere_refl: "elsewhere s s"
  by (simp add: elsewhere_def)

lemma elsewhere_trans:
  assumes st: "elsewhere s t" and tu: "elsewhere t u"
  shows "elsewhere s u"
proof -
  from st have 1: "t = s\<lparr>vmem := vmem t, cursor_x := cursor_x t, cursor_y := cursor_y t, cursor_enabled := cursor_enabled t\<rparr>"
    by (simp add: elsewhere_def)
  from tu have 2: "u = t\<lparr>vmem := vmem u, cursor_x := cursor_x u, cursor_y := cursor_y u, cursor_enabled := cursor_enabled u\<rparr>"
    by (simp add: elsewhere_def)
  have "\<dots> = s\<lparr>vmem := vmem u, cursor_x := cursor_x u, cursor_y := cursor_y u, cursor_enabled := cursor_enabled u\<rparr>"
    by (subst 1) simp
  with 2 have "u = s\<lparr>vmem := vmem u, cursor_x := cursor_x u, cursor_y := cursor_y u, cursor_enabled := cursor_enabled u\<rparr>"
    by (rule trans)
  moreover have "ld8 (vmem u) q = ld8 (vmem s) q" if "q \<notin> span (fb_base s) (fb_bytes s) \<union> span (pixels_at_cursor s) 512" for q
    using st tu that elsewhere_fields [OF st] unfolding elsewhere_def by simp
  ultimately show ?thesis by (simp add: elsewhere_def)
qed

lemma sstep_trans: "sstep s t e d \<Longrightarrow> sstep t u e' d' \<Longrightarrow> sstep s u e' d'"
  using elsewhere_trans [of s t u] by (simp add: sstep_def)

lemma sstepD: "sstep s t e d \<Longrightarrow> screen_ok t \<and> cursor_enabled t = e \<and> display_of t = d \<and> geometry_of t = geometry_of s"
  by (simp add: sstep_def)

lemma geometry_of_sel [simp]:
  "gw (geometry_of s) = unat (fb_w s)" "gh (geometry_of s) = unat (fb_h s)" "gb (geometry_of s) = unat (fb_bpp s)"
  "gfont (geometry_of s) = glyph s" "ink (geometry_of s) = foreground_color s" "paper (geometry_of s) = background_color s"
  by (simp_all add: geometry_of_def)

lemma dsp_of:
  assumes "geometry_ok s"
  shows "dsp_row (geometry_of s) = row_of s" "dsp_col (geometry_of s) = col_of s" "dsp_chan (geometry_of s) = chan_of s"
    "unat (fb_h s) * (unat (fb_w s) * unat (fb_bpp s)) = fb_bytes s"
  using assms by (simp_all add: fun_eq_iff geometry_ok_def geometry_of_def dsp_row_def dsp_col_def dsp_chan_def row_of_def col_of_def chan_of_def fb_bytes_def)

lemma geom_upd [simp]:
  "row_of (s\<lparr>cursor_enabled := e\<rparr>) = row_of s" "col_of (s\<lparr>cursor_enabled := e\<rparr>) = col_of s" "chan_of (s\<lparr>cursor_enabled := e\<rparr>) = chan_of s"
  "fb_bytes (s\<lparr>cursor_enabled := e\<rparr>) = fb_bytes s" "geometry_ok (s\<lparr>cursor_enabled := e\<rparr>) = geometry_ok s"
  "row_of (s\<lparr>cursor_x := x\<rparr>) = row_of s" "col_of (s\<lparr>cursor_x := x\<rparr>) = col_of s" "chan_of (s\<lparr>cursor_x := x\<rparr>) = chan_of s"
  "fb_bytes (s\<lparr>cursor_x := x\<rparr>) = fb_bytes s" "geometry_ok (s\<lparr>cursor_x := x\<rparr>) = geometry_ok s"
  "row_of (s\<lparr>cursor_y := y\<rparr>) = row_of s" "col_of (s\<lparr>cursor_y := y\<rparr>) = col_of s" "chan_of (s\<lparr>cursor_y := y\<rparr>) = chan_of s"
  "fb_bytes (s\<lparr>cursor_y := y\<rparr>) = fb_bytes s" "geometry_ok (s\<lparr>cursor_y := y\<rparr>) = geometry_ok s"
  by (simp_all add: fun_eq_iff row_of_def col_of_def chan_of_def fb_bytes_def geometry_ok_def)

lemma ok_upd [simp]:
  "video_ok (s\<lparr>cursor_enabled := e\<rparr>) = video_ok s" "font_ok (s\<lparr>cursor_enabled := e\<rparr>) = font_ok s"
  "video_ok (s\<lparr>cursor_x := x\<rparr>) = video_ok s" "font_ok (s\<lparr>cursor_x := x\<rparr>) = font_ok s"
  "video_ok (s\<lparr>cursor_y := y\<rparr>) = video_ok s" "font_ok (s\<lparr>cursor_y := y\<rparr>) = font_ok s"
  "on_grid (s\<lparr>cursor_enabled := e\<rparr>) = on_grid s" "on_grid (s\<lparr>vmem := m\<rparr>) = on_grid s"
  "glyph (s\<lparr>cursor_enabled := e\<rparr>) = glyph s" "glyph (s\<lparr>cursor_x := x\<rparr>) = glyph s" "glyph (s\<lparr>cursor_y := y\<rparr>) = glyph s"
  by (simp_all add: video_ok_def font_ok_def on_grid_def glyph_def fun_eq_iff)

lemma restored_upd [simp]:
  "restored (s\<lparr>cursor_enabled := e\<rparr>) = restored s" "restored (s\<lparr>cursor_x := x\<rparr>) = restored s" "restored (s\<lparr>cursor_y := y\<rparr>) = restored s"
  by (simp_all add: fun_eq_iff restored_def)

lemma screen_vstep:
  assumes ok: "screen_ok s" and v: "vstep s m F G"
  shows "screen_ok (s\<lparr>vmem := m, cursor_enabled := e\<rparr>)" "geometry_of (s\<lparr>vmem := m, cursor_enabled := e\<rparr>) = geometry_of s"
    "elsewhere s (s\<lparr>vmem := m, cursor_enabled := e\<rparr>)"
    "fb_block (s\<lparr>vmem := m\<rparr>) = F" "pix_block (s\<lparr>vmem := m\<rparr>) = G"
proof -
  have f: "font_ok s" "video_ok s" "on_grid s" using ok by (simp_all add: screen_ok_def)
  show "screen_ok (s\<lparr>vmem := m, cursor_enabled := e\<rparr>)"
    using f vstep_video [OF f(2) v] vstep_font(1) [OF f(1) v] by (simp add: screen_ok_def)
  show "geometry_of (s\<lparr>vmem := m, cursor_enabled := e\<rparr>) = geometry_of s"
    by (simp add: geometry_of_def vstep_font(2) [OF f(1) v])
  show "elsewhere s (s\<lparr>vmem := m, cursor_enabled := e\<rparr>)" using v by (simp add: elsewhere_def bstep_def)
  show "fb_block (s\<lparr>vmem := m\<rparr>) = F" "pix_block (s\<lparr>vmem := m\<rparr>) = G" using v by (simp_all add: bstep_def)
qed


lemma screen_okD:
  assumes "screen_ok s"
  shows "video_ok s" "font_ok s" "geometry_ok s" "cursor_in s" "on_grid s"
  using assms by (auto simp: screen_ok_def video_ok_def on_grid_def cursor_in_def)

lemma sstep_redraw_cursor:
  assumes ok: "screen_ok s"
  shows "\<exists>t. textDrawCursor s = Some t \<and> sstep s t True ((display_of s)\<lparr>shown := fb_block s\<rparr>)"
proof -
  note D = screen_okD [OF ok]
  let ?x = "unat (cursor_x s)" and ?y = "unat (cursor_y s)"
  obtain m where m: "textDrawCursor s = Some (s\<lparr>vmem := m, cursor_enabled := True\<rparr>)"
      "vstep s m (painted s (in_cell ?x ?y) (char_color s 219 ?x ?y) (fb_block s)) (saved s ?x ?y 16 (fb_block s) (pix_block s))"
    using textDrawCursor_ok [OF D(1,2,4)] by blast
  have x: "?x + 8 \<le> unat (fb_w s)" using D(4) by (simp add: cursor_in_def)
  have "display_of (s\<lparr>vmem := m, cursor_enabled := True\<rparr>) = (display_of s)\<lparr>shown := fb_block s\<rparr>"
    using screen_vstep(4,5) [OF ok m(2)] restored_saved [OF D(3) x] by (simp add: display_of_def)
  with m(1) screen_vstep(1-3) [OF ok m(2)] show ?thesis by (simp add: sstep_def)
qed

lemma sstep_draw_cursor:
  assumes "screen_ok s" "\<not> cursor_enabled s"
  shows "\<exists>t. textDrawCursor s = Some t \<and> sstep s t True (display_of s)"
  using sstep_redraw_cursor [OF assms(1)] assms(2) by (simp add: display_of_def)

lemma sstep_clear_cursor:
  assumes ok: "screen_ok s" and e: "cursor_enabled s"
  shows "\<exists>t. textClearCursor s = Some t \<and> sstep s t False (display_of s)"
proof -
  note D = screen_okD [OF ok]
  let ?x = "unat (cursor_x s)" and ?y = "unat (cursor_y s)"
  obtain m where m: "textClearCursor s = Some (s\<lparr>vmem := m, cursor_enabled := False\<rparr>)"
      "vstep s m (restored s ?x ?y 16 (pix_block s) (fb_block s)) (\<lambda>i. if i < 512 then Some 0 else None)"
    using textClearCursor_ok [OF D(1,4)] by blast
  have "display_of (s\<lparr>vmem := m, cursor_enabled := False\<rparr>) = display_of s"
    using screen_vstep(4,5) [OF ok m(2)] e by (simp add: display_of_def)
  with m(1) screen_vstep(1-3) [OF ok m(2)] show ?thesis by (simp add: sstep_def)
qed

lemma sstep_draw_char:
  assumes ok: "screen_ok s" and e: "\<not> cursor_enabled s"
  shows "\<exists>t. textDrawCharAtCursor c False s = Some t \<and> sstep s t False (dsp_draw (geometry_of s) c (display_of s))"
proof -
  note D = screen_okD [OF ok]
  let ?x = "unat (cursor_x s)" and ?y = "unat (cursor_y s)"
  obtain m where m: "textDrawChar c (cursor_x s) (cursor_y s) False s = Some (s\<lparr>vmem := m\<rparr>)"
      "vstep s m (painted s (in_cell ?x ?y) (char_color s c ?x ?y) (fb_block s)) (pix_block s)"
    using textDrawChar_ok [OF D(1,2), of "cursor_x s" "cursor_y s" c] D(4) by (auto simp: cursor_in_def)
  have same: "s\<lparr>vmem := m\<rparr> = s\<lparr>vmem := m, cursor_enabled := False\<rparr>" using e by simp
  have "display_of (s\<lparr>vmem := m\<rparr>) = dsp_draw (geometry_of s) c (display_of s)"
    using screen_vstep(4,5) [OF ok m(2)] e
    by (simp add: display_of_def dsp_draw_def painted_def dsp_of [OF D(3)] cong: if_cong)
  with m(1) screen_vstep(1-3) [OF ok m(2), of False] e show ?thesis
    by (simp add: sstep_def textDrawCharAtCursor_def same [symmetric])
qed

lemma sstep_scroll:
  assumes ok: "screen_ok s" and e: "\<not> cursor_enabled s"
  shows "\<exists>t. textMoveScreenUpOneLine s = Some t \<and> sstep s t False (dsp_scroll (geometry_of s) (display_of s))"
proof -
  note D = screen_okD [OF ok]
  let ?y = "unat (cursor_y s)"
  have y: "?y + 20 \<le> unat (fb_h s)" using D(5) by (simp add: on_grid_def)
  obtain m where m: "textMoveScreenUpOneLine s = Some (s\<lparr>vmem := m\<rparr>)" "vstep s m (scrolled s ?y (fb_block s)) (pix_block s)"
    using textMoveScreenUpOneLine_ok [OF D(1) y] by blast
  have same: "s\<lparr>vmem := m\<rparr> = s\<lparr>vmem := m, cursor_enabled := False\<rparr>" using e by simp
  have "unat (fb_w s) * unat (fb_bpp s) = unat (fb_p s)"
    using D(3) by (simp add: geometry_ok_def)
  then have "display_of (s\<lparr>vmem := m\<rparr>) = dsp_scroll (geometry_of s) (display_of s)"
    using screen_vstep(4,5) [OF ok m(2)] e
    by (simp add: display_of_def dsp_scroll_def scrolled_def dsp_of [OF D(3)] cong: if_cong)
  with m(1) screen_vstep(1-3) [OF ok m(2), of False] e show ?thesis
    by (simp add: sstep_def same [symmetric])
qed

lemma sstep_move:
  assumes ok: "screen_ok s" and e: "\<not> cursor_enabled s" and g: "on_grid (s\<lparr>cursor_x := x, cursor_y := y\<rparr>)"
  shows "\<exists>t. textMoveCursor x y s = Some t \<and> sstep s t True ((display_of s)\<lparr>pos_x := unat x, pos_y := unat y\<rparr>)"
proof -
  let ?u = "s\<lparr>cursor_x := x, cursor_y := y\<rparr>"
  have u: "screen_ok ?u" "\<not> cursor_enabled ?u" using ok e g by (simp_all add: screen_ok_def)
  have "display_of ?u = (display_of s)\<lparr>pos_x := unat x, pos_y := unat y\<rparr>" using e by (simp add: display_of_def)
  moreover have "geometry_of ?u = geometry_of s" by (simp add: geometry_of_def)
  moreover have "elsewhere s ?u" by (simp add: elsewhere_def)
  ultimately show ?thesis
    using sstep_draw_cursor [OF u] elsewhere_trans [of s ?u] by (auto simp: textMoveCursor_def sstep_def)
qed


section \<open>Characters\<close>

lemma display_pos [simp]: "pos_x (display_of s) = unat (cursor_x s)" "pos_y (display_of s) = unat (cursor_y s)"
  by (simp_all add: display_of_def)

lemma same_geometry: "geometry_of t = geometry_of s \<Longrightarrow> fb_w t = fb_w s \<and> fb_h t = fb_h s"
  by (simp add: geometry_of_def word_unat_eq_iff)

lemma small_coordinates:
  assumes "screen_ok s"
  shows "unat (cursor_x s) + 22 < 2 ^ 17" "unat (cursor_y s) + 40 < 2 ^ 17" "16 \<le> unat (fb_w s)" "24 \<le> unat (fb_h s)"
    "unat (fb_w s) < 2 ^ 16" "unat (fb_h s) < 2 ^ 16"
  using screen_okD(3) [OF assms] unsigned_less [of "cursor_x s", where ?'a = nat] unsigned_less [of "cursor_y s", where ?'a = nat]
  by (simp_all add: geometry_ok_def)

lemma last_line_iff: "screen_ok s \<Longrightarrow> last_line s \<longleftrightarrow> dsp_bottom (geometry_of s) (display_of s)"
  using small_coordinates [of s]
  by (simp add: last_line_def dsp_bottom_def word_less_nat_alt unat_word_ariths unat_sub margin_y_def spacing_y_def character_size_y_def
      unsigned_ucast_eq take_bit_nat_eq_self word_le_nat_alt) linarith

lemma last_column_iff: "screen_ok s \<Longrightarrow> last_column s \<longleftrightarrow> dsp_edge (geometry_of s) (display_of s)"
  using small_coordinates [of s]
  by (simp add: last_column_def dsp_edge_def word_less_nat_alt unat_word_ariths unat_sub margin_x_def spacing_x_def character_size_x_def
      unsigned_ucast_eq take_bit_nat_eq_self word_le_nat_alt) linarith


lemma grid_moves:
  assumes ok: "screen_ok s"
  shows "on_grid (s\<lparr>cursor_x := margin_x, cursor_y := cursor_y s\<rparr>)"
    and "\<not> dsp_bottom (geometry_of s) (display_of s) \<Longrightarrow>
      on_grid (s\<lparr>cursor_x := margin_x, cursor_y := cursor_y s + spacing_y + character_size_y\<rparr>) \<and>
      on_grid (s\<lparr>cursor_x := cursor_x s, cursor_y := cursor_y s + spacing_y + character_size_y\<rparr>) \<and>
      unat (cursor_y s + spacing_y + character_size_y) = unat (cursor_y s) + 20"
    and "\<not> dsp_edge (geometry_of s) (display_of s) \<Longrightarrow>
      on_grid (s\<lparr>cursor_x := cursor_x s + spacing_x + character_size_x, cursor_y := cursor_y s\<rparr>) \<and>
      unat (cursor_x s + spacing_x + character_size_x) = unat (cursor_x s) + 10"
    and "cursor_x s \<noteq> margin_x \<Longrightarrow>
      on_grid (s\<lparr>cursor_x := cursor_x s - spacing_x - character_size_x, cursor_y := cursor_y s\<rparr>) \<and>
      unat (cursor_x s - spacing_x - character_size_x) = unat (cursor_x s) - 10"
    and "cursor_y s \<noteq> margin_y \<Longrightarrow>
      on_grid (s\<lparr>cursor_x := cursor_x s, cursor_y := cursor_y s - spacing_y - character_size_y\<rparr>) \<and>
      unat (cursor_y s - spacing_y - character_size_y) = unat (cursor_y s) - 20"
    and "on_grid (s\<lparr>cursor_x := 4, cursor_y := 4\<rparr>)"
proof -
  note small = small_coordinates [OF ok]
  have g: "unat (cursor_x s) mod 10 = 4" "unat (cursor_x s) + 12 \<le> unat (fb_w s)"
    "unat (cursor_y s) mod 20 = 4" "unat (cursor_y s) + 20 \<le> unat (fb_h s)"
    using screen_okD(5) [OF ok] by (simp_all add: on_grid_def)
  show "on_grid (s\<lparr>cursor_x := margin_x, cursor_y := cursor_y s\<rparr>)" "on_grid (s\<lparr>cursor_x := 4, cursor_y := 4\<rparr>)"
    using g small by (simp_all add: on_grid_def margin_x_def)
  show "on_grid (s\<lparr>cursor_x := margin_x, cursor_y := cursor_y s + spacing_y + character_size_y\<rparr>) \<and>
      on_grid (s\<lparr>cursor_x := cursor_x s, cursor_y := cursor_y s + spacing_y + character_size_y\<rparr>) \<and>
      unat (cursor_y s + spacing_y + character_size_y) = unat (cursor_y s) + 20"
    if b: "\<not> dsp_bottom (geometry_of s) (display_of s)"
  proof -
    have "unat (cursor_y s) + 40 \<le> unat (fb_h s)" using b by (simp add: dsp_bottom_def)
    moreover from this have "unat (cursor_y s + 20) = unat (cursor_y s) + 20"
      using small by (simp add: unat_word_ariths)
    ultimately show ?thesis
      using g small by (simp add: on_grid_def margin_x_def spacing_y_def character_size_y_def add.assoc mod_add_eq [symmetric])
  qed
  show "on_grid (s\<lparr>cursor_x := cursor_x s + spacing_x + character_size_x, cursor_y := cursor_y s\<rparr>) \<and>
      unat (cursor_x s + spacing_x + character_size_x) = unat (cursor_x s) + 10"
    if b: "\<not> dsp_edge (geometry_of s) (display_of s)"
  proof -
    have "unat (cursor_x s) + 22 \<le> unat (fb_w s)" using b by (simp add: dsp_edge_def)
    moreover from this have "unat (cursor_x s + 10) = unat (cursor_x s) + 10"
      using small by (simp add: unat_word_ariths)
    ultimately show ?thesis
      using g small by (simp add: on_grid_def spacing_x_def character_size_x_def add.assoc)
  qed
  show "on_grid (s\<lparr>cursor_x := cursor_x s - spacing_x - character_size_x, cursor_y := cursor_y s\<rparr>) \<and>
      unat (cursor_x s - spacing_x - character_size_x) = unat (cursor_x s) - 10"
    if "cursor_x s \<noteq> margin_x"
  proof -
    have "unat (cursor_x s) \<noteq> 4" using that by (simp add: margin_x_def word_unat_eq_iff)
    then have ge: "14 \<le> unat (cursor_x s)" using g(1) by presburger
    then have "unat (cursor_x s - 10) = unat (cursor_x s) - 10"
      using unat_sub [of 10 "cursor_x s"] by (simp add: word_le_nat_alt)
    moreover have "(unat (cursor_x s) - 10) mod 10 = 4" using g(1) ge by (simp add: le_mod_geq [symmetric])
    ultimately show ?thesis using g ge by (simp add: on_grid_def spacing_x_def character_size_x_def)
  qed
  show "on_grid (s\<lparr>cursor_x := cursor_x s, cursor_y := cursor_y s - spacing_y - character_size_y\<rparr>) \<and>
      unat (cursor_y s - spacing_y - character_size_y) = unat (cursor_y s) - 20"
    if "cursor_y s \<noteq> margin_y"
  proof -
    have "unat (cursor_y s) \<noteq> 4" using that by (simp add: margin_y_def word_unat_eq_iff)
    then have ge: "24 \<le> unat (cursor_y s)" using g(3) by presburger
    then have "unat (cursor_y s - 20) = unat (cursor_y s) - 20"
      using unat_sub [of 20 "cursor_y s"] by (simp add: word_le_nat_alt)
    moreover have "(unat (cursor_y s) - 20) mod 20 = 4" using g(3) ge by (simp add: le_mod_geq [symmetric])
    ultimately show ?thesis using g ge by (simp add: on_grid_def spacing_y_def character_size_y_def)
  qed
qed


lemma sstep_chain:
  assumes "\<exists>t. r = Some t \<and> sstep s t e d"
    and "\<And>t. sstep s t e d \<Longrightarrow> \<exists>u. h t = Some u \<and> sstep t u e' d'"
  shows "\<exists>u. (r \<bind> h) = Some u \<and> sstep s u e' d'"
  using assms sstep_trans by (metis bind.bind_lunit)

lemma cursor_of_display:
  "display_of t = d \<Longrightarrow> unat (cursor_x t) = pos_x d \<and> unat (cursor_y t) = pos_y d"
  by auto

lemma hidden_newline:
  assumes ok: "screen_ok s" and e: "\<not> cursor_enabled s"
  shows "\<exists>t. (if last_line s then do { s \<leftarrow> textMoveScreenUpOneLine s; textMoveCursor margin_x (cursor_y s) s }
       else textMoveCursor margin_x (cursor_y s + spacing_y + character_size_y) s) = Some t \<and>
     sstep s t True (dsp_newline (geometry_of s) (display_of s))"
proof (cases "dsp_bottom (geometry_of s) (display_of s)")
  case True
  have "\<exists>t. (textMoveScreenUpOneLine s \<bind> (\<lambda>s. textMoveCursor margin_x (cursor_y s) s)) = Some t \<and>
     sstep s t True ((dsp_scroll (geometry_of s) (display_of s))\<lparr>pos_x := 4, pos_y := unat (cursor_y s)\<rparr>)"
  proof (rule sstep_chain [OF sstep_scroll [OF ok e]])
    fix t
    assume st: "sstep s t False (dsp_scroll (geometry_of s) (display_of s))"
    then have t: "screen_ok t" "\<not> cursor_enabled t" "display_of t = dsp_scroll (geometry_of s) (display_of s)"
      by (simp_all add: sstep_def)
    have "unat (cursor_y t) = unat (cursor_y s)" using cursor_of_display [OF t(3)] by (simp add: dsp_scroll_def)
    with sstep_move [OF t(1,2) grid_moves(1) [OF t(1)]]
    show "\<exists>u. textMoveCursor margin_x (cursor_y t) t = Some u \<and>
       sstep t u True ((dsp_scroll (geometry_of s) (display_of s))\<lparr>pos_x := 4, pos_y := unat (cursor_y s)\<rparr>)"
      by (simp add: t(3) margin_x_def)
  qed
  moreover have "(dsp_scroll (geometry_of s) (display_of s))\<lparr>pos_x := 4, pos_y := unat (cursor_y s)\<rparr>
     = dsp_newline (geometry_of s) (display_of s)"
    using True by (simp add: dsp_newline_def dsp_scroll_def)
  ultimately show ?thesis using True by (simp add: last_line_iff [OF ok])
next
  case False
  note g = grid_moves(2) [OF ok False]
  from sstep_move [OF ok e conjunct1 [OF g]] False g show ?thesis
    by (simp add: last_line_iff [OF ok] dsp_newline_def margin_x_def)
qed

lemma sstep_newline:
  assumes ok: "screen_ok s" and e: "cursor_enabled s"
  shows "\<exists>t. textNewline s = Some t \<and> sstep s t True (dsp_newline (geometry_of s) (display_of s))"
  unfolding textNewline_def
proof (rule sstep_chain [OF sstep_clear_cursor [OF ok e]])
  fix t
  assume "sstep s t False (display_of s)"
  then have "screen_ok t" "\<not> cursor_enabled t" "display_of t = display_of s" "geometry_of t = geometry_of s"
    by (simp_all add: sstep_def)
  with hidden_newline [of t] show "\<exists>u. (if last_line t then do { s \<leftarrow> textMoveScreenUpOneLine t; textMoveCursor margin_x (cursor_y s) s }
       else textMoveCursor margin_x (cursor_y t + spacing_y + character_size_y) t) = Some u \<and>
     sstep t u True (dsp_newline (geometry_of s) (display_of s))" by simp
qed

lemma sstep_advance:
  assumes ok: "screen_ok s" and e: "\<not> cursor_enabled s"
  shows "\<exists>t. textAdvanceCursorRight s = Some t \<and> sstep s t True (dsp_advance (geometry_of s) (display_of s))"
proof (cases "dsp_edge (geometry_of s) (display_of s)")
  case True
  with hidden_newline [OF ok e] show ?thesis
    by (cases "last_line s") (simp_all add: textAdvanceCursorRight_def last_column_iff [OF ok] dsp_advance_def)
next
  case False
  note g = grid_moves(3) [OF ok False]
  from sstep_move [OF ok e conjunct1 [OF g]] False g show ?thesis
    by (simp add: textAdvanceCursorRight_def last_column_iff [OF ok] dsp_advance_def) (simp add: display_of_def)
qed

lemma sstep_refl: "screen_ok s \<Longrightarrow> sstep s s (cursor_enabled s) (display_of s)"
  by (simp add: sstep_def elsewhere_refl)

lemma shown_move:
  assumes ok: "screen_ok s" and e: "cursor_enabled s"
    and mv: "\<And>t. display_of t = display_of s \<Longrightarrow> screen_ok t \<Longrightarrow> geometry_of t = geometry_of s \<Longrightarrow>
       on_grid (t\<lparr>cursor_x := fx t, cursor_y := fy t\<rparr>) \<and> d = (display_of s)\<lparr>pos_x := unat (fx t), pos_y := unat (fy t)\<rparr>"
  shows "\<exists>t. (textClearCursor s \<bind> (\<lambda>s. textMoveCursor (fx s) (fy s) s)) = Some t \<and> sstep s t True d"
proof (rule sstep_chain [OF sstep_clear_cursor [OF ok e]])
  fix t
  assume "sstep s t False (display_of s)"
  then have t: "screen_ok t" "\<not> cursor_enabled t" "display_of t = display_of s" "geometry_of t = geometry_of s"
    by (simp_all add: sstep_def)
  from sstep_move [OF t(1,2) conjunct1 [OF mv [OF t(3,1,4)]]] mv [OF t(3,1,4)]
  show "\<exists>u. textMoveCursor (fx t) (fy t) t = Some u \<and> sstep t u True d" by (simp add: t(3))
qed


lemma sstep_left:
  assumes ok: "screen_ok s" and e: "cursor_enabled s"
  shows "\<exists>t. textCursorLeft s = Some t \<and> sstep s t True (dsp_left (display_of s))"
proof (cases "cursor_x s = margin_x")
  case True
  with sstep_refl [OF ok] e show ?thesis by (simp add: textCursorLeft_def dsp_left_def margin_x_def)
next
  case False
  then have d: "unat (cursor_x s) \<noteq> 4" by (simp add: margin_x_def word_unat_eq_iff)
  have "on_grid (t\<lparr>cursor_x := cursor_x t - spacing_x - character_size_x, cursor_y := cursor_y t\<rparr>) \<and>
      dsp_left (display_of s) = (display_of s)\<lparr>pos_x := unat (cursor_x t - spacing_x - character_size_x), pos_y := unat (cursor_y t)\<rparr>"
    if t: "display_of t = display_of s" "screen_ok t" for t
  proof -
    have c: "unat (cursor_x t) = unat (cursor_x s)" "unat (cursor_y t) = unat (cursor_y s)"
      using cursor_of_display [OF t(1)] by simp_all
    then have "cursor_x t \<noteq> margin_x" using d by (auto simp: margin_x_def)
    from grid_moves(4) [OF t(2) this] c d show ?thesis by (simp add: dsp_left_def)
  qed
  from shown_move [OF ok e this] False show ?thesis by (simp add: textCursorLeft_def)
qed

lemma sstep_up:
  assumes ok: "screen_ok s" and e: "cursor_enabled s"
  shows "\<exists>t. textCursorUp s = Some t \<and> sstep s t True (dsp_up (display_of s))"
proof (cases "cursor_y s = margin_y")
  case True
  with sstep_refl [OF ok] e show ?thesis by (simp add: textCursorUp_def dsp_up_def margin_y_def)
next
  case False
  then have d: "unat (cursor_y s) \<noteq> 4" by (simp add: margin_y_def word_unat_eq_iff)
  have "on_grid (t\<lparr>cursor_x := cursor_x t, cursor_y := cursor_y t - spacing_y - character_size_y\<rparr>) \<and>
      dsp_up (display_of s) = (display_of s)\<lparr>pos_x := unat (cursor_x t), pos_y := unat (cursor_y t - spacing_y - character_size_y)\<rparr>"
    if t: "display_of t = display_of s" "screen_ok t" for t
  proof -
    have c: "unat (cursor_x t) = unat (cursor_x s)" "unat (cursor_y t) = unat (cursor_y s)"
      using cursor_of_display [OF t(1)] by simp_all
    then have "cursor_y t \<noteq> margin_y" using d by (auto simp: margin_y_def)
    from grid_moves(5) [OF t(2) this] c d show ?thesis by (simp add: dsp_up_def)
  qed
  from shown_move [OF ok e this] False show ?thesis by (simp add: textCursorUp_def)
qed

lemma sstep_down:
  assumes ok: "screen_ok s" and e: "cursor_enabled s"
  shows "\<exists>t. textCursorDown s = Some t \<and> sstep s t True (dsp_down (geometry_of s) (display_of s))"
proof (cases "dsp_bottom (geometry_of s) (display_of s)")
  case True
  with sstep_refl [OF ok] e show ?thesis by (simp add: textCursorDown_def dsp_down_def last_line_iff [OF ok])
next
  case False
  have "on_grid (t\<lparr>cursor_x := cursor_x t, cursor_y := cursor_y t + spacing_y + character_size_y\<rparr>) \<and>
      dsp_down (geometry_of s) (display_of s) = (display_of s)\<lparr>pos_x := unat (cursor_x t), pos_y := unat (cursor_y t + spacing_y + character_size_y)\<rparr>"
    if t: "display_of t = display_of s" "screen_ok t" "geometry_of t = geometry_of s" for t
  proof -
    have c: "unat (cursor_x t) = unat (cursor_x s)" "unat (cursor_y t) = unat (cursor_y s)"
      using cursor_of_display [OF t(1)] by simp_all
    have "\<not> dsp_bottom (geometry_of t) (display_of t)" unfolding t(1,3) by (rule False)
    from grid_moves(2) [OF t(2) this] c False show ?thesis by (simp add: dsp_down_def)
  qed
  from shown_move [OF ok e this] have "\<exists>t. (textClearCursor s \<bind> (\<lambda>s. textMoveCursor (cursor_x s) (cursor_y s + spacing_y + character_size_y) s)) = Some t \<and>
      sstep s t True (dsp_down (geometry_of s) (display_of s))" .
  moreover have "textCursorDown s = (textClearCursor s \<bind> (\<lambda>s. textMoveCursor (cursor_x s) (cursor_y s + spacing_y + character_size_y) s))"
    using False last_line_iff [OF ok] by (simp add: textCursorDown_def)
  ultimately show ?thesis by (simp only:)
qed

lemma sstep_right:
  assumes ok: "screen_ok s" and e: "cursor_enabled s"
  shows "\<exists>t. textCursorRight s = Some t \<and> sstep s t True (dsp_right (geometry_of s) (display_of s))"
proof (cases "dsp_edge (geometry_of s) (display_of s)")
  case True
  with sstep_refl [OF ok] e show ?thesis by (simp add: textCursorRight_def dsp_right_def last_column_iff [OF ok])
next
  case False
  have "on_grid (t\<lparr>cursor_x := cursor_x t + spacing_x + character_size_x, cursor_y := cursor_y t\<rparr>) \<and>
      dsp_right (geometry_of s) (display_of s) = (display_of s)\<lparr>pos_x := unat (cursor_x t + spacing_x + character_size_x), pos_y := unat (cursor_y t)\<rparr>"
    if t: "display_of t = display_of s" "screen_ok t" "geometry_of t = geometry_of s" for t
  proof -
    have c: "unat (cursor_x t) = unat (cursor_x s)" "unat (cursor_y t) = unat (cursor_y s)"
      using cursor_of_display [OF t(1)] by simp_all
    have "\<not> dsp_edge (geometry_of t) (display_of t)" unfolding t(1,3) by (rule False)
    from grid_moves(3) [OF t(2) this] c False show ?thesis by (simp add: dsp_right_def)
  qed
  from shown_move [OF ok e this] have "\<exists>t. (textClearCursor s \<bind> (\<lambda>s. textMoveCursor (cursor_x s + spacing_x + character_size_x) (cursor_y s) s)) = Some t \<and>
      sstep s t True (dsp_right (geometry_of s) (display_of s))" .
  moreover have "textCursorRight s = (textClearCursor s \<bind> (\<lambda>s. textMoveCursor (cursor_x s + spacing_x + character_size_x) (cursor_y s) s))"
    using False last_column_iff [OF ok] by (simp add: textCursorRight_def)
  ultimately show ?thesis by (simp only:)
qed

lemma sstep_clear_char:
  assumes ok: "screen_ok s" and e: "cursor_enabled s"
  shows "\<exists>t. textClearCharAtCursor s = Some t \<and> sstep s t True (dsp_draw (geometry_of s) 0x20 (display_of s))"
  unfolding textClearCharAtCursor_def
proof (rule sstep_chain [OF sstep_clear_cursor [OF ok e]])
  fix t
  assume "sstep s t False (display_of s)"
  then have t: "screen_ok t" "\<not> cursor_enabled t" "display_of t = display_of s" "geometry_of t = geometry_of s"
    by (simp_all add: sstep_def)
  have "\<exists>u. (textDrawCharAtCursor 0x20 False t \<bind> textDrawCursor) = Some u \<and> sstep t u True (dsp_draw (geometry_of t) 0x20 (display_of t))"
  proof (rule sstep_chain [OF sstep_draw_char [OF t(1,2)]])
    fix u
    assume u: "sstep t u False (dsp_draw (geometry_of t) 0x20 (display_of t))"
    with sstep_draw_cursor [of u] show "\<exists>v. textDrawCursor u = Some v \<and> sstep u v True (dsp_draw (geometry_of t) 0x20 (display_of t))"
      by (simp add: sstepD)
  qed
  then show "\<exists>u. (textDrawCharAtCursor 0x20 False t \<bind> textDrawCursor) = Some u \<and> sstep t u True (dsp_draw (geometry_of s) 0x20 (display_of s))"
    by (simp add: t(3,4))
qed

lemma sstep_put_char:
  assumes ok: "screen_ok s" and e: "cursor_enabled s"
  shows "\<exists>t. (do { s \<leftarrow> textClearCursor s; s \<leftarrow> textDrawCharAtCursor c False s; textAdvanceCursorRight s }) = Some t \<and>
     sstep s t True (dsp_advance (geometry_of s) (dsp_draw (geometry_of s) c (display_of s)))"
proof (rule sstep_chain [OF sstep_clear_cursor [OF ok e]])
  fix t
  assume "sstep s t False (display_of s)"
  then have t: "screen_ok t" "\<not> cursor_enabled t" "display_of t = display_of s" "geometry_of t = geometry_of s"
    by (simp_all add: sstep_def)
  have "\<exists>u. (textDrawCharAtCursor c False t \<bind> textAdvanceCursorRight) = Some u \<and>
     sstep t u True (dsp_advance (geometry_of t) (dsp_draw (geometry_of t) c (display_of t)))"
  proof (rule sstep_chain [OF sstep_draw_char [OF t(1,2)]])
    fix u
    assume u: "sstep t u False (dsp_draw (geometry_of t) c (display_of t))"
    with sstep_advance [of u]
    show "\<exists>v. textAdvanceCursorRight u = Some v \<and> sstep u v True (dsp_advance (geometry_of t) (dsp_draw (geometry_of t) c (display_of t)))"
      by (simp add: sstepD)
  qed
  then show "\<exists>u. (textDrawCharAtCursor c False t \<bind> textAdvanceCursorRight) = Some u \<and>
     sstep t u True (dsp_advance (geometry_of s) (dsp_draw (geometry_of s) c (display_of s)))"
    by (simp add: t(3,4))
qed

lemma sstep_blank:
  assumes ok: "screen_ok s" and e: "\<not> cursor_enabled s"
  shows "\<exists>t. (do { (_, m) \<leftarrow> memset (vmem s) (fb_base s) 0 (fb_h s * fb_p s); Some (s\<lparr>vmem := m\<rparr>) }) = Some t \<and>
     sstep s t False (dsp_blank (geometry_of s) (display_of s))"
proof -
  note D = screen_okD [OF ok]
  have b: "bufs (fb_base s) (fb_bytes s) (pixels_at_cursor s) 512 (vmem s)" using D(1) by (simp add: video_ok_def)
  have l: "unat (fb_h s * fb_p s) = fb_bytes s"
  proof -
    have "fb_bytes s \<le> 2 ^ 32" using D(3) by (simp add: geometry_ok_def)
    then have "unat (fb_h s) * unat (fb_p s) < 2 ^ 64" by (simp add: fb_bytes_def)
    then show ?thesis by (simp add: fb_bytes_def unat_word_ariths)
  qed
  obtain m where m: "memset (vmem s) (fb_base s + of_nat 0) 0 (fb_h s * fb_p s) = Some (fb_base s + of_nat 0, m)"
      "bstep (fb_base s) (fb_bytes s) (pixels_at_cursor s) 512 (vmem s) m
         (\<lambda>i. if 0 \<le> i \<and> i < 0 + fb_bytes s then Some (ucast (0 :: u32)) else fb_block s i) (pix_block s)"
    using bstep_fill [OF b, of 0 "fb_bytes s" "fb_h s * fb_p s" 0] l by auto
  have same: "s\<lparr>vmem := m\<rparr> = s\<lparr>vmem := m, cursor_enabled := False\<rparr>" using e by simp
  have "(\<lambda>i. if 0 \<le> i \<and> i < 0 + fb_bytes s then Some (ucast (0 :: u32)) else fb_block s i) = (\<lambda>i. if i < fb_bytes s then Some 0 else None)"
    by (simp add: fun_eq_iff block_def)
  then have "display_of (s\<lparr>vmem := m\<rparr>) = dsp_blank (geometry_of s) (display_of s)"
    using screen_vstep(4,5) [OF ok m(2)] e by (simp add: display_of_def dsp_blank_def dsp_of [OF D(3)])
  with m(1) screen_vstep(1-3) [OF ok m(2), of False] e show ?thesis
    by (simp add: sstep_def same [symmetric])
qed

lemma sstep_clear_screen:
  assumes ok: "screen_ok s" and e: "cursor_enabled s"
  shows "\<exists>t. (textClearScreen s \<bind> textMoveCursor 4 4) = Some t \<and>
     sstep s t True ((dsp_blank (geometry_of s) (display_of s))\<lparr>pos_x := 4, pos_y := 4\<rparr>)"
proof (rule sstep_chain)
  show "\<exists>t. textClearScreen s = Some t \<and> sstep s t False (dsp_blank (geometry_of s) (display_of s))"
    unfolding textClearScreen_def
  proof (rule sstep_chain [OF sstep_clear_cursor [OF ok e]])
    fix t
    assume "sstep s t False (display_of s)"
    then have "screen_ok t" "\<not> cursor_enabled t" "display_of t = display_of s" "geometry_of t = geometry_of s"
      by (simp_all add: sstep_def)
    with sstep_blank [of t] show "\<exists>u. (do { (_, m) \<leftarrow> memset (vmem t) (fb_base t) 0 (fb_h t * fb_p t); Some (t\<lparr>vmem := m\<rparr>) }) = Some u \<and>
      sstep t u False (dsp_blank (geometry_of s) (display_of s))" by simp
  qed
  fix t
  assume "sstep s t False (dsp_blank (geometry_of s) (display_of s))"
  then have t: "screen_ok t" "\<not> cursor_enabled t" "display_of t = dsp_blank (geometry_of s) (display_of s)" by (simp_all add: sstep_def)
  with sstep_move [OF t(1,2) grid_moves(6) [OF t(1)]]
  show "\<exists>u. textMoveCursor 4 4 t = Some u \<and> sstep t u True ((dsp_blank (geometry_of s) (display_of s))\<lparr>pos_x := 4, pos_y := 4\<rparr>)" by simp
qed

lemma sstep_if:
  "(P \<Longrightarrow> \<exists>t. a = Some t \<and> sstep s t e d) \<Longrightarrow> (\<not> P \<Longrightarrow> \<exists>t. b = Some t \<and> sstep s t e d') \<Longrightarrow>
   \<exists>t. (if P then a else b) = Some t \<and> sstep s t e (if P then d else d')"
  by simp

lemma sstep_putc:
  assumes ok: "screen_ok s" and e: "cursor_enabled s" and c: "c \<noteq> 0x91" "c \<noteq> 0x92"
  shows "\<exists>t. textPutc c s = Some t \<and> sstep s t True (dsp_putc (geometry_of s) c (display_of s))"
proof -
  have bs: "\<exists>t. (textCursorLeft s \<bind> textClearCharAtCursor) = Some t \<and> sstep s t True (dsp_draw (geometry_of s) 0x20 (dsp_left (display_of s)))"
  proof (rule sstep_chain [OF sstep_left [OF ok e]])
    fix t
    assume "sstep s t True (dsp_left (display_of s))"
    with sstep_clear_char [of t]
    show "\<exists>u. textClearCharAtCursor t = Some u \<and> sstep t u True (dsp_draw (geometry_of s) 0x20 (dsp_left (display_of s)))"
      by (simp add: sstepD)
  qed
  show ?thesis unfolding textPutc_def dsp_putc_def
    by (simp only: c if_False simp_thms, intro sstep_if)
      (rule bs sstep_newline [OF ok e] sstep_up [OF ok e] sstep_down [OF ok e] sstep_left [OF ok e] sstep_right [OF ok e]
        sstep_clear_screen [OF ok e] sstep_put_char [OF ok e])+
qed

text \<open>
  Every character, the two cursor switches included: the one that draws the cursor takes what is in the
  frame buffer for the picture.
\<close>

definition dsp_char :: "screen \<Rightarrow> u8 \<Rightarrow> display" where
  "dsp_char s c = (if c = 0x92 then (display_of s)\<lparr>shown := fb_block s\<rparr> else dsp_putc (geometry_of s) c (display_of s))"

lemma sstep_any:
  assumes ok: "screen_ok s" and e: "cursor_enabled s \<or> c = 0x92"
  shows "\<exists>t. textPutc c s = Some t \<and> sstep s t (c \<noteq> 0x91) (dsp_char s c)"
proof (cases "c = 0x91 \<or> c = 0x92")
  case True
  with sstep_redraw_cursor [OF ok] sstep_clear_cursor [OF ok] e show ?thesis
    by (auto simp: textPutc_def dsp_putc_def dsp_char_def)
next
  case False
  with sstep_putc [OF ok, of c] e show ?thesis by (simp add: dsp_char_def)
qed

end
