(* ===== verification/Console.thy ===== *)
theory Console
  imports Text_Screen Spinlock
begin

text \<open>
  The kernel console: \<^verbatim>\<open>libc/kernel/console.c\<close>, characters under a lock to the text screen, and
  \<^verbatim>\<open>vkprintf\<close>, the format interpreter with the console as its sink. The console is an instance of the
  contract \<open>sink_sim\<close>, so that what a format puts on the display is the text it produces.
\<close>

datatype console_mode = NORMAL_MODE | EMERGENCY_MODE

record console =
  scr :: screen
  write_cnt :: int
  current_mode :: console_mode
  spin :: u8

definition INT64_MAX :: int where "INT64_MAX = 2 ^ 63 - 1"

definition initConsole :: "console \<Rightarrow> console" where
  "initConsole c = c\<lparr>spin := spinInit (spin c)\<rparr>"

definition consoleSetMode :: "console_mode \<Rightarrow> console \<Rightarrow> console" where
  "consoleSetMode mode c = c\<lparr>current_mode := mode\<rparr>"

definition consoleLock :: "console \<Rightarrow> console option" where
  "consoleLock c = do { l \<leftarrow> spinLock (spin c); Some (c\<lparr>spin := l\<rparr>) }"

definition consoleUnlock :: "console \<Rightarrow> console" where
  "consoleUnlock c = c\<lparr>spin := spinUnlock (spin c)\<rparr>"

definition consolePutcharLocked :: "u8 \<Rightarrow> console \<Rightarrow> console option" where
  "consolePutcharLocked ch c =
     (if write_cnt c = INT64_MAX then None
      else do { s \<leftarrow> textPutc ch (scr c); Some (c\<lparr>write_cnt := write_cnt c + 1, scr := s\<rparr>) })"

definition vkprintf_helper :: "char \<Rightarrow> console \<times> int \<Rightarrow> (console \<times> int) option" where
  "vkprintf_helper ch cn = do {
     let (c, char_cnt) = cn;
     c \<leftarrow> consoleLock c;
     if char_cnt = INT_MAX then None
     else do {
       c \<leftarrow> consolePutcharLocked (of_char ch) c;
       Some (consoleUnlock c, char_cnt + 1) } }"

definition vkprintf :: "string \<Rightarrow> u64 list \<Rightarrow> console \<Rightarrow> (int \<times> console) option" where
  "vkprintf format args c = do {
     (c, char_cnt) \<leftarrow> do_vkprintf (\<lambda>cn. vmem (scr (fst cn))) vkprintf_helper format args (c, 0);
     Some (char_cnt, c) }"

definition consolePrintStats :: "console \<Rightarrow> console option" where
  "consolePrintStats c = map_option snd (vkprintf ''Console: %ld characters output\<newline>'' [of_int (write_cnt c)] c)"

partial_function (option) puts_loop :: "u64 \<Rightarrow> console \<Rightarrow> console option" where
  "puts_loop s c = do {
     ch \<leftarrow> ld8 (vmem (scr c)) s;
     if ch \<noteq> 0 then do { c \<leftarrow> consolePutcharLocked ch c; puts_loop (s + 1) c } else Some c }"

definition consolePuts :: "u64 \<Rightarrow> console \<Rightarrow> console option" where
  "consolePuts s c = do {
     c \<leftarrow> consoleLock c;
     c \<leftarrow> puts_loop s c;
     c \<leftarrow> consolePutcharLocked 0x0A c;
     Some (consoleUnlock c) }"

primrec putbuf_loop :: "nat \<Rightarrow> u64 \<Rightarrow> console \<Rightarrow> console option" where
  "putbuf_loop 0 buffer c = Some c"
| "putbuf_loop (Suc n) buffer c = do {
     ch \<leftarrow> ld8 (vmem (scr c)) buffer;
     c \<leftarrow> consolePutcharLocked ch c;
     putbuf_loop n (buffer + 1) c }"

definition consolePutbuf :: "u64 \<Rightarrow> u64 \<Rightarrow> console \<Rightarrow> console option" where
  "consolePutbuf buffer n c = do {
     c \<leftarrow> consoleLock c;
     c \<leftarrow> putbuf_loop (unat n) buffer c;
     Some (consoleUnlock c) }"

definition consolePutchar :: "u32 \<Rightarrow> console \<Rightarrow> (u32 \<times> console) option" where
  "consolePutchar ch c = do {
     c \<leftarrow> consoleLock c;
     c \<leftarrow> consolePutcharLocked (ucast ch) c;
     Some (ch, consoleUnlock c) }"

declare puts_loop.simps [code]

section \<open>Text on the display\<close>

definition plain :: "u8 \<Rightarrow> bool" where
  "plain ch \<longleftrightarrow> ch \<noteq> 0x91 \<and> ch \<noteq> 0x92"

definition console_rel :: "console \<Rightarrow> u8 list \<Rightarrow> console \<Rightarrow> bool" where
  "console_rel c0 t c \<longleftrightarrow> c = c0\<lparr>scr := scr c, write_cnt := write_cnt c0 + int (length t)\<rparr> \<and>
     sstep (scr c0) (scr c) True (fold (dsp_putc (geometry_of (scr c0))) t (display_of (scr c0)))"

definition console_ready :: "console \<Rightarrow> nat \<Rightarrow> bool" where
  "console_ready c n \<longleftrightarrow> screen_ok (scr c) \<and> cursor_enabled (scr c) \<and> spin c = 0 \<and> write_cnt c + int n \<le> INT64_MAX"

lemma console_rel_start: "console_ready c n \<Longrightarrow> console_rel c [] c"
  using sstep_refl [of "scr c"] by (simp add: console_rel_def console_ready_def)

lemma console_rel_step:
  assumes r: "console_rel c0 t c" and n: "write_cnt c0 + int (length t) < INT64_MAX" and p: "plain ch"
  shows "\<exists>c'. consolePutcharLocked ch c = Some c' \<and> console_rel c0 (t @ [ch]) c'"
proof -
  from r have c: "c = c0\<lparr>scr := scr c, write_cnt := write_cnt c0 + int (length t)\<rparr>"
    and st: "sstep (scr c0) (scr c) True (fold (dsp_putc (geometry_of (scr c0))) t (display_of (scr c0)))"
    by (simp_all add: console_rel_def)
  note D = sstepD [OF st]
  obtain s' where s': "textPutc ch (scr c) = Some s'" "sstep (scr c) s' True (dsp_putc (geometry_of (scr c)) ch (display_of (scr c)))"
    using sstep_putc [of "scr c" ch] D p by (auto simp: plain_def)
  have w: "write_cnt c = write_cnt c0 + int (length t)" by (subst c) simp
  have "c\<lparr>write_cnt := write_cnt c + 1, scr := s'\<rparr> = c0\<lparr>scr := s', write_cnt := write_cnt c0 + int (length (t @ [ch]))\<rparr>"
    by (subst c) (simp add: w)
  moreover have "sstep (scr c0) s' True (fold (dsp_putc (geometry_of (scr c0))) (t @ [ch]) (display_of (scr c0)))"
    using sstep_trans [OF st s'(2)] D by simp
  ultimately show ?thesis
    using s'(1) n w by (simp add: consolePutcharLocked_def console_rel_def)
qed

text \<open>Bytes outside the frame buffer and the save buffer keep their value while text is put on the screen.\<close>

definition off_screen :: "screen \<Rightarrow> u64 set \<Rightarrow> bool" where
  "off_screen s A \<longleftrightarrow> A \<inter> (span (fb_base s) (fb_bytes s) \<union> span (pixels_at_cursor s) 512) = {}"

lemma console_rel_mem:
  assumes "console_rel c0 t c" "off_screen (scr c0) A" "q \<in> A"
  shows "ld8 (vmem (scr c)) q = ld8 (vmem (scr c0)) q"
proof -
  have "elsewhere (scr c0) (scr c)" using assms(1) by (simp add: console_rel_def sstep_def)
  moreover have "q \<notin> span (fb_base (scr c0)) (fb_bytes (scr c0)) \<union> span (pixels_at_cursor (scr c0)) 512"
    using assms(2,3) unfolding off_screen_def by blast
  ultimately show ?thesis unfolding elsewhere_def by blast
qed

lemma console_relD:
  assumes "console_rel c0 t c"
  shows "spin c = spin c0" "write_cnt c = write_cnt c0 + int (length t)" "current_mode c = current_mode c0"
    "sstep (scr c0) (scr c) True (fold (dsp_putc (geometry_of (scr c0))) t (display_of (scr c0)))"
proof -
  from assms have c: "c = c0\<lparr>scr := scr c, write_cnt := write_cnt c0 + int (length t)\<rparr>" by (simp add: console_rel_def)
  show "spin c = spin c0" "write_cnt c = write_cnt c0 + int (length t)" "current_mode c = current_mode c0" by (subst c, simp)+
qed (use assms in \<open>simp add: console_rel_def\<close>)

lemma locked_rel:
  assumes "console_rel (c0\<lparr>spin := BUSY\<rparr>) t c" "spin c0 = 0"
  shows "console_rel c0 t (consoleUnlock c)"
proof -
  have "consoleUnlock c = c0\<lparr>scr := scr c, write_cnt := write_cnt c0 + int (length t)\<rparr>"
    using assms by (cases c; cases c0) (simp add: console_rel_def consoleUnlock_def spinUnlock_def)
  with assms(1) show ?thesis by (simp add: console_rel_def)
qed

lemma putbuf_loop_ok:
  assumes "console_rel c0 t c" "\<forall>ch\<in>set us. plain ch" "off_screen (scr c0) (span buffer (length us))"
    "\<forall>i<length us. ld8 (vmem (scr c0)) (buffer + of_nat i) = Some (us ! i)"
    "write_cnt c0 + int (length t + length us) \<le> INT64_MAX"
  shows "\<exists>c'. putbuf_loop (length us) buffer c = Some c' \<and> console_rel c0 (t @ us) c'"
  using assms
proof (induction us arbitrary: t c buffer)
  case Nil
  then show ?case by simp
next
  case (Cons u us)
  have "buffer \<in> span buffer (length (u # us))" using span_mem [of 0 "length (u # us)" buffer] by simp
  then have u: "ld8 (vmem (scr c)) buffer = Some u"
    using console_rel_mem [OF Cons.prems(1,3)] Cons.prems(4) by fastforce
  obtain c1 where c1: "consolePutcharLocked u c = Some c1" "console_rel c0 (t @ [u]) c1"
    using console_rel_step [OF Cons.prems(1)] Cons.prems(2,5) by auto
  have "\<exists>c'. putbuf_loop (length us) (buffer + 1) c1 = Some c' \<and> console_rel c0 ((t @ [u]) @ us) c'"
  proof (rule Cons.IH [OF c1(2)])
    show "off_screen (scr c0) (span (buffer + 1) (length us))"
      using Cons.prems(3) span_subset [of 1 "length us" "length (u # us)" buffer] unfolding off_screen_def by auto
    show "\<forall>i<length us. ld8 (vmem (scr c0)) (buffer + 1 + of_nat i) = Some (us ! i)"
    proof (intro allI impI)
      fix i assume "i < length us"
      with Cons.prems(4) [rule_format, of "Suc i"] show "ld8 (vmem (scr c0)) (buffer + 1 + of_nat i) = Some (us ! i)"
        by (simp add: add.assoc)
    qed
  qed (use Cons.prems in auto)
  then show ?case using u c1(1) by simp
qed

definition con_append :: "char \<Rightarrow> string \<Rightarrow> string option" where
  "con_append ch t = (if int (length t) < INT_MAX \<and> plain (of_char ch) then Some (t @ [ch]) else None)"

definition console_text :: "mem \<Rightarrow> string \<Rightarrow> u64 list \<Rightarrow> string option" where
  "console_text m format args = do_vkprintf (\<lambda>_. m) con_append format args []"

definition con_rel :: "mem \<Rightarrow> console \<Rightarrow> string \<Rightarrow> console \<times> int \<Rightarrow> bool" where
  "con_rel m c0 t cn \<longleftrightarrow> console_rel c0 (map of_char t) (fst cn) \<and> snd cn = int (length t) \<and> spin c0 = 0 \<and>
     write_cnt c0 + INT_MAX \<le> INT64_MAX \<and> byte_le m (vmem (scr c0)) \<and> off_screen (scr c0) {p. ld8 m p \<noteq> None}"

lemma con_step:
  assumes r: "con_rel m c0 t cn" and a: "con_append ch t = Some t'"
  shows "\<exists>cn'. vkprintf_helper ch cn = Some cn' \<and> con_rel m c0 t' cn'"
proof -
  obtain c n where cn: "cn = (c, n)" by (cases cn)
  from r have rel: "console_rel c0 (map of_char t) c" and n: "n = int (length t)" and l: "spin c0 = 0"
    and w: "write_cnt c0 + INT_MAX \<le> INT64_MAX" by (simp_all add: con_rel_def cn)
  from a have t': "t' = t @ [ch]" "int (length t) < INT_MAX" "plain (of_char ch)" by (auto simp: con_append_def split: if_splits)
  have sc: "spin c = 0" using console_relD(1) [OF rel] l by simp
  have "console_rel (c0\<lparr>spin := BUSY\<rparr>) (map of_char t) (c\<lparr>spin := BUSY\<rparr>)"
    using rel by (cases c; cases c0) (simp add: console_rel_def)
  then obtain c1 where c1: "consolePutcharLocked (of_char ch) (c\<lparr>spin := BUSY\<rparr>) = Some c1"
      "console_rel (c0\<lparr>spin := BUSY\<rparr>) (map of_char t @ [of_char ch]) c1"
    using console_rel_step [of "c0\<lparr>spin := BUSY\<rparr>" "map of_char t" "c\<lparr>spin := BUSY\<rparr>" "of_char ch"] t' w by auto
  from locked_rel [OF c1(2) l] have "console_rel c0 (map of_char t') (consoleUnlock c1)" by (simp add: t')
  then have "con_rel m c0 t' (consoleUnlock c1, n + 1)" using r by (simp add: con_rel_def t' n)
  then show ?thesis
    using c1(1) t'(2) by (simp add: vkprintf_helper_def cn consoleLock_def spinLock_ok sc n)
qed

interpretation con: sink_sim "\<lambda>_. m" con_append "\<lambda>cn. vmem (scr (fst cn))" vkprintf_helper "con_rel m c0" for m c0
proof
  show "byte_le m (vmem (scr (fst t)))" if r: "con_rel m c0 s t" for s t
  proof -
    have rel: "console_rel c0 (map of_char s) (fst t)" "byte_le m (vmem (scr c0))" "off_screen (scr c0) {p. ld8 m p \<noteq> None}"
      using r by (simp_all add: con_rel_def)
    show ?thesis using console_rel_mem [OF rel(1,3)] rel(2) by (simp add: byte_le_def)
  qed
qed (rule con_step)


lemma consolePutbuf_ok:
  assumes "console_ready c (length us)" "\<forall>ch\<in>set us. plain ch" "off_screen (scr c) (span buffer (length us))"
    "\<forall>i<length us. ld8 (vmem (scr c)) (buffer + of_nat i) = Some (us ! i)" "length us < 2 ^ 64"
  shows "\<exists>c'. consolePutbuf buffer (of_nat (length us)) c = Some c' \<and> console_rel c us c'"
proof -
  let ?c = "c\<lparr>spin := BUSY\<rparr>"
  have "console_rel ?c [] ?c" using assms(1) sstep_refl [of "scr c"] by (simp add: console_rel_def console_ready_def)
  then obtain c' where c': "putbuf_loop (length us) buffer ?c = Some c'" "console_rel ?c ([] @ us) c'"
    using putbuf_loop_ok [of ?c "[]" ?c us buffer] assms by (auto simp: console_ready_def)
  have "spin c = 0" using assms(1) by (simp add: console_ready_def)
  with c' locked_rel [of c us c'] assms(5) show ?thesis
    by (simp add: consolePutbuf_def consoleLock_def spinLock_ok unat_of_nat)
qed

section \<open>Properties\<close>

lemma span_iff: "unat p + n \<le> 2 ^ 64 \<Longrightarrow> q \<in> span p n \<longleftrightarrow> unat p \<le> unat q \<and> unat q < unat p + n"
proof
  assume w: "unat p + n \<le> 2 ^ 64"
  show "unat p \<le> unat q \<and> unat q < unat p + n" if "q \<in> span p n"
    using that by (rule span_E) (use unat_offset [OF w] in simp)
  assume q: "unat p \<le> unat q \<and> unat q < unat p + n"
  then have "q = p + of_nat (unat q - unat p)" by (simp add: of_nat_diff)
  moreover have "unat q - unat p < n" using q by arith
  ultimately show "q \<in> span p n" using span_mem by metis
qed

definition demo_screen :: screen where
  "demo_screen = \<lparr>vmem = (\<lambda>p. Some 0), fb_base = 0x100000, fb_w = 1024, fb_h = 768, fb_p = 4096, fb_bpp = 4,
     cursor_x = 4, cursor_y = 4, background_color = 0, foreground_color = 0xFFFFFFFF, current_font = 0x4000,
     pixels_at_cursor = 0x1000, cursor_enabled = True, module_response = 0x8000, font_path = 0x9000\<rparr>"

lemma demo_screen_ok: "screen_ok demo_screen" "cursor_enabled demo_screen"
proof -
  have m: "ld8 (vmem demo_screen) p \<noteq> None" for p by (simp add: demo_screen_def ld8_def)
  have "span (0x100000 :: u64) 3145728 \<inter> span 0x1000 512 = {}"
    by (auto simp: span_iff)
  moreover have "span (0x4000 :: u64) 4096 \<inter> (span 0x100000 3145728 \<union> span 0x1000 512) = {}"
    by (auto simp: span_iff)
  ultimately show "screen_ok demo_screen"
    using m by (simp add: screen_ok_def video_ok_def geometry_ok_def fb_bytes_def bufs_def font_ok_def on_grid_def region_def)
      (simp add: demo_screen_def)
  show "cursor_enabled demo_screen" by (simp add: demo_screen_def)
qed

lemma dsp_putc_plain:
  assumes "ch \<in> {0x20..0x7E}" "pos_x d + 22 \<le> gw g"
  shows "pos_x (dsp_putc g ch d) = pos_x d + 10"
proof -
  have "ch \<noteq> 0x0A" "ch \<noteq> 0x08" "ch \<noteq> 0x86" "ch \<noteq> 0x87" "ch \<noteq> 0x88" "ch \<noteq> 0x89" "ch \<noteq> 0x90" "ch \<noteq> 0x91" "ch \<noteq> 0x92" using assms(1) by auto
  with assms(2) show ?thesis by (simp add: dsp_putc_def dsp_advance_def dsp_edge_def dsp_draw_def)
qed

lemma demo_geometry: "gw (geometry_of demo_screen) = 1024" "pos_x (display_of demo_screen) = 4"
  by (simp_all add: demo_screen_def)

text \<open>
  C9: on a screen whose frame buffer is mapped, whose cursor is on the grid and
  is shown, each of the 256 characters does to the display (the picture without the cursor block, and
  the cursor) what the abstract terminal does: glyphs are drawn in the cell at the cursor, the line is
  broken at the right margin, the picture is scrolled by one line at the bottom, backspace erases, the cursor
  keys move, 0x90 clears the screen and 0x91 hides the cursor without touching the picture. 0x92 shows the cursor again,
  with the contents of the frame buffer as the picture: that is the old picture when the cursor was hidden,
  and has the cursor block in it when it was not.
  The invariant is kept, and no byte outside the frame buffer and the save buffer of the cursor changes.
  The case left out is a character other than 0x92 while the cursor is hidden: \<^verbatim>\<open>textClearCursor\<close> then paints the save
  buffer over the cell.
\<close>
theorem textPutc_correct:
  assumes "screen_ok s" and "cursor_enabled s \<or> c = 0x92"
  shows "\<exists>t. textPutc c s = Some t \<and> screen_ok t \<and> cursor_enabled t = (c \<noteq> 0x91) \<and>
     display_of t = (if c = 0x92 then (display_of s)\<lparr>shown := fb_block s\<rparr> else dsp_putc (geometry_of s) c (display_of s)) \<and>
     geometry_of t = geometry_of s \<and>
     (\<forall>q. q \<notin> span (fb_base s) (fb_bytes s) \<union> span (pixels_at_cursor s) 512 \<longrightarrow> ld8 (vmem t) q = ld8 (vmem s) q)"
  using sstep_any [OF assms] by (auto simp: sstep_def elsewhere_def dsp_char_def)

theorem textPutc_correct_witness:
  "\<exists>t u. textPutc 0x41 demo_screen = Some t \<and> screen_ok t \<and> pos_x (display_of t) = 14 \<and>
     textPutc 0x91 t = Some u \<and> \<not> cursor_enabled u \<and> display_of u = display_of t"
proof -
  obtain t where t: "textPutc 0x41 demo_screen = Some t" "screen_ok t" "cursor_enabled t"
      "display_of t = dsp_putc (geometry_of demo_screen) 0x41 (display_of demo_screen)"
    using textPutc_correct [of demo_screen "0x41"] demo_screen_ok by auto
  moreover have "pos_x (display_of t) = 14"
    using t(4) dsp_putc_plain [of "0x41" "display_of demo_screen" "geometry_of demo_screen"] demo_geometry by (auto simp del: display_pos)
  moreover have "\<exists>u. textPutc 0x91 t = Some u \<and> \<not> cursor_enabled u \<and> display_of u = display_of t"
    using textPutc_correct [of t "0x91"] t(2,3) by (auto simp: dsp_putc_def)
  ultimately show ?thesis by blast
qed

text \<open>
  Drawing the cursor and taking it away again leaves every byte of the frame
  buffer as it was, wherever the cursor stands on the screen.
\<close>
theorem cursor_roundtrip:
  assumes "video_ok s" and "font_ok s" and "cursor_in s"
  shows "\<exists>t u. textDrawCursor s = Some t \<and> textClearCursor t = Some u \<and>
     (\<forall>k<fb_bytes s. ld8 (vmem u) (fb_base s + of_nat k) = ld8 (vmem s) (fb_base s + of_nat k))"
proof -
  let ?x = "unat (cursor_x s)" and ?y = "unat (cursor_y s)"
  obtain m where m: "textDrawCursor s = Some (s\<lparr>vmem := m, cursor_enabled := True\<rparr>)"
      "vstep s m (painted s (in_cell ?x ?y) (char_color s 219 ?x ?y) (fb_block s)) (saved s ?x ?y 16 (fb_block s) (pix_block s))"
    using textDrawCursor_ok [OF assms] by blast
  let ?t = "s\<lparr>vmem := m, cursor_enabled := True\<rparr>"
  have t: "video_ok ?t" "cursor_in ?t" using vstep_video [OF assms(1) m(2)] assms(3) by (simp_all add: cursor_in_def)
  obtain m' where m': "textClearCursor ?t = Some (?t\<lparr>vmem := m', cursor_enabled := False\<rparr>)"
      "vstep ?t m' (restored s ?x ?y 16 (pix_block ?t) (fb_block ?t)) (\<lambda>i. if i < 512 then Some 0 else None)"
    using textClearCursor_ok [OF t] by auto
  have g: "geometry_ok s" "?x + 8 \<le> unat (fb_w s)" using assms by (simp_all add: video_ok_def cursor_in_def)
  have "block (fb_base s) (fb_bytes s) m' = fb_block s"
    using m(2) m'(2) restored_saved [OF g] by (simp add: bstep_def)
  then have "ld8 m' (fb_base s + of_nat k) = ld8 (vmem s) (fb_base s + of_nat k)" if "k < fb_bytes s" for k
    using that by (metis block_def)
  with m(1) m'(1) show ?thesis by simp
qed

theorem cursor_roundtrip_witness:
  "\<exists>t u. textDrawCursor demo_screen = Some t \<and> textClearCursor t = Some u \<and>
     (\<forall>k<3145728. ld8 (vmem u) (0x100000 + of_nat k) = Some 0)"
proof -
  have "fb_bytes demo_screen = 3145728" "fb_base demo_screen = 0x100000" "ld8 (vmem demo_screen) q = Some 0" for q
    by (simp_all add: demo_screen_def fb_bytes_def ld8_def)
  then show ?thesis
    using cursor_roundtrip [of demo_screen] screen_okD [OF demo_screen_ok(1)] by simp
qed

text \<open>
  C17: formatted output to the console. When the format produces the text \<open>t\<close> from a
  memory that holds the string arguments and none of the screen, \<^verbatim>\<open>vkprintf\<close> returns the number of
  its characters, the display becomes the one with those characters put in order, the counter of written
  characters grows by their number and the lock is free again.
\<close>
theorem vkprintf_correct:
  assumes "screen_ok (scr c)" and "cursor_enabled (scr c)" and "spin c = 0" and "write_cnt c + INT_MAX \<le> INT64_MAX"
    and "byte_le m (vmem (scr c))" and "off_screen (scr c) {p. ld8 m p \<noteq> None}" and "console_text m format args = Some t"
  shows "\<exists>c'. vkprintf format args c = Some (int (length t), c') \<and> screen_ok (scr c') \<and> cursor_enabled (scr c') \<and>
     display_of (scr c') = fold (dsp_putc (geometry_of (scr c))) (map of_char t) (display_of (scr c)) \<and>
     write_cnt c' = write_cnt c + int (length t) \<and> spin c' = 0"
proof -
  have "console_ready c 0" using assms by (simp add: console_ready_def INT_MAX_def)
  then have "con_rel m c [] (c, 0)" using assms console_rel_start by (simp add: con_rel_def)
  then obtain cn where cn: "do_vkprintf (\<lambda>cn. vmem (scr (fst cn))) vkprintf_helper format args (c, 0) = Some cn" "con_rel m c t cn"
    using con.do_vkprintf_sim [of m format args "[]" t c] assms(7) unfolding console_text_def by blast
  obtain c' n where c': "cn = (c', n)" by (cases cn)
  have rel: "console_rel c (map of_char t) c'" "n = int (length t)" using cn(2) by (simp_all add: con_rel_def c')
  show ?thesis
    using cn(1) rel(2) console_relD [OF rel(1)] assms(3) by (auto simp: vkprintf_def c' sstep_def)
qed

definition demo_console :: console where
  "demo_console = \<lparr>scr = demo_screen, write_cnt = 0, current_mode = NORMAL_MODE, spin = 0\<rparr>"

theorem vkprintf_correct_witness:
  "\<exists>c'. vkprintf ''n=%d'' [7] demo_console = Some (3, c') \<and> write_cnt c' = 3 \<and> pos_x (display_of (scr c')) = 34"
proof -
  have t: "console_text Map.empty ''n=%d'' [7] = Some ''n=7''" unfolding console_text_def by code_simp
  have "off_screen (scr demo_console) {p. ld8 Map.empty p \<noteq> None}" "byte_le Map.empty (vmem (scr demo_console))"
    by (simp_all add: off_screen_def byte_le_def ld8_def)
  then obtain c' where "vkprintf ''n=%d'' [7] demo_console = Some (int (length ''n=7''), c')"
      "display_of (scr c') = fold (dsp_putc (geometry_of demo_screen)) (map of_char ''n=7'') (display_of demo_screen)" "write_cnt c' = 3"
    using vkprintf_correct [of demo_console Map.empty "''n=%d''" "[7]" "''n=7''"] t demo_screen_ok
    by (auto simp: demo_console_def INT_MAX_def INT64_MAX_def)
  moreover have "pos_x (fold (dsp_putc (geometry_of demo_screen)) (map of_char ''n=7'') (display_of demo_screen)) = 34"
    using demo_geometry by (simp add: dsp_putc_plain del: display_pos geometry_of_sel)
  ultimately show ?thesis by (auto simp del: display_pos)
qed

end
