(* ===== verification/Descriptors.thy ===== *)
theory Descriptors
  imports Ports Spinlock Pmm_Init
begin

text \<open>
  Descriptor tables: \<^verbatim>\<open>boot/gdt/gdt.c\<close>, \<^verbatim>\<open>boot/tss/tss.c\<close>, \<^verbatim>\<open>boot/interrupts/idt.c\<close> and
  \<^verbatim>\<open>boot/interrupts/isr.c\<close>. A descriptor is the 8 or 16 bytes the CPU reads; the GDTs of all CPUs are one
  array, as the compiler lays out \<^verbatim>\<open>gdt[NCPU_MAX][GDT_MAX_DESCRIPTORS]\<close>, so that a store one past a CPU's
  table lands in the next one. The decoding functions are the CPU's reading of the fields.
\<close>

section \<open>Global descriptor table\<close>

definition NCPU_MAX :: nat where "NCPU_MAX = 8"
definition GDT_MAX_DESCRIPTORS :: nat where "GDT_MAX_DESCRIPTORS = 0x20"
definition GDT_DESCRIPTOR_SIZE :: u16 where "GDT_DESCRIPTOR_SIZE = 8"

definition GDT_DESCRIPTOR_ACCESS :: u8 where "GDT_DESCRIPTOR_ACCESS = 0x01"
definition GDT_DESCRIPTOR_READWRITE :: u8 where "GDT_DESCRIPTOR_READWRITE = 0x02"
definition GDT_DESCRIPTOR_EXECUTABLE :: u8 where "GDT_DESCRIPTOR_EXECUTABLE = 0x08"
definition GDT_DESCRIPTOR_CODE_DATA :: u8 where "GDT_DESCRIPTOR_CODE_DATA = 0x10"
definition GDT_DESCRIPTOR_DPL :: u8 where "GDT_DESCRIPTOR_DPL = 0x60"
definition GDT_DESCRIPTOR_PRESENT :: u8 where "GDT_DESCRIPTOR_PRESENT = 0x80"
definition GDT_GRANULARITY_X64 :: u8 where "GDT_GRANULARITY_X64 = 0x20"
definition GDT_GRANULARITY_X32 :: u8 where "GDT_GRANULARITY_X32 = 0x40"
definition GDT_GRANULARITY_4K :: u8 where "GDT_GRANULARITY_4K = 0x80"
definition GDT_BASIC_DESCRIPTOR :: u8 where
  "GDT_BASIC_DESCRIPTOR = GDT_DESCRIPTOR_PRESENT OR GDT_DESCRIPTOR_READWRITE OR GDT_DESCRIPTOR_CODE_DATA"
definition GDT_OFFSET_KERNEL_CODE64 :: u16 where "GDT_OFFSET_KERNEL_CODE64 = 0x05 * 0x08"
definition TSS_SIZE :: u32 where "TSS_SIZE = 0x70"

text \<open>The 8 bytes of a \<^verbatim>\<open>gdt_desc_t\<close>, and of the first half of a \<^verbatim>\<open>gdt_tss_desc_t\<close>, which has the same layout.\<close>

definition pack_desc :: "u16 \<Rightarrow> u16 \<Rightarrow> u8 \<Rightarrow> u8 \<Rightarrow> u8 \<Rightarrow> u8 \<Rightarrow> u64" where
  "pack_desc limit base_low base_mid flags granularity base_high =
     ucast limit OR push_bit 16 (ucast base_low) OR push_bit 32 (ucast base_mid) OR push_bit 40 (ucast flags) OR
     push_bit 48 (ucast granularity) OR push_bit 56 (ucast base_high)"

record gdt_state =
  gdt :: "u64 list"
  gdt_address :: u64
  gindex :: "u16 list"
  gdtr :: "u16 \<times> u64"
  gdt_lock :: u8
  cpu_gdt :: "u64 list"

definition gdt_slot :: "nat \<Rightarrow> u16 \<Rightarrow> nat" where
  "gdt_slot num_cpu i = num_cpu * GDT_MAX_DESCRIPTORS + unat i"

definition gdtAddDescriptor :: "u64 \<Rightarrow> u64 \<Rightarrow> u32 \<Rightarrow> u8 \<Rightarrow> u8 \<Rightarrow> gdt_state \<Rightarrow> gdt_state option" where
  "gdtAddDescriptor num_cpu base limit access granularity s = do {
     i \<leftarrow> get_at (gindex s) (unat num_cpu);
     if unat i \<ge> GDT_MAX_DESCRIPTORS then Some s
     else do {
       g \<leftarrow> put_at (gdt s) (gdt_slot (unat num_cpu) i)
              (pack_desc (ucast (limit AND 0xFFFF)) (ucast (base AND 0xFFFF)) (ucast (drop_bit 16 base AND 0xFF)) access
                 (granularity OR ucast (drop_bit 16 limit AND 0x0F)) (ucast (drop_bit 24 base AND 0xFF)));
       gi \<leftarrow> put_at (gindex s) (unat num_cpu) (i + 1);
       Some (s\<lparr>gdt := g, gindex := gi\<rparr>) } }"

definition initGDT :: "u64 \<Rightarrow> gdt_state \<Rightarrow> gdt_state option" where
  "initGDT num_cpu s = do {
     l \<leftarrow> spinLock (gdt_lock s);
     let s = s\<lparr>gdt_lock := l,
               gdtr := (8 * of_nat GDT_MAX_DESCRIPTORS - 1, gdt_address s + 8 * (num_cpu * of_nat GDT_MAX_DESCRIPTORS))\<rparr>;
     s \<leftarrow> gdtAddDescriptor num_cpu 0 0 0 0 s;
     s \<leftarrow> gdtAddDescriptor num_cpu 0 0xFFFF (GDT_BASIC_DESCRIPTOR OR GDT_DESCRIPTOR_EXECUTABLE) 0 s;
     s \<leftarrow> gdtAddDescriptor num_cpu 0 0xFFFF GDT_BASIC_DESCRIPTOR 0 s;
     s \<leftarrow> gdtAddDescriptor num_cpu 0 0xFFFFF (GDT_BASIC_DESCRIPTOR OR GDT_DESCRIPTOR_EXECUTABLE)
            (GDT_GRANULARITY_4K OR GDT_GRANULARITY_X32) s;
     s \<leftarrow> gdtAddDescriptor num_cpu 0 0xFFFFF GDT_BASIC_DESCRIPTOR (GDT_GRANULARITY_4K OR GDT_GRANULARITY_X32) s;
     s \<leftarrow> gdtAddDescriptor num_cpu 0 0 (GDT_BASIC_DESCRIPTOR OR GDT_DESCRIPTOR_EXECUTABLE) GDT_GRANULARITY_X64 s;
     s \<leftarrow> gdtAddDescriptor num_cpu 0 0 GDT_BASIC_DESCRIPTOR 0 s;
     s \<leftarrow> gdtAddDescriptor num_cpu 0 0 (GDT_BASIC_DESCRIPTOR OR GDT_DESCRIPTOR_DPL) 0 s;
     s \<leftarrow> gdtAddDescriptor num_cpu 0 0 (GDT_BASIC_DESCRIPTOR OR GDT_DESCRIPTOR_DPL OR GDT_DESCRIPTOR_EXECUTABLE)
            GDT_GRANULARITY_X64 s;
     Some (s\<lparr>gdt_lock := spinUnlock (gdt_lock s)\<rparr>) }"

definition gdtInstallTSS :: "u64 \<Rightarrow> nat \<Rightarrow> gdt_state \<Rightarrow> (u16 \<times> gdt_state) option" where
  "gdtInstallTSS tss num_cpu s = do {
     let tss_type = GDT_DESCRIPTOR_ACCESS OR GDT_DESCRIPTOR_EXECUTABLE OR GDT_DESCRIPTOR_PRESENT;
     i \<leftarrow> get_at (gindex s) num_cpu;
     if unat i \<ge> GDT_MAX_DESCRIPTORS then Some (0, s)
     else do {
       g \<leftarrow> put_at (gdt s) (gdt_slot num_cpu i)
              (pack_desc (ucast (TSS_SIZE AND 0xFFFF)) (ucast (tss AND 0xFFFF)) (ucast (drop_bit 16 (tss AND 0xFF0000))) tss_type
                 (ucast (drop_bit 16 (TSS_SIZE AND 0xF0000))) (ucast (drop_bit 24 (tss AND 0xFF000000))));
       g \<leftarrow> put_at g (gdt_slot num_cpu i + 1) (ucast (ucast (drop_bit 32 tss) :: u32));
       cg \<leftarrow> put_at (cpu_gdt s) num_cpu (gdt_address s + 8 * (of_nat num_cpu * of_nat GDT_MAX_DESCRIPTORS));
       gi \<leftarrow> put_at (gindex s) num_cpu (i + 2);
       Some ((i + 2 - 2) * GDT_DESCRIPTOR_SIZE, s\<lparr>gdt := g, cpu_gdt := cg, gindex := gi\<rparr>) } }"

section \<open>Task state segments\<close>

definition TSS_IST_EXCEPTION :: u8 where "TSS_IST_EXCEPTION = 1"
definition TSS_IST_ROUTINE :: u8 where "TSS_IST_ROUTINE = 2"

record tss_t =
  rsp :: "u64 list"
  ist :: "u64 list"
  io_map :: u16

record tss_state =
  tss_descriptors :: "tss_t list"
  tss_address :: u64
  ist_index :: "u8 list"
  tss_lock :: u8
  cpu_tss :: "u64 list"




definition tssGetStack :: "nat \<Rightarrow> u8 \<Rightarrow> tss_state \<Rightarrow> u64 option" where
  "tssGetStack num_cpu i t = do { d \<leftarrow> get_at (tss_descriptors t) num_cpu; get_at (ist d) (unat i) }"

section \<open>Interrupt descriptor table\<close>

definition IDT_MAX_DESCRIPTORS :: nat where "IDT_MAX_DESCRIPTORS = 256"
definition IDT_DESCRIPTOR_EXCEPTION :: u8 where "IDT_DESCRIPTOR_EXCEPTION = 0x0F OR 0x80"
definition IDT_DESCRIPTOR_EXTERNAL :: u8 where "IDT_DESCRIPTOR_EXTERNAL = 0x0E OR 0x80"

record idt_desc_t =
  base_low :: u16
  cs :: u16
  ist_no :: u8
  attributes :: u8
  base_mid :: u16
  base_high :: u32
  rsv0 :: u32

record idt_state =
  idt :: "idt_desc_t list"
  idt_address :: u64
  idtr :: "u16 \<times> u64"
  interrupt_handlers :: "u64 list"

definition idtSetDescriptor :: "u8 \<Rightarrow> u64 \<Rightarrow> u8 \<Rightarrow> u8 \<Rightarrow> idt_state \<Rightarrow> idt_state option" where
  "idtSetDescriptor vector isr flags i s = do {
     d \<leftarrow> put_at (idt s) (unat vector)
            \<lparr>base_low = ucast (isr AND 0xFFFF), cs = GDT_OFFSET_KERNEL_CODE64, ist_no = i, attributes = flags,
             base_mid = ucast (drop_bit 16 isr AND 0xFFFF), base_high = ucast (drop_bit 32 isr AND 0xFFFFFFFF), rsv0 = 0\<rparr>;
     Some (s\<lparr>idt := d\<rparr>) }"

text \<open>The table of entry stubs is assembly code: a parameter.\<close>

definition isrInstall :: "u64 list \<Rightarrow> idt_state \<Rightarrow> idt_state option" where
  "isrInstall isr_stub_table s =
     for_each (\<lambda>vector s. do {
         stub \<leftarrow> get_at isr_stub_table vector;
         idtSetDescriptor (of_nat vector) stub IDT_DESCRIPTOR_EXCEPTION TSS_IST_EXCEPTION s }) [0..<32] s"

definition initIDT :: "u64 list \<Rightarrow> idt_state \<Rightarrow> idt_state option" where
  "initIDT isr_stub_table s =
     isrInstall isr_stub_table (s\<lparr>idtr := (16 * of_nat IDT_MAX_DESCRIPTORS - 1, idt_address s)\<rparr>)"

definition irqRegisterHandler :: "u64 list \<Rightarrow> u8 \<Rightarrow> u64 \<Rightarrow> idt_state \<Rightarrow> idt_state option" where
  "irqRegisterHandler isr_stub_table n handler s = do {
     hs \<leftarrow> put_at (interrupt_handlers s) (unat n) handler;
     stub \<leftarrow> get_at isr_stub_table (unat n);
     idtSetDescriptor n stub IDT_DESCRIPTOR_EXTERNAL TSS_IST_ROUTINE (s\<lparr>interrupt_handlers := hs\<rparr>) }"

text \<open>
  The exception handler: \<open>page_fault\<close> is \<^verbatim>\<open>isrPageFaultHandler\<close>, \<open>kprintf\<close> the console, \<open>apic_id\<close> the value of the
  APIC id register and \<open>exception_messages\<close> the addresses of the 32 messages. After printing the CPU halts
  for good, with interrupts off.
\<close>

datatype 's isr_outcome = Handled 's | Halted 's

definition isrHandler ::
    "('s \<Rightarrow> 's option) \<Rightarrow> (string \<Rightarrow> u64 list \<Rightarrow> 's \<Rightarrow> 's option) \<Rightarrow> u32 \<Rightarrow> u64 list \<Rightarrow> u64 \<Rightarrow> u64 \<Rightarrow> u64 \<Rightarrow> 's \<Rightarrow> 's isr_outcome option" where
  "isrHandler page_fault kprintf apic_id exception_messages vector error_code rip s =
     (if vector = 0xE then map_option Handled (page_fault s)
      else do {
        s \<leftarrow> kprintf ''received interrupt: %ld from CPU %d\<newline>'' [vector, ucast (drop_bit 24 apic_id)] s;
        msg \<leftarrow> get_at exception_messages (unat vector);
        s \<leftarrow> kprintf ''[%s] with error code: %lx @ %lx\<newline>'' [msg, error_code, rip] s;
        Some (Halted s) })"

section \<open>The CPU's reading of a descriptor\<close>

definition desc_limit :: "u64 \<Rightarrow> u32" where
  "desc_limit w = ucast (w AND mask 16) OR push_bit 16 (ucast (drop_bit 48 w AND mask 4))"
definition desc_base :: "u64 \<Rightarrow> u32" where
  "desc_base w = ucast (drop_bit 16 w AND mask 24) OR push_bit 24 (ucast (drop_bit 56 w))"
definition desc_access :: "u64 \<Rightarrow> u8" where "desc_access w = ucast (drop_bit 40 w)"
definition desc_flags :: "u64 \<Rightarrow> u8" where "desc_flags w = ucast (drop_bit 52 w AND mask 4)"
definition tss_base_of :: "u64 \<Rightarrow> u64 \<Rightarrow> u64" where
  "tss_base_of lo hi = ucast (desc_base lo) OR push_bit 32 hi"
definition gate_offset :: "idt_desc_t \<Rightarrow> u64" where
  "gate_offset d = ucast (base_low d) OR push_bit 16 (ucast (base_mid d)) OR push_bit 32 (ucast (base_high d))"

lemma byte_masks:
  "(0xFFFF :: u64) = mask 16" "(0xFF :: u64) = mask 8" "(0xFFFFFFFF :: u64) = mask 32"
  "(0xFFFF :: u32) = mask 16" "(0x0F :: u32) = mask 4" "(0xFF0000 :: u64) = push_bit 16 (mask 8)"
  "(0xFF000000 :: u64) = push_bit 24 (mask 8)"
  by (simp_all add: mask_eq_exp_minus_1 push_bit_eq_mult)

lemma bit_pack_desc:
  "bit (pack_desc l b0 b1 f g b2) n =
     (if n < 16 then bit l n else if n < 32 then bit b0 (n - 16) else if n < 40 then bit b1 (n - 32)
      else if n < 48 then bit f (n - 40) else if n < 56 then bit g (n - 48) else n < 64 \<and> bit b2 (n - 56))"
proof -
  consider "n < 16" | "16 \<le> n" "n < 32" | "32 \<le> n" "n < 40" | "40 \<le> n" "n < 48" | "48 \<le> n" "n < 56" | "56 \<le> n" "n < 64" | "64 \<le> n"
    by linarith
  then show ?thesis
    by cases (auto simp: pack_desc_def bit_simps bit_above)
qed

lemma pack_unpack:
  shows "desc_access (pack_desc l b0 b1 f g b2) = f"
    and "desc_base (pack_desc l b0 b1 f g b2) = ucast b0 OR push_bit 16 (ucast b1) OR push_bit 24 (ucast b2)"
    and "desc_limit (pack_desc l b0 b1 f g b2) = ucast l OR push_bit 16 (ucast (g AND mask 4))"
    and "desc_flags (pack_desc l b0 b1 f g b2) = drop_bit 4 g"
proof -
  show "desc_access (pack_desc l b0 b1 f g b2) = f"
    by (rule bit_word_eqI) (simp add: desc_access_def bit_simps bit_pack_desc)
  show "desc_flags (pack_desc l b0 b1 f g b2) = drop_bit 4 g"
    by (rule bit_word_eqI) (auto simp: desc_flags_def bit_simps bit_pack_desc bit_above)
  show "desc_limit (pack_desc l b0 b1 f g b2) = ucast l OR push_bit 16 (ucast (g AND mask 4))"
  proof (rule bit_word_eqI)
    fix n assume "n < LENGTH(32)"
    then show "bit (desc_limit (pack_desc l b0 b1 f g b2)) n = bit (ucast l OR push_bit 16 (ucast (g AND mask 4)) :: u32) n"
      by (cases "n < 16") (auto simp: desc_limit_def bit_simps bit_pack_desc bit_above)
  qed
  show "desc_base (pack_desc l b0 b1 f g b2) = ucast b0 OR push_bit 16 (ucast b1) OR push_bit 24 (ucast b2)"
  proof (rule bit_word_eqI)
    fix n assume n: "n < LENGTH(32)"
    consider "n < 16" | "16 \<le> n" "n < 24" | "24 \<le> n" by linarith
    then show "bit (desc_base (pack_desc l b0 b1 f g b2)) n = bit (ucast b0 OR push_bit 16 (ucast b1) OR push_bit 24 (ucast b2) :: u32) n"
      using n by cases (auto simp: desc_base_def bit_simps bit_pack_desc bit_above)
  qed
qed

definition gdt_wf :: "gdt_state \<Rightarrow> bool" where
  "gdt_wf s \<longleftrightarrow> length (gdt s) = NCPU_MAX * GDT_MAX_DESCRIPTORS \<and> length (gindex s) = NCPU_MAX \<and> length (cpu_gdt s) = NCPU_MAX"

lemmas gdt_sizes = gdt_wf_def NCPU_MAX_def GDT_MAX_DESCRIPTORS_def

definition add_desc :: "nat \<Rightarrow> u64 \<Rightarrow> gdt_state \<Rightarrow> gdt_state" where
  "add_desc n w s = s\<lparr>gdt := (gdt s)[gdt_slot n (gindex s ! n) := w], gindex := (gindex s)[n := gindex s ! n + 1]\<rparr>"

lemma add_desc_wf [simp]: "gdt_wf (add_desc n w s) = gdt_wf s"
  by (simp add: gdt_wf_def add_desc_def)

definition segment_word :: "u64 \<Rightarrow> u32 \<Rightarrow> u8 \<Rightarrow> u8 \<Rightarrow> u64" where
  "segment_word base limit access granularity =
     pack_desc (ucast (limit AND 0xFFFF)) (ucast (base AND 0xFFFF)) (ucast (drop_bit 16 base AND 0xFF)) access
       (granularity OR ucast (drop_bit 16 limit AND 0x0F)) (ucast (drop_bit 24 base AND 0xFF))"

lemma gdtAddDescriptor_ok:
  assumes "gdt_wf s" "n < NCPU_MAX" "unat (gindex s ! n) < GDT_MAX_DESCRIPTORS"
  shows "gdtAddDescriptor (of_nat n) base limit access granularity s = Some (add_desc n
     (segment_word base limit access granularity) s)"
proof -
  have "unat (of_nat n :: u64) = n" using assms(2) by (simp add: unat_of_nat NCPU_MAX_def)
  moreover have "n * 32 + unat (gindex s ! n) < 256" using assms(2,3) by (simp add: gdt_sizes)
  ultimately show ?thesis
    using assms by (simp add: gdtAddDescriptor_def get_at_def put_at_def gdt_sizes gdt_slot_def add_desc_def segment_word_def)
qed

lemma descriptor_fields:
  assumes "granularity AND mask 4 = 0"
  shows "desc_base (segment_word base limit access granularity) = ucast base"
    and "desc_limit (segment_word base limit access granularity) = limit AND mask 20"
    and "desc_access (segment_word base limit access granularity) = access"
    and "desc_flags (segment_word base limit access granularity) = drop_bit 4 granularity"
proof -
  have g: "\<not> (n < 4 \<and> bit granularity n)" for n
    using assms(1) by (metis bit_and_iff bit_mask_iff bit_0_eq bot_apply bot_bool_def bit_imp_le_length min_less_iff_conj possible_bit_word)
  show "desc_access (segment_word base limit access granularity) = access" by (simp add: segment_word_def pack_unpack)
  show "desc_flags (segment_word base limit access granularity) = drop_bit 4 granularity"
    by (rule bit_word_eqI) (auto simp: segment_word_def pack_unpack byte_masks bit_simps)
  show "desc_limit (segment_word base limit access granularity) = limit AND mask 20"
  proof (rule bit_word_eqI)
    fix n assume "n < LENGTH(32)"
    then show "bit (desc_limit (segment_word base limit access granularity)) n = bit (limit AND mask 20) n"
      using g [of "n - 16"] by (cases "n < 16") (auto simp: segment_word_def pack_unpack byte_masks bit_simps bit_above)
  qed
  show "desc_base (segment_word base limit access granularity) = ucast base"
  proof (rule bit_word_eqI)
    fix n assume n: "n < LENGTH(32)"
    consider "n < 16" | "16 \<le> n" "n < 24" | "24 \<le> n" by linarith
    then show "bit (desc_base (segment_word base limit access granularity)) n = bit (ucast base :: u32) n"
      using n by cases (auto simp: segment_word_def pack_unpack byte_masks bit_simps)
  qed
qed

definition kernel_gdt :: "u64 list" where
  "kernel_gdt = [0, 0x00009A000000FFFF, 0x000092000000FFFF, 0x00CF9A000000FFFF, 0x00CF92000000FFFF,
     0x00209A0000000000, 0x0000920000000000, 0x0000F20000000000, 0x0020FA0000000000]"

lemma add_desc_index: "gdt_wf s \<Longrightarrow> n < NCPU_MAX \<Longrightarrow> gindex (add_desc n w s) ! n = gindex s ! n + 1"
  by (simp add: add_desc_def gdt_sizes)

lemma add_desc_lock [simp]: "gdt_lock (add_desc n w s) = gdt_lock s"
  by (simp add: add_desc_def)

lemma gdt_wf_upd [simp]: "gdt_wf (s\<lparr>gdt_lock := l\<rparr>) = gdt_wf s" "gdt_wf (s\<lparr>gdtr := r\<rparr>) = gdt_wf s"
  by (simp_all add: gdt_wf_def)

lemma initGDT_words:
  assumes wf: "gdt_wf s" and n: "n < NCPU_MAX" and l: "gdt_lock s = 0" and i: "gindex s ! n = 0"
  defines "s0 \<equiv> s\<lparr>gdt_lock := BUSY, gdtr := (8 * of_nat GDT_MAX_DESCRIPTORS - 1, gdt_address s + 8 * (of_nat n * of_nat GDT_MAX_DESCRIPTORS))\<rparr>"
  shows "initGDT (of_nat n) s = Some ((fold (add_desc n) kernel_gdt s0)\<lparr>gdt_lock := 0\<rparr>)"
proof -
  note flag_defs = GDT_BASIC_DESCRIPTOR_def GDT_DESCRIPTOR_EXECUTABLE_def GDT_DESCRIPTOR_PRESENT_def GDT_DESCRIPTOR_READWRITE_def
    GDT_DESCRIPTOR_CODE_DATA_def GDT_DESCRIPTOR_DPL_def GDT_GRANULARITY_4K_def GDT_GRANULARITY_X32_def GDT_GRANULARITY_X64_def
  note add = gdtAddDescriptor_ok [OF _ n]
  show ?thesis
    unfolding initGDT_def Let_def spinLock_ok l
    by (simp add: s0_def add wf i add_desc_index n GDT_MAX_DESCRIPTORS_def kernel_gdt_def segment_word_def pack_desc_def flag_defs spinUnlock_def)
qed


lemma gdtInstallTSS_ok:
  assumes wf: "gdt_wf s" and n: "n < NCPU_MAX" and k: "gindex s ! n = k" "unat k < 32" "n * 32 + unat k + 1 < 256"
  shows "\<exists>w. gdtInstallTSS tss n s = Some (k * 8, s\<lparr>gdt := (gdt s)[n * 32 + unat k := w, n * 32 + unat k + 1 := drop_bit 32 tss],
       cpu_gdt := (cpu_gdt s)[n := gdt_address s + 256 * of_nat n], gindex := (gindex s)[n := k + 2]\<rparr>) \<and>
     tss_base_of w (drop_bit 32 tss) = tss \<and> desc_limit w = TSS_SIZE \<and> desc_access w = 0x89"
proof -
  let ?w = "pack_desc (ucast (TSS_SIZE AND 0xFFFF)) (ucast (tss AND 0xFFFF)) (ucast (drop_bit 16 (tss AND 0xFF0000))) 0x89
                 (ucast (drop_bit 16 (TSS_SIZE AND 0xF0000))) (ucast (drop_bit 24 (tss AND 0xFF000000)))"
  have hi: "ucast (ucast (drop_bit 32 tss) :: u32) = drop_bit 32 tss"
    by (rule bit_word_eqI) (auto simp: bit_simps dest: bit_imp_le_length)
  have "desc_base ?w = ucast tss"
  proof (rule bit_word_eqI)
    fix n assume n: "n < LENGTH(32)"
    consider "n < 16" | "16 \<le> n" "n < 24" | "24 \<le> n" by linarith
    then show "bit (desc_base ?w) n = bit (ucast tss :: u32) n"
      using n by cases (auto simp: pack_unpack byte_masks bit_simps bit_above)
  qed
  then have b: "tss_base_of ?w (drop_bit 32 tss) = tss"
    unfolding tss_base_of_def
  proof (intro bit_word_eqI)
    fix n assume "n < LENGTH(64)"
    then show "bit (ucast (desc_base ?w) OR push_bit 32 (drop_bit 32 tss)) n = bit tss n"
      using \<open>desc_base ?w = ucast tss\<close> by (cases "n < 32") (simp_all add: bit_simps)
  qed
  have l: "desc_limit ?w = TSS_SIZE" "desc_access ?w = 0x89" by (simp_all add: pack_unpack TSS_SIZE_def)
  have "gdtInstallTSS tss n s = Some (k * 8, s\<lparr>gdt := (gdt s)[n * 32 + unat k := ?w, n * 32 + unat k + 1 := drop_bit 32 tss],
       cpu_gdt := (cpu_gdt s)[n := gdt_address s + 256 * of_nat n], gindex := (gindex s)[n := k + 2]\<rparr>)"
    using assms unfolding gdtInstallTSS_def
    by (simp add: get_at_def put_at_def gdt_sizes gdt_slot_def hi GDT_DESCRIPTOR_ACCESS_def GDT_DESCRIPTOR_EXECUTABLE_def
        GDT_DESCRIPTOR_PRESENT_def GDT_DESCRIPTOR_SIZE_def)
  with b l show ?thesis by blast
qed

section \<open>Properties\<close>

definition boot_gdt :: gdt_state where
  "boot_gdt = \<lparr>gdt = replicate 256 0, gdt_address = 0x8000, gindex = replicate 8 0, gdtr = (0, 0), gdt_lock = 0, cpu_gdt = replicate 8 0\<rparr>"

lemma boot_gdt_wf: "gdt_wf boot_gdt" "gindex boot_gdt ! 0 = 0" "gdt_lock boot_gdt = 0"
  by (simp_all add: boot_gdt_def gdt_sizes)

lemma fold_add_desc:
  assumes "gdt_wf s" "n < NCPU_MAX" "gindex s ! n = of_nat j" "j + length ws \<le> 32"
  shows "take (length ws) (drop (n * 32 + j) (gdt (fold (add_desc n) ws s))) = ws \<and>
    gindex (fold (add_desc n) ws s) = (gindex s)[n := of_nat (j + length ws)] \<and>
    (\<forall>q. q < n * 32 + j \<or> n * 32 + j + length ws \<le> q \<longrightarrow> gdt (fold (add_desc n) ws s) ! q = gdt s ! q) \<and>
    length (gdt (fold (add_desc n) ws s)) = length (gdt s)"
  using assms
proof (induction ws rule: rev_induct)
  case Nil
  then have "(gindex s)[n := of_nat j] = gindex s" by (metis list_update_id)
  then show ?case by simp
next
  case (snoc w ws)
  let ?t = "fold (add_desc n) ws s"
  from snoc have IH: "take (length ws) (drop (n * 32 + j) (gdt ?t)) = ws" "gindex ?t = (gindex s)[n := of_nat (j + length ws)]"
    "\<forall>q. q < n * 32 + j \<or> n * 32 + j + length ws \<le> q \<longrightarrow> gdt ?t ! q = gdt s ! q" "length (gdt ?t) = 256"
    by (simp_all add: gdt_sizes)
  have len: "length (gindex s) = 8" "length (gdt s) = 256" "n < 8" using snoc.prems by (simp_all add: gdt_sizes)
  have k: "gindex ?t ! n = of_nat (j + length ws)" using IH(2) len by simp
  have slot: "gdt_slot n (gindex ?t ! n) = n * 32 + j + length ws"
    using snoc.prems(4) by (simp add: k gdt_slot_def GDT_MAX_DESCRIPTORS_def unat_of_nat del: of_nat_add)
  have lt: "n * 32 + j + length ws < 256" using len snoc.prems(4) by simp
  have g: "gdt (add_desc n w ?t) = (gdt ?t)[n * 32 + j + length ws := w]" by (simp add: add_desc_def slot)
  have "take (Suc (length ws)) (drop (n * 32 + j) ((gdt ?t)[n * 32 + j + length ws := w])) = ws @ [w]"
    using IH(1,4) lt by (simp add: take_Suc_conv_app_nth drop_update_swap)
  moreover have "gindex (add_desc n w ?t) = (gindex s)[n := of_nat (j + length (ws @ [w]))]"
    using IH(2) k len by (simp add: add_desc_def ac_simps)
  ultimately show ?case using IH(3,4) len by (simp add: g)
qed

text \<open>
  Setting up the descriptor table of a CPU stores the null descriptor, the 16-, 32- and
  64-bit kernel code and data segments and the user data and code segments, with the bytes the CPU
  expects, in its first nine slots, leaves the tables of the other CPUs as they were, points the table
  register at the table and releases the lock.
\<close>
theorem initGDT_correct:
  assumes "gdt_wf s" and "n < NCPU_MAX" and "gdt_lock s = 0" and "gindex s ! n = 0"
  shows "\<exists>s'. initGDT (of_nat n) s = Some s' \<and>
     take 9 (drop (n * 32) (gdt s')) =
       [0, 0x00009A000000FFFF, 0x000092000000FFFF, 0x00CF9A000000FFFF, 0x00CF92000000FFFF,
        0x00209A0000000000, 0x0000920000000000, 0x0000F20000000000, 0x0020FA0000000000] \<and>
     (\<forall>q. q < n * 32 \<or> n * 32 + 9 \<le> q \<longrightarrow> gdt s' ! q = gdt s ! q) \<and>
     gindex s' = (gindex s)[n := 9] \<and> gdtr s' = (255, gdt_address s + 256 * of_nat n) \<and> gdt_lock s' = 0"
proof -
  let ?s0 = "s\<lparr>gdt_lock := BUSY, gdtr := (8 * of_nat GDT_MAX_DESCRIPTORS - 1, gdt_address s + 8 * (of_nat n * of_nat GDT_MAX_DESCRIPTORS))\<rparr>"
  have r: "gdtr (fold (add_desc n) ws t) = gdtr t" for ws t
    by (induction ws arbitrary: t) (simp_all add: add_desc_def)
  have "initGDT (of_nat n) s = Some ((fold (add_desc n) kernel_gdt ?s0)\<lparr>gdt_lock := 0\<rparr>)"
    by (rule initGDT_words [OF assms])
  moreover have l9: "length kernel_gdt = 9" by (simp add: kernel_gdt_def)
  moreover have "take 9 (drop (n * 32) (gdt (fold (add_desc n) kernel_gdt ?s0))) = kernel_gdt"
    "gindex (fold (add_desc n) kernel_gdt ?s0) = (gindex s)[n := 9]"
    "\<forall>q. q < n * 32 \<or> n * 32 + 9 \<le> q \<longrightarrow> gdt (fold (add_desc n) kernel_gdt ?s0) ! q = gdt s ! q"
    using fold_add_desc [of ?s0 n 0 kernel_gdt] assms by (simp_all add: l9)
  ultimately show ?thesis by (simp add: r GDT_MAX_DESCRIPTORS_def kernel_gdt_def [symmetric])
qed


theorem initGDT_correct_witness:
  "\<exists>s'. initGDT 0 boot_gdt = Some s' \<and> gdt s' ! 5 = 0x00209A0000000000 \<and> gindex s' ! 0 = 9"
proof -
  obtain s' where s': "initGDT (of_nat 0) boot_gdt = Some s'" "take 9 (drop (0 * 32) (gdt s')) =
       [0, 0x00009A000000FFFF, 0x000092000000FFFF, 0x00CF9A000000FFFF, 0x00CF92000000FFFF,
        0x00209A0000000000, 0x0000920000000000, 0x0000F20000000000, 0x0020FA0000000000]" "gindex s' = (gindex boot_gdt)[0 := 9]"
    using initGDT_correct [of boot_gdt 0] boot_gdt_wf by (auto simp: NCPU_MAX_def)
  have "gdt s' ! 5 = take 9 (drop (0 * 32) (gdt s')) ! 5" by simp
  with s' show ?thesis by (simp add: boot_gdt_def)
qed


text \<open>
  The guard of \<^verbatim>\<open>gdtInstallTSS\<close> checks for one free slot but the descriptor takes
  two: with 31 descriptors in the table of a CPU, the upper half overwrites the null descriptor of the
  next CPU's table.
\<close>
theorem gdtInstallTSS_overrun:
  assumes "gdt_wf s" and "n + 1 < NCPU_MAX" and "gindex s ! n = 31"
  shows "\<exists>s'. gdtInstallTSS tss n s = Some (248, s') \<and> gdt s' ! ((n + 1) * 32) = drop_bit 32 tss"
proof -
  have k: "n + 1 < 8" "length (gdt s) = 256" using assms by (simp_all add: gdt_sizes)
  have "n * 32 + unat (31 :: u16) + 1 < 256" using k by simp
  from gdtInstallTSS_ok [OF assms(1) _ assms(3) _ this, of tss] k show ?thesis by (auto simp: NCPU_MAX_def nth_list_update)
qed

theorem gdtInstallTSS_overrun_witness:
  "\<exists>s'. gdtInstallTSS 0xFFFF800012345678 0 (boot_gdt\<lparr>gindex := 31 # replicate 7 0\<rparr>) = Some (248, s') \<and> gdt s' ! 32 = 0xFFFF8000"
  using gdtInstallTSS_overrun [of "boot_gdt\<lparr>gindex := 31 # replicate 7 0\<rparr>" 0 "0xFFFF800012345678"]
  by (simp add: boot_gdt_def gdt_sizes)

section \<open>Stacks\<close>













section \<open>Interrupt gates\<close>

definition idt_wf :: "u64 list \<Rightarrow> idt_state \<Rightarrow> bool" where
  "idt_wf stubs s \<longleftrightarrow> length (idt s) = IDT_MAX_DESCRIPTORS \<and> length (interrupt_handlers s) = 256 \<and> length stubs = 48"

lemma gate_of_isr:
  "gate_offset \<lparr>base_low = ucast (isr AND 0xFFFF), cs = c, ist_no = i, attributes = a,
     base_mid = ucast (drop_bit 16 isr AND 0xFFFF), base_high = ucast (drop_bit 32 isr AND 0xFFFFFFFF), rsv0 = r\<rparr> = isr"
proof (rule bit_word_eqI)
  fix n assume n: "n < LENGTH(64)"
  consider "n < 16" | "16 \<le> n" "n < 32" | "32 \<le> n" by linarith
  then show "bit (gate_offset \<lparr>base_low = ucast (isr AND 0xFFFF), cs = c, ist_no = i, attributes = a,
     base_mid = ucast (drop_bit 16 isr AND 0xFFFF), base_high = ucast (drop_bit 32 isr AND 0xFFFFFFFF), rsv0 = r\<rparr>) n = bit isr n"
    using n by cases (auto simp: gate_offset_def byte_masks bit_simps)
qed

lemma idtSetDescriptor_ok:
  assumes "length (idt s) = 256"
  shows "\<exists>d. idtSetDescriptor v isr fl i s = Some (s\<lparr>idt := (idt s)[unat v := d]\<rparr>) \<and> gate_offset d = isr \<and>
     attributes d = fl \<and> ist_no d = i \<and> cs d = GDT_OFFSET_KERNEL_CODE64"
proof -
  have "unat v < 256" using unsigned_less [of v, where ?'a = nat] by simp
  with assms show ?thesis
    by (intro exI [of _ "\<lparr>base_low = ucast (isr AND 0xFFFF), cs = GDT_OFFSET_KERNEL_CODE64, ist_no = i, attributes = fl,
      base_mid = ucast (drop_bit 16 isr AND 0xFFFF), base_high = ucast (drop_bit 32 isr AND 0xFFFFFFFF), rsv0 = 0\<rparr>"])
      (simp add: idtSetDescriptor_def put_at_def gate_of_isr)
qed

definition gate_for :: "u64 list \<Rightarrow> u8 \<Rightarrow> u8 \<Rightarrow> nat \<Rightarrow> idt_state \<Rightarrow> bool" where
  "gate_for stubs fl i v s \<longleftrightarrow> gate_offset (idt s ! v) = stubs ! v \<and> attributes (idt s ! v) = fl \<and> ist_no (idt s ! v) = i \<and>
     cs (idt s ! v) = GDT_OFFSET_KERNEL_CODE64"

lemma isrInstall_ok:
  assumes "idt_wf stubs s"
  shows "\<exists>s'. isrInstall stubs s = Some s' \<and> idt_wf stubs s' \<and> (\<forall>v<32. gate_for stubs IDT_DESCRIPTOR_EXCEPTION TSS_IST_EXCEPTION v s') \<and>
     (\<forall>v\<ge>32. idt s' ! v = idt s ! v) \<and> interrupt_handlers s' = interrupt_handlers s \<and> idtr s' = idtr s"
proof -
  let ?P = "\<lambda>k s'. idt_wf stubs s' \<and> (\<forall>v<k. gate_for stubs IDT_DESCRIPTOR_EXCEPTION TSS_IST_EXCEPTION v s') \<and>
     (\<forall>v\<ge>k. idt s' ! v = idt s ! v) \<and> interrupt_handlers s' = interrupt_handlers s \<and> idtr s' = idtr s"
  have "\<exists>s'. for_each (\<lambda>vector s. do {
         stub \<leftarrow> get_at stubs vector;
         idtSetDescriptor (of_nat vector) stub IDT_DESCRIPTOR_EXCEPTION TSS_IST_EXCEPTION s }) [0..<32] s = Some s' \<and> ?P 32 s'"
  proof (rule for_each_range [where P = ?P])
    show "?P 0 s" using assms by simp
    fix k t
    assume k: "k < (32 :: nat)" and P: "?P k t"
    then have l: "length (idt t) = 256" "length stubs = 48" by (simp_all add: idt_wf_def IDT_MAX_DESCRIPTORS_def)
    obtain d where d: "idtSetDescriptor (of_nat k) (stubs ! k) IDT_DESCRIPTOR_EXCEPTION TSS_IST_EXCEPTION t = Some (t\<lparr>idt := (idt t)[k := d]\<rparr>)"
        "gate_offset d = stubs ! k" "attributes d = IDT_DESCRIPTOR_EXCEPTION" "ist_no d = TSS_IST_EXCEPTION" "cs d = GDT_OFFSET_KERNEL_CODE64"
      using idtSetDescriptor_ok [OF l(1), of "of_nat k" "stubs ! k"] k by (auto simp: unat_of_nat)
    show "\<exists>s'. (do { stub \<leftarrow> get_at stubs k; idtSetDescriptor (of_nat k) stub IDT_DESCRIPTOR_EXCEPTION TSS_IST_EXCEPTION t }) = Some s' \<and> ?P (Suc k) s'"
      using P d k l by (auto simp: get_at_def idt_wf_def gate_for_def less_Suc_eq)
  qed simp
  then show ?thesis by (simp add: isrInstall_def)
qed

primrec register_all :: "u64 list \<Rightarrow> (u8 \<times> u64) list \<Rightarrow> idt_state \<Rightarrow> idt_state option" where
  "register_all stubs [] s = Some s"
| "register_all stubs (r # rs) s = do { s \<leftarrow> irqRegisterHandler stubs (fst r) (snd r) s; register_all stubs rs s }"


lemma irqRegisterHandler_ok:
  assumes wf: "idt_wf stubs s" and n: "unat n < 48"
  shows "\<exists>s'. irqRegisterHandler stubs n h s = Some s' \<and> idt_wf stubs s' \<and>
     gate_for stubs IDT_DESCRIPTOR_EXTERNAL TSS_IST_ROUTINE (unat n) s' \<and> (\<forall>v. v \<noteq> unat n \<longrightarrow> idt s' ! v = idt s ! v) \<and>
     interrupt_handlers s' = (interrupt_handlers s)[unat n := h] \<and> idtr s' = idtr s"
proof -
  have l: "length (idt s) = 256" "length (interrupt_handlers s) = 256" "length stubs = 48"
    using wf by (simp_all add: idt_wf_def IDT_MAX_DESCRIPTORS_def)
  let ?s = "s\<lparr>interrupt_handlers := (interrupt_handlers s)[unat n := h]\<rparr>"
  obtain d where d: "idtSetDescriptor n (stubs ! unat n) IDT_DESCRIPTOR_EXTERNAL TSS_IST_ROUTINE ?s = Some (?s\<lparr>idt := (idt ?s)[unat n := d]\<rparr>)"
      "gate_offset d = stubs ! unat n" "attributes d = IDT_DESCRIPTOR_EXTERNAL" "ist_no d = TSS_IST_ROUTINE" "cs d = GDT_OFFSET_KERNEL_CODE64"
    using idtSetDescriptor_ok [of ?s n "stubs ! unat n"] l by auto
  with l n show ?thesis
    by (simp add: irqRegisterHandler_def put_at_def get_at_def idt_wf_def gate_for_def IDT_MAX_DESCRIPTORS_def)
qed

text \<open>
  The vector \<open>n\<close> after the registrations \<open>rs\<close>: its gate and handler are those of the last registration for it,
  or, when there is none, those it had before.
\<close>

definition dispatches :: "u64 list \<Rightarrow> (u8 \<times> u64) list \<Rightarrow> idt_state \<Rightarrow> idt_state \<Rightarrow> u8 \<Rightarrow> bool" where
  "dispatches stubs rs s t n \<longleftrightarrow> (case map_of (rev rs) n of
     Some h \<Rightarrow> gate_for stubs IDT_DESCRIPTOR_EXTERNAL TSS_IST_ROUTINE (unat n) t \<and> interrupt_handlers t ! unat n = h
   | None \<Rightarrow> idt t ! unat n = idt s ! unat n \<and> interrupt_handlers t ! unat n = interrupt_handlers s ! unat n)"

lemma register_all_ok:
  assumes "idt_wf stubs s" "\<forall>r\<in>set rs. unat (fst r) < 48"
  shows "\<exists>s'. register_all stubs rs s = Some s' \<and> idt_wf stubs s' \<and> (\<forall>n. dispatches stubs rs s s' n)"
  using assms
proof (induction rs arbitrary: s)
  case Nil
  then show ?case by (simp add: dispatches_def)
next
  case (Cons r rs)
  obtain s1 where s1: "irqRegisterHandler stubs (fst r) (snd r) s = Some s1" "idt_wf stubs s1"
     "gate_for stubs IDT_DESCRIPTOR_EXTERNAL TSS_IST_ROUTINE (unat (fst r)) s1" "\<forall>v. v \<noteq> unat (fst r) \<longrightarrow> idt s1 ! v = idt s ! v"
     "interrupt_handlers s1 = (interrupt_handlers s)[unat (fst r) := snd r]"
    using irqRegisterHandler_ok [of stubs s "fst r" "snd r"] Cons.prems by auto
  obtain s2 where s2: "register_all stubs rs s1 = Some s2" "idt_wf stubs s2"
     "\<forall>n. dispatches stubs rs s1 s2 n"
    using Cons.IH [OF s1(2)] Cons.prems by auto
  have len: "length (interrupt_handlers s) = 256" "unat n < 256" for n :: u8
    using Cons.prems(1) unsigned_less [of n, where ?'a = nat] by (simp_all add: idt_wf_def)
  have "dispatches stubs (r # rs) s s2 n" for n
  proof -
    have "n \<noteq> fst r \<longrightarrow> unat n \<noteq> unat (fst r)" by (simp add: word_unat_eq_iff)
    with s2(3) [rule_format, of n] s1(3-5) len show ?thesis
      by (cases "map_of (rev rs) n"; cases "n = fst r") (simp_all add: dispatches_def map_add_def gate_for_def)
  qed
  then show ?case using s1(1) s2(1,2) by auto
qed

text \<open>
  C22: after the interrupt table is set up and any sequence of handlers is registered for vectors below 48 (the
  ones that have a stub), also several for one vector, each registered vector leads to its own assembly stub on the
  interrupt stack, with the handler registered last in the handler table; each exception vector (below 32) that none was
  registered for leads to its stub on the exception stack, and the gates of the other vectors and all other
  handlers are those of before.
\<close>
theorem idt_dispatch:
  assumes "idt_wf stubs s" and "\<forall>r\<in>set rs. unat (fst r) < 48"
  shows "\<exists>s1 s2. initIDT stubs s = Some s1 \<and> register_all stubs rs s1 = Some s2 \<and>
     (\<forall>n. case map_of (rev rs) n of
        Some h \<Rightarrow> gate_for stubs IDT_DESCRIPTOR_EXTERNAL TSS_IST_ROUTINE (unat n) s2 \<and> interrupt_handlers s2 ! unat n = h
      | None \<Rightarrow> (if unat n < 32 then gate_for stubs IDT_DESCRIPTOR_EXCEPTION TSS_IST_EXCEPTION (unat n) s2 else idt s2 ! unat n = idt s ! unat n) \<and>
          interrupt_handlers s2 ! unat n = interrupt_handlers s ! unat n)"
proof -
  have wf: "idt_wf stubs (s\<lparr>idtr := r\<rparr>)" for r using assms(1) by (simp add: idt_wf_def)
  obtain s1 where s1: "initIDT stubs s = Some s1" "idt_wf stubs s1" "\<forall>v<32. gate_for stubs IDT_DESCRIPTOR_EXCEPTION TSS_IST_EXCEPTION v s1"
      "\<forall>v\<ge>32. idt s1 ! v = idt s ! v" "interrupt_handlers s1 = interrupt_handlers s"
    using isrInstall_ok [OF wf, of "(16 * of_nat IDT_MAX_DESCRIPTORS - 1, idt_address s)"] unfolding initIDT_def by auto
  obtain s2 where s2: "register_all stubs rs s1 = Some s2" "\<forall>n. dispatches stubs rs s1 s2 n"
    using register_all_ok [OF s1(2) assms(2)] by blast
  have "case map_of (rev rs) n of
        Some h \<Rightarrow> gate_for stubs IDT_DESCRIPTOR_EXTERNAL TSS_IST_ROUTINE (unat n) s2 \<and> interrupt_handlers s2 ! unat n = h
      | None \<Rightarrow> (if unat n < 32 then gate_for stubs IDT_DESCRIPTOR_EXCEPTION TSS_IST_EXCEPTION (unat n) s2 else idt s2 ! unat n = idt s ! unat n) \<and>
          interrupt_handlers s2 ! unat n = interrupt_handlers s ! unat n" for n
    using s2(2) [rule_format, of n] s1(3-5) by (cases "map_of (rev rs) n") (simp_all add: dispatches_def gate_for_def)
  with s1(1) s2(1) show ?thesis by blast
qed

definition boot_idt :: idt_state where
  "boot_idt = \<lparr>idt = replicate 256 \<lparr>base_low = 0, cs = 0, ist_no = 0, attributes = 0, base_mid = 0, base_high = 0, rsv0 = 0\<rparr>,
     idt_address = 0xA000, idtr = (0, 0), interrupt_handlers = replicate 256 0\<rparr>"

definition demo_stubs :: "u64 list" where "demo_stubs = map of_nat [1000..<1048]"

lemma demo_stubs: "length demo_stubs = 48" "demo_stubs ! 33 = 1033" "demo_stubs ! 14 = 1014"
  by (simp_all add: demo_stubs_def)

theorem idt_dispatch_witness:
  "\<exists>s1 s2. initIDT demo_stubs boot_idt = Some s1 \<and> register_all demo_stubs [(32, 7), (33, 9), (32, 8)] s1 = Some s2 \<and>
     interrupt_handlers s2 ! 32 = 8 \<and> interrupt_handlers s2 ! 33 = 9 \<and> gate_offset (idt s2 ! 33) = 1033 \<and> gate_offset (idt s2 ! 14) = 1014"
proof -
  let ?rs = "[(32, 7), (33, 9), (32, 8)] :: (u8 \<times> u64) list"
  have "idt_wf demo_stubs boot_idt" by (simp add: idt_wf_def boot_idt_def IDT_MAX_DESCRIPTORS_def demo_stubs)
  moreover have "\<forall>r\<in>set ?rs. unat (fst r) < 48" by simp
  ultimately obtain s1 s2 where s: "initIDT demo_stubs boot_idt = Some s1" "register_all demo_stubs ?rs s1 = Some s2"
     and d: "\<forall>n. case map_of (rev ?rs) n of
        Some h \<Rightarrow> gate_for demo_stubs IDT_DESCRIPTOR_EXTERNAL TSS_IST_ROUTINE (unat n) s2 \<and> interrupt_handlers s2 ! unat n = h
      | None \<Rightarrow> (if unat n < 32 then gate_for demo_stubs IDT_DESCRIPTOR_EXCEPTION TSS_IST_EXCEPTION (unat n) s2 else idt s2 ! unat n = idt boot_idt ! unat n) \<and>
          interrupt_handlers s2 ! unat n = interrupt_handlers boot_idt ! unat n"
    using idt_dispatch [of demo_stubs boot_idt ?rs] by blast
  have "interrupt_handlers s2 ! 32 = 8" using d [rule_format, of 32] by simp
  moreover have "interrupt_handlers s2 ! 33 = 9" "gate_offset (idt s2 ! 33) = 1033"
    using d [rule_format, of 33] by (simp_all add: gate_for_def demo_stubs)
  moreover have "gate_offset (idt s2 ! 14) = 1014" using d [rule_format, of 14] by (simp add: gate_for_def demo_stubs)
  ultimately show ?thesis using s by blast
qed

end
