(* ===== verification/Apic.thy ===== *)
theory Apic
  imports Descriptors Paging CString
begin

text \<open>
  Interrupt controllers and timers: \<^verbatim>\<open>device/8259/pic.c\<close>, \<^verbatim>\<open>device/acpi/acpi.c\<close>, \<^verbatim>\<open>device/apic/apic.c\<close>,
  \<^verbatim>\<open>device/apic/timer.c\<close> and \<^verbatim>\<open>device/hpet/hpet.c\<close>. The registers of the controllers are hardware (the
  parameters \<open>io\<close> and \<open>mm\<close>); the ACPI tables are read, byte by byte, from the memory of the paging state, at
  the offsets the compiler gives the structure fields (a 64-bit field of an unpacked structure is
  aligned to 8 bytes). A loop that halts until an interrupt has been counted takes the list \<open>env\<close> of what
  happens during the successive halts, and is still halted, the value \<open>None\<close>, when the list ends.
\<close>

section \<open>The legacy controller\<close>

definition PIC_MASTER_COMMAND :: u16 where "PIC_MASTER_COMMAND = 0x20"
definition PIC_MASTER_DATA :: u16 where "PIC_MASTER_DATA = 0x21"
definition PIC_SLAVE_COMMAND :: u16 where "PIC_SLAVE_COMMAND = 0xA0"
definition PIC_SLAVE_DATA :: u16 where "PIC_SLAVE_DATA = 0xA1"
definition PIC_EOI :: u8 where "PIC_EOI = 0x20"
definition PIC_ICW1_ICW4 :: u8 where "PIC_ICW1_ICW4 = 0x01"
definition PIC_ICW1_INIT :: u8 where "PIC_ICW1_INIT = 0x10"
definition PIC_ICW4_8086 :: u8 where "PIC_ICW4_8086 = 0x01"

definition picMaskIRQ :: "'d port_io \<Rightarrow> u8 \<Rightarrow> 'd \<Rightarrow> 'd" where
  "picMaskIRQ io irq d =
     (let (port, irq) = (if irq < 8 then (PIC_MASTER_DATA, irq) else (PIC_SLAVE_DATA, irq - 8));
          (masks, d) = inb io port d
      in outb io port (masks OR push_bit (unat irq) 1) d)"

definition picUnmaskIRQ :: "'d port_io \<Rightarrow> u8 \<Rightarrow> 'd \<Rightarrow> 'd" where
  "picUnmaskIRQ io irq d =
     (let (port, irq) = (if irq < 8 then (PIC_MASTER_DATA, irq) else (PIC_SLAVE_DATA, irq - 8));
          (masks, d) = inb io port d
      in outb io port (masks AND NOT (push_bit (unat irq) 1)) d)"

definition picRemapOffsets :: "'d port_io \<Rightarrow> u8 \<Rightarrow> 'd \<Rightarrow> 'd" where
  "picRemapOffsets io offset d =
     (let (master_mask, d) = inb io PIC_MASTER_DATA d;
          (slave_mask, d) = inb io PIC_SLAVE_DATA d;
          d = outb io PIC_MASTER_COMMAND (PIC_ICW1_INIT OR PIC_ICW1_ICW4) d;
          d = outb io PIC_SLAVE_COMMAND (PIC_ICW1_INIT OR PIC_ICW1_ICW4) d;
          d = outb io PIC_MASTER_DATA offset d;
          d = outb io PIC_SLAVE_DATA (offset + 0x08) d;
          d = outb io PIC_MASTER_DATA 0x04 d;
          d = outb io PIC_SLAVE_DATA 0x02 d;
          d = outb io PIC_MASTER_DATA PIC_ICW4_8086 d;
          d = outb io PIC_SLAVE_DATA PIC_ICW4_8086 d;
          d = outb io PIC_MASTER_DATA master_mask d
      in outb io PIC_SLAVE_DATA slave_mask d)"

definition picSendEOI :: "'d port_io \<Rightarrow> u8 \<Rightarrow> 'd \<Rightarrow> 'd" where
  "picSendEOI io irq d =
     outb io PIC_MASTER_COMMAND PIC_EOI (if irq \<ge> 8 then outb io PIC_SLAVE_COMMAND PIC_EOI d else d)"

definition picDisable :: "'d port_io \<Rightarrow> 'd \<Rightarrow> 'd" where
  "picDisable io d = fold (\<lambda>irq. picMaskIRQ io (of_nat irq)) [0..<16] (picRemapOffsets io 0x20 d)"

section \<open>ACPI tables\<close>

primrec ld_le :: "mem \<Rightarrow> u64 \<Rightarrow> nat \<Rightarrow> u64 option" where
  "ld_le m p 0 = Some 0"
| "ld_le m p (Suc n) = do { b \<leftarrow> ld8 m p; r \<leftarrow> ld_le m (p + 1) n; Some (ucast b OR push_bit 8 r) }"

definition SDT_HEADER :: u64 where "SDT_HEADER = 36"

record acpi =
  rsdp_addr :: u64
  xsdt_addr :: u64
  num_xsdt_entries :: u32

definition sdt_length :: "mem \<Rightarrow> u64 \<Rightarrow> u32 option" where
  "sdt_length m h = map_option ucast (ld_le m (h + 4) 4)"

definition initACPI :: "mem \<Rightarrow> u64 \<Rightarrow> acpi option" where
  "initACPI m response = do {
     rsdp \<leftarrow> ld_le m (response + 8) 8;
     x \<leftarrow> ld_le m (rsdp + 24) 8;
     let xsdt = page_direct_base + x;
     len \<leftarrow> sdt_length m xsdt;
     Some \<lparr>rsdp_addr = rsdp, xsdt_addr = xsdt, num_xsdt_entries = ucast ((ucast len - SDT_HEADER) div 8)\<rparr> }"

partial_function (option) sdt_search :: "mem \<Rightarrow> acpi \<Rightarrow> u64 \<Rightarrow> u32 \<Rightarrow> u64 option" where
  "sdt_search m a signature i =
     (if i < num_xsdt_entries a then do {
        tmp \<leftarrow> ld_le m (xsdt_addr a + SDT_HEADER + ucast (8 * i)) 8;
        let h = tmp + page_direct_base;
        r \<leftarrow> strncmp m signature h 4;
        if r = 0 then Some h else sdt_search m a signature (i + 1) }
      else Some NULL)"

definition acpiFindSDT :: "mem \<Rightarrow> acpi \<Rightarrow> u64 \<Rightarrow> u64 option" where
  "acpiFindSDT m a signature = sdt_search m a signature 0"

section \<open>Local and I/O APIC\<close>

record apic =
  lapic_addr :: u64
  ioapic_addr :: u64

definition IA32_APIC_BASE_MSR :: u32 where "IA32_APIC_BASE_MSR = 0x1B"
definition IA32_APIC_BASE_MSR_ENABLE :: u64 where "IA32_APIC_BASE_MSR_ENABLE = 0x800"
definition APIC_APICID :: u32 where "APIC_APICID = 0x20"
definition APIC_EOI :: u32 where "APIC_EOI = 0xB0"
definition APIC_SPURIOUS :: u32 where "APIC_SPURIOUS = 0xF0"
definition APIC_LVT_TMR :: u32 where "APIC_LVT_TMR = 0x320"
definition APIC_TMRINITCNT :: u32 where "APIC_TMRINITCNT = 0x380"
definition APIC_TMRCURRCNT :: u32 where "APIC_TMRCURRCNT = 0x390"
definition APIC_TMRDIV :: u32 where "APIC_TMRDIV = 0x3E0"
definition APIC_SW_ENABLE :: u32 where "APIC_SW_ENABLE = 0x100"
definition APIC_LVT_MASK :: u32 where "APIC_LVT_MASK = push_bit 16 1"
definition TMR_PERIODIC :: u32 where "TMR_PERIODIC = 0x20000"
definition IRQ0 :: u8 where "IRQ0 = 32"
definition IRQ2 :: u8 where "IRQ2 = 34"
definition IRQ7 :: u8 where "IRQ7 = 39"

definition apicSetBase :: "u64 \<Rightarrow> msrs \<Rightarrow> msrs" where
  "apicSetBase apic r =
     wrmsr IA32_APIC_BASE_MSR (ucast ((apic AND 0xfffff0000) OR IA32_APIC_BASE_MSR_ENABLE)) (ucast (drop_bit 32 apic AND 0x0f)) r"

definition apicGetBase :: "msrs \<Rightarrow> u64" where
  "apicGetBase r = (case rdmsr IA32_APIC_BASE_MSR r of (eax, edx) \<Rightarrow>
     ucast (eax AND 0xfffff000) OR push_bit 32 (ucast (edx AND 0x0f)))"

definition lapicReadReg :: "'d mmio \<Rightarrow> apic \<Rightarrow> u32 \<Rightarrow> 'd \<Rightarrow> u32 \<times> 'd" where
  "lapicReadReg mm a reg d = read32 mm (lapic_addr a + ucast reg) d"

definition lapicWriteReg :: "'d mmio \<Rightarrow> apic \<Rightarrow> u32 \<Rightarrow> u32 \<Rightarrow> 'd \<Rightarrow> 'd" where
  "lapicWriteReg mm a reg data d = write32 mm (lapic_addr a + ucast reg) data d"

definition apicEnable :: "'d mmio \<Rightarrow> apic \<Rightarrow> msrs \<times> 'd \<Rightarrow> msrs \<times> 'd" where
  "apicEnable mm a x =
     (let (r, d) = x;
          r = apicSetBase (apicGetBase r) r;
          (v, d) = lapicReadReg mm a APIC_SPURIOUS d
      in (r, lapicWriteReg mm a APIC_SPURIOUS (v OR APIC_SW_ENABLE) d))"

definition ioapicReadReg :: "'d mmio \<Rightarrow> apic \<Rightarrow> u32 \<Rightarrow> 'd \<Rightarrow> u32 \<times> 'd" where
  "ioapicReadReg mm a reg d = read32 mm (ioapic_addr a + 16) (write32 mm (ioapic_addr a) (reg AND 0xFF) d)"

definition ioapicWriteReg :: "'d mmio \<Rightarrow> apic \<Rightarrow> u32 \<Rightarrow> u32 \<Rightarrow> 'd \<Rightarrow> 'd" where
  "ioapicWriteReg mm a reg data d = write32 mm (ioapic_addr a + 16) data (write32 mm (ioapic_addr a) (reg AND 0xFF) d)"

text \<open>The entries of the MADT; an entry of type 5 is read at offset 8, where its structure has the address.\<close>

partial_function (option) madt_walk :: "mem \<Rightarrow> u64 \<Rightarrow> u64 \<Rightarrow> apic \<Rightarrow> apic option" where
  "madt_walk m ptr ptr2 a =
     (if ptr < ptr2 then do {
        t \<leftarrow> ld8 m ptr;
        a \<leftarrow> (if t = 1 then do { x \<leftarrow> ld_le m (ptr + 4) 4; Some (a\<lparr>ioapic_addr := x\<rparr>) }
              else if t = 5 then do { x \<leftarrow> ld_le m (ptr + 8) 8; Some (a\<lparr>lapic_addr := x\<rparr>) }
              else Some a);
        len \<leftarrow> ld8 m (ptr + 1);
        madt_walk m (ptr + ucast len) ptr2 a }
      else Some a)"

record 'd machine =
  hw :: 'd
  mpaging :: paging
  midt :: idt_state
  mmsrs :: msrs
  mapic :: apic

definition initAPIC :: "'d port_io \<Rightarrow> 'd mmio \<Rightarrow> u64 list \<Rightarrow> acpi \<Rightarrow> u64 \<Rightarrow> u64 \<Rightarrow> 'd machine \<Rightarrow> 'd machine option" where
  "initAPIC io mm stubs acpi0 signature spurious_handler s = do {
     let m = pm (frames (mpaging s));
     madt \<leftarrow> acpiFindSDT m acpi0 signature;
     l \<leftarrow> ld_le m (madt + SDT_HEADER) 4;
     len \<leftarrow> sdt_length m madt;
     a \<leftarrow> madt_walk m (madt + 44) (madt + ucast len) ((mapic s)\<lparr>lapic_addr := l\<rparr>);
     let flags = PAGE_FLAG_PRESENT OR PAGE_FLAG_READWRITE OR PAGE_FLAG_CACHEDBLE;
     (l, pg) \<leftarrow> videntity lapic_base (lapic_addr a) 1 flags (mpaging s);
     (i, pg) \<leftarrow> videntity ioapic_base (ioapic_addr a) 1 flags pg;
     let a = a\<lparr>lapic_addr := l, ioapic_addr := i\<rparr>;
     let d = picDisable io (hw s);
     let (r, d) = apicEnable mm a (mmsrs s, d);
     t \<leftarrow> irqRegisterHandler stubs IRQ7 spurious_handler (midt s);
     Some (s\<lparr>hw := d, mpaging := pg, midt := t, mmsrs := r, mapic := a\<rparr>) }"

definition initAPAPIC :: "'d mmio \<Rightarrow> apic \<Rightarrow> msrs \<times> 'd \<Rightarrow> msrs \<times> 'd" where
  "initAPAPIC mm a x = apicEnable mm a x"

text \<open>
  The second register is shifted by 32 before it is widened: a shift of a 32-bit value by its width is
  undefined.
\<close>

definition shl32 :: "u32 \<Rightarrow> nat \<Rightarrow> u32 option" where
  "shl32 x n = (if n < 32 then Some (push_bit n x) else None)"

definition ioapicReadRedir :: "'d mmio \<Rightarrow> apic \<Rightarrow> u8 \<Rightarrow> 'd \<Rightarrow> (u64 \<times> 'd) option" where
  "ioapicReadRedir mm a irq d = do {
     let (lo, d) = ioapicReadReg mm a (0x10 + ucast irq) d;
     let (hi, d) = ioapicReadReg mm a (0x10 + ucast irq + 1) d;
     h \<leftarrow> shl32 hi 32;
     Some (ucast lo OR ucast h, d) }"

definition ioapicWriteRedir :: "'d mmio \<Rightarrow> apic \<Rightarrow> u8 \<Rightarrow> u64 \<Rightarrow> 'd \<Rightarrow> 'd" where
  "ioapicWriteRedir mm a irq tmp d =
     ioapicWriteReg mm a (0x10 + ucast irq * 2 + 1) (ucast (drop_bit 32 tmp AND 0xFFFFFFFF))
       (ioapicWriteReg mm a (0x10 + ucast irq * 2) (ucast (tmp AND 0xFFFFFFFF)) d)"

definition apicGetCpuID :: "'d mmio \<Rightarrow> apic \<Rightarrow> 'd \<Rightarrow> u64 \<times> 'd" where
  "apicGetCpuID mm a d =
     (if lapic_addr a \<noteq> 0 then (case lapicReadReg mm a APIC_APICID d of (v, d) \<Rightarrow> (drop_bit 24 (ucast v), d)) else (0xFFFF, d))"

definition apicSendEOI :: "'d mmio \<Rightarrow> apic \<Rightarrow> 'd \<Rightarrow> 'd" where
  "apicSendEOI mm a d = lapicWriteReg mm a APIC_EOI 0 d"

section \<open>The high-precision event timer\<close>

record hpet =
  hpet_addr :: u64
  minimum_tick :: u16
  period :: u64
  freqency :: u64
  hpet_counter :: u64

definition HPET_GENERAL_CONFIG_REG :: u64 where "HPET_GENERAL_CONFIG_REG = 0x10"
definition HPET_MAIN_COUNTER_REG :: u64 where "HPET_MAIN_COUNTER_REG = 0xF0"
definition hpet_config_reg :: "u64 \<Rightarrow> u64" where "hpet_config_reg n = 0x100 + 0x20 * n"
definition hpet_compar_reg :: "u64 \<Rightarrow> u64" where "hpet_compar_reg n = 0x108 + 0x20 * n"

definition hpetReadReg :: "'d mmio \<Rightarrow> hpet \<Rightarrow> u64 \<Rightarrow> 'd \<Rightarrow> u64 \<times> 'd" where
  "hpetReadReg mm h reg d = read64 mm (hpet_addr h + reg) d"

definition hpetWriteReg :: "'d mmio \<Rightarrow> hpet \<Rightarrow> u64 \<Rightarrow> u64 \<Rightarrow> 'd \<Rightarrow> 'd" where
  "hpetWriteReg mm h reg data d = write64 mm (hpet_addr h + reg) data d"

definition irqHPETHandler :: "'d mmio \<Rightarrow> apic \<Rightarrow> hpet \<times> 'd \<Rightarrow> hpet \<times> 'd" where
  "irqHPETHandler mm a hx = (case hx of (h, d) \<Rightarrow> (h\<lparr>hpet_counter := hpet_counter h + 1\<rparr>, apicSendEOI mm a d))"

definition div_u64 :: "u64 \<Rightarrow> u64 \<Rightarrow> u64 option" where
  "div_u64 x y = (if y = 0 then None else Some (x div y))"

definition initHPET :: "'d mmio \<Rightarrow> u64 list \<Rightarrow> mem \<Rightarrow> acpi \<Rightarrow> u64 \<Rightarrow> u64 \<Rightarrow> apic \<Rightarrow> hpet \<times> idt_state \<times> 'd \<Rightarrow> (hpet \<times> idt_state \<times> 'd) option" where
  "initHPET mm stubs m acpi0 signature handler a htd = do {
     let (h, t, d) = htd;
     table \<leftarrow> acpiFindSDT m acpi0 signature;
     address \<leftarrow> ld_le m (table + 44) 8;
     tick \<leftarrow> ld_le m (table + 53) 2;
     let h = h\<lparr>hpet_addr := address + page_direct_base, minimum_tick := ucast tick\<rparr>;
     let (c, d) = hpetReadReg mm h 0 d;
     let p = drop_bit 32 c;
     f \<leftarrow> div_u64 1000000000000000 p;
     t \<leftarrow> irqRegisterHandler stubs IRQ2 handler t;
     let d = ioapicWriteRedir mm a 0x16 (ucast IRQ2) d;
     let (c, d) = hpetReadReg mm h (hpet_config_reg 0) d;
     let d = hpetWriteReg mm h (hpet_config_reg 0) (c OR push_bit 9 0x16) d;
     Some (h\<lparr>period := p, freqency := f\<rparr>, t, d) }"

definition hpetStart :: "'d mmio \<Rightarrow> hpet \<Rightarrow> 'd \<Rightarrow> 'd" where
  "hpetStart mm h d =
     (case hpetReadReg mm h HPET_GENERAL_CONFIG_REG d of (c, d) \<Rightarrow> hpetWriteReg mm h HPET_GENERAL_CONFIG_REG (c OR 1) d)"

definition hpetStop :: "'d mmio \<Rightarrow> hpet \<Rightarrow> 'd \<Rightarrow> 'd" where
  "hpetStop mm h d =
     (case hpetReadReg mm h HPET_GENERAL_CONFIG_REG d of (c, d) \<Rightarrow> hpetWriteReg mm h HPET_GENERAL_CONFIG_REG (c XOR 1) d)"

definition hpetOneShot :: "'d mmio \<Rightarrow> hpet \<Rightarrow> u64 \<Rightarrow> 'd \<Rightarrow> 'd option" where
  "hpetOneShot mm h time d = do {
     let time = (if time < period h then period h else time);
     let (c, d) = hpetReadReg mm h (hpet_config_reg 0) d;
     let d = hpetWriteReg mm h (hpet_config_reg 0) (c OR push_bit 2 1) d;
     let (now, d) = hpetReadReg mm h HPET_MAIN_COUNTER_REG d;
     n \<leftarrow> div_u64 time (period h);
     Some (hpetWriteReg mm h (hpet_compar_reg 0) (now + n) d) }"

definition hpetPeriodicStart :: "'d mmio \<Rightarrow> hpet \<Rightarrow> u64 \<Rightarrow> 'd \<Rightarrow> 'd option" where
  "hpetPeriodicStart mm h time d = do {
     let time = (if time < period h then period h else time);
     let (c, d) = hpetReadReg mm h (hpet_config_reg 0) d;
     let d = hpetWriteReg mm h (hpet_config_reg 0) (c OR push_bit 2 1 OR push_bit 3 1 OR push_bit 6 1) d;
     let (now, d) = hpetReadReg mm h HPET_MAIN_COUNTER_REG d;
     n \<leftarrow> div_u64 time (period h);
     let d = hpetWriteReg mm h (hpet_compar_reg 0) (now + n) d;
     Some (hpetWriteReg mm h (hpet_compar_reg 0) n d) }"

definition hpetPeriodicStop :: "'d mmio \<Rightarrow> hpet \<Rightarrow> 'd \<Rightarrow> 'd" where
  "hpetPeriodicStop mm h d =
     (case hpetReadReg mm h (hpet_config_reg 0) d of (c, d) \<Rightarrow>
        hpetWriteReg mm h (hpet_config_reg 0) (c XOR (push_bit 2 1 OR push_bit 3 1)) d)"

fun hpet_wait :: "(hpet \<times> 'd \<Rightarrow> hpet \<times> 'd) list \<Rightarrow> hpet \<times> 'd \<Rightarrow> (hpet \<times> 'd) option" where
  "hpet_wait env hx =
     (if hpet_counter (fst hx) = 0 then (case env of [] \<Rightarrow> None | irq # env \<Rightarrow> hpet_wait env (irq hx)) else Some hx)"

definition hpetNanosleep :: "'d mmio \<Rightarrow> (hpet \<times> 'd \<Rightarrow> hpet \<times> 'd) list \<Rightarrow> u64 \<Rightarrow> hpet \<times> 'd \<Rightarrow> (hpet \<times> 'd) option" where
  "hpetNanosleep mm env nanos hx = do {
     let (h, d) = hx;
     let d = hpetStart mm h d;
     d \<leftarrow> hpetOneShot mm h (nanos * 1000000) d;
     (h, d) \<leftarrow> hpet_wait env (h, d);
     let d = hpetStop mm h d;
     Some (h\<lparr>hpet_counter := 0\<rparr>, d) }"

definition hpetMillisleep :: "'d mmio \<Rightarrow> (hpet \<times> 'd \<Rightarrow> hpet \<times> 'd) list \<Rightarrow> u64 \<Rightarrow> hpet \<times> 'd \<Rightarrow> (hpet \<times> 'd) option" where
  "hpetMillisleep mm env millis hx = hpetNanosleep mm env (millis * 1000000) hx"

section \<open>The APIC timer\<close>

record apic_timer =
  ticks_per_second :: u64
  nanoseconds_per_tick :: u64
  time_counter :: u64

definition irqAPICTimerHandler :: "'d mmio \<Rightarrow> apic \<Rightarrow> apic_timer \<times> 'd \<Rightarrow> apic_timer \<times> 'd" where
  "irqAPICTimerHandler mm a td = (case td of (t, d) \<Rightarrow> (t\<lparr>time_counter := time_counter t + 1\<rparr>, apicSendEOI mm a d))"

definition timer_resolution :: "u32 \<Rightarrow> apic_timer \<Rightarrow> apic_timer option" where
  "timer_resolution ticks t = do {
     let tps = (ucast (ticks * 10) :: u64);
     q \<leftarrow> div_u64 1000000000 tps;
     Some (t\<lparr>ticks_per_second := tps, nanoseconds_per_tick := q + (if 1000000000 mod tps \<noteq> 0 then 1 else 0)\<rparr>) }"

definition initAPICTimer ::
    "'d mmio \<Rightarrow> u64 list \<Rightarrow> (hpet \<times> 'd \<Rightarrow> hpet \<times> 'd) list \<Rightarrow> u64 \<Rightarrow> apic \<Rightarrow> apic_timer \<times> hpet \<times> idt_state \<times> 'd \<Rightarrow>
     (apic_timer \<times> hpet \<times> idt_state \<times> 'd) option" where
  "initAPICTimer mm stubs env handler a thid = do {
     let (t, h, i, d) = thid;
     i \<leftarrow> irqRegisterHandler stubs IRQ0 handler i;
     let d = lapicWriteReg mm a APIC_TMRDIV 0 d;
     let d = lapicWriteReg mm a APIC_LVT_TMR (ucast IRQ0) d;
     let d = hpetStart mm h d;
     let d = lapicWriteReg mm a APIC_TMRINITCNT 0xFFFFFFFF d;
     (h, d) \<leftarrow> hpetMillisleep mm env 100 (h, d);
     let d = lapicWriteReg mm a APIC_LVT_TMR APIC_LVT_MASK d;
     let d = hpetStop mm h d;
     let (c, d) = lapicReadReg mm a APIC_TMRCURRCNT d;
     t \<leftarrow> timer_resolution (0xFFFFFFFF - c) t;
     Some (t, h, i, d) }"

definition initAPAPICTimer :: "'d mmio \<Rightarrow> apic \<Rightarrow> 'd \<Rightarrow> 'd" where
  "initAPAPICTimer mm a d = lapicWriteReg mm a APIC_LVT_TMR (ucast IRQ0) (lapicWriteReg mm a APIC_TMRDIV 0 d)"

definition timer_count :: "u64 \<Rightarrow> apic_timer \<Rightarrow> u32 option" where
  "timer_count time t =
     map_option ucast (div_u64 (if time < nanoseconds_per_tick t then nanoseconds_per_tick t else time) (nanoseconds_per_tick t))"

definition apicTimerOneShot :: "'d mmio \<Rightarrow> apic \<Rightarrow> u64 \<Rightarrow> apic_timer \<Rightarrow> 'd \<Rightarrow> 'd option" where
  "apicTimerOneShot mm a time t d = do {
     let d = lapicWriteReg mm a APIC_LVT_TMR (ucast IRQ0) d;
     n \<leftarrow> timer_count time t;
     Some (lapicWriteReg mm a APIC_TMRINITCNT n d) }"

definition apicTimerPeriodicStart :: "'d mmio \<Rightarrow> apic \<Rightarrow> u64 \<Rightarrow> apic_timer \<Rightarrow> 'd \<Rightarrow> 'd option" where
  "apicTimerPeriodicStart mm a time t d = do {
     let d = lapicWriteReg mm a APIC_LVT_TMR (ucast IRQ0 OR TMR_PERIODIC) d;
     n \<leftarrow> timer_count time t;
     Some (lapicWriteReg mm a APIC_TMRINITCNT n d) }"

definition apicTimerPeriodicStop :: "'d mmio \<Rightarrow> apic \<Rightarrow> 'd \<Rightarrow> 'd" where
  "apicTimerPeriodicStop mm a d = lapicWriteReg mm a APIC_LVT_TMR APIC_LVT_MASK d"

fun apic_wait :: "(apic_timer \<times> 'd \<Rightarrow> apic_timer \<times> 'd) list \<Rightarrow> apic_timer \<times> 'd \<Rightarrow> (apic_timer \<times> 'd) option" where
  "apic_wait env td =
     (if time_counter (fst td) = 0 then (case env of [] \<Rightarrow> None | irq # env \<Rightarrow> apic_wait env (irq td)) else Some td)"

definition apicNanosleep :: "'d mmio \<Rightarrow> (apic_timer \<times> 'd \<Rightarrow> apic_timer \<times> 'd) list \<Rightarrow> apic \<Rightarrow> u64 \<Rightarrow> apic_timer \<times> 'd \<Rightarrow> (apic_timer \<times> 'd) option" where
  "apicNanosleep mm env a nanos td = do {
     let (t, d) = td;
     d \<leftarrow> apicTimerOneShot mm a nanos t d;
     (t, d) \<leftarrow> apic_wait env (t, d);
     let d = lapicWriteReg mm a APIC_LVT_TMR APIC_LVT_MASK d;
     Some (t\<lparr>time_counter := 0\<rparr>, d) }"

definition apicMillisleep :: "'d mmio \<Rightarrow> (apic_timer \<times> 'd \<Rightarrow> apic_timer \<times> 'd) list \<Rightarrow> apic \<Rightarrow> u64 \<Rightarrow> apic_timer \<times> 'd \<Rightarrow> (apic_timer \<times> 'd) option" where
  "apicMillisleep mm env a millis td = apicNanosleep mm env a (millis * 1000000) td"

declare sdt_search.simps [code] madt_walk.simps [code] hpet_wait.simps [simp del] apic_wait.simps [simp del]

section \<open>What the hardware does\<close>

text \<open>
  The mask registers of the two legacy controllers, as documented: outside an initialisation sequence a
  read of a data port returns the mask and a write sets it.
\<close>

definition pic_masks :: "'d port_io \<Rightarrow> ('d \<Rightarrow> bool) \<Rightarrow> ('d \<Rightarrow> u16 \<Rightarrow> u8) \<Rightarrow> bool" where
  "pic_masks io ready imr \<longleftrightarrow> (\<forall>d p v. ready d \<and> p \<in> {PIC_MASTER_DATA, PIC_SLAVE_DATA} \<longrightarrow>
     (\<exists>d'. inb io p d = (imr d p, d') \<and> ready d' \<and> imr d' = imr d) \<and>
     ready (outb io p v d) \<and> imr (outb io p v d) = (imr d)(p := v))"

text \<open>The configuration register of the event timer holds what is written to it.\<close>

definition hpet_config :: "'d mmio \<Rightarrow> u64 \<Rightarrow> ('d \<Rightarrow> u64) \<Rightarrow> bool" where
  "hpet_config mm c cfg \<longleftrightarrow> (\<forall>d. fst (read64 mm c d) = cfg d) \<and> (\<forall>p d. cfg (snd (read64 mm p d)) = cfg d) \<and>
     (\<forall>v d. cfg (write64 mm c v d) = v) \<and> (\<forall>p v d. p \<noteq> c \<longrightarrow> cfg (write64 mm p v d) = cfg d) \<and>
     (\<forall>p v d. cfg (write32 mm p v d) = cfg d) \<and> (\<forall>p d. cfg (snd (read32 mm p d)) = cfg d)"

lemma picMaskIRQ_ok:
  assumes hw: "pic_masks io ready imr" and d: "ready d" and n: "n < 16"
  shows "ready (picMaskIRQ io (of_nat n) d) \<and> imr (picMaskIRQ io (of_nat n) d) =
     (if n < 8 then (imr d)(PIC_MASTER_DATA := imr d PIC_MASTER_DATA OR push_bit n 1)
      else (imr d)(PIC_SLAVE_DATA := imr d PIC_SLAVE_DATA OR push_bit (n - 8) 1))"
proof -
  have lt: "(of_nat n :: u8) < 8 \<longleftrightarrow> n < 8" using n by (simp add: word_less_nat_alt unat_of_nat)
  have u: "unat (of_nat n :: u8) = n" using n by (simp add: unat_of_nat)
  have u8: "unat (of_nat n - 8 :: u8) = n - 8" if "\<not> n < 8"
    using that n unat_sub [of 8 "of_nat n :: u8"] by (simp add: word_le_nat_alt u)
  show ?thesis
  proof (cases "n < 8")
    case True
    obtain d' where d': "inb io PIC_MASTER_DATA d = (imr d PIC_MASTER_DATA, d')" "ready d'" "imr d' = imr d"
      using hw d unfolding pic_masks_def by blast
    have "ready (outb io PIC_MASTER_DATA v d') \<and> imr (outb io PIC_MASTER_DATA v d') = (imr d')(PIC_MASTER_DATA := v)" for v
      using hw d'(2) unfolding pic_masks_def by blast
    then show ?thesis using True by (simp add: picMaskIRQ_def lt u d')
  next
    case False
    obtain d' where d': "inb io PIC_SLAVE_DATA d = (imr d PIC_SLAVE_DATA, d')" "ready d'" "imr d' = imr d"
      using hw d unfolding pic_masks_def by blast
    have "ready (outb io PIC_SLAVE_DATA v d') \<and> imr (outb io PIC_SLAVE_DATA v d') = (imr d')(PIC_SLAVE_DATA := v)" for v
      using hw d'(2) unfolding pic_masks_def by blast
    then show ?thesis using False by (simp add: picMaskIRQ_def lt u8 d')
  qed
qed

lemma mask_lines:
  assumes hw: "pic_masks io ready imr" and d: "ready d" and n: "n \<le> 16"
  shows "ready (fold (\<lambda>irq. picMaskIRQ io (of_nat irq)) [0..<n] d) \<and>
     (\<forall>k<n. k < 8 \<longrightarrow> bit (imr (fold (\<lambda>irq. picMaskIRQ io (of_nat irq)) [0..<n] d) PIC_MASTER_DATA) k) \<and>
     (\<forall>k. k + 8 < n \<longrightarrow> k < 8 \<longrightarrow> bit (imr (fold (\<lambda>irq. picMaskIRQ io (of_nat irq)) [0..<n] d) PIC_SLAVE_DATA) k)"
  using n
proof (induction n)
  case 0
  then show ?case using d by simp
next
  case (Suc n)
  let ?d = "fold (\<lambda>irq. picMaskIRQ io (of_nat irq)) [0..<n] d"
  have IH: "ready ?d" "\<forall>k<n. k < 8 \<longrightarrow> bit (imr ?d PIC_MASTER_DATA) k" "\<forall>k. k + 8 < n \<longrightarrow> k < 8 \<longrightarrow> bit (imr ?d PIC_SLAVE_DATA) k"
    using Suc by auto
  have ports: "PIC_MASTER_DATA \<noteq> PIC_SLAVE_DATA" by (simp add: PIC_MASTER_DATA_def PIC_SLAVE_DATA_def)
  have "n < 16" using Suc.prems by simp
  note step = picMaskIRQ_ok [OF hw IH(1) this]
  show ?case
  proof (cases "n < 8")
    case True
    then show ?thesis using step IH ports by (auto simp: bit_simps less_Suc_eq)
  next
    case False
    then show ?thesis using step IH ports by (auto simp: bit_simps less_Suc_eq)
  qed
qed

lemma hpet_bit:
  assumes c: "hpet_config mm (hpet_addr h + HPET_GENERAL_CONFIG_REG) cfg"
  shows "bit (cfg (hpetStart mm h d)) 0" "bit (cfg (hpetStop mm h d)) 0 \<longleftrightarrow> \<not> bit (cfg d) 0"
    "cfg (lapicWriteReg mm a r v d) = cfg d" "cfg (snd (lapicReadReg mm a r d)) = cfg d"
  using c by (simp_all add: hpetStart_def hpetStop_def hpetReadReg_def hpetWriteReg_def lapicWriteReg_def lapicReadReg_def
      hpet_config_def split_beta bit_simps)

lemma hpetOneShot_config:
  assumes c: "hpet_config mm (hpet_addr h + HPET_GENERAL_CONFIG_REG) cfg" and r: "hpetOneShot mm h time d = Some d'"
  shows "cfg d' = cfg d"
proof -
  have ne: "hpet_addr h + hpet_config_reg 0 \<noteq> hpet_addr h + HPET_GENERAL_CONFIG_REG"
    "hpet_addr h + hpet_compar_reg 0 \<noteq> hpet_addr h + HPET_GENERAL_CONFIG_REG"
    by (simp_all add: hpet_config_reg_def hpet_compar_reg_def HPET_GENERAL_CONFIG_REG_def)
  from r c ne show ?thesis
    by (auto simp: hpetOneShot_def hpetReadReg_def hpetWriteReg_def hpet_config_def div_u64_def Let_def split_beta split: if_splits)
qed

lemma hpet_wait_keeps:
  assumes "hpet_wait env hx = Some hx'" and "\<forall>f\<in>set env. \<forall>x. hpet_addr (fst (f x)) = hpet_addr (fst x) \<and> cfg (snd (f x)) = cfg (snd x)"
  shows "hpet_addr (fst hx') = hpet_addr (fst hx) \<and> cfg (snd hx') = cfg (snd hx)"
  using assms
proof (induction env hx rule: hpet_wait.induct)
  case (1 env hx)
  show ?case
  proof (cases "hpet_counter (fst hx) = 0")
    case False
    with 1(2) show ?thesis by (simp add: hpet_wait.simps [of env])
  next
    case True
    with 1(2) have "(case env of [] \<Rightarrow> None | irq # env \<Rightarrow> hpet_wait env (irq hx)) = Some hx'"
      by (simp add: hpet_wait.simps [of env hx])
    then obtain f env' where e: "env = f # env'" "hpet_wait env' (f hx) = Some hx'" by (cases env) auto
    have "hpet_addr (fst hx') = hpet_addr (fst (f hx)) \<and> cfg (snd hx') = cfg (snd (f hx))"
      by (rule 1(1) [OF True e(1,2)]) (use 1(3) e(1) in auto)
    moreover have "\<forall>x. hpet_addr (fst (f x)) = hpet_addr (fst x) \<and> cfg (snd (f x)) = cfg (snd x)"
      using 1(3) unfolding e(1) by (metis list.set_intros(1))
    ultimately show ?thesis by metis
  qed
qed


section \<open>Properties\<close>

text \<open>
  C31: disabling the legacy controllers masks all sixteen interrupt lines, for
  controllers that are ready again after the four initialisation words.
\<close>
theorem picDisable_masks:
  assumes "pic_masks io ready imr" and "ready (picRemapOffsets io 0x20 d)"
  shows "imr (picDisable io d) PIC_MASTER_DATA = 0xFF \<and> imr (picDisable io d) PIC_SLAVE_DATA = 0xFF"
proof -
  have "\<forall>k<8. bit (imr (picDisable io d) PIC_MASTER_DATA) k" "\<forall>k<8. bit (imr (picDisable io d) PIC_SLAVE_DATA) k"
    using mask_lines [OF assms, of 16] by (simp_all add: picDisable_def)
  moreover have "w = 0xFF" if "\<forall>k<8. bit w k" for w :: u8
  proof -
    have "w = mask 8" by (rule bit_word_eqI) (use that in \<open>simp add: bit_simps\<close>)
    then show ?thesis by (simp add: mask_eq_exp_minus_1)
  qed
  ultimately show ?thesis by blast
qed

text \<open>A pair of controllers: the words of the initialisation sequence still expected, and the masks.\<close>

record pic_pair =
  expect :: "u16 \<Rightarrow> nat"
  masks :: "u16 \<Rightarrow> u8"

definition pic_out :: "u16 \<Rightarrow> u8 \<Rightarrow> pic_pair \<Rightarrow> pic_pair" where
  "pic_out p v d =
     (if p = PIC_MASTER_COMMAND \<or> p = PIC_SLAVE_COMMAND then
        if bit v 4 then d\<lparr>expect := (expect d)(p + 1 := 3), masks := (masks d)(p + 1 := 0)\<rparr> else d
      else if 0 < expect d p then d\<lparr>expect := (expect d)(p := expect d p - 1)\<rparr>
      else d\<lparr>masks := (masks d)(p := v)\<rparr>)"

definition pic_io :: "pic_pair port_io" where
  "pic_io = \<lparr>inb = (\<lambda>p d. (masks d p, d)), outb = pic_out, inw = (\<lambda>p d. (0, d)), outw = (\<lambda>p v d. d),
     inl = (\<lambda>p d. (0, d)), outl = (\<lambda>p v d. d)\<rparr>"

definition pic_idle :: pic_pair where "pic_idle = \<lparr>expect = (\<lambda>_. 0), masks = (\<lambda>_. 0)\<rparr>"

definition pic_ready :: "pic_pair \<Rightarrow> bool" where
  "pic_ready d \<longleftrightarrow> expect d PIC_MASTER_DATA = 0 \<and> expect d PIC_SLAVE_DATA = 0"

lemma pic_hardware: "pic_masks pic_io pic_ready masks"
  unfolding pic_masks_def
  by (intro allI impI, elim conjE insertE emptyE)
    (simp_all add: pic_io_def pic_ready_def pic_out_def PIC_MASTER_DATA_def PIC_SLAVE_DATA_def PIC_MASTER_COMMAND_def PIC_SLAVE_COMMAND_def)

lemma pic_expect:
  "expect (pic_out PIC_MASTER_DATA v d) q = (if q = PIC_MASTER_DATA then expect d q - 1 else expect d q)"
  "expect (pic_out PIC_SLAVE_DATA v d) q = (if q = PIC_SLAVE_DATA then expect d q - 1 else expect d q)"
  "expect (pic_out PIC_MASTER_COMMAND (PIC_ICW1_INIT OR PIC_ICW1_ICW4) d) q = (if q = PIC_MASTER_DATA then 3 else expect d q)"
  "expect (pic_out PIC_SLAVE_COMMAND (PIC_ICW1_INIT OR PIC_ICW1_ICW4) d) q = (if q = PIC_SLAVE_DATA then 3 else expect d q)"
  by (simp_all add: pic_out_def PIC_MASTER_DATA_def PIC_SLAVE_DATA_def PIC_MASTER_COMMAND_def PIC_SLAVE_COMMAND_def PIC_ICW1_INIT_def PIC_ICW1_ICW4_def)

theorem picDisable_masks_witness:
  "masks (picDisable pic_io pic_idle) PIC_MASTER_DATA = 0xFF \<and> masks (picDisable pic_io pic_idle) PIC_SLAVE_DATA = 0xFF"
proof -
  have "PIC_MASTER_DATA \<noteq> PIC_SLAVE_DATA" by (simp add: PIC_MASTER_DATA_def PIC_SLAVE_DATA_def)
  then have "pic_ready (picRemapOffsets pic_io 0x20 pic_idle)"
    by (simp add: pic_ready_def picRemapOffsets_def pic_io_def pic_idle_def pic_expect)
  then show ?thesis by (rule picDisable_masks [OF pic_hardware])
qed

text \<open>
  \<^verbatim>\<open>hpetStop\<close> toggles the enable bit instead of clearing it. Calibrating
  the APIC timer starts the event timer, sleeps, which stops it, and stops it once more: whatever the
  state before, the event timer is running when the calibration has returned.
\<close>
theorem initAPICTimer_leaves_hpet_running:
  assumes "hpet_config mm (hpet_addr h + HPET_GENERAL_CONFIG_REG) cfg"
    and "\<forall>f\<in>set env. \<forall>x. hpet_addr (fst (f x)) = hpet_addr (fst x) \<and> cfg (snd (f x)) = cfg (snd x)"
    and "initAPICTimer mm stubs env handler a (t, h, i, d) = Some (t', h', i', d')"
  shows "bit (cfg d') 0"
proof -
  let ?d1 = "lapicWriteReg mm a APIC_TMRINITCNT 0xFFFFFFFF (hpetStart mm h (lapicWriteReg mm a APIC_LVT_TMR (ucast IRQ0) (lapicWriteReg mm a APIC_TMRDIV 0 d)))"
  obtain i1 h2 d2 t1 where r: "irqRegisterHandler stubs IRQ0 handler i = Some i1"
      "hpetMillisleep mm env 100 (h, ?d1) = Some (h2, d2)"
      "d' = snd (lapicReadReg mm a APIC_TMRCURRCNT (hpetStop mm h2 (lapicWriteReg mm a APIC_LVT_TMR APIC_LVT_MASK d2)))"
    using assms(3) by (auto simp: initAPICTimer_def bind_eq_Some_conv split_beta Let_def)
  obtain d3 h4 d4 where s: "hpetOneShot mm h (100 * 1000000 * 1000000) (hpetStart mm h ?d1) = Some d3" "hpet_wait env (h, d3) = Some (h4, d4)"
      "h2 = h4\<lparr>hpet_counter := 0\<rparr>" "d2 = hpetStop mm h4 d4"
    using r(2) by (auto simp: hpetMillisleep_def hpetNanosleep_def bind_eq_Some_conv Let_def)
  note b = hpet_bit [OF assms(1)]
  have "bit (cfg d3) 0" using b(1) hpetOneShot_config [OF assms(1) s(1)] by simp
  moreover have w: "hpet_addr h4 = hpet_addr h" "cfg d4 = cfg d3" using hpet_wait_keeps [OF s(2) assms(2)] by simp_all
  moreover have c4: "hpet_config mm (hpet_addr h4 + HPET_GENERAL_CONFIG_REG) cfg" "hpet_config mm (hpet_addr h2 + HPET_GENERAL_CONFIG_REG) cfg"
    using assms(1) w s(3) by simp_all
  ultimately have "\<not> bit (cfg d2) 0" using hpet_bit(2) [OF c4(1)] s(4) by simp
  then show ?thesis unfolding r(3) using hpet_bit [OF c4(2)] b by simp
qed

definition reg_mm :: "(u64 \<Rightarrow> u64) mmio" where
  "reg_mm = \<lparr>read32 = (\<lambda>p d. (0, d)), write32 = (\<lambda>p v d. d), read64 = (\<lambda>p d. (d p, d)), write64 = (\<lambda>p v d. d(p := v))\<rparr>"

definition demo_hpet :: hpet where
  "demo_hpet = \<lparr>hpet_addr = 0xFED00000, minimum_tick = 0, period = 10000000, freqency = 0, hpet_counter = 0\<rparr>"

definition demo_apic :: apic where "demo_apic = \<lparr>lapic_addr = 0xFEE00000, ioapic_addr = 0xFEC00000\<rparr>"
definition demo_timer :: apic_timer where "demo_timer = \<lparr>ticks_per_second = 0, nanoseconds_per_tick = 0, time_counter = 0\<rparr>"

theorem initAPICTimer_leaves_hpet_running_witness:
  "\<exists>t h i d. initAPICTimer reg_mm demo_stubs [irqHPETHandler reg_mm demo_apic] 0x1000 demo_apic (demo_timer, demo_hpet, boot_idt, (\<lambda>_. 0)) = Some (t, h, i, d) \<and>
     bit (d (0xFED00010)) 0"
proof -
  have wf: "idt_wf demo_stubs boot_idt" by (simp add: idt_wf_def boot_idt_def IDT_MAX_DESCRIPTORS_def demo_stubs)
  have "unat IRQ0 < 48" by (simp add: IRQ0_def)
  from irqRegisterHandler_ok [OF wf this, of "0x1000"] obtain i where i: "irqRegisterHandler demo_stubs IRQ0 0x1000 boot_idt = Some i" by blast
  let ?R = "initAPICTimer reg_mm demo_stubs [irqHPETHandler reg_mm demo_apic] 0x1000 demo_apic (demo_timer, demo_hpet, boot_idt, (\<lambda>_. 0))"
  have "?R \<noteq> None"
    by (simp add: initAPICTimer_def i hpetMillisleep_def hpetNanosleep_def hpetOneShot_def div_u64_def demo_hpet_def timer_resolution_def
        hpet_wait.simps irqHPETHandler_def split_beta lapicReadReg_def reg_mm_def Let_def)
  then obtain t h i' d where r: "?R = Some (t, h, i', d)" by auto
  have c: "hpet_config reg_mm (hpet_addr demo_hpet + HPET_GENERAL_CONFIG_REG) (\<lambda>d. d 0xFED00010)"
    by (simp add: hpet_config_def reg_mm_def demo_hpet_def HPET_GENERAL_CONFIG_REG_def)
  have e: "\<forall>f\<in>set [irqHPETHandler reg_mm demo_apic]. \<forall>x. hpet_addr (fst (f x)) = hpet_addr (fst x) \<and> snd (f x) 0xFED00010 = snd x 0xFED00010"
    by (simp add: irqHPETHandler_def apicSendEOI_def lapicWriteReg_def reg_mm_def split_beta)
  from initAPICTimer_leaves_hpet_running [OF c e r] r show ?thesis by blast
qed

lemma ld_le_add:
  "ld_le m p (n + k) = do { x \<leftarrow> ld_le m p n; y \<leftarrow> ld_le m (p + of_nat n) k; Some (x OR push_bit (8 * n) y) }"
proof (induction n arbitrary: p)
  case 0
  show ?case by (cases "ld_le m p k") simp_all
next
  case (Suc n)
  then show ?case
    by (cases "ld8 m p"; cases "ld_le m (p + 1) n"; cases "ld_le m (p + 1 + of_nat n) k")
      (simp_all add: add.assoc push_bit_or or.assoc)
qed

lemma ld_le_bits: "ld_le m p n = Some w \<Longrightarrow> bit w k \<Longrightarrow> k < 8 * n"
proof (induction n arbitrary: p w k)
  case (Suc n)
  then obtain r and b :: u8 where b: "ld_le m (p + 1) n = Some r" "w = ucast b OR push_bit 8 r"
    by (auto simp: bind_eq_Some_conv)
  then show ?case using Suc.IH [OF b(1), of "k - 8"] Suc.prems(2)
    by (cases "k < 8") (auto simp: bit_simps bit_above)
qed simp

text \<open>
  The 64-bit local APIC address of an override entry is at byte 4 of the entry
  (ACPI specification), but the unpacked structure has it at byte 8: the address taken is the upper half
  of the real one, completed with the first four bytes of whatever follows the entry.
\<close>
theorem madt_override_misread:
  assumes "ptr < ptr2" and "\<not> ptr + 12 < ptr2" and "ld8 m ptr = Some 5" and "ld8 m (ptr + 1) = Some 12"
    and "ld_le m (ptr + 4) 8 = Some address" and "ld_le m (ptr + 12) 4 = Some following"
  shows "madt_walk m ptr ptr2 a = Some (a\<lparr>lapic_addr := drop_bit 32 address OR push_bit 32 following\<rparr>)"
proof -
  have "ld_le m (ptr + 4) (4 + 4) = Some address" using assms(5) by simp
  then obtain lo hi where l: "ld_le m (ptr + 4) 4 = Some lo" "ld_le m (ptr + 4 + of_nat 4) 4 = Some hi" "address = lo OR push_bit 32 hi"
    unfolding ld_le_add by (auto simp: bind_eq_Some_conv)
  have hi: "drop_bit 32 address = hi"
  proof (rule bit_word_eqI)
    fix n assume "n < LENGTH(64)"
    show "bit (drop_bit 32 address) n = bit hi n"
      using ld_le_bits [OF l(1), of "32 + n"] ld_le_bits [OF l(2), of n] by (auto simp: l(3) bit_simps)
  qed
  have "ld_le m (ptr + 8) (4 + 4) = Some (hi OR push_bit 32 following)"
    unfolding ld_le_add using l(2) assms(6) by (simp add: add.assoc)
  then have "ld_le m (ptr + 8) 8 = Some (drop_bit 32 address OR push_bit 32 following)" using hi by simp
  then show ?thesis using assms by (simp add: madt_walk.simps [of m ptr] madt_walk.simps [of m "ptr + 12"])
qed


definition madt_mem :: mem where
  "madt_mem = [0x1000 \<mapsto> 0xFEE0000000000C05, 0x1008 \<mapsto> 0x0000080100000000]"

theorem madt_override_misread_witness:
  "ld_le madt_mem 0x1004 8 = Some 0xFEE00000 \<and>
   madt_walk madt_mem 0x1000 0x100C demo_apic = Some (demo_apic\<lparr>lapic_addr := 0x0000080100000000\<rparr>)"
proof -
  have "ld8 madt_mem 0x1000 = Some 5" "ld8 madt_mem 0x1001 = Some 12" "ld_le madt_mem 0x1004 8 = Some 0xFEE00000"
    "ld_le madt_mem 0x100C 4 = Some 0x801" by code_simp+
  then show ?thesis using madt_override_misread [of "0x1000" "0x100C" madt_mem "0xFEE00000" "0x801" demo_apic] by simp
qed

end
