(* ===== verification/Keyboard.thy ===== *)
theory Keyboard
  imports Apic Input
begin

text \<open>
  The PS/2 keyboard: \<^verbatim>\<open>device/keyboard/keyboard.c\<close>. The state is the three modifier flags and the previous
  scan code; the handler reads one scan code from the data port, updates the flags, puts at most one
  character into the input queue and acknowledges the interrupt. The two translation tables are string
  literals of 59 bytes (the terminating zero included), indexed with any value below 128: the bytes that
  follow a table in memory are the arguments \<open>after\<close> and \<open>after_shift\<close>, and an index behind them is the
  value \<open>None\<close>. The main result is that typing a text, key by key, leaves exactly that text in the queue.
\<close>

section \<open>Constants and state\<close>

definition KEYBOARD_DATA_PORT :: u16 where "KEYBOARD_DATA_PORT = 0x60"
definition KEYBOARD_STATUS_REGISTER :: u16 where "KEYBOARD_STATUS_REGISTER = 0x64"
definition KEYBOARD_COMMAND_PORT :: u16 where "KEYBOARD_COMMAND_PORT = 0x64"
definition BACKSPACE :: u8 where "BACKSPACE = 0x80"
definition ENTER :: u8 where "ENTER = 0x82"
definition LEFT_CONTROL :: u8 where "LEFT_CONTROL = 0x83"
definition LEFT_SHIFT :: u8 where "LEFT_SHIFT = 0x84"
definition LEFT_ALT :: u8 where "LEFT_ALT = 0x85"
definition key_textCursorUp :: u8 where "key_textCursorUp = 0x86"
definition key_textCursorDown :: u8 where "key_textCursorDown = 0x87"
definition key_textCursorLeft :: u8 where "key_textCursorLeft = 0x88"
definition key_textCursorRight :: u8 where "key_textCursorRight = 0x89"
definition SCREEN_CLEAR :: u8 where "SCREEN_CLEAR = 0x90"
definition KEYBOARD_IRQ :: u8 where "KEYBOARD_IRQ = 33"

record keyboard =
  shift_pressed :: bool
  ctrl_pressed :: bool
  alt_pressed :: bool
  prev_scan :: u8

definition initial_keyboard :: keyboard where
  "initial_keyboard = \<lparr>shift_pressed = False, ctrl_pressed = False, alt_pressed = False, prev_scan = 0\<rparr>"

abbreviation bytes_of :: "string \<Rightarrow> u8 list" where
  "bytes_of s \<equiv> map of_char s"

definition scan_code_1 :: "u8 list" where
  "scan_code_1 = [0, 0] @ bytes_of ''1234567890-='' @ [0x80, 0x09] @ bytes_of ''qwertyuiop[]'' @ [0x82, 0x83] @
     bytes_of ''asdfghjkl;'' @ [0x27, 0x60] @ [0x84, 0x5C] @ bytes_of ''zxcvbnm,./'' @ [0x84] @ bytes_of ''*'' @
     [0x85] @ bytes_of '' '' @ [0]"

definition scan_code_1_shift :: "u8 list" where
  "scan_code_1_shift = [0, 0] @ bytes_of ''!@#$%^&*()_+'' @ [0x80, 0x09] @ bytes_of ''QWERTYUIOP{}'' @ [0x82, 0x83] @
     bytes_of ''ASDFGHJKL:'' @ [0x22, 0x7E] @ [0x84, 0x5C] @ bytes_of ''ZXCVBNM<>?'' @ [0x84] @ bytes_of ''*'' @
     [0x85] @ bytes_of '' '' @ [0]"

section \<open>Operations\<close>

definition initKeyboard :: "u64 list \<Rightarrow> u64 \<Rightarrow> idt_state \<Rightarrow> idt_state option" where
  "initKeyboard isr_stub_table irqKeyboardHandler s = irqRegisterHandler isr_stub_table KEYBOARD_IRQ irqKeyboardHandler s"

definition keyboardSetRedir :: "'d mmio \<Rightarrow> apic \<Rightarrow> u64 \<Rightarrow> 'd \<Rightarrow> u64 \<times> 'd" where
  "keyboardSetRedir mm a redir d =
     (let redir = (redir AND NOT (mask 8)) OR ucast KEYBOARD_IRQ
      in (redir, ioapicWriteRedir mm a (KEYBOARD_IRQ - 32) redir d))"

definition keyboardGetStatus :: "'d port_io \<Rightarrow> 'd \<Rightarrow> u8 \<times> 'd" where
  "keyboardGetStatus io d = inb io KEYBOARD_STATUS_REGISTER d"

definition keyboardGetByte :: "'d port_io \<Rightarrow> 'd \<Rightarrow> u8 \<times> 'd" where
  "keyboardGetByte io d = inb io KEYBOARD_DATA_PORT d"

definition keyboardSendByte :: "'d port_io \<Rightarrow> u8 \<Rightarrow> 'd \<Rightarrow> 'd" where
  "keyboardSendByte io data d = outb io KEYBOARD_DATA_PORT data d"

definition keyboardSendCommand :: "'d port_io \<Rightarrow> u8 \<Rightarrow> 'd \<Rightarrow> 'd" where
  "keyboardSendCommand io command d = outb io KEYBOARD_COMMAND_PORT command d"

definition keyboardIsLetter :: "u8 \<Rightarrow> bool" where
  "keyboardIsLetter c \<longleftrightarrow> 0x61 \<le> sint c \<and> sint c \<le> 0x7A"

text \<open>
  The character of a key that is neither a modifier, nor backspace, nor enter. The arrow keys are tested on
  the scan code itself, which the caller has found to be below 128.
\<close>

definition key_char :: "u8 list \<Rightarrow> u8 list \<Rightarrow> keyboard \<Rightarrow> u8 \<Rightarrow> u8 option" where
  "key_char after after_shift k scan =
     (if prev_scan k \<noteq> 0xE0 then do {
        plain \<leftarrow> get_at (scan_code_1 @ after) (unat (scan AND 0x7F));
        if \<not> ctrl_pressed k \<or> plain \<noteq> of_char CHR ''l'' then
          if \<not> shift_pressed k then Some plain
          else get_at (scan_code_1_shift @ after_shift) (unat (scan AND 0x7F))
        else Some SCREEN_CLEAR }
      else if scan = 0x48 then Some key_textCursorUp
      else if scan = 0x4B then Some key_textCursorLeft
      else if scan = 0x4D then Some key_textCursorRight
      else if scan = 0x50 then Some key_textCursorDown
      else Some 0)"

definition irqKeyboardHandler ::
    "'d port_io \<Rightarrow> 'd mmio \<Rightarrow> apic \<Rightarrow> u8 list \<Rightarrow> u8 list \<Rightarrow> keyboard \<times> iqueue_t \<times> 'd \<Rightarrow> (keyboard \<times> iqueue_t \<times> 'd) option" where
  "irqKeyboardHandler io mm a after after_shift kqd = do {
     let (k, q, d) = kqd;
     let (scan, d) = keyboardGetByte io d;
     let released = (drop_bit 7 (scan AND 0x80) \<noteq> 0);
     code \<leftarrow> get_at (scan_code_1 @ after) (unat (scan AND 0x7F));
     (k, q) \<leftarrow>
       (if \<not> released then
          if code = LEFT_SHIFT then Some (k\<lparr>shift_pressed := True\<rparr>, q)
          else if code = LEFT_CONTROL then Some (k\<lparr>ctrl_pressed := True\<rparr>, q)
          else if code = LEFT_ALT then Some (k\<lparr>alt_pressed := True\<rparr>, q)
          else do {
            c \<leftarrow> (if code = BACKSPACE then Some 8
                 else if code = ENTER then Some 10
                 else key_char after after_shift k scan);
            q \<leftarrow> (if \<not> inputFull q then inputPutc q c else Some q);
            Some (k, q) }
        else if code = LEFT_SHIFT then Some (k\<lparr>shift_pressed := False\<rparr>, q)
        else if code = LEFT_CONTROL then Some (k\<lparr>ctrl_pressed := False\<rparr>, q)
        else if code = LEFT_ALT then Some (k\<lparr>alt_pressed := False\<rparr>, q)
        else Some (k, q));
     Some (k\<lparr>prev_scan := scan\<rparr>, q, apicSendEOI mm a d) }"

section \<open>Typing a text\<close>

text \<open>
  The keyboard controller behind the data port: \<open>present b d\<close> is the hardware with the scan code \<open>b\<close> in
  its output buffer. \<open>interrupts\<close> is the handler run for a sequence of scan codes.
\<close>

primrec interrupts ::
    "'d port_io \<Rightarrow> 'd mmio \<Rightarrow> apic \<Rightarrow> u8 list \<Rightarrow> u8 list \<Rightarrow> (u8 \<Rightarrow> 'd \<Rightarrow> 'd) \<Rightarrow> u8 list \<Rightarrow>
     keyboard \<times> iqueue_t \<times> 'd \<Rightarrow> (keyboard \<times> iqueue_t \<times> 'd) option" where
  "interrupts io mm a after after_shift present [] s = Some s"
| "interrupts io mm a after after_shift present (b # bs) s = do {
     s \<leftarrow> irqKeyboardHandler io mm a after after_shift (case s of (k, q, d) \<Rightarrow> (k, q, present b d));
     interrupts io mm a after after_shift present bs s }"

definition special :: "u8 \<Rightarrow> bool" where
  "special c \<longleftrightarrow> c \<in> {0, BACKSPACE, ENTER, LEFT_CONTROL, LEFT_SHIFT, LEFT_ALT}"

definition find_key :: "u8 list \<Rightarrow> u8 \<Rightarrow> nat option" where
  "find_key table c = (if special c then None else find (\<lambda>i. table ! i = c) [0..<59])"

definition keystrokes :: "u8 \<Rightarrow> u8 list option" where
  "keystrokes c =
     (if c = 8 then Some [14, 14 + 128]
      else if c = 10 then Some [28, 28 + 128]
      else case find_key scan_code_1 c of
        Some i \<Rightarrow> Some [of_nat i, of_nat i + 128]
      | None \<Rightarrow> map_option (\<lambda>i. [42, of_nat i, of_nat i + 128, 42 + 128]) (find_key scan_code_1_shift c))"

definition typed :: "u8 list \<Rightarrow> u8 list" where
  "typed text = concat (map (\<lambda>c. the (keystrokes c)) text)"

definition idle_keys :: "keyboard \<Rightarrow> bool" where
  "idle_keys k \<longleftrightarrow> \<not> shift_pressed k \<and> \<not> ctrl_pressed k \<and> prev_scan k \<noteq> 0xE0"

lemma top_bit_test: "drop_bit 7 (x AND 0x80) = (of_bool (bit x 7) :: u8)"
proof (rule bit_word_eqI)
  fix n
  have "(0x80 :: u8) = push_bit 7 1" by simp
  then show "bit (drop_bit 7 (x AND 0x80)) n = bit (of_bool (bit x 7) :: u8) n"
    by (auto simp: bit_simps simp del: push_bit_of_1 dest: bit_imp_le_length)
qed

lemma key_index:
  assumes "i < 128"
  shows "unat ((of_nat i :: u8) AND 0x7F) = i" "unat ((of_nat i + 128 :: u8) AND 0x7F) = i"
    and "drop_bit 7 ((of_nat i :: u8) AND 0x80) = 0" "drop_bit 7 ((of_nat i + 128 :: u8) AND 0x80) = 1"
proof -
  have m: "(0x7F :: u8) = mask 7" by (simp add: mask_eq_exp_minus_1)
  have u: "unat (of_nat i :: u8) = i" using assms by (simp add: unat_of_nat)
  have v: "unat (of_nat i + 128 :: u8) = i + 128" using assms unat_of_nat [of "i + 128", where 'a = 8] by simp
  show "unat ((of_nat i :: u8) AND 0x7F) = i"
    using assms u by (simp add: m take_bit_eq_mask [symmetric] take_bit_eq_mod unat_mod)
  show "unat ((of_nat i + 128 :: u8) AND 0x7F) = i"
    using assms v by (simp add: m take_bit_eq_mask [symmetric] take_bit_eq_mod unat_mod)
  have b: "bit x 7 \<longleftrightarrow> odd (unat x div 128)" for x :: u8
    using bit_unsigned_iff [of x 7, where ?'a = nat] by (simp add: bit_iff_odd [of "unat x"] possible_bit_def)
  show "drop_bit 7 ((of_nat i :: u8) AND 0x80) = 0" unfolding top_bit_test b u using assms by simp
  show "drop_bit 7 ((of_nat i + 128 :: u8) AND 0x80) = 1" unfolding top_bit_test b v using assms by (simp add: div_add_self2)
qed

lemma length_tables [simp]: "length scan_code_1 = 59" "length scan_code_1_shift = 59"
  by (simp_all add: scan_code_1_def scan_code_1_shift_def)

lemma get_at_table: "i < 59 \<Longrightarrow> length table = 59 \<Longrightarrow> get_at (table @ xs) i = Some (table ! i)"
  by (simp add: get_at_def nth_append)

lemma find_keyD:
  assumes "find_key table c = Some i"
  shows "i < 59" "table ! i = c" "\<not> special c"
  using assms by (auto simp: find_key_def find_Some_iff split: if_splits)

lemma shift_positions: "\<forall>i\<in>set [0..<59]. special (scan_code_1_shift ! i) = special (scan_code_1 ! i)"
  by code_simp

lemma named_keys: "scan_code_1 ! 14 = BACKSPACE" "scan_code_1 ! 28 = ENTER" "scan_code_1 ! 42 = LEFT_SHIFT"
  by code_simp+

lemmas key_codes = BACKSPACE_def ENTER_def LEFT_CONTROL_def LEFT_SHIFT_def LEFT_ALT_def

lemma inputPutc_ok:
  assumes "iq_rep q xs" "length xs < 31"
  shows "\<not> inputFull q" "\<exists>q'. inputPutc q c = Some q' \<and> iq_rep q' (xs @ [c]) \<and> lock q' = lock q"
  using assms iqueuePutc_ok [OF assms] by (auto simp: inputFull_def inputPutc_def iqueueFull_iff iq_rep_def)

lemma key_tests:
  assumes "i < 59"
  shows "unat ((of_nat i :: u8) AND 0x7F) = i" "unat ((of_nat i + 128 :: u8) AND 0x7F) = i"
    and "drop_bit 7 (of_nat i :: u8) AND 1 = 0" "drop_bit 7 (of_nat i + 128 :: u8) AND 1 = 1"
  using key_index [of i] assms by simp_all

text \<open>One interrupt: a character key, a modifier going down, and a key going up.\<close>

lemma handler_char:
  assumes scan: "inb io KEYBOARD_DATA_PORT d = (of_nat i, d1)" and i: "i < 59"
    and code: "scan_code_1 ! i \<notin> {LEFT_SHIFT, LEFT_CONTROL, LEFT_ALT}"
    and c: "(if scan_code_1 ! i = BACKSPACE then Some 8 else if scan_code_1 ! i = ENTER then Some 10
             else key_char after after_shift k (of_nat i)) = Some c"
    and q: "iq_rep q xs" "length xs < 31"
  shows "\<exists>q'. irqKeyboardHandler io mm a after after_shift (k, q, d) =
      Some (k\<lparr>prev_scan := of_nat i\<rparr>, q', apicSendEOI mm a d1) \<and> iq_rep q' (xs @ [c]) \<and> lock q' = lock q"
  using inputPutc_ok(1) [OF q] inputPutc_ok(2) [OF q, where c = c] code c
  by (auto simp: irqKeyboardHandler_def keyboardGetByte_def scan key_tests i get_at_table split: if_splits)

lemma handler_shift:
  assumes scan: "inb io KEYBOARD_DATA_PORT d = (of_nat i, d1)" and i: "i < 59" and code: "scan_code_1 ! i = LEFT_SHIFT"
  shows "irqKeyboardHandler io mm a after after_shift (k, q, d) =
      Some (k\<lparr>shift_pressed := True, prev_scan := of_nat i\<rparr>, q, apicSendEOI mm a d1)"
  by (simp add: irqKeyboardHandler_def keyboardGetByte_def scan key_tests i get_at_table code)

lemma handler_release:
  assumes scan: "inb io KEYBOARD_DATA_PORT d = (of_nat i + 128, d1)" and i: "i < 59"
    and code: "scan_code_1 ! i \<notin> {LEFT_CONTROL, LEFT_ALT}"
  shows "irqKeyboardHandler io mm a after after_shift (k, q, d) =
      Some (k\<lparr>shift_pressed := shift_pressed k \<and> scan_code_1 ! i \<noteq> LEFT_SHIFT, prev_scan := of_nat i + 128\<rparr>, q, apicSendEOI mm a d1)"
  using code
  by (auto simp: irqKeyboardHandler_def keyboardGetByte_def scan key_tests i get_at_table)

lemma not_extended: "i < 59 \<Longrightarrow> (of_nat i :: u8) \<noteq> 0xE0 \<and> (of_nat i + 128 :: u8) \<noteq> 0xE0"
  using unat_of_nat [of i, where 'a = 8] unat_of_nat [of "i + 128", where 'a = 8]
  by (auto simp: word_unat_eq_iff)

definition quiet :: "keyboard \<Rightarrow> keyboard \<Rightarrow> bool" where
  "quiet k k' \<longleftrightarrow> idle_keys k' \<and> alt_pressed k' = alt_pressed k"

lemma key_down_up:
  assumes data_port: "\<And>b d. fst (inb io KEYBOARD_DATA_PORT (present b d)) = b"
    and i: "i < 59" and code: "scan_code_1 ! i \<notin> {LEFT_SHIFT, LEFT_CONTROL, LEFT_ALT}"
    and c: "(if scan_code_1 ! i = BACKSPACE then Some 8 else if scan_code_1 ! i = ENTER then Some 10
             else key_char after after_shift k (of_nat i)) = Some c"
    and q: "iq_rep q xs" "length xs < 31"
  shows "\<exists>q' d'. interrupts io mm a after after_shift present [of_nat i, of_nat i + 128] (k, q, d) =
      Some (k\<lparr>prev_scan := of_nat i + 128\<rparr>, q', d') \<and> iq_rep q' (xs @ [c]) \<and> lock q' = lock q"
proof -
  have p: "inb io KEYBOARD_DATA_PORT (present b d) = (b, snd (inb io KEYBOARD_DATA_PORT (present b d)))" for b d
    using data_port by (simp add: prod_eq_iff)
  obtain q' where q': "irqKeyboardHandler io mm a after after_shift (k, q, present (of_nat i) d) =
      Some (k\<lparr>prev_scan := of_nat i\<rparr>, q', apicSendEOI mm a (snd (inb io KEYBOARD_DATA_PORT (present (of_nat i) d))))"
      "iq_rep q' (xs @ [c])" "lock q' = lock q"
    using handler_char [OF p i code c q] by blast
  show ?thesis
    using q' code by (simp add: handler_release [OF p i])
qed

lemma interrupts_append: "interrupts io mm a after after_shift present (xs @ ys) s =
    interrupts io mm a after after_shift present xs s \<bind> interrupts io mm a after after_shift present ys"
  by (induction xs arbitrary: s) (auto simp: bind_assoc)

lemma keystrokes_ok:
  assumes data_port: "\<And>b d. fst (inb io KEYBOARD_DATA_PORT (present b d)) = b"
    and keys: "keystrokes c = Some bs" and k: "idle_keys k" and q: "iq_rep q xs" "length xs < 31"
  shows "\<exists>k' q' d'. interrupts io mm a after after_shift present bs (k, q, d) = Some (k', q', d') \<and>
      quiet k k' \<and> iq_rep q' (xs @ [c]) \<and> lock q' = lock q"
proof -
  have p: "inb io KEYBOARD_DATA_PORT (present b d) = (b, snd (inb io KEYBOARD_DATA_PORT (present b d)))" for b d
    using data_port by (simp add: prod_eq_iff)
  note du = key_down_up [where present = present and io = io and after = after and after_shift = after_shift and mm = mm and a = a, OF data_port]
  consider "c = 8" | "c = 10" | i where "c \<noteq> 8" "c \<noteq> 10" "find_key scan_code_1 c = Some i" "bs = [of_nat i, of_nat i + 128]"
    | i where "find_key scan_code_1_shift c = Some i" "bs = [42, of_nat i, of_nat i + 128, 42 + 128]"
    using keys by (auto simp: keystrokes_def split: if_splits option.splits)
  then show ?thesis
  proof cases
    case 1
    then show ?thesis
      using keys k du [of 14, OF _ _ _ q] by (fastforce simp: keystrokes_def named_keys key_codes quiet_def idle_keys_def)
  next
    case 2
    then show ?thesis
      using keys k du [of 28, OF _ _ _ q] by (fastforce simp: keystrokes_def named_keys key_codes quiet_def idle_keys_def)
  next
    case (3 i)
    note fk = find_keyD [OF 3(3)]
    have "key_char after after_shift k (of_nat i) = Some c"
      using k fk by (simp add: key_char_def key_tests get_at_table idle_keys_def)
    then obtain q' d' where "interrupts io mm a after after_shift present bs (k, q, d) = Some (k\<lparr>prev_scan := of_nat i + 128\<rparr>, q', d')"
        "iq_rep q' (xs @ [c])" "lock q' = lock q"
      using du [of i k c, OF _ _ _ q, where d = d] fk 3(4) by (auto simp: special_def simp del: interrupts.simps)
    then show ?thesis
      using k fk(1) not_extended [of i] by (auto simp: quiet_def idle_keys_def simp del: interrupts.simps)
  next
    case (4 i)
    note fk = find_keyD [OF 4(1)]
    have sp: "\<not> special (scan_code_1 ! i)" using shift_positions fk by auto
    let ?k = "k\<lparr>shift_pressed := True, prev_scan := 42\<rparr>"
    have kc: "key_char after after_shift ?k (of_nat i) = Some c"
      using k fk by (simp add: key_char_def key_tests get_at_table idle_keys_def)
    define d1 where "d1 = apicSendEOI mm a (snd (inb io KEYBOARD_DATA_PORT (present 42 d)))"
    obtain q' d' where q': "interrupts io mm a after after_shift present [of_nat i, of_nat i + 128] (?k, q, d1) =
          Some (?k\<lparr>prev_scan := of_nat i + 128\<rparr>, q', d')" "iq_rep q' (xs @ [c])" "lock q' = lock q"
      using kc du [of i ?k c, OF _ _ _ q, where d = d1] fk(1) sp by (auto simp: special_def simp del: interrupts.simps)
    have down: "interrupts io mm a after after_shift present [42] (k, q, d) = Some (?k, q, d1)"
      using p [of 42 d] handler_shift [of io "present 42 d" 42] by (simp add: named_keys d1_def)
    have up: "interrupts io mm a after after_shift present [42 + 128] (?k\<lparr>prev_scan := of_nat i + 128\<rparr>, q', d') =
        Some (k\<lparr>shift_pressed := False, prev_scan := 42 + 128\<rparr>, q', apicSendEOI mm a (snd (inb io KEYBOARD_DATA_PORT (present (42 + 128) d'))))"
      using p [of "42 + 128" d'] handler_release [of io "present (42 + 128) d'" 42] by (simp add: named_keys key_codes)
    have "bs = [42] @ [of_nat i, of_nat i + 128] @ [42 + 128]" using 4(2) by simp
    then have "interrupts io mm a after after_shift present bs (k, q, d) =
        Some (k\<lparr>shift_pressed := False, prev_scan := 42 + 128\<rparr>, q', apicSendEOI mm a (snd (inb io KEYBOARD_DATA_PORT (present (42 + 128) d'))))"
      by (simp only: interrupts_append down q'(1) up bind.bind_lunit)
    then show ?thesis
      using k q'(2,3) by (auto simp: quiet_def idle_keys_def simp del: interrupts.simps)
  qed
qed

lemma typed_ok:
  assumes data_port: "\<And>b d. fst (inb io KEYBOARD_DATA_PORT (present b d)) = b"
    and "\<forall>c\<in>set str. keystrokes c \<noteq> None" "idle_keys k" "iq_rep q xs" "length xs + length str \<le> 31"
  shows "\<exists>k' q' d'. interrupts io mm a after after_shift present (typed str) (k, q, d) = Some (k', q', d') \<and>
      quiet k k' \<and> iq_rep q' (xs @ str) \<and> lock q' = lock q"
  using assms(2-)
proof (induction str arbitrary: k q xs d)
  case Nil
  then show ?case by (simp add: typed_def quiet_def)
next
  case (Cons c str)
  from Cons.prems obtain bs where bs: "keystrokes c = Some bs" by auto
  obtain k1 q1 d1 where 1: "interrupts io mm a after after_shift present bs (k, q, d) = Some (k1, q1, d1)"
      "quiet k k1" "iq_rep q1 (xs @ [c])" "lock q1 = lock q"
    using keystrokes_ok [where io = io and present = present and mm = mm and a = a, OF data_port bs Cons.prems(2,3)] Cons.prems(4)
    by fastforce
  obtain k2 q2 d2 where 2: "interrupts io mm a after after_shift present (typed str) (k1, q1, d1) = Some (k2, q2, d2)"
      "quiet k1 k2" "iq_rep q2 ((xs @ [c]) @ str)" "lock q2 = lock q1"
    using Cons.IH [of k1 q1 "xs @ [c]" d1] Cons.prems 1 by (auto simp: quiet_def simp del: interrupts.simps)
  have "typed (c # str) = bs @ typed str" by (simp add: typed_def bs)
  with 1 2 show ?case by (simp add: interrupts_append quiet_def)
qed

section \<open>Properties\<close>

text \<open>
  Typing a text. For every text made of characters that have a key (with the shift key
  or without, backspace and enter included) and that fits into the input queue, the handler run for the scan codes of pressing and releasing the keys one
  after the other returns each time and leaves exactly the text at the end of the queue, the queue's
  lock as it was, and the modifier keys up. The hypothesis on the hardware is that the data port delivers
  the scan code the keyboard has presented.
\<close>

theorem keyboard_types_text:
  assumes data_port: "\<And>b d. fst (inb io KEYBOARD_DATA_PORT (present b d)) = b"
    and keys: "\<forall>c\<in>set str. keystrokes c \<noteq> None" and k: "idle_keys k"
    and q: "iq_rep q xs" and room: "length xs + length str \<le> 31"
  shows "\<exists>k' q' d'. interrupts io mm a after after_shift present (typed str) (k, q, d) = Some (k', q', d') \<and>
      idle_keys k' \<and> iq_rep q' (xs @ str) \<and> lock q' = lock q"
  using typed_ok [where io = io and present = present, OF data_port keys k q room] by (fastforce simp: quiet_def)

definition demo_port :: "u8 port_io" where
  "demo_port = \<lparr>inb = \<lambda>_ d. (d, d), outb = \<lambda>_ _ d. d, inw = \<lambda>_ d. (0, d), outw = \<lambda>_ _ d. d, inl = \<lambda>_ d. (0, d), outl = \<lambda>_ _ d. d\<rparr>"

definition demo_mmio :: "u8 mmio" where
  "demo_mmio = \<lparr>read32 = \<lambda>_ d. (0, d), write32 = \<lambda>_ _ d. d, read64 = \<lambda>_ d. (0, d), write64 = \<lambda>_ _ d. d\<rparr>"

definition demo_queue :: iqueue_t where
  "demo_queue = initIQueue \<lparr>lock = 0, buf = replicate 32 0, head = 0, tail = 0\<rparr>"

theorem keyboard_types_text_witness:
  "\<exists>k' q' d'. interrupts demo_port demo_mmio demo_apic [] [] (\<lambda>b d. b) [42, 30, 158, 170, 48, 176, 28, 156] (initial_keyboard, demo_queue, 0) = Some (k', q', d') \<and>
      idle_keys k' \<and> iq_rep q' (bytes_of ''Ab\<newline>'') \<and> lock q' = 0"
proof -
  have t: "typed (bytes_of ''Ab\<newline>'') = [42, 30, 158, 170, 48, 176, 28, 156]"
    by code_simp
  have keys: "\<forall>c\<in>set (bytes_of ''Ab\<newline>''). keystrokes c \<noteq> None" by code_simp
  have port: "fst (inb demo_port KEYBOARD_DATA_PORT b) = b" for b by (simp add: demo_port_def)
  have k: "idle_keys initial_keyboard" by (simp add: idle_keys_def initial_keyboard_def)
  have q: "iq_rep demo_queue []" by (simp add: demo_queue_def initIQueue_ok)
  have l: "lock demo_queue = 0" by (simp add: demo_queue_def initIQueue_def spinInit_def)
  show ?thesis
    using keyboard_types_text [of demo_port "\<lambda>b d. b", OF port keys k q, where mm = demo_mmio and a = demo_apic and after = "[]" and after_shift = "[]" and d = 0]
    by (simp only: t l append_Nil) simp
qed

text \<open>
  The prefix \<open>0xE0\<close> of the arrow keys, with its top bit set, is taken for a key that is released and looked up at
  index 96 of the 59-byte table, so the handler reads behind the table for every extended key before it can recognise it; so does every other code from 59 on.
\<close>

theorem keyboard_extended_overrun:
  assumes "inb io KEYBOARD_DATA_PORT d = (scan, d')" "59 \<le> unat (scan AND 0x7F)"
  shows "irqKeyboardHandler io mm a [] after_shift (k, q, d) = None"
  using assms by (simp add: irqKeyboardHandler_def keyboardGetByte_def get_at_def)

theorem keyboard_extended_overrun_witness:
  "irqKeyboardHandler demo_port demo_mmio demo_apic [] [] (initial_keyboard, demo_queue, 0xE0) = None"
  using keyboard_extended_overrun [of demo_port "0xE0" "0xE0" "0xE0"] by (simp add: demo_port_def)

end
