(* ===== verification/Pci.thy ===== *)
theory Pci
  imports Ports CString
begin

text \<open>
  The PCI configuration space: \<^verbatim>\<open>device/pci/pci.c\<close>. A register is selected by writing its address to one port
  and accessed through another; the bridge behind the two ports is hardware, the parameter \<open>io\<close>. The walk
  along the capability list is a partial function, so that its result is also a proof that it ends. The
  theory shows that the address of a register determines bus, device, function and register, that the
  narrow reads are parts of the 32-bit read, and when the walk along the capabilities ends.
\<close>

section \<open>Operations\<close>

definition PCI_CONFIG_ADDR :: u16 where "PCI_CONFIG_ADDR = 0xCF8"
definition PCI_CONFIG_DATA :: u16 where "PCI_CONFIG_DATA = 0xCFC"
definition PCI_CLASS_MASS_STORAGE :: u8 where "PCI_CLASS_MASS_STORAGE = 1"
definition PCI_SUBCLASS_NVM :: u8 where "PCI_SUBCLASS_NVM = 8"

definition pci_address :: "u8 \<Rightarrow> u8 \<Rightarrow> u8 \<Rightarrow> u8 \<Rightarrow> u32" where
  "pci_address bus device func offset =
     push_bit 16 (ucast bus) OR push_bit 11 (ucast device) OR push_bit 8 (ucast func) OR ucast (offset AND 0xFC) OR 0x80000000"

definition pciConfigReadLong :: "'d port_io \<Rightarrow> u8 \<Rightarrow> u8 \<Rightarrow> u8 \<Rightarrow> u8 \<Rightarrow> 'd \<Rightarrow> u32 \<times> 'd" where
  "pciConfigReadLong io bus device func offset d =
     inl io PCI_CONFIG_DATA (outl io PCI_CONFIG_ADDR (pci_address bus device func offset) d)"

definition pciConfigReadByte :: "'d port_io \<Rightarrow> u8 \<Rightarrow> u8 \<Rightarrow> u8 \<Rightarrow> u8 \<Rightarrow> 'd \<Rightarrow> u8 \<times> 'd" where
  "pciConfigReadByte io bus device func offset d =
     (let (v, d) = inl io PCI_CONFIG_DATA (outl io PCI_CONFIG_ADDR (pci_address bus device func offset) d)
      in (ucast (drop_bit (unat (offset AND 3) * 8) v AND 0xFF), d))"

definition pciConfigReadWord :: "'d port_io \<Rightarrow> u8 \<Rightarrow> u8 \<Rightarrow> u8 \<Rightarrow> u8 \<Rightarrow> 'd \<Rightarrow> u16 \<times> 'd" where
  "pciConfigReadWord io bus device func offset d =
     (let (v, d) = inl io PCI_CONFIG_DATA (outl io PCI_CONFIG_ADDR (pci_address bus device func offset) d)
      in (ucast (drop_bit (unat (offset AND 2) * 8) v AND 0xFFFF), d))"

definition pciConfigWriteLong :: "'d port_io \<Rightarrow> u8 \<Rightarrow> u8 \<Rightarrow> u8 \<Rightarrow> u8 \<Rightarrow> u32 \<Rightarrow> 'd \<Rightarrow> 'd" where
  "pciConfigWriteLong io bus device func offset data d =
     outl io PCI_CONFIG_DATA data (outl io PCI_CONFIG_ADDR (pci_address bus device func offset) d)"

definition pciGetBaseClass :: "'d port_io \<Rightarrow> u8 \<Rightarrow> u8 \<Rightarrow> u8 \<Rightarrow> 'd \<Rightarrow> u8 \<times> 'd" where
  "pciGetBaseClass io bus device func d = pciConfigReadByte io bus device func 0xB d"

definition pciGetSubClass :: "'d port_io \<Rightarrow> u8 \<Rightarrow> u8 \<Rightarrow> u8 \<Rightarrow> 'd \<Rightarrow> u8 \<times> 'd" where
  "pciGetSubClass io bus device func d = pciConfigReadByte io bus device func 0xA d"

definition pciReadStatus :: "'d port_io \<Rightarrow> u8 \<Rightarrow> u8 \<Rightarrow> u8 \<Rightarrow> 'd \<Rightarrow> u16 \<times> 'd" where
  "pciReadStatus io bus device func d = pciConfigReadWord io bus device func 0x6 d"

definition pciReadCommand :: "'d port_io \<Rightarrow> u8 \<Rightarrow> u8 \<Rightarrow> u8 \<Rightarrow> 'd \<Rightarrow> u16 \<times> 'd" where
  "pciReadCommand io bus device func d = pciConfigReadWord io bus device func 0x4 d"

definition pciWriteCommand :: "'d port_io \<Rightarrow> u8 \<Rightarrow> u8 \<Rightarrow> u8 \<Rightarrow> u16 \<Rightarrow> 'd \<Rightarrow> 'd" where
  "pciWriteCommand io bus device func command d =
     (let (data, d) = pciReadStatus io bus device func d
      in pciConfigWriteLong io bus device func 0x4 (push_bit 16 (ucast data) OR ucast command) d)"

definition pciGetBAR :: "'d port_io \<Rightarrow> u8 \<Rightarrow> u8 \<Rightarrow> u8 \<Rightarrow> u8 \<Rightarrow> 'd \<Rightarrow> u32 \<times> 'd" where
  "pciGetBAR io bus device func bar d = pciConfigReadLong io bus device func (0x10 + bar * 4) d"

definition pciGetCapPointer :: "'d port_io \<Rightarrow> u8 \<Rightarrow> u8 \<Rightarrow> u8 \<Rightarrow> 'd \<Rightarrow> u8 \<times> 'd" where
  "pciGetCapPointer io bus device func d = pciConfigReadByte io bus device func 0x34 d"

partial_function (option) cap_walk ::
    "'d port_io \<Rightarrow> u8 \<Rightarrow> u8 \<Rightarrow> u8 \<Rightarrow> u8 \<Rightarrow> u8 \<Rightarrow> u8 \<Rightarrow> 'd \<Rightarrow> (u8 \<times> 'd) option" where
  "cap_walk io bus device func cap cap_base next d =
     (if next \<noteq> 0 then
        (case pciConfigReadByte io bus device func cap_base d of (curr_cap, d) \<Rightarrow>
         case pciConfigReadByte io bus device func (cap_base + 1) d of (next, d) \<Rightarrow>
           if curr_cap = cap then Some (cap_base, d)
           else cap_walk io bus device func cap next next d)
      else Some (0, d))"

definition pciGetCapabilityOffset :: "'d port_io \<Rightarrow> u8 \<Rightarrow> u8 \<Rightarrow> u8 \<Rightarrow> u8 \<Rightarrow> 'd \<Rightarrow> (u8 \<times> 'd) option" where
  "pciGetCapabilityOffset io bus device func cap d =
     (case pciGetCapPointer io bus device func d of (cap_base, d) \<Rightarrow> cap_walk io bus device func cap cap_base 255 d)"

definition pciGetMessageTableBaseAddr :: "'d port_io \<Rightarrow> u8 \<Rightarrow> u8 \<Rightarrow> u8 \<Rightarrow> 'd \<Rightarrow> (u64 \<times> 'd) option" where
  "pciGetMessageTableBaseAddr io bus device func d = do {
     (msix_base, d) \<leftarrow> pciGetCapabilityOffset io bus device func 0x11 d;
     if msix_base = 0 then Some (- 1, d)
     else do {
       let (b, d) = pciConfigReadByte io bus device func (msix_base + 4) d;
       let bar_idx = b AND 7;
       let (bar, d) = pciGetBAR io bus device func bar_idx d;
       let bar0 = (ucast bar :: u64);
       if drop_bit 1 bar0 AND 3 = 2 then
         (case pciGetBAR io bus device func (bar_idx + 1) d of (bar1, d) \<Rightarrow>
            Some ((bar0 AND 0xFFFFFFF0) + push_bit 32 (ucast bar1 AND 0xFFFFFFFF), d))
       else Some (bar0 AND 0xFFFFFFF0, d) } }"

definition pciGetMessageTableOffset :: "'d port_io \<Rightarrow> u8 \<Rightarrow> u8 \<Rightarrow> u8 \<Rightarrow> 'd \<Rightarrow> (u32 \<times> 'd) option" where
  "pciGetMessageTableOffset io bus device func d = do {
     (msix_base, d) \<leftarrow> pciGetCapabilityOffset io bus device func 0x11 d;
     if msix_base = 0 then Some (- 1, d)
     else (case pciConfigReadLong io bus device func (msix_base + 4) d of (v, d) \<Rightarrow> Some (v AND 0xFFFFFFF8, d)) }"

definition pciGetMessageTableSize :: "'d port_io \<Rightarrow> u8 \<Rightarrow> u8 \<Rightarrow> u8 \<Rightarrow> 'd \<Rightarrow> (u32 \<times> 'd) option" where
  "pciGetMessageTableSize io bus device func d = do {
     (msix_base, d) \<leftarrow> pciGetCapabilityOffset io bus device func 0x11 d;
     if msix_base = 0 then Some (- 1, d)
     else (case pciConfigReadWord io bus device func (msix_base + 2) d of (v, d) \<Rightarrow> Some (ucast v AND 0x7FF, d)) }"

definition pciEnableMSIX :: "'d port_io \<Rightarrow> u8 \<Rightarrow> u8 \<Rightarrow> u8 \<Rightarrow> 'd \<Rightarrow> (u8 \<times> 'd) option" where
  "pciEnableMSIX io bus device func d = do {
     (msix_base, d) \<leftarrow> pciGetCapabilityOffset io bus device func 0x11 d;
     if msix_base = 0 then Some (- 1, d)
     else (case pciConfigReadLong io bus device func msix_base d of (reg, d) \<Rightarrow>
       Some (0, pciConfigWriteLong io bus device func msix_base ((reg AND 0x3FFFFFFF) OR 0x80000000) d)) }"

definition MSIX_ENTRY_SIZE :: u64 where "MSIX_ENTRY_SIZE = 16"

definition pciWriteMSIXEntry :: "mem \<Rightarrow> u64 \<Rightarrow> u16 \<Rightarrow> u64 \<Rightarrow> mem option" where
  "pciWriteMSIXEntry m msix_base idx entry = do {
     (_, m) \<leftarrow> memcpy m (msix_base + MSIX_ENTRY_SIZE * ucast idx) entry MSIX_ENTRY_SIZE;
     Some m }"

definition pciReadMSIXEntry :: "mem \<Rightarrow> u64 \<Rightarrow> u16 \<Rightarrow> u64 \<Rightarrow> mem option" where
  "pciReadMSIXEntry m msix_base idx entry = do {
     (_, m) \<leftarrow> memcpy m entry (msix_base + MSIX_ENTRY_SIZE * ucast idx) MSIX_ENTRY_SIZE;
     Some m }"

definition pciMSIXSetMask :: "mem \<Rightarrow> u64 \<Rightarrow> u16 \<Rightarrow> bool \<Rightarrow> mem option" where
  "pciMSIXSetMask m msix_base idx mask_it = do {
     let p = msix_base + MSIX_ENTRY_SIZE * ucast idx + 12;
     b \<leftarrow> ld8 m p;
     st8 m p ((b AND NOT 1) OR of_bool mask_it) }"

section \<open>The configuration space\<close>

text \<open>
  What the configuration mechanism promises: \<open>cfg d a\<close> is the register at the address \<open>a\<close>; a read delivers
  it and no read changes a register.
\<close>

definition config_mechanism :: "'d port_io \<Rightarrow> ('d \<Rightarrow> u32 \<Rightarrow> u32) \<Rightarrow> bool" where
  "config_mechanism io cfg \<longleftrightarrow>
     (\<forall>a d. fst (inl io PCI_CONFIG_DATA (outl io PCI_CONFIG_ADDR a d)) = cfg d a \<and>
            cfg (snd (inl io PCI_CONFIG_DATA (outl io PCI_CONFIG_ADDR a d))) = cfg d)"

definition cfg_byte :: "(u32 \<Rightarrow> u32) \<Rightarrow> u8 \<Rightarrow> u8 \<Rightarrow> u8 \<Rightarrow> u8 \<Rightarrow> u8" where
  "cfg_byte c bus device func offset = ucast (drop_bit (8 * (unat offset mod 4)) (c (pci_address bus device func offset)))"

text \<open>The capability list: the offsets from \<open>p\<close> on, following the byte after each capability id.\<close>

primrec cap_list :: "(u8 \<Rightarrow> u8) \<Rightarrow> u8 \<Rightarrow> u8 list \<Rightarrow> bool" where
  "cap_list byte p [] \<longleftrightarrow> False"
| "cap_list byte p (x # xs) \<longleftrightarrow> x = p \<and> (if xs = [] then byte (p + 1) = 0 else byte (p + 1) \<noteq> 0 \<and> cap_list byte (byte (p + 1)) xs)"

lemma low2: "unat (x AND 3 :: u8) = unat x mod 4"
proof -
  have m: "(3 :: u8) = mask 2" by (simp add: mask_eq_exp_minus_1)
  show ?thesis by (simp add: m take_bit_eq_mask [symmetric] take_bit_eq_mod unat_mod)
qed

lemma ucast_and_ff: "ucast (v AND 0xFF :: u32) = (ucast v :: u8)"
proof -
  have m: "(0xFF :: u32) = mask 8" by (simp add: mask_eq_exp_minus_1)
  show ?thesis unfolding m by (rule bit_word_eqI) (simp add: bit_simps)
qed

lemma pciConfigReadByte_ok:
  assumes "config_mechanism io cfg"
  shows "fst (pciConfigReadByte io bus device func offset d) = cfg_byte (cfg d) bus device func offset"
    and "cfg (snd (pciConfigReadByte io bus device func offset d)) = cfg d"
  using assms
  by (simp_all add: pciConfigReadByte_def config_mechanism_def cfg_byte_def low2 ucast_and_ff split_def Let_def mult.commute)

lemma cap_walk_step:
  assumes "config_mechanism io cfg" "next \<noteq> 0"
  obtains d' where "cfg d' = cfg d" "cap_walk io bus device func cap p next d =
     (if cfg_byte (cfg d) bus device func p = cap then Some (p, d')
      else cap_walk io bus device func cap (cfg_byte (cfg d) bus device func (p + 1)) (cfg_byte (cfg d) bus device func (p + 1)) d')"
proof -
  let ?d1 = "snd (pciConfigReadByte io bus device func p d)"
  let ?d2 = "snd (pciConfigReadByte io bus device func (p + 1) ?d1)"
  note ok = pciConfigReadByte_ok [OF assms(1)]
  show thesis
    by (rule that [of ?d2]) (use assms(2) in \<open>simp_all add: ok cap_walk.simps [of _ _ _ _ _ _ next] split_def\<close>)
qed

lemma cap_walk_ok:
  assumes io: "config_mechanism io cfg"
    and "cap_list (cfg_byte (cfg d) bus device func) p ps" "next \<noteq> 0"
  shows "\<exists>d'. cfg d' = cfg d \<and> cap_walk io bus device func cap p next d =
      Some (case find (\<lambda>q. cfg_byte (cfg d) bus device func q = cap) ps of None \<Rightarrow> 0 | Some q \<Rightarrow> q, d')"
  using assms(2-)
proof (induction ps arbitrary: p "next" d)
  case Nil
  then show ?case by simp
next
  case (Cons x xs)
  let ?byte = "cfg_byte (cfg d) bus device func"
  obtain d' where d': "cfg d' = cfg d" "cap_walk io bus device func cap p next d =
     (if ?byte p = cap then Some (p, d') else cap_walk io bus device func cap (?byte (p + 1)) (?byte (p + 1)) d')"
    using cap_walk_step [OF io Cons.prems(2)] by metis
  show ?case
  proof (cases "xs = []")
    case True
    with Cons.prems d' show ?thesis by (auto simp: cap_walk.simps [of _ _ _ _ _ _ 0])
  next
    case False
    with Cons.prems have n: "?byte (p + 1) \<noteq> 0" "cap_list ?byte (?byte (p + 1)) xs" "x = p" by auto
    from Cons.IH [of d' "?byte (p + 1)" "?byte (p + 1)"] n d' Cons.prems(2)
    show ?thesis by (auto simp: d' cong: if_cong)
  qed
qed

definition no_cap :: "(u8 \<Rightarrow> u8) \<Rightarrow> u8 \<Rightarrow> u8 set \<Rightarrow> bool" where
  "no_cap byte cap S \<longleftrightarrow> (\<forall>q\<in>S. byte q \<noteq> cap \<and> byte (q + 1) \<noteq> 0 \<and> byte (q + 1) \<in> S)"

lemma cap_walk_cycle:
  assumes "cap_walk io bus device func cap p next d = Some r" "config_mechanism io cfg" "next \<noteq> 0" "p \<in> S"
  shows "\<not> no_cap (cfg_byte (cfg d) bus device func) cap S"
proof -
  let ?P = "\<lambda>io bus device func cap p next d r. config_mechanism io cfg \<longrightarrow> next \<noteq> 0 \<longrightarrow> p \<in> S \<longrightarrow>
      \<not> no_cap (cfg_byte (cfg d) bus device func) cap S"
  have "?P io bus device func cap p next d r"
  proof (rule cap_walk.raw_induct [where P = ?P, OF _ assms(1)], intro impI, goal_cases)
    case (1 walk io bus device func cap p "next" d r)
    note ok = pciConfigReadByte_ok [OF 1(3)]
    show ?case
    proof
      assume S: "no_cap (cfg_byte (cfg d) bus device func) cap S"
      let ?d2 = "snd (pciConfigReadByte io bus device func (p + 1) (snd (pciConfigReadByte io bus device func p d)))"
      let ?n = "cfg_byte (cfg d) bus device func (p + 1)"
      have "cfg_byte (cfg d) bus device func p \<noteq> cap" "?n \<noteq> 0" "?n \<in> S" using S 1(5) by (auto simp: no_cap_def)
      moreover from this 1(2,4) have "walk io bus device func cap ?n ?n ?d2 = Some r" by (simp add: split_def ok)
      ultimately show False using 1(1) [of io bus device func cap ?n ?n ?d2 r] S 1(3) by (simp add: ok)
    qed
  qed
  with assms show ?thesis by simp
qed

lemma bit_high: "unat x < 2 ^ k \<Longrightarrow> k \<le> n \<Longrightarrow> \<not> bit (x :: u8) n"
proof
  assume a: "unat x < 2 ^ k" "k \<le> n" "bit x n"
  then have "bit (unat x) n" using bit_imp_le_length [OF a(3)] by (simp add: bit_unsigned_iff possible_bit_def)
  moreover have "unat x < 2 ^ n" using a(1,2) by (meson less_le_trans one_le_numeral power_increasing)
  ultimately show False by (simp add: bit_iff_odd)
qed

lemma pci_consts: "(0xFC :: u8) = push_bit 2 (mask 6)" "(0x80000000 :: u32) = push_bit 31 1"
  by (simp_all add: mask_eq_exp_minus_1 push_bit_eq_mult)

lemma bit_pci_address:
  assumes "device < 32" "func < 8"
  shows "bit (pci_address bus device func offset) n \<longleftrightarrow>
    (if n < 8 then 2 \<le> n \<and> bit offset n else if n < 11 then bit func (n - 8) else if n < 16 then bit device (n - 11)
     else if n < 24 then bit bus (n - 16) else n = 31)"
proof -
  have d: "k < 5" if "bit device k" for k
    using bit_high [of device 5 k] assms that by (cases "k < 5") (simp_all add: word_less_nat_alt)
  have f: "k < 3" if "bit func k" for k
    using bit_high [of func 3 k] assms that by (cases "k < 3") (simp_all add: word_less_nat_alt)
  show ?thesis
    unfolding pci_address_def pci_consts by (auto simp: bit_simps simp del: push_bit_of_1 dest: d f bit_imp_le_length)
qed


lemma byte_step: "unat offset mod 2 = 0 \<Longrightarrow> unat (offset + 1 :: u8) mod 4 = unat offset mod 4 + 1 \<and> drop_bit 2 (offset + 1) = drop_bit 2 offset"
proof -
  assume e: "unat offset mod 2 = 0"
  have "unat offset \<noteq> 255" using e by auto
  moreover have "unat offset < 256" using unsigned_less [of offset, where ?'a = nat] by simp
  ultimately have u: "unat (offset + 1) = unat offset + 1" by (simp add: unat_word_ariths)
  with e show ?thesis
    by (auto simp: word_unat_eq_iff unat_drop_bit_eq drop_bit_eq_div unat_div) presburger+
qed

lemma pci_address_slot:
  "drop_bit 2 a = drop_bit 2 b \<Longrightarrow> pci_address bus device func a = pci_address bus device func b"
proof -
  assume e: "drop_bit 2 a = drop_bit 2 b"
  have "bit a n = bit b n" if "2 \<le> n" for n
    using arg_cong [OF e, where f = "\<lambda>w. bit w (n - 2)"] that le_add_diff_inverse [OF that] by (simp only: bit_drop_bit_eq comp_def)
  then have "a AND 0xFC = b AND 0xFC"
    unfolding pci_consts by (intro bit_word_eqI) (auto simp: bit_simps)
  then show ?thesis by (simp add: pci_address_def)
qed

lemma pciConfigReadWord_ok:
  assumes "config_mechanism io cfg" "unat offset mod 2 = 0"
  shows "fst (pciConfigReadWord io bus device func offset d) =
    ucast (cfg_byte (cfg d) bus device func offset) OR push_bit 8 (ucast (cfg_byte (cfg d) bus device func (offset + 1)))"
proof -
  define v where "v = cfg d (pci_address bus device func offset)"
  have m: "(0xFFFF :: u32) = mask 16" by (simp add: mask_eq_exp_minus_1)
  have o2: "unat (offset AND 2) = unat offset mod 4"
  proof -
    have c: "(2 :: u8) = push_bit 1 1" "(3 :: u8) = mask 2" by (simp_all add: mask_eq_exp_minus_1)
    have b0: "\<not> bit offset 0"
      using assms(2) by (simp add: bit_0 even_iff_mod_2_eq_zero word_unat_eq_iff unat_mod)
    have "offset AND 2 = offset AND 3"
      unfolding c using b0 by (intro bit_word_eqI) (auto simp: bit_simps less_2_cases_iff simp del: push_bit_of_1)
    then show ?thesis by (simp add: low2)
  qed
  have "fst (pciConfigReadWord io bus device func offset d) = ucast (drop_bit (8 * (unat offset mod 4)) v AND 0xFFFF)"
    using assms(1) by (simp add: pciConfigReadWord_def config_mechanism_def v_def o2 split_def Let_def mult.commute)
  also have "\<dots> = ucast (ucast (drop_bit (8 * (unat offset mod 4)) v) :: u8) OR push_bit 8 (ucast (ucast (drop_bit (8 * (unat offset mod 4 + 1)) v) :: u8))"
    unfolding m by (rule bit_word_eqI) (auto simp: bit_simps bit_above algebra_simps)
  finally show ?thesis
    using byte_step [OF assms(2)] pci_address_slot [of offset "offset + 1"] by (simp add: cfg_byte_def v_def)
qed

section \<open>Properties\<close>

text \<open>
  C34: the address written to the port identifies the register. For device numbers below 32 and functions below 8, two accesses
  use the same address exactly when they name the same bus, device, function and 32-bit register.
\<close>

theorem pci_address_unique:
  assumes "device < 32" "func < 8" "device' < 32" "func' < 8"
  shows "pci_address bus device func offset = pci_address bus' device' func' offset' \<longleftrightarrow>
    bus = bus' \<and> device = device' \<and> func = func' \<and> drop_bit 2 offset = drop_bit 2 offset'"
proof
  assume e: "pci_address bus device func offset = pci_address bus' device' func' offset'"
  have b: "bit (pci_address bus device func offset) n = bit (pci_address bus' device' func' offset') n" for n
    using e by simp
  note bits = b [unfolded bit_pci_address [OF assms(1,2)] bit_pci_address [OF assms(3,4)]]
  have hi: "bit x n = bit y n" if "unat x < 2 ^ k" "unat y < 2 ^ k" "k \<le> n" for x y :: u8 and k n
    using bit_high that by blast
  have "bus = bus'"
  proof (rule bit_word_eqI)
    fix n assume "n < LENGTH(8)"
    then show "bit bus n = bit bus' n" using bits [of "n + 16"] by simp
  qed
  moreover have "device = device'"
  proof (rule bit_word_eqI)
    fix n assume "n < LENGTH(8)"
    show "bit device n = bit device' n"
      using bits [of "n + 11"] hi [of device 5 device' n] assms by (cases "n < 5") (auto simp: word_less_nat_alt)
  qed
  moreover have "func = func'"
  proof (rule bit_word_eqI)
    fix n assume "n < LENGTH(8)"
    show "bit func n = bit func' n"
      using bits [of "n + 8"] hi [of func 3 func' n] assms by (cases "n < 3") (auto simp: word_less_nat_alt)
  qed
  moreover have "drop_bit 2 offset = drop_bit 2 offset'"
  proof (rule bit_word_eqI)
    fix n assume "n < LENGTH(8)"
    show "bit (drop_bit 2 offset) n = bit (drop_bit 2 offset') n"
      using bits [of "n + 2"] by (cases "n < 6") (auto simp: bit_drop_bit_eq bit_above)
  qed
  ultimately show "bus = bus' \<and> device = device' \<and> func = func' \<and> drop_bit 2 offset = drop_bit 2 offset'" by simp
next
  assume "bus = bus' \<and> device = device' \<and> func = func' \<and> drop_bit 2 offset = drop_bit 2 offset'"
  then show "pci_address bus device func offset = pci_address bus' device' func' offset'"
    using pci_address_slot by metis
qed

theorem pci_address_unique_witness: "pci_address 0 3 0 0x34 \<noteq> pci_address 0 4 0 0x34"
  using pci_address_unique [of 3 0 4 0 0 "0x34" 0 "0x34"] by simp

text \<open>
  C35: with a configuration mechanism that delivers the selected register and changes none, a byte read delivers byte
  \<open>offset mod 4\<close> of the 32-bit register that a long read delivers, and a word read at an even offset
  delivers the two bytes at \<open>offset\<close> and \<open>offset + 1\<close> in little-endian order.
\<close>

theorem pci_reads_agree:
  assumes "config_mechanism io cfg"
  shows "fst (pciConfigReadByte io bus device func offset d) =
      ucast (drop_bit (8 * (unat offset mod 4)) (fst (pciConfigReadLong io bus device func offset d))) \<and>
    (unat offset mod 2 = 0 \<longrightarrow> fst (pciConfigReadWord io bus device func offset d) =
      ucast (fst (pciConfigReadByte io bus device func offset d)) OR
      push_bit 8 (ucast (fst (pciConfigReadByte io bus device func (offset + 1) d))))"
proof -
  have "fst (pciConfigReadLong io bus device func offset d) = cfg d (pci_address bus device func offset)"
    using assms by (simp add: pciConfigReadLong_def config_mechanism_def)
  then show ?thesis
    using pciConfigReadWord_ok [OF assms] by (simp add: pciConfigReadByte_ok [OF assms] cfg_byte_def)
qed

text \<open>A bridge with its address register and its configuration registers.\<close>

definition demo_bridge :: "(u32 \<times> (u32 \<Rightarrow> u32)) port_io" where
  "demo_bridge = \<lparr>inb = \<lambda>_ d. (0, d), outb = \<lambda>_ _ d. d, inw = \<lambda>_ d. (0, d), outw = \<lambda>_ _ d. d,
     inl = \<lambda>p d. (snd d (fst d), d),
     outl = \<lambda>p v d. if p = PCI_CONFIG_ADDR then (v, snd d) else (fst d, (snd d)(fst d := v))\<rparr>"

lemma demo_bridge_ok: "config_mechanism demo_bridge snd"
  by (simp add: config_mechanism_def demo_bridge_def)

definition demo_regs :: "u32 \<Rightarrow> u32" where
  "demo_regs a = (if a = pci_address 0 3 0 0x34 then 0x40 else if a = pci_address 0 3 0 0x40 then 0x5005
     else if a = pci_address 0 3 0 0x50 then 0x11 else 0)"

theorem pci_reads_agree_witness:
  "config_mechanism demo_bridge snd \<and>
   fst (pciConfigReadWord demo_bridge 0 3 0 0x40 (0, demo_regs)) =
     ucast (fst (pciConfigReadByte demo_bridge 0 3 0 0x40 (0, demo_regs))) OR
     push_bit 8 (ucast (fst (pciConfigReadByte demo_bridge 0 3 0 0x41 (0, demo_regs))))"
  using pci_reads_agree [OF demo_bridge_ok, of 0 3 0 "0x40" "(0, demo_regs)"] demo_bridge_ok by simp

text \<open>
  C36: when the capability list of a function is a finite chain, the search ends, changes no
  register, and returns the offset of the first capability with the id it looks for, or 0 when there is none.
\<close>

theorem pciGetCapabilityOffset_correct:
  assumes "config_mechanism io cfg"
    and "cap_list (cfg_byte (cfg d) bus device func) (cfg_byte (cfg d) bus device func 0x34) ps"
  shows "\<exists>d'. cfg d' = cfg d \<and> pciGetCapabilityOffset io bus device func cap d =
    Some (case find (\<lambda>q. cfg_byte (cfg d) bus device func q = cap) ps of None \<Rightarrow> 0 | Some q \<Rightarrow> q, d')"
proof -
  let ?d = "snd (pciConfigReadByte io bus device func 0x34 d)"
  note ok = pciConfigReadByte_ok [OF assms(1)]
  show ?thesis
    using cap_walk_ok [OF assms(1), of ?d bus device func _ ps 255 cap] assms(2)
    by (auto simp: pciGetCapabilityOffset_def pciGetCapPointer_def split_def ok)
qed

theorem pciGetCapabilityOffset_correct_witness:
  "\<exists>d'. snd d' = demo_regs \<and> pciGetCapabilityOffset demo_bridge 0 3 0 0x11 (0, demo_regs) = Some (0x50, d')"
proof -
  have c: "cap_list (cfg_byte demo_regs 0 3 0) (cfg_byte demo_regs 0 3 0 0x34) [0x40, 0x50]"
    and f: "find (\<lambda>q. cfg_byte demo_regs 0 3 0 q = 0x11) [0x40, 0x50] = Some 0x50"
    by code_simp+
  show ?thesis
    using pciGetCapabilityOffset_correct [OF demo_bridge_ok, of "(0, demo_regs)" 0 3 0 "[0x40, 0x50]" "0x11"]
    by (simp only: snd_conv c f option.case simp_thms)
qed

text \<open>
  Nothing bounds the search. When the chain of a device runs into a set of offsets that leads only
  into itself and holds no capability with the id, the search never returns.
\<close>

theorem pci_cyclic_capabilities:
  assumes "config_mechanism io cfg" "cfg_byte (cfg d) bus device func 0x34 \<in> S"
    and "no_cap (cfg_byte (cfg d) bus device func) cap S"
  shows "pciGetCapabilityOffset io bus device func cap d = None"
proof (rule ccontr)
  note ok = pciConfigReadByte_ok [OF assms(1)]
  assume "pciGetCapabilityOffset io bus device func cap d \<noteq> None"
  then obtain r where "cap_walk io bus device func cap (cfg_byte (cfg d) bus device func 0x34) 255 (snd (pciConfigReadByte io bus device func 0x34 d)) = Some r"
    by (auto simp: pciGetCapabilityOffset_def pciGetCapPointer_def split_def ok)
  from cap_walk_cycle [OF this assms(1) _ assms(2)] assms(3) show False by (simp add: ok)
qed

definition cyclic_regs :: "u32 \<Rightarrow> u32" where
  "cyclic_regs a = (if a = pci_address 0 3 0 0x34 then 0x40 else if a = pci_address 0 3 0 0x40 then 0x4005 else 0)"

theorem pci_cyclic_capabilities_witness:
  "pciGetCapabilityOffset demo_bridge 0 3 0 0x11 (0, cyclic_regs) = None"
proof -
  have "cfg_byte cyclic_regs 0 3 0 0x34 = 0x40" "cfg_byte cyclic_regs 0 3 0 0x40 = 5" "cfg_byte cyclic_regs 0 3 0 0x41 = 0x40"
    by code_simp+
  then show ?thesis
    using pci_cyclic_capabilities [OF demo_bridge_ok, of "(0, cyclic_regs)" 0 3 0 "{0x40}" "0x11"] by (simp add: no_cap_def)
qed

end
