(* ===== verification/Nvme.thy ===== *)
theory Nvme
  imports Pci Apic
begin

text \<open>
  The NVMe driver: \<^verbatim>\<open>device/nvme/nvme.c\<close>. The registers of the controller are reached through the parameters \<open>mm\<close>
  and \<open>out16\<close> (a 16-bit store), the queues are memory. A command is built in a structure on the stack, at an
  address given by the parameter \<open>command\<close>, and copied from there; the reserved bits of its first word are not
  initialised and keep what the stack held. What the hardware and the interrupt handlers do while the
  processor is halted is the parameter \<open>hlt\<close>; each wait for the controller consumes one list of what happens
  during the halts of the sleep.
\<close>

section \<open>Constants and state\<close>

definition nvme_reg :: u64 where "nvme_reg = 0xFFFFFF8000000000"
definition msix_addr :: u64 where "msix_addr = 0xFFFFFF8100000000"
definition nvme_admin_sub_addr :: u64 where "nvme_admin_sub_addr = 0xFFFFFF8200000000"
definition nvme_admin_com_addr :: u64 where "nvme_admin_com_addr = 0xFFFFFF8300000000"
definition nvme_io_sub_addr :: u64 where "nvme_io_sub_addr = 0xFFFFFF8400000000"
definition nvme_io_com_addr :: u64 where "nvme_io_com_addr = 0xFFFFFF8500000000"
definition reg_config :: u64 where "reg_config = nvme_reg + 0x14"
definition reg_status :: u64 where "reg_status = nvme_reg + 0x1C"
definition reg_admin_attr :: u64 where "reg_admin_attr = nvme_reg + 0x24"
definition reg_admin_sub_base :: u64 where "reg_admin_sub_base = nvme_reg + 0x28"
definition reg_admin_com_base :: u64 where "reg_admin_com_base = nvme_reg + 0x30"
definition doorbell_base :: u64 where "doorbell_base = nvme_reg + 0x1000"

definition NVME_CREATE_SUBMISSION_QUEUE :: u8 where "NVME_CREATE_SUBMISSION_QUEUE = 0x01"
definition NVME_CREATE_COMPLETION_QUEUE :: u8 where "NVME_CREATE_COMPLETION_QUEUE = 0x05"
definition NVME_IDENTIFY :: u8 where "NVME_IDENTIFY = 0x06"
definition NVME_READ :: u8 where "NVME_READ = 0x02"
definition NVME_WRITE :: u8 where "NVME_WRITE = 0x01"
definition NVME_QUEUE_FLAG_PC :: u16 where "NVME_QUEUE_FLAG_PC = 0x01"
definition NVME_QUEUE_FLAG_INT :: u16 where "NVME_QUEUE_FLAG_INT = 0x02"
definition APIC_ICRH :: u32 where "APIC_ICRH = 0x310"
definition IRQ3 :: u8 where "IRQ3 = 35"
definition SUBMISSION_SIZE :: u64 where "SUBMISSION_SIZE = 64"
definition COMPLETION_SIZE :: u64 where "COMPLETION_SIZE = 16"
definition admin_queue_size :: u16 where "admin_queue_size = 8"
definition io_queue_size :: u16 where "io_queue_size = 32"

record 'd nvme =
  nmem :: mem
  nhw :: 'd
  npaging :: paging
  nidt :: idt_state
  ntimer :: apic_timer
  identify_addr :: u64
  namespace_list :: u64
  namespace_addr :: u64
  msix_size :: u32
  capabilities :: u64
  mem_page_min :: u64
  mem_page_max :: u64
  doorbell_stride :: u64
  admin_sub_tail :: u16
  admin_com_head :: u16
  admin_new_phase :: u8
  io_sub_tail :: u16
  io_com_head :: u16
  io_new_phase :: u8

record nvme_io_info =
  nsid :: u32
  meta :: u64
  prp0 :: u64
  prp1 :: u64
  lba_start :: u64
  limited_retry :: bool
  force_unit_access :: bool
  protection_info :: u8
  lba_num :: u16

section \<open>The rings\<close>

definition on_nmem :: "(mem \<Rightarrow> mem option) \<Rightarrow> 'd nvme \<Rightarrow> 'd nvme option" where
  "on_nmem f s = do { m \<leftarrow> f (nmem s); Some (s\<lparr>nmem := m\<rparr>) }"

definition ring_pos :: "u16 \<Rightarrow> u16 \<Rightarrow> u16 \<Rightarrow> u16" where
  "ring_pos pos num qsize = ucast ((ucast pos + ucast num :: u32) mod ucast qsize)"

definition ring :: "(u64 \<Rightarrow> u16 \<Rightarrow> 'd \<Rightarrow> 'd) \<Rightarrow> u64 \<Rightarrow> u16 \<Rightarrow> 'd nvme \<Rightarrow> 'd nvme" where
  "ring out16 k v s = s\<lparr>nhw := out16 (doorbell_base + k * doorbell_stride s) v (nhw s)\<rparr>"

definition putAdminCommand :: "u64 \<Rightarrow> 'd nvme \<Rightarrow> 'd nvme option" where
  "putAdminCommand command s =
     on_nmem (\<lambda>m. map_option snd (memcpy m (nvme_admin_sub_addr + SUBMISSION_SIZE * ucast (admin_sub_tail s)) command SUBMISSION_SIZE)) s"

definition ringAdminSub :: "(u64 \<Rightarrow> u16 \<Rightarrow> 'd \<Rightarrow> 'd) \<Rightarrow> u16 \<Rightarrow> 'd nvme \<Rightarrow> 'd nvme" where
  "ringAdminSub out16 num s =
     (let t = ring_pos (admin_sub_tail s) num admin_queue_size in ring out16 0 t (s\<lparr>admin_sub_tail := t\<rparr>))"

definition getAdminResponse :: "u64 \<Rightarrow> 'd nvme \<Rightarrow> 'd nvme option" where
  "getAdminResponse response s =
     on_nmem (\<lambda>m. map_option snd (memcpy m response (nvme_admin_com_addr + COMPLETION_SIZE * ucast (admin_com_head s)) COMPLETION_SIZE)) s"

definition ringAdminCom :: "(u64 \<Rightarrow> u16 \<Rightarrow> 'd \<Rightarrow> 'd) \<Rightarrow> u16 \<Rightarrow> 'd nvme \<Rightarrow> 'd nvme" where
  "ringAdminCom out16 num s =
     (let h = ring_pos (admin_com_head s) num admin_queue_size;
          p = (if h = 0 then admin_new_phase s XOR 1 else admin_new_phase s)
      in ring out16 1 h (s\<lparr>admin_com_head := h, admin_new_phase := p\<rparr>))"

definition putIOCommand :: "u64 \<Rightarrow> 'd nvme \<Rightarrow> 'd nvme option" where
  "putIOCommand command s =
     on_nmem (\<lambda>m. map_option snd (memcpy m (nvme_io_sub_addr + SUBMISSION_SIZE * ucast (io_sub_tail s)) command SUBMISSION_SIZE)) s"

definition ringIOSub :: "(u64 \<Rightarrow> u16 \<Rightarrow> 'd \<Rightarrow> 'd) \<Rightarrow> u16 \<Rightarrow> 'd nvme \<Rightarrow> 'd nvme" where
  "ringIOSub out16 num s =
     (let t = ring_pos (io_sub_tail s) num io_queue_size in ring out16 2 t (s\<lparr>io_sub_tail := t\<rparr>))"

definition getIOResponse :: "u64 \<Rightarrow> 'd nvme \<Rightarrow> 'd nvme option" where
  "getIOResponse response s =
     on_nmem (\<lambda>m. map_option snd (memcpy m response (nvme_io_com_addr + COMPLETION_SIZE * ucast (io_com_head s)) COMPLETION_SIZE)) s"

definition ringIOCom :: "(u64 \<Rightarrow> u16 \<Rightarrow> 'd \<Rightarrow> 'd) \<Rightarrow> u16 \<Rightarrow> 'd nvme \<Rightarrow> 'd nvme" where
  "ringIOCom out16 num s =
     (let h = ring_pos (io_com_head s) num io_queue_size;
          p = (if h = 0 then io_new_phase s XOR 1 else io_new_phase s)
      in ring out16 3 h (s\<lparr>io_com_head := h, io_new_phase := p\<rparr>))"

section \<open>Commands\<close>

definition command_word :: "u64 \<Rightarrow> u8 \<Rightarrow> u32 \<Rightarrow> u64" where
  "command_word old opcode ns =
     (old AND push_bit 10 (mask 4)) OR ucast opcode OR push_bit 16 (ucast opcode) OR push_bit 32 (ucast ns)"

definition pair :: "u32 \<Rightarrow> u32 \<Rightarrow> u64" where
  "pair lo hi = ucast lo OR push_bit 32 (ucast hi)"

definition put_words :: "u64 \<Rightarrow> u64 list \<Rightarrow> mem \<Rightarrow> mem option" where
  "put_words p ws m = for_each (\<lambda>(i, w) m. st64 m (p + 8 * of_nat i) w) (enumerate 0 ws) m"

definition build_command :: "u64 \<Rightarrow> u8 \<Rightarrow> u32 \<Rightarrow> u64 list \<Rightarrow> mem \<Rightarrow> mem option" where
  "build_command command opcode ns ws m = do {
     old \<leftarrow> ld64 m command;
     put_words command (command_word old opcode ns # ws) m }"

definition nvmeCreateSubQueue :: "u64 \<Rightarrow> u64 \<Rightarrow> u16 \<Rightarrow> u16 \<Rightarrow> u16 \<Rightarrow> u16 \<Rightarrow> 'd nvme \<Rightarrow> 'd nvme option" where
  "nvmeCreateSubQueue command paddr qid qsize flags com_id s = do {
     s \<leftarrow> on_nmem (build_command command NVME_CREATE_SUBMISSION_QUEUE 0 [0, 0, paddr, 0,
            pair (ucast qid OR push_bit 16 (ucast qsize - 1)) (ucast flags OR push_bit 16 (ucast com_id)), 0, 0]) s;
     putAdminCommand command s }"

definition nvmeCreateComQueue :: "u64 \<Rightarrow> u64 \<Rightarrow> u16 \<Rightarrow> u16 \<Rightarrow> u16 \<Rightarrow> u16 \<Rightarrow> 'd nvme \<Rightarrow> 'd nvme option" where
  "nvmeCreateComQueue command paddr qid qsize flags int_vector s = do {
     s \<leftarrow> on_nmem (build_command command NVME_CREATE_COMPLETION_QUEUE 0 [0, 0, paddr, 0,
            pair (ucast qid OR push_bit 16 (ucast qsize - 1)) (ucast flags OR push_bit 16 (ucast int_vector)), 0, 0]) s;
     putAdminCommand command s }"

definition nvmeIdentifyNamespace :: "u64 \<Rightarrow> u64 \<Rightarrow> u32 \<Rightarrow> 'd nvme \<Rightarrow> 'd nvme option" where
  "nvmeIdentifyNamespace command paddr ns s = do {
     s \<leftarrow> on_nmem (build_command command NVME_IDENTIFY ns [0, 0, paddr, 0, pair 0 0, 0, 0]) s;
     putAdminCommand command s }"

definition nvmeIdentifyController :: "u64 \<Rightarrow> u64 \<Rightarrow> 'd nvme \<Rightarrow> 'd nvme option" where
  "nvmeIdentifyController command paddr s = do {
     s \<leftarrow> on_nmem (build_command command NVME_IDENTIFY 0 [0, 0, paddr, 0, pair 1 0, 0, 0]) s;
     putAdminCommand command s }"

definition nvmeIdentifyNamespaceList :: "u64 \<Rightarrow> u64 \<Rightarrow> 'd nvme \<Rightarrow> 'd nvme option" where
  "nvmeIdentifyNamespaceList command paddr s = do {
     s \<leftarrow> on_nmem (build_command command NVME_IDENTIFY 0 [0, 0, paddr, 0, pair 2 0, 0, 0]) s;
     putAdminCommand command s }"

definition io_words :: "nvme_io_info \<Rightarrow> u64 list" where
  "io_words i = [0, meta i, prp0 i, prp1 i,
     pair (ucast (lba_start i AND 0xFFFFFFFF)) (ucast (drop_bit 32 (lba_start i) AND 0xFFFFFFFF)),
     pair (push_bit 31 (of_bool (limited_retry i)) OR push_bit 30 (of_bool (force_unit_access i)) OR
           push_bit 26 (ucast (protection_info i AND 0xF)) OR ucast (lba_num i AND 0xFFFF)) 0, 0]"

definition nvmeRead :: "u64 \<Rightarrow> nvme_io_info \<Rightarrow> 'd nvme \<Rightarrow> 'd nvme option" where
  "nvmeRead command info s = do {
     s \<leftarrow> on_nmem (build_command command NVME_READ (nsid info) (io_words info)) s;
     putIOCommand command s }"

definition nvmeWrite :: "u64 \<Rightarrow> nvme_io_info \<Rightarrow> 'd nvme \<Rightarrow> 'd nvme option" where
  "nvmeWrite command info s = do {
     s \<leftarrow> on_nmem (build_command command NVME_WRITE (nsid info) (io_words info)) s;
     putIOCommand command s }"

section \<open>Registers and initialisation\<close>

definition irqNVMeHandler :: "'d mmio \<Rightarrow> apic \<Rightarrow> 'd nvme \<Rightarrow> 'd nvme" where
  "irqNVMeHandler mm a s = s\<lparr>nhw := apicSendEOI mm a (nhw s)\<rparr>"

definition nvmeReadStatus :: "'d mmio \<Rightarrow> 'd nvme \<Rightarrow> u32 \<times> 'd nvme" where
  "nvmeReadStatus mm s = (case read32 mm reg_status (nhw s) of (v, d) \<Rightarrow> (v, s\<lparr>nhw := d\<rparr>))"

definition nvmeReadConfig :: "'d mmio \<Rightarrow> 'd nvme \<Rightarrow> u32 \<times> 'd nvme" where
  "nvmeReadConfig mm s = (case read32 mm reg_config (nhw s) of (v, d) \<Rightarrow> (v, s\<lparr>nhw := d\<rparr>))"

definition nvmeWriteConfig :: "'d mmio \<Rightarrow> u32 \<Rightarrow> 'd nvme \<Rightarrow> 'd nvme" where
  "nvmeWriteConfig mm config s = s\<lparr>nhw := write32 mm reg_config config (nhw s)\<rparr>"

fun nvme_search :: "'d port_io \<Rightarrow> (u8 \<times> u8) list \<Rightarrow> 'd \<Rightarrow> (u8 \<times> u8) \<times> 'd" where
  "nvme_search io [] d = ((0, 0), d)"
| "nvme_search io ((bus, device) # ps) d =
     (case pciGetBaseClass io bus device 0 d of (c, d) \<Rightarrow>
        if c = PCI_CLASS_MASS_STORAGE then
          (case pciGetSubClass io bus device 0 d of (c, d) \<Rightarrow>
             if c = PCI_SUBCLASS_NVM then ((bus, device), d) else nvme_search io ps d)
        else nvme_search io ps d)"

definition all_slots :: "(u8 \<times> u8) list" where
  "all_slots = List.product (map of_nat [0..<256]) (map of_nat [0..<32])"

fun wait_status :: "'d mmio \<Rightarrow> (apic_timer \<times> 'd \<Rightarrow> apic_timer \<times> 'd) list list \<Rightarrow> apic \<Rightarrow> bool \<Rightarrow> u32 \<Rightarrow> 'd nvme \<Rightarrow>
    (u32 \<times> (apic_timer \<times> 'd \<Rightarrow> apic_timer \<times> 'd) list list \<times> 'd nvme) option" where
  "wait_status mm envs a want status s =
     (if bit status 0 = want then Some (status, envs, s)
      else (case envs of
          [] \<Rightarrow> None
        | env # envs \<Rightarrow> do {
            (t, d) \<leftarrow> apicNanosleep mm env a 100 (ntimer s, nhw s);
            let (status, s) = nvmeReadStatus mm (s\<lparr>ntimer := t, nhw := d\<rparr>);
            wait_status mm envs a want status s }))"

definition alloc_page :: "'d nvme \<Rightarrow> (u64 \<times> 'd nvme) option" where
  "alloc_page s = do {
     (p, f) \<leftarrow> pmalloc 1 (frames (npaging s));
     Some (p, s\<lparr>npaging := (npaging s)\<lparr>frames := f\<rparr>\<rparr>) }"

definition map_device :: "u64 \<Rightarrow> u64 \<Rightarrow> u64 \<Rightarrow> 'd nvme \<Rightarrow> 'd nvme option" where
  "map_device vptr pptr n s = do {
     (_, p) \<leftarrow> videntity vptr pptr n (PAGE_FLAG_PRESENT OR PAGE_FLAG_READWRITE OR PAGE_FLAG_CACHEDBLE OR PAGE_FLAG_EXECDBLE) (npaging s);
     Some (s\<lparr>npaging := p\<rparr>) }"

definition on_pci :: "('d \<Rightarrow> ('a \<times> 'd) option) \<Rightarrow> 'd nvme \<Rightarrow> ('a \<times> 'd nvme) option" where
  "on_pci f s = do { (x, d) \<leftarrow> f (nhw s); Some (x, s\<lparr>nhw := d\<rparr>) }"

definition msix_message :: "u64 \<Rightarrow> u16 \<Rightarrow> 'd nvme \<Rightarrow> 'd nvme option" where
  "msix_message frame idx s = do {
     s \<leftarrow> on_nmem (put_words frame [pair 0xFEE00000 0, pair (ucast IRQ3) 0]) s;
     on_nmem (\<lambda>m. pciWriteMSIXEntry m msix_addr idx frame) s }"

definition admin_round :: "(u64 \<Rightarrow> u16 \<Rightarrow> 'd \<Rightarrow> 'd) \<Rightarrow> ('d nvme \<Rightarrow> 'd nvme) \<Rightarrow> u64 \<Rightarrow> 'd nvme \<Rightarrow> 'd nvme option" where
  "admin_round out16 hlt response s = do {
     s \<leftarrow> getAdminResponse response (hlt (ringAdminSub out16 1 s));
     Some (ringAdminCom out16 1 s) }"

definition read_capabilities :: "'d mmio \<Rightarrow> 'd nvme \<Rightarrow> 'd nvme" where
  "read_capabilities mm s =
     (case read64 mm nvme_reg (nhw s) of (c, d) \<Rightarrow>
        s\<lparr>nhw := d, capabilities := c, mem_page_min := push_bit (12 + unat (drop_bit 48 c AND 0xF)) 1,
          mem_page_max := push_bit (12 + unat (drop_bit 52 c AND 0xF)) 1, doorbell_stride := push_bit (2 + unat (drop_bit 32 c AND 0xF)) 1\<rparr>)"

text \<open>
  The command register keeps the bits of the uninitialised structure that are not assigned, and so does the
  configuration register.
\<close>

definition pci_command :: "u16 \<Rightarrow> u16" where
  "pci_command indet = (indet AND NOT 0x407) OR 0x406"

definition config_enable :: "u32 \<Rightarrow> u32" where
  "config_enable indet = (indet AND 0xFF00000E) OR push_bit 20 4 OR push_bit 16 6 OR 1"

definition start_controller :: "'d mmio \<Rightarrow> (apic_timer \<times> 'd \<Rightarrow> apic_timer \<times> 'd) list list \<Rightarrow> apic \<Rightarrow> u32 \<Rightarrow> u64 \<Rightarrow> u64 \<Rightarrow> 'd nvme \<Rightarrow> 'd nvme option" where
  "start_controller mm envs a indet admin_sub_paddr admin_com_paddr s = do {
     let (status, s) = nvmeReadStatus mm s;
     (status, envs, s) \<leftarrow> wait_status mm envs a False status (nvmeWriteConfig mm (indet AND NOT 1) s);
     let d = write32 mm reg_admin_attr (push_bit 16 (ucast admin_queue_size - 1) OR (ucast admin_queue_size - 1)) (nhw s);
     let d = write64 mm reg_admin_com_base admin_com_paddr (write64 mm reg_admin_sub_base admin_sub_paddr d);
     (_, _, s) \<leftarrow> wait_status mm envs a True status (nvmeWriteConfig mm (config_enable indet) (s\<lparr>nhw := d\<rparr>));
     Some s }"

definition initNVMe :: "'d port_io \<Rightarrow> 'd mmio \<Rightarrow> (u64 \<Rightarrow> u16 \<Rightarrow> 'd \<Rightarrow> 'd) \<Rightarrow> (apic_timer \<times> 'd \<Rightarrow> apic_timer \<times> 'd) list list \<Rightarrow>
    ('d nvme \<Rightarrow> 'd nvme) \<Rightarrow> u64 list \<Rightarrow> u64 \<Rightarrow> apic \<Rightarrow> u64 \<Rightarrow> u64 \<Rightarrow> u64 \<Rightarrow> u16 \<Rightarrow> u32 \<Rightarrow> 'd nvme \<Rightarrow> 'd nvme option" where
  "initNVMe io mm out16 envs hlt stubs handler a command response msix_int indet_command indet_config s = do {
     let ((bus, device), d) = nvme_search io all_slots (nhw s);
     let (bar0, d) = pciGetBAR io bus device 0 0 d;
     let (bar1, d) = pciGetBAR io bus device 0 1 d;
     let nvme_paddr = (ucast bar0 AND 0xFFFFFFF0) + push_bit 32 (ucast bar1 AND 0xFFFFFFFF);
     (base, s) \<leftarrow> on_pci (pciGetMessageTableBaseAddr io bus device 0) (s\<lparr>nhw := d\<rparr>);
     (offset, s) \<leftarrow> on_pci (pciGetMessageTableOffset io bus device 0) s;
     (admin_sub_paddr, s) \<leftarrow> alloc_page s;
     (admin_com_paddr, s) \<leftarrow> alloc_page s;
     (sub_paddr, s) \<leftarrow> alloc_page s;
     (com_paddr, s) \<leftarrow> alloc_page s;
     (n, s) \<leftarrow> on_pci (pciGetMessageTableSize io bus device 0) s;
     s \<leftarrow> map_device nvme_reg nvme_paddr 2 (s\<lparr>msix_size := n\<rparr>);
     s \<leftarrow> map_device msix_addr (base + ucast offset) 2 s;
     s \<leftarrow> map_device nvme_admin_sub_addr admin_sub_paddr 1 s;
     s \<leftarrow> map_device nvme_admin_com_addr admin_com_paddr 1 s;
     s \<leftarrow> map_device nvme_io_sub_addr sub_paddr 1 s;
     s \<leftarrow> map_device nvme_io_com_addr com_paddr 1 s;
     let s = read_capabilities mm s;
     let s = s\<lparr>nhw := pciWriteCommand io bus device 0 (pci_command indet_command) (nhw s)\<rparr>;
     (_, s) \<leftarrow> on_pci (pciEnableMSIX io bus device 0) s;
     s \<leftarrow> msix_message msix_int 0 (s\<lparr>nhw := lapicWriteReg mm a APIC_ICRH 0 (nhw s)\<rparr>);
     i \<leftarrow> irqRegisterHandler stubs IRQ3 handler (nidt s);
     s \<leftarrow> start_controller mm envs a indet_config admin_sub_paddr admin_com_paddr (s\<lparr>nidt := i\<rparr>);
     (paddr, s) \<leftarrow> alloc_page s;
     s \<leftarrow> nvmeIdentifyController command paddr s;
     s \<leftarrow> admin_round out16 hlt response s;
     (paddr', s) \<leftarrow> alloc_page (s\<lparr>identify_addr := paddr + 0xFFFF800000000000\<rparr>);
     s \<leftarrow> nvmeIdentifyNamespaceList command paddr' s;
     s \<leftarrow> admin_round out16 hlt response s;
     (paddr'', s) \<leftarrow> alloc_page (s\<lparr>namespace_list := paddr' + 0xFFFF800000000000\<rparr>);
     s \<leftarrow> nvmeIdentifyNamespace command paddr'' 1 s;
     s \<leftarrow> admin_round out16 hlt response s;
     s \<leftarrow> nvmeCreateComQueue command com_paddr 1 io_queue_size (NVME_QUEUE_FLAG_PC OR NVME_QUEUE_FLAG_INT) 1
            (s\<lparr>namespace_addr := paddr'' + 0xFFFF800000000000\<rparr>);
     s \<leftarrow> admin_round out16 hlt response s;
     s \<leftarrow> nvmeCreateSubQueue command sub_paddr 1 io_queue_size NVME_QUEUE_FLAG_PC 1 s;
     s \<leftarrow> admin_round out16 hlt response s;
     msix_message msix_int 1 s }"

declare wait_status.simps [simp del]

section \<open>Aligned words and their bytes\<close>

definition aligned :: "u64 \<Rightarrow> bool" where
  "aligned p \<longleftrightarrow> p AND mask 3 = 0"

lemma aligned_unat: "aligned p \<longleftrightarrow> unat p mod 8 = 0"
  by (simp add: aligned_def word_unat_eq_iff unat_low3)

lemma and_plus_and_not: "(x AND k) + (x AND NOT k) = (x :: u64)"
proof -
  have "(x AND k) AND (x AND NOT k) = 0" by (rule bit_word_eqI) (simp add: bit_simps)
  then have "(x AND k) + (x AND NOT k) = (x AND k) OR (x AND NOT k)" by (rule disjunctive_add_eq_or)
  then show ?thesis by (simp add: bit.conj_disj_distrib [symmetric])
qed

lemma aligned_byte:
  assumes p: "aligned p" and i: "i < 8"
  shows "cell_of (p + of_nat i) = p" "lane_of (p + of_nat i) = 8 * i"
proof -
  have "unat p + i < 2 ^ 64"
  proof -
    have "unat p < 2 ^ 64" using unsigned_less [of p, where ?'a = nat] by simp
    moreover have "unat p mod 8 = 0" "(2 ^ 64 :: nat) mod 8 = 0" using p by (simp_all add: aligned_unat)
    ultimately show ?thesis using i by presburger
  qed
  then have u: "unat (p + of_nat i) = unat p + i" using i unat_add_lem [of p "of_nat i"] by (simp add: unat_of_nat)
  then have m: "unat (p + of_nat i) mod 8 = i" using p i by (metis aligned_unat add_0 mod_add_left_eq mod_less)
  then show "lane_of (p + of_nat i) = 8 * i" by (simp add: lane_of_def unat_low3)
  have "(p + of_nat i) AND mask 3 = of_nat i" using m i by (simp add: word_unat_eq_iff unat_low3 unat_of_nat)
  moreover have "(p + of_nat i) AND NOT (mask 3) = (p + of_nat i) - ((p + of_nat i) AND mask 3)"
    using and_plus_and_not [of "p + of_nat i" "mask 3"] by (simp add: algebra_simps)
  ultimately show "cell_of (p + of_nat i) = p" by (simp add: cell_of_def)
qed

lemma aligned_add: "aligned p \<Longrightarrow> aligned (p + 8 * of_nat k)"
proof -
  assume p: "aligned p"
  have "unat (p + 8 * of_nat k) mod 8 = (unat p + unat (8 * of_nat k :: u64)) mod 8"
    by (simp add: unat_word_ariths mod_mod_cancel)
  also have "\<dots> = (unat p + 8 * k) mod 8"
    by (simp add: unat_word_ariths mod_mod_cancel unat_of_nat mod_add_right_eq [symmetric, of "unat p"])
  finally show ?thesis using p by (simp add: aligned_unat)
qed

lemma ld8_cell: "aligned p \<Longrightarrow> i < 8 \<Longrightarrow> ld8 m (p + of_nat i) = map_option (\<lambda>c. ucast (drop_bit (8 * i) c)) (m p)"
  by (simp add: ld8_def aligned_byte)

lemma cell_eqI:
  assumes "aligned p" "aligned q" "\<And>i. i < 8 \<Longrightarrow> ld8 m' (p + of_nat i) = ld8 m (q + of_nat i)"
  shows "m' p = m q"
proof -
  have l: "map_option (\<lambda>c. ucast (drop_bit (8 * i) c) :: u8) (m' p) = map_option (\<lambda>c. ucast (drop_bit (8 * i) c)) (m q)" if "i < 8" for i
    using assms that by (simp add: ld8_cell)
  show ?thesis
  proof (cases "m' p")
    case None
    then show ?thesis using l [of 0] by simp
  next
    case (Some c)
    then obtain c' where c': "m q = Some c'" using l [of 0] by (cases "m q") auto
    have "bit c n = bit c' n" if "n < 64" for n
    proof -
      have "ucast (drop_bit (8 * (n div 8)) c) = (ucast (drop_bit (8 * (n div 8)) c') :: u8)" using l [of "n div 8"] that Some c' by simp
      then have "bit (ucast (drop_bit (8 * (n div 8)) c) :: u8) (n mod 8) = bit (ucast (drop_bit (8 * (n div 8)) c') :: u8) (n mod 8)" by simp
      then show ?thesis by (simp add: bit_simps)
    qed
    then show ?thesis using Some c' by (auto intro: bit_word_eqI)
  qed
qed

lemma cells_region:
  assumes "aligned p" "\<forall>k<n. m (p + 8 * of_nat k) \<noteq> None"
  shows "region m p (8 * n)"
  unfolding region_def
proof (intro allI impI)
  fix i assume "i < 8 * n"
  then have k: "i div 8 < n" by simp
  have "of_nat i = 8 * of_nat (i div 8) + (of_nat (i mod 8) :: u64)"
    by (metis mult_div_mod_eq of_nat_add of_nat_mult of_nat_numeral)
  then have i: "p + of_nat i = (p + 8 * of_nat (i div 8)) + of_nat (i mod 8)" by (simp only: add.assoc)
  show "ld8 m (p + of_nat i) \<noteq> None"
    unfolding i using assms(2) k ld8_cell [OF aligned_add [OF assms(1), of "i div 8"], of "i mod 8" m] by auto
qed

lemma copy_words:
  assumes a: "aligned d" "aligned s" "\<forall>k<n. m (d + 8 * of_nat k) \<noteq> None" "\<forall>k<n. m (s + 8 * of_nat k) \<noteq> None"
    and dis: "span d (8 * n) \<inter> span s (8 * n) = {}" and n: "8 * n < 2 ^ 64"
  shows "\<exists>m'. memcpy m d s (8 * of_nat n) = Some (d, m') \<and> (\<forall>k<n. m' (d + 8 * of_nat k) = m (s + 8 * of_nat k)) \<and>
    (\<forall>q. q \<notin> span d (8 * n) \<longrightarrow> ld8 m' q = ld8 m q)"
proof -
  have "unat (8 * of_nat n :: u64) = 8 * n" using n unat_of_nat [of "8 * n", where 'a = 64] by simp
  moreover have "d + of_nat i \<noteq> s + of_nat j" if "j < 8 * n" "i < j" for i j
  proof -
    have "d + of_nat i \<in> span d (8 * n)" "s + of_nat j \<in> span s (8 * n)" using that by (auto simp: span_def)
    then show ?thesis using dis by auto
  qed
  ultimately obtain m' where m': "memcpy m d s (8 * of_nat n) = Some (d, m')" "\<forall>i<8 * n. ld8 m' (d + of_nat i) = ld8 m (s + of_nat i)"
      "\<forall>q. q \<notin> span d (8 * n) \<longrightarrow> ld8 m' q = ld8 m q"
    using copy_up_ok [of m d "8 * n" s] cells_region [OF a(1,3)] cells_region [OF a(2,4)] n by (auto simp: memcpy_def)
  have "m' (d + 8 * of_nat k) = m (s + 8 * of_nat k)" if k: "k < n" for k
  proof (rule cell_eqI [OF aligned_add [OF a(1)] aligned_add [OF a(2)]])
    fix i :: nat assume i: "i < 8"
    have "8 * k + i < 8 * n" using k i by simp
    from m'(2) [rule_format, OF this] show "ld8 m' (d + 8 * of_nat k + of_nat i) = ld8 m (s + 8 * of_nat k + of_nat i)"
      by (simp add: add.assoc)
  qed
  with m' show ?thesis by blast
qed

lemma byte_of_cell: obtains j where "j < 8" "q = cell_of q + of_nat j"
proof
  show "unat (q AND mask 3) < 8" by (simp add: unat_low3)
  show "q = cell_of q + of_nat (unat (q AND mask 3))"
    using and_plus_and_not [of q "mask 3"] by (simp add: cell_of_def add.commute)
qed

lemma span_word:
  assumes "k < n" "j < 8"
  shows "p + 8 * of_nat k + of_nat j \<in> span p (8 * n)"
proof -
  have "p + 8 * of_nat k + of_nat j = p + of_nat (8 * k + j)" by simp
  moreover have "8 * k + j < 8 * n" using assms by simp
  ultimately show ?thesis unfolding span_def by (metis atLeastLessThan_iff imageI zero_le)
qed

lemma st8_dom: "st8 m p b = Some m' \<Longrightarrow> dom m' = dom m"
  by (auto simp: st8_def split: option.splits if_splits)

lemma copy_up_dom: "copy_up m d s n = Some m' \<Longrightarrow> dom m' = dom m"
proof (induction n arbitrary: m d s)
  case (Suc n)
  then obtain b m1 where "st8 m d b = Some m1" "copy_up m1 (d + 1) (s + 1) n = Some m'" by (auto simp: bind_eq_Some_conv)
  then show ?case using Suc.IH st8_dom by metis
qed simp

lemma put_words_ok:
  assumes "\<forall>k<length ws. m (p + 8 * of_nat (n + k)) \<noteq> None" "n + length ws < 2 ^ 60"
  shows "\<exists>m'. for_each (\<lambda>(i, w) m. st64 m (p + 8 * of_nat i) w) (enumerate n ws) m = Some m' \<and> dom m' = dom m \<and>
    (\<forall>k<length ws. m' (p + 8 * of_nat (n + k)) = Some (ws ! k)) \<and>
    (\<forall>q. (\<forall>k<length ws. q \<noteq> p + 8 * of_nat (n + k)) \<longrightarrow> m' q = m q)"
  using assms
proof (induction ws arbitrary: n m)
  case Nil
  then show ?case by simp
next
  case (Cons w ws)
  let ?m = "m(p + 8 * of_nat n \<mapsto> w)"
  have n: "m (p + 8 * of_nat n) \<noteq> None" using Cons.prems(1) [rule_format, of 0] by simp
  have c: "m (p + 8 * of_nat (Suc n + k)) \<noteq> None" if "k < length ws" for k
    using Cons.prems(1) [rule_format, of "Suc k"] that by simp
  have "\<forall>k<length ws. ?m (p + 8 * of_nat (Suc n + k)) \<noteq> None" using c by auto
  moreover have "Suc n + length ws < 2 ^ 60" using Cons.prems(2) by simp
  ultimately obtain m' where m': "for_each (\<lambda>(i, w) m. st64 m (p + 8 * of_nat i) w) (enumerate (Suc n) ws) ?m = Some m'" "dom m' = dom ?m"
      "\<forall>k<length ws. m' (p + 8 * of_nat (Suc n + k)) = Some (ws ! k)"
      "\<forall>q. (\<forall>k<length ws. q \<noteq> p + 8 * of_nat (Suc n + k)) \<longrightarrow> m' q = ?m q"
    using Cons.IH [of ?m "Suc n"] by blast
  have ne: "p + 8 * of_nat n \<noteq> p + 8 * of_nat (Suc n + k)" if "k < length ws" for k
  proof -
    have "8 * n \<noteq> 8 * (Suc n + k)" "8 * n < 2 ^ 64" "8 * (Suc n + k) < 2 ^ 64" using Cons.prems(2) that by simp_all
    then have "(of_nat (8 * n) :: u64) \<noteq> of_nat (8 * (Suc n + k))" by (simp only: u64_of_nat_eq) simp
    then show ?thesis by simp
  qed
  have "m' (p + 8 * of_nat n) = Some w" using m'(4) [rule_format, of "p + 8 * of_nat n"] ne by simp
  then have "m' (p + 8 * of_nat (n + k)) = Some ((w # ws) ! k)" if "k < length (w # ws)" for k
    using m'(3) [rule_format, of "k - 1"] that by (cases k) simp_all
  moreover have "m' q = m q" if "\<forall>k<length (w # ws). q \<noteq> p + 8 * of_nat (n + k)" for q
  proof -
    have "q \<noteq> p + 8 * of_nat n" using that [rule_format, of 0] by simp
    moreover have "\<forall>k<length ws. q \<noteq> p + 8 * of_nat (Suc n + k)" using that by (metis Suc_less_eq add_Suc_shift length_Cons)
    ultimately show ?thesis using m'(4) by simp
  qed
  moreover have "dom m' = dom m" using m'(2) n by auto
  ultimately show ?case using m'(1) n by (auto simp: st64_def)
qed

section \<open>Submitting a command\<close>

text \<open>The queue is mapped, and the structure on the stack is aligned, mapped and outside the queue.\<close>

definition io_slot :: "'d nvme \<Rightarrow> u64" where
  "io_slot s = nvme_io_sub_addr + SUBMISSION_SIZE * ucast (io_sub_tail s)"

definition queue_ready :: "u64 \<Rightarrow> 'd nvme \<Rightarrow> bool" where
  "queue_ready command s \<longleftrightarrow> aligned command \<and> (\<forall>k<8. nmem s (command + 8 * of_nat k) \<noteq> None) \<and>
     (\<forall>k<256. nmem s (nvme_io_sub_addr + 8 * of_nat k) \<noteq> None) \<and> span command 64 \<inter> span nvme_io_sub_addr 2048 = {} \<and> io_sub_tail s < io_queue_size"

lemma build_command_ok:
  assumes c: "aligned command" "\<forall>k<8. m (command + 8 * of_nat k) \<noteq> None" and ws: "length ws = 7"
  shows "\<exists>m' old. build_command command opcode ns ws m = Some m' \<and> dom m' = dom m \<and>
    (\<forall>k<8. m' (command + 8 * of_nat k) = Some ((command_word old opcode ns # ws) ! k)) \<and>
    (\<forall>q. q \<notin> span command 64 \<longrightarrow> ld8 m' q = ld8 m q)"
proof -
  obtain old where old: "m command = Some old" using c(2) [rule_format, of 0] by auto
  let ?ws = "command_word old opcode ns # ws"
  obtain m' where m': "for_each (\<lambda>(i, w) m. st64 m (command + 8 * of_nat i) w) (enumerate 0 ?ws) m = Some m'" "dom m' = dom m"
      "\<forall>k<8. m' (command + 8 * of_nat k) = Some (?ws ! k)" "\<forall>q. (\<forall>k<8. q \<noteq> command + 8 * of_nat k) \<longrightarrow> m' q = m q"
    using put_words_ok [of ?ws m command 0] c(2) ws by auto
  have "ld8 m' q = ld8 m q" if q: "q \<notin> span command 64" for q
  proof -
    have "cell_of q \<noteq> command + 8 * of_nat k" if k: "k < 8" for k
    proof
      assume e: "cell_of q = command + 8 * of_nat k"
      obtain j where "j < 8" "q = cell_of q + of_nat j" by (rule byte_of_cell)
      then show False using span_word [OF k, of j command] q e by simp
    qed
    then show ?thesis using m'(4) by (simp add: ld8_def)
  qed
  then show ?thesis using m' old by (auto simp: build_command_def put_words_def ld64_def)
qed

lemma slot_in_queue:
  assumes t: "io_sub_tail s < io_queue_size"
  shows "io_slot s = nvme_io_sub_addr + 8 * of_nat (8 * unat (io_sub_tail s))" "8 * unat (io_sub_tail s) + 8 \<le> 256"
    "span (io_slot s) 64 \<subseteq> span nvme_io_sub_addr 2048" "aligned (io_slot s)"
proof -
  have "ucast (io_sub_tail s) = (of_nat (unat (io_sub_tail s)) :: u64)" by (simp add: word_unat_eq_iff)
  then show e: "io_slot s = nvme_io_sub_addr + 8 * of_nat (8 * unat (io_sub_tail s))" by (simp add: io_slot_def SUBMISSION_SIZE_def)
  have "unat (io_sub_tail s) < 32" using t by (simp add: io_queue_size_def word_less_nat_alt)
  then show le: "8 * unat (io_sub_tail s) + 8 \<le> 256" by simp
  show "span (io_slot s) 64 \<subseteq> span nvme_io_sub_addr 2048"
  proof
    fix x assume "x \<in> span (io_slot s) 64"
    then obtain i where i: "i < 64" "x = io_slot s + of_nat i" by (auto simp: span_def)
    then have "x = nvme_io_sub_addr + of_nat (64 * unat (io_sub_tail s) + i)" by (simp add: e)
    moreover have "64 * unat (io_sub_tail s) + i < 2048" using le i(1) by simp
    ultimately show "x \<in> span nvme_io_sub_addr 2048" unfolding span_def by (metis atLeastLessThan_iff imageI zero_le)
  qed
  have "aligned nvme_io_sub_addr" unfolding aligned_unat nvme_io_sub_addr_def by simp
  then show "aligned (io_slot s)" unfolding e by (rule aligned_add)
qed

lemma io_submit_ok:
  assumes r: "queue_ready command s" and ws: "length ws = 7"
  shows "\<exists>m old. (do { s \<leftarrow> on_nmem (build_command command opcode ns ws) s; putIOCommand command s }) = Some (s\<lparr>nmem := m\<rparr>) \<and>
    dom m = dom (nmem s) \<and> (\<forall>k<8. m (io_slot s + 8 * of_nat k) = Some ((command_word old opcode ns # ws) ! k)) \<and>
    (\<forall>q. q \<notin> span command 64 \<union> span (io_slot s) 64 \<longrightarrow> ld8 m q = ld8 (nmem s) q)"
proof -
  have r': "aligned command" "\<forall>k<8. nmem s (command + 8 * of_nat k) \<noteq> None" "\<forall>k<256. nmem s (nvme_io_sub_addr + 8 * of_nat k) \<noteq> None"
      "span command 64 \<inter> span nvme_io_sub_addr 2048 = {}" "io_sub_tail s < io_queue_size" using r by (auto simp: queue_ready_def)
  note sl = slot_in_queue [OF r'(5)]
  obtain m1 old where m1: "build_command command opcode ns ws (nmem s) = Some m1" "dom m1 = dom (nmem s)"
      "\<forall>k<8. m1 (command + 8 * of_nat k) = Some ((command_word old opcode ns # ws) ! k)"
      "\<forall>q. q \<notin> span command 64 \<longrightarrow> ld8 m1 q = ld8 (nmem s) q"
    using build_command_ok [OF r'(1,2) ws] by blast
  have slot: "m1 (io_slot s + 8 * of_nat k) \<noteq> None" if "k < 8" for k
  proof -
    have "io_slot s + 8 * of_nat k = nvme_io_sub_addr + 8 * of_nat (8 * unat (io_sub_tail s) + k)" by (simp add: sl(1))
    moreover have "8 * unat (io_sub_tail s) + k < 256" using sl(2) that by simp
    ultimately show ?thesis using r'(3) m1(2) by (metis domIff)
  qed
  have dis: "span (io_slot s) (8 * 8) \<inter> span command (8 * 8) = {}" using r'(4) sl(3) by auto
  have "\<exists>m. memcpy m1 (io_slot s) command (8 * of_nat 8) = Some (io_slot s, m) \<and>
      (\<forall>k<8. m (io_slot s + 8 * of_nat k) = m1 (command + 8 * of_nat k)) \<and> (\<forall>q. q \<notin> span (io_slot s) (8 * 8) \<longrightarrow> ld8 m q = ld8 m1 q)"
    by (rule copy_words [OF sl(4) r'(1) _ _ dis]) (use slot m1(3) in auto)
  then obtain m where m: "memcpy m1 (io_slot s) command 64 = Some (io_slot s, m)" "\<forall>k<8. m (io_slot s + 8 * of_nat k) = m1 (command + 8 * of_nat k)"
      "\<forall>q. q \<notin> span (io_slot s) 64 \<longrightarrow> ld8 m q = ld8 m1 q" by auto
  have "dom m = dom m1" using m(1) copy_up_dom by (auto simp: memcpy_def bind_eq_Some_conv)
  moreover have "(do { s \<leftarrow> on_nmem (build_command command opcode ns ws) s; putIOCommand command s }) = Some (s\<lparr>nmem := m\<rparr>)"
    using m1(1) m(1) by (cases s) (simp add: on_nmem_def putIOCommand_def SUBMISSION_SIZE_def io_slot_def)
  ultimately show ?thesis using m1 m by (intro exI [of _ m] exI [of _ old]) auto
qed

lemma queue_ready_mem: "queue_ready command s \<Longrightarrow> dom m = dom (nmem s) \<Longrightarrow> queue_ready command (s\<lparr>nmem := m\<rparr>)"
  unfolding queue_ready_def by (simp add: domIff set_eq_iff dom_def)

text \<open>How the controller reads a command, from the NVMe command set.\<close>

definition decode_io :: "u64 list \<Rightarrow> u8 \<times> nvme_io_info" where
  "decode_io w = (ucast (w ! 0), \<lparr>nsid = ucast (drop_bit 32 (w ! 0)), meta = w ! 2, prp0 = w ! 3, prp1 = w ! 4, lba_start = w ! 5,
     limited_retry = bit (w ! 6) 31, force_unit_access = bit (w ! 6) 30, protection_info = ucast (drop_bit 26 (w ! 6)) AND 0xF, lba_num = ucast (w ! 6)\<rparr>)"

definition slot_words :: "'d nvme \<Rightarrow> u64 \<Rightarrow> u64 list" where
  "slot_words s p = map (\<lambda>k. the (nmem s (p + 8 * of_nat k))) [0..<8]"

lemma bit_flag: "k < 32 \<Longrightarrow> bit (push_bit k (of_bool b) :: u32) n \<longleftrightarrow> n = k \<and> b"
  by (cases b) (auto simp: bit_simps simp del: push_bit_of_1)

lemma decode_io_words: "decode_io (command_word old op (nsid i) # io_words i) = (op, i\<lparr>protection_info := protection_info i AND 0xF\<rparr>)"
proof -
  have f: "(0xFFFFFFFF :: u64) = mask 32" "(0xF :: u8) = mask 4" "(0xFFFF :: u16) = mask 16" by (simp_all add: mask_eq_exp_minus_1)
  define x :: u32 where "x = push_bit 31 (of_bool (limited_retry i)) OR push_bit 30 (of_bool (force_unit_access i)) OR
           push_bit 26 (ucast (protection_info i AND 0xF)) OR ucast (lba_num i AND 0xFFFF)"
  have x: "bit x n \<longleftrightarrow> n = 31 \<and> limited_retry i \<or> n = 30 \<and> force_unit_access i \<or> 26 \<le> n \<and> n < 30 \<and> bit (protection_info i) (n - 26) \<or> n < 16 \<and> bit (lba_num i) n" for n
  proof -
    have "bit (push_bit 26 (ucast (protection_info i AND 0xF)) :: u32) n \<longleftrightarrow> 26 \<le> n \<and> n < 30 \<and> bit (protection_info i) (n - 26)"
      unfolding f by (auto simp: bit_simps)
    moreover have "bit (ucast (lba_num i AND 0xFFFF) :: u32) n \<longleftrightarrow> n < 16 \<and> bit (lba_num i) n"
      unfolding f by (auto simp: bit_simps)
    ultimately show ?thesis unfolding x_def bit_or_iff using bit_flag [of 31 "limited_retry i" n] bit_flag [of 30 "force_unit_access i" n] by simp
  qed
  have p: "bit (pair x 0) n = bit x n" for n using bit_imp_le_length [of x n] by (auto simp: pair_def bit_simps)
  have 1: "ucast (command_word old op n) = op" "ucast (drop_bit 32 (command_word old op n)) = n" for n
    unfolding command_word_def by (rule bit_word_eqI, auto simp: bit_simps bit_above)+
  have 2: "pair (ucast (a AND 0xFFFFFFFF)) (ucast (drop_bit 32 a AND 0xFFFFFFFF)) = a" for a
    unfolding pair_def f by (rule bit_word_eqI) (auto simp: bit_simps bit_above)
  have 3: "ucast (drop_bit 26 (pair x 0)) AND 0xF = protection_info i AND 0xF"
    unfolding f by (rule bit_word_eqI) (auto simp: bit_simps p x)
  have 4: "ucast (pair x 0) = lba_num i"
    by (rule bit_word_eqI) (auto simp: bit_simps p x)
  show ?thesis unfolding decode_io_def io_words_def x_def [symmetric] using 1 2 3 4 p [of 31] p [of 30] x [of 31] x [of 30] by (cases i) simp
qed

section \<open>Rings, doorbells and the search for the controller\<close>

lemma ring_pos_nat:
  assumes "q \<noteq> 0"
  shows "unat (ring_pos p n q) = (unat p + unat n) mod unat q"
proof -
  have b: "unat p < 65536" "unat n < 65536" "unat q < 65536" "0 < unat q"
    using unsigned_less [of p, where ?'a = nat] unsigned_less [of n, where ?'a = nat] unsigned_less [of q, where ?'a = nat] assms
    by (simp_all add: unat_gt_0)
  have u: "unat (ucast x :: u32) = unat x" for x :: u16 using unsigned_less [of x, where ?'a = nat] by (simp add: unsigned_ucast_eq take_bit_nat_eq_self)
  have "unat (ucast p + ucast n :: u32) = unat p + unat n"
    using b unat_add_lem [of "ucast p :: u32" "ucast n"] u by simp
  then have "unat ((ucast p + ucast n :: u32) mod ucast q) = (unat p + unat n) mod unat q" by (simp only: unat_mod u)
  moreover have "(unat p + unat n) mod unat q < 65536" using b(3) mod_less_divisor [OF b(4), of "unat p + unat n"] by linarith
  ultimately show ?thesis by (simp add: ring_pos_def unsigned_ucast_eq take_bit_nat_eq_self)
qed

lemma ringIOCom_simps:
  "io_com_head (ringIOCom out16 num s) = ring_pos (io_com_head s) num io_queue_size"
  "io_new_phase (ringIOCom out16 num s) = (if ring_pos (io_com_head s) num io_queue_size = 0 then io_new_phase s XOR 1 else io_new_phase s)"
  by (simp_all add: ringIOCom_def ring_def Let_def)

lemma completions:
  assumes "io_com_head s = 0" "io_new_phase s = 1"
  shows "unat (io_com_head ((ringIOCom out16 1 ^^ k) s)) = k mod 32 \<and>
    io_new_phase ((ringIOCom out16 1 ^^ k) s) = (if even (k div 32) then 1 else 0)"
proof (induction k)
  case 0
  then show ?case using assms by simp
next
  case (Suc k)
  let ?s = "(ringIOCom out16 1 ^^ k) s"
  have q: "unat (ring_pos (io_com_head ?s) 1 io_queue_size) = Suc k mod 32"
    using Suc ring_pos_nat [of io_queue_size "io_com_head ?s" 1] by (simp add: io_queue_size_def mod_Suc_eq)
  then have "ring_pos (io_com_head ?s) 1 io_queue_size = 0 \<longleftrightarrow> Suc k mod 32 = 0" by (simp add: word_unat_eq_iff)
  then show ?case using Suc q by (simp add: ringIOCom_simps div_Suc)
qed

lemma nvme_search_ok:
  assumes "config_mechanism io cfg"
  shows "fst (nvme_search io ps d) = (case find (\<lambda>(b, v). cfg_byte (cfg d) b v 0 0xB = PCI_CLASS_MASS_STORAGE \<and> cfg_byte (cfg d) b v 0 0xA = PCI_SUBCLASS_NVM) ps of
      None \<Rightarrow> (0, 0) | Some x \<Rightarrow> x)"
proof (induction ps arbitrary: d)
  case Nil
  then show ?case by simp
next
  case (Cons p ps)
  obtain b v where p: "p = (b, v)" by (cases p)
  note r = pciConfigReadByte_ok [OF assms]
  show ?case unfolding p by (simp add: pciGetBaseClass_def pciGetSubClass_def split_def r Cons.IH)
qed

lemma find_split: "find P xs = Some x \<Longrightarrow> \<exists>us vs. xs = us @ x # vs \<and> P x \<and> (\<forall>u\<in>set us. \<not> P u)"
proof (induction xs)
  case (Cons y ys)
  show ?case
  proof (cases "P y")
    case True
    with Cons.prems show ?thesis by (intro exI [of _ "[]"] exI [of _ ys]) simp
  next
    case False
    with Cons obtain us vs where "ys = us @ x # vs" "P x" "\<forall>u\<in>set us. \<not> P u" by auto
    with False show ?thesis by (intro exI [of _ "y # us"] exI [of _ vs]) simp
  qed
qed simp

lemma all_slots_iff: "(b, v) \<in> set all_slots \<longleftrightarrow> unat v < 32"
proof -
  have "b \<in> of_nat ` {0..<256}" by (rule image_eqI [of _ _ "unat b"]) (use unsigned_less [of b, where ?'a = nat] in auto)
  moreover have "v \<in> of_nat ` {0..<32} \<longleftrightarrow> unat v < 32"
  proof
    assume "v \<in> of_nat ` {0..<32}"
    then show "unat v < 32" by (auto simp: unat_of_nat)
  next
    assume "unat v < 32"
    then show "v \<in> of_nat ` {0..<32}" by (intro image_eqI [of _ _ "unat v"]) auto
  qed
  ultimately show ?thesis by (simp add: all_slots_def)
qed

section \<open>Properties\<close>

definition demo_nvme :: "unit nvme" where
  "demo_nvme = \<lparr>nmem = (\<lambda>_. Some 0), nhw = (),
     npaging = \<lparr>frames = \<lparr>pm = (\<lambda>_. None), mmap_entries = [], Pmm.pmm.mem_size = 0, bitmap_size = 0, bitmap_base = 0, free_mem = 0, bitmaps = []\<rparr>,
       bulk_alloc_ptrs = [], curr = 0, cr3 = 0, bsp_cr3 = 0, plock = 0\<rparr>,
     nidt = boot_idt, ntimer = demo_timer, identify_addr = 0, namespace_list = 0, namespace_addr = 0, msix_size = 0, capabilities = 0, mem_page_min = 0x1000,
     mem_page_max = 0x1000, doorbell_stride = 4, admin_sub_tail = 0, admin_com_head = 0, admin_new_phase = 1, io_sub_tail = 5, io_com_head = 0, io_new_phase = 1\<rparr>"

definition demo_info :: nvme_io_info where
  "demo_info = \<lparr>nsid = 1, meta = 0, prp0 = 0x123000, prp1 = 0, lba_start = 0x500000007, limited_retry = True, force_unit_access = False,
     protection_info = 3, lba_num = 7\<rparr>"

lemma demo_ready: "queue_ready 0x7000 demo_nvme"
proof -
  have u: "unat (0x7000 + of_nat i :: u64) = 0x7000 + i" if "i < 64" for i
    using that unat_add_lem [of "0x7000 :: u64" "of_nat i"] by (simp add: unat_of_nat)
  have v: "unat (0xFFFFFF8400000000 + of_nat i :: u64) = 0xFFFFFF8400000000 + i" if "i < 2048" for i
    using that unat_add_lem [of "0xFFFFFF8400000000 :: u64" "of_nat i"] by (simp add: unat_of_nat)
  have "(0x7000 + of_nat i :: u64) \<noteq> 0xFFFFFF8400000000 + of_nat j" if "i < 64" "j < 2048" for i j
  proof
    assume "(0x7000 + of_nat i :: u64) = 0xFFFFFF8400000000 + of_nat j"
    then have "0x7000 + i = 0xFFFFFF8400000000 + j" using u [OF that(1)] v [OF that(2)] by metis
    then show False using that by simp
  qed
  then have "span 0x7000 64 \<inter> span nvme_io_sub_addr 2048 = {}" by (auto simp: span_def nvme_io_sub_addr_def)
  moreover have "aligned 0x7000" by (simp add: aligned_unat)
  ultimately show ?thesis by (simp add: queue_ready_def demo_nvme_def io_queue_size_def)
qed

lemma io_submit_decode:
  assumes r: "queue_ready command s"
  shows "\<exists>s'. (do { s \<leftarrow> on_nmem (build_command command op (nsid info) (io_words info)) s; putIOCommand command s }) = Some s' \<and>
    decode_io (slot_words s' (io_slot s)) = (op, info\<lparr>protection_info := protection_info info AND 0xF\<rparr>) \<and>
    queue_ready command s' \<and> io_slot s' = io_slot s \<and> nhw s' = nhw s \<and>
    (\<forall>q. q \<notin> span command 64 \<union> span (io_slot s) 64 \<longrightarrow> ld8 (nmem s') q = ld8 (nmem s) q)"
proof -
  have "length (io_words info) = 7" by (simp add: io_words_def)
  from io_submit_ok [OF r this, of op "nsid info"] obtain m old where m:
      "(do { s \<leftarrow> on_nmem (build_command command op (nsid info) (io_words info)) s; putIOCommand command s }) = Some (s\<lparr>nmem := m\<rparr>)"
      "dom m = dom (nmem s)" "\<forall>k<8. m (io_slot s + 8 * of_nat k) = Some ((command_word old op (nsid info) # io_words info) ! k)"
      "\<forall>q. q \<notin> span command 64 \<union> span (io_slot s) 64 \<longrightarrow> ld8 m q = ld8 (nmem s) q" by blast
  have "slot_words (s\<lparr>nmem := m\<rparr>) (io_slot s) = command_word old op (nsid info) # io_words info"
    using m(3) by (intro nth_equalityI) (simp_all add: slot_words_def \<open>length (io_words info) = 7\<close>)
  then show ?thesis using m decode_io_words queue_ready_mem [OF r m(2)] by (auto simp: io_slot_def)
qed

lemmas nvmeRead_ok = io_submit_decode [where op = NVME_READ, folded nvmeRead_def]
lemmas nvmeWrite_ok = io_submit_decode [where op = NVME_WRITE, folded nvmeWrite_def]
text \<open>
  C18: a read or write request is copied into the next slot of the I/O submission queue, and what the controller
  decodes from the 64 bytes of that slot is the request: the operation, the namespace, the addresses, the first
  block and the number of blocks, and the flags (four bits of the protection information). No other byte of memory
  changes except in the structure on the stack.
\<close>
theorem io_command_roundtrip:
  assumes "queue_ready command s"
  shows "(\<exists>s'. nvmeRead command info s = Some s' \<and> decode_io (slot_words s' (io_slot s)) = (NVME_READ, info\<lparr>protection_info := protection_info info AND 0xF\<rparr>) \<and>
      (\<forall>q. q \<notin> span command 64 \<union> span (io_slot s) 64 \<longrightarrow> ld8 (nmem s') q = ld8 (nmem s) q)) \<and>
    (\<exists>s'. nvmeWrite command info s = Some s' \<and> decode_io (slot_words s' (io_slot s)) = (NVME_WRITE, info\<lparr>protection_info := protection_info info AND 0xF\<rparr>) \<and>
      (\<forall>q. q \<notin> span command 64 \<union> span (io_slot s) 64 \<longrightarrow> ld8 (nmem s') q = ld8 (nmem s) q))"
  using nvmeRead_ok [OF assms, of info] nvmeWrite_ok [OF assms, of info] by blast

theorem io_command_roundtrip_witness:
  "\<exists>s. nvmeRead 0x7000 demo_info demo_nvme = Some s \<and> decode_io (slot_words s 0xFFFFFF8400000140) = (NVME_READ, demo_info)"
proof -
  have "demo_info\<lparr>protection_info := protection_info demo_info AND 0xF\<rparr> = demo_info" by (simp add: demo_info_def)
  moreover have "io_slot demo_nvme = 0xFFFFFF8400000140" by (simp add: io_slot_def demo_nvme_def nvme_io_sub_addr_def SUBMISSION_SIZE_def)
  ultimately show ?thesis using io_command_roundtrip [OF demo_ready, of demo_info] by auto
qed

text \<open>
  Neither operation advances the tail of the queue or rings the doorbell, and no caller does: a second
  request replaces the first one in its slot, and the controller is never told of either.
\<close>
theorem io_command_overwritten:
  assumes "queue_ready command s"
  shows "\<exists>s' s''. nvmeRead command info s = Some s' \<and> nvmeWrite command info' s' = Some s'' \<and> io_slot s' = io_slot s \<and> io_slot s'' = io_slot s \<and>
    decode_io (slot_words s'' (io_slot s)) = (NVME_WRITE, info'\<lparr>protection_info := protection_info info' AND 0xF\<rparr>) \<and> nhw s'' = nhw s"
proof -
  obtain s' where s': "nvmeRead command info s = Some s'" "queue_ready command s'" "io_slot s' = io_slot s" "nhw s' = nhw s"
    using nvmeRead_ok [OF assms, of info] by blast
  obtain s'' where "nvmeWrite command info' s' = Some s''" "io_slot s'' = io_slot s'" "nhw s'' = nhw s'"
      "decode_io (slot_words s'' (io_slot s')) = (NVME_WRITE, info'\<lparr>protection_info := protection_info info' AND 0xF\<rparr>)"
    using nvmeWrite_ok [OF s'(2), of info'] by blast
  with s' show ?thesis by auto
qed

theorem io_command_overwritten_witness:
  "\<exists>s' s''. nvmeRead 0x7000 demo_info demo_nvme = Some s' \<and> nvmeWrite 0x7000 demo_info s' = Some s'' \<and>
     fst (decode_io (slot_words s'' (io_slot demo_nvme))) = NVME_WRITE"
  using io_command_overwritten [OF demo_ready, of demo_info demo_info] by force

text \<open>
  C38: the driver expects the completions where and how the controller writes them: from the initial state, after
  any number \<open>k\<close> of completions taken one by one, the head of the completion queue is \<open>k mod 32\<close> and the phase
  that marks a new entry there has been inverted once for each pass through the queue.
\<close>
theorem io_completion_phase:
  assumes "io_com_head s = 0" and "io_new_phase s = 1"
  shows "unat (io_com_head ((ringIOCom out16 1 ^^ k) s)) = k mod 32 \<and>
    io_new_phase ((ringIOCom out16 1 ^^ k) s) = (if even (k div 32) then 1 else 0)"
  using completions [OF assms] .

theorem io_completion_phase_witness:
  "unat (io_com_head ((ringIOCom (\<lambda>_ _ d. d) 1 ^^ 70) demo_nvme)) = 6 \<and> io_new_phase ((ringIOCom (\<lambda>_ _ d. d) 1 ^^ 70) demo_nvme) = 1"
  using io_completion_phase [of demo_nvme 70 "\<lambda>_ _ d. d"] by (simp add: demo_nvme_def)

text \<open>
  C39: the search visits every bus and every device in order and returns the first controller for
  non-volatile memory; when there is none it returns bus 0, device 0, which initialisation then treats as the controller.
\<close>
theorem nvme_search_correct:
  assumes "config_mechanism io cfg"
  shows "let nvm = (\<lambda>(b, v). cfg_byte (cfg d) b v 0 0xB = PCI_CLASS_MASS_STORAGE \<and> cfg_byte (cfg d) b v 0 0xA = PCI_SUBCLASS_NVM);
             r = fst (nvme_search io all_slots d)
         in (\<exists>us vs. all_slots = us @ r # vs \<and> nvm r \<and> (\<forall>u\<in>set us. \<not> nvm u)) \<or> r = (0, 0) \<and> (\<forall>b v. unat v < 32 \<longrightarrow> \<not> nvm (b, v))"
proof -
  define nvm where "nvm = (\<lambda>(b, v). cfg_byte (cfg d) b v 0 0xB = PCI_CLASS_MASS_STORAGE \<and> cfg_byte (cfg d) b v 0 0xA = PCI_SUBCLASS_NVM)"
  have r: "fst (nvme_search io all_slots d) = (case find nvm all_slots of None \<Rightarrow> (0, 0) | Some x \<Rightarrow> x)"
    using nvme_search_ok [OF assms] unfolding nvm_def .
  let ?r = "fst (nvme_search io all_slots d)"
  have "(\<exists>us vs. all_slots = us @ ?r # vs \<and> nvm ?r \<and> (\<forall>u\<in>set us. \<not> nvm u)) \<or> ?r = (0, 0) \<and> (\<forall>b v. unat v < 32 \<longrightarrow> \<not> nvm (b, v))"
  proof (cases "find nvm all_slots")
    case None
    then have "?r = (0, 0)" by (simp only: r option.case)
    moreover have "\<forall>x\<in>set all_slots. \<not> nvm x" using None unfolding find_None_iff by blast
    ultimately show ?thesis using all_slots_iff by blast
  next
    case (Some x)
    then have "?r = x" by (simp only: r option.case)
    then show ?thesis using find_split [OF Some] by blast
  qed
  then show ?thesis unfolding Let_def nvm_def .
qed

theorem nvme_search_correct_witness: "fst (nvme_search demo_bridge all_slots (0, \<lambda>_. 0)) = (0, 0)"
proof -
  have "cfg_byte (\<lambda>_. 0) b v 0 0xB \<noteq> PCI_CLASS_MASS_STORAGE" for b v by (simp add: cfg_byte_def PCI_CLASS_MASS_STORAGE_def)
  then show ?thesis using nvme_search_correct [OF demo_bridge_ok, of "(0, \<lambda>_. 0)"] by (auto simp: Let_def)
qed

end
