(* ===== verification/Address_Space.thy ===== *)
theory Address_Space
  imports Heap Paging_Tables
begin

text \<open>
  User address spaces and program loading: \<^verbatim>\<open>mm/addressspace/addressspace.c\<close> and \<^verbatim>\<open>user/elf.c\<close>. An address
  space is a structure on the kernel heap with an array of regions, 24 bytes each; adding a region grows
  the array and maps its pages in the page tables of the space. A function that ends without returning
  its value, and a local variable that is read before it is written, are arguments of the model
  (\<open>indet\<close>, \<open>indet_type\<close>). The loader writes to user addresses, which the processor translates with the
  current page tables.
\<close>

section \<open>Constants\<close>

definition ADDRSPACE_TYPE_STACK :: u32 where "ADDRSPACE_TYPE_STACK = 5"
definition ADDRSPACE_FLAG_EXECUTABLE :: u32 where "ADDRSPACE_FLAG_EXECUTABLE = push_bit 0 1"
definition ADDRSPACE_FLAG_WRITEABLE :: u32 where "ADDRSPACE_FLAG_WRITEABLE = push_bit 1 1"
definition ADDRSPACE_FLAG_READABLE :: u32 where "ADDRSPACE_FLAG_READABLE = push_bit 2 1"
definition ADDRSPACE_FLAG_UNCACHEABLE :: u32 where "ADDRSPACE_FLAG_UNCACHEABLE = push_bit 3 1"
definition ADDRSPACE_FLAG_USER :: u32 where "ADDRSPACE_FLAG_USER = push_bit 4 1"
definition ELF_SEGMENT_LOAD :: u32 where "ELF_SEGMENT_LOAD = 1"
definition ELF_FLAG_EXECUTABLE :: u32 where "ELF_FLAG_EXECUTABLE = push_bit 0 1"
definition ELF_FLAG_WRITEABLE :: u32 where "ELF_FLAG_WRITEABLE = push_bit 1 1"

section \<open>32-bit fields\<close>

text \<open>A 32-bit field of an aligned structure is one half of an 8-byte cell.\<close>

definition ld32 :: "mem \<Rightarrow> u64 \<Rightarrow> u32 option" where
  "ld32 m p = map_option (\<lambda>c. ucast (drop_bit (lane_of p) c)) (m (cell_of p))"

definition st32 :: "mem \<Rightarrow> u64 \<Rightarrow> u32 \<Rightarrow> mem option" where
  "st32 m p v =
     (case m (cell_of p) of
        None \<Rightarrow> None
      | Some c \<Rightarrow> Some (m(cell_of p \<mapsto> (c AND NOT (push_bit (lane_of p) (mask 32))) OR push_bit (lane_of p) (ucast v))))"

section \<open>Address spaces\<close>

text \<open>The fields of \<^verbatim>\<open>address_space_t\<close> and of the entry \<open>i\<close> of its array.\<close>

definition space_cr3 :: "u64 \<Rightarrow> u64" where "space_cr3 space = space"
definition space_num_entries :: "u64 \<Rightarrow> u64" where "space_num_entries space = space + 8"
definition space_entries :: "u64 \<Rightarrow> u64" where "space_entries space = space + 16"
definition SPACE_SIZE :: u64 where "SPACE_SIZE = 24"
definition ENTRY_SIZE :: u64 where "ENTRY_SIZE = 24"
definition entry_at :: "u64 \<Rightarrow> u64 \<Rightarrow> u64" where "entry_at entries i = entries + ENTRY_SIZE * i"

definition convAddrSpaceFlagsToPaging :: "u32 \<Rightarrow> u64" where
  "convAddrSpaceFlagsToPaging flags =
     (let p = PAGE_FLAG_PRESENT;
          p = (if flags AND ADDRSPACE_FLAG_EXECUTABLE = 0 then p OR PAGE_FLAG_EXECDBLE else p);
          p = (if flags AND ADDRSPACE_FLAG_WRITEABLE \<noteq> 0 then p OR PAGE_FLAG_READWRITE else p);
          p = (if flags AND ADDRSPACE_FLAG_UNCACHEABLE \<noteq> 0 then p OR PAGE_FLAG_CACHEDBLE else p)
      in if flags AND ADDRSPACE_FLAG_USER \<noteq> 0 then p OR PAGE_FLAG_USERSUPER else p)"

definition hput :: "u64 \<Rightarrow> u64 \<Rightarrow> heap \<Rightarrow> heap option" where
  "hput p v h = do { m \<leftarrow> st64 (hmem h) p v; Some (h\<lparr>hmem := m\<rparr>) }"

definition hput32 :: "u64 \<Rightarrow> u32 \<Rightarrow> heap \<Rightarrow> heap option" where
  "hput32 p v h = do { m \<leftarrow> st32 (hmem h) p v; Some (h\<lparr>hmem := m\<rparr>) }"

definition addressSpaceNew :: "u64 \<Rightarrow> u64 \<Rightarrow> heap \<Rightarrow> (u64 \<times> heap) option" where
  "addressSpaceNew indet c h = do {
     (addrspace, h) \<leftarrow> kmalloc SPACE_SIZE h;
     h \<leftarrow> hput (space_cr3 addrspace) c h;
     h \<leftarrow> hput (space_num_entries addrspace) 0 h;
     h \<leftarrow> hput (space_entries addrspace) NULL h;
     Some (indet, h) }"

definition region_pages :: "u64 \<Rightarrow> u64 \<Rightarrow> u64 \<times> u64" where
  "region_pages start sz = (ALIGN_TO_PAGE start, GET_NUM_PAGES sz)"

definition addressSpaceAddEntry :: "u64 \<Rightarrow> u32 \<Rightarrow> u32 \<Rightarrow> u64 \<Rightarrow> u64 \<Rightarrow> heap \<times> paging \<Rightarrow> (heap \<times> paging) option" where
  "addressSpaceAddEntry space type flags sz start hp = do {
     let (h, p) = hp;
     es \<leftarrow> ld64 (hmem h) (space_entries space);
     (es, h) \<leftarrow> (if es = NULL then kmalloc ENTRY_SIZE h
                else do {
                  n \<leftarrow> ld64 (hmem h) (space_num_entries space);
                  krealloc es ((n + 1) * SPACE_SIZE) h });
     h \<leftarrow> hput (space_entries space) es h;
     n \<leftarrow> ld64 (hmem h) (space_num_entries space);
     h \<leftarrow> hput32 (entry_at es n) type h;
     h \<leftarrow> hput32 (entry_at es n + 4) flags h;
     h \<leftarrow> hput (entry_at es n + 8) sz h;
     h \<leftarrow> hput (entry_at es n + 16) start h;
     let (start_page, num_pages) = region_pages start sz;
     c \<leftarrow> ld64 (hmem h) (space_cr3 space);
     (_, p) \<leftarrow> vmallocCR3 start_page num_pages (convAddrSpaceFlagsToPaging flags) c p;
     h \<leftarrow> hput (space_num_entries space) (n + 1) h;
     Some (h, p) }"

definition addressSpaceChangeFlags :: "u64 \<Rightarrow> u64 \<Rightarrow> u32 \<Rightarrow> heap \<times> paging \<Rightarrow> (u32 \<times> heap \<times> paging) option" where
  "addressSpaceChangeFlags space idx flags hp = do {
     let (h, p) = hp;
     es \<leftarrow> ld64 (hmem h) (space_entries space);
     old_flags \<leftarrow> ld32 (hmem h) (entry_at es idx + 4);
     h \<leftarrow> hput32 (entry_at es idx + 4) flags h;
     start \<leftarrow> ld64 (hmem h) (entry_at es idx + 16);
     sz \<leftarrow> ld64 (hmem h) (entry_at es idx + 8);
     let (start_page, num_pages) = region_pages start sz;
     c \<leftarrow> ld64 (hmem h) (space_cr3 space);
     p \<leftarrow> vflagsCR3 start_page num_pages (convAddrSpaceFlagsToPaging flags) c p;
     Some (old_flags, h, p) }"

section \<open>User memory\<close>

text \<open>
  A byte at a user address, through the page tables the processor uses: the frame of its page, in the window
  through which the kernel sees physical memory.
\<close>

definition user_addr :: "u64 \<Rightarrow> paging \<Rightarrow> u64 option" where
  "user_addr v p = do {
     pptr \<leftarrow> translate (pm (frames p)) (pagingGetCR3 p) v;
     Some (pptr + page_direct_base) }"

definition user_st8 :: "u64 \<Rightarrow> u8 \<Rightarrow> paging \<Rightarrow> paging option" where
  "user_st8 v b p = do {
     a \<leftarrow> user_addr v p;
     m \<leftarrow> st8 (pm (frames p)) a b;
     Some (p\<lparr>frames := (frames p)\<lparr>pm := m\<rparr>\<rparr>) }"

primrec user_memset :: "u64 \<Rightarrow> u8 \<Rightarrow> nat \<Rightarrow> paging \<Rightarrow> paging option" where
  "user_memset v b 0 p = Some p"
| "user_memset v b (Suc n) p = do { p \<leftarrow> user_st8 v b p; user_memset (v + 1) b n p }"

primrec user_memcpy :: "mem \<Rightarrow> u64 \<Rightarrow> u64 \<Rightarrow> nat \<Rightarrow> paging \<Rightarrow> paging option" where
  "user_memcpy m v src 0 p = Some p"
| "user_memcpy m v src (Suc n) p = do { b \<leftarrow> ld8 m src; p \<leftarrow> user_st8 v b p; user_memcpy m (v + 1) (src + 1) n p }"

section \<open>Loading a program\<close>

text \<open>Fields of the packed ELF structures, little endian, at any address.\<close>

primrec ld_bytes :: "mem \<Rightarrow> u64 \<Rightarrow> nat \<Rightarrow> u64 option" where
  "ld_bytes m p 0 = Some 0"
| "ld_bytes m p (Suc n) = do { b \<leftarrow> ld8 m p; r \<leftarrow> ld_bytes m (p + 1) n; Some (ucast b OR push_bit 8 r) }"

definition elf_entry_pos :: "mem \<Rightarrow> u64 \<Rightarrow> u64 option" where "elf_entry_pos m file = ld_bytes m (file + 24) 8"
definition elf_table_pos :: "mem \<Rightarrow> u64 \<Rightarrow> u64 option" where "elf_table_pos m file = ld_bytes m (file + 32) 8"
definition elf_num_entries :: "mem \<Rightarrow> u64 \<Rightarrow> u64 option" where "elf_num_entries m file = ld_bytes m (file + 56) 2"

record elf_program_t =
  seg_type :: u32
  seg_flags :: u32
  seg_offset :: u64
  seg_vaddr :: u64
  seg_size_mem :: u64

definition PROGRAM_SIZE :: u64 where "PROGRAM_SIZE = 56"

definition elf_segment :: "mem \<Rightarrow> u64 \<Rightarrow> u64 \<Rightarrow> elf_program_t option" where
  "elf_segment m segments i = do {
     let p = segments + PROGRAM_SIZE * i;
     t \<leftarrow> ld_bytes m p 4;
     f \<leftarrow> ld_bytes m (p + 4) 4;
     off \<leftarrow> ld_bytes m (p + 8) 8;
     va \<leftarrow> ld_bytes m (p + 16) 8;
     sz \<leftarrow> ld_bytes m (p + 40) 8;
     Some \<lparr>seg_type = ucast t, seg_flags = ucast f, seg_offset = off, seg_vaddr = va, seg_size_mem = sz\<rparr> }"

definition segment_flags :: "elf_program_t \<Rightarrow> u32" where
  "segment_flags g =
     (let flags = ADDRSPACE_FLAG_USER;
          flags = (if seg_flags g AND ELF_FLAG_WRITEABLE \<noteq> 0 then flags OR ADDRSPACE_FLAG_WRITEABLE else flags)
      in if seg_flags g AND ELF_FLAG_EXECUTABLE \<noteq> 0 then flags OR ADDRSPACE_FLAG_EXECUTABLE else flags)"

definition load_segment :: "u32 \<Rightarrow> u64 \<Rightarrow> u64 \<Rightarrow> u64 \<Rightarrow> elf_program_t \<Rightarrow> heap \<times> paging \<Rightarrow> (heap \<times> paging) option" where
  "load_segment indet_type space file i g hp = do {
     let data = file + seg_offset g;
     let vaddr = seg_vaddr g;
     let num_bytes = seg_size_mem g;
     (h, p) \<leftarrow> addressSpaceAddEntry space indet_type
                (ADDRSPACE_FLAG_USER OR ADDRSPACE_FLAG_WRITEABLE OR ADDRSPACE_FLAG_EXECUTABLE) num_bytes vaddr hp;
     p \<leftarrow> user_memset vaddr 0 (unat num_bytes) p;
     p \<leftarrow> user_memcpy (hmem h) vaddr data (unat num_bytes) p;
     (_, hp) \<leftarrow> addressSpaceChangeFlags space i (segment_flags g) (h, p);
     Some hp }"

text \<open>
  The loop over the program headers, from header \<open>i\<close> on. The first result is the value the function returns
  early, or \<open>None\<close> when all segments are loaded. The file is read through the kernel's memory.
\<close>

partial_function (option) elf_segments :: "u32 \<Rightarrow> u64 \<Rightarrow> u64 \<Rightarrow> u64 \<Rightarrow> u64 \<Rightarrow> heap \<times> paging \<Rightarrow> (u64 option \<times> heap \<times> paging) option" where
  "elf_segments indet_type space file segments i hp = do {
     n \<leftarrow> elf_num_entries (hmem (fst hp)) file;
     if i < n then do {
       g \<leftarrow> elf_segment (hmem (fst hp)) segments i;
       if seg_type g = ELF_SEGMENT_LOAD then do {
         hp \<leftarrow> load_segment indet_type space file i g hp;
         elf_segments indet_type space file segments (i + 1) hp }
       else Some (Some (- 1), hp) }
     else Some (None, hp) }"

definition elfLoad :: "u32 \<Rightarrow> u64 \<Rightarrow> u64 \<Rightarrow> u64 \<Rightarrow> heap \<times> paging \<Rightarrow> (u64 \<times> heap \<times> paging) option" where
  "elfLoad indet_type magic space file hp =
     (if file = NULL then Some (- 1, hp)
      else do {
        r \<leftarrow> strncmp (hmem (fst hp)) file magic 4;
        if r \<noteq> 0 then Some (- 1, hp)
        else do {
          pos \<leftarrow> elf_table_pos (hmem (fst hp)) file;
          (r, hp) \<leftarrow> elf_segments indet_type space file (file + pos) 0 hp;
          case r of
            Some r \<Rightarrow> Some (r, hp)
          | None \<Rightarrow> do { e \<leftarrow> elf_entry_pos (hmem (fst hp)) file; Some (e, hp) } } })"

section \<open>Properties\<close>

lemma and_flag: "(x AND push_bit k 1 = 0) \<longleftrightarrow> \<not> bit x k" for x :: u32
proof
  assume z: "x AND push_bit k 1 = 0"
  show "\<not> bit x k"
  proof
    assume b: "bit x k"
    then have "bit (x AND push_bit k 1) k"
      using bit_imp_le_length [OF b] by (simp add: bit_simps del: push_bit_of_1)
    with z show False by simp
  qed
next
  assume "\<not> bit x k"
  then show "x AND push_bit k 1 = 0"
    by (intro bit_word_eqI) (auto simp: bit_simps simp del: push_bit_of_1)
qed

text \<open>
  The page-table flags of a region: every page is present and readable whether or not the region asks for it; it is writable,
  accessible to user mode or uncached exactly when the region's flag says so, it can be executed exactly
  when the region is executable, and no other bit of the entry is set.
\<close>

lemma conv_flags_bits:
  "bit (convAddrSpaceFlagsToPaging flags) n \<longleftrightarrow>
     n = 0 \<or> n = 1 \<and> bit flags 1 \<or> n = 2 \<and> bit flags 4 \<or> n = 4 \<and> bit flags 3 \<or> n = 63 \<and> \<not> bit flags 0"
proof -
  have c: "PAGE_FLAG_PRESENT = push_bit 0 1" "PAGE_FLAG_READWRITE = push_bit 1 1" "PAGE_FLAG_USERSUPER = push_bit 2 1"
    "PAGE_FLAG_CACHEDBLE = push_bit 4 1" "PAGE_FLAG_EXECDBLE = push_bit 63 1"
    by (simp_all add: PAGE_FLAG_PRESENT_def PAGE_FLAG_READWRITE_def PAGE_FLAG_USERSUPER_def PAGE_FLAG_CACHEDBLE_def PAGE_FLAG_EXECDBLE_def)
  show ?thesis
    unfolding convAddrSpaceFlagsToPaging_def Let_def c ADDRSPACE_FLAG_EXECUTABLE_def ADDRSPACE_FLAG_WRITEABLE_def
      ADDRSPACE_FLAG_UNCACHEABLE_def ADDRSPACE_FLAG_USER_def and_flag
    by (simp add: bit_simps del: push_bit_of_1 push_bit_0_id) auto
qed

text \<open>
  The page numbers a region touches, and the ones \<^verbatim>\<open>addressSpaceAddEntry\<close> and \<^verbatim>\<open>addressSpaceChangeFlags\<close> hand to
  the page tables for it.
\<close>

definition touched_pages :: "u64 \<Rightarrow> u64 \<Rightarrow> nat set" where
  "touched_pages start sz = (\<lambda>i. (unat start + i) div 4096) ` {..<unat sz}"

definition mapped_pages :: "u64 \<Rightarrow> u64 \<Rightarrow> nat set" where
  "mapped_pages start sz = (case region_pages start sz of (start_page, num_pages) \<Rightarrow>
     (\<lambda>i. (unat start_page + 4096 * i) div 4096) ` {..<unat num_pages})"

lemma touched_interval:
  assumes "0 < sz"
  shows "touched_pages start sz = {unat start div 4096..(unat start + (unat sz - 1)) div 4096}"
proof -
  have pos: "0 < unat sz" using assms by (simp add: word_less_nat_alt)
  have "p \<in> touched_pages start sz" if p: "unat start div 4096 \<le> p" "p \<le> (unat start + (unat sz - 1)) div 4096" for p
  proof -
    define i where "i = (if 4096 * p \<le> unat start then 0 else 4096 * p - unat start)"
    have "(unat start + i) div 4096 = p" "i < unat sz" using p pos unfolding i_def by (cases "4096 * p \<le> unat start"; force)+
    then show ?thesis by (auto simp: touched_pages_def image_iff)
  qed
  moreover have "touched_pages start sz \<subseteq> {unat start div 4096..(unat start + (unat sz - 1)) div 4096}"
    unfolding touched_pages_def by (auto intro!: div_le_mono)
  ultimately show ?thesis by (auto simp: subset_iff)
qed

lemma mapped_interval:
  assumes "unat sz + 4096 < 2 ^ 64"
  shows "mapped_pages start sz = {unat start div 4096..<unat start div 4096 + (unat sz + 4095) div 4096}"
proof -
  have "unat (start div 4096) * unat (4096 :: u64) < 2 ^ LENGTH(64)"
    using unsigned_less [of start, where ?'a = nat] by (simp add: unat_div)
  then have "unat (start div 4096 * 4096) = unat (start div 4096) * unat (4096 :: u64)"
    by (simp only: unat_mult_lem)
  then have sp: "unat (ALIGN_TO_PAGE start) = 4096 * (unat start div 4096)" by (simp add: ALIGN_TO_PAGE_def PAGE_SIZE_def unat_div)
  have c: "unat (4095 :: u64) = 4095" by simp
  then have "unat (4095 :: u64) + unat sz < 2 ^ LENGTH(64)" using assms by simp
  then have "unat (4095 + sz) = unat (4095 :: u64) + unat sz" by (simp only: unat_add_lem)
  then have "unat (4095 + sz) = unat sz + 4095" unfolding c by simp
  then have np: "unat (GET_NUM_PAGES sz) = (unat sz + 4095) div 4096" by (simp add: GET_NUM_PAGES_def PAGE_SIZE_def unat_div)
  have "(\<lambda>i. i + unat start div 4096) ` {..<n} = {unat start div 4096..<unat start div 4096 + n}" for n
    by (simp add: lessThan_atLeast0 add.commute)
  then show ?thesis by (simp add: mapped_pages_def region_pages_def sp np div_mult_self2 [of 4096 _ 0, simplified])
qed

text \<open>
  C37: for a region that starts on a page boundary, the pages that \<^verbatim>\<open>addressSpaceAddEntry\<close> maps and
  \<^verbatim>\<open>addressSpaceChangeFlags\<close> changes are exactly the pages the region touches. The number of pages is computed from the size alone, so this
  still holds for another start when the offset of the start in its page and the offset of the last byte from the start in its page
  fit into one page together; otherwise exactly one page that the region touches, the last, is not mapped.
\<close>
theorem region_pages_exact:
  assumes "0 < sz" and "unat start + unat sz + 4096 < 2 ^ 64"
  shows "(unat start mod 4096 = 0 \<longrightarrow> mapped_pages start sz = touched_pages start sz) \<and>
    (if unat start mod 4096 + (unat sz - 1) mod 4096 < 4096 then mapped_pages start sz = touched_pages start sz
     else (unat start + (unat sz - 1)) div 4096 \<notin> mapped_pages start sz \<and>
       touched_pages start sz = insert ((unat start + (unat sz - 1)) div 4096) (mapped_pages start sz))"
proof -
  obtain k where k: "unat sz = Suc k" using assms(1) by (cases "unat sz") (auto simp: word_less_nat_alt)
  define a b c e where "a = unat start div 4096" "b = unat start mod 4096" "c = k div 4096" "e = k mod 4096"
  have d: "unat start = a * 4096 + b" "k = c * 4096 + e" "b < 4096" "e < 4096" by (simp_all add: a_b_c_e_def)
  then have q: "unat start div 4096 = a" "(Suc k + 4095) div 4096 = c + 1" by simp_all
  have last: "(unat start + k) div 4096 = (if b + e < 4096 then a + c else a + c + 1)"
    using d div_mult_self3 [of 4096 "a + c" "b + e"] by (auto simp: algebra_simps div_if)
  have "mapped_pages start sz = {a..a + c}" using mapped_interval [of sz start] assms(2) unfolding k q by (auto simp: atLeastLessThanSuc_atLeastAtMost)
  moreover have "touched_pages start sz = {a..if b + e < 4096 then a + c else a + c + 1}"
    using touched_interval [OF assms(1), of start] unfolding k q by (simp add: last)
  ultimately show ?thesis using d(3,4) by (auto simp: k last a_b_c_e_def(2,4) [symmetric])
qed

theorem region_pages_exact_witness:
  "mapped_pages 0x400000 0x1001 = touched_pages 0x400000 0x1001 \<and>
   touched_pages 0x400FF0 0x20 = insert 0x401 (mapped_pages 0x400FF0 0x20) \<and> 0x401 \<notin> mapped_pages 0x400FF0 0x20"
  using region_pages_exact [of "0x1001" "0x400000"] region_pages_exact [of "0x20" "0x400FF0"] by simp

text \<open>A file without the ELF magic number is refused, and nothing changes.\<close>

lemma elfLoad_bad_magic:
  assumes "strncmp (hmem (fst hp)) file magic 4 = Some r" "r \<noteq> 0"
  shows "elfLoad indet_type magic space file hp = Some (- 1, hp)"
  using assms by (simp add: elfLoad_def)

end
