(* ===== verification/Threads.thy ===== *)
theory Threads
  imports Address_Space Apic
begin

text \<open>
  Threads and the scheduler: \<^verbatim>\<open>threads/thread.c\<close>. Threads are structures of 0x90 bytes in kernel memory, the
  memory of the kernel heap; the offsets of the fields are those of the packed structures in \<^verbatim>\<open>thread.h\<close>.
  The ready threads of a CPU are an intrusive list (\<^verbatim>\<open>ready_elem\<close>). \<^verbatim>\<open>threadContextSwitch\<close> is assembly that
  enters user mode and does not return: an operation that ends there has the outcome \<open>Entered\<close>. The two
  searches through the ready list are partial functions, so that a result is also a proof that they end.
\<close>

section \<open>Structures\<close>

definition TID_ERROR :: u64 where "TID_ERROR = - 1"
definition THREAD_MAGIC :: u64 where "THREAD_MAGIC = 0xE621CAFEDEADBEEF"
definition USRSTACK_START :: u64 where "USRSTACK_START = 0x00007FF000FFF000"
definition KERSTACK_START :: u64 where "KERSTACK_START = 0xFFFFFFF000FFF000"
definition IRQSTACK_START :: u64 where "IRQSTACK_START = 0xFFFFFFF100FFF000"
definition ISRSTACK_START :: u64 where "ISRSTACK_START = 0xFFFFFFF200FFF000"
definition STACK_SIZE :: u64 where "STACK_SIZE = 2 * PAGE_SIZE"
definition KERN_GS_BASE :: u32 where "KERN_GS_BASE = 0xC0000102"
definition USER_GS_BASE :: u32 where "USER_GS_BASE = 0xC0000101"

datatype thread_state = THREAD_RUNNING | THREAD_READY | THREAD_BLOCKED | THREAD_DYING | THREAD_NEW

primrec state_code :: "thread_state \<Rightarrow> u64" where
  "state_code THREAD_RUNNING = 0"
| "state_code THREAD_READY = 1"
| "state_code THREAD_BLOCKED = 2"
| "state_code THREAD_DYING = 3"
| "state_code THREAD_NEW = 4"

definition th_id :: "u64 \<Rightarrow> u64" where "th_id t = t"
definition th_parent :: "u64 \<Rightarrow> u64" where "th_parent t = t + 0x08"
definition th_priority :: "u64 \<Rightarrow> u64" where "th_priority t = t + 0x10"
definition th_state :: "u64 \<Rightarrow> u64" where "th_state t = t + 0x18"
definition th_runtime :: "u64 \<Rightarrow> u64" where "th_runtime t = t + 0x20"
definition th_lock :: "u64 \<Rightarrow> u64" where "th_lock t = t + 0x28"
definition th_usr_stack :: "u64 \<Rightarrow> u64" where "th_usr_stack t = t + 0x38"
definition th_ready_elem :: "u64 \<Rightarrow> u64" where "th_ready_elem t = t + 0x40"
definition th_space :: "u64 \<Rightarrow> u64" where "th_space t = t + 0x50"
definition th_gs :: "u64 \<Rightarrow> u64" where "th_gs t = t + 0x58"
definition th_ker_stack :: "u64 \<Rightarrow> u64" where "th_ker_stack t = t + 0x60"
definition th_irq_stack :: "u64 \<Rightarrow> u64" where "th_irq_stack t = t + 0x68"
definition th_isr_stack :: "u64 \<Rightarrow> u64" where "th_isr_stack t = t + 0x70"
definition th_all_elem :: "u64 \<Rightarrow> u64" where "th_all_elem t = t + 0x78"
definition th_magic :: "u64 \<Rightarrow> u64" where "th_magic t = t + 0x88"
definition THREAD_BYTES :: u64 where "THREAD_BYTES = 0x90"

definition gs_syscall :: "u64 \<Rightarrow> u64" where "gs_syscall g = g"
definition gs_ker_rsp :: "u64 \<Rightarrow> u64" where "gs_ker_rsp g = g + 0x08"
definition gs_usr_rsp :: "u64 \<Rightarrow> u64" where "gs_usr_rsp g = g + 0x10"
definition gs_pc :: "u64 \<Rightarrow> u64" where "gs_pc g = g + 0x18"
definition gs_cpu :: "u64 \<Rightarrow> u64" where "gs_cpu g = g + 0x20"
definition gs_ctx :: "u64 \<Rightarrow> u64" where "gs_ctx g = g + 0x28"
definition gs_thread :: "u64 \<Rightarrow> u64" where "gs_thread g = g + 0x30"
definition gs_irq_rsp :: "u64 \<Rightarrow> u64" where "gs_irq_rsp g = g + 0x38"
definition gs_isr_rsp :: "u64 \<Rightarrow> u64" where "gs_isr_rsp g = g + 0x40"
definition GS_BYTES :: u64 where "GS_BYTES = 0x48"
definition ctx_rip :: "u64 \<Rightarrow> u64" where "ctx_rip c = c + 0x70"
definition ctx_cr3 :: "u64 \<Rightarrow> u64" where "ctx_cr3 c = c + 0x78"
definition CTX_BYTES :: u64 where "CTX_BYTES = 0x80"

definition cpu_id :: "u64 \<Rightarrow> u64" where "cpu_id c = c"
definition cpu_context_switches :: "u64 \<Rightarrow> u64" where "cpu_context_switches c = c + 72"
definition CPU_BYTES :: u64 where "CPU_BYTES = 80"

record 'd sched =
  kheap :: heap
  pages :: paging
  threadlist :: u64
  ready :: u64
  cpus :: u64
  next_thread_id :: u64
  sched_lock :: u8
  timer_ticks :: u64
  tick_microseconds :: u64
  current_thread :: u64
  gs_msrs :: msrs
  tasks :: tss_state
  dev :: 'd

abbreviation kmem :: "('d, 'z) sched_scheme \<Rightarrow> mem" where
  "kmem s \<equiv> hmem (kheap s)"

definition set_kmem :: "mem \<Rightarrow> 'd sched \<Rightarrow> 'd sched" where
  "set_kmem m s = s\<lparr>kheap := (kheap s)\<lparr>hmem := m\<rparr>\<rparr>"

definition put :: "u64 \<Rightarrow> u64 \<Rightarrow> 'd sched \<Rightarrow> 'd sched option" where
  "put p v s = do { m \<leftarrow> st64 (kmem s) p v; Some (set_kmem m s) }"

definition lock_sched :: "'d sched \<Rightarrow> 'd sched option" where
  "lock_sched s = do { l \<leftarrow> spinLock (sched_lock s); Some (s\<lparr>sched_lock := l\<rparr>) }"

definition unlock_sched :: "'d sched \<Rightarrow> 'd sched" where
  "unlock_sched s = s\<lparr>sched_lock := spinUnlock (sched_lock s)\<rparr>"

definition lock_thread :: "mem \<Rightarrow> u64 \<Rightarrow> mem option" where
  "lock_thread m t = do { l \<leftarrow> ld8 m (th_lock t); l \<leftarrow> spinLock l; st8 m (th_lock t) l }"

definition unlock_thread :: "mem \<Rightarrow> u64 \<Rightarrow> mem option" where
  "unlock_thread m t = do { l \<leftarrow> ld8 m (th_lock t); st8 m (th_lock t) (spinUnlock l) }"

definition thread_entry :: "u64 \<Rightarrow> u64" where
  "thread_entry e = e - 0x40"

section \<open>The searches\<close>

partial_function (option) min_runtime_loop :: "mem \<Rightarrow> u64 \<Rightarrow> u64 \<Rightarrow> u64 \<Rightarrow> (u64 \<times> mem) option" where
  "min_runtime_loop m l e best =
     (if e = list_end l then Some (best, m)
      else do {
        let thread = thread_entry e;
        m \<leftarrow> lock_thread m thread;
        r \<leftarrow> ld64 m (th_runtime thread);
        let best = (if r < best then r else best);
        m \<leftarrow> unlock_thread m thread;
        e \<leftarrow> list_next m e;
        min_runtime_loop m l e best })"

definition getMinRuntime :: "'d sched \<Rightarrow> (u64 \<times> 'd sched) option" where
  "getMinRuntime s = do {
     s \<leftarrow> lock_sched s;
     e \<leftarrow> list_begin (kmem s) (ready s);
     (best, m) \<leftarrow> min_runtime_loop (kmem s) (ready s) e (- 1);
     Some (best, unlock_sched (set_kmem m s)) }"

partial_function (option) min_thread_loop :: "mem \<Rightarrow> u64 \<Rightarrow> u64 \<Rightarrow> u64 \<Rightarrow> u64 \<Rightarrow> (u64 \<times> mem) option" where
  "min_thread_loop m l e best minthread =
     (if e = list_end l then Some (minthread, m)
      else do {
        let thread = thread_entry e;
        m \<leftarrow> lock_thread m thread;
        r \<leftarrow> ld64 m (th_runtime thread);
        let (best, minthread) = (if r < best then (r, thread) else (best, minthread));
        m \<leftarrow> unlock_thread m thread;
        e \<leftarrow> list_next m e;
        min_thread_loop m l e best minthread })"

definition getThreadWithMinRuntime :: "'d sched \<Rightarrow> (u64 \<times> 'd sched) option" where
  "getThreadWithMinRuntime s = do {
     s \<leftarrow> lock_sched s;
     e \<leftarrow> list_begin (kmem s) (ready s);
     (minthread, m) \<leftarrow> min_thread_loop (kmem s) (ready s) e (- 1) NULL;
     Some (minthread, unlock_sched (set_kmem m s)) }"

section \<open>The base registers of the per-thread data\<close>

definition setKernGS :: "u64 \<Rightarrow> msrs \<Rightarrow> msrs" where
  "setKernGS gs_base r = wrmsr KERN_GS_BASE (ucast (gs_base AND 0xFFFFFFFF)) (ucast (drop_bit 32 gs_base)) r"

definition setUserGS :: "u64 \<Rightarrow> msrs \<Rightarrow> msrs" where
  "setUserGS gs_base r = wrmsr USER_GS_BASE (ucast (gs_base AND 0xFFFFFFFF)) (ucast (drop_bit 32 gs_base)) r"

definition getKernGS :: "msrs \<Rightarrow> u64" where
  "getKernGS r = (case rdmsr KERN_GS_BASE r of (lo, hi) \<Rightarrow> ucast lo OR push_bit 32 (ucast hi))"

definition getUserGS :: "msrs \<Rightarrow> u64" where
  "getUserGS r = (case rdmsr USER_GS_BASE r of (lo, hi) \<Rightarrow> ucast lo OR push_bit 32 (ucast hi))"

definition getCurrentThread :: "'d sched \<Rightarrow> u64" where
  "getCurrentThread s = current_thread s"

section \<open>Scheduling\<close>

definition on_thread :: "u64 \<Rightarrow> thread_state \<Rightarrow> ('d sched \<Rightarrow> 'd sched option) \<Rightarrow> 'd sched \<Rightarrow> 'd sched option" where
  "on_thread thread st f s =
     (if thread = NULL then Some s
      else do {
        s \<leftarrow> lock_sched s;
        m \<leftarrow> lock_thread (kmem s) thread;
        s \<leftarrow> put (th_state thread) (state_code st) (set_kmem m s);
        s \<leftarrow> f s;
        m \<leftarrow> unlock_thread (kmem s) thread;
        Some (unlock_sched (set_kmem m s)) })"

definition threadSchedule :: "u64 \<Rightarrow> 'd sched \<Rightarrow> 'd sched option" where
  "threadSchedule thread = on_thread thread THREAD_READY (\<lambda>s. do {
     g \<leftarrow> ld64 (kmem s) (th_gs thread);
     c \<leftarrow> ld64 (kmem s) (gs_cpu g);
     i \<leftarrow> ld64 (kmem s) (cpu_id c);
     m \<leftarrow> list_push_back (kmem s) (ready s + 32 * i) (th_ready_elem thread);
     Some (set_kmem m s) })"

definition threadBlock :: "u64 \<Rightarrow> 'd sched \<Rightarrow> 'd sched option" where
  "threadBlock thread = on_thread thread THREAD_BLOCKED (\<lambda>s. do {
     (_, m) \<leftarrow> list_remove (kmem s) (th_ready_elem thread);
     Some (set_kmem m s) })"

definition threadKill :: "u64 \<Rightarrow> 'd sched \<Rightarrow> 'd sched option" where
  "threadKill thread = on_thread thread THREAD_DYING (\<lambda>s. do {
     (_, m) \<leftarrow> list_remove (kmem s) (th_ready_elem thread);
     Some (set_kmem m s) })"

definition set_ist :: "u64 \<Rightarrow> u64 \<Rightarrow> u64 \<Rightarrow> tss_state \<Rightarrow> tss_state option" where
  "set_ist cpu irq_stack isr_stack t = do {
     d \<leftarrow> get_at (tss_descriptors t) (unat cpu);
     is \<leftarrow> put_at (ist d) (unat (TSS_IST_ROUTINE - 1)) irq_stack;
     is \<leftarrow> put_at is (unat (TSS_IST_EXCEPTION - 1)) isr_stack;
     ds \<leftarrow> put_at (tss_descriptors t) (unat cpu) (d\<lparr>ist := is\<rparr>);
     Some (t\<lparr>tss_descriptors := ds\<rparr>) }"

definition load_stacks :: "u64 \<Rightarrow> 'd sched \<Rightarrow> 'd sched option" where
  "load_stacks thread s = do {
     g \<leftarrow> ld64 (kmem s) (th_gs thread);
     c \<leftarrow> ld64 (kmem s) (gs_cpu g);
     i \<leftarrow> ld64 (kmem s) (cpu_id c);
     irq \<leftarrow> ld64 (kmem s) (th_irq_stack thread);
     isr \<leftarrow> ld64 (kmem s) (th_isr_stack thread);
     t \<leftarrow> set_ist i irq isr (tasks s);
     Some (s\<lparr>tasks := t\<rparr>) }"

datatype 's outcome = Returned 's | Entered u64 's

definition threadSelect :: "u64 \<Rightarrow> 'd sched \<Rightarrow> 'd sched outcome option" where
  "threadSelect thread s =
     (if thread = NULL then Some (Returned s)
      else do {
        s \<leftarrow> lock_sched s;
        s \<leftarrow> put (th_state thread) (state_code THREAD_RUNNING) (s\<lparr>current_thread := thread\<rparr>);
        let s = unlock_sched s;
        g \<leftarrow> ld64 (kmem s) (th_gs thread);
        let s = s\<lparr>gs_msrs := setKernGS g (setUserGS 0 (gs_msrs s))\<rparr>;
        s \<leftarrow> load_stacks thread s;
        Some (Entered thread s) })"

definition threadNext :: "'d sched \<Rightarrow> (u64 \<times> 'd sched) outcome option" where
  "threadNext s = do {
     g \<leftarrow> ld64 (kmem s) (th_gs (current_thread s));
     c \<leftarrow> ld64 (kmem s) (gs_cpu g);
     n \<leftarrow> ld64 (kmem s) (cpu_context_switches c);
     s \<leftarrow> put (cpu_context_switches c) (n + 1) s;
     s \<leftarrow> put (th_state (current_thread s)) (state_code THREAD_READY) s;
     (next_thread, s) \<leftarrow> getThreadWithMinRuntime s;
     st \<leftarrow> ld64 (kmem s) (th_state next_thread);
     r \<leftarrow> (if st = state_code THREAD_NEW then threadSelect next_thread s else Some (Returned s));
     case r of
       Entered t s \<Rightarrow> Some (Entered t (0, s))
     | Returned s \<Rightarrow> do {
         s \<leftarrow> put (th_state next_thread) (state_code THREAD_RUNNING) s;
         g \<leftarrow> ld64 (kmem s) (th_gs next_thread);
         let s = s\<lparr>current_thread := next_thread, gs_msrs := setKernGS 0 (setUserGS g (gs_msrs s))\<rparr>;
         s \<leftarrow> load_stacks next_thread s;
         i \<leftarrow> ld64 (kmem s) (th_id next_thread);
         Some (Returned (i, s)) } }"

definition irqThreadTimerHandler :: "'d mmio \<Rightarrow> apic \<Rightarrow> 'd sched \<Rightarrow> 'd sched outcome option" where
  "irqThreadTimerHandler mm a s = do {
     let s = s\<lparr>dev := apicSendEOI mm a (dev s), timer_ticks := timer_ticks s + 1\<rparr>;
     s \<leftarrow> (if current_thread s \<noteq> NULL then do {
            r \<leftarrow> ld64 (kmem s) (th_runtime (current_thread s));
            put (th_runtime (current_thread s)) (r + tick_microseconds s) s }
          else Some s);
     if getUserGS (gs_msrs s) \<noteq> 0 \<and> getKernGS (gs_msrs s) = 0 then do {
       r \<leftarrow> threadNext s;
       Some (case r of Returned (_, s) \<Rightarrow> Returned s | Entered t (_, s) \<Rightarrow> Entered t s) }
     else Some (Returned s) }"

definition initThread :: "u64 list \<Rightarrow> u64 \<Rightarrow> u16 \<Rightarrow> 'd sched \<times> idt_state \<Rightarrow> ('d sched \<times> idt_state) option" where
  "initThread stubs handler ncpu si = do {
     let (s, i) = si;
     m \<leftarrow> list_init (kmem s) (threadlist s);
     m \<leftarrow> for_each (\<lambda>k m. list_init m (ready s + 32 * of_nat k)) [0..<unat ncpu] m;
     i \<leftarrow> irqRegisterHandler stubs IRQ0 handler i;
     Some (set_kmem m s, i) }"

definition threadStartTimer :: "'d mmio \<Rightarrow> apic \<Rightarrow> apic_timer \<Rightarrow> u64 \<Rightarrow> 'd sched \<Rightarrow> 'd sched option" where
  "threadStartTimer mm a t microseconds s = do {
     d \<leftarrow> apicTimerPeriodicStart mm a (microseconds * 1000) t (dev s);
     Some (s\<lparr>tick_microseconds := microseconds, dev := d\<rparr>) }"

definition threadStopTimer :: "'d mmio \<Rightarrow> apic \<Rightarrow> 'd sched \<Rightarrow> 'd sched" where
  "threadStopTimer mm a s = s\<lparr>dev := apicTimerPeriodicStop mm a (dev s)\<rparr>"

section \<open>Creating a thread\<close>

text \<open>
  The test of the runtime is an assignment (\<^verbatim>\<open>if (thread->runtime = -1UL)\<close>): its value is not zero, so the
  runtime is always set to 0.
\<close>

definition initial_runtime :: "u64 \<Rightarrow> 'd sched \<Rightarrow> 'd sched option" where
  "initial_runtime thread s = do {
     (r, s) \<leftarrow> getMinRuntime s;
     s \<leftarrow> put (th_runtime thread) r s;
     s \<leftarrow> put (th_runtime thread) (- 1) s;
     r \<leftarrow> ld64 (kmem s) (th_runtime thread);
     if r \<noteq> 0 then put (th_runtime thread) 0 s else Some s }"

definition on_heap :: "(heap \<Rightarrow> ('a \<times> heap) option) \<Rightarrow> 'd sched \<Rightarrow> ('a \<times> 'd sched) option" where
  "on_heap f s = do { (x, h) \<leftarrow> f (kheap s); Some (x, s\<lparr>kheap := h\<rparr>) }"

definition add_stack :: "u64 \<Rightarrow> u32 \<Rightarrow> u64 \<Rightarrow> 'd sched \<Rightarrow> 'd sched option" where
  "add_stack space flags stack s = do {
     (h, p) \<leftarrow> addressSpaceAddEntry space ADDRSPACE_TYPE_STACK flags STACK_SIZE (stack - STACK_SIZE) (kheap s, pages s);
     Some (s\<lparr>kheap := h, pages := p\<rparr>) }"

text \<open>The identification, the state and the stacks of the new thread, and its entry into the two lists.\<close>

definition fill_thread :: "u64 \<Rightarrow> u64 \<Rightarrow> u64 \<Rightarrow> u64 \<Rightarrow> 'd sched \<Rightarrow> 'd sched option" where
  "fill_thread thread space priority parent s = do {
     s \<leftarrow> put (th_space thread) space s;
     s \<leftarrow> put (th_priority thread) priority s;
     s \<leftarrow> initial_runtime thread s;
     s \<leftarrow> put (th_parent thread) parent s;
     let i = next_thread_id s;
     s \<leftarrow> put (th_id thread) i (s\<lparr>next_thread_id := i + 1\<rparr>);
     s \<leftarrow> put (th_magic thread) THREAD_MAGIC s;
     s \<leftarrow> put (th_state thread) (state_code THREAD_NEW) s;
     s \<leftarrow> put (th_usr_stack thread) (USRSTACK_START + 0x1000000 * i) s;
     s \<leftarrow> put (th_ker_stack thread) (KERSTACK_START + 0x1000000 * i) s;
     s \<leftarrow> put (th_irq_stack thread) (IRQSTACK_START + 0x1000000 * i) s;
     s \<leftarrow> put (th_isr_stack thread) (ISRSTACK_START + 0x1000000 * i) s;
     s \<leftarrow> lock_sched s;
     m \<leftarrow> list_push_back (kmem s) (threadlist s) (th_all_elem thread);
     m \<leftarrow> list_push_back m (ready s) (th_ready_elem thread);
     Some (unlock_sched (set_kmem m s)) }"

definition fill_gs :: "u64 \<Rightarrow> u64 \<Rightarrow> 'd sched \<Rightarrow> 'd sched option" where
  "fill_gs thread start s = do {
     (g, s) \<leftarrow> on_heap (kmalloc GS_BYTES) s;
     s \<leftarrow> put (th_gs thread) g s;
     s \<leftarrow> put (gs_cpu g) (cpus s) s;
     s \<leftarrow> put (gs_syscall g) 0 s;
     s \<leftarrow> put (gs_pc g) start s;
     s \<leftarrow> put (gs_thread g) thread s;
     u \<leftarrow> ld64 (kmem s) (th_usr_stack thread);
     s \<leftarrow> put (gs_usr_rsp g) u s;
     k \<leftarrow> ld64 (kmem s) (th_ker_stack thread);
     s \<leftarrow> put (gs_ker_rsp g) k s;
     q \<leftarrow> ld64 (kmem s) (th_irq_stack thread);
     s \<leftarrow> put (gs_irq_rsp g) q s;
     x \<leftarrow> ld64 (kmem s) (th_isr_stack thread);
     put (gs_isr_rsp g) x s }"

definition fill_ctx :: "u64 \<Rightarrow> u64 \<Rightarrow> u64 \<Rightarrow> 'd sched \<Rightarrow> 'd sched option" where
  "fill_ctx thread c start s = do {
     (x, s) \<leftarrow> on_heap (kmalloc CTX_BYTES) s;
     g \<leftarrow> ld64 (kmem s) (th_gs thread);
     s \<leftarrow> put (gs_ctx g) x s;
     s \<leftarrow> put (ctx_cr3 x) (c - page_direct_base) s;
     s \<leftarrow> put (ctx_rip x) start s;
     for_each (\<lambda>k. put (x + 8 * of_nat k) 0) [0..<14] s }"

definition threadCreate :: "u64 \<Rightarrow> u32 \<Rightarrow> u64 \<Rightarrow> u64 \<Rightarrow> u64 \<Rightarrow> u64 \<Rightarrow> 'd sched \<Rightarrow> (u64 \<times> 'd sched) option" where
  "threadCreate indet indet_type magic elf priority parent s = do {
     (thread, s) \<leftarrow> on_heap (kmalloc THREAD_BYTES) s;
     (c, p) \<leftarrow> pagingCreateUser (pages s);
     (space, s) \<leftarrow> on_heap (addressSpaceNew indet c) (s\<lparr>pages := p\<rparr>);
     let oldcr3 = pagingGetCR3 (pages s) - page_direct_base;
     (start, h, p) \<leftarrow> elfLoad indet_type magic space elf (kheap s, pagingSetCR3 (c - page_direct_base) (pages s));
     let s = s\<lparr>kheap := h, pages := pagingSetCR3 oldcr3 p\<rparr>;
     s \<leftarrow> fill_thread thread space priority parent s;
     s \<leftarrow> fill_gs thread start s;
     s \<leftarrow> fill_ctx thread c start s;
     u \<leftarrow> ld64 (kmem s) (th_usr_stack thread);
     s \<leftarrow> add_stack space (ADDRSPACE_FLAG_READABLE OR ADDRSPACE_FLAG_USER OR ADDRSPACE_FLAG_WRITEABLE) u s;
     g \<leftarrow> ld64 (kmem s) (th_gs thread);
     k \<leftarrow> ld64 (kmem s) (gs_ker_rsp g);
     s \<leftarrow> add_stack space (ADDRSPACE_FLAG_READABLE OR ADDRSPACE_FLAG_WRITEABLE) k s;
     q \<leftarrow> ld64 (kmem s) (gs_irq_rsp g);
     s \<leftarrow> add_stack space (ADDRSPACE_FLAG_READABLE OR ADDRSPACE_FLAG_WRITEABLE) q s;
     x \<leftarrow> ld64 (kmem s) (gs_isr_rsp g);
     s \<leftarrow> add_stack space (ADDRSPACE_FLAG_READABLE OR ADDRSPACE_FLAG_WRITEABLE) x s;
     Some (thread, s) }"

section \<open>System calls\<close>

definition initSyscall :: "u64 \<Rightarrow> msrs \<Rightarrow> msrs" where
  "initSyscall syscall_entry_addr r =
     (let r = wrmsr 0xC0000082 (ucast (syscall_entry_addr AND 0xFFFFFFFF)) (ucast (drop_bit 32 syscall_entry_addr AND 0xFFFFFFFF)) r;
          (lo, hi) = rdmsr 0xC0000080 r;
          r = wrmsr 0xC0000080 (lo OR 1) hi r;
          (lo, hi) = rdmsr 0xC0000081 r;
          r = wrmsr 0xC0000081 lo 0x00300028 r
      in setKernGS 0 (setUserGS 0 r))"

end
