(* ===== verification/Threads_Correct.thy ===== *)
theory Threads_Correct
  imports Threads
begin

text \<open>
  Correctness of the scheduler. The first part shows that the search returns the first ready thread with
  the least runtime and leaves no trace; the second that scheduling the last ready thread once more ties
  the list into a loop; the third follows timer interrupts that arrive in user mode, and shows that no
  ready thread waits for ever.
\<close>

section \<open>Locks of threads\<close>

lemma put_lane_back: "k \<le> 56 \<Longrightarrow> (ucast (drop_bit k c) :: u8) = b \<Longrightarrow> put_lane k (put_lane k c x) b = c"
  by (rule bit_word_eqI) (auto simp: bit_put_lane bit_simps)

lemma lock_unlock:
  assumes "ld8 m (th_lock t) = Some 0"
  obtains m1 where "lock_thread m t = Some m1" "\<And>p. p \<noteq> cell_of (th_lock t) \<Longrightarrow> m1 p = m p" "unlock_thread m1 t = Some m"
proof -
  obtain c where c: "m (cell_of (th_lock t)) = Some c" "(ucast (drop_bit (lane_of (th_lock t)) c) :: u8) = 0"
    using assms by (auto simp: ld8_def)
  let ?m1 = "m(cell_of (th_lock t) \<mapsto> put_lane (lane_of (th_lock t)) c 1)"
  have "lock_thread m t = Some ?m1"
    using c by (simp add: lock_thread_def assms spinLock_ok st8_def)
  moreover have "unlock_thread ?m1 t = Some m"
    using c put_lane_back [OF lane_bound(1) c(2), of 1]
    by (simp add: unlock_thread_def ld8_def st8_def spinUnlock_def fun_upd_idem)
  ultimately show thesis by (intro that [of ?m1]) simp_all
qed

lemma lock_thread_free: "lock_thread m t = Some m1 \<Longrightarrow> ld8 m (th_lock t) = Some 0"
  by (auto simp: lock_thread_def spinLock_ok bind_eq_Some_conv split: if_splits)

section \<open>The search for the least runtime\<close>

definition runtime :: "mem \<Rightarrow> u64 \<Rightarrow> u64" where
  "runtime m t = the (m (th_runtime t))"

definition thread_ok :: "mem \<Rightarrow> u64 \<Rightarrow> bool" where
  "thread_ok m t \<longleftrightarrow> ld8 m (th_lock t) = Some 0 \<and> m (th_runtime t) \<noteq> None \<and> th_runtime t \<noteq> cell_of (th_lock t)"

fun pick :: "(u64 \<Rightarrow> u64) \<Rightarrow> u64 \<Rightarrow> u64 \<Rightarrow> u64 list \<Rightarrow> u64" where
  "pick r best t [] = t"
| "pick r best t (u # us) = (if r u < best then pick r (r u) u us else pick r best t us)"

lemma thread_entry_elem [simp]: "thread_entry (th_ready_elem t) = t"
  by (simp add: thread_entry_def th_ready_elem_def)

lemma hd_map_append: "hd (map f (x # xs) @ ys) = f x"
  by simp

lemma locked_runtime:
  assumes "thread_ok m t"
  obtains m1 where "lock_thread m t = Some m1" "m1 (th_runtime t) = Some (runtime m t)" "unlock_thread m1 t = Some m"
proof -
  obtain m1 where "lock_thread m t = Some m1" "\<And>p. p \<noteq> cell_of (th_lock t) \<Longrightarrow> m1 p = m p" "unlock_thread m1 t = Some m"
    using lock_unlock [of m t] assms by (auto simp: thread_ok_def)
  then show thesis using assms by (intro that [of m1]) (auto simp: thread_ok_def runtime_def)
qed

lemma min_thread_loop_ok:
  assumes d: "dlist m l (xs @ map th_ready_elem ts)" and ok: "\<forall>t\<in>set ts. thread_ok m t"
  shows "min_thread_loop m l (hd (map th_ready_elem ts @ [l + 16])) best b = Some (pick (runtime m) best b ts, m)"
  using assms
proof (induction ts arbitrary: xs best b)
  case Nil
  then show ?case by (simp add: min_thread_loop.simps list_end_def list_tail_def)
next
  case (Cons t ts)
  let ?e = "th_ready_elem t"
  have ne: "?e \<noteq> l + 16" using dlist_notin [OF Cons.prems(1)] by auto
  obtain m1 where m1: "lock_thread m t = Some m1" "m1 (th_runtime t) = Some (runtime m t)" "unlock_thread m1 t = Some m"
    using Cons.prems(2) by (auto intro: locked_runtime)
  have n: "list_next m ?e = Some (hd (map th_ready_elem ts @ [l + 16]))"
    using dlist_next(1) [of m l xs ?e "map th_ready_elem ts"] Cons.prems(1) by simp
  have d: "dlist m l ((xs @ [?e]) @ map th_ready_elem ts)" using Cons.prems(1) by simp
  from Cons.IH [OF d] Cons.prems(2) ne m1(1,3) n m1(2) show ?case
    by (simp add: min_thread_loop.simps [of m l ?e] list_end_def list_tail_def ld64_def)
qed

lemma pick_range: "pick r best b ts \<in> insert b (set ts)"
  by (induction r best b ts rule: pick.induct) auto

lemma pick_spec:
  "pick r best b ts = b \<and> (\<forall>u\<in>set ts. best \<le> r u) \<or>
   (\<exists>us t vs. ts = us @ t # vs \<and> pick r best b ts = t \<and> r t < best \<and> (\<forall>u\<in>set us. r t < r u) \<and> (\<forall>v\<in>set vs. r t \<le> r v))"
proof (induction ts arbitrary: best b)
  case Nil
  then show ?case by simp
next
  case (Cons u ts)
  show ?case
  proof (cases "r u < best")
    case True
    from Cons [of "r u" u] show ?thesis
    proof
      assume "pick r (r u) u ts = u \<and> (\<forall>x\<in>set ts. r u \<le> r x)"
      with True show ?thesis by (intro disjI2 exI [of _ "[]"] exI [of _ u] exI [of _ ts]) simp
    next
      assume "\<exists>us t vs. ts = us @ t # vs \<and> pick r (r u) u ts = t \<and> r t < r u \<and> (\<forall>u\<in>set us. r t < r u) \<and> (\<forall>v\<in>set vs. r t \<le> r v)"
      then obtain us t vs where "ts = us @ t # vs" "pick r (r u) u ts = t" "r t < r u" "\<forall>u\<in>set us. r t < r u" "\<forall>v\<in>set vs. r t \<le> r v"
        by blast
      with True show ?thesis by (intro disjI2 exI [of _ "u # us"] exI [of _ t] exI [of _ vs]) auto
    qed
  next
    case False
    from Cons [of best b] show ?thesis
    proof
      assume "pick r best b ts = b \<and> (\<forall>x\<in>set ts. best \<le> r x)"
      with False show ?thesis by auto
    next
      assume "\<exists>us t vs. ts = us @ t # vs \<and> pick r best b ts = t \<and> r t < best \<and> (\<forall>u\<in>set us. r t < r u) \<and> (\<forall>v\<in>set vs. r t \<le> r v)"
      then obtain us t vs where "ts = us @ t # vs" "pick r best b ts = t" "r t < best" "\<forall>u\<in>set us. r t < r u" "\<forall>v\<in>set vs. r t \<le> r v"
        by blast
      with False show ?thesis by (intro disjI2 exI [of _ "u # us"] exI [of _ t] exI [of _ vs]) auto
    qed
  qed
qed

lemma lock_sched_ok: "sched_lock s = 0 \<Longrightarrow> lock_sched s = Some (s\<lparr>sched_lock := 1\<rparr>)"
  by (simp add: lock_sched_def spinLock_ok)

lemma set_kmem_same [simp]: "set_kmem (kmem s) s = s"
  by (cases s) (simp add: set_kmem_def)

lemma sched_unlock [simp]: "sched_lock s = 0 \<Longrightarrow> unlock_sched (set_kmem (kmem s) (s\<lparr>sched_lock := 1\<rparr>)) = s"
  by (cases s) (simp add: unlock_sched_def spinUnlock_def set_kmem_def)

lemma getThreadWithMinRuntime_ok:
  assumes "dlist (kmem s) (ready s) (map th_ready_elem ts)" "\<forall>t\<in>set ts. thread_ok (kmem s) t" "sched_lock s = 0"
  shows "getThreadWithMinRuntime s = Some (pick (runtime (kmem s)) (- 1) NULL ts, s)"
proof -
  from assms sched_unlock [of s] min_thread_loop_ok [of "kmem s" "ready s" "[]" ts] show ?thesis
    by (simp add: getThreadWithMinRuntime_def lock_sched_ok dlist_begin)
qed

lemma min_runtime_loop_ok:
  assumes "dlist m l (xs @ map th_ready_elem ts)" "\<forall>t\<in>set ts. thread_ok m t"
  shows "min_runtime_loop m l (hd (map th_ready_elem ts @ [l + 16])) best = Some (fold min (map (runtime m) ts) best, m)"
  using assms
proof (induction ts arbitrary: xs best)
  case Nil
  then show ?case by (simp add: min_runtime_loop.simps list_end_def list_tail_def)
next
  case (Cons t ts)
  let ?e = "th_ready_elem t"
  have ne: "?e \<noteq> l + 16" using dlist_notin [OF Cons.prems(1)] by auto
  obtain m1 where m1: "lock_thread m t = Some m1" "m1 (th_runtime t) = Some (runtime m t)" "unlock_thread m1 t = Some m"
    using Cons.prems(2) by (auto intro: locked_runtime)
  have n: "list_next m ?e = Some (hd (map th_ready_elem ts @ [l + 16]))"
    using dlist_next(1) [of m l xs ?e "map th_ready_elem ts"] Cons.prems(1) by simp
  have d: "dlist m l ((xs @ [?e]) @ map th_ready_elem ts)" using Cons.prems(1) by simp
  have mn: "(if r < b then r else b) = min r b" for r b :: u64 by (auto simp: min_def)
  from Cons.IH [OF d] Cons.prems(2) ne m1(1,3) n m1(2) show ?case
    by (simp add: min_runtime_loop.simps [of m l ?e] list_end_def list_tail_def ld64_def mn)
qed

lemma getMinRuntime_ok:
  assumes "dlist (kmem s) (ready s) (map th_ready_elem ts)" "\<forall>t\<in>set ts. thread_ok (kmem s) t" "sched_lock s = 0"
  shows "getMinRuntime s = Some (fold min (map (runtime (kmem s)) ts) (- 1), s)"
  using assms min_runtime_loop_ok [of "kmem s" "ready s" "[]" ts]
  by (simp add: getMinRuntime_def lock_sched_ok dlist_begin)

section \<open>A list tied into a loop\<close>

definition loops :: "mem \<Rightarrow> u64 \<Rightarrow> u64 set \<Rightarrow> bool" where
  "loops m l E \<longleftrightarrow> (\<forall>e\<in>E. e \<noteq> list_end l \<and> (\<exists>f\<in>E. list_next m e = Some f))"

lemma min_thread_loop_cycle:
  assumes "min_thread_loop m l e best b = Some r" "e \<in> E"
  shows "\<not> loops m l E"
proof -
  let ?P = "\<lambda>m l e best b r. e \<in> E \<longrightarrow> \<not> loops m l E"
  have "?P m l e best b r"
  proof (rule min_thread_loop.raw_induct [where P = ?P, OF _ assms(1)], intro impI, goal_cases)
    case (1 walk m l e best b r)
    show ?case
    proof
      assume L: "loops m l E"
      then obtain f where f: "e \<noteq> list_end l" "list_next m e = Some f" "f \<in> E"
        using 1(3) by (auto simp: loops_def)
      then obtain m1 where m1: "lock_thread m (thread_entry e) = Some m1"
        using 1(2) by (auto simp: bind_eq_Some_conv Let_def)
      obtain m2 where "lock_thread m (thread_entry e) = Some m2" "unlock_thread m2 (thread_entry e) = Some m"
        using lock_unlock [OF lock_thread_free [OF m1]] by metis
      then have "unlock_thread m1 (thread_entry e) = Some m" using m1 by simp
      then obtain best' b' where "walk m l f best' b' = Some r"
        using 1(2) f m1 by (auto simp: bind_eq_Some_conv Let_def split: if_splits)
      with 1(1) [of m l f best' b' r] f(3) L show False by blast
    qed
  qed
  with assms(2) show ?thesis by simp
qed

lemma getThreadWithMinRuntime_cycle:
  assumes "loops (kmem s) (ready s) E" "list_begin (kmem s) (ready s) = Some e" "e \<in> E"
  shows "getThreadWithMinRuntime s = None"
proof (cases "sched_lock s = 0")
  case True
  have "min_thread_loop (kmem s) (ready s) e (- 1) NULL = None"
    using min_thread_loop_cycle [of "kmem s" "ready s" e "- 1" NULL _ E] assms(1,3) by (cases "min_thread_loop (kmem s) (ready s) e (- 1) NULL") auto
  with True assms(2) show ?thesis by (simp add: getThreadWithMinRuntime_def lock_sched_ok)
qed (simp add: getThreadWithMinRuntime_def lock_sched_def spinLock_ok)

section \<open>Changing the ready list\<close>

text \<open>
  The operations on one thread hold both locks while they change the state and the list. \<open>links\<close> are the
  cells of the ready list; \<open>apart\<close> says that the state and the lock of a thread lie outside of them and outside the
  cells through which its CPU is found.
\<close>

definition links :: "u64 \<Rightarrow> u64 list \<Rightarrow> u64 set" where
  "links l ts = cells_of (set (nodes l (map th_ready_elem ts)))"

definition on_cpu0 :: "mem \<Rightarrow> u64 \<Rightarrow> bool" where
  "on_cpu0 m t \<longleftrightarrow> (\<exists>g c. m (th_gs t) = Some g \<and> m (gs_cpu g) = Some c \<and> m (cpu_id c) = Some 0)"

definition cpu_cells :: "mem \<Rightarrow> u64 \<Rightarrow> u64 set" where
  "cpu_cells m t = {th_gs t, gs_cpu (the (m (th_gs t))), cpu_id (the (m (gs_cpu (the (m (th_gs t))))))}"

definition apart :: "mem \<Rightarrow> u64 \<Rightarrow> u64 list \<Rightarrow> u64 \<Rightarrow> bool" where
  "apart m l ts t \<longleftrightarrow> th_state t \<noteq> cell_of (th_lock t) \<and>
     {th_state t, cell_of (th_lock t)} \<inter> (links l ts \<union> cells_of {th_ready_elem t} \<union> cpu_cells m t) = {}"

lemma on_thread_ok:
  assumes "t \<noteq> NULL" "sched_lock s = 0" "ld8 (kmem s) (th_lock t) = Some 0" "kmem s (th_state t) \<noteq> None"
    and "th_state t \<noteq> cell_of (th_lock t)"
    and f: "\<And>m. m (th_state t) = Some (state_code st) \<Longrightarrow> (\<And>p. p \<noteq> th_state t \<Longrightarrow> p \<noteq> cell_of (th_lock t) \<Longrightarrow> m p = kmem s p) \<Longrightarrow>
       \<exists>m'. f (set_kmem m (s\<lparr>sched_lock := 1\<rparr>)) = Some (set_kmem m' (s\<lparr>sched_lock := 1\<rparr>)) \<and> m' (cell_of (th_lock t)) = m (cell_of (th_lock t)) \<and> Q m m'"
  shows "\<exists>m m'. on_thread t st f s = Some (set_kmem (m'(cell_of (th_lock t) := kmem s (cell_of (th_lock t)))) s) \<and>
     m (th_state t) = Some (state_code st) \<and> (\<forall>p. p \<noteq> th_state t \<longrightarrow> p \<noteq> cell_of (th_lock t) \<longrightarrow> m p = kmem s p) \<and> Q m m'"
proof -
  obtain c where c: "kmem s (cell_of (th_lock t)) = Some c" "(ucast (drop_bit (lane_of (th_lock t)) c) :: u8) = 0"
    using assms(3) by (auto simp: ld8_def)
  let ?k = "cell_of (th_lock t)" and ?c = "put_lane (lane_of (th_lock t)) c 1"
  define m where "m = (kmem s)(?k \<mapsto> ?c, th_state t \<mapsto> state_code st)"
  have lk: "lock_thread (kmem s) t = Some ((kmem s)(?k \<mapsto> ?c))"
    using c assms(3) by (simp add: lock_thread_def spinLock_ok st8_def)
  have m: "m (th_state t) = Some (state_code st)" "\<And>p. p \<noteq> th_state t \<Longrightarrow> p \<noteq> ?k \<Longrightarrow> m p = kmem s p" "m ?k = Some ?c"
    using assms(5) by (auto simp: m_def)
  obtain m' where m': "f (set_kmem m (s\<lparr>sched_lock := 1\<rparr>)) = Some (set_kmem m' (s\<lparr>sched_lock := 1\<rparr>))" "m' ?k = m ?k" "Q m m'"
    using f [of m] m by blast
  have put: "put (th_state t) (state_code st) (set_kmem ((kmem s)(?k \<mapsto> ?c)) (s\<lparr>sched_lock := 1\<rparr>)) = Some (set_kmem m (s\<lparr>sched_lock := 1\<rparr>))"
    using assms(4,5) by (auto simp: put_def st64_def set_kmem_def m_def)
  have ul: "unlock_thread m' t = Some (m'(?k := kmem s ?k))"
    using m(3) m'(2) c put_lane_back [OF lane_bound(1) c(2), of 1] by (simp add: unlock_thread_def ld8_def st8_def spinUnlock_def)
  have "on_thread t st f s = Some (set_kmem (m'(?k := kmem s ?k)) s)"
    using assms(1,2) lk put m'(1) ul
    by (simp add: on_thread_def lock_sched_ok) (cases s, simp add: set_kmem_def unlock_sched_def spinUnlock_def)
  with m m'(3) show ?thesis by blast
qed

lemma set_kmem_simps [simp]:
  "kmem (set_kmem m s) = m" "set_kmem m (set_kmem m' s) = set_kmem m s" "ready (set_kmem m s) = ready s"
  "sched_lock (set_kmem m s) = sched_lock s" "set_kmem m (s\<lparr>sched_lock := x\<rparr>) = (set_kmem m s)\<lparr>sched_lock := x\<rparr>"
  by (simp_all add: set_kmem_def)

lemma dlist_links_frame:
  "(\<And>p. p \<in> links l ts \<Longrightarrow> m' p = m p) \<Longrightarrow> dlist m' l (map th_ready_elem ts) = dlist m l (map th_ready_elem ts)"
  unfolding links_def by (rule dlist_frame)

lemma dlist_links_upd:
  "k \<notin> links l ts \<Longrightarrow> dlist (m(k := v)) l (map th_ready_elem ts) = dlist m l (map th_ready_elem ts)"
  by (rule dlist_links_frame) auto

lemma links_append: "links l (us @ t # vs) = links l (us @ vs) \<union> cells_of {th_ready_elem t}"
  by (auto simp: links_def cells_of_def)

text \<open>The cells a ready-list operation may change.\<close>

definition touched :: "u64 \<Rightarrow> u64 list \<Rightarrow> u64 \<Rightarrow> u64 set" where
  "touched l ts t = links l ts \<union> cells_of {th_ready_elem t} \<union> {th_state t}"

lemma threadBlock_ok:
  assumes s: "t \<noteq> NULL" "sched_lock s = 0" "ld8 (kmem s) (th_lock t) = Some 0" "kmem s (th_state t) \<noteq> None"
    and d: "dlist (kmem s) (ready s) (map th_ready_elem (us @ t # vs))" and a: "apart (kmem s) (ready s) (us @ t # vs) t"
  shows "\<exists>m. threadBlock t s = Some (set_kmem m s) \<and> dlist m (ready s) (map th_ready_elem (us @ vs)) \<and>
    m (th_state t) = Some (state_code THREAD_BLOCKED) \<and> (\<forall>p. p \<notin> links (ready s) (us @ vs) \<longrightarrow> p \<noteq> th_state t \<longrightarrow> m p = kmem s p)"
proof -
  let ?l = "ready s" and ?k = "cell_of (th_lock t)" and ?e = "th_ready_elem t"
  have sep: "th_state t \<noteq> ?k" "th_state t \<notin> links ?l (us @ t # vs)" "?k \<notin> links ?l (us @ t # vs)"
    using a by (auto simp: apart_def)
  define Q where "Q = (\<lambda>m m'. dlist m' ?l (map th_ready_elem (us @ vs)) \<and> (\<forall>p. p \<notin> links ?l (us @ vs) \<longrightarrow> m' p = m p))"
  have "\<exists>m'. (do { (_, m) \<leftarrow> list_remove m ?e; Some (set_kmem m (s\<lparr>sched_lock := 1\<rparr>)) }) = Some (set_kmem m' (s\<lparr>sched_lock := 1\<rparr>)) \<and>
      m' ?k = m ?k \<and> Q m m'"
    if "\<And>p. p \<noteq> th_state t \<Longrightarrow> p \<noteq> ?k \<Longrightarrow> m p = kmem s p" for m
  proof -
    have "m p = kmem s p" if "p \<in> links ?l (us @ t # vs)" for p
      using \<open>\<And>p. p \<noteq> th_state t \<Longrightarrow> p \<noteq> ?k \<Longrightarrow> m p = kmem s p\<close> that sep by metis
    then have "dlist m ?l (map th_ready_elem us @ ?e # map th_ready_elem vs)"
      using d dlist_links_frame [of ?l "us @ t # vs" m "kmem s"] by simp
    from list_remove_ok [OF this] obtain x m' where "list_remove m ?e = Some (x, m')" "Q m m'"
      by (auto simp: Q_def links_def)
    then show ?thesis using sep(3) by (auto simp: Q_def links_append)
  qed
  then obtain m m' where r: "threadBlock t s = Some (set_kmem (m'(?k := kmem s ?k)) s)"
      "m (th_state t) = Some (state_code THREAD_BLOCKED)" "\<forall>p. p \<noteq> th_state t \<longrightarrow> p \<noteq> ?k \<longrightarrow> m p = kmem s p" "Q m m'"
    using on_thread_ok [OF s sep(1), of THREAD_BLOCKED "\<lambda>s. do { (_, m) \<leftarrow> list_remove (kmem s) ?e; Some (set_kmem m s) }" Q]
    by (auto simp: threadBlock_def)
  let ?m = "m'(?k := kmem s ?k)"
  have "dlist ?m ?l (map th_ready_elem (us @ vs))"
    using r(4) sep(3) dlist_links_upd [of ?k ?l "us @ vs" m'] by (simp add: Q_def links_append)
  moreover have "?m (th_state t) = Some (state_code THREAD_BLOCKED)"
    using r(2,4) sep by (auto simp: Q_def links_append)
  moreover have "\<forall>p. p \<notin> links ?l (us @ vs) \<longrightarrow> p \<noteq> th_state t \<longrightarrow> ?m p = kmem s p"
    using r(3,4) by (auto simp: Q_def)
  ultimately show ?thesis using r(1) by blast
qed

lemma on_cpu0_frame:
  assumes "on_cpu0 m t" "\<And>p. p \<in> cpu_cells m t \<Longrightarrow> m' p = m p"
  shows "\<exists>g c. m' (th_gs t) = Some g \<and> m' (gs_cpu g) = Some c \<and> m' (cpu_id c) = Some 0"
  using assms by (auto simp: on_cpu0_def cpu_cells_def)

lemma fresh_elem_frame:
  "fresh_elem m e ns \<Longrightarrow> (\<And>p. p \<in> cells_of {e} \<Longrightarrow> m' p = m p) \<Longrightarrow> fresh_elem m' e ns"
  by (auto simp: fresh_elem_def cells_of_def)

lemma threadSchedule_ok:
  assumes s: "t \<noteq> NULL" "sched_lock s = 0" "ld8 (kmem s) (th_lock t) = Some 0" "kmem s (th_state t) \<noteq> None"
    and d: "dlist (kmem s) (ready s) (map th_ready_elem ts)" and a: "apart (kmem s) (ready s) ts t"
    and fresh: "fresh_elem (kmem s) (th_ready_elem t) (nodes (ready s) (map th_ready_elem ts))" and cpu: "on_cpu0 (kmem s) t"
  shows "\<exists>m. threadSchedule t s = Some (set_kmem m s) \<and> dlist m (ready s) (map th_ready_elem (ts @ [t])) \<and>
    m (th_state t) = Some (state_code THREAD_READY) \<and> (\<forall>p. p \<notin> touched (ready s) ts t \<longrightarrow> m p = kmem s p)"
proof -
  let ?l = "ready s" and ?k = "cell_of (th_lock t)" and ?e = "th_ready_elem t"
  have sep: "th_state t \<noteq> ?k" "th_state t \<notin> links ?l ts \<union> cells_of {?e} \<union> cpu_cells (kmem s) t"
      "?k \<notin> links ?l ts \<union> cells_of {?e} \<union> cpu_cells (kmem s) t"
    using a by (auto simp: apart_def)
  let ?f = "\<lambda>s. do { g \<leftarrow> ld64 (kmem s) (th_gs t); c \<leftarrow> ld64 (kmem s) (gs_cpu g); i \<leftarrow> ld64 (kmem s) (cpu_id c);
     m \<leftarrow> list_push_back (kmem s) (ready s + 32 * i) ?e; Some (set_kmem m s) }"
  define Q where "Q = (\<lambda>m m'. dlist m' ?l (map th_ready_elem (ts @ [t])) \<and> (\<forall>p. p \<notin> links ?l (ts @ [t]) \<longrightarrow> m' p = m p))"
  have "\<exists>m'. ?f (set_kmem m (s\<lparr>sched_lock := 1\<rparr>)) = Some (set_kmem m' (s\<lparr>sched_lock := 1\<rparr>)) \<and> m' ?k = m ?k \<and> Q m m'"
    if same: "\<And>p. p \<noteq> th_state t \<Longrightarrow> p \<noteq> ?k \<Longrightarrow> m p = kmem s p" for m
  proof -
    have eq: "m p = kmem s p" if "p \<in> links ?l ts \<union> cells_of {?e} \<union> cpu_cells (kmem s) t" for p
      using same that sep by metis
    have "dlist m ?l (map th_ready_elem ts)" "fresh_elem m ?e (nodes ?l (map th_ready_elem ts))"
      using d fresh eq dlist_links_frame [of ?l ts m "kmem s"] fresh_elem_frame [OF fresh, of m] by auto
    from list_push_back_ok [OF this] obtain m' where "list_push_back m ?l ?e = Some m'" "Q m m'"
      by (auto simp: Q_def links_def)
    moreover obtain g c where "m (th_gs t) = Some g" "m (gs_cpu g) = Some c" "m (cpu_id c) = Some 0"
      using on_cpu0_frame [OF cpu, of m] eq by auto
    ultimately show ?thesis using sep(3) by (auto simp: Q_def links_append [of _ _ _ "[]", simplified] ld64_def)
  qed
  then obtain m m' where r: "threadSchedule t s = Some (set_kmem (m'(?k := kmem s ?k)) s)"
      "m (th_state t) = Some (state_code THREAD_READY)" "\<forall>p. p \<noteq> th_state t \<longrightarrow> p \<noteq> ?k \<longrightarrow> m p = kmem s p" "Q m m'"
    using on_thread_ok [OF s sep(1), of THREAD_READY ?f Q] by (auto simp: threadSchedule_def)
  let ?m = "m'(?k := kmem s ?k)"
  have la: "links ?l (ts @ [t]) = links ?l ts \<union> cells_of {?e}" using links_append [of ?l ts t "[]"] by simp
  have "dlist ?m ?l (map th_ready_elem (ts @ [t]))"
    using r(4) sep(3) dlist_links_upd [of ?k ?l "ts @ [t]" m'] by (simp add: Q_def la)
  moreover have "?m (th_state t) = Some (state_code THREAD_READY)"
    using r(2,4) sep by (auto simp: Q_def la)
  moreover have "\<forall>p. p \<notin> touched ?l ts t \<longrightarrow> ?m p = kmem s p"
    using r(3,4) by (auto simp: Q_def touched_def la)
  ultimately show ?thesis using r(1) by blast
qed

text \<open>Pushing the last element of a list once more makes it its own successor.\<close>

lemma list_push_back_again:
  assumes d: "dlist m l (xs @ [e])"
  shows "list_push_back m l e = Some (m(e \<mapsto> e, e + 8 \<mapsto> e, l + 16 \<mapsto> e))"
proof -
  have p: "m (l + 16) = Some e" using dlist_rbegin [OF d] by (simp add: list_rbegin_def link_defs)
  have "l + 16 \<noteq> e" "l + 16 \<noteq> e + 8" "e + 8 \<noteq> e" using d by (auto simp: dlist_def nodes_def sep_def)
  moreover have "m e \<noteq> None" "m (e + 8) \<noteq> None"
    using dlist_next [of m l xs e "[]"] d by (auto simp: list_next_def list_prev_def link_defs)
  ultimately show ?thesis
    using p by (auto simp: list_push_back_def list_insert_def link_defs fun_upd_twist)
qed

lemma again_loops:
  assumes d: "dlist m l (xs @ [e])" and m': "\<And>p. p \<in> cells_of (set (nodes l (xs @ [e]))) \<Longrightarrow> m' p = (m(e \<mapsto> e, e + 8 \<mapsto> e, l + 16 \<mapsto> e)) p"
  shows "loops m' l (set (xs @ [e]))" "\<exists>f\<in>set (xs @ [e]). list_begin m' l = Some f"
proof -
  have sp: "sep (nodes l (xs @ [e]))" and notin: "l + 16 \<notin> set (xs @ [e])" using d dlist_notin [OF d] by (auto simp: dlist_def)
  have ne: "a + 8 \<noteq> b" if "a \<in> set (nodes l (xs @ [e]))" "b \<in> set (nodes l (xs @ [e]))" for a b
    using sepD [OF sp that] .
  have nx: "m' (a + 8) = (if a = e then Some e else m (a + 8))" if "a \<in> set (nodes l (xs @ [e]))" for a
    using m' [of "a + 8"] that ne [OF that, of e] ne [OF that, of "l + 16"] by (auto simp: cells_of_def)
  have "\<exists>f\<in>set (xs @ [e]). list_next m' a = Some f" if a: "a \<in> set (xs @ [e])" for a
  proof (cases "a = e")
    case True
    then show ?thesis using nx [of e] by (simp add: list_next_def link_defs)
  next
    case False
    with a obtain us vs where us: "xs = us @ a # vs" by (auto simp: in_set_conv_decomp)
    then have "list_next m a = Some (hd ((vs @ [e]) @ [l + 16]))"
      using dlist_next(1) [of m l us a "vs @ [e]"] d by simp
    moreover have "hd ((vs @ [e]) @ [l + 16]) \<in> set (xs @ [e])" by (cases vs) (auto simp: us)
    ultimately show ?thesis using nx [of a] False us by (auto simp: list_next_def link_defs)
  qed
  then show "loops m' l (set (xs @ [e]))" using notin by (auto simp: loops_def list_end_def list_tail_def)
  have "list_begin m' l = Some (hd ((xs @ [e]) @ [l + 16]))"
  proof -
    have "l \<noteq> e" using dlist_notin [OF d] by auto
    then show ?thesis using nx [of l] dlist_begin [OF d] by (simp add: list_begin_def link_defs)
  qed
  moreover have "hd ((xs @ [e]) @ [l + 16]) \<in> set (xs @ [e])" by (cases xs) auto
  ultimately show "\<exists>f\<in>set (xs @ [e]). list_begin m' l = Some f" by blast
qed

lemma threadSchedule_again:
  assumes s: "t \<noteq> NULL" "sched_lock s = 0" "ld8 (kmem s) (th_lock t) = Some 0" "kmem s (th_state t) \<noteq> None"
    and d: "dlist (kmem s) (ready s) (map th_ready_elem (us @ [t]))" and a: "apart (kmem s) (ready s) (us @ [t]) t"
    and cpu: "on_cpu0 (kmem s) t"
  shows "\<exists>s'. threadSchedule t s = Some s' \<and> list_next (kmem s') (th_ready_elem t) = Some (th_ready_elem t) \<and> getThreadWithMinRuntime s' = None"
proof -
  let ?l = "ready s" and ?k = "cell_of (th_lock t)" and ?e = "th_ready_elem t"
  have sep: "th_state t \<noteq> ?k" "th_state t \<notin> links ?l (us @ [t]) \<union> cpu_cells (kmem s) t" "?k \<notin> links ?l (us @ [t]) \<union> cpu_cells (kmem s) t"
    using a by (auto simp: apart_def)
  let ?f = "\<lambda>s. do { g \<leftarrow> ld64 (kmem s) (th_gs t); c \<leftarrow> ld64 (kmem s) (gs_cpu g); i \<leftarrow> ld64 (kmem s) (cpu_id c);
     m \<leftarrow> list_push_back (kmem s) (ready s + 32 * i) ?e; Some (set_kmem m s) }"
  define Q where "Q = (\<lambda>m m'. m' = m(?e \<mapsto> ?e, ?e + 8 \<mapsto> ?e, ?l + 16 \<mapsto> ?e))"
  have lc: "?e \<in> links ?l (us @ [t])" "?e + 8 \<in> links ?l (us @ [t])" "?l + 16 \<in> links ?l (us @ [t])"
    by (auto simp: links_def cells_of_def)
  have eq: "m p = kmem s p" if "\<And>p. p \<noteq> th_state t \<Longrightarrow> p \<noteq> ?k \<Longrightarrow> m p = kmem s p" "p \<in> links ?l (us @ [t]) \<union> cpu_cells (kmem s) t" for m p
    using that sep by metis
  have dm: "dlist m ?l (map th_ready_elem us @ [?e])" if "\<And>p. p \<noteq> th_state t \<Longrightarrow> p \<noteq> ?k \<Longrightarrow> m p = kmem s p" for m
    using d dlist_links_frame [of ?l "us @ [t]" m "kmem s"] eq [of m, OF that] by simp
  have "\<exists>m'. ?f (set_kmem m (s\<lparr>sched_lock := 1\<rparr>)) = Some (set_kmem m' (s\<lparr>sched_lock := 1\<rparr>)) \<and> m' ?k = m ?k \<and> Q m m'"
    if same: "\<And>p. p \<noteq> th_state t \<Longrightarrow> p \<noteq> ?k \<Longrightarrow> m p = kmem s p" for m
  proof -
    obtain g c where "m (th_gs t) = Some g" "m (gs_cpu g) = Some c" "m (cpu_id c) = Some 0"
      using on_cpu0_frame [OF cpu, of m] eq [of m, OF same] by auto
    moreover have "?k \<noteq> ?e" "?k \<noteq> ?e + 8" "?k \<noteq> ?l + 16" using sep(3) lc by auto
    ultimately show ?thesis using list_push_back_again [OF dm [of m, OF same]] by (auto simp: Q_def ld64_def)
  qed
  then obtain m m' where r: "threadSchedule t s = Some (set_kmem (m'(?k := kmem s ?k)) s)"
      "\<forall>p. p \<noteq> th_state t \<longrightarrow> p \<noteq> ?k \<longrightarrow> m p = kmem s p" "Q m m'"
    using on_thread_ok [OF s sep(1), of THREAD_READY ?f Q] by (auto simp: threadSchedule_def)
  let ?m = "m'(?k := kmem s ?k)"
  have "?m p = (m(?e \<mapsto> ?e, ?e + 8 \<mapsto> ?e, ?l + 16 \<mapsto> ?e)) p" if "p \<in> links ?l (us @ [t])" for p
  proof -
    have "p \<noteq> ?k" using that sep(3) by blast
    then have "?m p = m' p" by (rule fun_upd_other)
    then show ?thesis using r(3) unfolding Q_def by (simp only:)
  qed
  note new = this
  have e8: "list_next ?m ?e = Some ?e"
  proof -
    have "?e + 8 \<noteq> ?l + 16" using dm [of m] r(2) by (auto simp: dlist_def nodes_def sep_def)
    then show ?thesis using new [OF lc(2)] by (simp add: list_next_def link_defs)
  qed
  note L = again_loops [OF dm [of m], of ?m]
  have "loops ?m ?l (set (map th_ready_elem us @ [?e]))" "\<exists>f\<in>set (map th_ready_elem us @ [?e]). list_begin ?m ?l = Some f"
    using L r(2) \<open>\<And>p. p \<in> links ?l (us @ [t]) \<Longrightarrow> ?m p = (m(?e \<mapsto> ?e, ?e + 8 \<mapsto> ?e, ?l + 16 \<mapsto> ?e)) p\<close> by (simp_all add: links_def)
  then have "getThreadWithMinRuntime (set_kmem ?m s) = None"
    using getThreadWithMinRuntime_cycle [of "set_kmem ?m s"] by auto
  with r(1) e8 show ?thesis by auto
qed

section \<open>Timer interrupts in user mode\<close>

text \<open>
  The base registers: \<open>swapgs\<close> is the instruction of the entry stub, which exchanges them when an
  interrupt arrives in user mode, and again on the way back. A thread that is entered for the first time
  leaves the kernel without the second exchange. The exit for a thread that was pre-empted inside a system call
  (\<^verbatim>\<open>gs:0x00\<close> is 1), which does not exchange them either, is not modelled.
\<close>

definition swapgs :: "msrs \<Rightarrow> msrs" where
  "swapgs r = r(USER_GS_BASE := r KERN_GS_BASE, KERN_GS_BASE := r USER_GS_BASE)"

definition user_tick :: "'d mmio \<Rightarrow> apic \<Rightarrow> 'd sched \<Rightarrow> 'd sched option" where
  "user_tick mm a s = do {
     r \<leftarrow> irqThreadTimerHandler mm a (s\<lparr>gs_msrs := swapgs (gs_msrs s)\<rparr>);
     Some (case r of Returned s \<Rightarrow> s\<lparr>gs_msrs := swapgs (gs_msrs s)\<rparr> | Entered t s \<Rightarrow> s) }"

primrec user_ticks :: "'d mmio \<Rightarrow> apic \<Rightarrow> nat \<Rightarrow> 'd sched \<Rightarrow> 'd sched option" where
  "user_ticks mm a 0 s = Some s"
| "user_ticks mm a (Suc n) s = do { s \<leftarrow> user_tick mm a s; user_ticks mm a n s }"

lemma split64: "ucast (ucast (g AND 0xFFFFFFFF) :: u32) OR push_bit 32 (ucast (ucast (drop_bit 32 g) :: u32)) = (g :: u64)"
proof -
  have m: "(0xFFFFFFFF :: u64) = mask 32" by (simp add: mask_eq_exp_minus_1)
  show ?thesis unfolding m by (rule bit_word_eqI) (auto simp: bit_simps)
qed

lemma join64: "ucast (ucast x :: u32) OR push_bit 32 (ucast (ucast (drop_bit 32 x) :: u32)) = (x :: u64)"
  by (rule bit_word_eqI) (auto simp: bit_simps)

lemma gs_simps [simp]:
  "getKernGS r = r KERN_GS_BASE" "getUserGS r = r USER_GS_BASE"
  "setKernGS g r = r(KERN_GS_BASE := g)" "setUserGS g r = r(USER_GS_BASE := g)"
  by (simp_all add: getKernGS_def getUserGS_def setKernGS_def setUserGS_def rdmsr_def wrmsr_def join64 split64)

lemma gs_distinct [simp]: "KERN_GS_BASE \<noteq> USER_GS_BASE" "USER_GS_BASE \<noteq> KERN_GS_BASE"
  by (simp_all add: KERN_GS_BASE_def USER_GS_BASE_def)

text \<open>
  The cells that timer interrupts change, the cells they only read, and the state of the system while a
  ready thread runs in user mode.
\<close>

definition changing :: "u64 \<Rightarrow> u64 list \<Rightarrow> u64 set" where
  "changing c ts = th_state ` set ts \<union> th_runtime ` set ts \<union> {cpu_context_switches c}"

definition thread_gs :: "mem \<Rightarrow> u64 \<Rightarrow> u64" where
  "thread_gs m t = the (m (th_gs t))"

definition fixed_of :: "mem \<Rightarrow> u64 \<Rightarrow> u64 set" where
  "fixed_of m t = {cell_of (th_lock t), th_gs t, gs_cpu (thread_gs m t), th_irq_stack t, th_isr_stack t, th_id t}"

definition fixed :: "mem \<Rightarrow> u64 \<Rightarrow> u64 \<Rightarrow> u64 list \<Rightarrow> u64 set" where
  "fixed m l c ts = links l ts \<union> {cpu_id c} \<union> (\<Union>t\<in>set ts. fixed_of m t)"

definition runnable :: "mem \<Rightarrow> u64 \<Rightarrow> u64 \<Rightarrow> bool" where
  "runnable m c t \<longleftrightarrow> t \<noteq> NULL \<and> ld8 m (th_lock t) = Some 0 \<and> m (th_gs t) = Some (thread_gs m t) \<and> thread_gs m t \<noteq> 0 \<and>
     m (gs_cpu (thread_gs m t)) = Some c \<and> m (th_irq_stack t) \<noteq> None \<and> m (th_isr_stack t) \<noteq> None \<and> m (th_id t) \<noteq> None"

definition cells_ok :: "mem \<Rightarrow> u64 \<Rightarrow> u64 \<Rightarrow> u64 list \<Rightarrow> bool" where
  "cells_ok m l c ts \<longleftrightarrow> dlist m l (map th_ready_elem ts) \<and> (\<forall>t\<in>set ts. runnable m c t) \<and> m (cpu_id c) = Some 0 \<and>
     fixed m l c ts \<inter> changing c ts = {} \<and> changing c ts \<subseteq> dom m \<and>
     (\<forall>t\<in>set ts. \<forall>u\<in>set ts. th_state t \<noteq> th_runtime u) \<and> cpu_context_switches c \<notin> th_runtime ` set ts"

definition user_mode :: "u64 \<Rightarrow> u64 list \<Rightarrow> 'd sched \<Rightarrow> bool" where
  "user_mode c ts s \<longleftrightarrow> cells_ok (kmem s) (ready s) c ts \<and> sched_lock s = 0 \<and> current_thread s \<in> set ts \<and>
     gs_msrs s USER_GS_BASE = 0 \<and> gs_msrs s KERN_GS_BASE = thread_gs (kmem s) (current_thread s) \<and>
     tss_descriptors (tasks s) \<noteq> [] \<and> length (ist (hd (tss_descriptors (tasks s)))) = 7"

lemma cells_ok_frame:
  assumes ok: "cells_ok m l c ts" and m': "\<And>p. p \<notin> changing c ts \<Longrightarrow> m' p = m p" and dom: "changing c ts \<subseteq> dom m'"
  shows "cells_ok m' l c ts" "\<And>t. t \<in> set ts \<Longrightarrow> thread_gs m' t = thread_gs m t"
proof -
  have f: "m' p = m p" if "p \<in> fixed m l c ts" for p
    using ok that m' by (auto simp: cells_ok_def)
  have ft: "m' p = m p" if "t \<in> set ts" "p \<in> fixed_of m t" for t p
    using that by (intro f) (auto simp: fixed_def)
  show g: "thread_gs m' t = thread_gs m t" if "t \<in> set ts" for t
    using ft [OF that, of "th_gs t"] by (simp add: thread_gs_def fixed_of_def)
  have "runnable m' c t" if t: "t \<in> set ts" for t
  proof -
    have r: "runnable m c t" using ok t by (simp add: cells_ok_def)
    have "ld8 m' (th_lock t) = ld8 m (th_lock t)" using ft [OF t, of "cell_of (th_lock t)"] by (simp add: ld8_def fixed_of_def)
    with r show ?thesis
      using ft [OF t, of "th_gs t"] ft [OF t, of "gs_cpu (thread_gs m t)"] ft [OF t, of "th_irq_stack t"]
        ft [OF t, of "th_isr_stack t"] ft [OF t, of "th_id t"] g [OF t] by (simp add: runnable_def fixed_of_def)
  qed
  moreover have "dlist m' l (map th_ready_elem ts)"
    using ok dlist_links_frame [of l ts m' m] f by (simp add: cells_ok_def fixed_def)
  moreover have "m' (cpu_id c) = Some 0" using ok f [of "cpu_id c"] by (simp add: cells_ok_def fixed_def)
  moreover have "fixed m' l c ts = fixed m l c ts" using g by (simp add: fixed_def fixed_of_def)
  ultimately show "cells_ok m' l c ts" using ok dom by (simp add: cells_ok_def)
qed

definition tasks_ok :: "tss_state \<Rightarrow> bool" where
  "tasks_ok k \<longleftrightarrow> tss_descriptors k \<noteq> [] \<and> length (ist (hd (tss_descriptors k))) = 7"

lemma put_ok: "kmem s p \<noteq> None \<Longrightarrow> put p v s = Some (set_kmem ((kmem s)(p \<mapsto> v)) s)"
  by (auto simp: put_def st64_def)

lemma load_stacks_ok:
  assumes "cells_ok (kmem s) l c ts" "t \<in> set ts" "tasks_ok (tasks s)"
  shows "\<exists>k. load_stacks t s = Some (s\<lparr>tasks := k\<rparr>) \<and> tasks_ok k"
proof -
  obtain i q where "kmem s (th_irq_stack t) = Some i" "kmem s (th_isr_stack t) = Some q"
    using assms(1,2) by (auto simp: cells_ok_def runnable_def)
  moreover have "kmem s (th_gs t) = Some (thread_gs (kmem s) t)" "kmem s (gs_cpu (thread_gs (kmem s) t)) = Some c" "kmem s (cpu_id c) = Some 0"
    using assms(1,2) by (auto simp: cells_ok_def runnable_def)
  moreover obtain d ds where "tss_descriptors (tasks s) = d # ds" "length (ist d) = 7"
    using assms(3) by (cases "tss_descriptors (tasks s)") (auto simp: tasks_ok_def)
  ultimately show ?thesis
    by (auto simp: load_stacks_def ld64_def set_ist_def get_at_def put_at_def TSS_IST_ROUTINE_def TSS_IST_EXCEPTION_def tasks_ok_def)
qed

lemma changing_mem:
  "t \<in> set ts \<Longrightarrow> th_state t \<in> changing c ts" "t \<in> set ts \<Longrightarrow> th_runtime t \<in> changing c ts" "cpu_context_switches c \<in> changing c ts"
  by (auto simp: changing_def)

lemma cells_ok_thread:
  assumes "cells_ok m l c ts" "t \<in> set ts"
  shows "thread_ok m t" "m (th_state t) \<noteq> None" "m (th_gs t) = Some (thread_gs m t)" "thread_gs m t \<noteq> 0" "t \<noteq> NULL"
    "m (gs_cpu (thread_gs m t)) = Some c" "m (th_id t) \<noteq> None"
proof -
  have "cell_of (th_lock t) \<in> fixed m l c ts" using assms(2) by (auto simp: fixed_def fixed_of_def)
  then have "th_runtime t \<noteq> cell_of (th_lock t)" using assms changing_mem(2) [OF assms(2), of c] by (auto simp: cells_ok_def)
  with assms changing_mem(1,2) [OF assms(2), of c] show "thread_ok m t"
    by (auto simp: thread_ok_def cells_ok_def runnable_def)
  show "m (th_state t) \<noteq> None" using assms changing_mem(1) [OF assms(2), of c] by (auto simp: cells_ok_def)
qed (use assms in \<open>auto simp: cells_ok_def runnable_def\<close>)

lemma cells_ok_upd:
  assumes "cells_ok m l c ts" "p \<in> changing c ts"
  shows "cells_ok (m(p \<mapsto> v)) l c ts" "t \<in> set ts \<Longrightarrow> thread_gs (m(p \<mapsto> v)) t = thread_gs m t"
proof -
  have 1: "(m(p \<mapsto> v)) q = m q" if "q \<notin> changing c ts" for q
    using that assms(2) by (intro fun_upd_other) blast
  have "changing c ts \<subseteq> dom m" using assms(1) unfolding cells_ok_def by blast
  then have 2: "changing c ts \<subseteq> dom (m(p \<mapsto> v))" by (simp add: subset_insertI2)
  show "cells_ok (m(p \<mapsto> v)) l c ts" by (rule cells_ok_frame(1) [OF assms(1) 1 2])
  show "t \<in> set ts \<Longrightarrow> thread_gs (m(p \<mapsto> v)) t = thread_gs m t" by (rule cells_ok_frame(2) [OF assms(1) 1 2])
qed

lemma cells_ok_state_runtime: "cells_ok m l c ts \<Longrightarrow> t \<in> set ts \<Longrightarrow> u \<in> set ts \<Longrightarrow> th_runtime u \<noteq> th_state t"
  unfolding cells_ok_def by metis

text \<open>Entering the chosen thread, whether it is new or has run before.\<close>

definition entered :: "u64 \<Rightarrow> u64 list \<Rightarrow> u64 \<Rightarrow> 'd sched \<Rightarrow> 'd sched \<Rightarrow> bool" where
  "entered c ts t s s' \<longleftrightarrow> user_mode c ts s' \<and> current_thread s' = t \<and> tick_microseconds s' = tick_microseconds s \<and>
     (\<forall>u\<in>set ts. runtime (kmem s') u = runtime (kmem s) u)"

lemma threadSelect_ok:
  assumes ok: "cells_ok (kmem s) (ready s) c ts" "t \<in> set ts" "tasks_ok (tasks s)" "sched_lock s = 0"
  shows "\<exists>s'. threadSelect t s = Some (Entered t s') \<and> entered c ts t s s'"
proof -
  note th = cells_ok_thread [OF ok(1,2)]
  let ?m = "(kmem s)(th_state t \<mapsto> state_code THREAD_RUNNING)"
  note up = cells_ok_upd [OF ok(1) changing_mem(1) [OF ok(2)], where v = "state_code THREAD_RUNNING"]
  let ?s = "set_kmem ?m s\<lparr>current_thread := t, gs_msrs := (gs_msrs s)(USER_GS_BASE := 0, KERN_GS_BASE := thread_gs (kmem s) t)\<rparr>"
  have gs: "?m (th_gs t) = Some (thread_gs (kmem s) t)"
    using cells_ok_thread(3) [OF up(1) ok(2)] up(2) [OF ok(2)] by simp
  obtain k where k: "load_stacks t ?s = Some (?s\<lparr>tasks := k\<rparr>)" "tasks_ok k"
    using load_stacks_ok [of ?s "ready s" c ts t] up(1) ok(2,3) by (auto simp: set_kmem_def)
  have "runtime ?m u = runtime (kmem s) u" if "u \<in> set ts" for u
    using cells_ok_state_runtime [OF ok(1,2) that] by (simp add: runtime_def)
  then have "entered c ts t s (?s\<lparr>tasks := k\<rparr>)"
    using up ok k(2) by (simp add: entered_def user_mode_def set_kmem_def tasks_ok_def)
  moreover have "threadSelect t s = Some (Entered t (?s\<lparr>tasks := k\<rparr>))"
    using th(2,5) gs k(1) ok(4)
    by (cases s) (simp add: threadSelect_def lock_sched_ok put_ok ld64_def unlock_sched_def spinUnlock_def set_kmem_def)
  ultimately show ?thesis by blast
qed

text \<open>What \<^verbatim>\<open>threadNext\<close> leaves to the exit path of the stub when the chosen thread has run before.\<close>

lemma resume_ok:
  assumes ok: "cells_ok (kmem s) (ready s) c ts" "t \<in> set ts" "tasks_ok (tasks s)" "sched_lock s = 0"
  shows "\<exists>s' i. (do {
         s \<leftarrow> put (th_state t) (state_code THREAD_RUNNING) s;
         g \<leftarrow> ld64 (kmem s) (th_gs t);
         let s = s\<lparr>current_thread := t, gs_msrs := setKernGS 0 (setUserGS g (gs_msrs s))\<rparr>;
         s \<leftarrow> load_stacks t s;
         i \<leftarrow> ld64 (kmem s) (th_id t);
         Some (Returned (i, s)) }) = Some (Returned (i, s')) \<and> entered c ts t s (s'\<lparr>gs_msrs := swapgs (gs_msrs s')\<rparr>)"
proof -
  note th = cells_ok_thread [OF ok(1,2)]
  let ?m = "(kmem s)(th_state t \<mapsto> state_code THREAD_RUNNING)"
  note up = cells_ok_upd [OF ok(1) changing_mem(1) [OF ok(2)], where v = "state_code THREAD_RUNNING"]
  let ?s = "set_kmem ?m s\<lparr>current_thread := t, gs_msrs := (gs_msrs s)(USER_GS_BASE := thread_gs (kmem s) t, KERN_GS_BASE := 0)\<rparr>"
  have gs: "?m (th_gs t) = Some (thread_gs (kmem s) t)"
    using cells_ok_thread(3) [OF up(1) ok(2)] up(2) [OF ok(2)] by simp
  obtain k where k: "load_stacks t ?s = Some (?s\<lparr>tasks := k\<rparr>)" "tasks_ok k"
    using load_stacks_ok [of ?s "ready s" c ts t] up(1) ok(2,3) by (auto simp: set_kmem_def)
  obtain i where i: "?m (th_id t) = Some i" using cells_ok_thread(7) [OF up(1) ok(2)] by auto
  have "runtime ?m u = runtime (kmem s) u" if "u \<in> set ts" for u
    using cells_ok_state_runtime [OF ok(1,2) that] by (simp add: runtime_def)
  then have "entered c ts t s (?s\<lparr>tasks := k, gs_msrs := swapgs (gs_msrs ?s)\<rparr>)"
    using up ok k(2) by (simp add: entered_def user_mode_def set_kmem_def tasks_ok_def swapgs_def)
  moreover have "put (th_state t) (state_code THREAD_RUNNING) s = Some (set_kmem ?m s)" using th(2) by (rule put_ok)
  ultimately show ?thesis
    using gs k(1) i by (intro exI [of _ "?s\<lparr>tasks := k\<rparr>"] exI [of _ i]) (simp add: ld64_def set_kmem_def)
qed

lemma threadNext_ok:
  assumes ok: "cells_ok (kmem s) (ready s) c ts" "current_thread s \<in> set ts" "tasks_ok (tasks s)" "sched_lock s = 0"
    and t: "t = pick (runtime (kmem s)) (- 1) NULL ts" "t \<in> set ts"
  shows "\<exists>r. threadNext s = Some r \<and> (case r of Entered u (_, s') \<Rightarrow> entered c ts t s s'
      | Returned (_, s') \<Rightarrow> entered c ts t s (s'\<lparr>gs_msrs := swapgs (gs_msrs s')\<rparr>))"
proof -
  note th = cells_ok_thread [OF ok(1,2)]
  obtain n where n: "kmem s (cpu_context_switches c) = Some n"
    using ok(1) changing_mem(3) [of c ts] by (auto simp: cells_ok_def)
  let ?m1 = "(kmem s)(cpu_context_switches c \<mapsto> n + 1)"
  let ?m2 = "?m1(th_state (current_thread s) \<mapsto> state_code THREAD_READY)"
  let ?s = "set_kmem ?m2 s"
  note up1 = cells_ok_upd [OF ok(1) changing_mem(3), where v = "n + 1"]
  note up2 = cells_ok_upd [OF up1(1) changing_mem(1) [OF ok(2)], where v = "state_code THREAD_READY"]
  have p: "put (cpu_context_switches c) (n + 1) s = Some (set_kmem ?m1 s)"
      "put (th_state (current_thread s)) (state_code THREAD_READY) (set_kmem ?m1 s) = Some ?s"
    using n cells_ok_thread(2) [OF up1(1) ok(2)] by (simp_all add: put_ok)
  have rt: "runtime ?m2 u = runtime (kmem s) u" if "u \<in> set ts" for u
  proof -
    have "th_runtime u \<noteq> cpu_context_switches c" using ok(1) that unfolding cells_ok_def by (metis imageI)
    then show ?thesis using cells_ok_state_runtime [OF ok(1,2) that] by (simp add: runtime_def)
  qed
  have "pick (runtime ?m2) b x ts = pick (runtime (kmem s)) b x ts" for b x
    using rt by (induction ts arbitrary: b x) auto
  then have best: "getThreadWithMinRuntime ?s = Some (t, ?s)"
    using getThreadWithMinRuntime_ok [of ?s ts] up2(1) cells_ok_thread(1) [OF up2(1)] ok(4) t(1) by (simp add: cells_ok_def)
  obtain st where st: "?m2 (th_state t) = Some st" using cells_ok_thread(2) [OF up2(1) t(2)] by auto
  have s2: "cells_ok (kmem ?s) (ready ?s) c ts" "tasks_ok (tasks ?s)" "sched_lock ?s = 0"
    using up2(1) ok(3,4) by (simp_all add: set_kmem_def)
  have "entered c ts t ?s s' = entered c ts t s s'" for s' :: "'a sched"
    using rt by (simp add: entered_def set_kmem_def)
  then show ?thesis
    using th(3,6) n p best st threadSelect_ok [OF s2(1) t(2) s2(2,3)] resume_ok [OF s2(1) t(2) s2(2,3)]
    by (cases "st = state_code THREAD_NEW") (auto simp: threadNext_def ld64_def set_kmem_def)
qed

lemma pick_cong: "(\<And>u. u \<in> set ts \<Longrightarrow> r u = r' u) \<Longrightarrow> pick r b x ts = pick r' b x ts"
  by (induction ts arbitrary: b x) auto

lemma runtime_inj: "th_runtime t = th_runtime u \<longleftrightarrow> t = u"
  by (simp add: th_runtime_def)

definition charged :: "'d sched \<Rightarrow> u64 \<Rightarrow> u64" where
  "charged s u = (if u = current_thread s then runtime (kmem s) u + tick_microseconds s else runtime (kmem s) u)"

lemma user_tick_ok:
  assumes um: "user_mode c ts s" and t: "t = pick (charged s) (- 1) NULL ts" "t \<in> set ts"
  shows "\<exists>s'. user_tick mm a s = Some s' \<and> user_mode c ts s' \<and> current_thread s' = t \<and>
    tick_microseconds s' = tick_microseconds s \<and> (\<forall>u\<in>set ts. runtime (kmem s') u = charged s u)"
proof -
  let ?t = "current_thread s"
  have ok: "cells_ok (kmem s) (ready s) c ts" "?t \<in> set ts" "tasks_ok (tasks s)" "sched_lock s = 0"
    using um by (simp_all add: user_mode_def tasks_ok_def)
  note th = cells_ok_thread [OF ok(1,2)]
  let ?r = "runtime (kmem s) ?t + tick_microseconds s"
  let ?m = "(kmem s)(th_runtime ?t \<mapsto> ?r)"
  note up = cells_ok_upd [OF ok(1) changing_mem(2) [OF ok(2)], where v = ?r]
  define s1 where "s1 = set_kmem ?m s\<lparr>gs_msrs := swapgs (gs_msrs s), dev := apicSendEOI mm a (dev s), timer_ticks := timer_ticks s + 1\<rparr>"
  have s1: "kmem s1 = ?m" "ready s1 = ready s" "current_thread s1 = ?t" "tasks s1 = tasks s" "sched_lock s1 = 0"
      "tick_microseconds s1 = tick_microseconds s" "gs_msrs s1 USER_GS_BASE \<noteq> 0" "gs_msrs s1 KERN_GS_BASE = 0"
    using ok(4) um th(4) by (simp_all add: s1_def set_kmem_def swapgs_def user_mode_def)
  have rt: "runtime ?m u = charged s u" for u
    using runtime_inj [of u ?t] by (auto simp: runtime_def charged_def)
  have "t = pick (runtime (kmem s1)) (- 1) NULL ts"
    using t(1) pick_cong [of ts "charged s" "runtime (kmem s1)"] rt s1(1) by simp
  then obtain r where r: "threadNext s1 = Some r" "case r of Entered u (_, s') \<Rightarrow> entered c ts t s1 s'
      | Returned (_, s') \<Rightarrow> entered c ts t s1 (s'\<lparr>gs_msrs := swapgs (gs_msrs s')\<rparr>)"
    using threadNext_ok [of s1 c ts t] up(1) ok t(2) s1 by auto
  have "kmem s (th_runtime ?t) = Some (runtime (kmem s) ?t)" using th(1) by (auto simp: thread_ok_def runtime_def)
  then have "irqThreadTimerHandler mm a (s\<lparr>gs_msrs := swapgs (gs_msrs s)\<rparr>) =
      Some (case r of Returned (_, s) \<Rightarrow> Returned s | Entered t (_, s) \<Rightarrow> Entered t s)"
    using th(5) r(1) s1(7,8) by (cases s) (simp add: irqThreadTimerHandler_def ld64_def put_ok s1_def set_kmem_def)
  then obtain s' where "user_tick mm a s = Some s'" "entered c ts t s1 s'"
    using r(2) by (auto simp: user_tick_def split: outcome.splits prod.splits)
  then show ?thesis using rt s1 by (auto simp: entered_def)
qed

section \<open>No starvation\<close>

definition rt :: "'d sched \<Rightarrow> u64 \<Rightarrow> nat" where
  "rt s u = unat (runtime (kmem s) u)"

text \<open>The number of interrupts at which the other threads can still be preferred to \<open>t\<close>.\<close>

definition ahead :: "u64 list \<Rightarrow> u64 \<Rightarrow> 'd sched \<Rightarrow> nat" where
  "ahead ts t s = (\<Sum>u\<in>set ts - {t}. (rt s t + unat (tick_microseconds s) - rt s u) div unat (tick_microseconds s))"

lemma charged_nat:
  assumes "rt s (current_thread s) + unat (tick_microseconds s) < 2 ^ 64"
  shows "unat (charged s u) = rt s u + (if u = current_thread s then unat (tick_microseconds s) else 0)"
  using assms by (simp add: charged_def rt_def unat_add_lem [THEN iffD1])

lemma user_tick_nat:
  assumes um: "user_mode c ts s" and fits: "\<forall>u\<in>set ts. rt s u + unat (tick_microseconds s) < 2 ^ 64 - 1"
  shows "\<exists>s'. user_tick mm a s = Some s' \<and> user_mode c ts s' \<and> tick_microseconds s' = tick_microseconds s \<and>
    (\<forall>u\<in>set ts. rt s' u = rt s u + (if u = current_thread s then unat (tick_microseconds s) else 0) \<and> rt s' (current_thread s') \<le> rt s' u)"
proof -
  have cur: "current_thread s \<in> set ts" using um by (simp add: user_mode_def)
  have c: "unat (charged s u) = rt s u + (if u = current_thread s then unat (tick_microseconds s) else 0)" for u
    using charged_nat [of s u] fits cur by force
  have small: "charged s u < - 1" if "u \<in> set ts" for u
  proof -
    have "unat (- 1 :: u64) = 2 ^ 64 - 1" by (simp add: unsigned_minus_1_eq_mask mask_eq_exp_minus_1)
    then show ?thesis using c [of u] fits that by (auto simp: word_less_nat_alt split: if_splits)
  qed
  let ?t = "pick (charged s) (- 1) NULL ts"
  obtain us vs where ts: "ts = us @ ?t # vs" "\<forall>u\<in>set us. charged s ?t < charged s u" "\<forall>v\<in>set vs. charged s ?t \<le> charged s v"
    using pick_spec [of "charged s" "- 1" NULL ts] small [OF cur] cur by (auto simp: not_less [symmetric])
  then have t: "?t \<in> set ts" by (metis in_set_conv_decomp)
  have least: "charged s ?t \<le> charged s u" if "u \<in> set ts" for u
  proof -
    have "u \<in> set us \<or> u = ?t \<or> u \<in> set vs" using that ts(1) by (metis Un_iff set_ConsD set_append)
    then show ?thesis using ts(2,3) by auto
  qed
  obtain s' where s': "user_tick mm a s = Some s'" "user_mode c ts s'" "current_thread s' = ?t" "tick_microseconds s' = tick_microseconds s"
      "\<forall>u\<in>set ts. runtime (kmem s') u = charged s u"
    using user_tick_ok [OF um refl t] by blast
  have "rt s' u = unat (charged s u)" if "u \<in> set ts" for u using s'(5) that by (simp add: rt_def)
  then show ?thesis using s' c least t by (auto simp: word_le_nat_alt)
qed

lemma ahead_le: "\<forall>u\<in>set ts. rt s u \<le> rt s' u \<Longrightarrow> rt s' t = rt s t \<Longrightarrow> tick_microseconds s' = tick_microseconds s \<Longrightarrow> ahead ts t s' \<le> ahead ts t s"
  unfolding ahead_def by (auto intro!: sum_mono div_le_mono)

lemma div_one_more: "0 < k \<Longrightarrow> (a + k) div k = Suc (a div k)" for a k :: nat
  using div_add_self2 [of k a] by simp

lemma ahead_step:
  assumes cur: "x \<in> set ts" "x \<noteq> t" "rt s x \<le> rt s t" and tick: "tick_microseconds s \<noteq> 0" "tick_microseconds s' = tick_microseconds s"
    and s': "\<forall>u\<in>set ts. rt s' u = rt s u + (if u = x then unat (tick_microseconds s) else 0)" "t \<in> set ts"
  shows "Suc (ahead ts t s') = ahead ts t s"
proof -
  let ?k = "unat (tick_microseconds s)"
  let ?f = "\<lambda>s u. (rt s t + ?k - rt s u) div ?k"
  let ?U = "set ts - {t}"
  have k: "0 < ?k" using tick(1) by (simp add: unat_gt_0)
  have "?f s x = (rt s t - rt s x + ?k) div ?k" using cur(3) by (simp add: ac_simps)
  also have "\<dots> = Suc ((rt s t - rt s x) div ?k)" by (rule div_one_more [OF k])
  finally have x: "?f s x = Suc (?f s' x)" using s' cur by simp
  have "(\<Sum>u\<in>?U. ?f s u) = ?f s x + (\<Sum>u\<in>?U - {x}. ?f s u)" using cur by (intro sum.remove) auto
  moreover have "(\<Sum>u\<in>?U. ?f s' u) = ?f s' x + (\<Sum>u\<in>?U - {x}. ?f s' u)" using cur by (intro sum.remove) auto
  moreover have "(\<Sum>u\<in>?U - {x}. ?f s u) = (\<Sum>u\<in>?U - {x}. ?f s' u)" using s' cur(2) by (intro sum.cong) auto
  ultimately show ?thesis using x by (simp add: ahead_def tick(2))
qed

lemma waits_at_most_ahead:
  assumes "user_mode c ts s" "t \<in> set ts" "tick_microseconds s \<noteq> 0" "rt s (current_thread s) \<le> rt s t"
    and "\<forall>u\<in>set ts. rt s u + ahead ts t s * unat (tick_microseconds s) < 2 ^ 64 - 1"
  shows "\<exists>n\<le>ahead ts t s. \<exists>s'. user_ticks mm a n s = Some s' \<and> user_mode c ts s' \<and> current_thread s' = t"
  using assms
proof (induction "ahead ts t s" arbitrary: s rule: less_induct)
  case less
  let ?k = "unat (tick_microseconds s)"
  show ?case
  proof (cases "current_thread s = t")
    case True
    then show ?thesis using less.prems(1) by (intro exI [of _ 0]) simp
  next
    case False
    have cur: "current_thread s \<in> set ts" using less.prems(1) by (simp add: user_mode_def)
    have step: "Suc (ahead ts t s') = ahead ts t s" if "tick_microseconds s' = tick_microseconds s"
        "\<forall>u\<in>set ts. rt s' u = rt s u + (if u = current_thread s then ?k else 0)" for s' :: "'a sched"
      using ahead_step [OF cur False less.prems(4,3) that less.prems(2)] .
    have "1 \<le> ahead ts t s"
    proof -
      have "(rt s t + ?k - rt s (current_thread s)) div ?k \<le> ahead ts t s"
        unfolding ahead_def using cur False by (intro member_le_sum) auto
      moreover have "?k \<le> rt s t + ?k - rt s (current_thread s)" using less.prems(4) by simp
      ultimately show ?thesis using less.prems(3) div_le_mono [of ?k "rt s t + ?k - rt s (current_thread s)" ?k]
        by (simp add: unat_gt_0)
    qed
    then have kk: "?k \<le> ahead ts t s * ?k" by simp
    then have "\<forall>u\<in>set ts. rt s u + ?k < 2 ^ 64 - 1" using less.prems(5) by (meson add_left_mono le_less_trans)
    from user_tick_nat [OF less.prems(1) this, of mm a] obtain s' where s': "user_tick mm a s = Some s'" "user_mode c ts s'"
        "tick_microseconds s' = tick_microseconds s" "\<forall>u\<in>set ts. rt s' u = rt s u + (if u = current_thread s then ?k else 0)"
        "\<forall>u\<in>set ts. rt s' (current_thread s') \<le> rt s' u" by blast
    have a': "Suc (ahead ts t s') = ahead ts t s" by (rule step [OF s'(3,4)])
    then have m: "ahead ts t s * ?k = ahead ts t s' * ?k + ?k" by (metis add.commute mult_Suc)
    have "\<forall>u\<in>set ts. rt s' u + ahead ts t s' * unat (tick_microseconds s') < 2 ^ 64 - 1"
    proof
      fix u assume u: "u \<in> set ts"
      have "rt s' u \<le> rt s u + ?k" using s'(4) u by simp
      moreover have "rt s u + (ahead ts t s' * ?k + ?k) < 2 ^ 64 - 1" using less.prems(5) u unfolding m by blast
      ultimately show "rt s' u + ahead ts t s' * unat (tick_microseconds s') < 2 ^ 64 - 1" unfolding s'(3) by linarith
    qed
    moreover have "rt s' (current_thread s') \<le> rt s' t" using s'(5) less.prems(2) by blast
    ultimately obtain n s2 where "n \<le> ahead ts t s'" "user_ticks mm a n s' = Some s2" "user_mode c ts s2" "current_thread s2 = t"
      using less.hyps [of s'] a' s'(2,3) less.prems(2,3) by auto
    then show ?thesis using a' s'(1) by (intro exI [of _ "Suc n"]) auto
  qed
qed

lemma waits_at_most_Suc_ahead:
  assumes um: "user_mode c ts s" and t: "t \<in> set ts" and tick: "tick_microseconds s \<noteq> 0"
    and fits: "\<forall>u\<in>set ts. rt s u + Suc (ahead ts t s) * unat (tick_microseconds s) < 2 ^ 64 - 1"
  shows "\<exists>n\<le>Suc (ahead ts t s). \<exists>s'. user_ticks mm a n s = Some s' \<and> user_mode c ts s' \<and> current_thread s' = t"
proof (cases "current_thread s = t")
  case True
  then show ?thesis using um by (intro exI [of _ 0]) simp
next
  case False
  let ?k = "unat (tick_microseconds s)"
  have m: "Suc (ahead ts t s) * ?k = ahead ts t s * ?k + ?k" by simp
  have "\<forall>u\<in>set ts. rt s u + ?k < 2 ^ 64 - 1" using fits unfolding m by fastforce
  from user_tick_nat [OF um this, of mm a] obtain s' where s': "user_tick mm a s = Some s'" "user_mode c ts s'"
      "tick_microseconds s' = tick_microseconds s" "\<forall>u\<in>set ts. rt s' u = rt s u + (if u = current_thread s then ?k else 0)"
      "\<forall>u\<in>set ts. rt s' (current_thread s') \<le> rt s' u" by blast
  have le: "ahead ts t s' \<le> ahead ts t s" using s'(3,4) t False by (intro ahead_le) auto
  have "\<forall>u\<in>set ts. rt s' u + ahead ts t s' * unat (tick_microseconds s') < 2 ^ 64 - 1"
  proof
    fix u assume u: "u \<in> set ts"
    have "rt s' u \<le> rt s u + ?k" using s'(4) u by simp
    moreover have "rt s u + (ahead ts t s * ?k + ?k) < 2 ^ 64 - 1" using fits u unfolding m by blast
    moreover have "ahead ts t s' * ?k \<le> ahead ts t s * ?k" using le by (rule mult_le_mono1)
    ultimately show "rt s' u + ahead ts t s' * unat (tick_microseconds s') < 2 ^ 64 - 1" unfolding s'(3) by linarith
  qed
  then obtain n s2 where "n \<le> ahead ts t s'" "user_ticks mm a n s' = Some s2" "user_mode c ts s2" "current_thread s2 = t"
    using waits_at_most_ahead [OF s'(2) t, of mm a] s'(3,5) tick t by auto
  then show ?thesis using le s'(1) by (intro exI [of _ "Suc n"]) auto
qed

section \<open>Blocking and scheduling again\<close>

lemma fresh_after_remove:
  assumes d: "dlist m l (map th_ready_elem (us @ t # vs))" and m': "m' (th_ready_elem t) = m (th_ready_elem t)" "m' (th_ready_elem t + 8) = m (th_ready_elem t + 8)"
  shows "fresh_elem m' (th_ready_elem t) (nodes l (map th_ready_elem (us @ vs)))"
    "th_ready_elem t \<notin> links l (us @ vs)" "th_ready_elem t + 8 \<notin> links l (us @ vs)"
proof -
  let ?e = "th_ready_elem t" and ?xs = "map th_ready_elem us" and ?ys = "map th_ready_elem vs"
  have s: "sep (nodes l (?xs @ ?e # ?ys))" "0 \<notin> set (nodes l (?xs @ ?e # ?ys))" using d by (simp_all add: dlist_def)
  have v: "m ?e \<noteq> None" "m (?e + 8) \<noteq> None"
    using dlist_next [of m l ?xs ?e ?ys] d by (auto simp: list_next_def list_prev_def link_defs)
  have sub: "a \<in> set (nodes l (?xs @ ?e # ?ys))" if "a \<in> set (nodes l (?xs @ ?ys))" for a using that by (auto simp: nodes_def)
  have "?e \<in> set (nodes l (?xs @ ?e # ?ys))" by (simp add: nodes_def)
  moreover have "?e \<notin> set (nodes l (?xs @ ?ys))" using s(1) by (auto simp: sep_def nodes_def)
  ultimately have f: "?e \<notin> set (nodes l (?xs @ ?ys))" "?e + 8 \<notin> set (nodes l (?xs @ ?ys))" "\<forall>a\<in>set (nodes l (?xs @ ?ys)). a + 8 \<noteq> ?e" "?e \<noteq> 0"
    using s sub by (auto simp: sep_def)
  with v m' show "fresh_elem m' ?e (nodes l (map th_ready_elem (us @ vs)))" by (simp add: fresh_elem_def)
  from f show "?e \<notin> links l (us @ vs)" "?e + 8 \<notin> links l (us @ vs)" by (auto simp: links_def cells_of_def)
qed

lemma block_then_schedule:
  assumes s: "t \<noteq> NULL" "sched_lock s = 0" "ld8 (kmem s) (th_lock t) = Some 0" "kmem s (th_state t) \<noteq> None"
    and d: "dlist (kmem s) (ready s) (map th_ready_elem (us @ t # vs))" and a: "apart (kmem s) (ready s) (us @ t # vs) t"
    and cpu: "on_cpu0 (kmem s) t" "cpu_cells (kmem s) t \<inter> links (ready s) (us @ t # vs) = {}"
  shows "\<exists>s1 s2. threadBlock t s = Some s1 \<and> dlist (kmem s1) (ready s1) (map th_ready_elem (us @ vs)) \<and>
    threadSchedule t s1 = Some s2 \<and> dlist (kmem s2) (ready s2) (map th_ready_elem (us @ vs @ [t])) \<and>
    kmem s2 (th_state t) = Some (state_code THREAD_READY) \<and> sched_lock s2 = 0 \<and>
    (\<forall>p. p \<notin> links (ready s) (us @ t # vs) \<longrightarrow> p \<noteq> th_state t \<longrightarrow> kmem s2 p = kmem s p)"
proof -
  let ?l = "ready s" and ?e = "th_ready_elem t"
  note la = links_append [of ?l us t vs]
  obtain m where m: "threadBlock t s = Some (set_kmem m s)" "dlist m ?l (map th_ready_elem (us @ vs))"
      "m (th_state t) = Some (state_code THREAD_BLOCKED)" "\<And>p. p \<notin> links ?l (us @ vs) \<Longrightarrow> p \<noteq> th_state t \<Longrightarrow> m p = kmem s p"
    using threadBlock_ok [OF s d a] by blast
  have sep: "th_state t \<notin> cells_of {?e}" "th_state t \<notin> cpu_cells (kmem s) t" "cell_of (th_lock t) \<notin> links ?l (us @ t # vs)"
      "th_state t \<noteq> cell_of (th_lock t)" "th_state t \<notin> links ?l (us @ t # vs)"
    using a by (auto simp: apart_def)
  have e: "m ?e = kmem s ?e" "m (?e + 8) = kmem s (?e + 8)"
    using m(4) fresh_after_remove(2,3) [OF d refl refl] sep(1) by (auto simp: cells_of_def)
  have c: "m p = kmem s p" if "p \<in> cpu_cells (kmem s) t" for p using m(4) [of p] cpu(2) sep(2) that la by auto
  have cc: "cpu_cells m t = cpu_cells (kmem s) t" using c cpu(1) by (auto simp: cpu_cells_def on_cpu0_def)
  let ?s1 = "set_kmem m s"
  have "ld8 (kmem ?s1) (th_lock t) = Some 0" using s(3) m(4) [of "cell_of (th_lock t)"] sep(3,4) la by (simp add: ld8_def)
  moreover have "apart (kmem ?s1) (ready ?s1) (us @ vs) t" using a la cc by (auto simp: apart_def)
  moreover have "on_cpu0 (kmem ?s1) t" using on_cpu0_frame [OF cpu(1), of m] c by (auto simp: on_cpu0_def)
  moreover have "fresh_elem (kmem ?s1) ?e (nodes (ready ?s1) (map th_ready_elem (us @ vs)))"
    using fresh_after_remove(1) [OF d e] by simp
  ultimately obtain m2 where m2: "threadSchedule t ?s1 = Some (set_kmem m2 ?s1)" "dlist m2 ?l (map th_ready_elem ((us @ vs) @ [t]))"
      "m2 (th_state t) = Some (state_code THREAD_READY)" "\<forall>p. p \<notin> touched ?l (us @ vs) t \<longrightarrow> m2 p = m p"
    using threadSchedule_ok [of t ?s1 "us @ vs"] s(1,2) m(2,3) by auto
  have "m2 p = kmem s p" if "p \<notin> links ?l (us @ t # vs)" "p \<noteq> th_state t" for p
    using m2(4) m(4) that la by (auto simp: touched_def)
  with m(1,2) m2(1-3) s(2) show ?thesis by (intro exI [of _ ?s1] exI [of _ "set_kmem m2 s"]) simp
qed

lemma initial_runtime_ok:
  assumes "dlist (kmem s) (ready s) (map th_ready_elem ts)" "\<forall>t\<in>set ts. thread_ok (kmem s) t" "sched_lock s = 0"
    and "kmem s (th_runtime thread) \<noteq> None"
  shows "initial_runtime thread s = Some (set_kmem ((kmem s)(th_runtime thread \<mapsto> 0)) s)"
  using assms getMinRuntime_ok [OF assms(1-3)] by (simp add: initial_runtime_def put_ok ld64_def)

section \<open>Properties\<close>

text \<open>
  Two ready threads on one CPU, the first of them running: the structures at 0x10000 and 0x20000, their
  per-thread data at 0x30000 and 0x40000, the CPU at 0x50000, the ready list at 0x60000.
\<close>

definition two_threads :: mem where
  "two_threads = map_of
    [(0x10000, 1), (0x10018, 0), (0x10020, 5), (0x10028, 0), (0x10040, 0x60000), (0x10048, 0x20040), (0x10058, 0x30000), (0x10068, 0x9000), (0x10070, 0xA000),
     (0x20000, 2), (0x20018, 4), (0x20020, 9), (0x20028, 0), (0x20040, 0x10040), (0x20048, 0x60010), (0x20058, 0x40000), (0x20068, 0xB000), (0x20070, 0xC000),
     (0x30020, 0x50000), (0x40020, 0x50000), (0x50000, 0), (0x50048, 0),
     (0x60000, 0), (0x60008, 0x10040), (0x60010, 0x20040), (0x60018, 0)]"

definition demo_sched :: "unit sched" where
  "demo_sched = \<lparr>
     kheap = \<lparr>hmem = two_threads, mem_start_brk = 0, mem_brk = 0, mem_max_addr = 0, free_lists = 0, heap_listp = 0, hlock = 0\<rparr>,
     pages = \<lparr>frames = \<lparr>pm = (\<lambda>_. None), mmap_entries = [], mem_size = 0, bitmap_size = 0, bitmap_base = 0, free_mem = 0, bitmaps = []\<rparr>,
       bulk_alloc_ptrs = [], curr = 0, cr3 = 0, bsp_cr3 = 0, plock = 0\<rparr>,
     threadlist = 0x70000, ready = 0x60000, cpus = 0x50000, next_thread_id = 3, sched_lock = 0, timer_ticks = 0, tick_microseconds = 10,
     current_thread = 0x10000, gs_msrs = (\<lambda>_. 0)(KERN_GS_BASE := 0x30000),
     tasks = \<lparr>tss_descriptors = [\<lparr>rsp = [0, 0, 0], ist = replicate 7 0, io_map = 0\<rparr>], tss_address = 0, ist_index = [0], tss_lock = 0, cpu_tss = [0]\<rparr>,
     dev = ()\<rparr>"

definition null_mm :: "unit mmio" where
  "null_mm = \<lparr>read32 = (\<lambda>_ d. (0, d)), write32 = (\<lambda>_ _ d. d), read64 = (\<lambda>_ d. (0, d)), write64 = (\<lambda>_ _ d. d)\<rparr>"

lemmas thread_offsets = th_id_def th_state_def th_runtime_def th_lock_def th_ready_elem_def th_gs_def th_irq_stack_def th_isr_stack_def
  gs_cpu_def cpu_id_def cpu_context_switches_def

lemma demo_mem:
  "kmem demo_sched = two_threads" "ready demo_sched = 0x60000" "sched_lock demo_sched = 0" "tick_microseconds demo_sched = 10"
  "current_thread demo_sched = 0x10000"
  by (simp_all add: demo_sched_def)

lemma demo_locks: "cell_of 0x10028 = 0x10028" "cell_of 0x20028 = 0x20028" "ld8 two_threads 0x10028 = Some 0" "ld8 two_threads 0x20028 = Some 0"
proof -
  show c: "cell_of 0x10028 = 0x10028" "cell_of 0x20028 = 0x20028" by code_simp+
  show "ld8 two_threads 0x10028 = Some 0" "ld8 two_threads 0x20028 = Some 0" by (simp_all add: ld8_def c) (simp_all add: two_threads_def)
qed

lemma demo_list: "dlist two_threads 0x60000 (map th_ready_elem [0x10000, 0x20000])"
  by (simp add: dlist_def nodes_def sep_def two_threads_def thread_offsets)

lemma demo_thread_ok: "\<forall>t\<in>set [0x10000, 0x20000]. thread_ok two_threads t"
  by (simp add: thread_ok_def thread_offsets demo_locks) (simp add: two_threads_def)

lemma demo_apart: "apart two_threads 0x60000 [0x10000, 0x20000] 0x10000" "apart two_threads 0x60000 [0x10000, 0x20000] 0x20000"
  "on_cpu0 two_threads 0x10000" "on_cpu0 two_threads 0x20000" "cpu_cells two_threads 0x10000 \<inter> links 0x60000 [0x10000, 0x20000] = {}"
  by (simp_all add: apart_def links_def cells_of_def nodes_def cpu_cells_def on_cpu0_def thread_offsets demo_locks) (simp_all add: two_threads_def)

lemma demo_user_mode: "user_mode 0x50000 [0x10000, 0x20000] demo_sched"
proof -
  have "thread_gs two_threads 0x10000 = 0x30000" "thread_gs two_threads 0x20000 = 0x40000"
    by (simp_all add: thread_gs_def two_threads_def thread_offsets)
  moreover have "two_threads (cpu_id 0x50000) = Some 0" by (simp add: two_threads_def thread_offsets)
  ultimately have "cells_ok two_threads 0x60000 0x50000 [0x10000, 0x20000]"
    using demo_list
    by (simp add: cells_ok_def runnable_def fixed_def fixed_of_def changing_def links_def cells_of_def nodes_def thread_offsets demo_locks)
      (simp add: two_threads_def dom_def)
  then show ?thesis by (simp add: user_mode_def demo_sched_def thread_gs_def) (simp add: two_threads_def thread_offsets)
qed

text \<open>
  C14: for every well-formed ready list of unlocked threads the search ends, releases
  every lock it took and changes nothing; it returns the first thread of the list with the least runtime,
  or NULL when no thread has a runtime below the largest value.
\<close>
theorem getThreadWithMinRuntime_correct:
  assumes "dlist (kmem s) (ready s) (map th_ready_elem ts)" and "\<forall>t\<in>set ts. thread_ok (kmem s) t" and "sched_lock s = 0"
  shows "\<exists>t. getThreadWithMinRuntime s = Some (t, s) \<and>
    (t = NULL \<and> (\<forall>u\<in>set ts. runtime (kmem s) u = - 1) \<or>
     (\<exists>us vs. ts = us @ t # vs \<and> (\<forall>u\<in>set us. runtime (kmem s) t < runtime (kmem s) u) \<and> (\<forall>v\<in>set vs. runtime (kmem s) t \<le> runtime (kmem s) v)))"
  using getThreadWithMinRuntime_ok [OF assms] pick_spec [of "runtime (kmem s)" "- 1" NULL ts]
  by (auto simp: word_order.extremum_unique)

theorem getThreadWithMinRuntime_correct_witness: "getThreadWithMinRuntime demo_sched = Some (0x10000, demo_sched)"
proof -
  have r: "runtime two_threads 0x10000 = 5" "runtime two_threads 0x20000 = 9" by (simp_all add: runtime_def two_threads_def thread_offsets)
  show ?thesis
    using getThreadWithMinRuntime_correct [of demo_sched "[0x10000, 0x20000]"] demo_list demo_thread_ok
    by (auto simp: demo_mem Cons_eq_append_conv r)
qed

text \<open>
  C6: no ready thread waits for ever. From any state in which a ready thread runs in user mode, timer
  interrupts in user mode are all handled without a fault, keep the system in such a state, and bring the
  thread \<open>t\<close> onto the CPU after at most \<open>1 + ahead\<close> interrupts, where \<open>ahead\<close> counts, for every other thread, the
  periods by which its runtime lags behind. The timer has a period that is not zero, and no runtime reaches the
  largest value within that time.
\<close>
theorem no_starvation:
  assumes "user_mode c ts s" and "t \<in> set ts" and "tick_microseconds s \<noteq> 0"
    and "\<forall>u\<in>set ts. rt s u + Suc (ahead ts t s) * unat (tick_microseconds s) < 2 ^ 64 - 1"
  shows "\<exists>n\<le>Suc (ahead ts t s). \<exists>s'. user_ticks mm a n s = Some s' \<and> user_mode c ts s' \<and> current_thread s' = t"
  using waits_at_most_Suc_ahead [OF assms] .

theorem no_starvation_witness:
  "\<exists>n\<le>2. \<exists>s'. user_ticks null_mm demo_apic n demo_sched = Some s' \<and> current_thread s' = 0x20000"
proof -
  let ?ts = "[0x10000, 0x20000] :: u64 list"
  have r: "rt demo_sched 0x10000 = 5" "rt demo_sched 0x20000 = 9" by (simp_all add: rt_def demo_mem runtime_def two_threads_def thread_offsets)
  have "set ?ts - {0x20000} = {0x10000}" by auto
  then have a: "ahead ?ts 0x20000 demo_sched = 1" unfolding ahead_def using r by (simp add: demo_mem)
  have "\<forall>u\<in>set ?ts. rt demo_sched u + Suc (ahead ?ts 0x20000 demo_sched) * unat (tick_microseconds demo_sched) < 2 ^ 64 - 1"
    unfolding a by (simp add: r demo_mem)
  moreover have "0x20000 \<in> set ?ts" "tick_microseconds demo_sched \<noteq> 0" by (simp_all add: demo_mem)
  ultimately obtain n s' where "n \<le> Suc 1" "user_ticks null_mm demo_apic n demo_sched = Some s'" "current_thread s' = 0x20000"
    using no_starvation [OF demo_user_mode, of "0x20000" null_mm demo_apic] unfolding a by blast
  then show ?thesis by (intro exI [of _ n]) auto
qed

text \<open>
  C15: blocking a thread removes it from the ready list, wherever it is, and scheduling it again
  appends it at the end; the order of the other threads is kept, both locks are free again, and no memory
  changes outside the list and the state of the thread.
\<close>
theorem block_schedule:
  assumes "t \<noteq> NULL" "sched_lock s = 0" "ld8 (kmem s) (th_lock t) = Some 0" "kmem s (th_state t) \<noteq> None"
    and "dlist (kmem s) (ready s) (map th_ready_elem (us @ t # vs))" and "apart (kmem s) (ready s) (us @ t # vs) t"
    and "on_cpu0 (kmem s) t" and "cpu_cells (kmem s) t \<inter> links (ready s) (us @ t # vs) = {}"
  shows "\<exists>s1 s2. threadBlock t s = Some s1 \<and> dlist (kmem s1) (ready s1) (map th_ready_elem (us @ vs)) \<and>
    threadSchedule t s1 = Some s2 \<and> dlist (kmem s2) (ready s2) (map th_ready_elem (us @ vs @ [t])) \<and>
    kmem s2 (th_state t) = Some (state_code THREAD_READY) \<and> sched_lock s2 = 0 \<and>
    (\<forall>p. p \<notin> links (ready s) (us @ t # vs) \<longrightarrow> p \<noteq> th_state t \<longrightarrow> kmem s2 p = kmem s p)"
  using block_then_schedule [OF assms] .

theorem block_schedule_witness:
  "\<exists>s1 s2. threadBlock 0x10000 demo_sched = Some s1 \<and> threadSchedule 0x10000 s1 = Some s2 \<and>
     dlist (kmem s2) (ready s2) (map th_ready_elem [0x20000, 0x10000])"
proof -
  have "two_threads (th_state 0x10000) \<noteq> None" by (simp add: two_threads_def thread_offsets)
  then show ?thesis
    using block_schedule [of "0x10000" demo_sched "[]" "[0x20000]"] demo_list demo_apart demo_locks by (auto simp: demo_mem th_lock_def)
qed

text \<open>
  C32: \<^verbatim>\<open>threadSchedule\<close> does not test the state of the thread. Scheduling the last thread of the
  ready list once more makes it its own successor, and from then on the search for the next thread does not return.
  For a thread further to the front the loop does not arise, and the property does not speak of it.
\<close>
theorem schedule_twice_hangs:
  assumes "t \<noteq> NULL" "sched_lock s = 0" "ld8 (kmem s) (th_lock t) = Some 0" "kmem s (th_state t) \<noteq> None"
    and "dlist (kmem s) (ready s) (map th_ready_elem (us @ [t]))" and "apart (kmem s) (ready s) (us @ [t]) t" and "on_cpu0 (kmem s) t"
  shows "\<exists>s'. threadSchedule t s = Some s' \<and> list_next (kmem s') (th_ready_elem t) = Some (th_ready_elem t) \<and> getThreadWithMinRuntime s' = None"
  using threadSchedule_again [OF assms] .

theorem schedule_twice_hangs_witness: "\<exists>s. threadSchedule 0x20000 demo_sched = Some s \<and> getThreadWithMinRuntime s = None"
proof -
  have "two_threads (th_state 0x20000) \<noteq> None" by (simp add: two_threads_def thread_offsets)
  then show ?thesis
    using schedule_twice_hangs [of "0x20000" demo_sched "[0x10000]"] demo_list demo_apart demo_locks by (auto simp: demo_mem th_lock_def)
qed

text \<open>
  C33: a new thread is meant to start with the least runtime of the ready threads, and with 0 only
  when there is none. The test for that is an assignment, so the runtime is 0 whatever \<^verbatim>\<open>getMinRuntime\<close> returned,
  which is the least runtime as intended.
\<close>
theorem new_thread_runtime:
  assumes "dlist (kmem s) (ready s) (map th_ready_elem ts)" and "\<forall>t\<in>set ts. thread_ok (kmem s) t" and "sched_lock s = 0"
    and "kmem s (th_runtime thread) \<noteq> None"
  shows "getMinRuntime s = Some (fold min (map (runtime (kmem s)) ts) (- 1), s) \<and>
    initial_runtime thread s = Some (set_kmem ((kmem s)(th_runtime thread \<mapsto> 0)) s)"
  using getMinRuntime_ok [OF assms(1-3)] initial_runtime_ok [OF assms] by simp

theorem new_thread_runtime_witness:
  "getMinRuntime demo_sched = Some (5, demo_sched) \<and> (\<exists>s. initial_runtime 0x20000 demo_sched = Some s \<and> runtime (kmem s) 0x20000 = 0)"
proof -
  have r: "runtime two_threads 0x10000 = 5" "runtime two_threads 0x20000 = 9" "two_threads (th_runtime 0x20000) \<noteq> None"
    by (simp_all add: runtime_def two_threads_def thread_offsets)
  have m: "fold min [5, 9] (- 1 :: u64) = 5" by code_simp
  show ?thesis
    using new_thread_runtime [of demo_sched "[0x10000, 0x20000]" "0x20000"] demo_list demo_thread_ok r m by (auto simp: demo_mem runtime_def)
qed

end
