(* ===== verification/Smp.thy ===== *)
theory Smp
  imports Threads Console Input
begin

text \<open>
  The processors and the handlers of system calls: \<^verbatim>\<open>boot/cpu/smp.c\<close> and \<^verbatim>\<open>user/syscall_defs.c\<close>. The boot loader
  leaves a structure with a table of pointers to the description of each processor; \<^verbatim>\<open>initSMP\<close> copies the two
  identifiers of each of them into the array \<^verbatim>\<open>cpus\<close> of \<^verbatim>\<open>NCPU_MAX\<close> structures that the scheduler uses. Both are in
  kernel memory. The theory shows what the array holds afterwards, also when the loader reports more
  processors than the array has entries.
\<close>

section \<open>Operations\<close>

record smp =
  smem :: mem
  num_cpus :: u32
  ncpu :: u16

definition smp_cpu_count :: "u64 \<Rightarrow> u64" where "smp_cpu_count response = response + 16"
definition smp_cpus :: "u64 \<Rightarrow> u64" where "smp_cpus response = response + 24"
definition info_lapic_id :: "u64 \<Rightarrow> u64" where "info_lapic_id info = info + 4"
definition info_goto_address :: "u64 \<Rightarrow> u64" where "info_goto_address info = info + 16"
definition cpu_lapic_id :: "u64 \<Rightarrow> u64" where "cpu_lapic_id c = c + 8"
definition cpu_started :: "u64 \<Rightarrow> u64" where "cpu_started c = c + 32"
definition cpu_at :: "u64 \<Rightarrow> nat \<Rightarrow> u64" where "cpu_at arr i = arr + CPU_BYTES * of_nat i"

definition smp_info :: "mem \<Rightarrow> u64 \<Rightarrow> nat \<Rightarrow> u64 option" where
  "smp_info m response i = do { a \<leftarrow> ld64 m (smp_cpus response); ld64 m (a + 8 * of_nat i) }"

definition fill_cpu :: "u64 \<Rightarrow> u64 \<Rightarrow> nat \<Rightarrow> mem \<Rightarrow> mem option" where
  "fill_cpu response arr i m = do {
     p \<leftarrow> smp_info m response i;
     processor_id \<leftarrow> ld32 m p;
     m \<leftarrow> st64 m (cpu_id (cpu_at arr i)) (ucast processor_id);
     p \<leftarrow> smp_info m response i;
     lapic_id \<leftarrow> ld32 m (info_lapic_id p);
     st64 m (cpu_lapic_id (cpu_at arr i)) (ucast lapic_id) }"

definition initSMP :: "u64 \<Rightarrow> u64 \<Rightarrow> smp \<Rightarrow> smp option" where
  "initSMP response arr s =
     (if response = NULL then Some s
      else do {
        count \<leftarrow> ld64 (smem s) (smp_cpu_count response);
        let n = (ucast count :: u32);
        m \<leftarrow> for_each (fill_cpu response arr) [0..<nat (sint n)] (smem s);
        m \<leftarrow> st32 m (cpu_started (cpu_at arr 0)) 1;
        Some \<lparr>smem = m, num_cpus = n, ncpu = ucast n\<rparr> })"

definition smpStartAP :: "u64 \<Rightarrow> u64 \<Rightarrow> u64 \<Rightarrow> smp \<Rightarrow> smp option" where
  "smpStartAP response start_func cpu s = do {
     p \<leftarrow> smp_info (smem s) response (unat cpu);
     m \<leftarrow> st64 (smem s) (info_goto_address p) start_func;
     Some (s\<lparr>smem := m\<rparr>) }"

definition sys_halt :: "('s \<Rightarrow> 's) \<Rightarrow> 's \<Rightarrow> u32 \<times> 's" where
  "sys_halt hlt s = (0, hlt s)"

definition sys_print :: "u64 \<Rightarrow> u64 \<Rightarrow> console \<Rightarrow> (u32 \<times> console) option" where
  "sys_print str len c = do { c \<leftarrow> consolePutbuf str len c; Some (0, c) }"

definition sys_getc :: "(iqueue_t \<Rightarrow> iqueue_t) list \<Rightarrow> iqueue_t \<Rightarrow> (u8 \<times> iqueue_t) option" where
  "sys_getc env q = inputGetc env q"

definition sys_exit :: "u32 \<Rightarrow> 's \<Rightarrow> 's" where
  "sys_exit code s = s"

section \<open>The array of processors\<close>

text \<open>
  What the loader leaves: \<open>n\<close> processors with the descriptions at \<open>info i\<close>, whose first cell \<open>ids i\<close> holds both
  identifiers. The cells of the array, also of the entries past its end, are mapped and apart from all that.
\<close>

definition array_cells :: "u64 \<Rightarrow> nat \<Rightarrow> u64 set" where
  "array_cells arr n = (\<lambda>k. arr + 8 * of_nat k) ` {0..<10 * n}"

definition smp_ok :: "mem \<Rightarrow> u64 \<Rightarrow> u64 \<Rightarrow> nat \<Rightarrow> u64 \<Rightarrow> (nat \<Rightarrow> u64) \<Rightarrow> (nat \<Rightarrow> u64) \<Rightarrow> bool" where
  "smp_ok m response arr n a info ids \<longleftrightarrow> response \<noteq> NULL \<and> 0 < n \<and> n < 2 ^ 15 \<and> m (smp_cpu_count response) = Some (of_nat n) \<and> m (smp_cpus response) = Some a \<and>
     (\<forall>i<n. m (a + 8 * of_nat i) = Some (info i) \<and> cell_of (info i) = info i \<and> lane_of (info i) = 0 \<and>
        cell_of (info i + 4) = info i \<and> lane_of (info i + 4) = 32 \<and> m (info i) = Some (ids i)) \<and>
     array_cells arr n \<subseteq> dom m \<and> cell_of (cpu_started arr) = cpu_started arr \<and> lane_of (cpu_started arr) = 0 \<and>
     array_cells arr n \<inter> ({smp_cpus response} \<union> (\<lambda>i. a + 8 * of_nat i) ` {0..<n} \<union> info ` {0..<n}) = {}"

lemma cpu_addrs:
  "cpu_id (cpu_at arr i) = arr + 8 * of_nat (10 * i)" "cpu_lapic_id (cpu_at arr i) = arr + 8 * of_nat (10 * i + 1)"
  "cpu_started (cpu_at arr i) = arr + 8 * of_nat (10 * i + 4)"
  by (simp_all add: cpu_id_def cpu_lapic_id_def cpu_started_def cpu_at_def CPU_BYTES_def)

lemma array_cell: "j < 10 * n \<Longrightarrow> arr + 8 * of_nat j \<in> array_cells arr n"
  unfolding array_cells_def by (rule image_eqI [OF refl]) simp

lemma array_inj:
  assumes "i < 2 ^ 20" "j < 2 ^ 20"
  shows "(arr :: u64) + 8 * of_nat i = arr + 8 * of_nat j \<longleftrightarrow> i = j"
proof -
  have "(of_nat (8 * i) :: u64) = of_nat (8 * j) \<longleftrightarrow> 8 * i = 8 * j" using assms by (intro u64_of_nat_eq) simp_all
  then show ?thesis by simp
qed

definition filled :: "mem \<Rightarrow> u64 \<Rightarrow> nat \<Rightarrow> (nat \<Rightarrow> u64) \<Rightarrow> nat \<Rightarrow> mem \<Rightarrow> bool" where
  "filled m arr n ids k m' \<longleftrightarrow> dom m' = dom m \<and> (\<forall>q. q \<notin> array_cells arr n \<longrightarrow> m' q = m q) \<and>
     (\<forall>i<k. m' (cpu_id (cpu_at arr i)) = Some (ucast (ucast (ids i) :: u32)) \<and>
            m' (cpu_lapic_id (cpu_at arr i)) = Some (ucast (ucast (drop_bit 32 (ids i)) :: u32)))"

lemma fill_cpu_ok:
  assumes ok: "smp_ok m response arr n a info ids" and k: "k < n" and f: "filled m arr n ids k m'"
  shows "\<exists>m''. fill_cpu response arr k m' = Some m'' \<and> filled m arr n ids (Suc k) m''"
proof -
  let ?p = "cpu_id (cpu_at arr k)" and ?q = "cpu_lapic_id (cpu_at arr k)"
  have arr: "?p \<in> array_cells arr n" "?q \<in> array_cells arr n" unfolding cpu_addrs by (rule array_cell, use k in simp)+
  have same: "x q = m q" if "q \<in> {smp_cpus response, a + 8 * of_nat k, info k}" "\<forall>q. q \<notin> array_cells arr n \<longrightarrow> x q = m q" for x q
  proof -
    have "q \<in> {smp_cpus response} \<union> (\<lambda>i. a + 8 * of_nat i) ` {0..<n} \<union> info ` {0..<n}" using that(1) k by auto
    then have "q \<notin> array_cells arr n" using ok unfolding smp_ok_def by blast
    then show ?thesis using that(2) by blast
  qed
  have out: "\<forall>q. q \<notin> array_cells arr n \<longrightarrow> m' q = m q" and dm: "dom m' = dom m" using f by (auto simp: filled_def)
  let ?m1 = "m'(?p \<mapsto> ucast (ucast (ids k) :: u32))"
  let ?m2 = "?m1(?q \<mapsto> ucast (ucast (drop_bit 32 (ids k)) :: u32))"
  have out1: "\<forall>q. q \<notin> array_cells arr n \<longrightarrow> ?m1 q = m q" using out arr(1) by auto
  have o: "m (smp_cpus response) = Some a" "m (a + 8 * of_nat k) = Some (info k)" "m (info k) = Some (ids k)" "cell_of (info k) = info k" "lane_of (info k) = 0"
      "cell_of (info k + 4) = info k" "lane_of (info k + 4) = 32" "array_cells arr n \<subseteq> dom m" "n < 2 ^ 15"
    using ok k unfolding smp_ok_def by blast+
  have mapped: "m' ?p \<noteq> None" "?m1 ?q \<noteq> None" using arr o(8) dm by auto
  have info: "smp_info x response k = Some (info k)" "ld32 x (info k) = Some (ucast (ids k))" "ld32 x (info_lapic_id (info k)) = Some (ucast (drop_bit 32 (ids k)))"
    if "\<forall>q. q \<notin> array_cells arr n \<longrightarrow> x q = m q" for x
    using same [of "smp_cpus response" x] same [of "a + 8 * of_nat k" x] same [of "info k" x] that o
    by (simp_all add: smp_info_def ld64_def ld32_def info_lapic_id_def)
  have st: "st64 m' ?p v = Some (m'(?p \<mapsto> v))" "st64 ?m1 ?q v = Some (?m1(?q \<mapsto> v))" for v
    using mapped by (auto simp only: st64_def split: option.splits)
  have "fill_cpu response arr k m' = Some ?m2"
    using info [where x = m', OF out] info [where x = ?m1, OF out1] st by (simp add: fill_cpu_def)
  moreover have "filled m arr n ids (Suc k) ?m2"
  proof -
    have "?m2 (cpu_id (cpu_at arr i)) = Some (ucast (ucast (ids i) :: u32)) \<and> ?m2 (cpu_lapic_id (cpu_at arr i)) = Some (ucast (ucast (drop_bit 32 (ids i)) :: u32))"
      if i: "i < Suc k" for i
    proof -
      have b: "10 * i < 2 ^ 20" "10 * i + 1 < 2 ^ 20" "10 * k < 2 ^ 20" "10 * k + 1 < 2 ^ 20" using i k o(9) by simp_all
      have n: "10 * i \<noteq> 10 * k + 1" "10 * i + 1 \<noteq> 10 * k" by presburger+
      show ?thesis
      proof (cases "i = k")
        case True
        then show ?thesis using array_inj [OF b(3,4), of arr] by (simp add: cpu_addrs del: of_nat_mult of_nat_add)
      next
        case False
        then have "i < k" using i by simp
        then show ?thesis
          using f False n array_inj [OF b(1,3), of arr] array_inj [OF b(1,4), of arr] array_inj [OF b(2,3), of arr] array_inj [OF b(2,4), of arr]
          by (simp add: filled_def cpu_addrs del: of_nat_mult of_nat_add)
      qed
    qed
    moreover have "dom ?m2 = dom m" using dm arr o(8) by (auto simp del: fun_upd_apply)
    moreover have "\<forall>q. q \<notin> array_cells arr n \<longrightarrow> ?m2 q = m q" using out1 arr(2) by auto
    ultimately show ?thesis unfolding filled_def by blast
  qed
  ultimately show ?thesis by blast
qed

lemma st32_low:
  assumes "m p = Some c" "cell_of p = p" "lane_of p = 0"
  shows "st32 m p v = Some (m(p \<mapsto> (c AND NOT (mask 32)) OR ucast v))"
  using assms by (simp add: st32_def)

lemma initSMP_ok:
  assumes ok: "smp_ok (smem s) response arr n a info ids"
  shows "\<exists>s'. initSMP response arr s = Some s' \<and> num_cpus s' = of_nat n \<and> ncpu s' = of_nat n \<and> filled (smem s) arr n ids n (smem s') \<and>
    ld32 (smem s') (cpu_started arr) = Some 1"
proof -
  have o: "response \<noteq> NULL" "0 < n" "n < 2 ^ 15" "smem s (smp_cpu_count response) = Some (of_nat n)" "array_cells arr n \<subseteq> dom (smem s)"
      "cell_of (cpu_started arr) = cpu_started arr" "lane_of (cpu_started arr) = 0"
    using ok unfolding smp_ok_def by blast+
  have "filled (smem s) arr n ids 0 (smem s)" by (simp add: filled_def)
  then obtain m where m: "for_each (fill_cpu response arr) [0..<n] (smem s) = Some m" "filled (smem s) arr n ids n m"
    using for_each_range [of "filled (smem s) arr n ids" 0 "smem s" n "fill_cpu response arr"] fill_cpu_ok [OF ok] by auto
  have z: "cpu_at arr 0 = arr" by (simp add: cpu_at_def)
  have st: "cpu_started arr = arr + 8 * of_nat 4" by (simp add: cpu_started_def)
  have sa: "cpu_started arr \<in> array_cells arr n" unfolding st using o(2) by (intro array_cell) simp
  then have "cpu_started arr \<in> dom m" using m(2) o(5) unfolding filled_def by blast
  then obtain c where c: "m (cpu_started arr) = Some c" by blast
  let ?m = "m(cpu_started arr \<mapsto> (c AND NOT (mask 32)) OR 1)"
  have ne: "cpu_id (cpu_at arr i) \<noteq> cpu_started arr" "cpu_lapic_id (cpu_at arr i) \<noteq> cpu_started arr" if "i < n" for i
  proof -
    have b: "10 * i < 2 ^ 20" "10 * i + 1 < 2 ^ 20" "4 < (2 ^ 20 :: nat)" using that o(3) by simp_all
    have n: "10 * i \<noteq> 4" "10 * i + 1 \<noteq> 4" by presburger+
    show "cpu_id (cpu_at arr i) \<noteq> cpu_started arr" "cpu_lapic_id (cpu_at arr i) \<noteq> cpu_started arr"
      unfolding st cpu_addrs using array_inj [OF b(1,3), of arr] array_inj [OF b(2,3), of arr] n by blast+
  qed
  have f: "filled (smem s) arr n ids n ?m" using m(2) ne sa c by (auto simp: filled_def)
  have l: "ld32 ?m (cpu_started arr) = Some 1"
  proof -
    have "ucast ((c AND NOT (mask 32)) OR 1 :: u64) = (1 :: u32)"
      by (rule bit_word_eqI) (auto simp: bit_simps)
    then show ?thesis using o(6,7) by (simp add: ld32_def)
  qed
  have "(ucast (of_nat n :: u64) :: u32) = of_nat n" using o(3) by (simp add: word_unat_eq_iff unsigned_ucast_eq unat_of_nat take_bit_nat_eq_self)
  moreover have "sint (of_nat n :: u32) = int n" using o(3) by (simp add: signed_of_nat signed_take_bit_int_eq_self)
  moreover have "(ucast (of_nat n :: u32) :: u16) = of_nat n" using o(3) by (simp add: word_unat_eq_iff unsigned_ucast_eq unat_of_nat take_bit_nat_eq_self)
  ultimately have "initSMP response arr s = Some \<lparr>smem = ?m, num_cpus = of_nat n, ncpu = of_nat n\<rparr>"
    using o(1,4) m(1) st32_low [of m "cpu_started arr" c 1, OF c o(6,7)] by (simp add: initSMP_def ld64_def z)
  then show ?thesis using f l by simp
qed

section \<open>Properties\<close>

text \<open>
  C40: with at most \<^verbatim>\<open>NCPU_MAX\<close> processors, every entry of the array holds the processor and the APIC identifier that the
  boot loader reported for it, the first processor is marked as started, the counts are the reported number, and nothing
  outside the array changes.
\<close>
theorem initSMP_correct:
  assumes "smp_ok (smem s) response arr n a info ids" and "n \<le> NCPU_MAX"
  shows "\<exists>s'. initSMP response arr s = Some s' \<and> num_cpus s' = of_nat n \<and> ncpu s' = of_nat n \<and> ld32 (smem s') (cpu_started arr) = Some 1 \<and>
    (\<forall>i<n. smem s' (cpu_id (cpu_at arr i)) = Some (ucast (ucast (ids i) :: u32)) \<and>
           smem s' (cpu_lapic_id (cpu_at arr i)) = Some (ucast (ucast (drop_bit 32 (ids i)) :: u32))) \<and>
    (\<forall>q. q \<notin> array_cells arr NCPU_MAX \<longrightarrow> smem s' q = smem s q)"
proof -
  have "array_cells arr n \<subseteq> array_cells arr NCPU_MAX" using assms(2) unfolding array_cells_def by (intro image_mono) auto
  then show ?thesis using initSMP_ok [OF assms(1)] unfolding filled_def by blast
qed

definition loader :: "nat \<Rightarrow> mem" where
  "loader n p = (if p = 0x2010 then Some (of_nat n) else if p = 0x2018 then Some 0x3000
     else if p < 0x3000 then Some 0 else if p < 0x4000 then Some 0x4000 else if p = 0x4000 then Some 0x500000003 else None)"

definition demo_smp :: "nat \<Rightarrow> smp" where
  "demo_smp n = \<lparr>smem = loader n, num_cpus = 1, ncpu = 0\<rparr>"

lemma demo_smp_ok:
  assumes n: "0 < n" "n \<le> 9"
  shows "smp_ok (smem (demo_smp n)) 0x2000 0x1000 n 0x3000 (\<lambda>_. 0x4000) (\<lambda>_. 0x500000003)"
proof -
  have u: "unat (b + 8 * of_nat k :: u64) = unat b + 8 * k" if "unat b \<le> 0x4000" "k < 100" for b k
  proof -
    have "unat (8 * of_nat k :: u64) = 8 * k" using that(2) unat_of_nat [of "8 * k", where 'a = 64] by simp
    then show ?thesis using that unat_add_lem [of b "8 * of_nat k"] by simp
  qed
  have tab: "0x3000 \<le> (0x3000 + 8 * of_nat i :: u64)" "(0x3000 + 8 * of_nat i :: u64) < 0x4000" if "i < n" for i
    using that n u [of "0x3000" i] by (simp_all add: word_le_nat_alt word_less_nat_alt)
  have ar: "(0x1000 + 8 * of_nat k :: u64) < 0x2000" if "k < 10 * n" for k
    using that n u [of "0x1000" k] by (simp add: word_less_nat_alt)
  have c: "cell_of 0x4000 = 0x4000" "lane_of 0x4000 = 0" "cell_of 0x4004 = 0x4000" "lane_of 0x4004 = 32" "cell_of 0x1020 = 0x1020" "lane_of 0x1020 = 0"
    by code_simp+
  have t: "loader n (0x3000 + 8 * of_nat i) = Some 0x4000" if "i < n" for i
  proof -
    have ne: "q \<noteq> 0x2010 \<and> q \<noteq> 0x2018 \<and> \<not> q < 0x3000" if "0x3000 \<le> q" for q :: u64 using that by auto
    have "(0x3000 + 8 * of_nat i :: u64) \<noteq> 0x2010" "(0x3000 + 8 * of_nat i :: u64) \<noteq> 0x2018" "\<not> (0x3000 + 8 * of_nat i :: u64) < 0x3000"
      using ne [OF tab(1) [OF that]] by blast+
    then show ?thesis unfolding loader_def using tab(2) [OF that] by (simp only: if_False if_True)
  qed
  have d: "q \<in> dom (loader n) \<and> q < 0x2000" if "q \<in> array_cells 0x1000 n" for q
  proof -
    have q: "q < 0x2000" using that ar by (auto simp: array_cells_def)
    then have "q < 0x3000" by (rule less_trans) simp
    then show ?thesis using q by (auto simp: loader_def)
  qed
  then have "array_cells 0x1000 n \<subseteq> dom (loader n)" by blast
  moreover have "array_cells 0x1000 n \<inter> ({0x2018} \<union> (\<lambda>i. 0x3000 + 8 * of_nat i) ` {0..<n} \<union> (\<lambda>_. 0x4000) ` {0..<n}) = {}"
  proof -
    have "\<not> q < 0x2000" if q: "q \<in> {0x2018} \<union> (\<lambda>i. 0x3000 + 8 * of_nat i) ` {0..<n} \<union> (\<lambda>_. 0x4000 :: u64) ` {0..<n}" for q
    proof -
      consider "q = 0x2018" | "q = 0x4000" | i where "i < n" "q = 0x3000 + 8 * of_nat i" using q by auto
      then show ?thesis
      proof cases
        case 3
        then have "0x3000 \<le> q" using tab(1) by simp
        then have "0x2000 \<le> q" by (rule order_trans [rotated]) simp
        then show ?thesis by (simp add: not_less)
      qed simp_all
    qed
    then show ?thesis using d by blast
  qed
  ultimately show ?thesis
    unfolding smp_ok_def using n c t by (simp add: demo_smp_def smp_cpu_count_def smp_cpus_def cpu_started_def) (simp add: loader_def)
qed

theorem initSMP_correct_witness:
  "\<exists>s. initSMP 0x2000 0x1000 (demo_smp 2) = Some s \<and> ncpu s = 2 \<and> smem s (cpu_id (cpu_at 0x1000 1)) = Some 3 \<and> smem s (cpu_lapic_id (cpu_at 0x1000 1)) = Some 5"
proof -
  have ok: "smp_ok (smem (demo_smp 2)) 0x2000 0x1000 2 0x3000 (\<lambda>_. 0x4000) (\<lambda>_. 0x500000003)" by (rule demo_smp_ok) simp_all
  have "2 \<le> NCPU_MAX" by (simp add: NCPU_MAX_def)
  from initSMP_correct [OF ok this] obtain s where "initSMP 0x2000 0x1000 (demo_smp 2) = Some s" "ncpu s = of_nat 2"
      "\<forall>i<2. smem s (cpu_id (cpu_at 0x1000 i)) = Some (ucast (ucast (0x500000003 :: u64) :: u32)) \<and>
        smem s (cpu_lapic_id (cpu_at 0x1000 i)) = Some (ucast (ucast (drop_bit 32 (0x500000003 :: u64)) :: u32))" by blast
  moreover have "(ucast (ucast (0x500000003 :: u64) :: u32) :: u64) = 3" "(ucast (ucast (drop_bit 32 0x500000003 :: u64) :: u32) :: u64) = 5" by simp_all
  ultimately show ?thesis by (intro exI [of _ s]) simp
qed

text \<open>
  The number of processors is not compared with the size of the array: for each processor from \<^verbatim>\<open>NCPU_MAX\<close> on, its
  identifier is stored in the memory behind the array.
\<close>
theorem initSMP_overrun:
  assumes "smp_ok (smem s) response arr n a info ids" and "NCPU_MAX \<le> i" and "i < n"
  shows "cpu_id (cpu_at arr i) \<notin> array_cells arr NCPU_MAX \<and>
    (\<exists>s'. initSMP response arr s = Some s' \<and> smem s' (cpu_id (cpu_at arr i)) = Some (ucast (ucast (ids i) :: u32)))"
proof -
  have n: "n < 2 ^ 15" using assms(1) unfolding smp_ok_def by blast
  have "arr + 8 * of_nat (10 * i) \<noteq> arr + 8 * of_nat k" if "k < 10 * NCPU_MAX" for k
  proof -
    have "10 * i < 2 ^ 20" "k < 2 ^ 20" "10 * i \<noteq> k" using assms(2,3) n that by (simp_all add: NCPU_MAX_def)
    then show ?thesis using array_inj by blast
  qed
  then have "cpu_id (cpu_at arr i) \<notin> array_cells arr NCPU_MAX"
    unfolding cpu_addrs array_cells_def by (intro notI) (elim imageE, use atLeastLessThan_iff in blast)
  then show ?thesis using initSMP_ok [OF assms(1)] assms(3) unfolding filled_def by blast
qed

theorem initSMP_overrun_witness:
  "\<exists>s. initSMP 0x2000 0x1000 (demo_smp 9) = Some s \<and> smem s 0x1280 = Some 3"
proof -
  have "smp_ok (smem (demo_smp 9)) 0x2000 0x1000 9 0x3000 (\<lambda>_. 0x4000) (\<lambda>_. 0x500000003)" by (rule demo_smp_ok) simp_all
  from initSMP_overrun [OF this, of 8] show ?thesis by (simp add: NCPU_MAX_def cpu_id_def cpu_at_def CPU_BYTES_def)
qed

end
