(* ===== verification/Spec2Isabelle.thy ===== *)
theory Spec2Isabelle
  imports Linked_List_Sort Input Pmm_Init Stdio_Correct Paging_Correct Heap_Client Console Keyboard Pci Nvme Threads_Correct Smp
begin

text \<open>
  A verification library for AnglOS, a small x86-64 kernel in C (\<^verbatim>\<open>src/kernel\<close>). File names below are relative to
  that directory.

  \<^bold>\<open>The program.\<close> The boot loader enters \<^verbatim>\<open>boot/kernel.c\<close>, which sets up, in this order, the segment descriptors
  (\<^verbatim>\<open>boot/gdt\<close>), the physical memory manager (\<^verbatim>\<open>mm/pmm\<close>, a buddy allocator over bitmaps), the boot modules (\<^verbatim>\<open>fs\<close>), the
  frame buffer (\<^verbatim>\<open>device/vga\<close>), the table of processors (\<^verbatim>\<open>boot/cpu\<close>), the task state with its interrupt stacks
  (\<^verbatim>\<open>boot/tss\<close>, pages from the memory manager), the interrupt descriptors (\<^verbatim>\<open>boot/interrupts\<close>), paging (\<^verbatim>\<open>mm/paging\<close>, tables from
  the memory manager), the kernel heap (\<^verbatim>\<open>mm/heap\<close>, in a region mapped by paging), the interrupt controllers and timers
  (\<^verbatim>\<open>device/8259\<close>, \<^verbatim>\<open>acpi\<close>, \<^verbatim>\<open>apic\<close>, \<^verbatim>\<open>hpet\<close>), the input queue (\<^verbatim>\<open>device/input\<close>), the console (\<^verbatim>\<open>libc/kernel/console.c\<close>), the
  keyboard (\<^verbatim>\<open>device/keyboard\<close>) and the threads (\<^verbatim>\<open>threads\<close>). It then loads two ELF programs from boot modules
  (\<^verbatim>\<open>user/elf.c\<close>) into address spaces of their own (\<^verbatim>\<open>mm/addressspace\<close>), starts the timer and enters the first one; from then
  on the kernel runs on interrupts and system calls. Components interact through calls, through shared kernel
  memory (intrusive lists, structures with pointers), and through the interrupt handlers: the keyboard handler fills the
  queue that readers wait on, the timer handler switches threads.

  \<^bold>\<open>The model.\<close> Pure C functions are HOL functions; code with state takes and returns the state, a record per
  component; anything that can fault or not return yields an option, \<open>None\<close> being a fault (an access to an unmapped
  address or outside an array) or a loop that never ends. Machine integers are words of their width, so
  wrap-around is part of every statement. Kernel memory is a partial map of 8-byte cells with 64-bit and byte access
  (theory \<open>Prelude\<close>), and structures are fields at their offsets. Loops over data that the code does not bound are
  partial functions, never fuel, so that a defined result is a proof that the loop ends. A loop that halts until an
  interrupt takes the list of what the interrupts do to the state, one entry per halt. Ports and
  memory-mapped registers are parameters (records of transition functions on a hardware state, theory \<open>Ports\<close>); what a theorem needs of the
  hardware is a named hypothesis, such as \<open>config_mechanism\<close> for the PCI bridge.

  \<^bold>\<open>The theories\<close>, with the sources they model and what they show:

  \<^item> \<open>Prelude\<close>: the machine types, memory, loops, and the contract \<open>storage\<close> of a memory; \<open>Fifo\<close>: the contract of a queue;
    \<open>Page_Allocator\<close> and \<open>Object_Allocator\<close>: the contracts of allocators, with what their clients may conclude (live
    allocations are disjoint after every sequence of operations).
  \<^item> \<open>Linked_List\<close>, \<open>Linked_List_Sort\<close> (\<^verbatim>\<open>libc/kernel/list.c\<close>): every list operation against a list of addresses; the
    merge sort is a stable sort; the list is a \<open>fifo\<close>.
  \<^item> \<open>Spinlock\<close> (\<^verbatim>\<open>threads/spinlock.h\<close>): mutual exclusion under every interleaving.
  \<^item> \<open>Input\<close> (\<^verbatim>\<open>device/input\<close>): the ring buffer is a \<open>fifo\<close>; no stored byte is lost however reader and handler interleave, one memory
    access at a time, and a byte that arrives is discarded only when 31 are waiting; a blocked reader gets the next byte.
  \<^item> \<open>CString\<close> (\<^verbatim>\<open>libc/string.c\<close>), \<open>Stdio\<close> and \<open>Stdio_Correct\<close> (\<^verbatim>\<open>libc/stdio.c\<close>, \<^verbatim>\<open>ctype.h\<close>, \<^verbatim>\<open>round.h\<close>): the string functions, and
    formatted output against a reference for digits and layout; the contract \<open>sink_sim\<close> between the streaming interpreter
    and the text it produces is used for buffers and for the console.
  \<^item> \<open>Pmm\<close>, \<open>Pmm_Correct\<close>, \<open>Pmm_Init\<close>, \<open>Pmm_Frame\<close> (\<^verbatim>\<open>mm/pmm\<close>): the bitmaps represent a set of free pages; initialisation,
    allocation and release refine operations on that set; the manager touches its bitmaps only.
  \<^item> \<open>Paging\<close>, \<open>Paging_Tables\<close>, \<open>Paging_Correct\<close> (\<^verbatim>\<open>mm/paging\<close>): page tables as a tree; mapping changes exactly the
    translations asked for and keeps the tree, provided that free pages are zero in their entries 1 to 511, since a new table
    is cleared in its first entry only; what a new table holds otherwise.
  \<^item> \<open>Heap\<close>, \<open>Heap_Layout\<close>, \<open>Heap_Correct\<close>, \<open>Heap_Client\<close> (\<^verbatim>\<open>mm/heap\<close>): boundary tags and free lists represent a tiling by
    blocks; allocation and release keep it, and the heap is an \<open>object_allocator\<close>.
  \<^item> \<open>Ports\<close>, \<open>Kmodule\<close> (\<^verbatim>\<open>device/io.h\<close>, \<^verbatim>\<open>fs/kmodule.c\<close>), \<open>Text\<close>, \<open>Text_Correct\<close>, \<open>Text_Screen\<close> (\<^verbatim>\<open>device/vga\<close>), \<open>Console\<close>: the frame
    buffer refines a display of characters with scrolling and a cursor; formatted output puts its text on it.
  \<^item> \<open>Descriptors\<close> (\<^verbatim>\<open>boot/gdt\<close>, \<^verbatim>\<open>boot/tss\<close>, \<^verbatim>\<open>boot/interrupts\<close>): descriptor tables; the task state of a CPU with its stacks and the descriptor
    that leads to it; the gates and handlers after any sequence of registrations.
  \<^item> \<open>Apic\<close> (\<^verbatim>\<open>device/8259\<close>, \<^verbatim>\<open>acpi\<close>, \<^verbatim>\<open>apic\<close>, \<^verbatim>\<open>hpet\<close>): interrupt controllers and timers.
  \<^item> \<open>Keyboard\<close> (\<^verbatim>\<open>device/keyboard\<close>): scan codes of a text become that text.
  \<^item> \<open>Pci\<close> (\<^verbatim>\<open>device/pci\<close>): configuration addresses, reads of all widths, the walk along the capabilities.
  \<^item> \<open>Nvme\<close> (\<^verbatim>\<open>device/nvme\<close>): the whole driver; the controller decodes from a slot the request that was made, the
    phase follows the passes through the completion queue, and the search finds the first controller.
  \<^item> \<open>Address_Space\<close> (\<^verbatim>\<open>mm/addressspace\<close>, \<^verbatim>\<open>user/elf.c\<close>): regions, the pages and page flags they get, loading a
    program.
  \<^item> \<open>Threads\<close>, \<open>Threads_Correct\<close> (\<^verbatim>\<open>threads/thread.c\<close>, \<^verbatim>\<open>initSyscall\<close>): creation, the ready list, the timer interrupt; the
    search returns the first thread with the least runtime, blocking and scheduling act on the list as meant, and no
    ready thread starves.
  \<^item> \<open>Smp\<close> (\<^verbatim>\<open>boot/cpu/smp.c\<close>, \<^verbatim>\<open>user/syscall_defs.c\<close>): the table of processors and the system calls.
  \<^item> this theory: what is typed on the keyboard is what a program reads.

  Where the code does something else than it means to, the model follows the code; such behaviour is either excluded by a
  hypothesis that the theorem states or is a theorem itself (the last ready thread scheduled
  again, a request of 4 GiB, the entries of a new page table).

  \<^bold>\<open>Bounds.\<close> Statements about memory assume that structures do not overlap and do not wrap around the address space
  (\<open>apart\<close>, \<open>span\<close>, \<open>cells_ok\<close>). The theorem on starvation assumes that no runtime reaches \<open>2 ^ 64 - 1\<close> microseconds
  during the wait, and speaks of interrupts that arrive in user mode; \<open>Smp\<close> assumes fewer than \<open>2 ^ 15\<close> processors, so that the count fits the signed loop counter.

  \<^bold>\<open>Not modelled.\<close> The assembly (context switch, entry stubs, reload of descriptor registers; \<open>swapgs\<close> of the entry stub is
  written out where the scheduler depends on it, for the path of an interrupt that arrives in user mode, and not for a thread
  pre-empted inside a system call, which the stub resumes without it); \<^verbatim>\<open>initSSE\<close>, \<^verbatim>\<open>cli\<close>, \<^verbatim>\<open>sti\<close>, which only change processor flags; the order of
  calls in \<^verbatim>\<open>_start\<close> and \<^verbatim>\<open>_start_ap\<close>, and \<^verbatim>\<open>mainLoop\<close>, which is not called and prints from heap memory while the console is
  modelled over display memory; \<^verbatim>\<open>boot/limine.h\<close>, the protocol of the boot loader, apart from the structures used above;
  the user-space library and programs (\<^verbatim>\<open>libc/user\<close>, \<^verbatim>\<open>userprogs\<close>), inline assembly around the \<^verbatim>\<open>syscall\<close> instruction. The TLB, the
  caches and the ordering of memory accesses between processors are not modelled; locks are, byte by byte.
\<close>

section \<open>From the keyboard to a program\<close>

primrec read_chars :: "nat \<Rightarrow> iqueue_t \<Rightarrow> (u8 list \<times> iqueue_t) option" where
  "read_chars 0 q = Some ([], q)"
| "read_chars (Suc n) q = do { (c, q) \<leftarrow> sys_getc [] q; (cs, q) \<leftarrow> read_chars n q; Some (c # cs, q) }"

lemma sys_getc_ok:
  assumes "iq_rep q (c # xs)" "lock q = 0"
  shows "\<exists>q'. sys_getc [] q = Some (c, q') \<and> iq_rep q' xs \<and> lock q' = 0"
proof -
  have "iq_rep (q\<lparr>lock := BUSY\<rparr>) (c # xs)" using assms(1) by simp
  from iqueueGetc_ok [OF this, of "[]"] assms(2) show ?thesis
    by (auto simp: sys_getc_def inputGetc_def inputLock_def iqueueLock_def spinLock_ok inputUnlock_def iqueueUnlock_def spinUnlock_def)
qed

lemma read_chars_ok:
  assumes "iq_rep q xs" "lock q = 0"
  shows "\<exists>q'. read_chars (length xs) q = Some (xs, q') \<and> iq_rep q' [] \<and> lock q' = 0"
  using assms
proof (induction xs arbitrary: q)
  case (Cons c xs)
  obtain q' where "sys_getc [] q = Some (c, q')" "iq_rep q' xs" "lock q' = 0" using sys_getc_ok [OF Cons.prems] by blast
  then show ?case using Cons.IH by fastforce
qed simp

text \<open>
  C8: what is typed is what a program reads. After the input queue has been initialised, the interrupts of typing
  any text of up to 31 characters that have keys, and then as many system calls that read one character,
  all return, the calls return the text, in order, and the queue is empty and unlocked again. The hypothesis on
  the hardware is that the data port delivers the scan code the keyboard has presented.
\<close>
theorem typed_text_is_read:
  assumes data_port: "\<And>b d. fst (inb io KEYBOARD_DATA_PORT (present b d)) = b"
    and keys: "\<forall>c\<in>set str. keystrokes c \<noteq> None" and k: "idle_keys k" and room: "length str \<le> 31" and buf: "length (buf q) = 32"
  shows "\<exists>k' q' d' q''. interrupts io mm a after after_shift present (typed str) (k, initInputQueue q, d) = Some (k', q', d') \<and>
    idle_keys k' \<and> read_chars (length str) q' = Some (str, q'') \<and> iq_rep q'' [] \<and> lock q'' = 0"
proof -
  have q: "iq_rep (initInputQueue q) []" "lock (initInputQueue q) = 0"
    using initIQueue_ok [OF buf] by (simp_all add: initInputQueue_def initIQueue_def spinInit_def)
  have len: "length ([] :: u8 list) + length str \<le> 31" using room by simp
  obtain k' q' d' where t: "interrupts io mm a after after_shift present (typed str) (k, initInputQueue q, d) = Some (k', q', d')"
      "quiet k k'" "iq_rep q' ([] @ str)" "lock q' = lock (initInputQueue q)"
    using typed_ok [where io = io and present = present, OF data_port keys k q(1) len] by blast
  then show ?thesis using read_chars_ok [of q' str] q(2) by (auto simp: quiet_def)
qed

theorem typed_text_is_read_witness:
  "\<exists>k' q' d' q''. interrupts demo_port demo_mmio demo_apic [] [] (\<lambda>b d. b) [42, 30, 158, 170, 48, 176] (initial_keyboard, initInputQueue demo_queue, 0) = Some (k', q', d') \<and>
     read_chars 2 q' = Some (bytes_of ''Ab'', q'')"
proof -
  have t: "typed (bytes_of ''Ab'') = [42, 30, 158, 170, 48, 176]" by code_simp
  have keys: "\<forall>c\<in>set (bytes_of ''Ab''). keystrokes c \<noteq> None" by code_simp
  have port: "fst (inb demo_port KEYBOARD_DATA_PORT b) = b" for b by (simp add: demo_port_def)
  have k: "idle_keys initial_keyboard" by (simp add: idle_keys_def initial_keyboard_def)
  have l: "length (bytes_of ''Ab'') = 2" "length (bytes_of ''Ab'') \<le> 31" "length (buf demo_queue) = 32" by (simp_all add: demo_queue_def initIQueue_def)
  show ?thesis
    using typed_text_is_read [of demo_port "\<lambda>b d. b", OF port keys k l(2,3), where mm = demo_mmio and a = demo_apic and after = "[]" and after_shift = "[]" and d = 0]
    unfolding t l(1) by blast
qed

end
